(* ===== verification/Prelude.thy ===== *)
theory Prelude
  imports Main "HOL-Library.Word"
begin

text \<open>
  Shared vocabulary of the development: machine types of the x86-64 kernel, the result type in
  which a halted kernel (the \<open>BUG\<close> and \<open>BUG_ON\<close> macros of \<^verbatim>\<open>inc/debug.h\<close>) and a fault are values,
  the collections of rewrite rules the component theories fill, and generic facts on words,
  functions and lists.
\<close>

unbundle bit_operations_syntax

section \<open>Machine types\<close>

type_synonym u8 = "8 word"
type_synonym u16 = "16 word"
type_synonym u32 = "32 word"
type_synonym u64 = "64 word"
type_synonym addr = "64 word"

abbreviation (input) NULL :: addr where
  "NULL \<equiv> 0"

section \<open>Failures as values\<close>

text \<open>
  \<open>Bug msg\<close> is the kernel stopping in \<^verbatim>\<open>BUG(msg)\<close> or \<^verbatim>\<open>BUG_ON(msg)\<close>: the macro disables interrupts
  and executes \<^verbatim>\<open>hlt\<close> for ever, so nothing after it runs. \<open>Fault msg\<close> is an access the C code must
  not make (a null pointer, an index past an array) on which the model stops.
\<close>

datatype kerror = Bug string | Fault string

type_synonym 'a res = "kerror + 'a"

definition bindR :: "'a res \<Rightarrow> ('a \<Rightarrow> 'b res) \<Rightarrow> 'b res" where
  "bindR m f = (case m of Inl e \<Rightarrow> Inl e | Inr x \<Rightarrow> f x)"

lemma bindR_simps [simp]: "bindR (Inl e) f = Inl e" "bindR (Inr x) f = f x"
  by (simp_all add: bindR_def)

lemma bindR_eq_Inr: "bindR m f = Inr y \<longleftrightarrow> (\<exists>x. m = Inr x \<and> f x = Inr y)"
  by (simp add: bindR_def split: sum.split)

lemma bindR_InrE [elim]:
  assumes "bindR m f = Inr y"
  obtains x where "m = Inr x" and "f x = Inr y"
  using assms by (auto simp: bindR_eq_Inr)

lemma bindR_assoc: "bindR (bindR m f) g = bindR m (\<lambda>x. bindR (f x) g)"
  by (simp add: bindR_def split: sum.split)

text \<open>
  Code with a loop that may not end returns \<open>'a res option\<close>, the outer \<open>None\<close> for a computation
  that does not end.
\<close>

definition bindO :: "'a res option \<Rightarrow> ('a \<Rightarrow> 'b res option) \<Rightarrow> 'b res option" where
  "bindO m f = Option.bind m (\<lambda>r. case r of Inl e \<Rightarrow> Some (Inl e) | Inr x \<Rightarrow> f x)"

lemma bindO_simps [simp]:
  "bindO None f = None" "bindO (Some (Inl e)) f = Some (Inl e)" "bindO (Some (Inr x)) f = f x"
  by (simp_all add: bindO_def)

lemma bindO_eq_Inr: "bindO m f = Some (Inr y) \<longleftrightarrow> (\<exists>x. m = Some (Inr x) \<and> f x = Some (Inr y))"
  by (cases m) (auto simp: bindO_def split: sum.split)

lemma bindO_assoc: "bindO (bindO m f) g = bindO m (\<lambda>x. bindO (f x) g)"
  by (cases m) (auto simp: bindO_def split: sum.split)

lemma bindO_mono [partial_function_mono]:
  assumes "mono_option B" "\<And>y. mono_option (\<lambda>f. C y f)"
  shows "mono_option (\<lambda>f. bindO (B f) (\<lambda>y. C y f))"
  unfolding bindO_def
proof (rule bind_mono [OF assms(1)])
  fix r :: "kerror + 'c"
  show "mono_option (\<lambda>f. case r of Inl e \<Rightarrow> Some (Inl e) | Inr x \<Rightarrow> C x f)"
    using assms(2) by (cases r) (auto intro: option.const_mono)
qed

section \<open>Functions and lists\<close>

lemma fun_upd_eq_at: "(f(a := v)) b = (if b = a then v else f b)"
  by simp

lemma remove1_middle: "x \<notin> set as \<Longrightarrow> remove1 x (as @ x # bs) = as @ bs"
  by (simp add: remove1_append)

section \<open>Words\<close>

lemma unat_add_no_wrap:
  fixes x y :: "'a::len word"
  shows "unat x + unat y < 2 ^ LENGTH('a) \<Longrightarrow> unat (x + y) = unat x + unat y"
  by (simp add: unat_word_ariths)

lemma unat_sub_le:
  fixes x y :: "'a::len word"
  shows "y \<le> x \<Longrightarrow> unat (x - y) = unat x - unat y"
  by (rule unat_sub)

lemma bit_nat_ge: "bit (n::nat) k \<Longrightarrow> 2 ^ k \<le> n"
  by (rule ccontr) (simp add: bit_iff_odd)

lemma not_bit_nat_less:
  assumes "\<not> bit (n::nat) k" "n < 2 ^ Suc k"
  shows "n < 2 ^ k"
proof -
  have "n div 2 ^ k < 2" using assms(2) by (simp add: div_less_iff_less_mult)
  moreover have "even (n div 2 ^ k)" using assms(1) by (simp add: bit_iff_odd)
  ultimately have "n div 2 ^ k = 0" by (cases "n div 2 ^ k = 1") auto
  then show ?thesis by (simp add: div_eq_0_iff)
qed

lemma unat_drop_bit_div:
  fixes w :: "'a::len word"
  shows "unat (drop_bit n w) = unat w div 2 ^ n"
  by (subst unat_drop_bit_eq) (rule drop_bit_eq_div)

lemma unat64_less: "unat (w :: u64) < 2 ^ 64"
  using unsigned_less [of w] by simp

lemma unat_of_nat64: "k < 2 ^ 64 \<Longrightarrow> unat (of_nat k :: u64) = k"
  by (simp add: unat_of_nat take_bit_nat_eq_self)

lemma unat_add_1: "(a :: u64) < b \<Longrightarrow> unat (a + 1) = unat a + 1"
  using unat64_less [of b] by (subst unat_add_no_wrap) (simp_all add: word_less_nat_alt)

lemma unat_push_1: "n < 64 \<Longrightarrow> unat (push_bit n 1 :: u64) = 2 ^ n"
proof -
  assume n: "n < 64"
  have "push_bit n (1 :: u64) = of_nat (2 ^ n)" by (simp add: push_bit_eq_mult)
  moreover have "(2::nat) ^ n < 2 ^ 64" using n by (intro power_strict_increasing) auto
  ultimately show ?thesis using unat_of_nat64 [of "2 ^ n"] by (simp only:)
qed

lemma of_nat64_less: "i < 2 ^ 64 \<Longrightarrow> j < 2 ^ 64 \<Longrightarrow> (of_nat i :: u64) < of_nat j \<longleftrightarrow> i < j"
  by (simp add: word_less_nat_alt unat_of_nat64)

lemma of_nat64_le: "i < 2 ^ 64 \<Longrightarrow> j < 2 ^ 64 \<Longrightarrow> (of_nat i :: u64) \<le> of_nat j \<longleftrightarrow> i \<le> j"
  by (simp add: word_le_nat_alt unat_of_nat64)

lemma of_nat64_eq: "i < 2 ^ 64 \<Longrightarrow> j < 2 ^ 64 \<Longrightarrow> (of_nat i :: u64) = of_nat j \<longleftrightarrow> i = j"
  by (metis unat_of_nat64)

end
