(* ===== verification/KList.thy ===== *)
theory KList
  imports Prelude
begin

text \<open>
  The intrusive circular doubly linked list of \<^verbatim>\<open>src/list.c\<close> and \<^verbatim>\<open>inc/list.h\<close>, on the links
  themselves: a heap holds the \<open>next\<close> and \<open>prev\<close> field of the \<^verbatim>\<open>struct list_head\<close> at every
  address, and each operation performs the assignments of its C function in their order.
  A relation \<open>heap_lists\<close> ties such a heap to a family of HOL lists, one per list head, and a locale
  states what each operation does to that family; clients reason with the family only.
\<close>

section \<open>The code\<close>

record lheap =
  lh_next :: "addr \<Rightarrow> addr"
  lh_prev :: "addr \<Rightarrow> addr"

definition set_next :: "addr \<Rightarrow> addr \<Rightarrow> lheap \<Rightarrow> lheap" where
  "set_next a v h = h\<lparr>lh_next := (lh_next h)(a := v)\<rparr>"

definition set_prev :: "addr \<Rightarrow> addr \<Rightarrow> lheap \<Rightarrow> lheap" where
  "set_prev a v h = h\<lparr>lh_prev := (lh_prev h)(a := v)\<rparr>"

definition list_init :: "addr \<Rightarrow> lheap \<Rightarrow> lheap" where
  "list_init head h = set_next head head (set_prev head head h)"

definition list_insert :: "addr \<Rightarrow> addr \<Rightarrow> addr \<Rightarrow> lheap \<Rightarrow> lheap" where
  "list_insert new prev nxt h =
     (let h = set_prev new prev h;
          h = set_next new nxt h;
          h = set_next prev new h
      in set_prev nxt new h)"

definition list_add :: "addr \<Rightarrow> addr \<Rightarrow> lheap \<Rightarrow> lheap" where
  "list_add new head h = list_insert new head (lh_next h head) h"

definition list_add_tail :: "addr \<Rightarrow> addr \<Rightarrow> lheap \<Rightarrow> lheap" where
  "list_add_tail new head h = list_insert new (lh_prev h head) head h"

definition list_insert_after :: "addr \<Rightarrow> addr \<Rightarrow> lheap \<Rightarrow> lheap" where
  "list_insert_after new node h = list_add new node h"

definition list_insert_before :: "addr \<Rightarrow> addr \<Rightarrow> lheap \<Rightarrow> lheap" where
  "list_insert_before new node h = list_add_tail new node h"

definition raw_list_del :: "addr \<Rightarrow> addr \<Rightarrow> lheap \<Rightarrow> lheap" where
  "raw_list_del prev nxt h = (let h = set_next prev nxt h in set_prev nxt prev h)"

definition list_del :: "addr \<Rightarrow> lheap \<Rightarrow> lheap" where
  "list_del entry h =
     (let h = raw_list_del (lh_prev h entry) (lh_next h entry) h;
          h = set_next entry NULL h
      in set_prev entry NULL h)"

definition list_empty :: "addr \<Rightarrow> lheap \<Rightarrow> bool" where
  "list_empty head h \<longleftrightarrow> lh_next h head = head"

definition raw_list_splice :: "addr \<Rightarrow> addr \<Rightarrow> addr \<Rightarrow> lheap \<Rightarrow> lheap" where
  "raw_list_splice list prev nxt h =
     (let first = lh_next h list;
          last = lh_prev h list;
          h = set_prev first prev h;
          h = set_next prev first h;
          h = set_next last nxt h
      in set_prev nxt last h)"

definition list_splice :: "addr \<Rightarrow> addr \<Rightarrow> lheap \<Rightarrow> lheap" where
  "list_splice list head h =
     (if \<not> list_empty list h
      then list_init list (raw_list_splice list head (lh_next h head) h)
      else h)"

definition list_first :: "addr \<Rightarrow> lheap \<Rightarrow> addr" where
  "list_first head h = lh_next h head"

text \<open>
  The loop of \<^verbatim>\<open>list_size\<close> follows \<open>next\<close> until it is back at the head; on links that never come
  back it does not end, which is \<open>None\<close>. The counter is a \<^verbatim>\<open>size_t\<close>.
\<close>

partial_function (option) list_size_from :: "addr \<Rightarrow> addr \<Rightarrow> u64 \<Rightarrow> lheap \<Rightarrow> u64 option" where
  "list_size_from head pos n h =
     (if pos = head then Some n else list_size_from head (lh_next h pos) (n + 1) h)"

definition list_size :: "addr \<Rightarrow> lheap \<Rightarrow> u64 option" where
  "list_size head h = list_size_from head (lh_next h head) 0 h"

section \<open>Circular lists in a heap\<close>

text \<open>
  \<open>linked h xs\<close>: each element of \<open>xs\<close> points to the next one, and is pointed back to by it.
  \<open>circ h l xs\<close>: the nodes \<open>xs\<close>, in this order, form the circular list with head \<open>l\<close>.
\<close>

fun linked :: "lheap \<Rightarrow> addr list \<Rightarrow> bool" where
  "linked h (a # b # xs) \<longleftrightarrow> lh_next h a = b \<and> lh_prev h b = a \<and> linked h (b # xs)"
| "linked h _ \<longleftrightarrow> True"

definition circ :: "lheap \<Rightarrow> addr \<Rightarrow> addr list \<Rightarrow> bool" where
  "circ h l xs \<longleftrightarrow> linked h (l # xs @ [l]) \<and> distinct (l # xs) \<and> NULL \<notin> set (l # xs)"

text \<open>A family of lists: every head with its nodes, no address in two of them.\<close>

type_synonym lfamily = "addr \<rightharpoonup> addr list"

definition members :: "lfamily \<Rightarrow> addr set" where
  "members L = {a. \<exists>l xs. L l = Some xs \<and> a \<in> set (l # xs)}"

definition heap_lists :: "lheap \<Rightarrow> lfamily \<Rightarrow> bool" where
  "heap_lists h L \<longleftrightarrow>
     (\<forall>l xs. L l = Some xs \<longrightarrow> circ h l xs) \<and>
     (\<forall>l l2 xs xs'. l \<noteq> l2 \<longrightarrow> L l = Some xs \<longrightarrow> L l2 = Some xs' \<longrightarrow>
        set (l # xs) \<inter> set (l2 # xs') = {})"

lemma set_next_sel [simp]:
  "lh_next (set_next a v h) = (lh_next h)(a := v)" "lh_prev (set_next a v h) = lh_prev h"
  by (simp_all add: set_next_def)

lemma set_prev_sel [simp]:
  "lh_prev (set_prev a v h) = (lh_prev h)(a := v)" "lh_next (set_prev a v h) = lh_next h"
  by (simp_all add: set_prev_def)

lemmas list_op_defs = list_init_def list_insert_def list_add_def list_add_tail_def
  raw_list_del_def list_del_def list_empty_def raw_list_splice_def list_splice_def
  list_first_def list_insert_after_def list_insert_before_def

lemma linked_append: "linked h (xs @ a # ys) \<longleftrightarrow> linked h (xs @ [a]) \<and> linked h (a # ys)"
proof (induction xs)
  case (Cons x xs)
  then show ?case by (cases xs) auto
qed simp

lemma linked_Cons: "linked h (a # xs) \<longleftrightarrow>
    (xs = [] \<or> lh_next h a = hd xs \<and> lh_prev h (hd xs) = a \<and> linked h xs)"
  by (cases xs) auto

lemma linked_join:
  "xs \<noteq> [] \<Longrightarrow> ys \<noteq> [] \<Longrightarrow> linked h (xs @ ys) \<longleftrightarrow>
     linked h xs \<and> linked h ys \<and> lh_next h (last xs) = hd ys \<and> lh_prev h (hd ys) = last xs"
proof (induction xs)
  case (Cons x xs)
  then show ?case by (cases xs) (auto simp: linked_Cons)
qed simp

text \<open>Links only matter where the list has nodes: \<open>next\<close> except at its end, \<open>prev\<close> except at its start.\<close>

lemma linked_cong:
  assumes "\<And>a. a \<in> set (butlast xs) \<Longrightarrow> lh_next h' a = lh_next h a"
    and "\<And>a. a \<in> set (tl xs) \<Longrightarrow> lh_prev h' a = lh_prev h a"
  shows "linked h' xs = linked h xs"
  using assms by (induction h xs rule: linked.induct) auto

lemma circ_cong:
  assumes "\<And>a. a \<in> set (l # xs) \<Longrightarrow> lh_next h' a = lh_next h a \<and> lh_prev h' a = lh_prev h a"
  shows "circ h' l xs = circ h l xs"
proof -
  have "linked h' (l # xs @ [l]) = linked h (l # xs @ [l])"
    using assms by (intro linked_cong) (auto simp: butlast_append)
  then show ?thesis by (simp add: circ_def)
qed

lemma circ_first: "circ h l xs \<Longrightarrow> lh_next h l = (case xs of [] \<Rightarrow> l | x # _ \<Rightarrow> x)"
  by (cases xs) (auto simp: circ_def)

lemma circ_last: "circ h l xs \<Longrightarrow> lh_prev h l = (if xs = [] then l else last xs)"
proof (cases xs rule: rev_cases)
  case (snoc ys y)
  assume "circ h l xs"
  with snoc have "linked h ((l # ys) @ y # [l])" by (simp add: circ_def)
  then have "linked h (y # [l])" using linked_append [of h "l # ys" y "[l]"] by blast
  then show ?thesis using snoc by simp
qed (auto simp: circ_def)

lemma circ_Nil_iff: "circ h l xs \<Longrightarrow> lh_next h l = l \<longleftrightarrow> xs = []"
  by (cases xs) (auto simp: circ_def)

lemma linked_split:
  "linked h (xs @ a # ys) \<Longrightarrow> xs \<noteq> [] \<Longrightarrow> lh_next h (last xs) = a \<and> lh_prev h a = last xs"
  by (induction xs) (auto simp: linked_Cons hd_append split: if_splits)

section \<open>What each operation does to one list\<close>

lemma circ_list_init: "a \<noteq> NULL \<Longrightarrow> circ (list_init a h) a []"
  by (simp add: circ_def list_init_def)

lemma linked_insert:
  assumes "linked h (xs @ p # q # ys)" "distinct (butlast (xs @ p # q # ys))"
    "distinct (tl (xs @ p # q # ys))" "new \<notin> set (xs @ p # q # ys)"
  shows "linked (list_insert new p q h) (xs @ p # new # q # ys)"
proof -
  let ?h = "list_insert new p q h"
  have split: "linked h (xs @ [p])" "linked h (q # ys)"
    using assms(1) linked_append [of h xs p "q # ys"] by auto
  have "linked ?h (xs @ [p])"
    using split(1) assms(2-4)
    by (subst linked_cong [of _ _ h])
       (auto simp: list_insert_def butlast_append tl_append dest: in_set_butlastD
         split: list.splits if_splits)
  moreover have "linked ?h (q # ys)"
    using split(2) assms(2-4)
    by (subst linked_cong [of _ _ h])
       (auto simp: list_insert_def butlast_append tl_append dest: in_set_butlastD
         split: list.splits if_splits)
  moreover have "linked ?h [p, new, q]"
    using assms(4) by (auto simp: list_insert_def)
  ultimately show ?thesis
    using linked_append [of ?h xs p "new # q # ys"] by auto
qed

lemma circ_list_insert:
  assumes "circ h l (as @ bs)" "new \<notin> set (l # as @ bs)" "new \<noteq> NULL"
  shows "circ (list_insert new (last (l # as)) (hd (bs @ [l])) h) l (as @ new # bs)"
proof -
  let ?p = "last (l # as)" and ?q = "hd (bs @ [l])" and ?ys = "tl (bs @ [l])"
  have eq: "l # as = butlast (l # as) @ [?p]" "bs @ [l] = ?q # ?ys"
    by (rule append_butlast_last_id [symmetric], simp) (simp add: hd_Cons_tl)
  then have whole: "l # (as @ bs) @ [l] = butlast (l # as) @ ?p # ?q # ?ys"
    by (metis append.assoc append_Cons append_Nil)
  have dist: "distinct (l # as @ bs)" and lk: "linked h (l # (as @ bs) @ [l])"
    using assms(1) by (auto simp: circ_def)
  have "distinct (butlast (l # (as @ bs) @ [l]))" "distinct (tl (l # (as @ bs) @ [l]))"
    using dist by (auto simp: butlast_append)
  moreover have "new \<notin> set (l # (as @ bs) @ [l])" using assms(2) by simp
  ultimately have "linked (list_insert new ?p ?q h) (butlast (l # as) @ ?p # new # ?q # ?ys)"
    using linked_insert [of h "butlast (l # as)" ?p ?q ?ys new] lk unfolding whole by blast
  moreover have "butlast (l # as) @ ?p # new # ?q # ?ys = l # (as @ new # bs) @ [l]"
    using eq by (metis append.assoc append_Cons append_Nil)
  ultimately have "linked (list_insert new ?p ?q h) (l # (as @ new # bs) @ [l])" by metis
  then show ?thesis
    using assms dist unfolding circ_def by auto
qed

lemma circ_list_add:
  assumes "circ h l xs" "new \<notin> set (l # xs)" "new \<noteq> NULL"
  shows "circ (list_add new l h) l (new # xs)"
proof -
  have "lh_next h l = hd (xs @ [l])"
    using circ_first [OF assms(1)] by (cases xs) auto
  then show ?thesis
    using circ_list_insert [of h l "[]" xs new] assms by (simp add: list_add_def)
qed

lemma circ_list_add_tail:
  assumes "circ h l xs" "new \<notin> set (l # xs)" "new \<noteq> NULL"
  shows "circ (list_add_tail new l h) l (xs @ [new])"
proof -
  have "lh_prev h l = last (l # xs)"
    using circ_last [OF assms(1)] by auto
  then show ?thesis
    using circ_list_insert [of h l xs "[]" new] assms by (simp add: list_add_tail_def)
qed

text \<open>The same two functions, called on a node instead of the head, insert next to that node.\<close>

lemma circ_list_insert_after:
  assumes "circ h l (as @ x # bs)" "new \<notin> set (l # as @ x # bs)" "new \<noteq> NULL"
  shows "circ (list_insert_after new x h) l (as @ x # new # bs)"
proof -
  have "linked h ((l # as) @ x # (bs @ [l]))" using assms(1) by (simp add: circ_def)
  then have "linked h (x # (bs @ [l]))" using linked_append by blast
  then have "lh_next h x = hd (bs @ [l])" by (auto simp: linked_Cons)
  then show ?thesis
    using circ_list_insert [of h l "as @ [x]" bs new] assms
    by (simp add: list_insert_after_def list_add_def)
qed

lemma circ_list_insert_before:
  assumes "circ h l (as @ x # bs)" "new \<notin> set (l # as @ x # bs)" "new \<noteq> NULL"
  shows "circ (list_insert_before new x h) l (as @ new # x # bs)"
proof -
  have "linked h ((l # as) @ x # (bs @ [l]))" using assms(1) by (simp add: circ_def)
  then have "lh_prev h x = last (l # as)" using linked_split [of h "l # as" x] by simp
  then show ?thesis
    using circ_list_insert [of h l as "x # bs" new] assms
    by (simp add: list_insert_before_def list_add_tail_def)
qed

lemma linked_delete:
  assumes "linked h (xs @ p # x # q # ys)" "distinct (butlast (xs @ p # x # q # ys))"
    "distinct (tl (xs @ p # x # q # ys))" "x \<notin> set (xs @ p # q # ys)"
  shows "linked (list_del x h) (xs @ p # q # ys)"
proof -
  let ?h = "list_del x h"
  have split: "linked h (xs @ [p])" "linked h (q # ys)" "lh_prev h x = p" "lh_next h x = q"
    using assms(1) linked_append [of h xs p "x # q # ys"] by auto
  have "linked ?h (xs @ [p])"
    using split assms(2-4)
    by (subst linked_cong [of _ _ h])
       (auto simp: list_del_def raw_list_del_def butlast_append tl_append
         dest: in_set_butlastD split: list.splits if_splits)
  moreover have "linked ?h (q # ys)"
    using split assms(2-4)
    by (subst linked_cong [of _ _ h])
       (auto simp: list_del_def raw_list_del_def butlast_append tl_append
         dest: in_set_butlastD split: list.splits if_splits)
  moreover have "linked ?h [p, q]"
    using split assms(4) by (auto simp: list_del_def raw_list_del_def)
  ultimately show ?thesis
    using linked_append [of ?h xs p "q # ys"] by auto
qed

lemma circ_list_del:
  assumes "circ h l (as @ x # bs)"
  shows "circ (list_del x h) l (as @ bs)"
proof -
  let ?p = "last (l # as)" and ?q = "hd (bs @ [l])" and ?ys = "tl (bs @ [l])"
  have eq: "l # as = butlast (l # as) @ [?p]" "bs @ [l] = ?q # ?ys"
    by (rule append_butlast_last_id [symmetric], simp) (simp add: hd_Cons_tl)
  then have whole: "l # (as @ x # bs) @ [l] = butlast (l # as) @ ?p # x # ?q # ?ys"
    by (metis append.assoc append_Cons append_Nil)
  have dist: "distinct (l # as @ x # bs)" and lk: "linked h (l # (as @ x # bs) @ [l])"
    using assms(1) by (auto simp: circ_def)
  have "distinct (butlast (l # (as @ x # bs) @ [l]))" "distinct (tl (l # (as @ x # bs) @ [l]))"
    using dist by (auto simp: butlast_append)
  moreover have "x \<notin> set (butlast (l # as) @ ?p # ?q # ?ys)"
  proof -
    have "set (butlast (l # as) @ ?p # ?q # ?ys) = set (l # as) \<union> set (bs @ [l])"
      by (metis eq set_append append.assoc append_Cons append_Nil)
    then show ?thesis using dist by auto
  qed
  ultimately have "linked (list_del x h) (butlast (l # as) @ ?p # ?q # ?ys)"
    using linked_delete [of h "butlast (l # as)" ?p x ?q ?ys] lk unfolding whole by blast
  moreover have "butlast (l # as) @ ?p # ?q # ?ys = l # (as @ bs) @ [l]"
    using eq by (metis append.assoc append_Cons append_Nil)
  ultimately have "linked (list_del x h) (l # (as @ bs) @ [l])" by metis
  then show ?thesis
    using assms dist unfolding circ_def by auto
qed

text \<open>
  Splicing moves the nodes \<open>xs\<close> of the list at \<open>l\<close> to the front of the list at \<open>m\<close>: the chain
  from the first to the last node of \<open>xs\<close> is kept, and four links join it to \<open>m\<close>.
\<close>

lemma circ_raw_list_splice:
  assumes "circ h l xs" "circ h m ys" "xs \<noteq> []" "set (l # xs) \<inter> set (m # ys) = {}"
  shows "circ (raw_list_splice l m (lh_next h m) h) m (xs @ ys)"
proof -
  let ?h = "raw_list_splice l m (lh_next h m) h"
  let ?q = "hd (ys @ [m])" and ?ys = "tl (ys @ [m])"
  have q: "lh_next h m = ?q" and ysm: "ys @ [m] = ?q # ?ys"
    using circ_first [OF assms(2)] by (cases ys; simp)+
  obtain f ms where xs: "xs = f # ms" using assms(3) by (cases xs) auto
  have first: "lh_next h l = f" and last: "lh_prev h l = last xs"
    using circ_first [OF assms(1)] circ_last [OF assms(1)] xs by auto
  have dx: "distinct (l # xs)" and dy: "distinct (m # ys)"
    using assms(1,2) by (auto simp: circ_def)
  have mid: "linked h xs" and tail: "linked h (ys @ [m])"
    using assms(1,2,3) linked_join [of "[l]" "xs @ [l]" h] linked_join [of xs "[l]" h]
      linked_join [of "[m]" "ys @ [m]" h] by (simp_all add: circ_def)
  have links: "lh_next ?h = (lh_next h)(m := f, last xs := ?q)"
    "lh_prev ?h = (lh_prev h)(f := m, ?q := last xs)"
    using first last q by (simp_all add: raw_list_splice_def Let_def)
  have q_in: "?q \<in> set (m # ys)" by (cases ys) auto
  have lx: "last xs \<in> set xs" "f \<in> set xs" using assms(3) xs by auto
  have lb: "last xs \<notin> set (butlast xs)"
    using dx assms(3) by (cases xs rule: rev_cases) auto
  have h1: "linked ?h xs"
    using mid dx q_in assms(4) lx lb xs
    by (subst linked_cong [of _ _ h]) (auto simp: links dest: in_set_butlastD)
  have "?q \<notin> set ?ys" "f \<notin> set ?ys" using dy assms(4) lx by (cases ys; auto)+
  then have h2: "linked ?h (ys @ [m])"
    using tail dy q_in assms(4) lx
    by (subst linked_cong [of _ _ h]) (auto simp: links butlast_append dest: list.set_sel(2))
  have ends: "lh_next ?h m = hd xs" "lh_prev ?h (hd xs) = m"
    "lh_next ?h (last xs) = ?q" "lh_prev ?h ?q = last xs"
    using assms(4) lx q_in xs by (auto simp: links)
  have "linked ?h (xs @ (ys @ [m]))"
    using h1 h2 ends assms(3) linked_join [of xs "ys @ [m]" ?h] by simp
  then have "linked ?h ([m] @ (xs @ (ys @ [m])))"
    using ends assms(3) linked_join [of "[m]" "xs @ (ys @ [m])" ?h] by simp
  then show ?thesis
    using assms dx dy by (auto simp: circ_def)
qed

section \<open>Families of lists\<close>

lemma lists_circ: "heap_lists h L \<Longrightarrow> L l = Some xs \<Longrightarrow> circ h l xs"
  by (simp add: heap_lists_def)

lemma members_Some: "L l = Some xs \<Longrightarrow> set (l # xs) \<subseteq> members L"
  unfolding members_def by blast

text \<open>
  The one rule behind every operation: if only links of the nodes of \<open>l\<close> (before or after) have
  changed, and the new nodes were in no list, the rest of the family is untouched.
\<close>

lemma lists_upd:
  assumes ls: "heap_lists h L"
    and old: "L l = Some xs \<or> L l = None \<and> l \<notin> members L \<and> xs = []"
    and new: "circ h' l ys"
    and fresh: "set ys \<subseteq> set xs \<union> - members L"
    and frame: "\<And>a. a \<in> members L \<Longrightarrow> a \<notin> set (l # xs) \<Longrightarrow> a \<notin> set (l # ys) \<Longrightarrow>
        lh_next h' a = lh_next h a \<and> lh_prev h' a = lh_prev h a"
  shows "heap_lists h' (L(l \<mapsto> ys))"
proof -
  have other: "set (m # zs) \<inter> set (l # xs) = {} \<and> set (m # zs) \<inter> set (l # ys) = {}"
    if "m \<noteq> l" "L m = Some zs" for m zs
  proof -
    have mem: "set (m # zs) \<subseteq> members L" using that(2) by (rule members_Some)
    have "set (m # zs) \<inter> set (l # xs) = {}"
      using old
    proof
      assume "L l = Some xs"
      then show ?thesis using ls that unfolding heap_lists_def by blast
    next
      assume "L l = None \<and> l \<notin> members L \<and> xs = []"
      then show ?thesis using mem by auto
    qed
    then show ?thesis using fresh mem by auto
  qed
  have "circ h' m zs" if "(L(l \<mapsto> ys)) m = Some zs" for m zs
  proof (cases "m = l")
    case True
    then show ?thesis using that new by simp
  next
    case False
    then have "L m = Some zs" using that by simp
    then show ?thesis
      using other [OF False] circ_cong [of m zs h' h] frame lists_circ [OF ls] members_Some [of L m zs]
      by blast
  qed
  moreover have "set (m # zs) \<inter> set (m' # zs') = {}"
    if "m \<noteq> m'" "(L(l \<mapsto> ys)) m = Some zs" "(L(l \<mapsto> ys)) m' = Some zs'" for m m' zs zs'
    using that other [of m zs] other [of m' zs'] ls unfolding heap_lists_def
    by (cases "m = l"; cases "m' = l") (simp_all, blast+)
  ultimately show ?thesis unfolding heap_lists_def by blast
qed

lemma lists_list_init:
  assumes "heap_lists h L" "a \<noteq> NULL" "a \<notin> members L"
  shows "heap_lists (list_init a h) (L(a \<mapsto> []))"
proof (rule lists_upd [OF assms(1), where xs = "[]"])
  show "L a = Some [] \<or> L a = None \<and> a \<notin> members L \<and> [] = []"
    using assms(3) members_Some [of L a] by (cases "L a") auto
qed (use assms circ_list_init in \<open>auto simp: list_init_def\<close>)

lemma list_insert_frame:
  "a \<noteq> new \<Longrightarrow> a \<noteq> p \<Longrightarrow> a \<noteq> q \<Longrightarrow>
   lh_next (list_insert new p q h) a = lh_next h a \<and> lh_prev (list_insert new p q h) a = lh_prev h a"
  by (simp add: list_insert_def)

lemma circ_first_in: "circ h l xs \<Longrightarrow> lh_next h l \<in> set (l # xs)"
  by (drule circ_first) (auto split: list.splits)

lemma circ_last_in: "circ h l xs \<Longrightarrow> lh_prev h l \<in> set (l # xs)"
  by (drule circ_last) auto

lemma lists_list_add:
  assumes "heap_lists h L" "L l = Some xs" "new \<noteq> NULL" "new \<notin> members L"
  shows "heap_lists (list_add new l h) (L(l \<mapsto> new # xs))"
proof (rule lists_upd [OF assms(1), where xs = xs])
  have "new \<notin> set (l # xs)" using members_Some [of L l xs] assms by blast
  then show "circ (list_add new l h) l (new # xs)"
    using circ_list_add lists_circ assms by blast
  fix a
  assume "a \<notin> set (l # xs)" "a \<notin> set (l # new # xs)"
  then show "lh_next (list_add new l h) a = lh_next h a \<and> lh_prev (list_add new l h) a = lh_prev h a"
    using circ_first_in [OF lists_circ [OF assms(1,2)]] unfolding list_add_def
    by (intro list_insert_frame) auto
qed (use assms in auto)

lemma lists_list_add_tail:
  assumes "heap_lists h L" "L l = Some xs" "new \<noteq> NULL" "new \<notin> members L"
  shows "heap_lists (list_add_tail new l h) (L(l \<mapsto> xs @ [new]))"
proof (rule lists_upd [OF assms(1), where xs = xs])
  have "new \<notin> set (l # xs)" using members_Some [of L l xs] assms by blast
  then show "circ (list_add_tail new l h) l (xs @ [new])"
    using circ_list_add_tail lists_circ assms by blast
  fix a
  assume "a \<notin> set (l # xs)" "a \<notin> set (l # xs @ [new])"
  then show "lh_next (list_add_tail new l h) a = lh_next h a \<and>
      lh_prev (list_add_tail new l h) a = lh_prev h a"
    using circ_last_in [OF lists_circ [OF assms(1,2)]] unfolding list_add_tail_def
    by (intro list_insert_frame) auto
qed (use assms in auto)

lemma circ_neighbours:
  assumes "circ h l (as @ x # bs)"
  shows "lh_prev h x \<in> set (l # as)" "lh_next h x \<in> set (bs @ [l])"
proof -
  have "linked h ((l # as) @ (x # bs @ [l]))" using assms by (simp add: circ_def)
  then have "lh_prev h x = last (l # as)" "linked h ([x] @ (bs @ [l]))"
    using linked_join [of "l # as" "x # bs @ [l]" h] by auto
  then show "lh_prev h x \<in> set (l # as)" "lh_next h x \<in> set (bs @ [l])"
    using linked_join [of "[x]" "bs @ [l]" h] by (auto simp: hd_append)
qed

lemma lists_list_del:
  assumes "heap_lists h L" "L l = Some xs" "x \<in> set xs"
  shows "heap_lists (list_del x h) (L(l \<mapsto> remove1 x xs))"
proof -
  obtain as bs where xs: "xs = as @ x # bs" "x \<notin> set as"
    using assms(3) split_list_first by metis
  have c: "circ h l (as @ x # bs)" using lists_circ assms xs by blast
  have rem: "remove1 x xs = as @ bs" using xs by (simp add: remove1_append)
  show ?thesis
    unfolding rem
  proof (rule lists_upd [OF assms(1), where xs = xs])
    fix a
    assume "a \<notin> set (l # xs)" "a \<notin> set (l # as @ bs)"
    then show "lh_next (list_del x h) a = lh_next h a \<and> lh_prev (list_del x h) a = lh_prev h a"
      using circ_neighbours [OF c] xs by (auto simp: list_del_def raw_list_del_def)
  qed (use assms xs circ_list_del [OF c] in auto)
qed

lemma members_upd_disjoint:
  assumes "L l = Some xs" "l \<notin> set xs"
    and "\<And>m zs. m \<noteq> l \<Longrightarrow> L m = Some zs \<Longrightarrow> set (m # zs) \<inter> set (l # xs) = {}"
  shows "members (L(l \<mapsto> ys)) = (members L - set xs) \<union> set ys"
proof -
  define rest where "rest = {a. \<exists>m zs. m \<noteq> l \<and> L m = Some zs \<and> a \<in> set (m # zs)}"
  have "members L = rest \<union> set (l # xs)" "members (L(l \<mapsto> ys)) = rest \<union> set (l # ys)"
    using assms(1) unfolding members_def rest_def by (auto split: if_splits; metis option.inject)+
  moreover have "rest \<inter> set (l # xs) = {}"
    using assms(3) unfolding rest_def by blast
  ultimately show ?thesis using assms(2) by auto
qed

lemma members_upd:
  assumes "L l = Some xs" "heap_lists h L"
  shows "members (L(l \<mapsto> ys)) = (members L - set xs) \<union> set ys"
proof (rule members_upd_disjoint)
  show "l \<notin> set xs" using lists_circ [OF assms(2,1)] by (auto simp: circ_def)
  show "set (m # zs) \<inter> set (l # xs) = {}" if "m \<noteq> l" "L m = Some zs" for m zs
    using that assms unfolding heap_lists_def by blast
qed (rule assms(1))

lemma lists_drop:
  assumes "heap_lists h L" "L l = Some xs"
  shows "heap_lists h (L(l := None))" "set (l # xs) \<inter> members (L(l := None)) = {}"
  using assms unfolding heap_lists_def members_def by (auto split: if_splits; blast)+

lemma members_new: "L l = None \<Longrightarrow> members (L(l \<mapsto> ys)) = members L \<union> set (l # ys)"
  unfolding members_def by (auto split: if_splits; metis option.distinct(1))

lemma heap_lists_add:
  assumes "heap_lists h L" "circ h l xs" "set (l # xs) \<inter> members L = {}"
  shows "heap_lists h (L(l \<mapsto> xs))"
proof -
  have apart: "set (l # xs) \<inter> set (m # ys) = {}" if "L m = Some ys" for m ys
    using members_Some [of L m ys, OF that] assms(3) by blast
  show ?thesis unfolding heap_lists_def
  proof (intro conjI allI impI)
    fix m m2 ys zs assume "m \<noteq> m2" "(L(l \<mapsto> xs)) m = Some ys" "(L(l \<mapsto> xs)) m2 = Some zs"
    then show "set (m # ys) \<inter> set (m2 # zs) = {}"
      using assms(1) apart [of m ys] apart [of m2 zs] unfolding heap_lists_def
      by (cases "m = l"; cases "m2 = l") (simp_all add: Int_commute)
  qed (use assms in \<open>auto simp: heap_lists_def split: if_splits\<close>)
qed

lemma members_empty [simp]: "members Map.empty = {}"
  by (simp add: members_def)

lemma lists_list_splice:
  assumes "heap_lists h L" "L l = Some xs" "L m = Some ys" "l \<noteq> m"
  shows "heap_lists (list_splice l m h) (L(l \<mapsto> [], m \<mapsto> xs @ ys))"
proof (cases "xs = []")
  case True
  then have "list_splice l m h = h"
    using lists_circ [OF assms(1,2)] circ_Nil_iff by (simp add: list_splice_def list_empty_def)
  moreover have "L(l \<mapsto> [], m \<mapsto> xs @ ys) = L" using True assms by auto
  ultimately show ?thesis using assms(1) by simp
next
  case False
  let ?h = "raw_list_splice l m (lh_next h m) h" and ?L0 = "L(l := None)"
  have cx: "circ h l xs" and cy: "circ h m ys" and dj: "set (l # xs) \<inter> set (m # ys) = {}"
    using assms unfolding heap_lists_def by blast+
  note drop = lists_drop [OF assms(1,2)]
  have ends: "lh_next h l \<in> set xs" "lh_prev h l \<in> set xs"
    using circ_first [OF cx] circ_last [OF cx] False by (auto split: list.splits)
  have "heap_lists ?h (?L0(m \<mapsto> xs @ ys))"
  proof (rule lists_upd [OF drop(1), where xs = ys])
    show "circ ?h m (xs @ ys)" by (rule circ_raw_list_splice [OF cx cy False dj])
    fix a
    assume "a \<in> members ?L0" "a \<notin> set (m # ys)"
    then show "lh_next ?h a = lh_next h a \<and> lh_prev ?h a = lh_prev h a"
      using drop(2) ends circ_first_in [OF cy] by (auto simp: raw_list_splice_def Let_def)
  qed (use assms drop(2) in auto)
  moreover have "l \<notin> members (?L0(m \<mapsto> xs @ ys))"
    using members_upd [of ?L0 m ys h "xs @ ys"] drop assms cx dj by (auto simp: circ_def)
  ultimately have "heap_lists (list_init l ?h) (?L0(m \<mapsto> xs @ ys, l \<mapsto> []))"
    using cx by (intro lists_list_init) (auto simp: circ_def)
  moreover have "list_splice l m h = list_init l ?h"
    using False cx circ_Nil_iff by (simp add: list_splice_def list_empty_def)
  moreover have "?L0(m \<mapsto> xs @ ys, l \<mapsto> []) = L(l \<mapsto> [], m \<mapsto> xs @ ys)"
    using assms(4) by auto
  ultimately show ?thesis by simp
qed

lemma lists_list_empty: "heap_lists h L \<Longrightarrow> L l = Some xs \<Longrightarrow> list_empty l h \<longleftrightarrow> xs = []"
  using lists_circ circ_Nil_iff by (simp add: list_empty_def)

lemma lists_list_first: "heap_lists h L \<Longrightarrow> L l = Some (x # xs) \<Longrightarrow> list_first l h = x"
  using lists_circ circ_first by (fastforce simp: list_first_def)

text \<open>Walking a list: from each node to the next one, from the last one back to the head.\<close>

lemma lists_next:
  assumes "heap_lists h L" "L l = Some (as @ x # bs)"
  shows "lh_next h x = hd (bs @ [l])"
proof -
  have "linked h ((l # as) @ (x # bs @ [l]))"
    using lists_circ [OF assms] by (simp add: circ_def)
  then have "linked h ([x] @ (bs @ [l]))"
    using linked_join [of "l # as" "x # bs @ [l]" h] by simp
  then show ?thesis using linked_join [of "[x]" "bs @ [l]" h] by simp
qed

lemma lists_head_next: "heap_lists h L \<Longrightarrow> L l = Some xs \<Longrightarrow> lh_next h l = hd (xs @ [l])"
  using lists_circ circ_first by (cases xs) fastforce+

text \<open>A node that is on a list is never its own neighbour: \<open>list_empty\<close> of it is false.\<close>

lemma lists_list_empty_node:
  assumes "heap_lists h L" "L l = Some xs" "x \<in> set xs"
  shows "\<not> list_empty x h"
proof -
  obtain as bs where xs: "xs = as @ x # bs" using assms(3) split_list by metis
  then have c: "circ h l (as @ x # bs)" using lists_circ assms by blast
  then have "lh_next h x \<in> set (bs @ [l])" by (rule circ_neighbours)
  then show ?thesis using c by (auto simp: list_empty_def circ_def)
qed

text \<open>The loop of \<open>list_size\<close> ends on every list of the family, with its length as a \<^verbatim>\<open>size_t\<close>.\<close>

lemma list_size_from_linked:
  "linked h (xs @ [l]) \<Longrightarrow> l \<notin> set xs \<Longrightarrow>
   list_size_from l (hd (xs @ [l])) n h = Some (n + of_nat (length xs))"
proof (induction xs arbitrary: n)
  case Nil
  then show ?case by (simp add: list_size_from.simps)
next
  case (Cons x xs)
  then have "lh_next h x = hd (xs @ [l])" "linked h (xs @ [l])" by (auto simp: linked_Cons)
  then show ?case
    using Cons by (auto simp: list_size_from.simps [of l x] algebra_simps)
qed

lemma lists_list_size:
  assumes "heap_lists h L" "L l = Some xs"
  shows "list_size l h = Some (of_nat (length xs))"
proof -
  have c: "circ h l xs" using assms by (rule lists_circ)
  then have "linked h ([l] @ (xs @ [l]))" "l \<notin> set xs" by (auto simp: circ_def)
  then have "linked h (xs @ [l])" "lh_next h l = hd (xs @ [l])" "l \<notin> set xs"
    using linked_join [of "[l]" "xs @ [l]" h] by auto
  then show ?thesis
    using list_size_from_linked [of h xs l 0] by (simp add: list_size_def)
qed

section \<open>The interface clients rely on\<close>

text \<open>
  What \<^verbatim>\<open>list.h\<close> promises its clients (the page allocator, the slab caches, the run queue and the
  wait queues), stated over a family of lists and over any representation \<open>rep\<close> of it. The facts
  clients need beyond single calls (moving a node between lists, taking the first node, the
  first-in first-out discipline of \<open>add_tail\<close> and \<open>first\<close>) are proved here once.
\<close>

locale intrusive_lists =
  fixes rep :: "'h \<Rightarrow> lfamily \<Rightarrow> bool"
    and init :: "addr \<Rightarrow> 'h \<Rightarrow> 'h"
    and add :: "addr \<Rightarrow> addr \<Rightarrow> 'h \<Rightarrow> 'h"
    and add_tail :: "addr \<Rightarrow> addr \<Rightarrow> 'h \<Rightarrow> 'h"
    and del :: "addr \<Rightarrow> 'h \<Rightarrow> 'h"
    and splice :: "addr \<Rightarrow> addr \<Rightarrow> 'h \<Rightarrow> 'h"
    and is_empty :: "addr \<Rightarrow> 'h \<Rightarrow> bool"
    and first :: "addr \<Rightarrow> 'h \<Rightarrow> addr"
  assumes rep_init: "rep h L \<Longrightarrow> a \<noteq> NULL \<Longrightarrow> a \<notin> members L \<Longrightarrow> rep (init a h) (L(a \<mapsto> []))"
    and rep_add: "rep h L \<Longrightarrow> L l = Some xs \<Longrightarrow> a \<noteq> NULL \<Longrightarrow> a \<notin> members L \<Longrightarrow>
        rep (add a l h) (L(l \<mapsto> a # xs))"
    and rep_add_tail: "rep h L \<Longrightarrow> L l = Some xs \<Longrightarrow> a \<noteq> NULL \<Longrightarrow> a \<notin> members L \<Longrightarrow>
        rep (add_tail a l h) (L(l \<mapsto> xs @ [a]))"
    and rep_del: "rep h L \<Longrightarrow> L l = Some xs \<Longrightarrow> a \<in> set xs \<Longrightarrow> rep (del a h) (L(l \<mapsto> remove1 a xs))"
    and rep_splice: "rep h L \<Longrightarrow> L l = Some xs \<Longrightarrow> L m = Some ys \<Longrightarrow> l \<noteq> m \<Longrightarrow>
        rep (splice l m h) (L(l \<mapsto> [], m \<mapsto> xs @ ys))"
    and rep_is_empty: "rep h L \<Longrightarrow> L l = Some xs \<Longrightarrow> is_empty l h \<longleftrightarrow> xs = []"
    and rep_first: "rep h L \<Longrightarrow> L l = Some (x # xs) \<Longrightarrow> first l h = x"
    and rep_disjoint: "rep h L \<Longrightarrow> L l = Some xs \<Longrightarrow> L m = Some ys \<Longrightarrow> l \<noteq> m \<Longrightarrow>
        set (l # xs) \<inter> set (m # ys) = {}"
    and rep_distinct: "rep h L \<Longrightarrow> L l = Some xs \<Longrightarrow> distinct (l # xs) \<and> NULL \<notin> set (l # xs)"
begin

lemma members_del:
  assumes "rep h L" "L l = Some xs" "a \<in> set xs"
  shows "members (L(l \<mapsto> remove1 a xs)) = members L - {a}"
proof -
  have "distinct (l # xs)" using rep_distinct assms by blast
  moreover from this have "members (L(l \<mapsto> remove1 a xs)) = (members L - set xs) \<union> set (remove1 a xs)"
    using rep_disjoint [OF assms(1) _ assms(2)] assms(2)
    by (intro members_upd_disjoint) auto
  moreover have "set xs \<subseteq> members L" using members_Some [of L l xs] assms(2) by auto
  ultimately show ?thesis using assms(3) by (auto simp: set_remove1_eq)
qed

lemma members_add: "L l = Some xs \<Longrightarrow> members (L(l \<mapsto> a # xs)) = insert a (members L)"
  unfolding members_def by (auto split: if_splits; metis option.inject)

lemma members_add_tail: "L l = Some xs \<Longrightarrow> members (L(l \<mapsto> xs @ [a])) = insert a (members L)"
  unfolding members_def by (auto split: if_splits; metis option.inject)

lemma rep_pop:
  assumes "rep h L" "L l = Some (x # xs)"
  shows "first l h = x" "rep (del x h) (L(l \<mapsto> xs))" "x \<notin> members (L(l \<mapsto> xs))" "x \<noteq> NULL"
  using rep_first [OF assms] rep_del [OF assms, of x] members_del [OF assms, of x]
    rep_distinct [OF assms] by auto

lemma rep_move:
  assumes "rep h L" "L l = Some xs" "a \<in> set xs" "L m = Some ys" "l \<noteq> m"
  shows "rep (add a m (del a h)) (L(l \<mapsto> remove1 a xs, m \<mapsto> a # ys))"
proof (rule rep_add)
  show "rep (del a h) (L(l \<mapsto> remove1 a xs))" using assms by (intro rep_del)
  show "a \<notin> members (L(l \<mapsto> remove1 a xs))" using members_del assms by blast
  show "a \<noteq> NULL" using rep_distinct assms by (metis list.set_intros(2))
qed (use assms in simp)

text \<open>First in, first out: what was added at the tail of a list comes out after all that was there.\<close>

lemma rep_fifo:
  assumes "rep h L" "L l = Some []" "a \<noteq> NULL" "b \<noteq> NULL" "a \<noteq> b" "a \<notin> members L" "b \<notin> members L"
  shows "first l (add_tail b l (add_tail a l h)) = a"
    and "first l (del a (add_tail b l (add_tail a l h))) = b"
proof -
  have "rep (add_tail a l h) (L(l \<mapsto> [a]))" using rep_add_tail assms by fastforce
  moreover have "b \<notin> members (L(l \<mapsto> [a]))" using members_add_tail [of L l "[]" a] assms by auto
  ultimately have ab: "rep (add_tail b l (add_tail a l h)) (L(l \<mapsto> [a, b]))"
    using rep_add_tail [of "add_tail a l h" "L(l \<mapsto> [a])" l "[a]" b] assms by simp
  then show "first l (add_tail b l (add_tail a l h)) = a" by (rule rep_first) simp
  have "rep (del a (add_tail b l (add_tail a l h))) (L(l \<mapsto> [b]))"
    using rep_pop(2) [OF ab, of l a "[b]"] by simp
  then show "first l (del a (add_tail b l (add_tail a l h))) = b" by (rule rep_first) simp
qed

end

interpretation kl: intrusive_lists heap_lists list_init list_add list_add_tail list_del list_splice
  list_empty list_first
proof unfold_locales
  show "set (l # xs) \<inter> set (m # ys) = {}"
    if "heap_lists h L" "L l = Some xs" "L m = Some ys" "l \<noteq> m" for h L l xs m ys
    using that unfolding heap_lists_def by blast
  show "distinct (l # xs) \<and> NULL \<notin> set (l # xs)" if "heap_lists h L" "L l = Some xs" for h L l xs
    using lists_circ [OF that] by (simp add: circ_def)
qed (rule lists_list_init lists_list_add lists_list_add_tail lists_list_del lists_list_splice
    lists_list_empty lists_list_first; assumption)+

end
