(* ===== verification/Spinlock.thy ===== *)
theory Spinlock
  imports Prelude
begin

text \<open>
  The processor state the locks touch: the interrupt flag (\<^verbatim>\<open>inc/ints.h\<close>) and the counter of
  \<^verbatim>\<open>disable_preempt\<close>/\<^verbatim>\<open>enable_preempt\<close> (\<^verbatim>\<open>src/threads.c\<close>), and the locks of \<^verbatim>\<open>src/spinlock.c\<close>, which on
  this single-processor kernel only change these two. Every later state extends this record.
\<close>

record cpu =
  ints_on :: bool            \<comment> \<open>RFLAGS.IF\<close>
  preempt_cnt :: u32         \<comment> \<open>the \<^verbatim>\<open>atomic_int\<close> of threads.c\<close>

definition disable_ints :: "'a cpu_scheme \<Rightarrow> 'a cpu_scheme" where
  "disable_ints s = s\<lparr>ints_on := False\<rparr>"

definition enable_ints :: "'a cpu_scheme \<Rightarrow> 'a cpu_scheme" where
  "enable_ints s = s\<lparr>ints_on := True\<rparr>"

definition ints_enabled :: "'a cpu_scheme \<Rightarrow> bool" where
  "ints_enabled s = ints_on s"

definition disable_preempt :: "'a cpu_scheme \<Rightarrow> 'a cpu_scheme" where
  "disable_preempt s = s\<lparr>preempt_cnt := preempt_cnt s + 1\<rparr>"

definition enable_preempt :: "'a cpu_scheme \<Rightarrow> 'a cpu_scheme" where
  "enable_preempt s = s\<lparr>preempt_cnt := preempt_cnt s - 1\<rparr>"

definition spin_setup :: "'a cpu_scheme \<Rightarrow> 'a cpu_scheme" where
  "spin_setup s = s"

definition spin_lock :: "'a cpu_scheme \<Rightarrow> 'a cpu_scheme" where
  "spin_lock s = disable_preempt s"

definition spin_unlock :: "'a cpu_scheme \<Rightarrow> 'a cpu_scheme" where
  "spin_unlock s = enable_preempt s"

definition spin_lock_irqsave :: "'a cpu_scheme \<Rightarrow> bool \<times> 'a cpu_scheme" where
  "spin_lock_irqsave s =
     (let enable = ints_enabled s;
          s = disable_ints s;
          s = spin_lock s
      in (enable, s))"

definition spin_unlock_irqrestore :: "bool \<Rightarrow> 'a cpu_scheme \<Rightarrow> 'a cpu_scheme" where
  "spin_unlock_irqrestore enable s =
     (let s = spin_unlock s in if enable then enable_ints s else s)"

lemmas spin_defs = disable_ints_def enable_ints_def ints_enabled_def disable_preempt_def
  enable_preempt_def spin_setup_def spin_lock_def spin_unlock_def spin_lock_irqsave_def
  spin_unlock_irqrestore_def

section \<open>The locking discipline\<close>

text \<open>
  A critical section \<open>body\<close> between \<^verbatim>\<open>spin_lock_irqsave\<close> and \<^verbatim>\<open>spin_unlock_irqrestore\<close>. If the body
  leaves the two fields as it found them, then inside it interrupts and preemption are off,
  and after it both are what they were before.
\<close>

definition preserves_cpu :: "('a cpu_scheme \<Rightarrow> 'a cpu_scheme) \<Rightarrow> bool" where
  "preserves_cpu f \<longleftrightarrow> (\<forall>s. ints_on (f s) = ints_on s \<and> preempt_cnt (f s) = preempt_cnt s)"

lemma spin_lock_irqsave_state:
  "spin_lock_irqsave s = (en, t) \<longleftrightarrow>
     en = ints_on s \<and> t = s\<lparr>ints_on := False, preempt_cnt := preempt_cnt s + 1\<rparr>"
  by (auto simp: spin_defs Let_def)

lemma spin_unlock_irqrestore_sel [simp]:
  "ints_on (spin_unlock_irqrestore en s) = (en \<or> ints_on s)"
  "preempt_cnt (spin_unlock_irqrestore en s) = preempt_cnt s - 1"
  by (auto simp: spin_defs Let_def)

lemma critical_section_balanced:
  assumes "preserves_cpu body" "spin_lock_irqsave s = (en, t)"
  shows "ints_on (body t) = False" "preempt_cnt (body t) = preempt_cnt s + 1"
    and "ints_on (spin_unlock_irqrestore en (body t)) = ints_on s"
    and "preempt_cnt (spin_unlock_irqrestore en (body t)) = preempt_cnt s"
  using assms by (auto simp: preserves_cpu_def spin_lock_irqsave_state)

end
