(* ===== verification/PageAlloc.thy ===== *)
theory PageAlloc
  imports KList Spinlock
begin

text \<open>
  The buddy page allocator of \<^verbatim>\<open>src/memory.c\<close> with the definitions of \<^verbatim>\<open>inc/memory.h\<close>. A zone and its
  array of page descriptors are addressed as the compiler lays them out, so that a list link, a page
  descriptor and a page index are the same numbers as in the kernel: the \<open>ll\<close> field is the first
  of \<^verbatim>\<open>struct page\<close>, and \<^verbatim>\<open>CONTAINER_OF\<close> and pointer differences are word arithmetic.
\<close>

section \<open>Layout\<close>

abbreviation (input) PAGE_SHIFT :: nat where "PAGE_SHIFT \<equiv> 12"
abbreviation (input) PAGE_SIZE :: u64 where "PAGE_SIZE \<equiv> 4096"
abbreviation (input) PAGE_MASK :: u64 where "PAGE_MASK \<equiv> 4095"
abbreviation (input) HIGHER_BASE :: u64 where "HIGHER_BASE \<equiv> 0xffff800000000000"
abbreviation (input) MAX_ORDER :: nat where "MAX_ORDER \<equiv> 18"

definition va :: "u64 \<Rightarrow> addr" where
  "va phys = phys + HIGHER_BASE"

definition pa :: "addr \<Rightarrow> u64" where
  "pa virt = virt - HIGHER_BASE"

text \<open>
  \<^verbatim>\<open>struct page\<close> is 32 bytes (list links 16, flags 8, the union 8). In \<^verbatim>\<open>struct page_alloc_zone\<close> the
  lock is at 0, \<open>ll\<close> at 8, \<open>begin\<close> at 24, \<open>end\<close> at 32, the 19 heads \<open>order[]\<close> at 40 and
  \<open>pages[]\<close> at 344.
\<close>

definition zone_ll :: "addr \<Rightarrow> addr" where
  "zone_ll z = z + 8"

definition order_head :: "addr \<Rightarrow> nat \<Rightarrow> addr" where
  "order_head z ord = z + 40 + 16 * of_nat ord"

definition zone_pages :: "addr \<Rightarrow> addr" where
  "zone_pages z = z + 344"

definition page_at :: "addr \<Rightarrow> u64 \<Rightarrow> addr" where
  "page_at z i = zone_pages z + 32 * i"

text \<open>\<^verbatim>\<open>page - zone->pages\<close>: a signed difference, divided by the element size by an arithmetic shift.\<close>

definition page_diff :: "addr \<Rightarrow> addr \<Rightarrow> u64" where
  "page_diff page z = signed_drop_bit 5 (page - zone_pages z)"

record pgs = cpu +
  ll :: lheap                     \<comment> \<open>the \<^verbatim>\<open>struct list_head\<close>s\<close>
  zones_head :: addr              \<comment> \<open>\<^verbatim>\<open>&page_alloc_zones\<close>\<close>
  zone_begin :: "addr \<Rightarrow> u64"     \<comment> \<open>\<^verbatim>\<open>zone->begin\<close>, by zone address\<close>
  zone_end :: "addr \<Rightarrow> u64"
  flags :: "addr \<Rightarrow> u64"          \<comment> \<open>\<^verbatim>\<open>page->flags\<close>, by page address\<close>

section \<open>Page flags\<close>

definition page_order :: "addr \<Rightarrow> 'a pgs_scheme \<Rightarrow> nat" where
  "page_order page s = unat (flags s page AND 0xff)"

definition page_set_order :: "addr \<Rightarrow> nat \<Rightarrow> 'a pgs_scheme \<Rightarrow> 'a pgs_scheme res" where
  "page_set_order page ord s =
     (if ord > 255 then Inl (Bug ''order > (int)PAGE_ORDER_MASK'')
      else Inr (s\<lparr>flags := (flags s)(page := (flags s page AND NOT 0xff) OR of_nat ord)\<rparr>))"

definition page_is_free :: "addr \<Rightarrow> 'a pgs_scheme \<Rightarrow> bool" where
  "page_is_free page s \<longleftrightarrow> flags s page AND 0x100 \<noteq> 0"

definition page_set_free :: "addr \<Rightarrow> 'a pgs_scheme \<Rightarrow> 'a pgs_scheme" where
  "page_set_free page s = s\<lparr>flags := (flags s)(page := flags s page OR 0x100)\<rparr>"

definition page_set_busy :: "addr \<Rightarrow> 'a pgs_scheme \<Rightarrow> 'a pgs_scheme" where
  "page_set_busy page s = s\<lparr>flags := (flags s)(page := flags s page AND NOT 0x100)\<rparr>"

definition page_set_bit :: "addr \<Rightarrow> nat \<Rightarrow> 'a pgs_scheme \<Rightarrow> 'a pgs_scheme" where
  "page_set_bit page b s = s\<lparr>flags := (flags s)(page := flags s page OR push_bit (b + 16) 1)\<rparr>"

definition page_clear_bit :: "addr \<Rightarrow> nat \<Rightarrow> 'a pgs_scheme \<Rightarrow> 'a pgs_scheme" where
  "page_clear_bit page b s = s\<lparr>flags := (flags s)(page := flags s page AND NOT (push_bit (b + 16) 1))\<rparr>"

definition page_test_bit :: "addr \<Rightarrow> nat \<Rightarrow> 'a pgs_scheme \<Rightarrow> bool" where
  "page_test_bit page b s \<longleftrightarrow> flags s page AND push_bit (b + 16) 1 \<noteq> 0"

section \<open>Finding zones and pages\<close>

text \<open>
  The walks over the circular list of zones. A walk over links that do not lead back to the head
  does not end: the outer \<open>None\<close>.
\<close>

partial_function (option) page_alloc_zone_find_from ::
  "u64 \<Rightarrow> addr \<Rightarrow> 'a pgs_scheme \<Rightarrow> addr option" where
  "page_alloc_zone_find_from idx ptr s =
     (if ptr = zones_head s then Some NULL
      else let zone = ptr - 8 in
        if idx \<ge> zone_begin s zone \<and> idx < zone_end s zone then Some zone
        else page_alloc_zone_find_from idx (lh_next (ll s) ptr) s)"

definition page_alloc_zone_find :: "u64 \<Rightarrow> 'a pgs_scheme \<Rightarrow> addr option" where
  "page_alloc_zone_find idx s = page_alloc_zone_find_from idx (lh_next (ll s) (zones_head s)) s"

partial_function (option) page_zone_from :: "addr \<Rightarrow> addr \<Rightarrow> 'a pgs_scheme \<Rightarrow> addr res option" where
  "page_zone_from page ptr s =
     (if ptr = zones_head s then Some (Inl (Bug ''orphan page''))
      else let zone = ptr - 8; pages = zone_end s zone - zone_begin s zone in
        if page_diff page zone < pages then Some (Inr zone)
        else page_zone_from page (lh_next (ll s) ptr) s)"

definition page_zone :: "addr \<Rightarrow> 'a pgs_scheme \<Rightarrow> addr res option" where
  "page_zone page s = page_zone_from page (lh_next (ll s) (zones_head s)) s"

definition page_addr :: "addr \<Rightarrow> 'a pgs_scheme \<Rightarrow> u64 res option" where
  "page_addr page s =
     map_option (\<lambda>r. bindR r (\<lambda>zone. Inr (push_bit PAGE_SHIFT (zone_begin s zone + page_diff page zone))))
       (page_zone page s)"

partial_function (option) addr_page_from :: "u64 \<Rightarrow> addr \<Rightarrow> 'a pgs_scheme \<Rightarrow> addr res option" where
  "addr_page_from page ptr s =
     (if ptr = zones_head s then Some (Inl (Bug ''Page for addr not found''))
      else let zone = ptr - 8 in
        if page < zone_begin s zone \<or> page \<ge> zone_end s zone
        then addr_page_from page (lh_next (ll s) ptr) s
        else Some (Inr (page_at zone (page - zone_begin s zone))))"

definition addr_page :: "u64 \<Rightarrow> 'a pgs_scheme \<Rightarrow> addr res option" where
  "addr_page a s =
     (if a AND PAGE_MASK \<noteq> 0 then Some (Inl (Bug ''addr & PAGE_MASK''))
      else addr_page_from (drop_bit PAGE_SHIFT a) (lh_next (ll s) (zones_head s)) s)"

section \<open>Allocation\<close>

text \<open>
  The search for the smallest order with a free block. The loop tests the list before the bound,
  so at \<open>MAX_ORDER + 1\<close> it reads the links at the address where \<open>order[19]\<close> would be, which are
  those of \<open>pages[0]\<close>; either answer ends the loop.
\<close>

function alloc_find_order :: "addr \<Rightarrow> nat \<Rightarrow> 'a pgs_scheme \<Rightarrow> nat" where
  "alloc_find_order zone current s =
     (if list_empty (order_head zone current) (ll s) \<and> current \<le> MAX_ORDER
      then alloc_find_order zone (current + 1) s else current)"
  by pat_completeness auto
termination
  by (relation "measure (\<lambda>(z, c, s). 19 - c)") auto

declare alloc_find_order.simps [simp del]

text \<open>The splitting loop. \<^verbatim>\<open>--current\<close> below zero would be a shift by a negative count.\<close>

fun alloc_split :: "addr \<Rightarrow> u64 \<Rightarrow> nat \<Rightarrow> nat \<Rightarrow> 'a pgs_scheme \<Rightarrow> 'a pgs_scheme res" where
  "alloc_split zone idx current ord s =
     (if current = ord then Inr s
      else case current of
        0 \<Rightarrow> Inl (Fault ''negative shift'')
      | Suc c \<Rightarrow>
          let bidx = idx XOR push_bit c 1;
              buddy = page_at zone (bidx - zone_begin s zone);
              s = s\<lparr>ll := list_add buddy (order_head zone c) (ll s)\<rparr>
          in bindR (page_set_order buddy c s)
               (\<lambda>s. alloc_split zone idx c ord (page_set_free buddy s)))"

declare alloc_split.simps [simp del]

definition raw_page_alloc_zone :: "addr \<Rightarrow> nat \<Rightarrow> 'a pgs_scheme \<Rightarrow> (addr \<times> 'a pgs_scheme) res" where
  "raw_page_alloc_zone zone ord s =
     (let current = alloc_find_order zone ord s in
      if current > MAX_ORDER then Inr (NULL, s)
      else if list_empty (order_head zone current) (ll s)
      then Inl (Bug ''list_empty(&zone->order[current])'')
      else
        let page = list_first (order_head zone current) (ll s);
            idx = zone_begin s zone + page_diff page zone;
            s = page_set_busy page s;
            s = s\<lparr>ll := list_del page (ll s)\<rparr>
        in bindR (alloc_split zone idx current ord s) (\<lambda>s. Inr (page, s)))"

definition page_alloc_zone :: "addr \<Rightarrow> nat \<Rightarrow> 'a pgs_scheme \<Rightarrow> (addr \<times> 'a pgs_scheme) res" where
  "page_alloc_zone zone ord s =
     (let (enable, s) = spin_lock_irqsave s in
      bindR (raw_page_alloc_zone zone ord s)
        (\<lambda>(page, s). Inr (page, spin_unlock_irqrestore enable s)))"

partial_function (option) raw_page_alloc_from ::
  "addr \<Rightarrow> nat \<Rightarrow> 'a pgs_scheme \<Rightarrow> (addr \<times> 'a pgs_scheme) res option" where
  "raw_page_alloc_from ptr ord s =
     (if ptr = zones_head s then Some (Inr (NULL, s))
      else case page_alloc_zone (ptr - 8) ord s of
        Inl e \<Rightarrow> Some (Inl e)
      | Inr (page, s) \<Rightarrow>
          if page \<noteq> NULL then Some (Inr (page, s))
          else raw_page_alloc_from (lh_next (ll s) ptr) ord s)"

definition raw_page_alloc :: "nat \<Rightarrow> 'a pgs_scheme \<Rightarrow> (addr \<times> 'a pgs_scheme) res option" where
  "raw_page_alloc ord s =
     (if ord > MAX_ORDER then Some (Inr (NULL, s))
      else raw_page_alloc_from (lh_next (ll s) (zones_head s)) ord s)"

partial_function (option) page_alloc_from ::
  "addr \<Rightarrow> nat \<Rightarrow> 'a pgs_scheme \<Rightarrow> (u64 \<times> 'a pgs_scheme) res option" where
  "page_alloc_from ptr ord s =
     (if ptr = zones_head s then Some (Inr (0, s))
      else case page_alloc_zone (ptr - 8) ord s of
        Inl e \<Rightarrow> Some (Inl e)
      | Inr (page, s) \<Rightarrow>
          if page = NULL then page_alloc_from (lh_next (ll s) ptr) ord s
          else Some (Inr (push_bit PAGE_SHIFT (zone_begin s (ptr - 8) + page_diff page (ptr - 8)), s)))"

definition page_alloc :: "nat \<Rightarrow> 'a pgs_scheme \<Rightarrow> (u64 \<times> 'a pgs_scheme) res option" where
  "page_alloc ord s =
     (if ord > MAX_ORDER then Some (Inr (0, s))
      else page_alloc_from (lh_next (ll s) (zones_head s)) ord s)"

section \<open>Freeing\<close>

function free_merge :: "addr \<Rightarrow> addr \<Rightarrow> u64 \<Rightarrow> nat \<Rightarrow> 'a pgs_scheme \<Rightarrow> addr \<times> nat \<times> 'a pgs_scheme" where
  "free_merge zone page idx ord s =
     (if ord < MAX_ORDER then
        let bidx = idx XOR push_bit ord 1 in
        if bidx < zone_begin s zone \<or> bidx \<ge> zone_end s zone then (page, ord, s)
        else
          let buddy = page_at zone (bidx - zone_begin s zone) in
          if \<not> page_is_free buddy s \<or> page_order buddy s \<noteq> ord then (page, ord, s)
          else
            let (page, idx) = (if bidx < idx then (buddy, bidx) else (page, idx));
                s = s\<lparr>ll := list_del buddy (ll s)\<rparr>
            in free_merge zone page idx (ord + 1) s
      else (page, ord, s))"
  by pat_completeness auto
termination
  by (relation "measure (\<lambda>(z, p, i, ord, s). MAX_ORDER - ord)") auto

declare free_merge.simps [simp del]

definition raw_page_free_zone :: "addr \<Rightarrow> addr \<Rightarrow> nat \<Rightarrow> 'a pgs_scheme \<Rightarrow> 'a pgs_scheme res" where
  "raw_page_free_zone zone page ord s =
     (let idx = zone_begin s zone + page_diff page zone in
      if idx AND (push_bit ord 1 - 1) \<noteq> 0 then Inl (Bug ''idx & ((1ull << order) - 1)'')
      else
        let (page, ord, s) = free_merge zone page idx ord s;
            s = s\<lparr>ll := list_add page (order_head zone ord) (ll s)\<rparr>
        in bindR (page_set_order page ord s) (\<lambda>s. Inr (page_set_free page s)))"

definition page_free_zone :: "addr \<Rightarrow> addr \<Rightarrow> nat \<Rightarrow> 'a pgs_scheme \<Rightarrow> 'a pgs_scheme res" where
  "page_free_zone zone page ord s =
     (let (enable, s) = spin_lock_irqsave s in
      bindR (raw_page_free_zone zone page ord s)
        (\<lambda>s. Inr (spin_unlock_irqrestore enable s)))"

definition page_free :: "u64 \<Rightarrow> nat \<Rightarrow> 'a pgs_scheme \<Rightarrow> 'a pgs_scheme res option" where
  "page_free a ord s =
     (if a = 0 then Some (Inr s)
      else
        let idx = drop_bit PAGE_SHIFT a in
        map_option (\<lambda>zone.
          if zone = NULL then Inl (Bug ''!zone'')
          else page_free_zone zone (page_at zone (idx - zone_begin s zone)) ord s)
        (page_alloc_zone_find idx s))"

definition raw_page_free :: "addr \<Rightarrow> nat \<Rightarrow> 'a pgs_scheme \<Rightarrow> 'a pgs_scheme res option" where
  "raw_page_free page ord s =
     (if page = NULL then Some (Inr s)
      else map_option (\<lambda>r. bindR r (\<lambda>zone. page_free_zone zone page ord s)) (page_zone page s))"

section \<open>Giving a memory range to its zone\<close>

text \<open>
  The largest order at which a block may start at \<open>page\<close> and still end by \<open>end\<close>:
  the inner loop of \<^verbatim>\<open>__page_alloc_zone_free\<close>.
\<close>

function zone_free_order :: "u64 \<Rightarrow> u64 \<Rightarrow> nat \<Rightarrow> nat" where
  "zone_free_order page fin ord =
     (if ord < MAX_ORDER then
        if page AND push_bit ord 1 \<noteq> 0 then ord
        else if page + push_bit (ord + 1) 1 > fin then ord
        else zone_free_order page fin (ord + 1)
      else ord)"
  by pat_completeness auto
termination
  by (relation "measure (\<lambda>(p, f, ord). MAX_ORDER - ord)") auto

declare zone_free_order.simps [simp del]

partial_function (option) zone_free_loop ::
  "addr \<Rightarrow> u64 \<Rightarrow> u64 \<Rightarrow> 'a pgs_scheme \<Rightarrow> 'a pgs_scheme res option" where
  "zone_free_loop zone page fin s =
     (if page = fin then Some (Inr s)
      else
        let ord = zone_free_order page fin 0;
            ptr = page_at zone (page - zone_begin s zone);
            s = s\<lparr>ll := list_add_tail ptr (order_head zone ord) (ll s)\<rparr>
        in case page_set_order ptr ord s of
             Inl e \<Rightarrow> Some (Inl e)
           | Inr s \<Rightarrow> zone_free_loop zone (page + push_bit ord 1) fin (page_set_free ptr s))"

definition raw_page_alloc_zone_free :: "u64 \<Rightarrow> u64 \<Rightarrow> 'a pgs_scheme \<Rightarrow> 'a pgs_scheme res option" where
  "raw_page_alloc_zone_free zbegin zend s =
     (let page_mask = NOT PAGE_MASK;
          begin_addr = (zbegin + PAGE_SIZE - 1) AND page_mask;
          end_addr = zend AND page_mask;
          first = (if begin_addr \<noteq> 0 then drop_bit PAGE_SHIFT begin_addr else 1);
          fin = drop_bit PAGE_SHIFT end_addr
      in if first \<ge> fin then Some (Inr s)
         else case page_alloc_zone_find first s of
           None \<Rightarrow> None
         | Some zone \<Rightarrow>
             if zone = NULL then Some (Inl (Bug ''!zone''))
             else if first < zone_begin s zone \<or> first \<ge> zone_end s zone
             then Some (Inl (Bug ''begin < zone->begin || begin >= zone->end''))
             else if fin \<le> zone_begin s zone \<or> fin > zone_end s zone
             then Some (Inl (Bug ''end <= zone->begin || end > zone->end''))
             else zone_free_loop zone first fin s)"

end
