(* ===== verification/Buddy.thy ===== *)
theory Buddy
  imports PageAlloc
begin

text \<open>
  Correctness of the buddy allocator of \<open>PageAlloc\<close>. The state of one zone is abstracted to
  two sets of blocks, a block being a page index and an order: the free blocks and the allocated
  ones. The invariant ties them to the free lists and to the page flags; allocation and freeing
  keep it and change the two sets as a buddy allocator must.
\<close>

section \<open>Arithmetic of the layout\<close>

lemma signed_drop_bit_pos:
  fixes w :: u64
  assumes "unat w < 2 ^ 63"
  shows "signed_drop_bit n w = drop_bit n w"
proof -
  have "bit (unat w) 63 \<longleftrightarrow> bit w 63" by (simp add: bit_unsigned_iff)
  moreover have "\<not> bit (unat w) 63" using assms by (simp add: bit_iff_odd)
  ultimately have "\<not> bit w 63" by simp
  moreover have "\<not> bit w (n + m)" if "64 \<le> n + m" for m
    using that bit_imp_le_length [of w "n + m"] by auto
  ultimately show ?thesis
    by (intro bit_word_eqI) (auto simp: bit_signed_drop_bit_iff bit_drop_bit_eq)
qed

lemma unat_mult_no_wrap:
  fixes c k :: u64
  shows "unat c * unat k < 2 ^ 64 \<Longrightarrow> unat (c * k) = unat c * unat k"
  by (simp add: unat_word_ariths)

lemma page_diff_page_at: "k < 2 ^ 58 \<Longrightarrow> page_diff (page_at z (of_nat k)) z = of_nat k"
proof -
  assume k: "k < 2 ^ 58"
  let ?w = "32 * of_nat k :: u64"
  have uk: "unat (of_nat k :: u64) = k" by (rule unat_of_nat64) (use k in simp)
  have u: "unat ?w = 32 * k" using k uk by (subst unat_mult_no_wrap) auto
  have "page_diff (page_at z (of_nat k)) z = signed_drop_bit 5 ?w"
    by (simp add: page_diff_def page_at_def)
  also have "\<dots> = drop_bit 5 ?w" using u k by (intro signed_drop_bit_pos) simp
  also have "\<dots> = of_nat k"
  proof -
    have "unat (drop_bit 5 ?w) = drop_bit 5 (unat ?w)" by (rule unat_drop_bit_eq)
    also have "\<dots> = unat (of_nat k :: u64)" unfolding u uk by (simp add: drop_bit_eq_div)
    finally show ?thesis by (rule word_unat_eq_iff [THEN iffD2])
  qed
  finally show ?thesis .
qed

text \<open>A zone at \<open>z\<close> for the pages from \<open>b\<close> to \<open>e\<close> fits in the address space.\<close>

definition zone_fits :: "addr \<Rightarrow> nat \<Rightarrow> nat \<Rightarrow> bool" where
  "zone_fits z b e \<longleftrightarrow> z \<noteq> 0 \<and> b < e \<and> e \<le> 2 ^ 52 \<and> unat z + 344 + 32 * (e - b) < 2 ^ 64"

definition pg :: "addr \<Rightarrow> nat \<Rightarrow> nat \<Rightarrow> addr" where
  "pg z b i = page_at z (of_nat (i - b))"

lemma unat_order_head:
  assumes "zone_fits z b e" "ord \<le> 19"
  shows "unat (order_head z ord) = unat z + 40 + 16 * ord"
proof -
  have "order_head z ord = z + of_nat (40 + 16 * ord)" by (simp add: order_head_def)
  moreover have "unat (of_nat (40 + 16 * ord) :: u64) = 40 + 16 * ord"
    by (rule unat_of_nat64) (use assms(2) in simp)
  ultimately show ?thesis
    using assms by (subst \<open>_ = z + _\<close>, subst unat_add_no_wrap) (auto simp: zone_fits_def)
qed

lemma unat_pg:
  assumes "zone_fits z b e" "b \<le> i" "i < e"
  shows "unat (pg z b i) = unat z + 344 + 32 * (i - b)"
proof -
  have "pg z b i = z + of_nat (344 + 32 * (i - b))"
    by (simp add: pg_def page_at_def zone_pages_def)
  moreover have "unat (of_nat (344 + 32 * (i - b)) :: u64) = 344 + 32 * (i - b)"
    by (rule unat_of_nat64) (use assms in \<open>auto simp: zone_fits_def\<close>)
  ultimately show ?thesis
    using assms by (subst \<open>_ = z + _\<close>, subst unat_add_no_wrap) (auto simp: zone_fits_def)
qed

lemma pg_inj: "zone_fits z b e \<Longrightarrow> b \<le> i \<Longrightarrow> i < e \<Longrightarrow> b \<le> j \<Longrightarrow> j < e \<Longrightarrow>
    pg z b i = pg z b j \<longleftrightarrow> i = j"
  using unat_pg [of z b e i] unat_pg [of z b e j] by (auto simp: pg_def)

lemma pg_inj_on: "zone_fits z b e \<Longrightarrow> inj_on (pg z b) {b..<e}"
  using pg_inj by (auto simp: inj_on_def)

lemma pg_not_NULL: "zone_fits z b e \<Longrightarrow> b \<le> i \<Longrightarrow> i < e \<Longrightarrow> pg z b i \<noteq> NULL"
  using unat_pg [of z b e i] by auto

lemma order_head_inj:
  assumes "zone_fits z b e" "m \<le> 18" "n \<le> 18"
  shows "order_head z m = order_head z n \<longleftrightarrow> m = n"
proof
  assume eq: "order_head z m = order_head z n"
  have "unat z + 40 + 16 * m = unat (order_head z m)"
    by (rule unat_order_head [OF assms(1), symmetric]) (use assms(2) in simp)
  also have "\<dots> = unat (order_head z n)" unfolding eq ..
  also have "\<dots> = unat z + 40 + 16 * n"
    by (rule unat_order_head [OF assms(1)]) (use assms(3) in simp)
  finally show "m = n" by simp
qed simp

lemma pg_order_head: "zone_fits z b e \<Longrightarrow> b \<le> i \<Longrightarrow> i < e \<Longrightarrow> m \<le> 18 \<Longrightarrow> pg z b i \<noteq> order_head z m"
proof
  assume a: "zone_fits z b e" "b \<le> i" "i < e" "m \<le> 18" "pg z b i = order_head z m"
  then have "unat z + 344 + 32 * (i - b) = unat z + 40 + 16 * m"
    using unat_order_head [of z b e m] unat_pg [of z b e i] by simp
  then show False using a(4) by simp
qed

text \<open>Between a page descriptor and the index of its page.\<close>

lemma page_index:
  assumes "zone_fits z b e" "b \<le> i" "i < e"
  shows "of_nat b + page_diff (pg z b i) z = (of_nat i :: u64)"
proof -
  have "i - b < 2 ^ 58" using assms by (auto simp: zone_fits_def)
  then have "page_diff (pg z b i) z = of_nat (i - b)" unfolding pg_def by (rule page_diff_page_at)
  then show ?thesis using assms(2) by simp
qed

lemma page_at_pg:
  assumes "b \<le> i" shows "page_at z (of_nat i - of_nat b) = pg z b i"
  using assms by (simp add: pg_def)

section \<open>Page flags\<close>

lemma flag_words:
  fixes f w :: u64
  shows "(f OR 0x100) AND 0xff = f AND 0xff" "(f OR 0x100) AND 0x100 = 0x100"
    "(f AND NOT 0x100) AND 0x100 = 0"
    and "w AND 0xff = w \<Longrightarrow> ((f AND NOT 0xff) OR w) AND 0xff = w"
    and "w AND 0xff = w \<Longrightarrow> ((f AND NOT 0xff) OR w) AND 0x100 = f AND 0x100"
proof -
  have c: "(0xff :: u64) = mask 8" "(0x100 :: u64) = push_bit 8 1"
    by (simp_all add: mask_eq_exp_minus_1)
  have bff: "bit (0xff :: u64) n \<longleftrightarrow> n < 8" and b100: "bit (0x100 :: u64) n \<longleftrightarrow> n = 8" for n
    unfolding c by (auto simp only: bit_mask_iff bit_push_bit_iff bit_1_iff possible_bit_word) auto
  note bits = bit_and_iff bit_or_iff bit_not_iff bff b100
  show "(f OR 0x100) AND 0xff = f AND 0xff" "(f OR 0x100) AND 0x100 = 0x100"
    "(f AND NOT 0x100) AND 0x100 = 0"
    by (rule bit_word_eqI, auto simp only: bits bit_0_eq bot_apply bot_bool_def)+
  assume w: "w AND 0xff = w"
  have hi: "n < 8" if "bit w n" for n
    using that arg_cong [OF w, of "\<lambda>v. bit v n"] unfolding bits by blast
  show "((f AND NOT 0xff) OR w) AND 0xff = w"
    by (rule bit_word_eqI, simp only: bits) (use hi in blast)
  show "((f AND NOT 0xff) OR w) AND 0x100 = f AND 0x100"
    by (rule bit_word_eqI, simp only: bits) (use hi in fastforce)
qed

lemma of_nat_and_255: "ord \<le> 255 \<Longrightarrow> (of_nat ord :: u64) AND 0xff = of_nat ord"
proof -
  assume a: "ord \<le> 255"
  have "(of_nat ord :: u64) AND 0xff = take_bit 8 (of_nat ord)"
    by (simp add: take_bit_eq_mask mask_eq_exp_minus_1)
  also have "\<dots> = of_nat (take_bit 8 ord)" by (simp add: take_bit_of_nat)
  also have "\<dots> = of_nat ord" using a by (simp add: take_bit_nat_eq_self)
  finally show ?thesis .
qed

text \<open>\<open>mark_free\<close> is the pair of calls \<open>page_set_order\<close>, \<open>page_set_free\<close> every free block gets.\<close>

definition mark_free :: "addr \<Rightarrow> nat \<Rightarrow> 'a pgs_scheme \<Rightarrow> 'a pgs_scheme" where
  "mark_free page ord s =
     s\<lparr>flags := (flags s)(page := ((flags s page AND NOT 0xff) OR of_nat ord) OR 0x100)\<rparr>"

lemma page_set_order_free:
  "ord \<le> 255 \<Longrightarrow> bindR (page_set_order page ord s) (\<lambda>s. f (page_set_free page s)) = f (mark_free page ord s)"
  by (simp add: page_set_order_def page_set_free_def mark_free_def)

lemma mark_free_flags:
  assumes "ord \<le> 255"
  shows "page_is_free q (mark_free p ord s) = (q = p \<or> page_is_free q s)"
    and "page_order q (mark_free p ord s) = (if q = p then ord else page_order q s)"
proof -
  note w = of_nat_and_255 [OF assms]
  show "page_is_free q (mark_free p ord s) = (q = p \<or> page_is_free q s)"
    using flag_words(2) by (auto simp: page_is_free_def mark_free_def)
  have "unat (of_nat ord :: u64) = ord" by (rule unat_of_nat64) (use assms in simp)
  then show "page_order q (mark_free p ord s) = (if q = p then ord else page_order q s)"
    using flag_words(1) flag_words(4) [OF w] by (simp add: page_order_def mark_free_def)
qed

lemma page_set_busy_flags:
  "page_is_free q (page_set_busy p s) = (q \<noteq> p \<and> page_is_free q s)"
  using flag_words(3) by (auto simp: page_is_free_def page_set_busy_def)

lemma page_set_busy_order:
  "q \<noteq> p \<Longrightarrow> page_order q (page_set_busy p s) = page_order q s"
  by (simp add: page_order_def page_set_busy_def)

lemma flags_ops_sel [simp]:
  "ll (mark_free p n s) = ll s" "ll (page_set_busy p s) = ll s"
  "zone_begin (mark_free p n s) = zone_begin s" "zone_begin (page_set_busy p s) = zone_begin s"
  "zone_end (mark_free p n s) = zone_end s" "zone_end (page_set_busy p s) = zone_end s"
  "zones_head (mark_free p n s) = zones_head s" "zones_head (page_set_busy p s) = zones_head s"
  by (simp_all add: mark_free_def page_set_busy_def)

lemma flags_ll [simp]:
  "page_is_free p (s\<lparr>ll := h\<rparr>) = page_is_free p s" "page_order p (s\<lparr>ll := h\<rparr>) = page_order p s"
  by (simp_all add: page_is_free_def page_order_def)

section \<open>Buddies\<close>

definition buddy :: "nat \<Rightarrow> nat \<Rightarrow> nat" where
  "buddy i ord = (if bit i ord then i - 2 ^ ord else i + 2 ^ ord)"

lemma xor_buddy: "i XOR push_bit ord 1 = buddy i ord"
proof -
  have "i XOR push_bit ord 1 = flip_bit ord i" by (simp add: flip_bit_eq_xor)
  also have "\<dots> = buddy i ord"
  proof (cases "bit i ord")
    case True
    have "set_bit ord (unset_bit ord i) = i"
      using True by (intro bit_eqI) (auto simp: bit_simps)
    then have "unset_bit ord i + 2 ^ ord = i"
      by (simp add: set_bit_eq bit_simps)
    then have "unset_bit ord i = i - 2 ^ ord" by linarith
    with True show ?thesis by (simp add: flip_bit_eq_if buddy_def)
  qed (simp add: flip_bit_eq_if set_bit_eq buddy_def)
  finally show ?thesis .
qed

lemma of_nat_buddy:
  assumes "i < 2 ^ 63" "ord < 63"
  shows "(of_nat i :: u64) XOR push_bit ord 1 = of_nat (buddy i ord)"
proof -
  have "(push_bit ord 1 :: u64) = of_nat (push_bit ord 1)"
    by (simp add: push_bit_eq_mult)
  then show ?thesis by (simp add: xor_buddy [symmetric] of_nat_xor_eq)
qed

lemma aligned_range_iff:
  fixes x k n D :: nat
  assumes "0 < D" "D dvd k" "D dvd n"
  shows "x \<in> {k..<k + n} \<longleftrightarrow> x div D \<in> {k div D..<(k + n) div D}"
proof -
  obtain k' n' where kn: "k = D * k'" "n = D * n'" using assms(2,3) by (auto elim!: dvdE)
  have "k \<le> x \<longleftrightarrow> k' \<le> x div D" using assms(1) kn
    by (metis div_le_mono less_eq_div_iff_mult_less_eq mult.commute nonzero_mult_div_cancel_left not_gr_zero)
  moreover have "x < k + n \<longleftrightarrow> x div D < k' + n'" using assms(1) kn
    by (metis add_mult_distrib2 div_less_iff_less_mult mult.commute)
  moreover have "(k + n) div D = k' + n'" "k div D = k'" using kn assms(1)
    by (simp_all add: add_mult_distrib2 [symmetric])
  ultimately show ?thesis by simp
qed

lemma buddy_cases:
  assumes "2 ^ ord dvd i"
  shows "2 ^ Suc ord dvd i \<and> buddy i ord = i + 2 ^ ord \<and> \<not> bit i ord \<or>
     2 ^ ord \<le> i \<and> 2 ^ Suc ord dvd i - 2 ^ ord \<and> buddy i ord = i - 2 ^ ord \<and> bit i ord"
proof -
  obtain q where q: "i = 2 ^ ord * q" using assms by (rule dvdE)
  have b: "bit i ord \<longleftrightarrow> odd q" by (simp add: q bit_iff_odd)
  show ?thesis
  proof (cases "odd q")
    case True
    then obtain r where r: "q = 2 * r + 1" by (rule oddE)
    then have "i = 2 ^ Suc ord * r + 2 ^ ord" by (simp add: q algebra_simps)
    then show ?thesis using b True by (simp add: buddy_def)
  next
    case False
    then obtain r where "q = 2 * r" by (auto elim: evenE)
    then show ?thesis using b False by (simp add: buddy_def q)
  qed
qed

lemma buddy_aligned: "2 ^ ord dvd i \<Longrightarrow> 2 ^ ord dvd buddy i ord"
  using buddy_cases [of ord i] by (auto simp: dvd_diff_nat)

lemma buddy_div: "2 ^ ord dvd i \<Longrightarrow> buddy i ord div 2 ^ Suc ord = i div 2 ^ Suc ord"
proof -
  assume a: "2 ^ ord dvd i"
  have "(m + 2 ^ ord) div 2 ^ Suc ord = m div (2 ^ Suc ord)" if "2 ^ Suc ord dvd m" for m :: nat
    using that by (auto elim!: dvdE simp: algebra_simps)
  then show ?thesis using buddy_cases [OF a] by (metis le_add_diff_inverse2)
qed

section \<open>Sets of blocks\<close>

type_synonym block = "nat \<times> nat"

definition span :: "block \<Rightarrow> nat set" where
  "span = (\<lambda>(i, ord). {i..<i + 2 ^ ord})"

definition block_ok :: "nat \<Rightarrow> nat \<Rightarrow> block \<Rightarrow> bool" where
  "block_ok b e = (\<lambda>(i, ord). ord \<le> MAX_ORDER \<and> 2 ^ ord dvd i \<and> b \<le> i \<and> i + 2 ^ ord \<le> e)"

definition blocks_ok :: "nat \<Rightarrow> nat \<Rightarrow> block set \<Rightarrow> bool" where
  "blocks_ok b e B \<longleftrightarrow> (\<forall>x \<in> B. block_ok b e x) \<and>
     (\<forall>x \<in> B. \<forall>y \<in> B. x \<noteq> y \<longrightarrow> span x \<inter> span y = {})"

lemma span_iff [simp]: "x \<in> span (i, ord) \<longleftrightarrow> i \<le> x \<and> x < i + 2 ^ ord"
  by (simp add: span_def)

lemma span_halves: "span (i, Suc ord) = span (i, ord) \<union> span (i + 2 ^ ord, ord)"
  by auto

lemma halves_disjoint: "span (i, ord) \<inter> span (i + 2 ^ ord, ord) = {}"
  by auto

lemma blocks_okD: "blocks_ok b e B \<Longrightarrow> x \<in> B \<Longrightarrow> block_ok b e x"
  by (simp add: blocks_ok_def)

lemma blocks_ok_head:
  assumes "blocks_ok b e B" "(i, m) \<in> B" "(i, n) \<in> B"
  shows "m = n"
proof (rule ccontr)
  assume "m \<noteq> n"
  then have "span (i, m) \<inter> span (i, n) = {}" using assms by (auto simp: blocks_ok_def)
  moreover have "i \<in> span (i, m) \<inter> span (i, n)" by simp
  ultimately show False by blast
qed

lemma blocks_ok_inside:
  assumes "blocks_ok b e B" "(i, m) \<in> B" "(j, n) \<in> B" "j \<in> span (i, m)"
  shows "i = j \<and> m = n"
proof (rule ccontr)
  assume "\<not> (i = j \<and> m = n)"
  then have "span (i, m) \<inter> span (j, n) = {}" using assms by (auto simp: blocks_ok_def)
  moreover have "j \<in> span (j, n)" by simp
  ultimately show False using assms(4) by blast
qed

lemma span_nonempty: "span x \<noteq> {}"
  by (cases x) (auto simp: span_def)

lemma blocks_ok_insert:
  assumes "x \<notin> B"
  shows "blocks_ok b e (insert x B) \<longleftrightarrow>
    block_ok b e x \<and> blocks_ok b e B \<and> (\<forall>y \<in> B. span x \<inter> span y = {})"
proof
  assume "blocks_ok b e (insert x B)"
  then show "block_ok b e x \<and> blocks_ok b e B \<and> (\<forall>y \<in> B. span x \<inter> span y = {})"
    using assms unfolding blocks_ok_def by (metis insert_iff)
next
  assume a: "block_ok b e x \<and> blocks_ok b e B \<and> (\<forall>y \<in> B. span x \<inter> span y = {})"
  then show "blocks_ok b e (insert x B)"
    unfolding blocks_ok_def by (metis Int_commute insert_iff)
qed

lemma blocks_ok_subset: "blocks_ok b e B \<Longrightarrow> B' \<subseteq> B \<Longrightarrow> blocks_ok b e B'"
  unfolding blocks_ok_def by blast

lemma blocks_ok_split:
  assumes "blocks_ok b e (insert (i, Suc ord) B)" "(i, Suc ord) \<notin> B"
  shows "blocks_ok b e (insert (i, ord) (insert (i + 2 ^ ord, ord) B))"
    and "(i, ord) \<notin> B" "(i + 2 ^ ord, ord) \<notin> B"
proof -
  have B: "block_ok b e (i, Suc ord)" "blocks_ok b e B" "\<And>y. y \<in> B \<Longrightarrow> span (i, Suc ord) \<inter> span y = {}"
    using assms blocks_ok_insert [of "(i, Suc ord)" B b e] by blast+
  have ok: "block_ok b e (i, ord)" "block_ok b e (i + 2 ^ ord, ord)"
    using B(1) by (auto simp: block_ok_def elim!: dvdE)
  have dj: "span (i, ord) \<inter> span y = {}" "span (i + 2 ^ ord, ord) \<inter> span y = {}" if "y \<in> B" for y
    using B(3) [OF that] span_halves [of i ord] by blast+
  show fresh: "(i, ord) \<notin> B" "(i + 2 ^ ord, ord) \<notin> B"
    using dj span_nonempty by blast+
  have "blocks_ok b e (insert (i + 2 ^ ord, ord) B)"
    using blocks_ok_insert [OF fresh(2)] ok dj B(2) by blast
  moreover have "(i, ord) \<notin> insert (i + 2 ^ ord, ord) B" using fresh by simp
  ultimately show "blocks_ok b e (insert (i, ord) (insert (i + 2 ^ ord, ord) B))"
    using blocks_ok_insert [of "(i, ord)" "insert (i + 2 ^ ord, ord) B" b e] ok(1) dj(1)
      halves_disjoint [of i ord] by blast
qed

lemma blocks_ok_merge:
  assumes "blocks_ok b e (insert (i, ord) (insert (j, ord) B))" "(i, ord) \<notin> B" "(j, ord) \<notin> B"
    and "j = i + 2 ^ ord" "2 ^ Suc ord dvd i" "ord < MAX_ORDER"
  shows "blocks_ok b e (insert (i, Suc ord) B)" "(i, Suc ord) \<notin> B"
proof -
  have "block_ok b e (i, ord)" "block_ok b e (j, ord)" using assms(1) by (auto simp: blocks_ok_def)
  then have ok: "block_ok b e (i, Suc ord)" using assms(4-6) by (auto simp: block_ok_def)
  have dj: "span (i, Suc ord) \<inter> span x = {}" if "x \<in> B" for x
  proof -
    have "x \<noteq> (i, ord)" "x \<noteq> (j, ord)" using that assms(2,3) by auto
    then have "span x \<inter> span (i, ord) = {}" "span x \<inter> span (j, ord) = {}"
      using that assms(1) unfolding blocks_ok_def by (metis insert_iff)+
    then show ?thesis using span_halves [of i ord] assms(4) by auto
  qed
  show fresh: "(i, Suc ord) \<notin> B" using dj span_nonempty by blast
  have "blocks_ok b e B" using assms(1) by (rule blocks_ok_subset) blast
  then show "blocks_ok b e (insert (i, Suc ord) B)"
    using blocks_ok_insert [OF fresh] ok dj by blast
qed

text \<open>
  The page at the buddy index of a block is inside another block only as its first page, and that
  block is not larger.
\<close>

lemma blocks_ok_buddy:
  assumes B: "blocks_ok b e B" "(i, ord) \<in> B" "(k, n) \<in> B" and j: "buddy i ord \<in> span (k, n)"
    and ne: "(k, n) \<noteq> (i, ord)"
  shows "k = buddy i ord \<and> n \<le> ord"
proof -
  let ?j = "buddy i ord"
  have al: "2 ^ ord dvd i" "2 ^ n dvd k" using B blocks_okD by (fastforce simp: block_ok_def)+
  show ?thesis
  proof (cases "n \<le> ord")
    case True
    then have "2 ^ n dvd ?j" using buddy_aligned [OF al(1)] power_le_dvd by blast
    with al(2) obtain x y where xy: "?j = 2 ^ n * x" "k = 2 ^ n * y" by (auto elim!: dvdE)
    have "?j div 2 ^ n \<in> {k div 2 ^ n..<(k + 2 ^ n) div 2 ^ n}"
      using aligned_range_iff [of "2 ^ n" k "2 ^ n" ?j] al(2) j by simp
    then have "x = y" using xy by (simp add: add_mult_distrib2 [symmetric])
    then show ?thesis using True xy by simp
  next
    case False
    then have "2 ^ Suc ord dvd k" "(2::nat) ^ Suc ord dvd 2 ^ n"
      using al(2) power_le_dvd [of 2 n k "Suc ord"] le_imp_power_dvd [of "Suc ord" n 2] by auto
    then have "i \<in> {k..<k + 2 ^ n}"
      using aligned_range_iff [of "2 ^ Suc ord" k "2 ^ n" i]
        aligned_range_iff [of "2 ^ Suc ord" k "2 ^ n" ?j] j buddy_div [OF al(1)] by simp
    then show ?thesis using blocks_ok_inside [OF B(1,3,2)] ne by auto
  qed
qed

section \<open>The invariant of a zone\<close>

text \<open>
  \<open>F\<close> are the free blocks, \<open>A\<close> the allocated ones, and \<open>C\<close> the block an operation has in hand:
  taken from a list or given back, not yet handed out or linked. Blocks never overlap. The list of
  order \<open>n\<close> holds the first pages of the free blocks of that order, whose flags say so; the first
  page of an allocated block, and every page outside all blocks (reserved memory), is not flagged
  free. Pages of a free or in-hand block are on no list, except the first one of a free block.
\<close>

definition covered :: "block set \<Rightarrow> nat set" where
  "covered B = (\<Union>x \<in> B. span x)"

definition free_lists :: "addr \<Rightarrow> nat \<Rightarrow> block set \<Rightarrow> lfamily \<Rightarrow> bool" where
  "free_lists z b F L \<longleftrightarrow>
     (\<forall>n \<le> MAX_ORDER. \<exists>xs. L (order_head z n) = Some xs \<and> set xs = pg z b ` {i. (i, n) \<in> F})"

definition flags_ok :: "addr \<Rightarrow> nat \<Rightarrow> nat \<Rightarrow> block set \<Rightarrow> block set \<Rightarrow> block set \<Rightarrow> 'a pgs_scheme \<Rightarrow> bool" where
  "flags_ok z b e F A C s \<longleftrightarrow>
     (\<forall>i n. (i, n) \<in> F \<longrightarrow> page_is_free (pg z b i) s \<and> page_order (pg z b i) s = n) \<and>
     (\<forall>i n. (i, n) \<in> A \<longrightarrow> \<not> page_is_free (pg z b i) s) \<and>
     (\<forall>i. b \<le> i \<longrightarrow> i < e \<longrightarrow> i \<notin> covered (F \<union> A \<union> C) \<longrightarrow> \<not> page_is_free (pg z b i) s)"

definition unlinked :: "addr \<Rightarrow> nat \<Rightarrow> block set \<Rightarrow> block set \<Rightarrow> lfamily \<Rightarrow> bool" where
  "unlinked z b F C L \<longleftrightarrow>
     (\<forall>i \<in> covered (F \<union> C). i \<notin> fst ` F \<longrightarrow> pg z b i \<notin> members L)"

definition zone_inv ::
  "addr \<Rightarrow> nat \<Rightarrow> nat \<Rightarrow> block set \<Rightarrow> block set \<Rightarrow> block set \<Rightarrow> lfamily \<Rightarrow> 'a pgs_scheme \<Rightarrow> bool" where
  "zone_inv z b e F A C L s \<longleftrightarrow>
     zone_fits z b e \<and> zone_begin s z = of_nat b \<and> zone_end s z = of_nat e \<and>
     heap_lists (ll s) L \<and> blocks_ok b e (F \<union> A \<union> C) \<and> F \<inter> (A \<union> C) = {} \<and> A \<inter> C = {} \<and>
     free_lists z b F L \<and> flags_ok z b e F A C s \<and> unlinked z b F C L"

lemma zone_inv_block:
  assumes "zone_inv z b e F A C L s" "(i, n) \<in> F \<union> A \<union> C"
  shows "n \<le> MAX_ORDER" "2 ^ n dvd i" "b \<le> i" "i + 2 ^ n \<le> e" "i < e" "i < 2 ^ 63"
proof -
  have "block_ok b e (i, n)" using assms blocks_okD unfolding zone_inv_def by blast
  then show g: "n \<le> MAX_ORDER" "2 ^ n dvd i" "b \<le> i" "i + 2 ^ n \<le> e" by (auto simp: block_ok_def)
  then show "i < e" using less_le_trans [of i "i + 2 ^ n" e] by simp
  moreover have "e \<le> 2 ^ 52" using assms(1) by (simp add: zone_inv_def zone_fits_def)
  ultimately show "i < 2 ^ 63" by simp
qed

lemma zone_inv_pg_inj:
  assumes "zone_inv z b e F A C L s" "b \<le> i" "i < e" "b \<le> j" "j < e"
  shows "pg z b i = pg z b j \<longleftrightarrow> i = j"
  using assms pg_inj unfolding zone_inv_def by blast

text \<open>
  What an operation on this zone may change: the lists at its 19 heads, and the flags and list
  membership of its own page descriptors.
\<close>

definition zone_frame :: "addr \<Rightarrow> nat \<Rightarrow> nat \<Rightarrow> lfamily \<Rightarrow> 'a pgs_scheme \<Rightarrow> lfamily \<Rightarrow> 'a pgs_scheme \<Rightarrow> bool" where
  "zone_frame z b e L s L' s' \<longleftrightarrow>
     (\<forall>a. a \<notin> order_head z ` {..MAX_ORDER} \<longrightarrow> L' a = L a) \<and>
     (\<forall>a. a \<notin> pg z b ` {b..<e} \<longrightarrow> flags s' a = flags s a \<and> (a \<in> members L' \<longleftrightarrow> a \<in> members L)) \<and>
     zone_begin s' = zone_begin s \<and> zone_end s' = zone_end s \<and> zones_head s' = zones_head s \<and>
     ints_on s' = ints_on s \<and> preempt_cnt s' = preempt_cnt s"

lemma zone_frame_refl: "zone_frame z b e L s L s"
  by (simp add: zone_frame_def)

lemma zone_frame_trans:
  "zone_frame z b e L s L' s' \<Longrightarrow> zone_frame z b e L' s' L'' s'' \<Longrightarrow> zone_frame z b e L s L'' s''"
  unfolding zone_frame_def by metis

lemma free_lists_upd:
  assumes "zone_fits z b e" "free_lists z b F L" "n \<le> MAX_ORDER"
    and "set ys = pg z b ` {i. (i, n) \<in> F'}" "\<And>i m. m \<noteq> n \<Longrightarrow> (i, m) \<in> F' \<longleftrightarrow> (i, m) \<in> F"
  shows "free_lists z b F' (L(order_head z n \<mapsto> ys))"
  unfolding free_lists_def
proof (intro allI impI)
  fix m :: nat
  assume m: "m \<le> MAX_ORDER"
  show "\<exists>xs. (L(order_head z n \<mapsto> ys)) (order_head z m) = Some xs \<and> set xs = pg z b ` {i. (i, m) \<in> F'}"
  proof (cases "m = n")
    case True
    then show ?thesis using assms(4) by simp
  next
    case False
    then have "order_head z m \<noteq> order_head z n" using order_head_inj [OF assms(1) m assms(3)] by simp
    moreover have "{i. (i, m) \<in> F'} = {i. (i, m) \<in> F}" using assms(5) [OF False] by simp
    ultimately show ?thesis using assms(2) m by (simp add: free_lists_def)
  qed
qed

lemma zone_inv_list:
  assumes "zone_inv z b e F A C L s" "n \<le> MAX_ORDER"
  obtains xs where "L (order_head z n) = Some xs" "set xs = pg z b ` {i. (i, n) \<in> F}"
  using assms unfolding zone_inv_def free_lists_def by blast

text \<open>The blocks of an invariant state have different first pages.\<close>

lemma zone_inv_heads:
  assumes "zone_inv z b e F A C L s" "(i, n) \<in> F \<union> A \<union> C" "(i, m) \<in> F \<union> A \<union> C"
  shows "m = n"
  using assms blocks_ok_head unfolding zone_inv_def by metis

lemma covered_mono: "B \<subseteq> B' \<Longrightarrow> covered B \<subseteq> covered B'"
  unfolding covered_def by blast

lemma covered_iff: "j \<in> covered B \<longleftrightarrow> (\<exists>k m. (k, m) \<in> B \<and> j \<in> span (k, m))"
  unfolding covered_def by fast

lemma covered_insert: "covered (insert x B) = span x \<union> covered B"
  by (simp add: covered_def)

lemma covered_empty: "covered {} = {}"
  by (simp add: covered_def)

lemma covered_split: "covered (insert (i, Suc n) B) = covered (insert (i, n) (insert (i + 2 ^ n, n) B))"
  using span_halves [of i n] unfolding covered_def by auto

lemma covered_head: "(i, n) \<in> B \<Longrightarrow> i \<in> covered B"
  unfolding covered_def by force

subsection \<open>Taking a free block off its list\<close>

lemma zone_inv_take:
  assumes inv: "zone_inv z b e F A C L s" and blk: "(i, n) \<in> F"
  shows "\<exists>L'. zone_inv z b e (F - {(i, n)}) A (insert (i, n) C) L' (s\<lparr>ll := list_del (pg z b i) (ll s)\<rparr>) \<and>
    zone_frame z b e L s L' (s\<lparr>ll := list_del (pg z b i) (ll s)\<rparr>)"
proof -
  let ?p = "pg z b i" and ?s = "s\<lparr>ll := list_del (pg z b i) (ll s)\<rparr>" and ?F = "F - {(i, n)}"
  note ib = zone_inv_block [OF inv, of i n]
  have n: "n \<le> MAX_ORDER" and i: "b \<le> i" "i < e" using ib blk by auto
  obtain xs where xs: "L (order_head z n) = Some xs" "set xs = pg z b ` {i. (i, n) \<in> F}"
    using zone_inv_list [OF inv n] .
  have px: "?p \<in> set xs" using xs(2) blk by auto
  have hl: "heap_lists (ll s) L" and fits: "zone_fits z b e" using inv by (auto simp: zone_inv_def)
  let ?L = "L(order_head z n \<mapsto> remove1 ?p xs)"
  have mem: "members ?L = members L - {?p}" by (rule kl.members_del [OF hl xs(1) px])
  have "heap_lists (ll ?s) ?L" using kl.rep_del [OF hl xs(1) px] by simp
  moreover have "free_lists z b ?F ?L"
  proof (rule free_lists_upd [OF fits _ n])
    show "free_lists z b F L" using inv by (simp add: zone_inv_def)
    have "distinct xs" using kl.rep_distinct [OF hl xs(1)] by simp
    then have "set (remove1 ?p xs) = pg z b ` {j. (j, n) \<in> F} - {?p}" using xs(2) by simp
    also have "\<dots> = pg z b ` ({j. (j, n) \<in> F} - {i})"
    proof -
      have "{j. (j, n) \<in> F} - {i} \<subseteq> {b..<e}"
        using zone_inv_block(3,5) [OF inv, of _ n] by auto
      then show ?thesis
        using inj_on_image_set_diff [OF pg_inj_on [OF fits], of "{j. (j, n) \<in> F}" "{i}"] i by simp
    qed
    also have "{j. (j, n) \<in> F} - {i} = {j. (j, n) \<in> ?F}" by auto
    finally show "set (remove1 ?p xs) = pg z b ` {j. (j, n) \<in> ?F}" .
  qed auto
  moreover have "flags_ok z b e ?F A (insert (i, n) C) ?s"
  proof -
    have "?F \<union> A \<union> insert (i, n) C = F \<union> A \<union> C" using blk by auto
    then show ?thesis using inv unfolding zone_inv_def flags_ok_def by auto
  qed
  moreover have "unlinked z b ?F (insert (i, n) C) ?L"
    unfolding unlinked_def
  proof (intro ballI impI)
    fix j
    assume j: "j \<in> covered (?F \<union> insert (i, n) C)" "j \<notin> fst ` ?F"
    have "covered (?F \<union> insert (i, n) C) = covered (F \<union> C)"
      using blk by (intro arg_cong [where f = covered]) auto
    moreover have "j \<notin> fst ` F" if "j \<noteq> i" using that j(2) by force
    ultimately show "pg z b j \<notin> members ?L"
      using j(1) inv mem unfolding zone_inv_def unlinked_def by (cases "j = i") auto
  qed
  moreover have "?F \<union> A \<union> insert (i, n) C = F \<union> A \<union> C" using blk by auto
  ultimately have "zone_inv z b e ?F A (insert (i, n) C) ?L ?s"
    using inv blk unfolding zone_inv_def by auto
  moreover have "zone_frame z b e L s ?L ?s"
    using n i mem by (auto simp: zone_frame_def)
  ultimately show ?thesis by blast
qed

lemma zone_inv_busy:
  assumes inv: "zone_inv z b e F A C L s" and blk: "(i, n) \<in> C"
  shows "zone_inv z b e F A C L (page_set_busy (pg z b i) s)"
    and "zone_frame z b e L s L (page_set_busy (pg z b i) s)"
proof -
  let ?s = "page_set_busy (pg z b i) s"
  note ib = zone_inv_block(3,5) [OF inv, of i n]
  have "pg z b j \<noteq> pg z b i" if "(j, m) \<in> F" for j m
  proof -
    have "j \<noteq> i"
      using zone_inv_heads [OF inv, of i n m] that blk inv by (auto simp: zone_inv_def)
    then show ?thesis
      using zone_inv_pg_inj [OF inv] ib blk zone_inv_block(3,5) [OF inv, of j m] that by simp
  qed
  then have "flags_ok z b e F A C ?s"
    using inv unfolding zone_inv_def flags_ok_def
    by (auto simp: page_set_busy_flags page_set_busy_order)
  then show "zone_inv z b e F A C L ?s"
    using inv unfolding zone_inv_def by (simp add: page_set_busy_def)
  show "zone_frame z b e L s L ?s"
    using ib blk by (auto simp: zone_frame_def page_set_busy_def)
qed

subsection \<open>Linking a block in hand\<close>

lemma zone_inv_give:
  assumes inv: "zone_inv z b e F A (insert (i, n) C) L s" and blk: "(i, n) \<notin> C"
    and link: "\<And>xs. L (order_head z n) = Some xs \<Longrightarrow> pg z b i \<notin> members L \<Longrightarrow>
       \<exists>ys. heap_lists h (L(order_head z n \<mapsto> ys)) \<and> set ys = insert (pg z b i) (set xs)"
  shows "\<exists>L'. zone_inv z b e (insert (i, n) F) A C L' (mark_free (pg z b i) n (s\<lparr>ll := h\<rparr>)) \<and>
    zone_frame z b e L s L' (mark_free (pg z b i) n (s\<lparr>ll := h\<rparr>))"
proof -
  let ?p = "pg z b i" and ?s = "mark_free (pg z b i) n (s\<lparr>ll := h\<rparr>)"
  have all: "insert (i, n) F \<union> A \<union> C = F \<union> A \<union> insert (i, n) C" by auto
  have n: "n \<le> MAX_ORDER" and i: "b \<le> i" "i < e" using zone_inv_block [OF inv, of i n] by auto
  have hl: "heap_lists (ll s) L" and fits: "zone_fits z b e" using inv by (auto simp: zone_inv_def)
  have nF: "i \<noteq> j" if "(j, m) \<in> F \<union> A" for j m
    using that zone_inv_heads [OF inv, of i n m] inv by (auto simp: zone_inv_def)
  obtain xs where xs: "L (order_head z n) = Some xs" "set xs = pg z b ` {i. (i, n) \<in> F}"
    using zone_inv_list [OF inv n] .
  have "i \<in> covered (F \<union> insert (i, n) C)" by (rule covered_head [of i n]) simp
  moreover have "i \<notin> fst ` F" using nF by force
  ultimately have free: "?p \<notin> members L" using inv unfolding zone_inv_def unlinked_def by blast
  obtain ys where ys: "heap_lists h (L(order_head z n \<mapsto> ys))" "set ys = insert ?p (set xs)"
    using link [OF xs(1) free] by blast
  let ?L = "L(order_head z n \<mapsto> ys)"
  have mem: "members ?L = insert ?p (members L)"
    using members_upd [of L "order_head z n" xs "ll s" ys] xs(1) hl ys(2)
      members_Some [of L "order_head z n" xs] by auto
  have "free_lists z b (insert (i, n) F) ?L"
    by (rule free_lists_upd [OF fits _ n]) (use inv ys(2) xs(2) in \<open>auto simp: zone_inv_def\<close>)
  moreover have "flags_ok z b e (insert (i, n) F) A C ?s"
  proof -
    have ne: "pg z b j \<noteq> ?p" if "b \<le> j" "j < e" "j \<noteq> i" for j
      using that i zone_inv_pg_inj [OF inv] by blast
    have neB: "pg z b j \<noteq> ?p" if "(j, m) \<in> F \<union> A" for j m
      using ne [of j] zone_inv_block(3,5) [OF inv, of j m] that nF by auto
    have "i \<in> covered (F \<union> A \<union> insert (i, n) C)" by (rule covered_head [of i n]) simp
    then have neR: "pg z b j \<noteq> ?p" if "b \<le> j" "j < e" "j \<notin> covered (F \<union> A \<union> insert (i, n) C)" for j
      using that ne [of j] by auto
    have "n \<le> 255" using n by simp
    note mf = mark_free_flags [OF this, where ?'a = 'a]
    show ?thesis
      using inv neB neR unfolding zone_inv_def flags_ok_def all by (auto simp: mf)
  qed
  moreover have "unlinked z b (insert (i, n) F) C ?L"
    unfolding unlinked_def
  proof (intro ballI impI)
    fix j
    assume j: "j \<in> covered (insert (i, n) F \<union> C)" "j \<notin> fst ` insert (i, n) F"
    have "covered (insert (i, n) F \<union> C) = covered (F \<union> insert (i, n) C)"
      by (intro arg_cong [where f = covered]) auto
    then have old: "pg z b j \<notin> members L"
      using j inv unfolding zone_inv_def unlinked_def by auto
    obtain k m where "(k, m) \<in> insert (i, n) F \<union> C" "j \<in> span (k, m)"
      using j(1) covered_iff by blast
    then have "b \<le> j" "j < e" using zone_inv_block(3,4) [OF inv, of k m] by auto
    moreover have "j \<noteq> i" using j(2) by auto
    ultimately show "pg z b j \<notin> members ?L"
      using old mem i zone_inv_pg_inj [OF inv] by auto
  qed
  ultimately have "zone_inv z b e (insert (i, n) F) A C ?L ?s"
    using inv blk ys(1) unfolding zone_inv_def all by auto
  moreover have "zone_frame z b e L s ?L ?s"
    using n i mem by (auto simp: zone_frame_def mark_free_def)
  ultimately show ?thesis by blast
qed

lemma zone_inv_list_add:
  assumes inv: "zone_inv z b e F A (insert (i, n) C) L s" and blk: "(i, n) \<notin> C"
  defines "s' \<equiv> mark_free (pg z b i) n (s\<lparr>ll := list_add (pg z b i) (order_head z n) (ll s)\<rparr>)"
  shows "\<exists>L'. zone_inv z b e (insert (i, n) F) A C L' s' \<and> zone_frame z b e L s L' s'"
  unfolding s'_def
proof (rule zone_inv_give [OF inv blk])
  fix xs
  assume xs: "L (order_head z n) = Some xs" "pg z b i \<notin> members L"
  have "heap_lists (ll s) L" "pg z b i \<noteq> NULL"
    using inv pg_not_NULL zone_inv_block(3,5) [OF inv, of i n] by (auto simp: zone_inv_def)
  then have "heap_lists (list_add (pg z b i) (order_head z n) (ll s)) (L(order_head z n \<mapsto> pg z b i # xs))"
    using kl.rep_add xs by blast
  then show "\<exists>ys. heap_lists (list_add (pg z b i) (order_head z n) (ll s)) (L(order_head z n \<mapsto> ys)) \<and>
      set ys = insert (pg z b i) (set xs)" by force
qed

lemma zone_inv_list_add_tail:
  assumes inv: "zone_inv z b e F A (insert (i, n) C) L s" and blk: "(i, n) \<notin> C"
  defines "s' \<equiv> mark_free (pg z b i) n (s\<lparr>ll := list_add_tail (pg z b i) (order_head z n) (ll s)\<rparr>)"
  shows "\<exists>L'. zone_inv z b e (insert (i, n) F) A C L' s' \<and> zone_frame z b e L s L' s'"
  unfolding s'_def
proof (rule zone_inv_give [OF inv blk])
  fix xs
  assume xs: "L (order_head z n) = Some xs" "pg z b i \<notin> members L"
  have "heap_lists (ll s) L" "pg z b i \<noteq> NULL"
    using inv pg_not_NULL zone_inv_block(3,5) [OF inv, of i n] by (auto simp: zone_inv_def)
  then have "heap_lists (list_add_tail (pg z b i) (order_head z n) (ll s))
      (L(order_head z n \<mapsto> xs @ [pg z b i]))"
    using kl.rep_add_tail xs by blast
  then show "\<exists>ys. heap_lists (list_add_tail (pg z b i) (order_head z n) (ll s)) (L(order_head z n \<mapsto> ys)) \<and>
      set ys = insert (pg z b i) (set xs)" by force
qed

subsection \<open>Blocks in hand: splitting, merging, handing out, taking back\<close>

lemma zone_inv_recut:
  assumes inv: "zone_inv z b e F A C L s"
    and "blocks_ok b e (F \<union> A \<union> C')" "(F \<union> A) \<inter> C' = {}" "covered C' = covered C"
  shows "zone_inv z b e F A C' L s"
proof -
  have "covered (F \<union> A \<union> C') = covered (F \<union> A \<union> C)" "covered (F \<union> C') = covered (F \<union> C)"
    using assms(4) unfolding covered_def by auto
  then show ?thesis
    using assms(1-3) unfolding zone_inv_def flags_ok_def unlinked_def by auto
qed

lemma zone_inv_split:
  assumes inv: "zone_inv z b e F A (insert (i, Suc n) C) L s" and blk: "(i, Suc n) \<notin> C"
  shows "zone_inv z b e F A (insert (i, n) (insert (i + 2 ^ n, n) C)) L s"
    and "(i, n) \<notin> insert (i + 2 ^ n, n) C" "(i + 2 ^ n, n) \<notin> insert (i, n) C"
proof -
  let ?B = "F \<union> A \<union> C"
  have eq: "F \<union> A \<union> insert (i, Suc n) C = insert (i, Suc n) ?B" by auto
  have ok: "blocks_ok b e (insert (i, Suc n) ?B)" and nB: "(i, Suc n) \<notin> ?B"
    using inv blk unfolding zone_inv_def eq by auto
  note sp = blocks_ok_split [OF ok nB]
  have eq2: "F \<union> A \<union> insert (i, n) (insert (i + 2 ^ n, n) C) = insert (i, n) (insert (i + 2 ^ n, n) ?B)"
    by auto
  have "(F \<union> A) \<inter> C = {}" using inv by (auto simp: zone_inv_def)
  then have dj: "(F \<union> A) \<inter> insert (i, n) (insert (i + 2 ^ n, n) C) = {}" using sp(2,3) by auto
  show "zone_inv z b e F A (insert (i, n) (insert (i + 2 ^ n, n) C)) L s"
    by (rule zone_inv_recut [OF inv _ dj covered_split [symmetric]]) (use sp(1) eq2 in simp)
  show "(i, n) \<notin> insert (i + 2 ^ n, n) C" "(i + 2 ^ n, n) \<notin> insert (i, n) C" using sp by auto
qed

lemma zone_inv_merge:
  assumes inv: "zone_inv z b e F A (insert (i, n) (insert (i + 2 ^ n, n) C)) L s"
    and "(i, n) \<notin> C" "(i + 2 ^ n, n) \<notin> C" "2 ^ Suc n dvd i" "n < MAX_ORDER"
  shows "zone_inv z b e F A (insert (i, Suc n) C) L s" "(i, Suc n) \<notin> C"
proof -
  let ?B = "F \<union> A \<union> C"
  have eq: "F \<union> A \<union> insert (i, n) (insert (i + 2 ^ n, n) C) = insert (i, n) (insert (i + 2 ^ n, n) ?B)"
    by auto
  have ok: "blocks_ok b e (insert (i, n) (insert (i + 2 ^ n, n) ?B))"
    using inv unfolding zone_inv_def eq by auto
  have nB: "(i, n) \<notin> ?B" "(i + 2 ^ n, n) \<notin> ?B" using inv assms(2,3) by (auto simp: zone_inv_def)
  note mg = blocks_ok_merge [OF ok nB refl assms(4,5)]
  have eq2: "F \<union> A \<union> insert (i, Suc n) C = insert (i, Suc n) ?B" by auto
  have "(F \<union> A) \<inter> C = {}" using inv by (auto simp: zone_inv_def)
  then have dj: "(F \<union> A) \<inter> insert (i, Suc n) C = {}" using mg(2) by auto
  show "zone_inv z b e F A (insert (i, Suc n) C) L s"
    by (rule zone_inv_recut [OF inv _ dj covered_split]) (use mg(1) eq2 in simp)
  show "(i, Suc n) \<notin> C" using mg by auto
qed

lemma zone_inv_handout:
  assumes inv: "zone_inv z b e F A (insert (i, n) C) L s" and blk: "(i, n) \<notin> C"
    and "\<not> page_is_free (pg z b i) s"
  shows "zone_inv z b e F (insert (i, n) A) C L s"
proof -
  have eq: "F \<union> insert (i, n) A \<union> C = F \<union> A \<union> insert (i, n) C" by auto
  have "covered (F \<union> C) \<subseteq> covered (F \<union> insert (i, n) C)" by (rule covered_mono) auto
  then show ?thesis
    using assms unfolding zone_inv_def flags_ok_def unlinked_def eq by auto
qed

lemma zone_inv_takeback:
  assumes inv: "zone_inv z b e F A C L s" and blk: "(i, n) \<in> A"
    and "\<And>j. j \<in> span (i, n) \<Longrightarrow> pg z b j \<notin> members L"
  shows "zone_inv z b e F (A - {(i, n)}) (insert (i, n) C) L s"
proof -
  have eq: "F \<union> (A - {(i, n)}) \<union> insert (i, n) C = F \<union> A \<union> C" using blk by auto
  have "unlinked z b F (insert (i, n) C) L"
    using inv assms(3) unfolding zone_inv_def unlinked_def covered_def by auto
  then show ?thesis
    using inv blk unfolding zone_inv_def flags_ok_def eq by auto
qed

text \<open>Pages outside all blocks become a block in hand: how a zone gets its memory.\<close>

lemma zone_inv_adopt:
  assumes inv: "zone_inv z b e F A C L s" and blk: "block_ok b e (i, n)"
    and new: "span (i, n) \<inter> covered (F \<union> A \<union> C) = {}"
    and unl: "\<And>j. j \<in> span (i, n) \<Longrightarrow> pg z b j \<notin> members L"
  shows "zone_inv z b e F A (insert (i, n) C) L s" "(i, n) \<notin> F \<union> A \<union> C"
proof -
  have eq: "F \<union> A \<union> insert (i, n) C = insert (i, n) (F \<union> A \<union> C)" by auto
  have dj: "span (i, n) \<inter> span y = {}" if "y \<in> F \<union> A \<union> C" for y
    using that new unfolding covered_def by blast
  show nB: "(i, n) \<notin> F \<union> A \<union> C" using dj span_nonempty by blast
  have ok: "blocks_ok b e (insert (i, n) (F \<union> A \<union> C))"
    using blocks_ok_insert [OF nB] inv blk dj unfolding zone_inv_def by blast
  have sub: "covered (F \<union> A \<union> C) \<subseteq> covered (insert (i, n) (F \<union> A \<union> C))" by (rule covered_mono) auto
  have "flags_ok z b e F A (insert (i, n) C) s"
    using inv sub unfolding zone_inv_def flags_ok_def eq by blast
  moreover have "unlinked z b F (insert (i, n) C) L"
    using inv unl unfolding zone_inv_def unlinked_def covered_def by auto
  ultimately show "zone_inv z b e F A (insert (i, n) C) L s"
    using inv ok nB unfolding zone_inv_def eq by auto
qed

section \<open>Allocation\<close>

lemma zone_inv_list_empty:
  assumes "zone_inv z b e F A C L s" "n \<le> MAX_ORDER"
  shows "list_empty (order_head z n) (ll s) \<longleftrightarrow> (\<forall>i. (i, n) \<notin> F)"
proof -
  obtain xs where xs: "L (order_head z n) = Some xs" "set xs = pg z b ` {i. (i, n) \<in> F}"
    using zone_inv_list [OF assms] .
  have "list_empty (order_head z n) (ll s) \<longleftrightarrow> xs = []"
    using kl.rep_is_empty xs(1) assms(1) unfolding zone_inv_def by blast
  also have "\<dots> \<longleftrightarrow> set xs = {}" by simp
  finally show ?thesis unfolding xs(2) by auto
qed

lemma alloc_find_order_bounds:
  assumes "zone_inv z b e F A C L s" "c \<le> 19"
  shows "c \<le> alloc_find_order z c s \<and> alloc_find_order z c s \<le> 19 \<and>
    (\<forall>m i. c \<le> m \<longrightarrow> m < alloc_find_order z c s \<longrightarrow> (i, m) \<notin> F) \<and>
    (alloc_find_order z c s \<le> MAX_ORDER \<longrightarrow> (\<exists>i. (i, alloc_find_order z c s) \<in> F))"
  using assms
proof (induction z c s rule: alloc_find_order.induct)
  case (1 z c s)
  show ?case
  proof (cases "list_empty (order_head z c) (ll s) \<and> c \<le> MAX_ORDER")
    case True
    then have r: "alloc_find_order z c s = alloc_find_order z (Suc c) s"
      by (simp add: alloc_find_order.simps [of z c s])
    have "\<And>i. (i, c) \<notin> F" using True zone_inv_list_empty [OF 1(2)] by blast
    then show ?thesis using 1(1) [OF True] 1(2) True unfolding r by (auto simp: le_Suc_eq Suc_le_eq order.strict_iff_order)
  next
    case False
    then have r: "alloc_find_order z c s = c" by (subst alloc_find_order.simps) auto
    show ?thesis unfolding r using False 1(3) zone_inv_list_empty [OF 1(2), of c] by auto
  qed
qed

text \<open>The blocks that splitting \<open>(i, m)\<close> down to order \<open>n\<close> puts back: one of each order in between.\<close>

definition split_off :: "nat \<Rightarrow> nat \<Rightarrow> nat \<Rightarrow> block set" where
  "split_off i n m = {(i + 2 ^ k, k) | k. n \<le> k \<and> k < m}"

lemma split_off_Suc: "n \<le> c \<Longrightarrow> split_off i n (Suc c) = insert (i + 2 ^ c, c) (split_off i n c)"
  unfolding split_off_def by (auto simp: less_Suc_eq)

lemma split_off_self: "split_off i n n = {}"
  by (simp add: split_off_def)

lemma alloc_split_inv:
  assumes "zone_inv z b e F A {(i, m)} L s" "n \<le> m" "\<not> page_is_free (pg z b i) s"
  shows "\<exists>s' L'. alloc_split z (of_nat i) m n s = Inr s' \<and>
    zone_inv z b e (F \<union> split_off i n m) A {(i, n)} L' s' \<and> zone_frame z b e L s L' s' \<and>
    \<not> page_is_free (pg z b i) s'"
  using assms
proof (induction m arbitrary: F L s)
  case 0
  then show ?case
    by (intro exI [of _ s] exI [of _ L]) (simp add: alloc_split.simps split_off_self zone_frame_refl)
next
  case (Suc c)
  show ?case
  proof (cases "n = Suc c")
    case True
    then show ?thesis
      using Suc.prems by (intro exI [of _ s] exI [of _ L])
        (simp add: alloc_split.simps split_off_self zone_frame_refl)
  next
    case False
    then have n: "n \<le> c" using Suc.prems(2) by simp
    let ?j = "i + 2 ^ c"
    note ib = zone_inv_block [OF Suc.prems(1), of i "Suc c", simplified]
    have c: "c < 63" "c \<le> 255" using ib(1) by simp_all
    have "2 ^ c dvd i" using ib(2) by (metis dvd_mult_right power_Suc)
    then have j: "buddy i c = ?j" using buddy_cases [of c i] ib(2) by (auto simp: bit_iff_odd elim!: dvdE)
    have word: "of_nat i XOR push_bit c 1 = (of_nat ?j :: u64)"
      using of_nat_buddy [of i c] ib(6) c(1) j by simp
    note sp = zone_inv_split [OF Suc.prems(1)]
    have inv: "zone_inv z b e F A (insert (?j, c) {(i, c)}) L s" "(?j, c) \<notin> {(i, c)}"
      using sp by (simp_all add: insert_commute)
    define s1 where "s1 = mark_free (pg z b ?j) c (s\<lparr>ll := list_add (pg z b ?j) (order_head z c) (ll s)\<rparr>)"
    obtain L1 where L1: "zone_inv z b e (insert (?j, c) F) A {(i, c)} L1 s1" "zone_frame z b e L s L1 s1"
      using zone_inv_list_add [OF inv] unfolding s1_def by blast
    have "page_at z (of_nat ?j - zone_begin s z) = pg z b ?j"
      using page_at_pg [of b ?j z] ib(3) Suc.prems(1) by (simp add: zone_inv_def)
    then have step: "alloc_split z (of_nat i) (Suc c) n s = alloc_split z (of_nat i) c n s1"
      using False c(2) word
      by (subst alloc_split.simps) (simp add: Let_def page_set_order_free s1_def)
    have "\<not> page_is_free (pg z b i) s1"
      using Suc.prems(3) zone_inv_pg_inj [OF Suc.prems(1), of i ?j]
        zone_inv_block(3,5) [OF inv(1), of ?j c] ib(3,5)
      by (simp add: s1_def mark_free_flags(1) [OF c(2)])
    then obtain s2 L2 where "alloc_split z (of_nat i) c n s1 = Inr s2"
      "zone_inv z b e (insert (?j, c) F \<union> split_off i n c) A {(i, n)} L2 s2"
      "zone_frame z b e L1 s1 L2 s2" "\<not> page_is_free (pg z b i) s2"
      using Suc.IH [OF L1(1) n] by blast
    then show ?thesis
      using step zone_frame_trans [OF L1(2)] split_off_Suc [OF n, of i] by auto
  qed
qed

text \<open>
  Allocation of order \<open>n\<close> takes a block of the smallest order that has one, keeps its first
  \<open>2 ^ n\<close> pages and puts the rest back as free blocks; without such a block it returns \<open>NULL\<close>
  and changes nothing.
\<close>

lemma raw_page_alloc_zone_inv:
  assumes inv: "zone_inv z b e F A {} L s" and n: "n \<le> MAX_ORDER"
  shows "(\<exists>i m s' L'. (i, m) \<in> F \<and> n \<le> m \<and> (\<forall>j k. n \<le> k \<longrightarrow> k < m \<longrightarrow> (j, k) \<notin> F) \<and>
      raw_page_alloc_zone z n s = Inr (pg z b i, s') \<and>
      zone_inv z b e (F - {(i, m)} \<union> split_off i n m) (insert (i, n) A) {} L' s' \<and>
      zone_frame z b e L s L' s')
    \<or> (\<forall>j k. (j, k) \<in> F \<longrightarrow> k < n) \<and> raw_page_alloc_zone z n s = Inr (NULL, s)"
proof -
  define m where "m = alloc_find_order z n s"
  have m: "n \<le> m" "m \<le> 19" "\<And>j k. n \<le> k \<Longrightarrow> k < m \<Longrightarrow> (j, k) \<notin> F" "m \<le> MAX_ORDER \<Longrightarrow> \<exists>i. (i, m) \<in> F"
    using alloc_find_order_bounds [OF inv, of n] n unfolding m_def by auto
  show ?thesis
  proof (cases "m \<le> MAX_ORDER")
    case False
    have "k < n" if "(j, k) \<in> F" for j k
      using m(3) [of k j] that zone_inv_block(1) [OF inv, of j k] False by fastforce
    then show ?thesis using False by (simp add: raw_page_alloc_zone_def m_def [symmetric])
  next
    case True
    obtain xs where xs: "L (order_head z m) = Some xs" "set xs = pg z b ` {i. (i, m) \<in> F}"
      using zone_inv_list [OF inv True] .
    then have "xs \<noteq> []" using m(4) [OF True] by auto
    then obtain p ps where p: "xs = p # ps" by (cases xs) auto
    then have "p \<in> pg z b ` {i. (i, m) \<in> F}" using xs(2) by auto
    then obtain i where i: "(i, m) \<in> F" "p = pg z b i" by auto
    note ib = zone_inv_block [OF inv, of i m]
    have hl: "heap_lists (ll s) L" and fits: "zone_fits z b e" and zb: "zone_begin s z = of_nat b"
      using inv by (auto simp: zone_inv_def)
    have first: "list_first (order_head z m) (ll s) = pg z b i"
      using kl.rep_first [OF hl, of "order_head z m" p ps] xs(1) p i(2) by simp
    have ne: "\<not> list_empty (order_head z m) (ll s)"
      using zone_inv_list_empty [OF inv True] i(1) by blast
    have idx: "zone_begin s z + page_diff (pg z b i) z = of_nat i"
      using page_index [OF fits] ib i(1) zb by auto
    let ?s1 = "s\<lparr>ll := list_del (pg z b i) (ll s)\<rparr>"
    have comm: "(page_set_busy (pg z b i) s)\<lparr>ll := list_del (pg z b i) (ll s)\<rparr> = page_set_busy (pg z b i) ?s1"
      by (simp add: page_set_busy_def)
    obtain L1 where L1: "zone_inv z b e (F - {(i, m)}) A {(i, m)} L1 ?s1" "zone_frame z b e L s L1 ?s1"
      using zone_inv_take [OF inv i(1)] by blast
    let ?s2 = "page_set_busy (pg z b i) ?s1"
    have s2: "zone_inv z b e (F - {(i, m)}) A {(i, m)} L1 ?s2" "zone_frame z b e L1 ?s1 L1 ?s2"
      using zone_inv_busy [OF L1(1), of i m] by auto
    have "\<not> page_is_free (pg z b i) ?s2" by (simp add: page_set_busy_flags)
    then obtain s3 L3 where s3: "alloc_split z (of_nat i) m n ?s2 = Inr s3"
      "zone_inv z b e (F - {(i, m)} \<union> split_off i n m) A {(i, n)} L3 s3"
      "zone_frame z b e L1 ?s2 L3 s3" "\<not> page_is_free (pg z b i) s3"
      using alloc_split_inv [OF s2(1) m(1)] by blast
    have "raw_page_alloc_zone z n s = Inr (pg z b i, s3)"
      using True ne first idx s3(1) comm
      by (simp add: raw_page_alloc_zone_def m_def [symmetric] Let_def)
    moreover have "zone_inv z b e (F - {(i, m)} \<union> split_off i n m) (insert (i, n) A) {} L3 s3"
      using zone_inv_handout [OF s3(2) _ s3(4)] by simp
    moreover have "zone_frame z b e L s L3 s3"
      using zone_frame_trans L1(2) s2(2) s3(3) by metis
    ultimately show ?thesis using i(1) m(1,3) by blast
  qed
qed

section \<open>Freeing\<close>

lemma buddy_involution: "buddy (buddy i n) n = i"
  by (simp only: xor_buddy [symmetric] xor.assoc xor_self_eq xor.right_neutral)

text \<open>One turn of the merging loop that merges: the free buddy leaves its list and joins the block.\<close>

lemma zone_inv_join:
  assumes inv: "zone_inv z b e F A {(i, n)} L s" and bud: "(buddy i n, n) \<in> F" and n: "n < MAX_ORDER"
  defines "s' \<equiv> s\<lparr>ll := list_del (pg z b (buddy i n)) (ll s)\<rparr>"
  shows "\<exists>L'. zone_inv z b e (F - {(buddy i n, n)}) A {(min i (buddy i n), Suc n)} L' s' \<and>
    zone_frame z b e L s L' s'"
proof -
  let ?j = "buddy i n" and ?F = "F - {(buddy i n, n)}"
  obtain L' where L': "zone_inv z b e ?F A (insert (?j, n) {(i, n)}) L' s'" "zone_frame z b e L s L' s'"
    using zone_inv_take [OF inv bud] unfolding s'_def by blast
  have al: "2 ^ n dvd i" using zone_inv_block(2) [OF inv, of i n] by simp
  have "zone_inv z b e ?F A {(min i ?j, Suc n)} L' s'"
    using buddy_cases [OF al]
  proof (elim disjE conjE)
    assume a: "2 ^ Suc n dvd i" "?j = i + 2 ^ n"
    have "zone_inv z b e ?F A (insert (i, n) (insert (i + 2 ^ n, n) {})) L' s'"
      using L'(1) a(2) by (simp add: insert_commute)
    from zone_inv_merge(1) [OF this _ _ a(1) n] show ?thesis using a(2) by simp
  next
    assume a: "2 ^ n \<le> i" "2 ^ Suc n dvd i - 2 ^ n" "?j = i - 2 ^ n"
    then have "zone_inv z b e ?F A (insert (?j, n) (insert (?j + 2 ^ n, n) {})) L' s'"
      using L'(1) by simp
    from zone_inv_merge(1) [OF this _ _ _ n] show ?thesis using a by simp
  qed
  then show ?thesis using L'(2) by blast
qed

text \<open>
  When the loop looks at the buddy's descriptor, the flags decide exactly whether the buddy is a
  free block of the same order.
\<close>

lemma buddy_flags:
  assumes inv: "zone_inv z b e F A {(i, n)} L s" and j: "b \<le> buddy i n" "buddy i n < e"
  shows "page_is_free (pg z b (buddy i n)) s \<and> page_order (pg z b (buddy i n)) s = n \<longleftrightarrow> (buddy i n, n) \<in> F"
proof
  let ?j = "buddy i n" and ?B = "F \<union> A \<union> {(i, n)}"
  assume fl: "page_is_free (pg z b ?j) s \<and> page_order (pg z b ?j) s = n"
  have ok: "flags_ok z b e F A {(i, n)} s" and B: "blocks_ok b e ?B" using inv by (auto simp: zone_inv_def)
  from fl ok j have "?j \<in> covered ?B" unfolding flags_ok_def by blast
  then obtain k m where km: "(k, m) \<in> ?B" "?j \<in> span (k, m)" using covered_iff by blast
  have "2 ^ n dvd i" using zone_inv_block(2) [OF inv, of i n] by simp
  then have "(k, m) \<noteq> (i, n)" using km(2) buddy_cases [of n i] by auto
  then have k: "k = ?j" "(k, m) \<in> F \<union> A" using blocks_ok_buddy [OF B _ km] km(1) by auto
  then have "(k, m) \<in> F" using ok fl unfolding flags_ok_def by blast
  moreover have "m = n" using ok fl k(1) calculation unfolding flags_ok_def by auto
  ultimately show "(?j, n) \<in> F" using k(1) by simp
next
  assume "(buddy i n, n) \<in> F"
  then show "page_is_free (pg z b (buddy i n)) s \<and> page_order (pg z b (buddy i n)) s = n"
    using inv unfolding zone_inv_def flags_ok_def by blast
qed

lemma covered_join:
  assumes "2 ^ n dvd i"
  shows "covered {(min i (buddy i n), Suc n)} = covered {(i, n), (buddy i n, n)}"
  using buddy_cases [OF assms] unfolding covered_def by auto

lemma free_merge_inv:
  assumes "zone_inv z b e F A {(i, n)} L s"
  shows "\<exists>i' n' s' L' F'. free_merge z (pg z b i) (of_nat i) n s = (pg z b i', n', s') \<and>
    F' \<subseteq> F \<and> zone_inv z b e F' A {(i', n')} L' s' \<and> zone_frame z b e L s L' s' \<and>
    covered F' \<union> span (i', n') = covered F \<union> span (i, n) \<and>
    (n' < MAX_ORDER \<longrightarrow> (buddy i' n', n') \<notin> F')"
  using assms
proof (induction "MAX_ORDER - n" arbitrary: F i n L s rule: less_induct)
  case less
  let ?j = "buddy i n"
  note inv = less.prems
  note ib = zone_inv_block [OF inv, of i n, simplified]
  have zs: "zone_begin s z = of_nat b" "zone_end s z = of_nat e" and fits: "zone_fits z b e"
    using inv by (auto simp: zone_inv_def)
  have small: "?j < 2 ^ 64" "b < 2 ^ 64" "e < 2 ^ 64" "i < 2 ^ 64" if "n < MAX_ORDER"
  proof -
    have "(2::nat) ^ n \<le> 2 ^ 18" using that by (intro power_increasing) auto
    then show "?j < 2 ^ 64" "b < 2 ^ 64" "e < 2 ^ 64" "i < 2 ^ 64"
      using fits ib(3,5) by (auto simp: zone_fits_def buddy_def)
  qed
  have word: "of_nat i XOR push_bit n 1 = (of_nat ?j :: u64)" if "n < MAX_ORDER"
    using of_nat_buddy [of i n] ib(6) that by simp
  show ?case
  proof (cases "n < MAX_ORDER \<and> b \<le> ?j \<and> ?j < e \<and> (?j, n) \<in> F")
    case False
    have stop: "free_merge z (pg z b i) (of_nat i) n s = (pg z b i, n, s)"
    proof (cases "n < MAX_ORDER \<and> b \<le> ?j \<and> ?j < e")
      case True
      then have "\<not> (page_is_free (pg z b ?j) s \<and> page_order (pg z b ?j) s = n)"
        using buddy_flags [OF inv] False by blast
      moreover have "page_at z (of_nat ?j - of_nat b) = pg z b ?j" using page_at_pg True by blast
      ultimately show ?thesis
        using True word by (subst free_merge.simps) (auto simp: zs Let_def)
    next
      case out: False
      then show ?thesis
        using word small by (subst free_merge.simps) (auto simp: zs Let_def of_nat64_less of_nat64_le)
    qed
    have "(?j, n) \<notin> F" if "n < MAX_ORDER"
      using False that zone_inv_block(3,5) [OF inv, of ?j n] by blast
    then show ?thesis
      using stop inv zone_frame_refl by blast
  next
    case True
    then have n: "n < MAX_ORDER" and j: "b \<le> ?j" "?j < e" and jF: "(?j, n) \<in> F" by auto
    let ?s = "s\<lparr>ll := list_del (pg z b ?j) (ll s)\<rparr>" and ?i = "min i ?j" and ?F = "F - {(?j, n)}"
    obtain L1 where L1: "zone_inv z b e ?F A {(?i, Suc n)} L1 ?s" "zone_frame z b e L s L1 ?s"
      using zone_inv_join [OF inv jF n] by blast
    have "page_at z (of_nat ?j - of_nat b) = pg z b ?j" using page_at_pg j by blast
    moreover have "page_is_free (pg z b ?j) s" "page_order (pg z b ?j) s = n"
      using buddy_flags [OF inv j] jF by auto
    moreover have "(if (of_nat ?j :: u64) < of_nat i then (pg z b ?j, of_nat ?j :: u64) else (pg z b i, of_nat i))
        = (pg z b ?i, of_nat ?i)"
      using small [OF n] by (simp add: of_nat64_less min_def)
    ultimately have step: "free_merge z (pg z b i) (of_nat i) n s = free_merge z (pg z b ?i) (of_nat ?i) (Suc n) ?s"
      using n j small [OF n] word [OF n]
      by (subst free_merge.simps) (simp add: zs Let_def of_nat64_less of_nat64_le not_less not_le)
    have dec: "MAX_ORDER - Suc n < MAX_ORDER - n" using n by simp
    from less.hyps [OF dec L1(1)] obtain i' n' s' L' F' where r: "free_merge z (pg z b ?i) (of_nat ?i) (Suc n) ?s = (pg z b i', n', s')"
      "F' \<subseteq> ?F" "zone_inv z b e F' A {(i', n')} L' s'" "zone_frame z b e L1 ?s L' s'"
      "covered F' \<union> span (i', n') = covered ?F \<union> span (?i, Suc n)"
      "n' < MAX_ORDER \<longrightarrow> (buddy i' n', n') \<notin> F'"
      by (elim exE conjE) (rule that)
    have "F = insert (?j, n) ?F" using jF by auto
    then have "covered F = span (?j, n) \<union> covered ?F" by (metis covered_insert)
    moreover have "span (?i, Suc n) = span (i, n) \<union> span (?j, n)"
      using covered_join [OF ib(2)] by (simp only: covered_insert covered_empty Un_empty_right)
    ultimately have "covered ?F \<union> span (?i, Suc n) = covered F \<union> span (i, n)" by blast
    then show ?thesis
      using r step zone_frame_trans [OF L1(2) r(4)] by (intro exI [of _ i'] exI [of _ n'] exI [of _ s'] exI [of _ L'] exI [of _ F']) auto
  qed
qed

text \<open>No two free blocks are mergeable buddies.\<close>

definition coalesced :: "block set \<Rightarrow> bool" where
  "coalesced F \<longleftrightarrow> (\<forall>i n. (i, n) \<in> F \<longrightarrow> n < MAX_ORDER \<longrightarrow> (buddy i n, n) \<notin> F)"

lemma coalesced_insert:
  assumes "coalesced F" "F' \<subseteq> F" "n < MAX_ORDER \<longrightarrow> (buddy i n, n) \<notin> F'"
  shows "coalesced (insert (i, n) F')"
  unfolding coalesced_def
proof (intro allI impI)
  fix j m
  assume j: "(j, m) \<in> insert (i, n) F'" "m < MAX_ORDER"
  have "j - 2 ^ m < j" if "bit j m"
    by (rule diff_less) (use that in \<open>auto intro: gr0I\<close>)
  moreover have "j < j + 2 ^ m" by simp
  ultimately have self: "buddy j m \<noteq> j" unfolding buddy_def by (metis nat_neq_iff)
  show "(buddy j m, m) \<notin> insert (i, n) F'"
  proof
    assume b: "(buddy j m, m) \<in> insert (i, n) F'"
    then have "(buddy j m, m) \<in> F' \<or> buddy i n = j \<and> m = n" using buddy_involution [of j m] by auto
    then show False
      using j assms self b unfolding coalesced_def by (auto dest: subsetD simp: buddy_involution)
  qed
qed

lemma aligned_and_mask:
  assumes "2 ^ n dvd i"
  shows "(of_nat i :: u64) AND (push_bit n 1 - 1) = 0"
proof -
  have "(push_bit n 1 - 1 :: u64) = mask n" by (simp add: mask_eq_exp_minus_1 push_bit_eq_mult)
  then have "(of_nat i :: u64) AND (push_bit n 1 - 1) = take_bit n (of_nat i)"
    by (simp add: take_bit_eq_mask)
  also have "\<dots> = of_nat (take_bit n i)" by (rule take_bit_of_nat)
  also have "take_bit n i = 0" using assms by (simp add: take_bit_eq_mod)
  finally show ?thesis by simp
qed

text \<open>
  Freeing an allocated block adds its pages to the free ones, takes the block from the allocated
  ones, and leaves no mergeable pair where there was none.
\<close>

lemma raw_page_free_zone_inv:
  assumes inv: "zone_inv z b e F A {} L s" and blk: "(i, n) \<in> A"
    and unl: "\<And>j. j \<in> span (i, n) \<Longrightarrow> pg z b j \<notin> members L"
  shows "\<exists>s' L' F'. raw_page_free_zone z (pg z b i) n s = Inr s' \<and>
    zone_inv z b e F' (A - {(i, n)}) {} L' s' \<and> zone_frame z b e L s L' s' \<and>
    covered F' = covered F \<union> span (i, n) \<and> (coalesced F \<longrightarrow> coalesced F')"
proof -
  note ib = zone_inv_block [OF inv, of i n]
  have fits: "zone_fits z b e" and zb: "zone_begin s z = of_nat b" using inv by (auto simp: zone_inv_def)
  have idx: "zone_begin s z + page_diff (pg z b i) z = of_nat i"
    using page_index [OF fits] ib blk zb by auto
  have inv1: "zone_inv z b e F (A - {(i, n)}) {(i, n)} L s"
    using zone_inv_takeback [OF inv blk unl] by simp
  from free_merge_inv [OF inv1] obtain i' n' s1 L1 F1 where
    r: "free_merge z (pg z b i) (of_nat i) n s = (pg z b i', n', s1)"
      "F1 \<subseteq> F" "zone_inv z b e F1 (A - {(i, n)}) {(i', n')} L1 s1" "zone_frame z b e L s L1 s1"
      "covered F1 \<union> span (i', n') = covered F \<union> span (i, n)"
      "n' < MAX_ORDER \<longrightarrow> (buddy i' n', n') \<notin> F1"
    by (elim exE conjE) (rule that)
  let ?s2 = "mark_free (pg z b i') n' (s1\<lparr>ll := list_add (pg z b i') (order_head z n') (ll s1)\<rparr>)"
  obtain L2 where L2: "zone_inv z b e (insert (i', n') F1) (A - {(i, n)}) {} L2 ?s2"
    "zone_frame z b e L1 s1 L2 ?s2"
    using zone_inv_list_add [OF r(3)] by blast
  have "n' \<le> 255" using zone_inv_block(1) [OF r(3), of i' n'] by simp
  note sof = page_set_order_free [OF this, where f = Inr]
  have "raw_page_free_zone z (pg z b i) n s = Inr ?s2"
    using r(1) idx aligned_and_mask [of n i] ib(2) blk
    by (simp add: raw_page_free_zone_def Let_def sof)
  moreover have "covered (insert (i', n') F1) = covered F \<union> span (i, n)"
    using r(5) by (auto simp: covered_insert)
  moreover have "coalesced F \<longrightarrow> coalesced (insert (i', n') F1)"
    using coalesced_insert r(2,6) by blast
  ultimately show ?thesis using L2 zone_frame_trans [OF r(4) L2(2)] by blast
qed

text \<open>Pages free after an allocation are those free before, less the block handed out.\<close>

lemma covered_split_off: "n \<le> m \<Longrightarrow> covered (split_off i n m) = {i + 2 ^ n..<i + 2 ^ m}"
proof (induction m)
  case 0
  then show ?case by (simp add: split_off_self covered_empty)
next
  case (Suc m)
  show ?case
  proof (cases "n = Suc m")
    case False
    then have "n \<le> m" using Suc.prems by simp
    then have "(2::nat) ^ n \<le> 2 ^ m" by (intro power_increasing) auto
    then show ?thesis using Suc.IH [OF \<open>n \<le> m\<close>] split_off_Suc [OF \<open>n \<le> m\<close>, of i]
      by (auto simp: covered_insert simp del: power_increasing_iff)
  qed (simp add: split_off_self covered_empty)
qed

lemma covered_alloc:
  assumes "blocks_ok b e F" "(i, m) \<in> F" "n \<le> m"
  shows "covered (F - {(i, m)} \<union> split_off i n m) = covered F - span (i, n)"
proof -
  have F: "F = insert (i, m) (F - {(i, m)})" using assms(2) by auto
  have "covered F = span (i, m) \<union> covered (F - {(i, m)})" using F covered_insert by metis
  moreover have "span (i, m) \<inter> covered (F - {(i, m)}) = {}"
    using assms(1,2) unfolding blocks_ok_def covered_def by blast
  moreover have "covered (F - {(i, m)} \<union> split_off i n m) = covered (F - {(i, m)}) \<union> {i + 2 ^ n..<i + 2 ^ m}"
    using covered_split_off [OF assms(3)] by (auto simp: covered_def)
  moreover have "(2::nat) ^ n \<le> 2 ^ m" using assms(3) by (intro power_increasing) auto
  then have "span (i, m) = span (i, n) \<union> {i + 2 ^ n..<i + 2 ^ m}" "span (i, n) \<inter> {i + 2 ^ n..<i + 2 ^ m} = {}"
    by (auto simp del: power_increasing_iff)
  ultimately show ?thesis by auto
qed

end
