(* ===== verification/PageZones.thy ===== *)
theory PageZones
  imports Buddy
begin

text \<open>
  The page allocator over all zones: the walks over the list of zones end and find the right zone,
  a page descriptor and a page address are converted to each other, and \<^verbatim>\<open>__page_alloc\<close>,
  \<^verbatim>\<open>page_alloc\<close>, \<^verbatim>\<open>page_free\<close> and \<^verbatim>\<open>__page_free\<close> keep the invariant of every zone.
\<close>

section \<open>The invariant of the allocator\<close>

type_synonym zdesc = "addr \<times> nat \<times> nat"

definition zone_bytes :: "zdesc \<Rightarrow> nat set" where
  "zone_bytes = (\<lambda>(z, b, e). {unat z..<unat z + 344 + 32 * (e - b)})"

definition zone_indexes :: "zdesc \<Rightarrow> nat set" where
  "zone_indexes = (\<lambda>(z, b, e). {b..<e})"

definition separate :: "zdesc \<Rightarrow> zdesc \<Rightarrow> bool" where
  "separate x y \<longleftrightarrow> zone_bytes x \<inter> zone_bytes y = {} \<and> zone_indexes x \<inter> zone_indexes y = {}"

definition zone_links :: "zdesc list \<Rightarrow> addr list" where
  "zone_links zs = map (\<lambda>(z, b, e). zone_ll z) zs"

definition mem_inv ::
  "zdesc list \<Rightarrow> (addr \<Rightarrow> block set) \<Rightarrow> (addr \<Rightarrow> block set) \<Rightarrow> lfamily \<Rightarrow> 'a pgs_scheme \<Rightarrow> bool" where
  "mem_inv zs F A L s \<longleftrightarrow>
     heap_lists (ll s) L \<and> L (zones_head s) = Some (zone_links zs) \<and>
     (\<forall>z b e. (z, b, e) \<in> set zs \<longrightarrow>
        zone_inv z b e (F z) (A z) {} L s \<and> unat (zones_head s) \<notin> zone_bytes (z, b, e)) \<and>
     (\<forall>x \<in> set zs. \<forall>y \<in> set zs. x \<noteq> y \<longrightarrow> separate x y)"

lemma zone_links_simps [simp]:
  "zone_links [] = []" "zone_links ((z, b, e) # zs) = zone_ll z # zone_links zs"
  "zone_links (xs @ ys) = zone_links xs @ zone_links ys"
  by (simp_all add: zone_links_def)

lemma zone_ll_zone [simp]: "zone_ll z - 8 = z"
  by (simp add: zone_ll_def)

lemma pg_in_bytes:
  assumes "zone_fits z b e" "b \<le> i" "i < e"
  shows "unat (pg z b i) \<in> zone_bytes (z, b, e)"
  using unat_pg [OF assms] assms(2,3) by (simp add: zone_bytes_def)

lemma order_head_in_bytes:
  assumes "zone_fits z b e" "n \<le> MAX_ORDER"
  shows "unat (order_head z n) \<in> zone_bytes (z, b, e)"
  using unat_order_head [OF assms(1), of n] assms(2) by (simp add: zone_bytes_def)

lemma pgs_sel_cpu [simp]:
  "page_is_free p (s\<lparr>ints_on := x, preempt_cnt := y\<rparr>) = page_is_free p s"
  "page_order p (s\<lparr>ints_on := x, preempt_cnt := y\<rparr>) = page_order p s"
  by (simp_all add: page_is_free_def page_order_def)

lemma zone_inv_cpu:
  "zone_inv z b e F A C L (s\<lparr>ints_on := x, preempt_cnt := y\<rparr>) = zone_inv z b e F A C L s"
  by (simp add: zone_inv_def flags_ok_def)

text \<open>What the invariant of a zone depends on.\<close>

lemma zone_inv_cong:
  assumes inv: "zone_inv z b e F A C L s" and hl: "heap_lists (ll s') L'"
    and ends: "zone_begin s' z = zone_begin s z" "zone_end s' z = zone_end s z"
    and heads: "\<And>n. n \<le> MAX_ORDER \<Longrightarrow> L' (order_head z n) = L (order_head z n)"
    and flags: "\<And>i. b \<le> i \<Longrightarrow> i < e \<Longrightarrow> flags s' (pg z b i) = flags s (pg z b i)"
    and mem: "\<And>i. b \<le> i \<Longrightarrow> i < e \<Longrightarrow> pg z b i \<in> members L' \<Longrightarrow> pg z b i \<in> members L"
  shows "zone_inv z b e F A C L' s'"
proof -
  have range: "b \<le> i \<and> i < e" if "i \<in> covered (F \<union> A \<union> C)" for i
    using that zone_inv_block(3,4) [OF inv] unfolding covered_iff by fastforce
  have fl: "page_is_free (pg z b i) s' = page_is_free (pg z b i) s"
    "page_order (pg z b i) s' = page_order (pg z b i) s" if "b \<le> i" "i < e" for i
    using flags [OF that] by (simp_all add: page_is_free_def page_order_def)
  have ok: "flags_ok z b e F A C s" using inv by (simp add: zone_inv_def)
  have blk: "b \<le> i \<and> i < e" if "(i, n) \<in> F \<union> A \<union> C" for i n
    using zone_inv_block(3,5) [OF inv that] by simp
  have "page_is_free (pg z b i) s' \<and> page_order (pg z b i) s' = n" if "(i, n) \<in> F" for i n
    using that ok fl [of i] blk [of i n] by (simp add: flags_ok_def)
  moreover have "\<not> page_is_free (pg z b i) s'" if "(i, n) \<in> A" for i n
  proof -
    have "\<not> page_is_free (pg z b i) s" using that ok unfolding flags_ok_def by blast
    then show ?thesis using that fl(1) [of i] blk [of i n] by simp
  qed
  moreover have "\<not> page_is_free (pg z b i) s'"
    if "b \<le> i" "i < e" "i \<notin> covered (F \<union> A \<union> C)" for i
    using that ok fl [of i] by (simp add: flags_ok_def)
  ultimately have "flags_ok z b e F A C s'" unfolding flags_ok_def by blast
  moreover have "free_lists z b F L'"
    using inv heads unfolding zone_inv_def free_lists_def by simp
  moreover have "covered (F \<union> C) \<subseteq> covered (F \<union> A \<union> C)" by (rule covered_mono) auto
  then have "unlinked z b F C L'"
    using inv mem range unfolding zone_inv_def unlinked_def by blast
  ultimately show ?thesis
    using inv ends hl unfolding zone_inv_def by simp
qed

text \<open>An operation on one zone keeps the invariant of every other zone.\<close>

lemma zone_inv_frame:
  assumes inv: "zone_inv z' b' e' F A C L s" and fr: "zone_frame z b e L s L' s'"
    and sep: "zone_bytes (z, b, e) \<inter> zone_bytes (z', b', e') = {}" and fits: "zone_fits z b e"
    and hl: "heap_lists (ll s') L'"
  shows "zone_inv z' b' e' F A C L' s'"
proof (rule zone_inv_cong [OF inv hl])
  have fits': "zone_fits z' b' e'" using inv by (simp add: zone_inv_def)
  show "zone_begin s' z' = zone_begin s z'" "zone_end s' z' = zone_end s z'"
    using fr by (simp_all add: zone_frame_def)
  show "L' (order_head z' n) = L (order_head z' n)" if "n \<le> MAX_ORDER" for n
  proof -
    have "order_head z' n \<notin> order_head z ` {..MAX_ORDER}"
      using order_head_in_bytes [OF fits' that] order_head_in_bytes [OF fits] sep by fastforce
    then show ?thesis using fr by (simp add: zone_frame_def)
  qed
  fix i
  assume i: "b' \<le> i" "i < e'"
  have "pg z' b' i \<notin> pg z b ` {b..<e}"
    using pg_in_bytes [OF fits' i] pg_in_bytes [OF fits] sep by fastforce
  then show "flags s' (pg z' b' i) = flags s (pg z' b' i)"
    "pg z' b' i \<in> members L' \<Longrightarrow> pg z' b' i \<in> members L"
    using fr by (simp_all add: zone_frame_def)
qed

lemma mem_inv_sep:
  assumes "mem_inv zs F A L s" "x \<in> set zs" "y \<in> set zs" "x \<noteq> y"
  shows "separate x y"
  using assms unfolding mem_inv_def by fast

lemma mem_inv_zone:
  assumes "mem_inv zs F A L s" "(z, b, e) \<in> set zs"
  shows "zone_inv z b e (F z) (A z) {} L s" "unat (zones_head s) \<notin> zone_bytes (z, b, e)" "zone_fits z b e"
    "zone_begin s z = of_nat b" "zone_end s z = of_nat e"
  using assms unfolding mem_inv_def zone_inv_def by auto

lemma mem_inv_same:
  assumes "mem_inv zs F A L s" "(z, b, e) \<in> set zs" "(z, b', e') \<in> set zs"
  shows "b' = b" "e' = e"
proof -
  have "unat z \<in> zone_bytes (z, b, e) \<inter> zone_bytes (z, b', e')" by (simp add: zone_bytes_def)
  then have "(z, b', e') = (z, b, e)"
    using mem_inv_sep [OF assms(1,3,2)] unfolding separate_def by blast
  then show "b' = b" "e' = e" by auto
qed

lemma mem_inv_update:
  assumes inv: "mem_inv zs F A L s" and z: "(z, b, e) \<in> set zs"
    and new: "zone_inv z b e F' A' {} L' s'" and fr: "zone_frame z b e L s L' s'"
  shows "mem_inv zs (F(z := F')) (A(z := A')) L' s'"
proof -
  have fits: "zone_fits z b e" and hl: "heap_lists (ll s') L'" using new by (auto simp: zone_inv_def)
  have zh: "zones_head s' = zones_head s" using fr by (simp add: zone_frame_def)
  have "zones_head s \<notin> order_head z ` {..MAX_ORDER}"
    using order_head_in_bytes [OF fits] mem_inv_zone(2) [OF inv z] by fastforce
  then have "L' (zones_head s') = Some (zone_links zs)"
    using fr inv zh by (simp add: zone_frame_def mem_inv_def)
  moreover have "zone_inv z2 b2 e2 ((F(z := F')) z2) ((A(z := A')) z2) {} L' s'"
    if z2: "(z2, b2, e2) \<in> set zs" for z2 b2 e2
  proof (cases "z2 = z")
    case True
    then show ?thesis using mem_inv_same [OF inv z, of b2 e2] z2 new by simp
  next
    case False
    then have "(z, b, e) \<noteq> (z2, b2, e2)" by auto
    then have "zone_bytes (z, b, e) \<inter> zone_bytes (z2, b2, e2) = {}"
      using mem_inv_sep [OF inv z z2] by (simp add: separate_def)
    moreover have "zone_inv z2 b2 e2 (F z2) (A z2) {} L s" by (rule mem_inv_zone(1) [OF inv z2])
    ultimately show ?thesis using zone_inv_frame [OF _ fr _ fits hl] False by simp
  qed
  ultimately show ?thesis using inv hl zh unfolding mem_inv_def by simp
qed

section \<open>Walking the list of zones\<close>

text \<open>The pointer from which the rest \<open>ys\<close> of the zones is still to be visited.\<close>

definition zone_ptr :: "zdesc list \<Rightarrow> 'a pgs_scheme \<Rightarrow> addr" where
  "zone_ptr ys s = hd (zone_links ys @ [zones_head s])"

lemma zone_ptr_simps [simp]:
  "zone_ptr [] s = zones_head s" "zone_ptr ((z, b, e) # ys) s = zone_ll z"
  by (simp_all add: zone_ptr_def)

lemma zone_ptr_start: "mem_inv zs F A L s \<Longrightarrow> lh_next (ll s) (zones_head s) = zone_ptr zs s"
  unfolding mem_inv_def zone_ptr_def by (metis lists_head_next)

lemma zone_ptr_next:
  assumes "mem_inv (xs @ (z, b, e) # ys) F A L s"
  shows "lh_next (ll s) (zone_ll z) = zone_ptr ys s"
proof -
  have "heap_lists (ll s) L" "L (zones_head s) = Some (zone_links xs @ zone_ll z # zone_links ys)"
    using assms by (auto simp: mem_inv_def)
  from lists_next [OF this] show ?thesis by (simp add: zone_ptr_def)
qed

lemma zone_ll_not_head:
  assumes "mem_inv zs F A L s" "(z, b, e) \<in> set zs"
  shows "zone_ll z \<noteq> zones_head s"
proof -
  have "heap_lists (ll s) L" "L (zones_head s) = Some (zone_links zs)"
    using assms(1) by (auto simp: mem_inv_def)
  then have "zones_head s \<notin> set (zone_links zs)" using kl.rep_distinct by fastforce
  moreover have "zone_ll z \<in> set (zone_links zs)" using assms(2) by (force simp: zone_links_def)
  ultimately show ?thesis by metis
qed

lemma zone_bounds:
  assumes "mem_inv zs F A L s" "(z, b, e) \<in> set zs" "i < 2 ^ 64"
  shows "zone_begin s z \<le> of_nat i \<longleftrightarrow> b \<le> i" "of_nat i < zone_end s z \<longleftrightarrow> i < e"
    "of_nat i < zone_begin s z \<longleftrightarrow> i < b" "zone_end s z \<le> of_nat i \<longleftrightarrow> e \<le> i"
proof -
  have "b < 2 ^ 64" "e < 2 ^ 64" using mem_inv_zone(3) [OF assms(1,2)] by (auto simp: zone_fits_def)
  then show "zone_begin s z \<le> of_nat i \<longleftrightarrow> b \<le> i" "of_nat i < zone_end s z \<longleftrightarrow> i < e"
    "of_nat i < zone_begin s z \<longleftrightarrow> i < b" "zone_end s z \<le> of_nat i \<longleftrightarrow> e \<le> i"
    using mem_inv_zone(4,5) [OF assms(1,2)] assms(3) by (simp_all add: of_nat64_le of_nat64_less)
qed

definition zone_of :: "nat \<Rightarrow> zdesc list \<Rightarrow> zdesc option" where
  "zone_of i zs = List.find (\<lambda>(z, b, e). b \<le> i \<and> i < e) zs"

lemma zone_of_simps [simp]:
  "zone_of i [] = None"
  "zone_of i ((z, b, e) # zs) = (if b \<le> i \<and> i < e then Some (z, b, e) else zone_of i zs)"
  by (simp_all add: zone_of_def)

lemma zone_of_in:
  assumes "mem_inv zs F A L s" "(z, b, e) \<in> set zs" "b \<le> i" "i < e"
  shows "zone_of i zs = Some (z, b, e)"
proof -
  have "zone_of i ys = Some (z, b, e)" if "set ys \<subseteq> set zs" "(z, b, e) \<in> set ys" for ys
    using that
  proof (induction ys)
    case (Cons y ys)
    obtain z' b' e' where y: "y = (z', b', e')" by (cases y)
    show ?case
    proof (cases "y = (z, b, e)")
      case False
      then have "separate y (z, b, e)" using mem_inv_sep [OF assms(1) _ assms(2)] Cons.prems by simp
      then have "\<not> (b' \<le> i \<and> i < e')" using assms(3,4) y by (auto simp: separate_def zone_indexes_def)
      then show ?thesis using Cons False y by auto
    qed (use assms in simp)
  qed simp
  then show ?thesis using assms(2) by blast
qed

lemma find_from_walk:
  assumes "mem_inv zs F A L s" "zs = xs @ ys" "i < 2 ^ 64"
  shows "page_alloc_zone_find_from (of_nat i) (zone_ptr ys s) s =
    Some (case zone_of i ys of None \<Rightarrow> NULL | Some (z, _, _) \<Rightarrow> z)"
  using assms(2)
proof (induction ys arbitrary: xs)
  case Nil
  then show ?case by (subst page_alloc_zone_find_from.simps) simp
next
  case (Cons y ys)
  obtain z b e where y: "y = (z, b, e)" by (cases y)
  have z: "(z, b, e) \<in> set zs" using Cons.prems y by simp
  have "lh_next (ll s) (zone_ll z) = zone_ptr ys s" using zone_ptr_next assms(1) Cons.prems y by metis
  moreover have "zs = (xs @ [y]) @ ys" using Cons.prems by simp
  ultimately show ?case
    using zone_ll_not_head [OF assms(1) z] zone_bounds [OF assms(1) z assms(3)] Cons.IH y
    by (subst page_alloc_zone_find_from.simps) (simp add: Let_def)
qed

lemma zone_find_ok:
  assumes "mem_inv zs F A L s" "i < 2 ^ 64"
  shows "page_alloc_zone_find (of_nat i) s = Some (case zone_of i zs of None \<Rightarrow> NULL | Some (z, _, _) \<Rightarrow> z)"
  using find_from_walk [OF assms(1) _ assms(2), of "[]" zs] zone_ptr_start [OF assms(1)]
  by (simp add: page_alloc_zone_find_def)

lemma addr_page_from_walk:
  assumes "mem_inv zs F A L s" "zs = xs @ ys" "i < 2 ^ 64"
  shows "addr_page_from (of_nat i) (zone_ptr ys s) s =
    Some (case zone_of i ys of None \<Rightarrow> Inl (Bug ''Page for addr not found'') | Some (z, b, _) \<Rightarrow> Inr (pg z b i))"
  using assms(2)
proof (induction ys arbitrary: xs)
  case Nil
  then show ?case by (subst addr_page_from.simps) simp
next
  case (Cons y ys)
  obtain z b e where y: "y = (z, b, e)" by (cases y)
  have z: "(z, b, e) \<in> set zs" using Cons.prems y by simp
  have "lh_next (ll s) (zone_ll z) = zone_ptr ys s" using zone_ptr_next assms(1) Cons.prems y by metis
  moreover have "zs = (xs @ [y]) @ ys" using Cons.prems by simp
  moreover have "page_at z (of_nat i - zone_begin s z) = pg z b i" if "b \<le> i"
    using page_at_pg [OF that] mem_inv_zone(4) [OF assms(1) z] by simp
  ultimately show ?case
    using zone_ll_not_head [OF assms(1) z] zone_bounds [OF assms(1) z assms(3)] Cons.IH y
    by (subst addr_page_from.simps) (auto simp: Let_def)
qed

text \<open>The unsigned test of \<^verbatim>\<open>page_zone\<close> holds only for descriptors inside the zone's array.\<close>

lemma page_diff_less:
  assumes "page_diff p z < of_nat k" "k < 2 ^ 58"
  shows "unat (p - zone_pages z) < 32 * k"
proof -
  let ?w = "p - zone_pages z"
  have lt: "unat (signed_drop_bit 5 ?w) < k"
    using assms by (simp add: page_diff_def word_less_nat_alt unat_of_nat64)
  have "\<not> bit (signed_drop_bit 5 ?w) 63"
  proof
    assume "bit (signed_drop_bit 5 ?w) 63"
    then have "bit (unat (signed_drop_bit 5 ?w)) 63" by (simp add: bit_unsigned_iff)
    then have "2 ^ 63 \<le> unat (signed_drop_bit 5 ?w)" by (rule bit_nat_ge)
    then show False using lt assms(2) by simp
  qed
  then have "\<not> bit ?w 63" by (simp add: bit_signed_drop_bit_iff)
  then have "\<not> bit (unat ?w) 63" by (simp add: bit_unsigned_iff)
  moreover have "unat ?w < 2 ^ 64" using unsigned_less [of ?w] by simp
  ultimately have "unat ?w < 2 ^ 63"
    using not_bit_nat_less [of "unat ?w" 63] by simp
  then have "unat (drop_bit 5 ?w) < k" using lt signed_drop_bit_pos by simp
  then have "unat ?w div 2 ^ 5 < k" by (simp only: unat_drop_bit_div)
  then show ?thesis by (simp add: div_less_iff_less_mult mult.commute)
qed

lemma page_diff_outside:
  assumes fits: "zone_fits z b e" and p: "unat p \<notin> zone_bytes (z, b, e)"
  shows "\<not> page_diff p z < of_nat e - of_nat b"
proof
  assume lt: "page_diff p z < of_nat e - of_nat b"
  have eb: "of_nat e - of_nat b = (of_nat (e - b) :: u64)" "e - b < 2 ^ 58"
    using fits by (auto simp: zone_fits_def)
  have small: "unat (p - zone_pages z) < 32 * (e - b)" using page_diff_less lt eb by metis
  have zp: "unat (zone_pages z) = unat z + 344"
    using fits unfolding zone_pages_def by (subst unat_add_no_wrap) (auto simp: zone_fits_def)
  have "unat p = unat (zone_pages z + (p - zone_pages z))" by simp
  also have "\<dots> = unat (zone_pages z) + unat (p - zone_pages z)"
    using fits small zp by (intro unat_add_no_wrap) (auto simp: zone_fits_def)
  finally show False using p small zp by (auto simp: zone_bytes_def)
qed

lemma page_diff_inside:
  assumes fits: "zone_fits z b e" and i: "b \<le> i" "i < e"
  shows "page_diff (pg z b i) z < of_nat e - of_nat b"
proof -
  have "i - b < 2 ^ 58" "e < 2 ^ 64" using fits i by (auto simp: zone_fits_def)
  then have "page_diff (pg z b i) z = of_nat (i - b)" unfolding pg_def by (intro page_diff_page_at)
  moreover have "of_nat e - of_nat b = (of_nat (e - b) :: u64)" using i by simp
  ultimately show ?thesis using i \<open>e < 2 ^ 64\<close> of_nat64_less [of "i - b" "e - b"] by simp
qed

lemma page_zone_from_walk:
  assumes inv: "mem_inv zs F A L s" and z: "(z, b, e) \<in> set zs" and i: "b \<le> i" "i < e"
    and "zs = xs @ ys" "(z, b, e) \<in> set ys"
  shows "page_zone_from (pg z b i) (zone_ptr ys s) s = Some (Inr z)"
  using assms(5,6)
proof (induction ys arbitrary: xs)
  case (Cons y ys)
  obtain z' b' e' where y: "y = (z', b', e')" by (cases y)
  have z': "(z', b', e') \<in> set zs" using Cons.prems y by simp
  have ends: "zone_end s z' - zone_begin s z' = of_nat e' - of_nat b'"
    using mem_inv_zone(4,5) [OF inv z'] by simp
  have nxt: "lh_next (ll s) (zone_ll z') = zone_ptr ys s" using zone_ptr_next inv Cons.prems y by metis
  show ?case
  proof (cases "y = (z, b, e)")
    case True
    then show ?thesis
      using y ends page_diff_inside [OF mem_inv_zone(3) [OF inv z] i] zone_ll_not_head [OF inv z']
      by (subst page_zone_from.simps) (simp add: Let_def)
  next
    case False
    then have "zone_bytes (z', b', e') \<inter> zone_bytes (z, b, e) = {}"
      using mem_inv_sep [OF inv z' z] y by (simp add: separate_def)
    then have "unat (pg z b i) \<notin> zone_bytes (z', b', e')"
      using pg_in_bytes [OF mem_inv_zone(3) [OF inv z] i] by blast
    then have "\<not> page_diff (pg z b i) z' < of_nat e' - of_nat b'"
      by (rule page_diff_outside [OF mem_inv_zone(3) [OF inv z']])
    moreover have "zs = (xs @ [y]) @ ys" "(z, b, e) \<in> set ys" using Cons.prems False by auto
    ultimately show ?thesis
      using y ends nxt Cons.IH zone_ll_not_head [OF inv z'] by (subst page_zone_from.simps) (simp add: Let_def)
  qed
qed simp

lemma page_zone_ok:
  assumes "mem_inv zs F A L s" "(z, b, e) \<in> set zs" "b \<le> i" "i < e"
  shows "page_zone (pg z b i) s = Some (Inr z)"
  using page_zone_from_walk [OF assms, of "[]" zs] assms(2) zone_ptr_start [OF assms(1)]
  by (simp add: page_zone_def)

section \<open>Descriptors and addresses\<close>

text \<open>The physical address of the page with index \<open>i\<close>.\<close>

definition frame_addr :: "nat \<Rightarrow> u64" where
  "frame_addr i = push_bit PAGE_SHIFT (of_nat i)"

lemma unat_frame_addr: "i < 2 ^ 52 \<Longrightarrow> unat (frame_addr i) = 4096 * i"
  unfolding frame_addr_def push_bit_of_nat by (subst unat_of_nat64) (simp_all add: push_bit_eq_mult)

lemma frame_addr_index: "i < 2 ^ 52 \<Longrightarrow> drop_bit PAGE_SHIFT (frame_addr i) = of_nat i"
proof (rule word_unat_eq_iff [THEN iffD2])
  assume i: "i < 2 ^ 52"
  have "unat (drop_bit PAGE_SHIFT (frame_addr i)) = 4096 * i div 2 ^ 12"
    by (simp only: unat_drop_bit_div unat_frame_addr [OF i])
  then show "unat (drop_bit PAGE_SHIFT (frame_addr i)) = unat (of_nat i :: u64)"
    using i unat_of_nat64 [of i] by simp
qed

lemma frame_addr_aligned: "frame_addr i AND PAGE_MASK = 0"
proof -
  have "frame_addr i AND PAGE_MASK = take_bit 12 (push_bit 12 (of_nat i))"
    by (simp add: frame_addr_def take_bit_eq_mask mask_eq_exp_minus_1)
  then show ?thesis by (simp add: take_bit_push_bit)
qed

lemma frame_addr_0: "i < 2 ^ 52 \<Longrightarrow> frame_addr i = 0 \<longleftrightarrow> i = 0"
  using unat_frame_addr [of i] by (auto simp: frame_addr_def)

lemma zone_index_small: "mem_inv zs F A L s \<Longrightarrow> (z, b, e) \<in> set zs \<Longrightarrow> i < e \<Longrightarrow> i < 2 ^ 52"
  using mem_inv_zone(3) by (fastforce simp: zone_fits_def)

lemma page_addr_ok:
  assumes "mem_inv zs F A L s" "(z, b, e) \<in> set zs" "b \<le> i" "i < e"
  shows "page_addr (pg z b i) s = Some (Inr (frame_addr i))"
  using page_zone_ok [OF assms] page_index [OF mem_inv_zone(3) [OF assms(1,2)] assms(3,4)]
    mem_inv_zone(4) [OF assms(1,2)]
  by (simp add: page_addr_def frame_addr_def)

lemma addr_page_ok:
  assumes "mem_inv zs F A L s" "i < 2 ^ 52"
  shows "addr_page (frame_addr i) s =
    Some (case zone_of i zs of None \<Rightarrow> Inl (Bug ''Page for addr not found'') | Some (z, b, _) \<Rightarrow> Inr (pg z b i))"
  using addr_page_from_walk [OF assms(1), of "[]" zs i] assms zone_ptr_start [OF assms(1)]
  by (simp add: addr_page_def frame_addr_aligned frame_addr_index)

section \<open>Allocation over the zones\<close>

text \<open>
  The locked allocation of one zone: the critical section runs with interrupts off and leaves the
  processor as it was.
\<close>

lemma lock_unlock_id: "spin_lock_irqsave s = (en, t) \<Longrightarrow> spin_unlock_irqrestore en t = s"
  by (cases s) (auto simp: spin_defs Let_def)

lemma spin_unlock_zone:
  "zone_inv z b e F A C L (spin_unlock_irqrestore en s) = zone_inv z b e F A C L s"
  "ll (spin_unlock_irqrestore en s) = ll s" "flags (spin_unlock_irqrestore en s) = flags s"
  by (auto simp: spin_defs Let_def zone_inv_def flags_ok_def page_is_free_def page_order_def)

text \<open>
  The abstract buddy allocation: take a block of the smallest sufficient order, keep its first
  \<open>2 ^ n\<close> pages, give the remaining halves back.
\<close>

definition can_alloc :: "nat \<Rightarrow> block set \<Rightarrow> bool" where
  "can_alloc n F \<longleftrightarrow> (\<exists>j k. (j, k) \<in> F \<and> n \<le> k)"

definition buddy_alloc :: "nat \<Rightarrow> block set \<Rightarrow> nat \<Rightarrow> block set \<Rightarrow> bool" where
  "buddy_alloc n F i F' \<longleftrightarrow> (\<exists>m \<ge> n. (i, m) \<in> F \<and> (\<forall>j k. n \<le> k \<longrightarrow> k < m \<longrightarrow> (j, k) \<notin> F) \<and>
     F' = F - {(i, m)} \<union> split_off i n m)"

lemma page_alloc_zone_inv:
  assumes inv: "zone_inv z b e F A {} L s" and n: "n \<le> MAX_ORDER" and can: "can_alloc n F"
  shows "\<exists>i F' s' L'. buddy_alloc n F i F' \<and> page_alloc_zone z n s = Inr (pg z b i, s') \<and>
    b \<le> i \<and> i < e \<and> zone_inv z b e F' (insert (i, n) A) {} L' s' \<and> zone_frame z b e L s L' s'"
proof -
  let ?t = "s\<lparr>ints_on := False, preempt_cnt := preempt_cnt s + 1\<rparr>"
  have t: "zone_inv z b e F A {} L ?t" using inv by (simp add: zone_inv_cpu)
  have no: "\<not> (\<forall>j k. (j, k) \<in> F \<longrightarrow> k < n)" using can by (auto simp: can_alloc_def not_less)
  obtain i m u L' where u: "(i, m) \<in> F" "n \<le> m" "\<forall>j k. n \<le> k \<longrightarrow> k < m \<longrightarrow> (j, k) \<notin> F"
    "raw_page_alloc_zone z n ?t = Inr (pg z b i, u)"
    "zone_inv z b e (F - {(i, m)} \<union> split_off i n m) (insert (i, n) A) {} L' u"
    "zone_frame z b e L ?t L' u"
    using raw_page_alloc_zone_inv [OF t n] no by blast
  let ?s' = "spin_unlock_irqrestore (ints_on s) u"
  have "page_alloc_zone z n s = Inr (pg z b i, ?s')"
    using u(4) by (simp add: page_alloc_zone_def spin_defs)
  moreover have "zone_frame z b e L s L' ?s'"
    using u(6) by (auto simp: zone_frame_def spin_defs Let_def)
  moreover have "buddy_alloc n F i (F - {(i, m)} \<union> split_off i n m)"
    using u(1-3) by (auto simp: buddy_alloc_def)
  moreover have "b \<le> i" "i < e" using zone_inv_block(3,5) [OF inv, of i m] u(1) by auto
  ultimately show ?thesis using u(5) by (metis spin_unlock_zone(1))
qed

lemma page_alloc_zone_fail:
  assumes inv: "zone_inv z b e F A {} L s" and n: "n \<le> MAX_ORDER" and can: "\<not> can_alloc n F"
  shows "page_alloc_zone z n s = Inr (NULL, s)"
proof -
  let ?t = "s\<lparr>ints_on := False, preempt_cnt := preempt_cnt s + 1\<rparr>"
  have t: "zone_inv z b e F A {} L ?t" using inv by (simp add: zone_inv_cpu)
  have lock: "spin_lock_irqsave s = (ints_on s, ?t)" by (simp add: spin_lock_irqsave_state)
  have "raw_page_alloc_zone z n ?t = Inr (NULL, ?t)"
    using raw_page_alloc_zone_inv [OF t n] can unfolding can_alloc_def by blast
  then show ?thesis using lock_unlock_id [OF lock] lock by (simp add: page_alloc_zone_def)
qed

definition alloc_zone :: "nat \<Rightarrow> (addr \<Rightarrow> block set) \<Rightarrow> zdesc list \<Rightarrow> zdesc option" where
  "alloc_zone n F zs = List.find (\<lambda>(z, b, e). can_alloc n (F z)) zs"

lemma raw_page_alloc_walk:
  assumes inv: "mem_inv zs F A L s" and n: "n \<le> MAX_ORDER" and "zs = xs @ ys"
  shows "raw_page_alloc_from (zone_ptr ys s) n s = Some
    (case alloc_zone n F ys of None \<Rightarrow> Inr (NULL, s) | Some (z, b, e) \<Rightarrow> page_alloc_zone z n s)"
  using assms(3)
proof (induction ys arbitrary: xs)
  case Nil
  then show ?case by (subst raw_page_alloc_from.simps) (simp add: alloc_zone_def)
next
  case (Cons y ys)
  obtain z b e where y: "y = (z, b, e)" by (cases y)
  have z: "(z, b, e) \<in> set zs" using Cons.prems y by simp
  note zi = mem_inv_zone [OF inv z]
  have nxt: "lh_next (ll s) (zone_ll z) = zone_ptr ys s" using zone_ptr_next inv Cons.prems y by metis
  show ?case
  proof (cases "can_alloc n (F z)")
    case True
    from page_alloc_zone_inv [OF zi(1) n True] obtain i s' where
      "page_alloc_zone z n s = Inr (pg z b i, s')" "b \<le> i" "i < e" by blast
    moreover have "pg z b i \<noteq> NULL" using pg_not_NULL [OF zi(3)] calculation by blast
    ultimately show ?thesis
      using y True zone_ll_not_head [OF inv z] by (subst raw_page_alloc_from.simps) (simp add: alloc_zone_def)
  next
    case False
    have "zs = (xs @ [y]) @ ys" using Cons.prems by simp
    with False show ?thesis
      using y page_alloc_zone_fail [OF zi(1) n False] zone_ll_not_head [OF inv z] nxt Cons.IH
      by (subst raw_page_alloc_from.simps) (simp add: alloc_zone_def)
  qed
qed

lemma page_alloc_walk:
  assumes inv: "mem_inv zs F A L s" and n: "n \<le> MAX_ORDER" and "zs = xs @ ys"
  shows "page_alloc_from (zone_ptr ys s) n s = Some
    (case alloc_zone n F ys of None \<Rightarrow> Inr (0, s)
     | Some (z, b, e) \<Rightarrow> bindR (page_alloc_zone z n s)
         (\<lambda>(page, s). Inr (push_bit PAGE_SHIFT (zone_begin s z + page_diff page z), s)))"
  using assms(3)
proof (induction ys arbitrary: xs)
  case Nil
  then show ?case by (subst page_alloc_from.simps) (simp add: alloc_zone_def)
next
  case (Cons y ys)
  obtain z b e where y: "y = (z, b, e)" by (cases y)
  have z: "(z, b, e) \<in> set zs" using Cons.prems y by simp
  note zi = mem_inv_zone [OF inv z]
  have nxt: "lh_next (ll s) (zone_ll z) = zone_ptr ys s" using zone_ptr_next inv Cons.prems y by metis
  show ?case
  proof (cases "can_alloc n (F z)")
    case True
    from page_alloc_zone_inv [OF zi(1) n True] obtain i s' where
      "page_alloc_zone z n s = Inr (pg z b i, s')" "b \<le> i" "i < e" by blast
    moreover have "pg z b i \<noteq> NULL" using pg_not_NULL [OF zi(3)] calculation by blast
    ultimately show ?thesis
      using y True zone_ll_not_head [OF inv z] by (subst page_alloc_from.simps) (simp add: alloc_zone_def)
  next
    case False
    have "zs = (xs @ [y]) @ ys" using Cons.prems by simp
    with False show ?thesis
      using y page_alloc_zone_fail [OF zi(1) n False] zone_ll_not_head [OF inv z] nxt Cons.IH
      by (subst page_alloc_from.simps) (simp add: alloc_zone_def)
  qed
qed

lemma alloc_zone_Some:
  assumes "alloc_zone n F zs = Some (z, b, e)"
  shows "(z, b, e) \<in> set zs" "can_alloc n (F z)"
  using assms unfolding alloc_zone_def by (auto simp: find_Some_iff in_set_conv_nth)

lemma alloc_zone_None: "alloc_zone n F zs = None \<longleftrightarrow> (\<forall>(z, b, e) \<in> set zs. \<not> can_alloc n (F z))"
  unfolding alloc_zone_def by (force simp: find_None_iff)

text \<open>The first zone that can serve the order makes the abstract step, the others keep their blocks.\<close>

lemma mem_alloc_zone:
  assumes inv: "mem_inv zs F A L s" and n: "n \<le> MAX_ORDER" and z: "alloc_zone n F zs = Some (z, b, e)"
  shows "\<exists>i F' s' L'. buddy_alloc n (F z) i F' \<and> page_alloc_zone z n s = Inr (pg z b i, s') \<and>
    b \<le> i \<and> i < e \<and> mem_inv zs (F(z := F')) (A(z := insert (i, n) (A z))) L' s' \<and> zone_frame z b e L s L' s'"
proof -
  note az = alloc_zone_Some [OF z]
  from page_alloc_zone_inv [OF mem_inv_zone(1) [OF inv az(1)] n az(2)] obtain i F' s' L' where
    r: "buddy_alloc n (F z) i F'" "page_alloc_zone z n s = Inr (pg z b i, s')" "b \<le> i" "i < e"
      "zone_inv z b e F' (insert (i, n) (A z)) {} L' s'" "zone_frame z b e L s L' s'" by blast
  from mem_inv_update [OF inv az(1) r(5,6)] r show ?thesis by blast
qed

section \<open>Freeing into the right zone\<close>

lemma page_free_zone_inv:
  assumes inv: "zone_inv z b e F A {} L s" and blk: "(i, n) \<in> A"
    and unl: "\<And>j. j \<in> span (i, n) \<Longrightarrow> pg z b j \<notin> members L"
  shows "\<exists>s' L' F'. page_free_zone z (pg z b i) n s = Inr s' \<and>
    zone_inv z b e F' (A - {(i, n)}) {} L' s' \<and> zone_frame z b e L s L' s' \<and>
    covered F' = covered F \<union> span (i, n) \<and> (coalesced F \<longrightarrow> coalesced F')"
proof -
  let ?t = "s\<lparr>ints_on := False, preempt_cnt := preempt_cnt s + 1\<rparr>"
  have t: "zone_inv z b e F A {} L ?t" using inv by (simp add: zone_inv_cpu)
  obtain u L' F' where u: "raw_page_free_zone z (pg z b i) n ?t = Inr u"
    "zone_inv z b e F' (A - {(i, n)}) {} L' u" "zone_frame z b e L ?t L' u"
    "covered F' = covered F \<union> span (i, n)" "coalesced F \<longrightarrow> coalesced F'"
    using raw_page_free_zone_inv [OF t blk unl] by blast
  let ?s' = "spin_unlock_irqrestore (ints_on s) u"
  have "page_free_zone z (pg z b i) n s = Inr ?s'" using u(1) by (simp add: page_free_zone_def spin_defs)
  moreover have "zone_frame z b e L s L' ?s'" using u(3) by (auto simp: zone_frame_def spin_defs Let_def)
  ultimately show ?thesis using u(2,4,5) by (metis spin_unlock_zone(1))
qed

lemma mem_free_zone:
  assumes inv: "mem_inv zs F A L s" and z: "(z, b, e) \<in> set zs" and blk: "(i, n) \<in> A z"
    and unl: "\<And>j. j \<in> span (i, n) \<Longrightarrow> pg z b j \<notin> members L"
  shows "\<exists>s' L' F'. page_free_zone z (pg z b i) n s = Inr s' \<and>
    mem_inv zs (F(z := F')) (A(z := A z - {(i, n)})) L' s' \<and> zone_frame z b e L s L' s' \<and>
    covered F' = covered (F z) \<union> span (i, n) \<and> (coalesced (F z) \<longrightarrow> coalesced F')"
proof -
  from page_free_zone_inv [OF mem_inv_zone(1) [OF inv z] blk unl] obtain s' L' F' where
    r: "page_free_zone z (pg z b i) n s = Inr s'" "zone_inv z b e F' (A z - {(i, n)}) {} L' s'"
      "zone_frame z b e L s L' s'" "covered F' = covered (F z) \<union> span (i, n)"
      "coalesced (F z) \<longrightarrow> coalesced F'" by blast
  from mem_inv_update [OF inv z r(2,3)] r show ?thesis by blast
qed

lemma page_free_ok:
  assumes inv: "mem_inv zs F A L s" and z: "(z, b, e) \<in> set zs" and i: "b \<le> i" "i < e" "i \<noteq> 0"
  shows "page_free (frame_addr i) n s = Some (page_free_zone z (pg z b i) n s)"
proof -
  have small: "i < 2 ^ 52" using zone_index_small [OF inv z i(2)] .
  have "page_alloc_zone_find (of_nat i) s = Some z"
    using zone_find_ok [OF inv, of i] zone_of_in [OF inv z i(1,2)] small by simp
  moreover have "z \<noteq> NULL" using mem_inv_zone(3) [OF inv z] by (simp add: zone_fits_def)
  moreover have "page_at z (of_nat i - zone_begin s z) = pg z b i"
    using page_at_pg [OF i(1)] mem_inv_zone(4) [OF inv z] by simp
  ultimately show ?thesis
    using frame_addr_index [OF small] frame_addr_0 [OF small] i(3) by (simp add: page_free_def)
qed

lemma raw_page_free_ok:
  assumes inv: "mem_inv zs F A L s" and z: "(z, b, e) \<in> set zs" and i: "b \<le> i" "i < e"
  shows "raw_page_free (pg z b i) n s = Some (page_free_zone z (pg z b i) n s)"
  using page_zone_ok [OF inv z i] pg_not_NULL [OF mem_inv_zone(3) [OF inv z] i]
  by (simp add: raw_page_free_def)

section \<open>No avoidable fragmentation\<close>

text \<open>
  Allocation keeps free blocks unmergeable, and among unmergeable blocks every aligned free run of
  pages lies in one block, so an allocation fails only if no such run is left.
\<close>

lemma split_off_iff: "(j, k) \<in> split_off i n m \<longleftrightarrow> n \<le> k \<and> k < m \<and> j = i + 2 ^ k"
  by (auto simp: split_off_def)

lemma coalesced_alloc:
  assumes "coalesced F" "blocks_ok b e F" "buddy_alloc n F i F'"
  shows "coalesced F'"
proof -
  obtain m where m: "n \<le> m" "(i, m) \<in> F" "\<forall>j k. n \<le> k \<longrightarrow> k < m \<longrightarrow> (j, k) \<notin> F"
    "F' = F - {(i, m)} \<union> split_off i n m"
    using assms(3) by (auto simp: buddy_alloc_def)
  have al: "2 ^ m dvd i" using blocks_okD [OF assms(2) m(2)] by (simp add: block_ok_def)
  show ?thesis
    unfolding coalesced_def
  proof (intro allI impI)
    fix j k
    assume j: "(j, k) \<in> F'" "k < MAX_ORDER"
    show "(buddy j k, k) \<notin> F'"
    proof (cases "n \<le> k \<and> k < m")
      case True
      then have "2 ^ Suc k dvd i" using al power_le_dvd [of 2 m i "Suc k"] by simp
      moreover have "j = i + 2 ^ k" using j(1) m(3,4) True by (auto simp: split_off_iff)
      ultimately have "buddy j k = i" using buddy_cases [of k i] buddy_involution [of i k]
        by (auto simp: bit_iff_odd elim!: dvdE)
      then show ?thesis using m(3,4) True by (auto simp: split_off_iff)
    next
      case False
      then show ?thesis using j m(4) assms(1) by (auto simp: split_off_iff coalesced_def)
    qed
  qed
qed

lemma aligned_same:
  fixes x y d :: nat
  assumes "d dvd x" "d dvd y" "y \<le> x" "x < y + d"
  shows "x = y"
proof -
  have "d dvd x - y" using assms(1,2) by (rule dvd_diff_nat)
  moreover have "x - y < d" using assms(3,4) by simp
  ultimately have "x - y = 0" using nat_dvd_not_less by blast
  then show ?thesis using assms(3) by simp
qed

lemma coalesced_run:
  assumes F: "blocks_ok b e F" "coalesced F"
  shows "n \<le> MAX_ORDER \<Longrightarrow> 2 ^ n dvd i \<Longrightarrow> span (i, n) \<subseteq> covered F \<Longrightarrow>
    \<exists>j m. (j, m) \<in> F \<and> n \<le> m \<and> i \<in> span (j, m)"
proof (induction n arbitrary: i)
  case 0
  then have "i \<in> covered F" by (auto simp: span_def)
  then show ?case unfolding covered_iff by blast
next
  case (Suc n)
  let ?h = "i + 2 ^ n"
  have al: "2 ^ n dvd i" "2 ^ n dvd ?h" using Suc.prems(2) power_le_dvd [of 2 "Suc n" i n] by auto
  have sub: "span (i, n) \<subseteq> covered F" "span (?h, n) \<subseteq> covered F" using Suc.prems(3) span_halves by auto
  obtain j m where j: "(j, m) \<in> F" "n \<le> m" "i \<in> span (j, m)" using Suc.IH [OF _ al(1) sub(1)] Suc.prems by auto
  obtain j' m' where j': "(j', m') \<in> F" "n \<le> m'" "?h \<in> span (j', m')" using Suc.IH [OF _ al(2) sub(2)] Suc.prems by auto
  have jal: "2 ^ m dvd j" "2 ^ m' dvd j'" using blocks_okD [OF F(1)] j(1) j'(1) by (auto simp: block_ok_def)
  show ?case
  proof (cases "Suc n \<le> m \<or> Suc n \<le> m'")
    case True
    then show ?thesis
    proof
      assume "Suc n \<le> m'"
      then have "2 ^ Suc n dvd j'" "(2::nat) ^ Suc n dvd 2 ^ m'"
        using jal(2) power_le_dvd [of 2 m' j' "Suc n"] le_imp_power_dvd [of "Suc n" m' 2] by auto
      moreover have "?h div 2 ^ Suc n = i div 2 ^ Suc n" using Suc.prems(2) by (auto elim!: dvdE)
      ultimately have "i \<in> span (j', m')"
        using aligned_range_iff [of "2 ^ Suc n" j' "2 ^ m'"] j'(3) by (simp add: span_def)
      then show ?thesis using j'(1) \<open>Suc n \<le> m'\<close> by blast
    qed (use j in blast)
  next
    case False
    then have mn: "m = n" "m' = n" using j(2) j'(2) by auto
    have "i = j" "?h = j'"
      using aligned_same [OF al(1), of j] aligned_same [OF al(2), of j'] jal j(3) j'(3) mn by simp_all
    moreover have "buddy i n = ?h" using buddy_cases [OF al(1)] Suc.prems(2) by (auto simp: bit_iff_odd elim!: dvdE)
    moreover have "(buddy i n, n) \<notin> F" if "(i, n) \<in> F"
      using F(2) that Suc.prems(1) unfolding coalesced_def by simp
    ultimately show ?thesis using j(1) j'(1) mn by simp
  qed
qed

end
