(* ===== verification/PageIface.thy ===== *)
theory PageIface
  imports PageZones
begin

text \<open>
  The contract of the page allocator, as its clients (the slab caches of \<^verbatim>\<open>src/alloc.c\<close>, the page
  tables of \<^verbatim>\<open>src/paging.c\<close>, the stacks of \<^verbatim>\<open>src/threads.c\<close>) rely on it: the set of free pages, the
  set of blocks in use and the lists the clients keep through the \<open>ll\<close> links of their pages. Both
  pairs of entry points, \<^verbatim>\<open>page_alloc\<close>/\<^verbatim>\<open>page_free\<close> on addresses and \<^verbatim>\<open>__page_alloc\<close>/\<^verbatim>\<open>__page_free\<close>
  on descriptors, provide it.
\<close>

section \<open>The contract\<close>

locale page_provider =
  fixes rep :: "'s \<Rightarrow> nat set \<Rightarrow> block set \<Rightarrow> lfamily \<Rightarrow> bool"
    and node :: "'s \<Rightarrow> nat \<Rightarrow> addr"
    and handle :: "'s \<Rightarrow> nat \<Rightarrow> u64"
    and alloc :: "nat \<Rightarrow> 's \<Rightarrow> (u64 \<times> 's) res option"
    and free :: "u64 \<Rightarrow> nat \<Rightarrow> 's \<Rightarrow> 's res option"
  assumes rep_disjoint: "rep s U B K \<Longrightarrow> x \<in> B \<Longrightarrow> y \<in> B \<Longrightarrow> x \<noteq> y \<Longrightarrow> span x \<inter> span y = {}"
    and rep_used: "rep s U B K \<Longrightarrow> x \<in> B \<Longrightarrow> span x \<inter> U = {}"
    and alloc_too_big: "n > MAX_ORDER \<Longrightarrow> alloc n s = Some (Inr (0, s))"
    and alloc_result: "rep s U B K \<Longrightarrow> n \<le> MAX_ORDER \<Longrightarrow>
        alloc n s = Some (Inr (0, s)) \<or>
        (\<exists>i s'. alloc n s = Some (Inr (handle s i, s')) \<and> handle s i \<noteq> 0 \<and> 2 ^ n dvd i \<and> span (i, n) \<subseteq> U \<and>
           rep s' (U - span (i, n)) (insert (i, n) B) K \<and>
           (\<forall>j \<in> span (i, n). node s j \<noteq> 0 \<and> node s j \<notin> members K) \<and> node s' = node s \<and> handle s' = handle s)"
    and free_result: "rep s U B K \<Longrightarrow> (i, n) \<in> B \<Longrightarrow> (\<And>j. j \<in> span (i, n) \<Longrightarrow> node s j \<notin> members K) \<Longrightarrow>
        \<exists>s'. free (handle s i) n s = Some (Inr s') \<and> rep s' (U \<union> span (i, n)) (B - {(i, n)}) K \<and>
           node s' = node s \<and> handle s' = handle s"
    and free_null: "free 0 n s = Some (Inr s)"
begin

lemma alloc_total: "rep s U B K \<Longrightarrow> \<exists>p s'. alloc n s = Some (Inr (p, s'))"
  using alloc_too_big [of n s] alloc_result [of s U B K n] by (cases "n \<le> MAX_ORDER") auto

text \<open>A new block shares no page with a block already in use.\<close>

lemma alloc_fresh:
  assumes "rep s U B K" "alloc n s = Some (Inr (p, s'))" "p \<noteq> 0"
  obtains i where "p = handle s i" "span (i, n) \<subseteq> U" "\<And>x. x \<in> B \<Longrightarrow> span (i, n) \<inter> span x = {}"
    "rep s' (U - span (i, n)) (insert (i, n) B) K"
proof -
  have "n \<le> MAX_ORDER" using assms alloc_too_big [of n s] by fastforce
  then obtain i where "p = handle s i" "span (i, n) \<subseteq> U" "rep s' (U - span (i, n)) (insert (i, n) B) K"
    using alloc_result [OF assms(1)] assms(2,3) by fastforce
  then show thesis using that rep_used [OF assms(1)] by blast
qed

text \<open>Giving a block back at once restores the free pages and the blocks in use.\<close>

lemma alloc_free:
  assumes "rep s U B K" "alloc n s = Some (Inr (p, s'))"
  shows "\<exists>s''. free p n s' = Some (Inr s'') \<and> rep s'' U B K"
proof (cases "p = 0")
  case True
  have "s' = s"
    using assms alloc_too_big [of n s] alloc_result [OF assms(1), of n] True by (cases "n \<le> MAX_ORDER") auto
  then show ?thesis using True free_null assms(1) by blast
next
  case False
  have "n \<le> MAX_ORDER" using assms False alloc_too_big [of n s] by fastforce
  then obtain i where i: "p = handle s i" "span (i, n) \<subseteq> U" "rep s' (U - span (i, n)) (insert (i, n) B) K"
    "\<forall>j \<in> span (i, n). node s j \<notin> members K" "node s' = node s" "handle s' = handle s"
    using alloc_result [OF assms(1)] assms(2) False by fastforce
  have "span (i, n) \<noteq> {}" by (rule span_nonempty)
  then have "(i, n) \<notin> B" using i(2) rep_used [OF assms(1), of "(i, n)"] by blast
  moreover have "U - span (i, n) \<union> span (i, n) = U" using i(2) by blast
  ultimately show ?thesis using free_result [OF i(3), of i n] i by auto
qed

end

section \<open>The states that satisfy it\<close>

text \<open>The list heads the allocator owns: the list of zones and the free lists of every zone.\<close>

definition alloc_heads :: "zdesc list \<Rightarrow> 'a pgs_scheme \<Rightarrow> addr set" where
  "alloc_heads zs s = insert (zones_head s) (\<Union>(z, b, e) \<in> set zs. order_head z ` {..MAX_ORDER})"

definition free_pages :: "zdesc list \<Rightarrow> (addr \<Rightarrow> block set) \<Rightarrow> nat set" where
  "free_pages zs F = (\<Union>(z, b, e) \<in> set zs. covered (F z))"

definition used_blocks :: "zdesc list \<Rightarrow> (addr \<Rightarrow> block set) \<Rightarrow> block set" where
  "used_blocks zs A = (\<Union>(z, b, e) \<in> set zs. A z)"

definition clients_ok :: "zdesc list \<Rightarrow> (addr \<Rightarrow> block set) \<Rightarrow> lfamily \<Rightarrow> bool" where
  "clients_ok zs A K \<longleftrightarrow> (\<forall>(z, b, e) \<in> set zs. \<forall>i. b \<le> i \<longrightarrow> i < e \<longrightarrow> pg z b i \<in> members K \<longrightarrow> i \<in> covered (A z))"

definition mem_state ::
  "zdesc list \<Rightarrow> (addr \<Rightarrow> block set) \<Rightarrow> (addr \<Rightarrow> block set) \<Rightarrow> lfamily \<Rightarrow> lfamily \<Rightarrow> 'a pgs_scheme \<Rightarrow> bool" where
  "mem_state zs F A L K s \<longleftrightarrow> mem_inv zs F A L s \<and> (\<forall>(z, b, e) \<in> set zs. coalesced (F z)) \<and>
     K = L |` (- alloc_heads zs s) \<and> clients_ok zs A K \<and> 0 \<notin> free_pages zs F \<and> 0 \<notin> covered (used_blocks zs A)"

definition page_rep :: "'a pgs_scheme \<Rightarrow> nat set \<Rightarrow> block set \<Rightarrow> lfamily \<Rightarrow> bool" where
  "page_rep s U B K \<longleftrightarrow>
     (\<exists>zs F A L. mem_state zs F A L K s \<and> U = free_pages zs F \<and> B = used_blocks zs A)"

text \<open>The descriptor of the page with index \<open>i\<close>, found as the code finds it.\<close>

definition page_node :: "'a pgs_scheme \<Rightarrow> nat \<Rightarrow> addr" where
  "page_node s i = (case addr_page (frame_addr i) s of Some (Inr p) \<Rightarrow> p | _ \<Rightarrow> NULL)"

lemma frame_addr_mod: "frame_addr i = frame_addr (i mod 2 ^ 52)"
proof -
  have "(of_nat (i * 2 ^ 12) :: u64) = of_nat (i mod 2 ^ 52 * 2 ^ 12)"
  proof (rule word_of_nat_eq_iff [THEN iffD2])
    have "i * 2 ^ 12 mod (2 ^ 52 * 2 ^ 12) = i mod 2 ^ 52 * 2 ^ 12" by (rule mult_mod_left [symmetric])
    moreover have "i mod 2 ^ 52 * 2 ^ 12 < 2 ^ 52 * 2 ^ 12" by simp
    ultimately show "take_bit LENGTH(64) (i * 2 ^ 12) = take_bit LENGTH(64) (i mod 2 ^ 52 * 2 ^ 12)"
      by (simp add: take_bit_eq_mod)
  qed
  then have "push_bit PAGE_SHIFT (of_nat i :: u64) = push_bit PAGE_SHIFT (of_nat (i mod 2 ^ 52))"
    unfolding push_bit_of_nat unfolding push_bit_eq_mult .
  then show ?thesis unfolding frame_addr_def .
qed

lemma page_node_zone_of:
  assumes "mem_inv zs F A L s"
  shows "page_node s i = (case zone_of (i mod 2 ^ 52) zs of None \<Rightarrow> NULL | Some (z, b, _) \<Rightarrow> pg z b (i mod 2 ^ 52))"
  using addr_page_ok [OF assms, of "i mod 2 ^ 52"] unfolding page_node_def by (subst frame_addr_mod) (simp split: option.splits)

lemma page_node_same: "mem_inv zs F A L s \<Longrightarrow> mem_inv zs F' A' L' s' \<Longrightarrow> page_node s' = page_node s"
  by (rule ext) (simp add: page_node_zone_of)

lemma page_node_pg:
  assumes "mem_inv zs F A L s" "(z, b, e) \<in> set zs" "b \<le> i" "i < e"
  shows "page_node s i = pg z b i"
  using page_node_zone_of [OF assms(1), of i] zone_of_in [OF assms] zone_index_small [OF assms(1,2,4)] by simp

lemma free_block_range:
  assumes "mem_inv zs F A L s" "(z, b, e) \<in> set zs" "i \<in> covered (F z) \<or> i \<in> covered (A z)"
  shows "b \<le> i" "i < e"
proof -
  have "covered (F z) \<union> covered (A z) \<subseteq> {b..<e}"
    using zone_inv_block(3,4) [OF mem_inv_zone(1) [OF assms(1,2)]] by (fastforce simp: covered_iff)
  then show "b \<le> i" "i < e" using assms(3) by auto
qed

lemma covered_used_blocks: "covered (used_blocks zs A) = (\<Union>(z, b, e) \<in> set zs. covered (A z))"
  by (auto simp: covered_def used_blocks_def)

text \<open>A page of one zone is in no block of another.\<close>

lemma free_pages_zone:
  assumes inv: "mem_inv zs F A L s" and z: "(z, b, e) \<in> set zs" and i: "b \<le> i" "i < e"
  shows "i \<in> free_pages zs F \<longleftrightarrow> i \<in> covered (F z)" "i \<in> covered (used_blocks zs A) \<longleftrightarrow> i \<in> covered (A z)"
proof -
  have z': "z' = z" if "(z', b', e') \<in> set zs" "i \<in> covered (F z') \<or> i \<in> covered (A z')" for z' b' e'
    using zone_of_in [OF inv that(1)] free_block_range [OF inv that] zone_of_in [OF inv z i] by simp
  show "i \<in> free_pages zs F \<longleftrightarrow> i \<in> covered (F z)"
  proof
    assume "i \<in> free_pages zs F"
    then obtain z' b' e' where "(z', b', e') \<in> set zs" "i \<in> covered (F z')" by (auto simp: free_pages_def)
    then show "i \<in> covered (F z)" using z' by metis
  qed (use z in \<open>auto simp: free_pages_def\<close>)
  show "i \<in> covered (used_blocks zs A) \<longleftrightarrow> i \<in> covered (A z)"
  proof
    assume "i \<in> covered (used_blocks zs A)"
    then obtain z' b' e' where "(z', b', e') \<in> set zs" "i \<in> covered (A z')" by (auto simp: covered_used_blocks)
    then show "i \<in> covered (A z)" using z' by metis
  qed (use z in \<open>auto simp: covered_used_blocks\<close>)
qed

lemma clients_frame:
  assumes z: "(z, b, e) \<in> set zs" and fr: "zone_frame z b e L s L' s'"
  shows "L' |` (- alloc_heads zs s') = L |` (- alloc_heads zs s)"
proof -
  have heads: "alloc_heads zs s' = alloc_heads zs s" using fr by (simp add: alloc_heads_def zone_frame_def)
  have "L' a = L a" if "a \<notin> alloc_heads zs s" for a
  proof -
    have "a \<notin> order_head z ` {..MAX_ORDER}" using that z by (auto simp: alloc_heads_def)
    then show ?thesis using fr by (simp add: zone_frame_def)
  qed
  then show ?thesis unfolding heads by (auto simp: restrict_map_def)
qed

lemma zone_ll_bytes:
  assumes "zone_fits z b e"
  shows "unat (zone_ll z) = unat z + 8" "unat (zone_ll z) \<in> zone_bytes (z, b, e)"
proof -
  show "unat (zone_ll z) = unat z + 8"
    using assms unfolding zone_ll_def by (subst unat_add_no_wrap) (auto simp: zone_fits_def)
  then show "unat (zone_ll z) \<in> zone_bytes (z, b, e)" by (simp add: zone_bytes_def)
qed

text \<open>A byte belongs to one zone.\<close>

lemma zone_bytes_unique:
  assumes "mem_inv zs F A L s" "(z, b, e) \<in> set zs" "(z', b', e') \<in> set zs"
    and "x \<in> zone_bytes (z, b, e)" "x \<in> zone_bytes (z', b', e')"
  shows "z' = z" "b' = b" "e' = e"
proof -
  have "(z', b', e') = (z, b, e)"
    using mem_inv_sep [OF assms(1,3,2)] assms(4,5) unfolding separate_def by blast
  then show "z' = z" "b' = b" "e' = e" by auto
qed

lemma blocks_ok_overlap:
  assumes "blocks_ok b e B" "x \<in> B" "y \<in> B" "i \<in> span x" "i \<in> span y"
  shows "x = y"
  using assms unfolding blocks_ok_def by (metis IntI empty_iff)

lemma used_not_free:
  assumes inv: "zone_inv z b e F A C L s" and i: "i \<in> covered A"
  shows "i \<notin> covered F"
proof
  assume "i \<in> covered F"
  then obtain x y where xy: "x \<in> F" "i \<in> span x" "y \<in> A" "i \<in> span y" using i by (auto simp: covered_def)
  moreover have "blocks_ok b e (F \<union> A \<union> C)" "F \<inter> (A \<union> C) = {}" using inv by (auto simp: zone_inv_def)
  ultimately show False using blocks_ok_overlap [of b e "F \<union> A \<union> C" x y i] by blast
qed

text \<open>A page of no free block is on no list of the allocator.\<close>

lemma used_page_client:
  assumes st: "mem_state zs F A L K s" and z: "(z, b, e) \<in> set zs" and ib: "b \<le> i" "i < e"
    and i: "i \<notin> covered (F z)" and mem: "pg z b i \<in> members L"
  shows "pg z b i \<in> members K"
proof -
  have inv: "mem_inv zs F A L s" and K: "K = L |` (- alloc_heads zs s)" using st by (auto simp: mem_state_def)
  note fits = mem_inv_zone(3) [OF inv z]
  have pgb: "unat (pg z b i) \<in> zone_bytes (z, b, e)" by (rule pg_in_bytes [OF fits ib])
  obtain l xs where l: "L l = Some xs" "pg z b i \<in> set (l # xs)" using mem by (auto simp: members_def)
  have "l \<noteq> zones_head s"
  proof
    assume lz: "l = zones_head s"
    then have "xs = zone_links zs" using l(1) inv by (simp add: mem_inv_def)
    moreover have "pg z b i \<noteq> zones_head s" using pgb mem_inv_zone(2) [OF inv z] by auto
    ultimately obtain z' b' e' where z': "(z', b', e') \<in> set zs" "pg z b i = zone_ll z'"
      using l(2) lz by (auto simp: zone_links_def)
    then have "z' = z"
      using zone_bytes_unique [OF inv z z'(1) pgb] zone_ll_bytes(2) [OF mem_inv_zone(3) [OF inv z'(1)]] by simp
    then show False using z'(2) unat_pg [OF fits ib] zone_ll_bytes(1) [OF fits] by simp
  qed
  moreover have "l \<noteq> order_head z' k" if z': "(z', b', e') \<in> set zs" "k \<le> MAX_ORDER" for z' b' e' k
  proof
    assume lk: "l = order_head z' k"
    note fits' = mem_inv_zone(3) [OF inv z'(1)] and zi = mem_inv_zone(1) [OF inv z'(1)]
    have "pg z b i \<noteq> l"
    proof
      assume eq: "pg z b i = l"
      then have "z' = z" using zone_bytes_unique(1) [OF inv z z'(1) pgb] order_head_in_bytes [OF fits' z'(2)] lk by simp
      then show False using pg_order_head [OF fits ib z'(2)] eq lk by simp
    qed
    moreover obtain ys where ys: "L l = Some ys" "set ys = pg z' b' ` {j. (j, k) \<in> F z'}"
      using zone_inv_list [OF zi z'(2)] lk by metis
    ultimately obtain j where j: "(j, k) \<in> F z'" "pg z b i = pg z' b' j" using l by auto
    have jb: "b' \<le> j" "j < e'" using zone_inv_block(3,5) [OF zi, of j k] j(1) by auto
    have same: "z' = z" "b' = b" "e' = e"
      using zone_bytes_unique [OF inv z z'(1) pgb] pg_in_bytes [OF fits' jb] j(2) by simp_all
    then have "i = j" using pg_inj [OF fits ib, of j] j(2) jb by simp
    then have "i \<in> covered (F z)" using j(1) same(1) covered_head by blast
    then show False using i by simp
  qed
  ultimately have "l \<notin> alloc_heads zs s" by (auto simp: alloc_heads_def)
  then have "K l = Some xs" using l(1) K by simp
  then show ?thesis using l(2) unfolding members_def by blast
qed

lemma mem_state_update:
  assumes st: "mem_state zs F A L K s" and z: "(z, b, e) \<in> set zs"
    and inv': "mem_inv zs (F(z := F')) (A(z := A')) L' s'" and fr: "zone_frame z b e L s L' s'"
    and co: "coalesced F'" and zero': "0 \<notin> covered F'" "0 \<notin> covered A'"
    and cl: "\<And>i. b \<le> i \<Longrightarrow> i < e \<Longrightarrow> pg z b i \<in> members K \<Longrightarrow> i \<in> covered A'"
  shows "mem_state zs (F(z := F')) (A(z := A')) L' K s'"
proof -
  have inv: "mem_inv zs F A L s" and K: "K = L |` (- alloc_heads zs s)"
    and zero: "0 \<notin> free_pages zs F \<union> covered (used_blocks zs A)"
    and cK: "clients_ok zs A K" and cF: "\<forall>(z, b, e) \<in> set zs. coalesced (F z)"
    using st by (auto simp: mem_state_def)
  have "clients_ok zs (A(z := A')) K"
    unfolding clients_ok_def
  proof (intro ballI, clarify)
    fix z' b' e' i
    assume z': "(z', b', e') \<in> set zs" "b' \<le> i" "i < e'" "pg z' b' i \<in> members K"
    show "i \<in> covered ((A(z := A')) z')"
    proof (cases "z' = z")
      case True
      then show ?thesis using z' cl mem_inv_same [OF inv z, of b' e'] by simp
    next
      case False
      then show ?thesis using cK z' unfolding clients_ok_def by fastforce
    qed
  qed
  moreover have "0 \<notin> free_pages zs (F(z := F'))" "0 \<notin> covered (used_blocks zs (A(z := A')))"
    using zero zero' unfolding free_pages_def covered_used_blocks by (auto split: if_splits)
  ultimately show ?thesis
    using inv' co cF K clients_frame [OF z fr] zero unfolding mem_state_def by auto
qed

lemma mem_state_zero: "mem_state zs F A L K s \<Longrightarrow> (z, b, e) \<in> set zs \<Longrightarrow> 0 \<notin> covered (F z) \<and> 0 \<notin> covered (A z)"
  unfolding mem_state_def free_pages_def covered_used_blocks by auto

lemma mem_state_alloc:
  assumes st: "mem_state zs F A L K s" and n: "n \<le> MAX_ORDER" and z: "alloc_zone n F zs = Some (z, b, e)"
  shows "\<exists>i F' s' L'. page_alloc_zone z n s = Inr (pg z b i, s') \<and> buddy_alloc n (F z) i F' \<and>
    b \<le> i \<and> i < e \<and> 2 ^ n dvd i \<and> span (i, n) \<subseteq> covered (F z) \<and> covered F' = covered (F z) - span (i, n) \<and>
    mem_state zs (F(z := F')) (A(z := insert (i, n) (A z))) L' K s' \<and> zone_begin s' = zone_begin s"
proof -
  have inv: "mem_inv zs F A L s" using st by (simp add: mem_state_def)
  note az = alloc_zone_Some [OF z]
  note zi = mem_inv_zone(1) [OF inv az(1)]
  from mem_alloc_zone [OF inv n z] obtain i F' s' L' where
    r: "buddy_alloc n (F z) i F'" "page_alloc_zone z n s = Inr (pg z b i, s')" "b \<le> i" "i < e"
      "mem_inv zs (F(z := F')) (A(z := insert (i, n) (A z))) L' s'" "zone_frame z b e L s L' s'" by blast
  have ok: "blocks_ok b e (F z)" using zi by (auto simp: zone_inv_def blocks_ok_def)
  obtain m where m: "n \<le> m" "(i, m) \<in> F z" "F' = F z - {(i, m)} \<union> split_off i n m"
    using r(1) by (auto simp: buddy_alloc_def)
  have cov: "covered F' = covered (F z) - span (i, n)" using covered_alloc [OF ok m(2,1)] m(3) by simp
  have "(2::nat) ^ n \<le> 2 ^ m" using m(1) by (intro power_increasing) auto
  then have "span (i, n) \<subseteq> span (i, m)" unfolding span_def by auto
  then have sub: "span (i, n) \<subseteq> covered (F z)" using m(2) unfolding covered_def by blast
  have "2 ^ m dvd i" using blocks_okD [OF ok m(2)] by (simp add: block_ok_def)
  then have al: "2 ^ n dvd i" using m(1) power_le_dvd by blast
  have "coalesced F'" using coalesced_alloc [OF _ ok r(1)] st az(1) unfolding mem_state_def by auto
  moreover have "j \<in> covered (insert (i, n) (A z))" if "b \<le> j" "j < e" "pg z b j \<in> members K" for j
    using st that az(1) unfolding mem_state_def clients_ok_def covered_insert by blast
  moreover have "0 \<notin> span (i, n)" using sub mem_state_zero [OF st az(1)] by blast
  ultimately have "mem_state zs (F(z := F')) (A(z := insert (i, n) (A z))) L' K s'"
    using cov sub mem_state_zero [OF st az(1)]
    by (intro mem_state_update [OF st az(1) r(5,6)]) (auto simp: covered_insert simp del: span_iff)
  then show ?thesis using r al sub cov unfolding zone_frame_def by blast
qed

lemma mem_state_free:
  assumes st: "mem_state zs F A L K s" and z: "(z, b, e) \<in> set zs" and blk: "(i, n) \<in> A z"
    and unl: "\<And>j. j \<in> span (i, n) \<Longrightarrow> pg z b j \<notin> members K"
  shows "\<exists>F' s' L'. page_free_zone z (pg z b i) n s = Inr s' \<and> covered F' = covered (F z) \<union> span (i, n) \<and>
    mem_state zs (F(z := F')) (A(z := A z - {(i, n)})) L' K s'"
proof -
  have inv: "mem_inv zs F A L s" using st by (simp add: mem_state_def)
  have ok: "blocks_ok b e (A z)" using mem_inv_zone(1) [OF inv z] by (auto simp: zone_inv_def blocks_ok_def)
  have own: "j \<in> covered (A z)" if "j \<in> span (i, n)" for j using blk that unfolding covered_iff by blast
  have "pg z b j \<notin> members L" if "j \<in> span (i, n)" for j
    using used_page_client [OF st z] free_block_range [OF inv z] own [OF that] unl [OF that]
      used_not_free [OF mem_inv_zone(1) [OF inv z]] by blast
  from mem_free_zone [OF inv z blk this] obtain s' L' F' where
    r: "page_free_zone z (pg z b i) n s = Inr s'" "mem_inv zs (F(z := F')) (A(z := A z - {(i, n)})) L' s'"
      "zone_frame z b e L s L' s'" "covered F' = covered (F z) \<union> span (i, n)" "coalesced (F z) \<longrightarrow> coalesced F'"
    by blast
  have A: "covered (A z) = span (i, n) \<union> covered (A z - {(i, n)})"
    using covered_insert [of "(i, n)" "A z - {(i, n)}"] blk by (simp add: insert_absorb)
  have "j \<in> covered (A z - {(i, n)})" if "b \<le> j" "j < e" "pg z b j \<in> members K" for j
  proof -
    have "j \<in> covered (A z)" using st that z unfolding mem_state_def clients_ok_def by blast
    then show ?thesis using A unl that by auto
  qed
  moreover have "coalesced F'" using r(5) st z unfolding mem_state_def by auto
  ultimately have "mem_state zs (F(z := F')) (A(z := A z - {(i, n)})) L' K s'"
    using A r(4) mem_state_zero [OF st z] by (intro mem_state_update [OF st z r(2,3)]) auto
  then show ?thesis using r by blast
qed

section \<open>The two pairs of entry points\<close>

lemma raw_page_alloc_eq:
  assumes "mem_inv zs F A L s" "n \<le> MAX_ORDER"
  shows "raw_page_alloc n s = Some
    (case alloc_zone n F zs of None \<Rightarrow> Inr (NULL, s) | Some (z, b, e) \<Rightarrow> page_alloc_zone z n s)"
  using raw_page_alloc_walk [OF assms, of "[]" zs] zone_ptr_start [OF assms(1)] assms(2)
  by (simp add: raw_page_alloc_def)

lemma page_alloc_eq:
  assumes "mem_inv zs F A L s" "n \<le> MAX_ORDER"
  shows "page_alloc n s = Some
    (case alloc_zone n F zs of None \<Rightarrow> Inr (0, s)
     | Some (z, b, e) \<Rightarrow> bindR (page_alloc_zone z n s)
         (\<lambda>(page, s). Inr (push_bit PAGE_SHIFT (zone_begin s z + page_diff page z), s)))"
  using page_alloc_walk [OF assms, of "[]" zs] zone_ptr_start [OF assms(1)] assms(2)
  by (simp add: page_alloc_def)

lemma free_pages_upd:
  assumes inv: "mem_inv zs F A L s" and z: "(z, b, e) \<in> set zs"
    and cov: "covered F' = covered (F z) - S" "S \<subseteq> {b..<e}"
  shows "free_pages zs (F(z := F')) = free_pages zs F - S"
proof -
  have "covered (F z') \<inter> S = {}" if "(z', b', e') \<in> set zs" "z' \<noteq> z" for z' b' e'
    using mem_inv_sep [OF inv that(1) z] that free_block_range [OF inv that(1)] cov(2)
    unfolding separate_def zone_indexes_def by fastforce
  then show ?thesis using cov(1) unfolding free_pages_def by (auto split: if_splits) blast+
qed

lemma free_pages_add:
  "(z, b, e) \<in> set zs \<Longrightarrow> covered F' = covered (F z) \<union> S \<Longrightarrow> free_pages zs (F(z := F')) = free_pages zs F \<union> S"
  unfolding free_pages_def by (auto split: if_splits)

lemma used_blocks_insert:
  "(z, b, e) \<in> set zs \<Longrightarrow> used_blocks zs (A(z := insert x (A z))) = insert x (used_blocks zs A)"
  unfolding used_blocks_def by (auto split: if_splits)

lemma used_blocks_remove:
  assumes inv: "mem_inv zs F A L s" and z: "(z, b, e) \<in> set zs" and x: "x \<in> A z"
  shows "used_blocks zs (A(z := A z - {x})) = used_blocks zs A - {x}"
proof -
  have "x \<notin> A z'" if "(z', b', e') \<in> set zs" "z' \<noteq> z" for z' b' e'
  proof
    assume x': "x \<in> A z'"
    obtain i n where xi: "x = (i, n)" by (cases x)
    have "i \<in> covered (A z)" "i \<in> covered (A z')" using x x' xi covered_head by blast+
    then have "i \<in> zone_indexes (z, b, e) \<inter> zone_indexes (z', b', e')"
      using free_block_range [OF inv z] free_block_range [OF inv that(1)] by (auto simp: zone_indexes_def)
    then show False using mem_inv_sep [OF inv z that(1)] that(2) by (auto simp: separate_def)
  qed
  then show ?thesis unfolding used_blocks_def using z by (auto split: if_splits)
qed

text \<open>One allocation, for both entry points: \<open>None\<close> is the failure.\<close>

lemma alloc_step:
  assumes st: "mem_state zs F A L K s" and n: "n \<le> MAX_ORDER" and z: "alloc_zone n F zs = Some (z, b, e)"
  shows "\<exists>i s'. page_alloc_zone z n s = Inr (pg z b i, s') \<and> b \<le> i \<and> i < e \<and> i \<noteq> 0 \<and> 2 ^ n dvd i \<and>
    span (i, n) \<subseteq> free_pages zs F \<and> zone_begin s' z = of_nat b \<and>
    page_rep s' (free_pages zs F - span (i, n)) (insert (i, n) (used_blocks zs A)) K \<and>
    (\<forall>j \<in> span (i, n). page_node s j \<noteq> 0 \<and> page_node s j \<notin> members K) \<and> page_node s' = page_node s"
proof -
  have inv: "mem_inv zs F A L s" using st by (simp add: mem_state_def)
  note az = alloc_zone_Some(1) [OF z]
  from mem_state_alloc [OF st n z] obtain i F' s' L' where
    r: "page_alloc_zone z n s = Inr (pg z b i, s')" "b \<le> i" "i < e" "2 ^ n dvd i"
      "span (i, n) \<subseteq> covered (F z)" "covered F' = covered (F z) - span (i, n)"
      "mem_state zs (F(z := F')) (A(z := insert (i, n) (A z))) L' K s'" "zone_begin s' = zone_begin s"
    by blast
  have inv': "mem_inv zs (F(z := F')) (A(z := insert (i, n) (A z))) L' s'" using r(7) by (simp add: mem_state_def)
  have range: "b \<le> j \<and> j < e" if "j \<in> span (i, n)" for j
    using that r(5) free_block_range [OF inv az] by blast
  have "page_node s j \<noteq> 0 \<and> page_node s j \<notin> members K" if j: "j \<in> span (i, n)" for j
  proof -
    have "page_node s j = pg z b j" using page_node_pg [OF inv az] range [OF j] by blast
    moreover have "j \<notin> covered (A z)" using used_not_free [OF mem_inv_zone(1) [OF inv az]] j r(5) by blast
    moreover have "clients_ok zs A K" using st unfolding mem_state_def by blast
    ultimately show ?thesis
      using range [OF j] az pg_not_NULL [OF mem_inv_zone(3) [OF inv az]] unfolding clients_ok_def by auto
  qed
  moreover have sub: "span (i, n) \<subseteq> free_pages zs F" using r(5) az unfolding free_pages_def by fastforce
  moreover have "i \<in> span (i, n)" by simp
  then have "i \<noteq> 0" using sub st unfolding mem_state_def by (metis subsetD)
  moreover have "page_rep s' (free_pages zs F - span (i, n)) (insert (i, n) (used_blocks zs A)) K"
    using r(7) free_pages_upd [OF inv az r(6)] range used_blocks_insert [OF az] unfolding page_rep_def by fastforce
  ultimately show ?thesis
    using r page_node_same [OF inv inv'] mem_inv_zone(4) [OF inv az] by auto
qed

lemma free_step:
  assumes st: "mem_state zs F A L K s" and blk: "(i, n) \<in> used_blocks zs A"
    and unl: "\<And>j. j \<in> span (i, n) \<Longrightarrow> page_node s j \<notin> members K"
  shows "\<exists>z b e s'. (z, b, e) \<in> set zs \<and> b \<le> i \<and> i < e \<and> i \<noteq> 0 \<and> page_free_zone z (pg z b i) n s = Inr s' \<and>
    page_rep s' (free_pages zs F \<union> span (i, n)) (used_blocks zs A - {(i, n)}) K \<and> page_node s' = page_node s"
proof -
  have inv: "mem_inv zs F A L s" and zero: "0 \<notin> covered (used_blocks zs A)" using st by (simp_all add: mem_state_def)
  obtain z b e where z: "(z, b, e) \<in> set zs" and A: "(i, n) \<in> A z" using blk by (auto simp: used_blocks_def)
  have own: "j \<in> covered (A z)" if "j \<in> span (i, n)" for j using A that unfolding covered_iff by blast
  have range: "b \<le> j \<and> j < e" if "j \<in> span (i, n)" for j
    using own [OF that] free_block_range [OF inv z] by blast
  have i: "i \<in> span (i, n)" by simp
  have "pg z b j \<notin> members K" if "j \<in> span (i, n)" for j
    using unl [OF that] page_node_pg [OF inv z, of j] range [OF that] by simp
  from mem_state_free [OF st z A this] obtain F' s' L' where
    r: "page_free_zone z (pg z b i) n s = Inr s'" "covered F' = covered (F z) \<union> span (i, n)"
      "mem_state zs (F(z := F')) (A(z := A z - {(i, n)})) L' K s'" by blast
  have inv': "mem_inv zs (F(z := F')) (A(z := A z - {(i, n)})) L' s'" using r(3) by (simp add: mem_state_def)
  have "i \<in> covered (used_blocks zs A)" using blk covered_head by blast
  then have "i \<noteq> 0" using zero by metis
  moreover have "page_rep s' (free_pages zs F \<union> span (i, n)) (used_blocks zs A - {(i, n)}) K"
    using r(3) free_pages_add [OF z, where F = F and S = "span (i, n)"] r(2) used_blocks_remove [OF inv z A] unfolding page_rep_def by metis
  ultimately show ?thesis using z range [OF i] r(1) page_node_same [OF inv inv'] by blast
qed

lemma page_rep_disjoint:
  assumes "page_rep s U B K" "x \<in> B"
  shows "y \<in> B \<Longrightarrow> x \<noteq> y \<Longrightarrow> span x \<inter> span y = {}" "span x \<inter> U = {}"
proof -
  obtain zs F A L where st: "mem_state zs F A L K s" and U: "U = free_pages zs F" and B: "B = used_blocks zs A"
    using assms(1) unfolding page_rep_def by blast
  have inv: "mem_inv zs F A L s" using st by (simp add: mem_state_def)
  obtain z b e where z: "(z, b, e) \<in> set zs" and x: "x \<in> A z" using assms(2) B by (auto simp: used_blocks_def)
  note zi = mem_inv_zone(1) [OF inv z]
  have xs: "j \<in> covered (A z)" if "j \<in> span x" for j using that x by (auto simp: covered_def)
  show "span x \<inter> U = {}"
    using xs free_pages_zone(1) [OF inv z] free_block_range [OF inv z] used_not_free [OF zi] U by blast
  assume y: "y \<in> B" "x \<noteq> y"
  obtain z' b' e' where z': "(z', b', e') \<in> set zs" and yA: "y \<in> A z'" using y(1) B by (auto simp: used_blocks_def)
  have ys: "j \<in> covered (A z')" if "j \<in> span y" for j using that yA by (auto simp: covered_def)
  show "span x \<inter> span y = {}"
  proof (rule ccontr)
    assume "span x \<inter> span y \<noteq> {}"
    then obtain j where j: "j \<in> span x" "j \<in> span y" by blast
    have "zone_of j zs = Some (z, b, e)" "zone_of j zs = Some (z', b', e')"
      using zone_of_in [OF inv z] zone_of_in [OF inv z'] free_block_range [OF inv z] free_block_range [OF inv z']
        xs [OF j(1)] ys [OF j(2)] by blast+
    then have "y \<in> F z \<union> A z" "x \<in> F z \<union> A z" using x yA by auto
    moreover have "blocks_ok b e (F z \<union> A z)" using zi by (simp add: zone_inv_def)
    ultimately show False using blocks_ok_overlap [of b e "F z \<union> A z" x y j] j y(2) by blast
  qed
qed

interpretation raw_pages: page_provider page_rep page_node page_node raw_page_alloc raw_page_free
proof unfold_locales
  fix s :: "'a pgs_scheme" and U B K n
  assume "page_rep s U B K" and n: "n \<le> MAX_ORDER"
  then obtain zs F A L where st: "mem_state zs F A L K s" and U: "U = free_pages zs F" and B: "B = used_blocks zs A"
    unfolding page_rep_def by blast
  have inv: "mem_inv zs F A L s" using st by (simp add: mem_state_def)
  show "raw_page_alloc n s = Some (Inr (0, s)) \<or>
    (\<exists>i s'. raw_page_alloc n s = Some (Inr (page_node s i, s')) \<and> page_node s i \<noteq> 0 \<and> 2 ^ n dvd i \<and> span (i, n) \<subseteq> U \<and>
       page_rep s' (U - span (i, n)) (insert (i, n) B) K \<and>
       (\<forall>j \<in> span (i, n). page_node s j \<noteq> 0 \<and> page_node s j \<notin> members K) \<and> page_node s' = page_node s \<and> page_node s' = page_node s)"
  proof (cases "alloc_zone n F zs")
    case (Some x)
    then obtain z b e where z: "alloc_zone n F zs = Some (z, b, e)" by (cases x) auto
    from alloc_step [OF st n z] obtain i s' where
      r: "page_alloc_zone z n s = Inr (pg z b i, s')" "b \<le> i" "i < e" "2 ^ n dvd i" "span (i, n) \<subseteq> U"
        "page_rep s' (U - span (i, n)) (insert (i, n) B) K"
        "\<forall>j \<in> span (i, n). page_node s j \<noteq> 0 \<and> page_node s j \<notin> members K" "page_node s' = page_node s"
      unfolding U B by blast
    moreover have "pg z b i = page_node s i" using page_node_pg [OF inv alloc_zone_Some(1) [OF z] r(2,3)] by simp
    moreover have "page_node s i \<noteq> 0" using r(7) by simp
    ultimately show ?thesis using raw_page_alloc_eq [OF inv n] z by auto
  qed (simp add: raw_page_alloc_eq [OF inv n])
next
  fix s :: "'a pgs_scheme" and U B K i n
  assume "page_rep s U B K" and blk: "(i, n) \<in> B" and unl: "\<And>j. j \<in> span (i, n) \<Longrightarrow> page_node s j \<notin> members K"
  then obtain zs F A L where st: "mem_state zs F A L K s" and U: "U = free_pages zs F" and B: "B = used_blocks zs A"
    unfolding page_rep_def by blast
  have inv: "mem_inv zs F A L s" using st by (simp add: mem_state_def)
  from free_step [OF st blk [unfolded B] unl] obtain z b e s' where
    r: "(z, b, e) \<in> set zs" "b \<le> i" "i < e" "page_free_zone z (pg z b i) n s = Inr s'"
      "page_rep s' (U \<union> span (i, n)) (B - {(i, n)}) K" "page_node s' = page_node s" unfolding U B by blast
  then show "\<exists>s'. raw_page_free (page_node s i) n s = Some (Inr s') \<and> page_rep s' (U \<union> span (i, n)) (B - {(i, n)}) K \<and>
      page_node s' = page_node s \<and> page_node s' = page_node s"
    using raw_page_free_ok [OF inv r(1-3)] page_node_pg [OF inv r(1-3)] by auto
qed (auto simp: raw_page_alloc_def raw_page_free_def dest: page_rep_disjoint)

interpretation pages: page_provider page_rep page_node "\<lambda>s. frame_addr" page_alloc page_free
proof unfold_locales
  fix s :: "'a pgs_scheme" and U B K n
  assume "page_rep s U B K" and n: "n \<le> MAX_ORDER"
  then obtain zs F A L where st: "mem_state zs F A L K s" and U: "U = free_pages zs F" and B: "B = used_blocks zs A"
    unfolding page_rep_def by blast
  have inv: "mem_inv zs F A L s" using st by (simp add: mem_state_def)
  show "page_alloc n s = Some (Inr (0, s)) \<or>
    (\<exists>i s'. page_alloc n s = Some (Inr (frame_addr i, s')) \<and> frame_addr i \<noteq> 0 \<and> 2 ^ n dvd i \<and> span (i, n) \<subseteq> U \<and>
       page_rep s' (U - span (i, n)) (insert (i, n) B) K \<and>
       (\<forall>j \<in> span (i, n). page_node s j \<noteq> 0 \<and> page_node s j \<notin> members K) \<and> page_node s' = page_node s \<and> frame_addr = frame_addr)"
  proof (cases "alloc_zone n F zs")
    case (Some x)
    then obtain z b e where z: "alloc_zone n F zs = Some (z, b, e)" by (cases x) auto
    from alloc_step [OF st n z] obtain i s' where
      r: "page_alloc_zone z n s = Inr (pg z b i, s')" "b \<le> i" "i < e" "i \<noteq> 0" "2 ^ n dvd i" "span (i, n) \<subseteq> U"
        "zone_begin s' z = of_nat b" "page_rep s' (U - span (i, n)) (insert (i, n) B) K"
        "\<forall>j \<in> span (i, n). page_node s j \<noteq> 0 \<and> page_node s j \<notin> members K" "page_node s' = page_node s"
      unfolding U B by blast
    have zin: "(z, b, e) \<in> set zs" by (rule alloc_zone_Some(1) [OF z])
    have "push_bit PAGE_SHIFT (zone_begin s' z + page_diff (pg z b i) z) = frame_addr i"
      using page_index [OF mem_inv_zone(3) [OF inv zin] r(2,3)] r(7) by (simp add: frame_addr_def)
    then have "page_alloc n s = Some (Inr (frame_addr i, s'))" using page_alloc_eq [OF inv n] z r(1) by simp
    moreover have "frame_addr i \<noteq> 0" using frame_addr_0 [OF zone_index_small [OF inv zin r(3)]] r(4) by simp
    ultimately show ?thesis using r(5-10) by blast
  qed (simp add: page_alloc_eq [OF inv n])
next
  fix s :: "'a pgs_scheme" and U B K i n
  assume "page_rep s U B K" and blk: "(i, n) \<in> B" and unl: "\<And>j. j \<in> span (i, n) \<Longrightarrow> page_node s j \<notin> members K"
  then obtain zs F A L where st: "mem_state zs F A L K s" and U: "U = free_pages zs F" and B: "B = used_blocks zs A"
    unfolding page_rep_def by blast
  have inv: "mem_inv zs F A L s" using st by (simp add: mem_state_def)
  from free_step [OF st blk [unfolded B] unl] obtain z b e s' where
    r: "(z, b, e) \<in> set zs" "b \<le> i" "i < e" "i \<noteq> 0" "page_free_zone z (pg z b i) n s = Inr s'"
      "page_rep s' (U \<union> span (i, n)) (B - {(i, n)}) K" "page_node s' = page_node s" unfolding U B by blast
  then show "\<exists>s'. page_free (frame_addr i) n s = Some (Inr s') \<and> page_rep s' (U \<union> span (i, n)) (B - {(i, n)}) K \<and>
      page_node s' = page_node s \<and> frame_addr = frame_addr"
    using page_free_ok [OF inv r(1-4)] by auto
qed (auto simp: page_alloc_def page_free_def dest: page_rep_disjoint)

end
