(* ===== verification/PageSetup.thy ===== *)
theory PageSetup
  imports PageIface
begin

text \<open>
  How the allocator gets its memory: \<^verbatim>\<open>__page_alloc_zone_setup\<close> links an empty zone into the list of
  zones, \<^verbatim>\<open>__page_alloc_zone_free\<close> cuts a free range into the largest aligned blocks. Together they
  establish the contract of \<open>PageIface\<close>.
\<close>

section \<open>An empty zone\<close>

text \<open>\<^verbatim>\<open>memset\<close> over the first \<open>k\<close> page descriptors of the zone: links and flags become 0.\<close>

definition zero_pages :: "addr \<Rightarrow> nat \<Rightarrow> 'a pgs_scheme \<Rightarrow> 'a pgs_scheme" where
  "zero_pages zone k s = fold (\<lambda>i s. let p = page_at zone (of_nat i) in
     s\<lparr>ll := set_next p NULL (set_prev p NULL (ll s)), flags := (flags s)(p := 0)\<rparr>) [0..<k] s"

text \<open>
  The part of \<^verbatim>\<open>__page_alloc_zone_setup\<close> after the zone's memory was obtained. The length given to
  \<^verbatim>\<open>memset\<close> is \<^verbatim>\<open>zone->end - zone->end\<close>.
\<close>

definition init_orders :: "addr \<Rightarrow> lheap \<Rightarrow> lheap" where
  "init_orders zone h = fold (\<lambda>i h. list_init (order_head zone i) h) [0..<MAX_ORDER + 1] h"

definition zone_setup_at :: "addr \<Rightarrow> u64 \<Rightarrow> u64 \<Rightarrow> 'a pgs_scheme \<Rightarrow> 'a pgs_scheme" where
  "zone_setup_at zone first fin s =
     (let s = spin_setup s;
          s = zero_pages zone (unat (zone_end s zone - zone_end s zone)) s;
          s = s\<lparr>zone_begin := (zone_begin s)(zone := first)\<rparr>;
          s = s\<lparr>zone_end := (zone_end s)(zone := fin)\<rparr>;
          s = s\<lparr>ll := init_orders zone (ll s)\<rparr>
      in s\<lparr>ll := list_add_tail (zone_ll zone) (zones_head s) (ll s)\<rparr>)"

definition with_heads :: "addr set \<Rightarrow> lfamily \<Rightarrow> lfamily" where
  "with_heads H L = (\<lambda>a. if a \<in> H then Some [] else L a)"

lemma members_with_heads: "H \<inter> members L = {} \<Longrightarrow> members (with_heads H L) = H \<union> members L"
  unfolding members_def with_heads_def by (fastforce split: if_splits)

lemma lists_init_heads:
  assumes "heap_lists h L" "distinct hs" "NULL \<notin> set hs" "set hs \<inter> members L = {}"
  shows "heap_lists (fold list_init hs h) (with_heads (set hs) L)"
  using assms
proof (induction hs arbitrary: h L)
  case (Cons a hs)
  have "heap_lists (list_init a h) (L(a \<mapsto> []))" using kl.rep_init [OF Cons.prems(1)] Cons.prems by auto
  moreover have up: "L(a \<mapsto> []) = with_heads {a} L" by (auto simp: with_heads_def)
  moreover have "set hs \<inter> members (with_heads {a} L) = {}"
    using Cons.prems members_with_heads [of "{a}" L] by auto
  moreover have "with_heads (set hs) (with_heads {a} L) = with_heads (set (a # hs)) L"
    by (auto simp: with_heads_def)
  ultimately show ?case using Cons.IH [of "list_init a h" "with_heads {a} L"] Cons.prems by simp
qed (simp add: with_heads_def)

lemma init_orders_lists:
  assumes hl: "heap_lists h L" and fits: "zone_fits z b e"
    and fresh: "\<And>a. a \<in> members L \<Longrightarrow> unat a \<notin> zone_bytes (z, b, e)"
  shows "heap_lists (init_orders z h) (with_heads (order_head z ` {..MAX_ORDER}) L)"
    "members (with_heads (order_head z ` {..MAX_ORDER}) L) = order_head z ` {..MAX_ORDER} \<union> members L"
proof -
  let ?hs = "map (order_head z) [0..<MAX_ORDER + 1]"
  have set: "set ?hs = order_head z ` {..MAX_ORDER}" by (auto simp: atLeast0LessThan lessThan_Suc_atMost)
  have dj: "set ?hs \<inter> members L = {}" unfolding set using fresh order_head_in_bytes [OF fits] by fastforce
  have "inj_on (order_head z) (set [0..<MAX_ORDER + 1])"
    using order_head_inj [OF fits] by (auto simp: inj_on_def simp del: upt_Suc)
  then have "distinct ?hs" by (simp only: distinct_map distinct_upt simp_thms)
  moreover have "order_head z k \<noteq> NULL" if "k \<le> MAX_ORDER" for k
    using unat_order_head [OF fits, of k] that by auto
  then have "NULL \<notin> set ?hs" unfolding set by fastforce
  ultimately have "heap_lists (fold list_init ?hs h) (with_heads (set ?hs) L)"
    using lists_init_heads [OF hl] dj by blast
  then show "heap_lists (init_orders z h) (with_heads (order_head z ` {..MAX_ORDER}) L)"
    unfolding set init_orders_def fold_map by (simp add: comp_def)
  show "members (with_heads (order_head z ` {..MAX_ORDER}) L) = order_head z ` {..MAX_ORDER} \<union> members L"
    using members_with_heads dj unfolding set by blast
qed

definition zone_fresh :: "addr \<Rightarrow> nat \<Rightarrow> nat \<Rightarrow> zdesc list \<Rightarrow> lfamily \<Rightarrow> 'a pgs_scheme \<Rightarrow> bool" where
  "zone_fresh z b e zs L s \<longleftrightarrow> zone_fits z b e \<and> (\<forall>y \<in> set zs. separate (z, b, e) y) \<and>
     (\<forall>a \<in> members L. unat a \<notin> zone_bytes (z, b, e)) \<and>
     (\<forall>i. b \<le> i \<longrightarrow> i < e \<longrightarrow> \<not> page_is_free (pg z b i) s)"

lemma zone_setup_at_eq:
  "zone_setup_at z f t s = s\<lparr>zone_begin := (zone_begin s)(z := f), zone_end := (zone_end s)(z := t),
     ll := list_add_tail (zone_ll z) (zones_head s) (init_orders z (ll s))\<rparr>"
  by (simp add: zone_setup_at_def spin_setup_def zero_pages_def Let_def)

lemma mem_inv_setup:
  assumes inv: "mem_inv zs F A L s" and fresh: "zone_fresh z b e zs L s"
  defines "H \<equiv> order_head z ` {..MAX_ORDER}"
  defines "L' \<equiv> (with_heads H L)(zones_head s \<mapsto> zone_links zs @ [zone_ll z])"
  shows "mem_inv (zs @ [(z, b, e)]) (F(z := {})) (A(z := {})) L' (zone_setup_at z (of_nat b) (of_nat e) s)"
    "members L' = insert (zone_ll z) (H \<union> members L)"
proof -
  let ?s = "zone_setup_at z (of_nat b) (of_nat e) s" and ?L = "with_heads H L"
  have fits: "zone_fits z b e" and sep: "\<And>y. y \<in> set zs \<Longrightarrow> separate (z, b, e) y"
    and mem: "\<And>a. a \<in> members L \<Longrightarrow> unat a \<notin> zone_bytes (z, b, e)"
    using fresh unfolding zone_fresh_def by simp_all
  have hl: "heap_lists (ll s) L" and zl: "L (zones_head s) = Some (zone_links zs)"
    using inv by (auto simp: mem_inv_def)
  note io = init_orders_lists [OF hl fits mem, folded H_def]
  have Hb: "unat a \<in> zone_bytes (z, b, e)" if "a \<in> H" for a
    using that order_head_in_bytes [OF fits] unfolding H_def by auto
  have zh: "unat (zones_head s) \<notin> zone_bytes (z, b, e)" using members_Some [of L, OF zl] mem by auto
  then have L1: "?L (zones_head s) = Some (zone_links zs)" using Hb zl by (auto simp: with_heads_def)
  have "zone_ll z \<noteq> order_head z n" if "n \<le> MAX_ORDER" for n
    using zone_ll_bytes(1) [OF fits] unat_order_head [OF fits, of n] that by auto
  then have "zone_ll z \<notin> H" unfolding H_def by auto
  moreover have "zone_ll z \<notin> members L" using mem [of "zone_ll z"] zone_ll_bytes(2) [OF fits] by blast
  ultimately have ll: "zone_ll z \<notin> members ?L" by (simp add: io(2))
  have ll0: "zone_ll z \<noteq> NULL"
  proof
    assume "zone_ll z = NULL"
    then show False using zone_ll_bytes(1) [OF fits] by simp
  qed
  have hl': "heap_lists (ll ?s) L'"
    using kl.rep_add_tail [OF io(1) L1 ll0 ll] by (simp add: L'_def zone_setup_at_eq)
  show mem': "members L' = insert (zone_ll z) (H \<union> members L)"
    using kl.members_add_tail [of ?L "zones_head s" "zone_links zs" "zone_ll z"] L1 io(2) by (simp add: L'_def)
  have own: "zone_inv z b e {} {} {} L' ?s"
  proof -
    have "L' (order_head z n) = Some []" if "n \<le> MAX_ORDER" for n
      using that zh Hb [of "order_head z n"] by (auto simp: L'_def with_heads_def H_def)
    moreover have "flags_ok z b e {} {} {} ?s"
      using fresh by (simp add: flags_ok_def zone_fresh_def page_is_free_def zone_setup_at_eq)
    ultimately show ?thesis
      using fits hl' by (simp add: zone_inv_def free_lists_def unlinked_def covered_empty blocks_ok_def zone_setup_at_eq)
  qed
  have other: "zone_inv z2 b2 e2 (F z2) (A z2) {} L' ?s \<and> z2 \<noteq> z" if z2: "(z2, b2, e2) \<in> set zs" for z2 b2 e2
  proof -
    have sb: "x \<notin> zone_bytes (z, b, e)" if "x \<in> zone_bytes (z2, b2, e2)" for x
      using sep [OF z2] that by (auto simp: separate_def)
    note zi = mem_inv_zone [OF inv z2]
    have ne: "z2 \<noteq> z" using sb [of "unat z2"] by (auto simp: zone_bytes_def)
    have "zone_inv z2 b2 e2 (F z2) (A z2) {} L' ?s"
    proof (rule zone_inv_cong [OF zi(1) hl'])
      show "L' (order_head z2 n) = L (order_head z2 n)" if "n \<le> MAX_ORDER" for n
        using sb [OF order_head_in_bytes [OF zi(3) that]] order_head_in_bytes [OF zi(3) that] zi(2) Hb
        by (auto simp: L'_def with_heads_def)
      show "pg z2 b2 i \<in> members L" if i: "b2 \<le> i" "i < e2" "pg z2 b2 i \<in> members L'" for i
        using i(3) sb [OF pg_in_bytes [OF zi(3) i(1,2)]] Hb zone_ll_bytes(2) [OF fits] unfolding mem' by auto
    qed (use ne in \<open>simp_all add: zone_setup_at_eq\<close>)
    then show ?thesis using ne by simp
  qed
  have sep': "separate y (z, b, e)" if "y \<in> set zs" for y using sep [OF that] by (auto simp: separate_def)
  have "L' (zones_head ?s) = Some (zone_links (zs @ [(z, b, e)]))" by (simp add: L'_def zone_setup_at_eq)
  moreover have "unat (zones_head ?s) \<notin> zone_bytes y" if "y \<in> set (zs @ [(z, b, e)])" for y
  proof -
    obtain z2 b2 e2 where y: "y = (z2, b2, e2)" by (cases y)
    show ?thesis using that zh mem_inv_zone(2) [OF inv, of z2 b2 e2] unfolding y by (auto simp: zone_setup_at_eq)
  qed
  moreover have "zone_inv z2 b2 e2 ((F(z := {})) z2) ((A(z := {})) z2) {} L' ?s"
    if "(z2, b2, e2) \<in> set (zs @ [(z, b, e)])" for z2 b2 e2
    using that own other by auto
  moreover have "separate x y" if "x \<in> set (zs @ [(z, b, e)])" "y \<in> set (zs @ [(z, b, e)])" "x \<noteq> y" for x y
  proof -
    consider "x \<in> set zs" "y \<in> set zs" | "x \<in> set zs" "y = (z, b, e)" | "x = (z, b, e)" "y \<in> set zs"
      using \<open>x \<in> set (zs @ [(z, b, e)])\<close> \<open>y \<in> set (zs @ [(z, b, e)])\<close> \<open>x \<noteq> y\<close> by fastforce
    then show ?thesis using mem_inv_sep [OF inv _ _ \<open>x \<noteq> y\<close>] sep sep' by cases blast+
  qed
  ultimately show "mem_inv (zs @ [(z, b, e)]) (F(z := {})) (A(z := {})) L' ?s"
    using hl' unfolding mem_inv_def by blast
qed

lemma mem_state_setup:
  assumes st: "mem_state zs F A L K s" and fresh: "zone_fresh z b e zs L s"
  shows "\<exists>L'. mem_state (zs @ [(z, b, e)]) (F(z := {})) (A(z := {})) L' K (zone_setup_at z (of_nat b) (of_nat e) s) \<and>
    members L' = insert (zone_ll z) (order_head z ` {..MAX_ORDER} \<union> members L)"
proof -
  let ?s = "zone_setup_at z (of_nat b) (of_nat e) s" and ?zs = "zs @ [(z, b, e)]"
  let ?H = "order_head z ` {..MAX_ORDER}"
  let ?L = "(with_heads ?H L)(zones_head s \<mapsto> zone_links zs @ [zone_ll z])"
  have inv: "mem_inv zs F A L s" and K: "K = L |` (- alloc_heads zs s)" and co: "\<forall>(z, b, e) \<in> set zs. coalesced (F z)"
    and cl: "clients_ok zs A K" and zero: "0 \<notin> free_pages zs F" "0 \<notin> covered (used_blocks zs A)"
    using st unfolding mem_state_def by blast+
  have fits: "zone_fits z b e" and mem: "\<And>a. a \<in> members L \<Longrightarrow> unat a \<notin> zone_bytes (z, b, e)"
    using fresh unfolding zone_fresh_def by simp_all
  have ne: "z' \<noteq> z" if "(z', b', e') \<in> set zs" for z' b' e'
  proof -
    have "separate (z, b, e) (z', b', e')" using fresh that by (simp add: zone_fresh_def)
    moreover have "unat z' \<in> zone_bytes (z', b', e')" "unat z \<in> zone_bytes (z, b, e)" by (simp_all add: zone_bytes_def)
    ultimately show ?thesis by (auto simp: separate_def)
  qed
  have "L a = None" if "a \<in> ?H" for a
  proof (rule ccontr)
    assume "L a \<noteq> None"
    then obtain xs where "L a = Some xs" by auto
    then have "a \<in> members L" using members_Some [of L a xs] by auto
    then show False using mem that order_head_in_bytes [OF fits] by fastforce
  qed
  moreover have heads: "alloc_heads ?zs ?s = alloc_heads zs s \<union> ?H" by (auto simp: alloc_heads_def zone_setup_at_eq)
  ultimately have K': "?L |` (- alloc_heads ?zs ?s) = K"
    unfolding heads K by (auto simp: restrict_map_def with_heads_def alloc_heads_def)
  have "members K \<subseteq> members L" unfolding K members_def by (auto simp: restrict_map_def split: if_splits)
  then have "pg z b i \<notin> members K" if "b \<le> i" "i < e" for i
    using mem [of "pg z b i"] pg_in_bytes [OF fits that] by blast
  then have "clients_ok ?zs (A(z := {})) K" using cl ne unfolding clients_ok_def by (auto split: if_splits)
  moreover have "free_pages ?zs (F(z := {})) = free_pages zs F"
    using ne unfolding free_pages_def by (auto simp: covered_empty split: if_splits)
  moreover have "covered (used_blocks ?zs (A(z := {}))) = covered (used_blocks zs A)"
    using ne unfolding covered_used_blocks by (auto simp: covered_empty split: if_splits)
  moreover have "\<forall>(z', b, e) \<in> set ?zs. coalesced ((F(z := {})) z')"
  proof -
    have "coalesced {}" by (simp add: coalesced_def)
    then show ?thesis using co by (auto split: if_splits)
  qed
  ultimately have "mem_state ?zs (F(z := {})) (A(z := {})) ?L K ?s"
    using mem_inv_setup(1) [OF inv fresh] K' zero unfolding mem_state_def by simp
  then show ?thesis using mem_inv_setup(2) [OF inv fresh] by blast
qed

section \<open>Cutting a free range into blocks\<close>

lemma zone_free_order_ok:
  assumes "p < 2 ^ 53" "f < 2 ^ 53"
  shows "m \<le> MAX_ORDER \<Longrightarrow> 2 ^ m dvd p \<Longrightarrow> p + 2 ^ m \<le> f \<Longrightarrow>
    \<exists>k. zone_free_order (of_nat p) (of_nat f) m = k \<and> k \<le> MAX_ORDER \<and> 2 ^ k dvd p \<and> p + 2 ^ k \<le> f \<and>
      (k < MAX_ORDER \<longrightarrow> \<not> (2 ^ Suc k dvd p \<and> p + 2 ^ Suc k \<le> f))"
proof (induction "MAX_ORDER - m" arbitrary: m)
  case 0
  then show ?case by (subst zone_free_order.simps) simp
next
  case (Suc x)
  then have m: "m < MAX_ORDER" by simp
  have bit: "(of_nat p :: u64) AND push_bit m 1 \<noteq> 0 \<longleftrightarrow> bit p m"
  proof -
    have "bit (of_nat p :: u64) m \<longleftrightarrow> bit p m" using m by (simp add: bit_of_nat_iff)
    then show ?thesis by (simp add: and_exp_eq_0_iff_not_bit push_bit_eq_mult)
  qed
  have small: "(2::nat) ^ Suc m \<le> 2 ^ 18" using m by (intro power_increasing) auto
  have "(of_nat p :: u64) + push_bit (m + 1) 1 = of_nat (p + 2 ^ Suc m)" by (simp add: push_bit_eq_mult)
  then have lt: "of_nat f < (of_nat p :: u64) + push_bit (m + 1) 1 \<longleftrightarrow> f < p + 2 ^ Suc m"
    using of_nat64_less [of f "p + 2 ^ Suc m"] assms small by simp
  have dvd: "2 ^ Suc m dvd p \<longleftrightarrow> \<not> bit p m" using buddy_cases [OF Suc.prems(2)] Suc.prems(2)
    by (auto simp: bit_iff_odd elim!: dvdE)
  show ?case
  proof (cases "2 ^ Suc m dvd p \<and> p + 2 ^ Suc m \<le> f")
    case True
    then have "zone_free_order (of_nat p) (of_nat f) m = zone_free_order (of_nat p) (of_nat f) (Suc m)"
      using m bit lt dvd by (subst zone_free_order.simps) simp
    then show ?thesis using Suc.hyps(1) [of "Suc m"] Suc.hyps(2) True m by simp
  next
    case False
    then have "zone_free_order (of_nat p) (of_nat f) m = m"
      using m bit lt dvd by (subst zone_free_order.simps) auto
    then show ?thesis using False Suc.prems m by auto
  qed
qed

text \<open>
  Between two turns of the loop: no free block that ends at the next page \<open>p\<close> could still be
  merged with the block the loop cuts off there.
\<close>

definition no_merge_at :: "nat \<Rightarrow> nat \<Rightarrow> block set \<Rightarrow> bool" where
  "no_merge_at p f F \<longleftrightarrow>
     (\<forall>q k. (q, k) \<in> F \<longrightarrow> q + 2 ^ k = p \<longrightarrow> k < MAX_ORDER \<longrightarrow> 2 ^ Suc k dvd q \<longrightarrow> f < q + 2 ^ Suc k)"

lemma cut_coalesced:
  assumes F: "blocks_ok b e F" "coalesced F" "no_merge_at p f F" "f \<notin> covered F"
    and new: "{p..<f} \<inter> covered F = {}"
    and k: "2 ^ k dvd p" "p + 2 ^ k \<le> f" "k < MAX_ORDER \<longrightarrow> \<not> (2 ^ Suc k dvd p \<and> p + 2 ^ Suc k \<le> f)"
  shows "coalesced (insert (p, k) F)" "no_merge_at (p + 2 ^ k) f (insert (p, k) F)"
    "f \<notin> covered (insert (p, k) F)" "{p + 2 ^ k..<f} \<inter> covered (insert (p, k) F) = {}"
proof -
  show "f \<notin> covered (insert (p, k) F)" using F(4) k(2) by (auto simp: covered_insert)
  show "{p + 2 ^ k..<f} \<inter> covered (insert (p, k) F) = {}"
  proof -
    have "x \<notin> covered F" if "p + 2 ^ k \<le> x" "x < f" for x
    proof -
      have "x \<in> {p..<f}" using that le_trans [OF le_add1 that(1)] by simp
      then show ?thesis using new by blast
    qed
    then show ?thesis unfolding covered_insert by auto
  qed
  have "(buddy p k, k) \<notin> F" if "k < MAX_ORDER"
  proof
    assume bF: "(buddy p k, k) \<in> F"
    show False
      using buddy_cases [OF k(1)]
    proof (elim disjE conjE)
      assume up: "2 ^ Suc k dvd p" "buddy p k = p + 2 ^ k"
      then have "f < p + 2 ^ Suc k" using k(3) that by auto
      then have "f \<in> span (buddy p k, k)" using up(2) k(2) by simp
      then show False using F(4) bF unfolding covered_iff by blast
    next
      assume lo: "2 ^ k \<le> p" "2 ^ Suc k dvd p - 2 ^ k" "buddy p k = p - 2 ^ k"
      then have "f < p - 2 ^ k + 2 ^ Suc k"
        using F(3) bF that unfolding no_merge_at_def by (metis le_add_diff_inverse2)
      then show False using k(2) lo(1) by simp
    qed
  qed
  then show "coalesced (insert (p, k) F)" by (intro coalesced_insert [OF F(2) subset_refl]) blast
  show "no_merge_at (p + 2 ^ k) f (insert (p, k) F)"
    unfolding no_merge_at_def
  proof (intro allI impI)
    fix q j
    assume q: "(q, j) \<in> insert (p, k) F" "q + 2 ^ j = p + 2 ^ k" "j < MAX_ORDER" "2 ^ Suc j dvd q"
    obtain x y where xy: "(2::nat) ^ j = Suc x" "(2::nat) ^ k = Suc y" by (metis not0_implies_Suc power_not_zero zero_neq_numeral)
    then have "p + 2 ^ k - 1 \<in> span (q, j)" "p + 2 ^ k - 1 \<in> {p..<f}" using q(2) k(2) unfolding span_iff by auto
    then have "p + 2 ^ k - 1 \<notin> covered F" "p + 2 ^ k - 1 \<in> span (q, j)" using new by blast+
    then have "(q, j) \<notin> F" unfolding covered_iff by blast
    then have "q = p" "j = k" using q(1) by auto
    then show "f < q + 2 ^ Suc j" using k(3) q(3,4) by auto
  qed
qed

text \<open>One turn: the block at \<open>p\<close> is new memory for the allocator.\<close>

lemma mem_state_adopt:
  assumes st: "mem_state zs F A L K s" and z: "(z, b, e) \<in> set zs" and ok: "block_ok b e (p, k)" and p: "p \<noteq> 0"
    and new: "span (p, k) \<inter> (covered (F z) \<union> covered (A z)) = {}" and co: "coalesced (insert (p, k) (F z))"
  defines "s' \<equiv> mark_free (pg z b p) k (s\<lparr>ll := list_add_tail (pg z b p) (order_head z k) (ll s)\<rparr>)"
  shows "\<exists>L'. mem_state zs (F(z := insert (p, k) (F z))) A L' K s'"
proof -
  have inv: "mem_inv zs F A L s" and cl: "clients_ok zs A K" using st unfolding mem_state_def by blast+
  note zi = mem_inv_zone(1) [OF inv z]
  have range: "b \<le> j \<and> j < e" if "j \<in> span (p, k)" for j using that ok by (auto simp: block_ok_def)
  have unl: "pg z b j \<notin> members L" if j: "j \<in> span (p, k)" for j
  proof
    assume "pg z b j \<in> members L"
    then have "pg z b j \<in> members K" using used_page_client [OF st z] range [OF j] new j by blast
    then have "j \<in> covered (A z)" using cl z range [OF j] unfolding clients_ok_def by blast
    then show False using new j by blast
  qed
  have "covered (F z \<union> A z \<union> {}) = covered (F z) \<union> covered (A z)" by (simp add: covered_def)
  then have "span (p, k) \<inter> covered (F z \<union> A z \<union> {}) = {}" using new by blast
  then have "zone_inv z b e (F z) (A z) {(p, k)} L s" using zone_inv_adopt(1) [OF zi ok _ unl] by blast
  then obtain L' where L': "zone_inv z b e (insert (p, k) (F z)) (A z) {} L' s'" "zone_frame z b e L s L' s'"
    using zone_inv_list_add_tail [of z b e "F z" "A z" p k "{}" L s] unfolding s'_def by blast
  have "mem_inv zs (F(z := insert (p, k) (F z))) (A(z := A z)) L' s'" by (rule mem_inv_update [OF inv z L'])
  moreover have "0 \<notin> span (p, k)" using p by simp
  then have "0 \<notin> covered (insert (p, k) (F z))" using mem_state_zero [OF st z] by (simp add: covered_insert)
  moreover have "j \<in> covered (A z)" if "b \<le> j" "j < e" "pg z b j \<in> members K" for j
    using cl z that unfolding clients_ok_def by blast
  ultimately have "mem_state zs (F(z := insert (p, k) (F z))) (A(z := A z)) L' K s'"
    using mem_state_update [OF st z _ L'(2) co] mem_state_zero [OF st z] by blast
  then show ?thesis by (metis fun_upd_triv)
qed

lemma zone_free_loop_ok:
  assumes "mem_state zs F A L K s" and z: "(z, b, e) \<in> set zs" and "b \<le> p" "p \<le> f" "f \<le> e" "p \<noteq> 0"
    and "{p..<f} \<inter> (covered (F z) \<union> covered (A z)) = {}" "no_merge_at p f (F z)" "f \<notin> covered (F z)"
  shows "\<exists>F' L' s'. zone_free_loop z (of_nat p) (of_nat f) s = Some (Inr s') \<and>
    covered F' = covered (F z) \<union> {p..<f} \<and> mem_state zs (F(z := F')) A L' K s'"
  using assms(1,3-9)
proof (induction "f - p" arbitrary: p F L s rule: less_induct)
  case less
  note st = less.prems(1)
  have inv: "mem_inv zs F A L s" using st by (simp add: mem_state_def)
  show ?case
  proof (cases "p = f")
    case True
    then have "zone_free_loop z (of_nat p) (of_nat f) s = Some (Inr s)" "covered (F z) = covered (F z) \<union> {p..<f}"
      by (simp_all add: zone_free_loop.simps)
    moreover have "mem_state zs (F(z := F z)) A L K s" using st by simp
    ultimately show ?thesis by blast
  next
    case False
    then have pf: "p < f" using less.prems(3) by simp
    have small: "p < 2 ^ 53" "f < 2 ^ 53" "e \<le> 2 ^ 52"
      using mem_inv_zone(3) [OF inv z] pf less.prems(4) by (auto simp: zone_fits_def)
    obtain k where k: "zone_free_order (of_nat p) (of_nat f) 0 = k" "k \<le> MAX_ORDER" "2 ^ k dvd p" "p + 2 ^ k \<le> f"
      "k < MAX_ORDER \<longrightarrow> \<not> (2 ^ Suc k dvd p \<and> p + 2 ^ Suc k \<le> f)"
      using zone_free_order_ok [OF small(1,2), of 0] pf by auto
    let ?F = "insert (p, k) (F z)"
    let ?s = "mark_free (pg z b p) k (s\<lparr>ll := list_add_tail (pg z b p) (order_head z k) (ll s)\<rparr>)"
    have ok: "blocks_ok b e (F z)" "coalesced (F z)"
      using mem_inv_zone(1) [OF inv z] st z by (auto simp: zone_inv_def blocks_ok_def mem_state_def)
    have new: "{p..<f} \<inter> covered (F z) = {}" using less.prems(6) by blast
    note cut = cut_coalesced [OF ok less.prems(7,8) new k(3-5)]
    have sp: "span (p, k) \<subseteq> {p..<f}" using k(4) by auto
    have "block_ok b e (p, k)" using less.prems(2,4) k by (simp add: block_ok_def)
    then obtain L1 where st1: "mem_state zs (F(z := ?F)) A L1 K ?s"
      using mem_state_adopt [OF st z _ less.prems(5) _ cut(1)] sp less.prems(6) by blast
    have "page_at z (of_nat p - zone_begin s z) = pg z b p"
      using page_at_pg [OF less.prems(2)] mem_inv_zone(4) [OF inv z] by simp
    moreover obtain u where "page_set_order (pg z b p) k (s\<lparr>ll := list_add_tail (pg z b p) (order_head z k) (ll s)\<rparr>) = Inr u"
      "page_set_free (pg z b p) u = ?s"
      using k(2) by (simp add: page_set_order_def page_set_free_def mark_free_def)
    moreover have "(of_nat p :: u64) \<noteq> of_nat f" using of_nat64_eq [of p f] small pf by simp
    ultimately have step: "zone_free_loop z (of_nat p) (of_nat f) s = zone_free_loop z (of_nat (p + 2 ^ k)) (of_nat f) ?s"
      using k(1) by (subst zone_free_loop.simps) (simp add: Let_def push_bit_eq_mult)
    have rest: "{p + 2 ^ k..<f} \<inter> (covered ((F(z := ?F)) z) \<union> covered (A z)) = {}"
    proof -
      have "{p + 2 ^ k..<f} \<subseteq> {p..<f}" using le_add1 [of p "2 ^ k"] by (intro subsetI) simp
      moreover have "(F(z := ?F)) z = ?F" by simp
      ultimately show ?thesis using cut(4) less.prems(6) by (simp only:) blast
    qed
    have dec: "f - (p + 2 ^ k) < f - p" using pf by (simp add: diff_less_mono2)
    have at: "(F(z := ?F)) z = ?F" by simp
    have "b \<le> p + 2 ^ k" "p + 2 ^ k \<noteq> 0" using less.prems(2) by simp_all
    from less.hyps [OF dec st1 this(1) k(4) less.prems(4) this(2) rest] obtain F' L' s' where
      r: "zone_free_loop z (of_nat (p + 2 ^ k)) (of_nat f) ?s = Some (Inr s')"
        "covered F' = covered ?F \<union> {p + 2 ^ k..<f}" "mem_state zs (F(z := F')) A L' K s'"
      using cut(2,3) unfolding at fun_upd_upd by blast
    have "span (p, k) \<union> {p + 2 ^ k..<f} = {p..<f}"
      using ivl_disj_un_two(3) [OF _ k(4), of p] by (simp add: span_def)
    then have "covered F' = covered (F z) \<union> {p..<f}" using r(2) unfolding covered_insert by blast
    then show ?thesis using r(1,3) step by metis
  qed
qed

section \<open>Giving a range of bytes to its zone\<close>

definition first_page :: "u64 \<Rightarrow> nat" where
  "first_page zbegin = max 1 ((unat zbegin + 4095) div 4096)"

definition end_page :: "u64 \<Rightarrow> nat" where
  "end_page zend = unat zend div 4096"

lemma page_bits: "bit (PAGE_MASK :: u64) n \<longleftrightarrow> n < 12"
proof -
  have "(PAGE_MASK :: u64) = mask 12" by (simp add: mask_eq_exp_minus_1)
  then show ?thesis by (simp only: bit_mask_iff possible_bit_word) auto
qed

lemma drop_page_mask: "drop_bit PAGE_SHIFT (w AND NOT PAGE_MASK) = drop_bit PAGE_SHIFT (w :: u64)"
  by (rule bit_word_eqI) (simp only: bit_drop_bit_eq comp_apply bit_and_iff bit_not_iff page_bits possible_bit_word, use bit_imp_le_length in force)

lemma page_mask_0: "w AND NOT PAGE_MASK = 0 \<longleftrightarrow> unat (w :: u64) div 4096 = 0"
proof -
  have "w AND NOT PAGE_MASK = push_bit PAGE_SHIFT (drop_bit PAGE_SHIFT w)"
    by (rule bit_word_eqI) (auto simp only: bit_push_bit_iff bit_drop_bit_eq comp_apply bit_and_iff bit_not_iff
        page_bits possible_bit_word not_less le_add_diff_inverse)
  moreover have "unat (drop_bit PAGE_SHIFT w) = unat w div 4096" using unat_drop_bit_div [of PAGE_SHIFT w] by simp
  moreover have "w AND NOT PAGE_MASK = 0 \<Longrightarrow> drop_bit PAGE_SHIFT w = 0" using drop_page_mask [of w] by simp
  ultimately show ?thesis by (metis push_bit_of_0 unat_0 unat_eq_zero)
qed

lemma drop_page_div: "drop_bit PAGE_SHIFT w = of_nat (unat (w :: u64) div 4096)"
proof -
  have "drop_bit PAGE_SHIFT w = of_nat (unat (drop_bit PAGE_SHIFT w))" by (simp only: of_nat_unat ucast_id)
  also have "unat (drop_bit PAGE_SHIFT w) = unat w div 4096" using unat_drop_bit_div [of PAGE_SHIFT w] by simp
  finally show ?thesis .
qed

lemma first_page_word:
  assumes "unat zbegin + 4095 < 2 ^ 64"
  shows "(if (zbegin + PAGE_SIZE - 1) AND NOT PAGE_MASK \<noteq> 0
          then drop_bit PAGE_SHIFT ((zbegin + PAGE_SIZE - 1) AND NOT PAGE_MASK) else 1) = (of_nat (first_page zbegin) :: u64)"
proof -
  let ?w = "zbegin + PAGE_SIZE - 1"
  have w: "?w = zbegin + 4095" by simp
  have u: "unat ?w = unat zbegin + 4095" unfolding w using assms by (subst unat_add_no_wrap) simp_all
  note d = drop_page_div [of ?w]
  show ?thesis unfolding drop_page_mask page_mask_0 d u first_page_def by (auto simp: max_def)
qed

lemma raw_page_alloc_zone_free_ok:
  assumes st: "mem_state zs F A L K s" and z: "(z, b, e) \<in> set zs" and wrap: "unat zbegin + 4095 < 2 ^ 64"
    and range: "b \<le> first_page zbegin" "end_page zend \<le> e"
    and new: "{first_page zbegin..<end_page zend} \<inter> (covered (F z) \<union> covered (A z)) = {}"
    and gap: "first_page zbegin - 1 \<notin> covered (F z)" "end_page zend \<notin> covered (F z)"
  shows "\<exists>F' L' s'. raw_page_alloc_zone_free zbegin zend s = Some (Inr s') \<and>
    covered F' = covered (F z) \<union> {first_page zbegin..<end_page zend} \<and> mem_state zs (F(z := F')) A L' K s'"
proof -
  let ?p = "first_page zbegin" and ?f = "end_page zend"
  have inv: "mem_inv zs F A L s" using st by (simp add: mem_state_def)
  have fin: "drop_bit PAGE_SHIFT (zend AND NOT PAGE_MASK) = of_nat ?f"
    unfolding drop_page_mask end_page_def by (rule drop_page_div)
  have "?f < 2 ^ 64" "?p < 2 ^ 64" using unat64_less [of zend] wrap by (auto simp: end_page_def first_page_def)
  note cmp = of_nat64_le [OF this] and small = this
  note defs = raw_page_alloc_zone_free_def first_page_word [OF wrap] fin
  show ?thesis
  proof (cases "?f \<le> ?p")
    case True
    then have "raw_page_alloc_zone_free zbegin zend s = Some (Inr s)"
      unfolding raw_page_alloc_zone_free_def Let_def first_page_word [OF wrap] fin cmp by simp
    moreover have "mem_state zs (F(z := F z)) A L K s" using st by simp
    ultimately show ?thesis using True by (intro exI [of _ "F z"]) auto
  next
    case False
    have pe: "?p < e" using False range(2) by simp
    have "page_alloc_zone_find (of_nat ?p) s = Some z"
      using zone_find_ok [OF inv small(2)] zone_of_in [OF inv z range(1) pe] by simp
    moreover have "z \<noteq> NULL" using mem_inv_zone(3) [OF inv z] by (simp add: zone_fits_def)
    moreover have "\<not> of_nat ?p < zone_begin s z" "\<not> zone_end s z \<le> of_nat ?p"
      using zone_bounds(3,4) [OF inv z small(2)] range(1) pe by simp_all
    moreover have "\<not> of_nat ?f \<le> zone_begin s z" "\<not> zone_end s z < of_nat ?f"
      using mem_inv_zone(3-5) [OF inv z] small(1) False range of_nat64_less [of e ?f] of_nat64_le [of ?f b]
      by (auto simp: zone_fits_def)
    ultimately have eq: "raw_page_alloc_zone_free zbegin zend s = zone_free_loop z (of_nat ?p) (of_nat ?f) s"
      unfolding raw_page_alloc_zone_free_def Let_def first_page_word [OF wrap] fin cmp
      using False by (simp only: if_False option.case disj_not1 simp_thms)
    have "no_merge_at ?p ?f (F z)"
      unfolding no_merge_at_def
    proof (intro allI impI)
      fix q k
      assume q: "(q, k) \<in> F z" "q + 2 ^ k = ?p"
      moreover have "(1::nat) \<le> 2 ^ k" by simp
      ultimately have "?p - 1 \<in> span (q, k)" unfolding span_iff by linarith
      then show "?f < q + 2 ^ Suc k" using q(1) gap(1) unfolding covered_iff by blast
    qed
    moreover have "?p \<noteq> 0" by (simp add: first_page_def)
    ultimately show ?thesis
      unfolding eq using zone_free_loop_ok [OF st z range(1) _ range(2) _ new _ gap(2)] False by simp
  qed
qed

end
