(* ===== verification/PageProps.thy ===== *)
theory PageProps
  imports PageSetup
begin

text \<open>
  The properties of the page allocator, stated on its entry points, and a small booted allocator
  on which they are exercised: one zone for the pages 4 to 11, all of them free.
\<close>

section \<open>Boot\<close>

text \<open>\<^verbatim>\<open>list_init(&page_alloc_zones)\<close>, the first step of \<^verbatim>\<open>page_alloc_setup\<close>.\<close>

lemma mem_state_init:
  assumes "heap_lists (ll s) K" "zones_head s \<noteq> NULL" "zones_head s \<notin> members K"
  shows "mem_state [] F A (K(zones_head s \<mapsto> [])) K (s\<lparr>ll := list_init (zones_head s) (ll s)\<rparr>)"
proof -
  have "K (zones_head s) = None"
  proof (rule ccontr)
    assume "K (zones_head s) \<noteq> None"
    then obtain xs where "K (zones_head s) = Some xs" by auto
    then show False using assms(3) members_Some [of K "zones_head s" xs] by auto
  qed
  then have "K = K(zones_head s \<mapsto> []) |` (- {zones_head s})" by (auto simp: restrict_map_def)
  moreover have "heap_lists (list_init (zones_head s) (ll s)) (K(zones_head s \<mapsto> []))"
    using kl.rep_init [OF assms] .
  ultimately show ?thesis
    by (auto simp: mem_state_def mem_inv_def alloc_heads_def clients_ok_def free_pages_def used_blocks_def covered_empty)
qed

definition demo_zone :: pgs where
  "demo_zone =
     (let s = \<lparr>ints_on = True, preempt_cnt = 0, ll = \<lparr>lh_next = (\<lambda>_. 0), lh_prev = (\<lambda>_. 0)\<rparr>,
               zones_head = 0x100, zone_begin = (\<lambda>_. 0), zone_end = (\<lambda>_. 0), flags = (\<lambda>_. 0)\<rparr>;
          s = s\<lparr>ll := list_init (zones_head s) (ll s)\<rparr>
      in zone_setup_at 0x1000 4 12 s)"

definition demo_pages :: pgs where
  "demo_pages = projr (the (raw_page_alloc_zone_free 0x3ff0 0xc00f demo_zone))"

lemma demo_zone_state: "\<exists>L. mem_state [(0x1000, 4, 12)] (\<lambda>_. {}) (\<lambda>_. {}) L Map.empty demo_zone \<and>
    members L = insert (zone_ll 0x1000) (order_head 0x1000 ` {..MAX_ORDER} \<union> {0x100})"
proof -
  let ?s = "\<lparr>ints_on = True, preempt_cnt = 0, ll = \<lparr>lh_next = (\<lambda>_. 0), lh_prev = (\<lambda>_. 0)\<rparr>,
      zones_head = 0x100, zone_begin = (\<lambda>_. 0), zone_end = (\<lambda>_. 0), flags = (\<lambda>_. 0)\<rparr> :: pgs"
  let ?t = "?s\<lparr>ll := list_init (zones_head ?s) (ll ?s)\<rparr>"
  have mem: "members (Map.empty(0x100 \<mapsto> [])) = {0x100}" by (auto simp: members_def)
  have "mem_state [] (\<lambda>_. {}) (\<lambda>_. {}) (Map.empty(zones_head ?s \<mapsto> [])) Map.empty ?t"
    by (rule mem_state_init) (auto simp: heap_lists_def members_def)
  then have st: "mem_state [] (\<lambda>_. {}) (\<lambda>_. {}) (Map.empty(0x100 \<mapsto> [])) Map.empty ?t" by simp
  have fresh: "zone_fresh 0x1000 4 12 [] (Map.empty(0x100 \<mapsto> [])) ?t"
    unfolding zone_fresh_def mem by (simp add: zone_fits_def zone_bytes_def page_is_free_def)
  show ?thesis
    using mem_state_setup [OF st fresh] unfolding mem by (auto simp: demo_zone_def Let_def fun_upd_def)
qed

lemma demo_bounds: "first_page 0x3ff0 = 4" "end_page 0xc00f = 12" "unat (0x3ff0 :: u64) + 4095 < 2 ^ 64"
  by (simp_all add: first_page_def end_page_def)

lemma demo_pages_state:
  obtains F L where "mem_state [(0x1000, 4, 12)] F (\<lambda>_. {}) L Map.empty demo_pages" "covered (F 0x1000) = {4..<12}"
proof -
  obtain L where st: "mem_state [(0x1000, 4, 12)] (\<lambda>_. {}) (\<lambda>_. {}) L Map.empty demo_zone"
    using demo_zone_state by blast
  have "\<exists>F' L' s'. raw_page_alloc_zone_free 0x3ff0 0xc00f demo_zone = Some (Inr s') \<and>
      covered F' = {4..<12} \<and> mem_state [(0x1000, 4, 12)] ((\<lambda>_. {})(0x1000 := F')) (\<lambda>_. {}) L' Map.empty s'"
    using raw_page_alloc_zone_free_ok [OF st, where z = "0x1000" and b = 4 and e = 12 and zbegin = "0x3ff0" and zend = "0xc00f"]
    by (simp add: demo_bounds covered_empty)
  then obtain F' L' s' where "raw_page_alloc_zone_free 0x3ff0 0xc00f demo_zone = Some (Inr s')"
    "covered F' = {4..<12}" "mem_state [(0x1000, 4, 12)] ((\<lambda>_. {})(0x1000 := F')) (\<lambda>_. {}) L' Map.empty s'"
    by blast
  then show thesis by (intro that [of "(\<lambda>_. {})(0x1000 := F')" L']) (simp_all add: demo_pages_def)
qed

lemma demo_pages_rep: "page_rep demo_pages {4..<12} {} Map.empty"
proof (rule demo_pages_state)
  fix F L
  assume "mem_state [(0x1000, 4, 12)] F (\<lambda>_. {}) L Map.empty demo_pages" "covered (F 0x1000) = {4..<12}"
  then show ?thesis
    unfolding page_rep_def
    by (intro exI [of _ "[(0x1000, 4, 12)]"] exI [of _ F] exI [of _ "\<lambda>_. {}"] exI [of _ L])
      (simp add: free_pages_def used_blocks_def)
qed

section \<open>When allocation fails\<close>

text \<open>An aligned run of \<open>2 ^ n\<close> free pages inside one zone.\<close>

definition free_run :: "zdesc list \<Rightarrow> nat set \<Rightarrow> nat \<Rightarrow> bool" where
  "free_run zs U n \<longleftrightarrow>
     (\<exists>(z, b, e) \<in> set zs. \<exists>i. 2 ^ n dvd i \<and> b \<le> i \<and> i + 2 ^ n \<le> e \<and> span (i, n) \<subseteq> U)"

lemma free_run_alloc_zone:
  assumes st: "mem_state zs F A L K s" and n: "n \<le> MAX_ORDER"
  shows "free_run zs (free_pages zs F) n \<longleftrightarrow> alloc_zone n F zs \<noteq> None"
proof
  have inv: "mem_inv zs F A L s" using st by (simp add: mem_state_def)
  {
    assume "free_run zs (free_pages zs F) n"
    then obtain z b e i where z: "(z, b, e) \<in> set zs" and i: "2 ^ n dvd i" "b \<le> i" "i + 2 ^ n \<le> e"
      "span (i, n) \<subseteq> free_pages zs F" by (auto simp: free_run_def)
    have "span (i, n) \<subseteq> covered (F z)"
    proof
      fix j
      assume "j \<in> span (i, n)"
      then show "j \<in> covered (F z)" using free_pages_zone(1) [OF inv z, of j] i(2-4) by auto
    qed
    moreover have "blocks_ok b e (F z)" "coalesced (F z)"
      using mem_inv_zone(1) [OF inv z] st z by (auto simp: zone_inv_def blocks_ok_def mem_state_def)
    ultimately have "can_alloc n (F z)" using coalesced_run [OF _ _ n i(1)] unfolding can_alloc_def by blast
    then show "alloc_zone n F zs \<noteq> None" using z unfolding alloc_zone_None by blast
  }
  assume "alloc_zone n F zs \<noteq> None"
  then obtain z b e where z: "alloc_zone n F zs = Some (z, b, e)" by (cases "alloc_zone n F zs") auto
  note az = alloc_zone_Some [OF z]
  from mem_state_alloc [OF st n z] obtain i where
    i: "2 ^ n dvd i" "b \<le> i" "span (i, n) \<subseteq> covered (F z)" by blast
  have "i + 2 ^ n - 1 \<in> span (i, n)" unfolding span_iff by (simp add: Suc_leI le_diff_conv2)
  then have "i + 2 ^ n - 1 < e" using i(3) free_block_range(2) [OF inv az(1)] by blast
  then have "i + 2 ^ n \<le> e" by linarith
  moreover have "span (i, n) \<subseteq> free_pages zs F" using i(3) az(1) unfolding free_pages_def by fastforce
  ultimately show "free_run zs (free_pages zs F) n" using i az(1) unfolding free_run_def by blast
qed

lemma page_alloc_fails:
  assumes st: "mem_state zs F A L K s" and n: "n \<le> MAX_ORDER"
  shows "page_alloc n s = Some (Inr (0, s)) \<longleftrightarrow> alloc_zone n F zs = None"
proof
  have inv: "mem_inv zs F A L s" using st by (simp add: mem_state_def)
  show "alloc_zone n F zs = None \<Longrightarrow> page_alloc n s = Some (Inr (0, s))" by (simp add: page_alloc_eq [OF inv n])
  assume fail: "page_alloc n s = Some (Inr (0, s))"
  show "alloc_zone n F zs = None"
  proof (rule ccontr)
    assume "alloc_zone n F zs \<noteq> None"
    then obtain z b e where z: "alloc_zone n F zs = Some (z, b, e)" by (cases "alloc_zone n F zs") auto
    have zin: "(z, b, e) \<in> set zs" by (rule alloc_zone_Some(1) [OF z])
    from alloc_step [OF st n z] obtain i s' where
      r: "page_alloc_zone z n s = Inr (pg z b i, s')" "b \<le> i" "i < e" "i \<noteq> 0" "zone_begin s' z = of_nat b" by blast
    have "push_bit PAGE_SHIFT (zone_begin s' z + page_diff (pg z b i) z) = frame_addr i"
      using page_index [OF mem_inv_zone(3) [OF inv zin] r(2,3)] r(5) by (simp add: frame_addr_def)
    moreover have "frame_addr i \<noteq> 0" using frame_addr_0 [OF zone_index_small [OF inv zin r(3)]] r(4) by simp
    ultimately show False using fail page_alloc_eq [OF inv n] z r(1) by simp
  qed
qed

section \<open>Properties\<close>

text \<open>
  C1. \<^verbatim>\<open>page_alloc(order)\<close> always returns. For an order up to \<open>MAX_ORDER\<close> it either returns 0 and
  changes nothing, or returns the address of a block of \<open>2 ^ order\<close> pages, aligned to its size, all
  free before, none of them used by a client's list; the block moves from the free pages to the
  blocks in use, and every other block and the clients' lists stay.
\<close>

theorem page_alloc_correct:
  assumes "page_rep s U B K" "n \<le> MAX_ORDER"
  shows "page_alloc n s = Some (Inr (0, s)) \<or>
    (\<exists>i s'. page_alloc n s = Some (Inr (frame_addr i, s')) \<and> frame_addr i \<noteq> 0 \<and> 2 ^ n dvd i \<and>
       span (i, n) \<subseteq> U \<and> page_rep s' (U - span (i, n)) (insert (i, n) B) K \<and>
       (\<forall>j \<in> span (i, n). page_node s j \<notin> members K))"
  using pages.alloc_result [OF assms] by blast

theorem page_alloc_correct_witness:
  "page_alloc 2 demo_pages = Some (Inr (0, demo_pages)) \<or>
    (\<exists>i s'. page_alloc 2 demo_pages = Some (Inr (frame_addr i, s')) \<and> frame_addr i \<noteq> 0 \<and> 2 ^ 2 dvd i \<and>
       span (i, 2) \<subseteq> {4..<12} \<and> page_rep s' ({4..<12} - span (i, 2)) (insert (i, 2) {}) Map.empty \<and>
       (\<forall>j \<in> span (i, 2). page_node demo_pages j \<notin> members Map.empty))"
  by (rule page_alloc_correct [OF demo_pages_rep]) simp

text \<open>
  C2. \<^verbatim>\<open>page_free(addr, order)\<close> of a block in use, none of whose pages is on a client's list, returns;
  the pages of the block are free again, the block is no longer in use, nothing else changes.
\<close>

theorem page_free_correct:
  assumes "page_rep s U B K" "(i, n) \<in> B" "\<forall>j \<in> span (i, n). page_node s j \<notin> members K"
  shows "\<exists>s'. page_free (frame_addr i) n s = Some (Inr s') \<and> page_rep s' (U \<union> span (i, n)) (B - {(i, n)}) K"
  using pages.free_result [OF assms(1,2)] assms(3) by blast

lemma demo_alloc:
  obtains i s' where "page_alloc 0 demo_pages = Some (Inr (frame_addr i, s'))"
    "page_rep s' ({4..<12} - span (i, 0)) {(i, 0)} Map.empty"
proof -
  obtain F L where st: "mem_state [(0x1000, 4, 12)] F (\<lambda>_. {}) L Map.empty demo_pages"
    and cov: "covered (F 0x1000) = {4..<12}" by (rule demo_pages_state)
  have "4 \<in> covered (F 0x1000)" using cov by simp
  then have "can_alloc 0 (F 0x1000)" unfolding can_alloc_def covered_iff by blast
  then have "page_alloc 0 demo_pages \<noteq> Some (Inr (0, demo_pages))"
    using page_alloc_fails [OF st, of 0] by (simp add: alloc_zone_def)
  then show thesis using that pages.alloc_result [OF demo_pages_rep, of 0] by auto
qed

theorem page_free_correct_witness:
  "\<exists>i s s'. page_alloc 0 demo_pages = Some (Inr (frame_addr i, s)) \<and> page_free (frame_addr i) 0 s = Some (Inr s') \<and>
     page_rep s' ({4..<12} - span (i, 0) \<union> span (i, 0)) ({(i, 0)} - {(i, 0)}) Map.empty"
proof (rule demo_alloc)
  fix i s
  assume a: "page_alloc 0 demo_pages = Some (Inr (frame_addr i, s))"
    "page_rep s ({4..<12} - span (i, 0)) {(i, 0)} Map.empty"
  have "\<forall>j \<in> span (i, 0). page_node s j \<notin> members Map.empty" by (simp add: members_def)
  then show ?thesis using page_free_correct [OF a(2), of i 0] a(1) by blast
qed

text \<open>
  C3. Allocating a block and giving it back at once restores the set of free pages and the set of
  blocks in use, whether the allocation succeeded or not.
\<close>

theorem page_alloc_free:
  assumes "page_rep s U B K" "page_alloc n s = Some (Inr (p, s'))"
  shows "\<exists>s''. page_free p n s' = Some (Inr s'') \<and> page_rep s'' U B K"
  using assms by (rule pages.alloc_free)

theorem page_alloc_free_witness:
  "\<exists>p s' s''. page_alloc 0 demo_pages = Some (Inr (p, s')) \<and> page_free p 0 s' = Some (Inr s'') \<and>
     page_rep s'' {4..<12} {} Map.empty"
proof (rule demo_alloc)
  fix i s
  assume "page_alloc 0 demo_pages = Some (Inr (frame_addr i, s))"
  then show ?thesis using page_alloc_free [OF demo_pages_rep, of 0 "frame_addr i" s] by blast
qed

text \<open>
  C4. \<^verbatim>\<open>page_alloc\<close> fails only when it must: it returns 0 exactly if no zone has a run of \<open>2 ^ order\<close>
  free pages aligned to its size. So freed memory is always merged back as far as possible.
\<close>

theorem page_alloc_complete:
  assumes "mem_state zs F A L K s" "n \<le> MAX_ORDER"
  shows "page_alloc n s = Some (Inr (0, s)) \<longleftrightarrow> \<not> free_run zs (free_pages zs F) n"
  using page_alloc_fails [OF assms] free_run_alloc_zone [OF assms] by blast

theorem page_alloc_complete_witness:
  "\<exists>F A L. mem_state [(0x1000, 4, 12)] F A L Map.empty demo_pages \<and>
     (page_alloc 3 demo_pages = Some (Inr (0, demo_pages)) \<longleftrightarrow>
      \<not> free_run [(0x1000, 4, 12)] (free_pages [(0x1000, 4, 12)] F) 3)"
proof (rule demo_pages_state)
  fix F L
  assume st: "mem_state [(0x1000, 4, 12)] F (\<lambda>_. {}) L Map.empty demo_pages"
  show ?thesis using page_alloc_complete [OF st, of 3] st by auto
qed

text \<open>
  C5. \<^verbatim>\<open>page_addr\<close> and \<^verbatim>\<open>addr_page\<close> are inverse on the pages of every zone: the descriptor found for
  the address of page \<open>i\<close> is the descriptor \<open>i - begin\<close> of its zone, and its address is that of page \<open>i\<close>.
\<close>

theorem page_addr_roundtrip:
  assumes "mem_inv zs F A L s" "(z, b, e) \<in> set zs" "b \<le> i" "i < e"
  shows "addr_page (frame_addr i) s = Some (Inr (pg z b i)) \<and> page_addr (pg z b i) s = Some (Inr (frame_addr i))"
  using addr_page_ok [OF assms(1) zone_index_small [OF assms(1,2,4)]] zone_of_in [OF assms] page_addr_ok [OF assms]
  by simp

theorem page_addr_roundtrip_witness:
  "addr_page (frame_addr 7) demo_pages = Some (Inr (pg 0x1000 4 7)) \<and>
   page_addr (pg 0x1000 4 7) demo_pages = Some (Inr (frame_addr 7))"
proof (rule demo_pages_state)
  fix F L
  assume "mem_state [(0x1000, 4, 12)] F (\<lambda>_. {}) L Map.empty demo_pages"
  then have "mem_inv [(0x1000, 4, 12)] F (\<lambda>_. {}) L demo_pages" by (simp add: mem_state_def)
  then show ?thesis by (rule page_addr_roundtrip [of _ _ _ _ _ "0x1000" 4 12 7]) simp_all
qed

text \<open>
  C6. \<^verbatim>\<open>__page_alloc_zone_free\<close> on a range of bytes inside a zone, apart from the free blocks already
  there, returns, and exactly the whole pages of the range (page 0 never) become free; the cutting
  into blocks leaves nothing to merge.
\<close>

theorem zone_free_correct:
  assumes "mem_state zs F A L K s" "(z, b, e) \<in> set zs" "unat zbegin + 4095 < 2 ^ 64"
    and "b \<le> first_page zbegin" "end_page zend \<le> e"
    and "{first_page zbegin..<end_page zend} \<inter> (covered (F z) \<union> covered (A z)) = {}"
    and "first_page zbegin - 1 \<notin> covered (F z)" "end_page zend \<notin> covered (F z)"
  shows "\<exists>s'. raw_page_alloc_zone_free zbegin zend s = Some (Inr s') \<and>
    page_rep s' (free_pages zs F \<union> {first_page zbegin..<end_page zend}) (used_blocks zs A) K"
proof -
  obtain F' L' s' where r: "raw_page_alloc_zone_free zbegin zend s = Some (Inr s')"
    "covered F' = covered (F z) \<union> {first_page zbegin..<end_page zend}" "mem_state zs (F(z := F')) A L' K s'"
    using raw_page_alloc_zone_free_ok [OF assms] by blast
  have "free_pages zs (F(z := F')) = free_pages zs F \<union> {first_page zbegin..<end_page zend}"
    by (rule free_pages_add [OF assms(2)]) (rule r(2))
  then show ?thesis using r(1,3) unfolding page_rep_def by metis
qed

theorem zone_free_correct_witness:
  "\<exists>s'. raw_page_alloc_zone_free 0x3ff0 0xc00f demo_zone = Some (Inr s') \<and> page_rep s' {4..<12} {} Map.empty"
proof -
  obtain L where st: "mem_state [(0x1000, 4, 12)] (\<lambda>_. {}) (\<lambda>_. {}) L Map.empty demo_zone"
    using demo_zone_state by blast
  show ?thesis
    using zone_free_correct [OF st, where z = "0x1000" and b = 4 and e = 12 and zbegin = "0x3ff0" and zend = "0xc00f"]
    by (simp add: demo_bounds covered_empty free_pages_def used_blocks_def)
qed

text \<open>
  C7. \<^verbatim>\<open>__page_alloc_zone_setup\<close>, once it has memory for the zone that no list or other zone uses and
  whose descriptors do not have the free flag set, adds the zone at the end of the list of zones, with its
  bounds and no free page: the allocator's invariant holds with one zone more, with the free pages and
  the blocks in use it had, and the code finds the descriptor of every page of the new zone.
\<close>

theorem zone_setup_correct:
  assumes "mem_state zs F A L K s" "zone_fresh z b e zs L s"
  shows "\<exists>s' L'. s' = zone_setup_at z (of_nat b) (of_nat e) s \<and>
    mem_state (zs @ [(z, b, e)]) (F(z := {})) (A(z := {})) L' K s' \<and>
    L (zones_head s) = Some (zone_links zs) \<and> zones_head s' = zones_head s \<and>
    heap_lists (ll s') L' \<and> L' (zones_head s) = Some (zone_links zs @ [zone_ll z]) \<and>
    zone_begin s' = (zone_begin s)(z := of_nat b) \<and> zone_end s' = (zone_end s)(z := of_nat e) \<and>
    page_rep s' (free_pages zs F) (used_blocks zs A) K \<and>
    (\<forall>i. b \<le> i \<longrightarrow> i < e \<longrightarrow>
       addr_page (frame_addr i) s' = Some (Inr (pg z b i)) \<and> page_addr (pg z b i) s' = Some (Inr (frame_addr i)))"
proof -
  let ?s = "zone_setup_at z (of_nat b) (of_nat e) s" and ?zs = "zs @ [(z, b, e)]"
  obtain L' where st: "mem_state ?zs (F(z := {})) (A(z := {})) L' K ?s" using mem_state_setup [OF assms] by blast
  then have inv: "mem_inv ?zs (F(z := {})) (A(z := {})) L' ?s" by (simp add: mem_state_def)
  have ne: "z' \<noteq> z" if "(z', b', e') \<in> set zs" for z' b' e'
    using assms(2) that by (fastforce simp: zone_fresh_def separate_def zone_bytes_def)
  have "free_pages ?zs (F(z := {})) = free_pages zs F"
    using ne unfolding free_pages_def by (auto simp: covered_empty split: if_splits)
  moreover have "used_blocks ?zs (A(z := {})) = used_blocks zs A"
    using ne unfolding used_blocks_def by (auto split: if_splits)
  ultimately have "page_rep ?s (free_pages zs F) (used_blocks zs A) K" using st unfolding page_rep_def by metis
  moreover have "addr_page (frame_addr i) ?s = Some (Inr (pg z b i)) \<and> page_addr (pg z b i) ?s = Some (Inr (frame_addr i))"
    if i: "b \<le> i" "i < e" for i
  proof -
    have z: "(z, b, e) \<in> set ?zs" by simp
    show ?thesis using addr_page_ok [OF inv zone_index_small [OF inv z i(2)]] zone_of_in [OF inv z i] page_addr_ok [OF inv z i] by simp
  qed
  moreover have "heap_lists (ll ?s) L'" "L' (zones_head s) = Some (zone_links zs @ [zone_ll z])"
    using inv by (simp_all add: mem_inv_def zone_setup_at_eq)
  moreover have "L (zones_head s) = Some (zone_links zs)" using assms(1) by (simp add: mem_state_def mem_inv_def)
  ultimately show ?thesis using st by (intro exI [of _ ?s] exI [of _ L']) (simp add: zone_setup_at_eq)
qed

theorem zone_setup_correct_witness:
  "\<exists>s' L'. s' = zone_setup_at 0x2000 (of_nat 12) (of_nat 20) demo_zone \<and>
    heap_lists (ll s') L' \<and> L' 0x100 = Some [zone_ll 0x1000, zone_ll 0x2000] \<and> page_rep s' {} {} Map.empty \<and>
    addr_page (frame_addr 15) s' = Some (Inr (pg 0x2000 12 15))"
proof -
  obtain L where st: "mem_state [(0x1000, 4, 12)] (\<lambda>_. {}) (\<lambda>_. {}) L Map.empty demo_zone"
    and mem: "members L = insert (zone_ll 0x1000) (order_head 0x1000 ` {..MAX_ORDER} \<union> {0x100})"
    using demo_zone_state by blast
  have fits: "zone_fits 0x1000 4 12" by (simp add: zone_fits_def)
  have low: "unat a < 0x2000" if "a \<in> members L" for a
    using that zone_ll_bytes(1) [OF fits] unat_order_head [OF fits] unfolding mem by auto
  have "flags demo_zone = (\<lambda>_. 0)" "zones_head demo_zone = 0x100" by (simp_all add: demo_zone_def zone_setup_at_eq)
  then have "zone_fresh 0x2000 12 20 [(0x1000, 4, 12)] L demo_zone"
    unfolding zone_fresh_def
    by (auto simp: zone_fits_def separate_def zone_bytes_def zone_indexes_def page_is_free_def dest: low)
  from zone_setup_correct [OF st this] show ?thesis
    using \<open>zones_head demo_zone = 0x100\<close> by (fastforce simp: free_pages_def used_blocks_def covered_empty)
qed

end
