(* ===== verification/CString.thy ===== *)
theory CString
  imports Prelude
begin

text \<open>
  Byte memory and the routines of \<^verbatim>\<open>src/string.c\<close> on it. A memory is a function from addresses to
  bytes; pointer arithmetic wraps as it does on the machine.
\<close>

type_synonym mem = "addr \<Rightarrow> u8"

text \<open>\<^verbatim>\<open>while (*str++);\<close> does not end if no byte is 0: then the result is \<open>None\<close>.\<close>

partial_function (option) strlen_from :: "addr \<Rightarrow> addr \<Rightarrow> mem \<Rightarrow> u64 option" where
  "strlen_from begin str m =
     (if m str \<noteq> 0 then strlen_from begin (str + 1) m else Some (str + 1 - begin - 1))"

definition strlen :: "addr \<Rightarrow> mem \<Rightarrow> u64 option" where
  "strlen str m = strlen_from str str m"

fun memcpy_loop :: "addr \<Rightarrow> addr \<Rightarrow> nat \<Rightarrow> mem \<Rightarrow> mem" where
  "memcpy_loop dst src 0 m = m"
| "memcpy_loop dst src (Suc n) m = memcpy_loop (dst + 1) (src + 1) n (m(dst := m src))"

definition memcpy :: "addr \<Rightarrow> addr \<Rightarrow> u64 \<Rightarrow> mem \<Rightarrow> mem" where
  "memcpy dst src sz m = memcpy_loop dst src (unat sz) m"

fun memset_loop :: "addr \<Rightarrow> u8 \<Rightarrow> nat \<Rightarrow> mem \<Rightarrow> mem" where
  "memset_loop dst fill 0 m = m"
| "memset_loop dst fill (Suc n) m = memset_loop (dst + 1) fill n (m(dst := fill))"

definition memset :: "addr \<Rightarrow> u32 \<Rightarrow> u64 \<Rightarrow> mem \<Rightarrow> mem" where
  "memset dst fill sz m = memset_loop dst (ucast fill) (unat sz) m"

section \<open>Regions of memory\<close>

text \<open>The \<open>n\<close> bytes at \<open>a\<close>, and an array of bytes lying there.\<close>

definition region :: "addr \<Rightarrow> nat \<Rightarrow> addr set" where
  "region a n = (\<lambda>i. a + of_nat i) ` {..<n}"

definition bytes_at :: "addr \<Rightarrow> nat \<Rightarrow> mem \<Rightarrow> u8 list" where
  "bytes_at a n m = map (\<lambda>i. m (a + of_nat i)) [0..<n]"

lemma region_0 [simp]: "region a 0 = {}"
  by (simp add: region_def)

lemma region_Suc: "region a (Suc n) = insert a (region (a + 1) n)"
proof -
  have "{..<Suc n} = insert 0 (Suc ` {..<n})" by (auto simp: image_iff less_Suc_eq_0_disj)
  then show ?thesis unfolding region_def by (auto simp: add.assoc image_iff)
qed

lemma region_fresh:
  assumes "n \<le> 2 ^ 64 - 1"
  shows "a \<notin> region (a + 1) n"
proof
  assume "a \<in> region (a + 1) n"
  then obtain i where i: "i < n" "a = a + 1 + of_nat i" by (auto simp: region_def)
  then have "(0 :: u64) = of_nat (Suc i)" by (metis add.assoc add_cancel_right_right of_nat_Suc)
  moreover have "unat (of_nat (Suc i) :: u64) = Suc i" by (rule unat_of_nat64) (use i(1) assms in simp)
  ultimately show False by (metis nat.distinct(1) unat_0)
qed

lemma bytes_at_0 [simp]: "bytes_at a 0 m = []"
  by (simp add: bytes_at_def)

lemma length_bytes_at [simp]: "length (bytes_at a n m) = n"
  by (simp add: bytes_at_def)

lemma bytes_at_Suc: "bytes_at a (Suc n) m = m a # bytes_at (a + 1) n m"
  unfolding bytes_at_def by (simp only: upt_conv_Cons zero_less_Suc map_Suc_upt [symmetric]) (simp add: o_def add.assoc)

lemma bytes_at_cong: "(\<And>b. b \<in> region a n \<Longrightarrow> m' b = m b) \<Longrightarrow> bytes_at a n m' = bytes_at a n m"
  by (auto simp: bytes_at_def region_def)

lemma bytes_at_append: "bytes_at a (k + n) m = bytes_at a k m @ bytes_at (a + of_nat k) n m"
  by (induction k arbitrary: a) (simp_all add: bytes_at_Suc add.assoc)

lemma bytes_at_upd: "b \<notin> region a n \<Longrightarrow> bytes_at a n (m(b := v)) = bytes_at a n m"
  by (rule bytes_at_cong) auto

lemma bytes_at_snoc: "bytes_at a (Suc n) m = bytes_at a n m @ [m (a + of_nat n)]"
  by (simp add: bytes_at_def)

lemma region_append: "region a (k + n) = region a k \<union> region (a + of_nat k) n"
  by (induction k arbitrary: a) (auto simp: region_Suc add.assoc)

lemma region_mono: "n \<le> k \<Longrightarrow> region a n \<subseteq> region a k"
  by (auto simp: region_def)

text \<open>A buffer that does not wrap around the end of the address space.\<close>

definition fits :: "addr \<Rightarrow> nat \<Rightarrow> bool" where
  "fits a n \<longleftrightarrow> unat a + n < 2 ^ 64"

lemma fits_end: "fits a n \<Longrightarrow> k \<le> n \<Longrightarrow> unat (a + of_nat k) = unat a + k"
  unfolding fits_def using unat_of_nat64 [of k] by (subst unat_add_no_wrap) simp_all

lemma region_bounds: "fits a n \<Longrightarrow> x \<in> region a n \<Longrightarrow> unat a \<le> unat x \<and> unat x < unat a + n"
  using fits_end [of a n] by (fastforce simp: region_def)

lemma region_apart:
  assumes "fits a n" "fits b k" "unat a + n \<le> unat b \<or> unat b + k \<le> unat a"
  shows "region a n \<inter> region b k = {}"
  using region_bounds [OF assms(1)] region_bounds [OF assms(2)] assms(3) by fastforce

section \<open>What the routines do\<close>

lemma memset_loop_outside: "b \<notin> region dst n \<Longrightarrow> memset_loop dst fill n m b = m b"
  by (induction n arbitrary: dst m) (auto simp: region_Suc)

lemma memset_loop_bytes: "n \<le> 2 ^ 64 - 1 \<Longrightarrow> bytes_at dst n (memset_loop dst fill n m) = replicate n fill"
proof (induction n arbitrary: dst m)
  case (Suc n)
  have "memset_loop (dst + 1) fill n (m(dst := fill)) dst = fill"
    using memset_loop_outside region_fresh [of n dst] Suc.prems by simp
  then show ?case using Suc by (simp add: bytes_at_Suc)
qed simp

lemma memcpy_loop_outside: "b \<notin> region dst n \<Longrightarrow> memcpy_loop dst src n m b = m b"
  by (induction n arbitrary: dst src m) (auto simp: region_Suc)

text \<open>The forward copy is right when the regions do not overlap.\<close>

lemma memcpy_loop_bytes:
  "n \<le> 2 ^ 64 - 1 \<Longrightarrow> region dst n \<inter> region src n = {} \<Longrightarrow>
   bytes_at dst n (memcpy_loop dst src n m) = bytes_at src n m"
proof (induction n arbitrary: dst src m)
  case (Suc n)
  have dj: "region (dst + 1) n \<inter> region (src + 1) n = {}" "dst \<notin> region (src + 1) n"
    using Suc.prems(2) by (auto simp: region_Suc)
  have "memcpy_loop (dst + 1) (src + 1) n (m(dst := m src)) dst = m src"
    using memcpy_loop_outside region_fresh [of n dst] Suc.prems by simp
  moreover have "bytes_at (src + 1) n (m(dst := m src)) = bytes_at (src + 1) n m"
    by (rule bytes_at_upd [OF dj(2)])
  ultimately show ?case using Suc.IH [OF _ dj(1)] Suc.prems(1) by (simp add: bytes_at_Suc)
qed simp

text \<open>A C string at an address: its characters, none of them 0, and a 0 after them.\<close>

definition cstring :: "addr \<Rightarrow> u8 list \<Rightarrow> mem \<Rightarrow> bool" where
  "cstring a cs m \<longleftrightarrow> bytes_at a (length cs) m = cs \<and> m (a + of_nat (length cs)) = 0 \<and> 0 \<notin> set cs"

lemma cstring_Nil: "cstring a [] m \<longleftrightarrow> m a = 0"
  by (simp add: cstring_def)

lemma cstring_Cons: "cstring a (c # cs) m \<longleftrightarrow> m a = c \<and> c \<noteq> 0 \<and> cstring (a + 1) cs m"
  by (auto simp: cstring_def bytes_at_Suc add.assoc)

lemma strlen_from_cstring: "cstring a cs m \<Longrightarrow> strlen_from b a m = Some (a + of_nat (length cs) - b)"
proof (induction cs arbitrary: a)
  case Nil
  then show ?case by (subst strlen_from.simps) (simp add: cstring_Nil)
next
  case (Cons c cs)
  then show ?case by (subst strlen_from.simps) (simp add: cstring_Cons add.assoc)
qed

lemma strlen_cstring: "cstring a cs m \<Longrightarrow> strlen a m = Some (of_nat (length cs))"
  by (simp add: strlen_def strlen_from_cstring)

text \<open>A memory holds at most one C string at an address.\<close>

lemma cstring_unique: "cstring a cs m \<Longrightarrow> cstring a ds m \<Longrightarrow> cs = ds"
proof (induction cs arbitrary: a ds)
  case Nil
  then show ?case by (cases ds) (auto simp: cstring_Cons cstring_Nil)
next
  case (Cons c cs)
  then show ?case by (cases ds) (auto simp: cstring_Cons cstring_Nil)
qed

lemma cstring_cong:
  "(\<And>b. b \<in> region a (Suc (length cs)) \<Longrightarrow> m' b = m b) \<Longrightarrow> cstring a cs m' = cstring a cs m"
proof (induction cs arbitrary: a)
  case (Cons c cs)
  have "m' a = m a" using Cons.prems by (simp add: region_Suc)
  moreover have "cstring (a + 1) cs m' = cstring (a + 1) cs m"
    by (rule Cons.IH) (use Cons.prems in \<open>simp add: region_Suc\<close>)
  ultimately show ?case by (simp add: cstring_Cons)
qed (simp add: cstring_Nil region_Suc)

end
