(* ===== verification/Slab.thy ===== *)
theory Slab
  imports PageAlloc CString
begin

text \<open>
  The slab allocator of \<^verbatim>\<open>src/alloc.c\<close>: caches of equal objects carved out of page blocks, and
  \<^verbatim>\<open>mem_alloc\<close>/\<^verbatim>\<open>mem_free\<close>/\<^verbatim>\<open>mem_realloc\<close> on top of them. The fields of a \<^verbatim>\<open>struct mem_cache\<close>, of a
  \<^verbatim>\<open>struct mem_pool\<close> and of the union in \<^verbatim>\<open>struct page\<close> are indexed by the address of the structure;
  the bytes of the objects are the \<open>bytes\<close> memory.
\<close>

section \<open>Arithmetic helpers\<close>

text \<open>The loop of \<^verbatim>\<open>ilog2\<close> does not end for an argument above \<open>2 ^ 63\<close>.\<close>

partial_function (option) ilog2_from :: "u64 \<Rightarrow> nat \<Rightarrow> u64 \<Rightarrow> nat option" where
  "ilog2_from val pw x =
     (if val < x then ilog2_from (push_bit 1 val) (pw + 1) x else Some pw)"

definition ilog2 :: "u64 \<Rightarrow> nat option" where
  "ilog2 x = ilog2_from 1 0 x"

definition ceil :: "u64 \<Rightarrow> u64 \<Rightarrow> u64" where
  "ceil divident divisor = (divident + divisor - 1) div divisor"

definition floor_div :: "u64 \<Rightarrow> u64 \<Rightarrow> u64" where
  "floor_div divident divisor = divident div divisor"

definition align_up :: "u64 \<Rightarrow> u64 \<Rightarrow> u64" where
  "align_up sz align = align * ceil sz align"

definition align_down :: "u64 \<Rightarrow> u64 \<Rightarrow> u64" where
  "align_down sz align = align * floor_div sz align"

abbreviation (input) WORD_SZ :: u64 where "WORD_SZ \<equiv> 8"
abbreviation (input) OBJS_PER_WORD :: u64 where "OBJS_PER_WORD \<equiv> 64"
abbreviation (input) MIN_POOL_OBJS :: u64 where "MIN_POOL_OBJS \<equiv> 8"
abbreviation (input) PAGE_CACHE_BIT :: nat where "PAGE_CACHE_BIT \<equiv> 0"

text \<open>\<^verbatim>\<open>sizeof(struct mem_pool)\<close> is 48 and its alignment 8.\<close>

definition meta_size :: "u64 \<Rightarrow> u64" where
  "meta_size objs =
     (let bitmask_size = (ceil objs OBJS_PER_WORD - 1) * WORD_SZ in align_up (48 + bitmask_size) 8)"

section \<open>State\<close>

record slab = pgs +
  page_u :: "addr \<Rightarrow> u64"           \<comment> \<open>the union of \<^verbatim>\<open>struct page\<close>: \<open>cache\<close>, or \<open>order\<close> in its low half\<close>
  meta_offs :: "addr \<Rightarrow> u64"        \<comment> \<open>fields of \<^verbatim>\<open>struct mem_cache\<close>\<close>
  obj_count :: "addr \<Rightarrow> u64"
  mask_words :: "addr \<Rightarrow> u64"
  obj_size :: "addr \<Rightarrow> u64"
  pool_order :: "addr \<Rightarrow> nat"
  pool_page :: "addr \<Rightarrow> addr"       \<comment> \<open>fields of \<^verbatim>\<open>struct mem_pool\<close>\<close>
  pool_data :: "addr \<Rightarrow> addr"
  pool_free :: "addr \<Rightarrow> u64"
  bitmask :: "addr \<Rightarrow> nat \<Rightarrow> u64"
  mem_pool :: addr                  \<comment> \<open>the static array of 34 caches\<close>
  bytes :: mem

text \<open>The list heads inside a \<^verbatim>\<open>struct mem_cache\<close>; in a \<^verbatim>\<open>struct mem_pool\<close> the links are at offset 0.\<close>

definition free_pools :: "addr \<Rightarrow> addr" where "free_pools cache = cache"
definition partial_pools :: "addr \<Rightarrow> addr" where "partial_pools cache = cache + 16"
definition busy_pools :: "addr \<Rightarrow> addr" where "busy_pools cache = cache + 32"

section \<open>Layout of a pool\<close>

partial_function (option) layout_objs :: "u64 \<Rightarrow> u64 \<Rightarrow> u64 \<Rightarrow> u64 option" where
  "layout_objs osize psize objs =
     (if osize * objs + meta_size objs > psize then layout_objs osize psize (objs - 1) else Some objs)"

definition mem_cache_layout_setup :: "addr \<Rightarrow> u64 \<Rightarrow> u64 \<Rightarrow> 'a slab_scheme \<Rightarrow> 'a slab_scheme res option" where
  "mem_cache_layout_setup cache sz align s =
     (if align = 0 then Some (Inl (Fault ''division by zero''))
      else let osize = align_up sz align;
               min_size = osize * MIN_POOL_OBJS + meta_size MIN_POOL_OBJS
      in Option.bind (ilog2 (drop_bit PAGE_SHIFT min_size)) (\<lambda>order.
         let psize = push_bit (order + PAGE_SHIFT) 1 in
         if osize = 0 then Some (Inl (Fault ''division by zero''))
         else Option.bind (layout_objs osize psize (psize div osize)) (\<lambda>objs.
           Some (Inr (s\<lparr>meta_offs := (meta_offs s)(cache := psize - meta_size objs),
                        obj_count := (obj_count s)(cache := objs),
                        mask_words := (mask_words s)(cache := ceil objs OBJS_PER_WORD),
                        obj_size := (obj_size s)(cache := osize),
                        pool_order := (pool_order s)(cache := order)\<rparr>)))))"

definition set_mask :: "addr \<Rightarrow> nat \<Rightarrow> u64 \<Rightarrow> 'a slab_scheme \<Rightarrow> 'a slab_scheme" where
  "set_mask pool word v s = s\<lparr>bitmask := (bitmask s)(pool := (bitmask s pool)(word := v))\<rparr>"

definition mem_pool_bitmap_setup :: "addr \<Rightarrow> addr \<Rightarrow> 'a slab_scheme \<Rightarrow> 'a slab_scheme" where
  "mem_pool_bitmap_setup cache pool s =
     (let words = unat (mask_words s cache);
          pos = unat (obj_count s cache mod OBJS_PER_WORD);
          word = unat (obj_count s cache div OBJS_PER_WORD);
          s = fold (\<lambda>w. set_mask pool w 0) [0..<words] s;
          s = (if pos \<noteq> 0 then set_mask pool word (NOT (push_bit pos 1 - 1)) s else s)
      in fold (\<lambda>w. set_mask pool w (NOT 0)) [word + 1..<words] s)"

section \<open>Pools\<close>

text \<open>\<^verbatim>\<open>&page[i]\<close>\<close>

definition page_nth :: "addr \<Rightarrow> nat \<Rightarrow> addr" where
  "page_nth page i = page + 32 * of_nat i"

definition mark_cache_pages :: "addr \<Rightarrow> addr \<Rightarrow> nat \<Rightarrow> 'a slab_scheme \<Rightarrow> 'a slab_scheme" where
  "mark_cache_pages page cache count s = fold (\<lambda>i s.
     let s = page_set_bit (page_nth page i) PAGE_CACHE_BIT s
     in s\<lparr>page_u := (page_u s)(page_nth page i := cache)\<rparr>) [0..<count] s"

definition clear_cache_pages :: "addr \<Rightarrow> nat \<Rightarrow> 'a slab_scheme \<Rightarrow> 'a slab_scheme" where
  "clear_cache_pages page count s = fold (\<lambda>i s.
     let s = page_clear_bit (page_nth page i) PAGE_CACHE_BIT s
     in s\<lparr>page_u := (page_u s)(page_nth page i := 0)\<rparr>) [0..<count] s"

definition mem_pool_create :: "addr \<Rightarrow> 'a slab_scheme \<Rightarrow> (addr \<times> 'a slab_scheme) res option" where
  "mem_pool_create cache s = bindO (raw_page_alloc (pool_order s cache) s) (\<lambda>(page, s).
     if page = NULL then Some (Inr (NULL, s))
     else bindO (page_addr page s) (\<lambda>a.
       let meta = va (a + meta_offs s cache);
           s = mark_cache_pages page cache (2 ^ pool_order s cache) s;
           s = s\<lparr>pool_page := (pool_page s)(meta := page)\<rparr>;
           s = s\<lparr>pool_data := (pool_data s)(meta := va a)\<rparr>;
           s = s\<lparr>pool_free := (pool_free s)(meta := obj_count s cache)\<rparr>;
           s = mem_pool_bitmap_setup cache meta s
       in Some (Inr (meta, s))))"

definition mem_pool_destroy :: "addr \<Rightarrow> addr \<Rightarrow> 'a slab_scheme \<Rightarrow> 'a slab_scheme res option" where
  "mem_pool_destroy cache pool s =
     (if pool_free s pool \<noteq> obj_count s cache then Some (Inl (Bug ''pool->free != cache->obj_count''))
      else let page = pool_page s pool;
               s = clear_cache_pages page (2 ^ pool_order s cache) s
      in raw_page_free page (pool_order s cache) s)"

definition mem_cache_setup :: "addr \<Rightarrow> u64 \<Rightarrow> u64 \<Rightarrow> 'a slab_scheme \<Rightarrow> 'a slab_scheme res option" where
  "mem_cache_setup cache sz align s = bindO (mem_cache_layout_setup cache sz align s) (\<lambda>s.
     let s = s\<lparr>ll := list_init (free_pools cache) (ll s)\<rparr>;
         s = s\<lparr>ll := list_init (partial_pools cache) (ll s)\<rparr>;
         s = s\<lparr>ll := list_init (busy_pools cache) (ll s)\<rparr>
     in Some (Inr (spin_setup s)))"

text \<open>The loops of \<^verbatim>\<open>mem_cache_shrink\<close> and \<^verbatim>\<open>mem_cache_release\<close>: the next link is read before the pool goes.\<close>

partial_function (option) destroy_pools ::
  "addr \<Rightarrow> addr \<Rightarrow> addr \<Rightarrow> 'a slab_scheme \<Rightarrow> 'a slab_scheme res option" where
  "destroy_pools cache head ptr s =
     (if ptr = head then Some (Inr s)
      else let pool = ptr; ptr = lh_next (ll s) ptr in
        bindO (mem_pool_destroy cache pool s) (\<lambda>s. destroy_pools cache head ptr s))"

text \<open>\<open>free_slabs\<close> is the address of the local variable of that name.\<close>

definition mem_cache_shrink :: "addr \<Rightarrow> addr \<Rightarrow> 'a slab_scheme \<Rightarrow> 'a slab_scheme res option" where
  "mem_cache_shrink free_slabs cache s =
     (let (enable, s) = spin_lock_irqsave s;
          s = s\<lparr>ll := list_init free_slabs (ll s)\<rparr>;
          s = s\<lparr>ll := list_splice (free_pools cache) free_slabs (ll s)\<rparr>;
          s = spin_unlock_irqrestore enable s
      in destroy_pools cache free_slabs (lh_next (ll s) free_slabs) s)"

definition mem_cache_release :: "addr \<Rightarrow> 'a slab_scheme \<Rightarrow> 'a slab_scheme res option" where
  "mem_cache_release cache s =
     (if \<not> list_empty (busy_pools cache) (ll s) then Some (Inl (Bug ''!list_empty(&cache->busy_pools)''))
      else if \<not> list_empty (partial_pools cache) (ll s) then Some (Inl (Bug ''!list_empty(&cache->partial_pools)''))
      else destroy_pools cache (free_pools cache) (lh_next (ll s) (free_pools cache)) s)"

section \<open>Objects\<close>

fun ffs_byte :: "u64 \<Rightarrow> u64 \<Rightarrow> nat list \<Rightarrow> nat" where
  "ffs_byte bm msk [] = 8"
| "ffs_byte bm msk (byte # bs) = (if bm AND msk \<noteq> 0 then byte else ffs_byte bm (push_bit 8 msk) bs)"

fun ffs_bit :: "u64 \<Rightarrow> u64 \<Rightarrow> nat list \<Rightarrow> nat" where
  "ffs_bit bm msk [] = 8"
| "ffs_bit bm msk (b # bs) = (if bm AND msk \<noteq> 0 then b else ffs_bit bm (push_bit 1 msk) bs)"

definition ffs :: "u64 \<Rightarrow> nat" where
  "ffs bm =
     (let byte = ffs_byte bm 0xff [0..<8];
          b = ffs_bit bm (push_bit (byte * 8) 1) [0..<8]
      in byte * 8 + b)"

fun pool_scan :: "addr \<Rightarrow> addr \<Rightarrow> nat list \<Rightarrow> 'a slab_scheme \<Rightarrow> (addr \<times> 'a slab_scheme) res" where
  "pool_scan cache pool [] s = Inl (Bug ''Failed to find free slot in mem_pool'')"
| "pool_scan cache pool (word # ws) s =
     (if bitmask s pool word = NOT 0 then pool_scan cache pool ws s
      else let b = ffs (NOT (bitmask s pool word));
               pos = OBJS_PER_WORD * of_nat word + of_nat b;
               a = pool_data s pool;
               s = set_mask pool word (bitmask s pool word OR push_bit b 1) s;
               s = s\<lparr>pool_free := (pool_free s)(pool := pool_free s pool - 1)\<rparr>
      in Inr (a + pos * obj_size s cache, s))"

definition mem_pool_alloc :: "addr \<Rightarrow> addr \<Rightarrow> 'a slab_scheme \<Rightarrow> (addr \<times> 'a slab_scheme) res" where
  "mem_pool_alloc cache pool s =
     (if pool_free s pool = 0 then Inl (Bug ''!pool->free'')
      else pool_scan cache pool [0..<unat (mask_words s cache)] s)"

definition mem_pool_free :: "addr \<Rightarrow> addr \<Rightarrow> addr \<Rightarrow> 'a slab_scheme \<Rightarrow> 'a slab_scheme res" where
  "mem_pool_free cache pool ptr s =
     (let offs = ptr - pool_data s pool in
      if obj_size s cache = 0 then Inl (Fault ''division by zero'')
      else let pos = offs div obj_size s cache in
        if pos \<ge> obj_count s cache then Inl (Bug ''pos >= cache->obj_count'')
        else let word = unat (pos div OBJS_PER_WORD); b = unat (pos mod OBJS_PER_WORD) in
          if bitmask s pool word AND push_bit b 1 = 0 then Inl (Bug ''!(pool->bitmask[word] & (1ull << bit))'')
          else let s = set_mask pool word (bitmask s pool word AND NOT (push_bit b 1)) s;
                   s = s\<lparr>pool_free := (pool_free s)(pool := pool_free s pool + 1)\<rparr>
            in if pool_free s pool > obj_count s cache then Inl (Bug ''pool->free > cache->obj_count'')
               else Inr s)"

section \<open>Caches\<close>

definition raw_mem_cache_alloc :: "addr \<Rightarrow> 'a slab_scheme \<Rightarrow> (addr \<times> 'a slab_scheme) res option" where
  "raw_mem_cache_alloc cache s =
     (if \<not> list_empty (partial_pools cache) (ll s) then
        let pool = list_first (partial_pools cache) (ll s) in
        Some (bindR (mem_pool_alloc cache pool s) (\<lambda>(data, s).
          Inr (data, if pool_free s pool = 0
                     then s\<lparr>ll := list_add pool (busy_pools cache) (list_del pool (ll s))\<rparr> else s)))
      else if \<not> list_empty (free_pools cache) (ll s) then
        let pool = list_first (free_pools cache) (ll s) in
        Some (bindR (mem_pool_alloc cache pool s) (\<lambda>(data, s).
          Inr (data, if pool_free s pool \<noteq> obj_count s cache
                     then s\<lparr>ll := list_add pool (partial_pools cache) (list_del pool (ll s))\<rparr> else s)))
      else bindO (mem_pool_create cache s) (\<lambda>(pool, s).
        if pool = NULL then Some (Inr (NULL, s))
        else Some (bindR (mem_pool_alloc cache pool s) (\<lambda>(data, s).
          Inr (data, s\<lparr>ll := list_add pool (partial_pools cache) (ll s)\<rparr>)))))"

definition mem_cache_alloc :: "addr \<Rightarrow> 'a slab_scheme \<Rightarrow> (addr \<times> 'a slab_scheme) res option" where
  "mem_cache_alloc cache s =
     (let (enable, s) = spin_lock_irqsave s in
      bindO (raw_mem_cache_alloc cache s) (\<lambda>(ptr, s). Some (Inr (ptr, spin_unlock_irqrestore enable s))))"

definition raw_mem_cache_free :: "addr \<Rightarrow> addr \<Rightarrow> 'a slab_scheme \<Rightarrow> 'a slab_scheme res" where
  "raw_mem_cache_free cache ptr s =
     (let psize = push_bit (pool_order s cache + PAGE_SHIFT) 1;
          a = align_down ptr psize;
          pool = a + meta_offs s cache
      in bindR (mem_pool_free cache pool ptr s) (\<lambda>s.
         let s = (if pool_free s pool = 1
                  then s\<lparr>ll := list_add pool (partial_pools cache) (list_del pool (ll s))\<rparr> else s);
             s = (if pool_free s pool = obj_count s cache
                  then s\<lparr>ll := list_add pool (free_pools cache) (list_del pool (ll s))\<rparr> else s)
         in Inr s))"

definition mem_cache_free :: "addr \<Rightarrow> addr \<Rightarrow> 'a slab_scheme \<Rightarrow> 'a slab_scheme res" where
  "mem_cache_free cache ptr s =
     (let (enable, s) = spin_lock_irqsave s in
      bindR (raw_mem_cache_free cache ptr s) (\<lambda>s. Inr (spin_unlock_irqrestore enable s)))"

section \<open>General allocation\<close>

definition mem_pool_size :: "u64 list" where
  "mem_pool_size =
     [64, 128, 192, 256, 320, 384, 448, 512, 576, 640, 704, 768, 832, 896, 960, 1024, 1152, 1280, 1408, 1536,
      1664, 1792, 1920, 2048, 2304, 2560, 2816, 3072, 3584, 4096, 5120, 6144, 7168, 8192]"

text \<open>\<^verbatim>\<open>sizeof(struct mem_cache)\<close> is 96.\<close>

definition mem_pool_nth :: "nat \<Rightarrow> 'a slab_scheme \<Rightarrow> addr" where
  "mem_pool_nth i s = mem_pool s + 96 * of_nat i"

fun lookup_from :: "u64 \<Rightarrow> nat \<Rightarrow> u64 list \<Rightarrow> nat option" where
  "lookup_from sz i [] = None"
| "lookup_from sz i (x # xs) = (if x \<ge> sz then Some i else lookup_from sz (i + 1) xs)"

definition mem_pool_lookup :: "u64 \<Rightarrow> 'a slab_scheme \<Rightarrow> addr" where
  "mem_pool_lookup sz s =
     (case lookup_from sz 0 mem_pool_size of None \<Rightarrow> NULL | Some i \<Rightarrow> mem_pool_nth i s)"

fun order_from :: "u64 \<Rightarrow> nat list \<Rightarrow> nat" where
  "order_from sz [] = MAX_ORDER + 1"
| "order_from sz (ord # os) = (if push_bit (ord + PAGE_SHIFT) 1 \<ge> sz then ord else order_from sz os)"

definition mem_order_calculate :: "u64 \<Rightarrow> nat" where
  "mem_order_calculate sz = order_from sz [0..<MAX_ORDER + 1]"

fun setup_caches :: "nat list \<Rightarrow> 'a slab_scheme \<Rightarrow> 'a slab_scheme res option" where
  "setup_caches [] s = Some (Inr s)"
| "setup_caches (i # is) s =
     bindO (mem_cache_setup (mem_pool_nth i s) (mem_pool_size ! i) (mem_pool_size ! 0) s) (setup_caches is)"

definition mem_alloc_setup :: "'a slab_scheme \<Rightarrow> 'a slab_scheme res option" where
  "mem_alloc_setup s = setup_caches [0..<length mem_pool_size] s"

fun shrink_caches :: "addr \<Rightarrow> nat list \<Rightarrow> 'a slab_scheme \<Rightarrow> 'a slab_scheme res option" where
  "shrink_caches free_slabs [] s = Some (Inr s)"
| "shrink_caches free_slabs (i # is) s =
     bindO (mem_cache_shrink free_slabs (mem_pool_nth i s) s) (shrink_caches free_slabs is)"

definition mem_alloc_shrink :: "addr \<Rightarrow> 'a slab_scheme \<Rightarrow> 'a slab_scheme res option" where
  "mem_alloc_shrink free_slabs s = shrink_caches free_slabs [0..<length mem_pool_size] s"

text \<open>\<^verbatim>\<open>page->u.order\<close>: a 32-bit field that shares its bytes with \<^verbatim>\<open>page->u.cache\<close>.\<close>

definition u_order :: "addr \<Rightarrow> 'a slab_scheme \<Rightarrow> nat" where
  "u_order page s = unat (page_u s page AND 0xffffffff)"

definition set_u_order :: "addr \<Rightarrow> nat \<Rightarrow> 'a slab_scheme \<Rightarrow> 'a slab_scheme" where
  "set_u_order page ord s =
     s\<lparr>page_u := (page_u s)(page := (page_u s page AND NOT 0xffffffff) OR of_nat ord)\<rparr>"

definition mem_alloc :: "u64 \<Rightarrow> 'a slab_scheme \<Rightarrow> (addr \<times> 'a slab_scheme) res option" where
  "mem_alloc sz s =
     (let cache = mem_pool_lookup sz s in
      if cache \<noteq> NULL then mem_cache_alloc cache s
      else let order = mem_order_calculate sz in
        bindO (raw_page_alloc order s) (\<lambda>(page, s).
          if page = NULL then Some (Inr (NULL, s))
          else let s = page_clear_bit page PAGE_CACHE_BIT s;
                   s = set_u_order page order s
            in bindO (page_addr page s) (\<lambda>a. Some (Inr (va a, s)))))"

definition mem_free :: "addr \<Rightarrow> 'a slab_scheme \<Rightarrow> 'a slab_scheme res option" where
  "mem_free ptr s =
     (if ptr = NULL then Some (Inr s)
      else bindO (addr_page (pa ptr AND NOT PAGE_MASK) s) (\<lambda>page.
        if page_test_bit page PAGE_CACHE_BIT s then Some (mem_cache_free (page_u s page) ptr s)
        else let order = u_order page s;
                 msk = push_bit (order + PAGE_SHIFT) 1 - 1;
                 s = page_clear_bit page PAGE_CACHE_BIT s;
                 s = set_u_order page 0 s
          in page_free (NOT msk AND pa ptr) order s))"

definition mem_realloc :: "addr \<Rightarrow> u64 \<Rightarrow> 'a slab_scheme \<Rightarrow> (addr \<times> 'a slab_scheme) res option" where
  "mem_realloc ptr sz s =
     (if ptr = NULL then mem_alloc sz s
      else bindO (addr_page (pa ptr AND NOT PAGE_MASK) s) (\<lambda>page.
        let old_size = (if page_test_bit page PAGE_CACHE_BIT s then obj_size s (page_u s page)
                        else push_bit (PAGE_SHIFT + u_order page s) 1)
        in if old_size \<ge> sz then Some (Inr (ptr, s))
           else bindO (mem_alloc sz s) (\<lambda>(new, s).
             if new = NULL then Some (Inr (NULL, s))
             else bindO (mem_free ptr (s\<lparr>bytes := memcpy new ptr old_size (bytes s)\<rparr>)) (\<lambda>s. Some (Inr (new, s))))))"

end
