(* ===== verification/SlabPool.thy ===== *)
theory SlabPool
  imports Slab
begin

text \<open>
  One pool of the slab allocator: its layout keeps objects and metadata apart, its bitmap is a set
  of object positions, and the bit search finds the lowest free one.
\<close>

section \<open>Arithmetic\<close>

lemma unat_div: "unat (x div y) = unat (x :: u64) div unat y"
  by (rule unat_div_distrib)

lemma unat_ceil:
  assumes "unat x + unat d \<le> 2 ^ 64" "d \<noteq> 0"
  shows "unat (ceil x d) = (unat x + unat d - 1) div unat d"
proof -
  have d: "0 < unat d" using assms(2) by (simp add: unat_gt_0)
  have "x + d - 1 = x + (d - 1)" by simp
  moreover have "unat (d - 1) = unat d - 1" using d by (subst unat_sub_le) (auto simp: word_le_nat_alt)
  moreover have "unat (x + (d - 1)) = unat x + (unat d - 1)"
    using assms(1) d \<open>unat (d - 1) = unat d - 1\<close> by (subst unat_add_no_wrap) auto
  ultimately show ?thesis using d unfolding ceil_def unat_div by (simp only:) simp
qed

definition nat_ceil :: "nat \<Rightarrow> nat \<Rightarrow> nat" where
  "nat_ceil x d = (x + d - 1) div d"

lemma nat_ceil_bounds: "0 < d \<Longrightarrow> x \<le> d * nat_ceil x d" "0 < d \<Longrightarrow> d * nat_ceil x d < x + d"
proof -
  assume d: "0 < d"
  have "d * nat_ceil x d + (x + d - 1) mod d = x + d - 1" unfolding nat_ceil_def by (rule mult_div_mod_eq)
  moreover have "(x + d - 1) mod d < d" using d by simp
  ultimately show "x \<le> d * nat_ceil x d" "d * nat_ceil x d < x + d" using d by linarith+
qed

lemma unat_align_up:
  assumes "unat x + unat d < 2 ^ 64" "d \<noteq> 0"
  shows "unat (align_up x d) = unat d * nat_ceil (unat x) (unat d)"
proof -
  have d: "0 < unat d" using assms(2) by (simp add: unat_gt_0)
  have c: "unat (ceil x d) = nat_ceil (unat x) (unat d)"
    using unat_ceil [of x d] assms by (simp add: nat_ceil_def)
  show ?thesis
    unfolding align_up_def using nat_ceil_bounds(2) [OF d, of "unat x"] assms(1) c
    by (simp add: unat_word_ariths)
qed

text \<open>The bytes of metadata of a pool with \<open>n\<close> objects.\<close>

definition meta_bytes :: "nat \<Rightarrow> nat" where
  "meta_bytes n = 40 + 8 * nat_ceil n 64"

lemma unat_meta_size:
  assumes "unat n < 2 ^ 60"
  shows "unat (meta_size n) = meta_bytes (unat n)"
proof -
  let ?c = "ceil n OBJS_PER_WORD"
  have c: "unat ?c = nat_ceil (unat n) 64" using unat_ceil [of n 64] assms by (simp add: nat_ceil_def)
  have cb: "64 * unat ?c < unat n + 64" unfolding c by (rule nat_ceil_bounds(2)) simp
  have eq: "48 + (?c - 1) * WORD_SZ = 40 + 8 * ?c" by (simp add: algebra_simps)
  have "unat (8 * ?c) = 8 * unat ?c" using cb assms by (subst unat_word_ariths) simp
  then have u: "unat (40 + 8 * ?c) = 40 + 8 * unat ?c" using cb assms by (subst unat_add_no_wrap) simp_all
  have "unat (align_up (40 + 8 * ?c) 8) = 8 * nat_ceil (40 + 8 * unat ?c) 8"
    using unat_align_up [of "40 + 8 * ?c" 8] u cb assms by simp
  also have "nat_ceil (40 + 8 * unat ?c) 8 = 5 + unat ?c" by (simp add: nat_ceil_def)
  finally show ?thesis unfolding meta_size_def Let_def eq by (simp add: meta_bytes_def c)
qed

lemma meta_bytes_mono: "m \<le> n \<Longrightarrow> meta_bytes m \<le> meta_bytes n"
  by (simp add: meta_bytes_def nat_ceil_def div_le_mono)

section \<open>The order of a pool\<close>

lemma ilog2_from_ok:
  assumes "unat x \<le> 2 ^ 63"
  shows "p \<le> 63 \<Longrightarrow> (p = 0 \<or> 2 ^ (p - 1) < unat x) \<Longrightarrow>
    \<exists>k. ilog2_from (push_bit p 1) p x = Some k \<and> k \<le> 63 \<and> unat x \<le> 2 ^ k \<and> (k = 0 \<or> 2 ^ (k - 1) < unat x)"
proof (induction "63 - p" arbitrary: p)
  case 0
  then have p: "p = 63" by simp
  have "unat (push_bit p 1 :: u64) = 2 ^ 63" unfolding p by (simp add: push_bit_eq_mult)
  then have "\<not> push_bit p 1 < x" using assms by (simp add: word_less_nat_alt)
  then have "ilog2_from (push_bit p 1) p x = Some p" by (subst ilog2_from.simps) simp
  then show ?case using 0 p assms by auto
next
  case (Suc n)
  then have p: "p < 63" by simp
  have u: "unat (push_bit p 1 :: u64) = 2 ^ p" using p by (intro unat_push_1) simp
  show ?case
  proof (cases "2 ^ p < unat x")
    case True
    then have "push_bit p 1 < x" using u by (simp add: word_less_nat_alt)
    moreover have "push_bit 1 (push_bit p 1 :: u64) = push_bit (Suc p) 1" by (simp only: push_bit_push_bit plus_1_eq_Suc)
    ultimately have "ilog2_from (push_bit p 1) p x = ilog2_from (push_bit (Suc p) 1) (Suc p) x"
      by (subst ilog2_from.simps) (simp add: mult.commute)
    then show ?thesis using Suc.hyps(1) [of "Suc p"] Suc.hyps(2) p True by simp
  next
    case False
    then have "\<not> push_bit p 1 < x" using u by (simp add: word_less_nat_alt)
    then have "ilog2_from (push_bit p 1) p x = Some p" by (subst ilog2_from.simps) simp
    then show ?thesis using False Suc.prems p by auto
  qed
qed

lemma ilog2_ok:
  assumes "unat x \<le> 2 ^ 63"
  obtains k where "ilog2 x = Some k" "k \<le> 63" "unat x \<le> 2 ^ k" "k = 0 \<or> 2 ^ (k - 1) < unat x"
  using ilog2_from_ok [OF assms, of 0] unfolding ilog2_def by auto

section \<open>The bit search\<close>

lemma word_not_0: "x \<noteq> 0 \<longleftrightarrow> (\<exists>n < 64. bit (x :: u64) n)"
proof
  assume "x \<noteq> 0"
  show "\<exists>n < 64. bit x n"
  proof (rule ccontr)
    assume "\<not> (\<exists>n < 64. bit x n)"
    then have "x = 0" by (intro bit_word_eqI) simp
    then show False using \<open>x \<noteq> 0\<close> by simp
  qed
qed auto

lemma bit_u64_less: "bit (x :: u64) n \<Longrightarrow> n < 64"
  using bit_imp_le_length [of x n] by simp

lemma and_byte_mask: "w AND push_bit (8 * k) 0xff \<noteq> 0 \<longleftrightarrow> (\<exists>j < 8. bit (w :: u64) (8 * k + j))"
proof -
  have m: "(0xff :: u64) = mask 8" by (simp add: mask_eq_exp_minus_1)
  have b: "bit (push_bit (8 * k) 0xff :: u64) n \<longleftrightarrow> 8 * k \<le> n \<and> n < 8 * k + 8 \<and> n < 64" for n
    unfolding m by (auto simp: bit_push_bit_iff bit_mask_iff simp del: mask_numeral)
  have "w AND push_bit (8 * k) 0xff \<noteq> 0 \<longleftrightarrow> (\<exists>n. bit w n \<and> 8 * k \<le> n \<and> n < 8 * k + 8 \<and> n < 64)"
    unfolding word_not_0 bit_and_iff b by blast
  also have "\<dots> \<longleftrightarrow> (\<exists>j < 8. bit w (8 * k + j))"
    using bit_u64_less [of w] by (metis add_less_cancel_left le_add1 le_iff_add)
  finally show ?thesis .
qed

lemma and_bit_mask: "w AND push_bit n 1 \<noteq> 0 \<longleftrightarrow> bit (w :: u64) n"
  using and_exp_eq_0_iff_not_bit [of w n] by (simp add: push_bit_eq_mult)

lemma ffs_byte_ok:
  "k \<le> 8 \<Longrightarrow> \<exists>r. ffs_byte w (push_bit (8 * k) 0xff) [k..<8] = r \<and> k \<le> r \<and> r \<le> 8 \<and>
    (\<forall>i j. k \<le> i \<longrightarrow> i < r \<longrightarrow> j < 8 \<longrightarrow> \<not> bit w (8 * i + j)) \<and> (r < 8 \<longrightarrow> (\<exists>j < 8. bit w (8 * r + j)))"
proof (induction "8 - k" arbitrary: k)
  case (Suc n)
  then have l: "[k..<8] = k # [Suc k..<8]" by (simp add: upt_conv_Cons)
  have sh: "push_bit 8 (push_bit (8 * k) 0xff :: u64) = push_bit (8 * Suc k) 0xff"
    by (simp only: push_bit_push_bit mult_Suc_right add.commute)
  show ?case
  proof (cases "\<exists>j < 8. bit w (8 * k + j)")
    case True
    then have "ffs_byte w (push_bit (8 * k) 0xff) [k..<8] = k" unfolding l ffs_byte.simps and_byte_mask by simp
    then show ?thesis using True Suc.prems by auto
  next
    case False
    then have eq: "ffs_byte w (push_bit (8 * k) 0xff) [k..<8] = ffs_byte w (push_bit (8 * Suc k) 0xff) [Suc k..<8]"
      unfolding l ffs_byte.simps and_byte_mask sh by (simp only: if_False)
    have "k < 8" "n = 8 - Suc k" using Suc.hyps(2) by simp_all
    then show ?thesis
      unfolding eq using Suc.hyps(1) [of "Suc k"] False by (metis Suc_leD Suc_leI le_neq_implies_less)
  qed
qed simp

lemma ffs_bit_ok:
  "k \<le> 8 \<Longrightarrow> \<exists>r. ffs_bit w (push_bit (c + k) 1) [k..<8] = r \<and> k \<le> r \<and> r \<le> 8 \<and>
    (\<forall>j. k \<le> j \<longrightarrow> j < r \<longrightarrow> \<not> bit w (c + j)) \<and> (r < 8 \<longrightarrow> bit w (c + r))"
proof (induction "8 - k" arbitrary: k)
  case (Suc n)
  then have l: "[k..<8] = k # [Suc k..<8]" by (simp add: upt_conv_Cons)
  have sh: "push_bit 1 (push_bit (c + k) 1 :: u64) = push_bit (c + Suc k) 1"
    by (simp only: push_bit_push_bit add_Suc_right plus_1_eq_Suc)
  show ?case
  proof (cases "bit w (c + k)")
    case True
    then have "ffs_bit w (push_bit (c + k) 1) [k..<8] = k" unfolding l ffs_bit.simps and_bit_mask by simp
    then show ?thesis using True Suc.prems by auto
  next
    case False
    then have eq: "ffs_bit w (push_bit (c + k) 1) [k..<8] = ffs_bit w (push_bit (c + Suc k) 1) [Suc k..<8]"
      unfolding l ffs_bit.simps and_bit_mask sh by simp
    have "k < 8" "n = 8 - Suc k" using Suc.hyps(2) by simp_all
    then show ?thesis
      unfolding eq using Suc.hyps(1) [of "Suc k"] False by (metis Suc_leD Suc_leI le_neq_implies_less)
  qed
qed simp

lemma ffs_ok:
  assumes "w \<noteq> 0"
  shows "bit w (ffs w)" "ffs w < 64" "\<And>k. k < ffs w \<Longrightarrow> \<not> bit w k"
proof -
  obtain r where r: "ffs_byte w 0xff [0..<8] = r" "r \<le> 8" "\<And>i j. i < r \<Longrightarrow> j < 8 \<Longrightarrow> \<not> bit w (8 * i + j)"
    "r < 8 \<Longrightarrow> \<exists>j < 8. bit w (8 * r + j)" using ffs_byte_ok [of 0 w] by auto
  have below: "\<not> bit w k" if "k < 8 * r" for k
  proof -
    have "k div 8 < r" "k mod 8 < 8" "8 * (k div 8) + k mod 8 = k" using that by auto
    then show ?thesis using r(3) by metis
  qed
  have "r \<noteq> 8" using below assms unfolding word_not_0 by auto
  then have r8: "r < 8" using r(2) by simp
  obtain q where q: "ffs_bit w (push_bit (r * 8) 1) [0..<8] = q" "q \<le> 8" "\<And>j. j < q \<Longrightarrow> \<not> bit w (r * 8 + j)"
    "q < 8 \<Longrightarrow> bit w (r * 8 + q)" using ffs_bit_ok [of 0 w "r * 8"] by auto
  have "q \<noteq> 8" using r(4) [OF r8] q(3) by (auto simp: mult.commute)
  then have q8: "q < 8" using q(2) by simp
  have f: "ffs w = r * 8 + q" using r(1) q(1) by (simp add: ffs_def)
  show "bit w (ffs w)" "ffs w < 64" using q(4) q8 r8 f by auto
  show "\<not> bit w k" if "k < ffs w" for k
  proof (cases "k < 8 * r")
    case False
    then have "k = r * 8 + (k - 8 * r)" "k - 8 * r < q" using that f by auto
    then show ?thesis using q(3) by metis
  qed (rule below)
qed

section \<open>The layout\<close>

lemma layout_objs_ok:
  assumes "unat os \<noteq> 0" "4096 \<le> unat ps" "unat ps \<le> 2 ^ 58"
  shows "n \<le> unat ps div unat os \<Longrightarrow> \<exists>k. layout_objs os ps (of_nat n) = Some (of_nat k) \<and> k \<le> n \<and>
    unat os * k + meta_bytes k \<le> unat ps \<and> (\<forall>j. k < j \<longrightarrow> j \<le> n \<longrightarrow> unat ps < unat os * j + meta_bytes j)"
proof (induction n)
  case 0
  have "meta_size 0 = 40" by (simp add: meta_size_def ceil_def align_up_def)
  then have "\<not> ps < os * 0 + meta_size 0" using assms(2) by (simp add: word_less_nat_alt)
  then have "layout_objs os ps 0 = Some 0" by (subst layout_objs.simps) simp
  then show ?case using assms(2) by (auto simp: meta_bytes_def nat_ceil_def)
next
  case (Suc n)
  let ?n = "of_nat (Suc n) :: u64"
  have "Suc n * unat os \<le> unat ps" using Suc.prems by (meson div_times_less_eq_dividend le_trans mult_le_mono1)
  then have osn: "unat os * Suc n \<le> unat ps" by (simp add: mult.commute)
  moreover have "1 * Suc n \<le> unat os * Suc n" using assms(1) by (intro mult_le_mono1) simp
  ultimately have n58: "Suc n \<le> 2 ^ 58" using assms(3) by (metis le_trans mult_1)
  then have un: "unat ?n = Suc n" by (intro unat_of_nat64) simp
  have m: "unat (meta_size ?n) = meta_bytes (Suc n)" using unat_meta_size [of ?n] un n58 by simp
  have mb: "meta_bytes (Suc n) \<le> 2 ^ 59" using n58 nat_ceil_bounds(2) [of 64 "Suc n"] by (simp add: meta_bytes_def)
  have "unat (os * ?n) = unat os * Suc n"
    using osn un assms(3) by (subst unat_word_ariths) (simp del: of_nat_Suc)
  then have u: "unat (os * ?n + meta_size ?n) = unat os * Suc n + meta_bytes (Suc n)"
    using osn assms(3) m mb by (subst unat_add_no_wrap) simp_all
  have n1: "?n - 1 = of_nat n" by simp
  show ?case
  proof (cases "unat ps < unat os * Suc n + meta_bytes (Suc n)")
    case True
    then have "layout_objs os ps ?n = layout_objs os ps (of_nat n)"
      using u n1 by (subst layout_objs.simps) (simp only: word_less_nat_alt if_True)
    moreover have "n \<le> unat ps div unat os" using Suc.prems by simp
    ultimately show ?thesis using Suc.IH True by (metis le_SucE le_SucI)
  next
    case False
    then have "layout_objs os ps ?n = Some ?n"
      using u by (subst layout_objs.simps) (simp only: word_less_nat_alt if_False)
    moreover have "\<forall>j. Suc n < j \<longrightarrow> j \<le> Suc n \<longrightarrow> unat ps < unat os * j + meta_bytes j" by simp
    ultimately show ?thesis using False by (meson le_refl not_less)
  qed
qed

text \<open>
  The layout of a cache: \<open>n\<close> objects of \<open>os\<close> bytes and the metadata fill a block of \<open>2 ^ k\<close> pages
  without overlap, and one more object would not fit.
\<close>

definition layout_ok :: "addr \<Rightarrow> 'a slab_scheme \<Rightarrow> bool" where
  "layout_ok cache s \<longleftrightarrow>
     (let n = unat (obj_count s cache); os = unat (obj_size s cache); k = pool_order s cache in
      2 \<le> n \<and> 0 < os \<and> k \<le> 40 \<and> unat (mask_words s cache) = nat_ceil n 64 \<and>
      os * n \<le> unat (meta_offs s cache) \<and> unat (meta_offs s cache) + meta_bytes n = 2 ^ (k + 12))"

lemma layout_room:
  fixes os x ps :: nat
  assumes "x = (8 * os + 48) div 4096" "4096 * x \<le> ps" "4096 \<le> ps"
  shows "2 * os + 48 \<le> ps"
proof (cases "os \<le> 2024")
  case False
  have "8 * os + 48 < 4096 * x + 4096" unfolding assms(1) using dividend_less_div_times [of 4096 "8 * os + 48"] by simp
  then have "8 * os + 48 < ps + 4096" using assms(2) by linarith
  then show ?thesis using False by linarith
qed (use assms(3) in linarith)

lemma obj_size_ok:
  assumes "align \<noteq> 0" "sz \<noteq> 0" "unat sz + unat align \<le> 2 ^ 40"
  shows "0 < unat (align_up sz align)" "unat (align_up sz align) < 2 ^ 40"
proof -
  have a0: "0 < unat align" "0 < unat sz" using assms(1,2) by (auto intro!: gr0I simp: unat_eq_zero)
  have "unat (align_up sz align) = unat align * nat_ceil (unat sz) (unat align)"
    using unat_align_up [of sz align] assms by simp
  then show "0 < unat (align_up sz align)" "unat (align_up sz align) < 2 ^ 40"
    using nat_ceil_bounds [OF a0(1), of "unat sz"] a0 assms(3) by linarith+
qed

text \<open>The order chosen for objects of \<open>os\<close> bytes: two objects always fit.\<close>

lemma pool_order_ok:
  assumes os: "0 < unat os" "unat os < 2 ^ 40"
  obtains k where "ilog2 (drop_bit PAGE_SHIFT (os * MIN_POOL_OBJS + meta_size MIN_POOL_OBJS)) = Some k" "k \<le> 32"
    "unat (push_bit (k + PAGE_SHIFT) 1 :: u64) = 2 ^ (k + 12)" "2 * unat os + 48 \<le> 2 ^ (k + 12)"
proof -
  have m8: "meta_size MIN_POOL_OBJS = 48" by (simp add: meta_size_def ceil_def align_up_def)
  let ?min = "os * MIN_POOL_OBJS + meta_size MIN_POOL_OBJS"
  have "unat (os * 8) = 8 * unat os" using os(2) by (subst unat_word_ariths) simp
  then have min: "unat ?min = 8 * unat os + 48"
    unfolding m8 using os(2) by (subst unat_add_no_wrap) simp_all
  let ?x = "drop_bit PAGE_SHIFT ?min"
  have x: "unat ?x = (8 * unat os + 48) div 4096" using unat_drop_bit_div [of PAGE_SHIFT ?min] unfolding min by simp
  have xb: "unat ?x < 2 ^ 32" unfolding x using os(2) by simp
  then obtain k where k: "ilog2 ?x = Some k" "unat ?x \<le> 2 ^ k" "k = 0 \<or> 2 ^ (k - 1) < unat ?x"
    using ilog2_ok [of ?x] by auto
  have k32: "k \<le> 32"
  proof (rule ccontr)
    assume big: "\<not> k \<le> 32"
    then have "(2::nat) ^ 32 \<le> 2 ^ (k - 1)" by (intro power_increasing) auto
    then show False using k(3) xb big by auto
  qed
  have "4096 * unat ?x \<le> 2 ^ (k + 12)" "(4096::nat) \<le> 2 ^ (k + 12)" using k(2) by (simp_all add: power_add)
  then have "2 * unat os + 48 \<le> 2 ^ (k + 12)" by (rule layout_room [OF x])
  moreover have "unat (push_bit (k + PAGE_SHIFT) 1 :: u64) = 2 ^ (k + 12)" using k32 by (intro unat_push_1) simp
  ultimately show thesis using that k(1) k32 by blast
qed

lemma pool_objs_ok:
  assumes os: "0 < unat os" and ps: "unat ps = 2 ^ (k + 12)" "k \<le> 32" and room: "2 * unat os + 48 \<le> unat ps"
  obtains n where "layout_objs os ps (ps div os) = Some (of_nat n)" "2 \<le> n" "n \<le> 2 ^ 58"
    "unat os * n + meta_bytes n \<le> unat ps"
proof -
  have psb: "4096 \<le> unat ps" "unat ps \<le> 2 ^ 58"
  proof -
    show "4096 \<le> unat ps" unfolding ps by (simp add: power_add)
    show "unat ps \<le> 2 ^ 58" unfolding ps(1) using ps(2) by (intro power_increasing) auto
  qed
  have div: "ps div os = of_nat (unat ps div unat os)"
    by (rule word_unat_eq_iff [THEN iffD2])
      (use unat64_less [of "ps div os"] in \<open>simp only: unat_div [symmetric] unat_of_nat64\<close>)
  obtain n where n: "layout_objs os ps (of_nat (unat ps div unat os)) = Some (of_nat n)"
    "n \<le> unat ps div unat os" "unat os * n + meta_bytes n \<le> unat ps"
    "\<forall>j. n < j \<longrightarrow> j \<le> unat ps div unat os \<longrightarrow> unat ps < unat os * j + meta_bytes j"
    using layout_objs_ok [of os ps] os psb by auto
  have "2 \<le> n"
  proof (rule ccontr)
    assume small: "\<not> 2 \<le> n"
    have "2 * unat os \<le> unat ps" using room by simp
    then have "2 \<le> unat ps div unat os" using os by (simp add: less_eq_div_iff_mult_less_eq)
    then have "unat ps < unat os * 2 + meta_bytes 2" using n(4) small by simp
    then show False using room by (simp add: meta_bytes_def nat_ceil_def)
  qed
  moreover have "n \<le> 2 ^ 58" using n(2) psb(2) div_le_dividend [of "unat ps" "unat os"] by linarith
  ultimately show thesis using that n(1,3) unfolding div by blast
qed

lemma mem_cache_layout_setup_ok:
  assumes "align \<noteq> 0" "sz \<noteq> 0" "unat sz + unat align \<le> 2 ^ 40"
  shows "\<exists>s'. mem_cache_layout_setup cache sz align s = Some (Inr s') \<and> layout_ok cache s' \<and>
    obj_size s' cache = align_up sz align \<and> ll s' = ll s"
proof -
  let ?os = "align_up sz align"
  note os = obj_size_ok [OF assms]
  obtain k where k: "ilog2 (drop_bit PAGE_SHIFT (?os * MIN_POOL_OBJS + meta_size MIN_POOL_OBJS)) = Some k" "k \<le> 32"
    "unat (push_bit (k + PAGE_SHIFT) 1 :: u64) = 2 ^ (k + 12)" "2 * unat ?os + 48 \<le> 2 ^ (k + 12)"
    using pool_order_ok [OF os] .
  let ?ps = "push_bit (k + PAGE_SHIFT) 1 :: u64"
  obtain n where n: "layout_objs ?os ?ps (?ps div ?os) = Some (of_nat n)" "2 \<le> n" "n \<le> 2 ^ 58"
    "unat ?os * n + meta_bytes n \<le> unat ?ps"
    by (rule pool_objs_ok [OF os(1) k(3,2)]) (use k(3,4) in simp)
  have un: "unat (of_nat n :: u64) = n" using n(3) by (intro unat_of_nat64) simp
  have mn: "unat (meta_size (of_nat n)) = meta_bytes n" using unat_meta_size [of "of_nat n"] un n(3) by simp
  have mo: "unat (?ps - meta_size (of_nat n)) = unat ?ps - meta_bytes n"
  proof -
    have "meta_size (of_nat n) \<le> ?ps" using n(4) mn unfolding word_le_nat_alt by linarith
    then show ?thesis using unat_sub_le mn by metis
  qed
  have mw: "unat (ceil (of_nat n) OBJS_PER_WORD) = nat_ceil n 64"
    using unat_ceil [of "of_nat n" 64] un n(3) by (simp add: nat_ceil_def)
  let ?s = "s\<lparr>meta_offs := (meta_offs s)(cache := ?ps - meta_size (of_nat n)),
      obj_count := (obj_count s)(cache := of_nat n), mask_words := (mask_words s)(cache := ceil (of_nat n) OBJS_PER_WORD),
      obj_size := (obj_size s)(cache := ?os), pool_order := (pool_order s)(cache := k)\<rparr>"
  have "?os \<noteq> 0" using os(1) by auto
  then have "mem_cache_layout_setup cache sz align s = Some (Inr ?s)"
    using assms(1) k(1) n(1) unfolding mem_cache_layout_setup_def Let_def by simp
  moreover have "layout_ok cache ?s"
    using n(2,4) os(1) k(2,3) un mw mo unfolding layout_ok_def Let_def by simp
  ultimately show ?thesis by (intro exI [of _ ?s]) simp
qed

section \<open>The bitmap as a set of positions\<close>

definition pool_bit :: "'a slab_scheme \<Rightarrow> addr \<Rightarrow> nat \<Rightarrow> bool" where
  "pool_bit s pool pos \<longleftrightarrow> bit (bitmask s pool (pos div 64)) (pos mod 64)"

text \<open>
  \<open>B\<close> are the positions of the objects in use: the bits of the bitmap, which also has all bits
  from \<open>obj_count\<close> on set; the counter is the number of the others.
\<close>

definition pool_inv :: "addr \<Rightarrow> addr \<Rightarrow> nat set \<Rightarrow> 'a slab_scheme \<Rightarrow> bool" where
  "pool_inv cache pool B s \<longleftrightarrow> B \<subseteq> {..<unat (obj_count s cache)} \<and>
     (\<forall>pos < 64 * unat (mask_words s cache). pool_bit s pool pos \<longleftrightarrow> pos \<in> B \<or> unat (obj_count s cache) \<le> pos) \<and>
     unat (pool_free s pool) = unat (obj_count s cache) - card B"

definition obj_addr :: "addr \<Rightarrow> addr \<Rightarrow> nat \<Rightarrow> 'a slab_scheme \<Rightarrow> addr" where
  "obj_addr cache pool pos s = pool_data s pool + of_nat pos * obj_size s cache"

lemma set_mask_bit:
  "bitmask (set_mask pool w v s) pool' w' = (if pool' = pool \<and> w' = w then v else bitmask s pool' w')"
  by (simp add: set_mask_def)

lemma set_mask_sel [simp]:
  "obj_count (set_mask pool w v s) = obj_count s" "mask_words (set_mask pool w v s) = mask_words s"
  "obj_size (set_mask pool w v s) = obj_size s" "pool_free (set_mask pool w v s) = pool_free s"
  "pool_data (set_mask pool w v s) = pool_data s" "ll (set_mask pool w v s) = ll s"
  "pool_page (set_mask pool w v s) = pool_page s" "meta_offs (set_mask pool w v s) = meta_offs s"
  "pool_order (set_mask pool w v s) = pool_order s"
  by (simp_all add: set_mask_def)

lemma fold_set_mask:
  "fold (\<lambda>w. set_mask pool w v) ws s =
     s\<lparr>bitmask := (bitmask s)(pool := (\<lambda>w. if w \<in> set ws then v else bitmask s pool w))\<rparr>"
  by (induction ws arbitrary: s) (auto simp: set_mask_def fun_eq_iff intro!: slab.equality)

lemma nat_ceil_64: "nat_ceil n 64 = n div 64 + (if n mod 64 = 0 then 0 else 1)"
proof -
  have "n + 64 - 1 = 64 * (n div 64) + (n mod 64 + 63)" by simp
  then have "nat_ceil n 64 = n div 64 + (n mod 64 + 63) div 64" unfolding nat_ceil_def by (simp only: div_mult_self2)
  moreover have "(n mod 64 + 63) div 64 = (if n mod 64 = 0 then 0 else 1)"
  proof (cases "n mod 64 = 0")
    case False
    have "n mod 64 < 64" by simp
    then have "64 \<le> n mod 64 + 63" "n mod 64 + 63 < 2 * 64" using False by linarith+
    then show ?thesis using False by (simp add: div_nat_eqI)
  qed simp
  ultimately show ?thesis by simp
qed

lemma bit_high_mask: "p < 64 \<Longrightarrow> bit (NOT (push_bit p 1 - 1) :: u64) k \<longleftrightarrow> p \<le> k \<and> k < 64"
proof -
  have "(push_bit p 1 - 1 :: u64) = mask p" by (simp add: mask_eq_exp_minus_1 push_bit_eq_mult)
  then show ?thesis by (auto simp: bit_not_iff bit_mask_iff)
qed

lemma bitmap_setup_bit:
  assumes n: "unat (mask_words s cache) = nat_ceil (unat (obj_count s cache)) 64"
    and pos: "pos < 64 * unat (mask_words s cache)"
  shows "pool_bit (mem_pool_bitmap_setup cache pool s) pool pos \<longleftrightarrow> unat (obj_count s cache) \<le> pos"
proof -
  let ?n = "unat (obj_count s cache)" and ?words = "unat (mask_words s cache)"
  have dm: "unat (obj_count s cache mod 64) = ?n mod 64" "unat (obj_count s cache div 64) = ?n div 64"
    by (simp_all add: unat_mod_distrib unat_div_distrib)
  have w: "pos div 64 < ?words" using pos by simp
  have cases: "pos div 64 < ?n div 64 \<or> pos div 64 = ?n div 64 \<and> ?n mod 64 \<noteq> 0"
    using w unfolding n nat_ceil_64 by (auto split: if_splits)
  have "pos div 64 \<notin> {?n div 64 + 1..<?words}" using cases by auto
  then have bm: "bitmask (mem_pool_bitmap_setup cache pool s) pool (pos div 64) =
      (if pos div 64 = ?n div 64 then NOT (push_bit (?n mod 64) 1 - 1) else 0)"
    using cases w unfolding mem_pool_bitmap_setup_def Let_def dm fold_set_mask
    by (auto simp: set_mask_def)
  have split: "pos = 64 * (pos div 64) + pos mod 64" "?n = 64 * (?n div 64) + ?n mod 64" by simp_all
  show ?thesis
  proof (cases "pos div 64 = ?n div 64")
    case True
    then have "pool_bit (mem_pool_bitmap_setup cache pool s) pool pos \<longleftrightarrow> ?n mod 64 \<le> pos mod 64"
      unfolding pool_bit_def bm using bit_high_mask [of "?n mod 64" "pos mod 64"] by simp
    then show ?thesis using True split by linarith
  next
    case False
    then have "pos < ?n" using cases by (meson div_le_mono not_le not_less)
    then show ?thesis unfolding pool_bit_def bm using False by simp
  qed
qed

lemma bit_push_1:
  assumes "b < 64"
  shows "bit (push_bit b 1 :: u64) k \<longleftrightarrow> k = b" "bit (2 ^ b :: u64) k \<longleftrightarrow> k = b"
proof -
  show "bit (push_bit b 1 :: u64) k \<longleftrightarrow> k = b"
    using assms by (simp only: bit_push_bit_iff bit_1_iff possible_bit_word) auto
  then show "bit (2 ^ b :: u64) k \<longleftrightarrow> k = b" by (simp add: push_bit_eq_mult)
qed

text \<open>The first word with a free bit is the one the scan takes.\<close>

lemma first_word:
  assumes "w < W" "P w"
  obtains v where "v < W" "P v" "\<And>u. u < v \<Longrightarrow> \<not> P u" "[0..<W] = [0..<v] @ v # [Suc v..<W]"
proof
  let ?v = "LEAST v. P v"
  show "P ?v" "\<And>u. u < ?v \<Longrightarrow> \<not> P u" using assms(2) by (auto intro: LeastI dest: not_less_Least)
  have "?v \<le> w" using assms(2) by (rule Least_le)
  then show "?v < W" using assms(1) by simp
  then show "[0..<W] = [0..<?v] @ ?v # [Suc ?v..<W]"
    using upt_add_eq_append [of 0 ?v "W - ?v"] by (simp add: upt_conv_Cons)
qed

lemma pool_scan_first:
  assumes "\<forall>w \<in> set as. bitmask s pool w = NOT 0" "bitmask s pool w \<noteq> NOT 0"
  shows "pool_scan cache pool (as @ w # bs) s =
    (let b = ffs (NOT (bitmask s pool w)); t = set_mask pool w (bitmask s pool w OR push_bit b 1) s
     in Inr (obj_addr cache pool (64 * w + b) s, t\<lparr>pool_free := (pool_free t)(pool := pool_free t pool - 1)\<rparr>))"
  using assms by (induction as) (simp_all add: Let_def obj_addr_def)

lemma pool_bit_set:
  assumes "b < 64"
  shows "pool_bit (set_mask pool w (bitmask s pool w OR push_bit b 1) s) pool p \<longleftrightarrow> p = 64 * w + b \<or> pool_bit s pool p"
proof -
  note bit_push_1 [OF assms]
  moreover have "p = 64 * w + b \<longleftrightarrow> p div 64 = w \<and> p mod 64 = b" using assms by auto
  ultimately show ?thesis by (auto simp: pool_bit_def set_mask_bit bit_or_iff)
qed

lemma pool_bit_clear:
  assumes "b < 64"
  shows "pool_bit (set_mask pool w (bitmask s pool w AND NOT (push_bit b 1)) s) pool p \<longleftrightarrow> p \<noteq> 64 * w + b \<and> pool_bit s pool p"
proof -
  note b = bit_push_1 [OF assms]
  have "bit (v AND NOT (push_bit b 1)) k \<longleftrightarrow> bit v k \<and> k \<noteq> b" for v :: u64 and k
    using bit_u64_less [of v k] by (auto simp: bit_and_iff bit_not_iff b)
  moreover have "p = 64 * w + b \<longleftrightarrow> p div 64 = w \<and> p mod 64 = b" using assms by auto
  ultimately show ?thesis by (auto simp: pool_bit_def set_mask_bit)
qed

lemma pool_inv_card:
  assumes "pool_inv cache pool B s"
  shows "finite B" "card B \<le> unat (obj_count s cache)" "pool_free s pool = 0 \<longleftrightarrow> card B = unat (obj_count s cache)"
    "unat (pool_free s pool) = unat (obj_count s cache) - card B"
proof -
  have sub: "B \<subseteq> {..<unat (obj_count s cache)}" using assms by (simp add: pool_inv_def)
  then show "finite B" by (rule finite_subset) simp
  show le: "card B \<le> unat (obj_count s cache)" using card_mono [OF _ sub] by simp
  show f: "unat (pool_free s pool) = unat (obj_count s cache) - card B" using assms by (simp add: pool_inv_def)
  have "pool_free s pool = 0 \<longleftrightarrow> unat (pool_free s pool) = 0" by (simp add: unat_eq_zero)
  then show "pool_free s pool = 0 \<longleftrightarrow> card B = unat (obj_count s cache)" using le f by auto
qed

lemma mem_pool_alloc_ok:
  assumes inv: "pool_inv cache pool B s" and free: "pool_free s pool \<noteq> 0"
    and words: "unat (obj_count s cache) \<le> 64 * unat (mask_words s cache)"
  shows "\<exists>pos s'. mem_pool_alloc cache pool s = Inr (obj_addr cache pool pos s, s') \<and> pos < unat (obj_count s cache) \<and>
    pos \<notin> B \<and> (\<forall>p < pos. p \<in> B) \<and> pool_inv cache pool (insert pos B) s' \<and>
    s' = s\<lparr>bitmask := bitmask s', pool_free := (pool_free s)(pool := pool_free s pool - 1)\<rparr> \<and>
    (\<forall>q. q \<noteq> pool \<longrightarrow> bitmask s' q = bitmask s q)"
proof -
  let ?n = "unat (obj_count s cache)" and ?W = "unat (mask_words s cache)"
  have bits: "pool_bit s pool p \<longleftrightarrow> p \<in> B \<or> ?n \<le> p" if "p < 64 * ?W" for p
    using inv that by (simp add: pool_inv_def)
  note card = pool_inv_card [OF inv]
  have sub: "B \<subseteq> {..<?n}" using inv by (simp add: pool_inv_def)
  have "B \<noteq> {..<?n}" using card(3) free by auto
  then obtain q where q: "q < ?n" "q \<notin> B" using sub by auto
  have "\<not> pool_bit s pool q" using bits [of q] q words by simp
  then have qb: "bitmask s pool (q div 64) \<noteq> NOT 0" by (auto simp: pool_bit_def)
  have qw: "q div 64 < ?W" using q(1) words by auto
  obtain w where w: "w < ?W" "bitmask s pool w \<noteq> NOT 0" "\<And>u. u < w \<Longrightarrow> \<not> bitmask s pool u \<noteq> NOT 0"
    "[0..<?W] = [0..<w] @ w # [Suc w..<?W]"
    by (rule first_word [where P = "\<lambda>w. bitmask s pool w \<noteq> NOT 0", OF qw qb]) (rule that)
  define b where "b = ffs (NOT (bitmask s pool w))"
  have nz: "NOT (bitmask s pool w) \<noteq> 0" using w(2) by (metis bit.double_compl bit.compl_zero)
  have b: "b < 64" "\<not> bit (bitmask s pool w) b" "\<And>k. k < b \<Longrightarrow> bit (bitmask s pool w) k"
    using ffs_ok [OF nz] unfolding b_def by (auto simp: bit_not_iff)
  let ?pos = "64 * w + b"
  let ?t = "set_mask pool w (bitmask s pool w OR push_bit b 1) s"
  let ?s = "?t\<lparr>pool_free := (pool_free s)(pool := pool_free s pool - 1)\<rparr>"
  have pW: "?pos < 64 * ?W" using w(1) b(1) by auto
  have "\<not> pool_bit s pool ?pos" using b(1,2) by (simp add: pool_bit_def)
  then have pos: "?pos \<notin> B" "?pos < ?n" using bits [OF pW] by auto
  have low: "p \<in> B" if "p < ?pos" for p
  proof -
    have "pool_bit s pool p"
    proof (cases "p div 64 = w")
      case True
      then have "p mod 64 < b" using that by (metis add_less_cancel_left mult_div_mod_eq)
      then show ?thesis using True b(3) by (simp add: pool_bit_def)
    next
      case False
      have "p div 64 \<le> w" using that b(1) div_le_mono [of p ?pos 64] by simp
      then show ?thesis using False w(3) by (simp add: pool_bit_def bit_not_iff)
    qed
    then show ?thesis using bits [of p] that pos(2) pW by simp
  qed
  have "mem_pool_alloc cache pool s = Inr (obj_addr cache pool ?pos s, ?s)"
    using free pool_scan_first [of "[0..<w]" s pool w cache "[Suc w..<?W]"] w(2,3) unfolding mem_pool_alloc_def w(4)
    by (simp add: Let_def b_def)
  moreover have "pool_inv cache pool (insert ?pos B) ?s"
  proof -
    have "pool_bit ?s pool p = pool_bit ?t pool p" for p by (simp add: pool_bit_def)
    moreover have "unat (pool_free s pool - 1) = ?n - card (insert ?pos B)"
    proof -
      have "1 \<le> pool_free s pool" using free by (simp add: word_le_nat_alt unat_gt_0 Suc_leI)
      then have "unat (pool_free s pool - 1) = unat (pool_free s pool) - 1" by (simp add: unat_sub_le)
      then show ?thesis using card pos(1) by simp
    qed
    ultimately show ?thesis
      using sub pos(2) bits pool_bit_set [OF b(1), of pool w s] unfolding pool_inv_def by auto
  qed
  moreover have "?s = s\<lparr>bitmask := bitmask ?s, pool_free := (pool_free s)(pool := pool_free s pool - 1)\<rparr>"
    by (simp add: set_mask_def)
  moreover have "\<forall>q. q \<noteq> pool \<longrightarrow> bitmask ?s q = bitmask s q" by (auto simp: set_mask_def)
  ultimately show ?thesis using pos low by blast
qed

lemma layout_words: "layout_ok cache s \<Longrightarrow> unat (obj_count s cache) \<le> 64 * unat (mask_words s cache)"
  using nat_ceil_bounds(1) [of 64 "unat (obj_count s cache)"] by (simp add: layout_ok_def Let_def)

lemma layout_small:
  assumes "layout_ok cache s"
  shows "unat (obj_size s cache) * unat (obj_count s cache) \<le> 2 ^ 52" "0 < unat (obj_size s cache)"
    "unat (obj_count s cache) \<le> 2 ^ 52"
proof -
  have "unat (obj_size s cache) * unat (obj_count s cache) \<le> 2 ^ (pool_order s cache + 12)"
    and os: "0 < unat (obj_size s cache)" and k: "pool_order s cache \<le> 40"
    using assms by (auto simp: layout_ok_def Let_def)
  moreover have "(2::nat) ^ (pool_order s cache + 12) \<le> 2 ^ 52" using k by (intro power_increasing) auto
  ultimately show le: "unat (obj_size s cache) * unat (obj_count s cache) \<le> 2 ^ 52" by linarith
  show "0 < unat (obj_size s cache)" by (rule os)
  then have "1 * unat (obj_count s cache) \<le> unat (obj_size s cache) * unat (obj_count s cache)" by (intro mult_le_mono1) simp
  then show "unat (obj_count s cache) \<le> 2 ^ 52" using le by (metis le_trans mult_1)
qed

text \<open>The position of an object from its address.\<close>

lemma obj_pos:
  assumes lay: "layout_ok cache s" and pos: "pos < unat (obj_count s cache)"
  shows "(obj_addr cache pool pos s - pool_data s pool) div obj_size s cache = of_nat pos" "obj_size s cache \<noteq> 0"
    "unat (of_nat pos :: u64) = pos"
proof -
  note sm = layout_small [OF lay]
  let ?os = "obj_size s cache"
  have up: "unat (of_nat pos :: u64) = pos" using pos sm(3) by (intro unat_of_nat64) simp
  have "pos * unat ?os \<le> unat (obj_count s cache) * unat ?os" using pos by (intro mult_le_mono1) simp
  also have "\<dots> \<le> 2 ^ 52" using sm(1) by (simp only: mult.commute)
  finally have "pos * unat ?os < 2 ^ 64" by simp
  then have "unat (of_nat pos * ?os) = pos * unat ?os" using up by (simp add: unat_word_ariths)
  then have "unat (of_nat pos * ?os div ?os) = unat (of_nat pos :: u64)"
    using sm(2) up by (simp add: unat_div)
  then show "(obj_addr cache pool pos s - pool_data s pool) div ?os = of_nat pos"
    by (simp add: obj_addr_def word_unat_eq_iff)
  show "?os \<noteq> 0" using sm(2) by auto
  show "unat (of_nat pos :: u64) = pos" by (rule up)
qed

lemma pos_word_bit:
  assumes "unat (of_nat pos :: u64) = pos"
  shows "unat ((of_nat pos :: u64) div 64) = pos div 64" "unat ((of_nat pos :: u64) mod 64) = pos mod 64"
  using assms by (simp_all add: unat_div_distrib unat_mod_distrib)

lemma mem_pool_free_ok:
  assumes inv: "pool_inv cache pool B s" and lay: "layout_ok cache s" and pos: "pos \<in> B"
  shows "\<exists>s'. mem_pool_free cache pool (obj_addr cache pool pos s) s = Inr s' \<and> pool_inv cache pool (B - {pos}) s' \<and>
    s' = s\<lparr>bitmask := bitmask s', pool_free := (pool_free s)(pool := pool_free s pool + 1)\<rparr> \<and>
    (\<forall>q. q \<noteq> pool \<longrightarrow> bitmask s' q = bitmask s q)"
proof -
  let ?n = "unat (obj_count s cache)" and ?W = "unat (mask_words s cache)"
  have sub: "B \<subseteq> {..<?n}" and bits: "\<And>p. p < 64 * ?W \<Longrightarrow> pool_bit s pool p \<longleftrightarrow> p \<in> B \<or> ?n \<le> p"
    using inv by (auto simp: pool_inv_def)
  have pn: "pos < ?n" using sub pos by auto
  note op = obj_pos [OF lay pn] and wb = pos_word_bit [OF obj_pos(3) [OF lay pn]]
  have ge: "\<not> (of_nat pos :: u64) \<ge> obj_count s cache" using pn op(3) by (simp add: word_le_nat_alt)
  have set: "bitmask s pool (pos div 64) AND push_bit (pos mod 64) 1 \<noteq> 0"
    unfolding and_bit_mask using bits [of pos] pos pn layout_words [OF lay] by (simp add: pool_bit_def)
  note card = pool_inv_card [OF inv]
  have cb: "0 < card B" using card(1) pos card_gt_0_iff by blast
  have f: "unat (pool_free s pool + 1) = ?n - card (B - {pos})"
  proof -
    have "unat (pool_free s pool) + 1 < 2 ^ 64" using card(4) layout_small(3) [OF lay] by simp
    then have "unat (pool_free s pool + 1) = unat (pool_free s pool) + 1" by (subst unat_add_no_wrap) simp_all
    then show ?thesis using card cb pos by simp
  qed
  let ?t = "set_mask pool (pos div 64) (bitmask s pool (pos div 64) AND NOT (push_bit (pos mod 64) 1)) s"
  let ?s = "?t\<lparr>pool_free := (pool_free s)(pool := pool_free s pool + 1)\<rparr>"
  have "\<not> pool_free s pool + 1 > obj_count s cache" unfolding word_less_nat_alt f by simp
  then have "mem_pool_free cache pool (obj_addr cache pool pos s) s = Inr ?s"
    using op(2) ge set unfolding mem_pool_free_def Let_def op(1) wb by simp
  moreover have "pool_inv cache pool (B - {pos}) ?s"
  proof -
    have "pool_bit ?s pool p = pool_bit ?t pool p" for p by (simp add: pool_bit_def)
    moreover have "pool_bit ?t pool p \<longleftrightarrow> p \<noteq> pos \<and> pool_bit s pool p" for p
      using pool_bit_clear [of "pos mod 64" pool "pos div 64" s p] by simp
    ultimately show ?thesis using sub bits f pn unfolding pool_inv_def by auto
  qed
  moreover have "?s = s\<lparr>bitmask := bitmask ?s, pool_free := (pool_free s)(pool := pool_free s pool + 1)\<rparr>"
    by (simp add: set_mask_def)
  moreover have "\<forall>q. q \<noteq> pool \<longrightarrow> bitmask ?s q = bitmask s q" by (auto simp: set_mask_def)
  ultimately show ?thesis by blast
qed

text \<open>Freeing an object that is not in use is caught.\<close>

lemma mem_pool_double_free:
  assumes inv: "pool_inv cache pool B s" and lay: "layout_ok cache s" and pos: "pos < unat (obj_count s cache)" "pos \<notin> B"
  shows "mem_pool_free cache pool (obj_addr cache pool pos s) s = Inl (Bug ''!(pool->bitmask[word] & (1ull << bit))'')"
proof -
  note op = obj_pos [OF lay pos(1)] and wb = pos_word_bit [OF obj_pos(3) [OF lay pos(1)]]
  have ge: "\<not> (of_nat pos :: u64) \<ge> obj_count s cache" using pos(1) op(3) by (simp add: word_le_nat_alt)
  have "pos < 64 * unat (mask_words s cache)" using pos(1) layout_words [OF lay] by simp
  then have "\<not> pool_bit s pool pos" using inv pos by (simp add: pool_inv_def)
  then have "bitmask s pool (pos div 64) AND push_bit (pos mod 64) 1 = 0"
    using and_bit_mask [of "bitmask s pool (pos div 64)" "pos mod 64"] by (auto simp: pool_bit_def)
  then show ?thesis using op(2) ge unfolding mem_pool_free_def Let_def op(1) wb by simp
qed

text \<open>A pool right after its creation: no object is in use.\<close>

lemma bitmap_setup_inv:
  assumes lay: "layout_ok cache s" and free: "pool_free s pool = obj_count s cache"
  shows "pool_inv cache pool {} (mem_pool_bitmap_setup cache pool s)"
proof -
  let ?s = "mem_pool_bitmap_setup cache pool s"
  have "obj_count ?s = obj_count s" "mask_words ?s = mask_words s" "pool_free ?s = pool_free s"
    by (simp_all add: mem_pool_bitmap_setup_def Let_def fold_set_mask)
  moreover have "unat (mask_words s cache) = nat_ceil (unat (obj_count s cache)) 64"
    using lay by (simp add: layout_ok_def Let_def)
  ultimately show ?thesis using bitmap_setup_bit [of s cache _ pool] free by (simp add: pool_inv_def)
qed

text \<open>Two objects of a pool do not overlap, and no object reaches the metadata.\<close>

lemma objects_apart:
  assumes lay: "layout_ok cache s" and p: "p < q" "q < unat (obj_count s cache)"
  shows "p * unat (obj_size s cache) + unat (obj_size s cache) \<le> q * unat (obj_size s cache)"
    "q * unat (obj_size s cache) + unat (obj_size s cache) \<le> unat (meta_offs s cache)"
proof -
  let ?os = "unat (obj_size s cache)" and ?n = "unat (obj_count s cache)"
  have "Suc p * ?os \<le> q * ?os" by (rule mult_le_mono1) (use p in simp)
  moreover have "Suc q * ?os \<le> ?n * ?os" by (rule mult_le_mono1) (use p in simp)
  moreover have "?os * ?n \<le> unat (meta_offs s cache)" using lay by (simp add: layout_ok_def Let_def)
  ultimately show "p * ?os + ?os \<le> q * ?os" "q * ?os + ?os \<le> unat (meta_offs s cache)" by (simp_all add: mult.commute)
qed

end
