(* ===== verification/FileSystem.thy ===== *)
theory FileSystem
  imports Slab
begin

text \<open>
  The in-memory file system of \<^verbatim>\<open>src/file_system.c\<close>. Block descriptors and nodes are structures
  allocated with \<^verbatim>\<open>mem_alloc\<close>; their fields are indexed by address, file names, buffers and block
  data are bytes of the memory. An access through \<^verbatim>\<open>NULL\<close> or past an array is a \<open>Fault\<close>.
\<close>

section \<open>State\<close>

datatype node_t = FILE | DIR

abbreviation (input) FS_BLOCK_SIZE :: u64 where "FS_BLOCK_SIZE \<equiv> 512"
abbreviation (input) MAX_FILES_IN_DIR :: u64 where "MAX_FILES_IN_DIR \<equiv> 256"
abbreviation (input) MAX_FILE_NAME_LENGTH :: u64 where "MAX_FILE_NAME_LENGTH \<equiv> 128"
abbreviation (input) SLASH :: u8 where "SLASH \<equiv> 47"

record fs = slab +
  fd_next :: "addr \<Rightarrow> addr"          \<comment> \<open>\<^verbatim>\<open>fs_descriptor_list_t\<close>\<close>
  fd_prev :: "addr \<Rightarrow> addr"
  fd_data :: "addr \<Rightarrow> addr"
  n_type :: "addr \<Rightarrow> node_t"         \<comment> \<open>\<^verbatim>\<open>fs_node_t\<close>; its \<^verbatim>\<open>name_\<close> is the bytes from offset 4\<close>
  n_children :: "addr \<Rightarrow> addr"
  n_children_num :: "addr \<Rightarrow> u64"
  n_list_head :: "addr \<Rightarrow> addr"
  n_size :: "addr \<Rightarrow> u64"
  n_opened :: "addr \<Rightarrow> bool"
  dn_next :: "addr \<Rightarrow> addr"          \<comment> \<open>\<^verbatim>\<open>dir_names_list_t\<close>\<close>
  dn_names :: "addr \<Rightarrow> addr"
  ptrs :: "addr \<Rightarrow> addr"             \<comment> \<open>cells of \<^verbatim>\<open>char*\<close> arrays\<close>
  fs_descriptors_head :: addr
  fs_root_ptr :: addr
  root_name :: addr                  \<comment> \<open>the string literal of \<^verbatim>\<open>init_file_system\<close>\<close>

text \<open>\<^verbatim>\<open>name_\<close> is at offset 4 of a node, \<^verbatim>\<open>sizeof(fs_node_t)\<close> is 176.\<close>

definition node_name :: "addr \<Rightarrow> addr" where
  "node_name node = node + 4"

definition child_at :: "addr \<Rightarrow> u64 \<Rightarrow> 'a fs_scheme \<Rightarrow> addr" where
  "child_at node j s = n_children s node + 176 * j"

text \<open>\<^verbatim>\<open>mem_alloc\<close> where the code uses the result at once.\<close>

definition alloc_used :: "u64 \<Rightarrow> 'a fs_scheme \<Rightarrow> (addr \<times> 'a fs_scheme) res option" where
  "alloc_used sz s = bindO (mem_alloc sz s) (\<lambda>(p, s).
     if p = NULL then Some (Inl (Fault ''null pointer'')) else Some (Inr (p, s)))"

section \<open>Strings\<close>

partial_function (option) strcopy :: "addr \<Rightarrow> addr \<Rightarrow> mem \<Rightarrow> mem option" where
  "strcopy c current_symb m =
     (if m c \<noteq> 0 then strcopy (c + 1) (current_symb + 1) (m(current_symb := m c))
      else Some (m(current_symb := 0)))"

partial_function (option) streq :: "addr \<Rightarrow> addr \<Rightarrow> mem \<Rightarrow> bool option" where
  "streq c current_symb m =
     (if m c \<noteq> 0 then if m current_symb \<noteq> m c then Some False else streq (c + 1) (current_symb + 1) m
      else Some True)"

section \<open>Blocks\<close>

definition lock :: "'a fs_scheme \<Rightarrow> 'a fs_scheme" where
  "lock s = spin_lock s"

definition unlock :: "'a fs_scheme \<Rightarrow> 'a fs_scheme" where
  "unlock s = spin_unlock s"

definition new_fs_block :: "'a fs_scheme \<Rightarrow> 'a fs_scheme res option" where
  "new_fs_block s = bindO (alloc_used 24 s) (\<lambda>(new_descriptor, s).
     let s = s\<lparr>fd_prev := (fd_prev s)(new_descriptor := NULL)\<rparr>;
         s = s\<lparr>fd_next := (fd_next s)(new_descriptor := fs_descriptors_head s)\<rparr>;
         s = (if fs_descriptors_head s \<noteq> NULL
              then s\<lparr>fd_prev := (fd_prev s)(fs_descriptors_head s := new_descriptor)\<rparr> else s)
     in bindO (mem_alloc FS_BLOCK_SIZE s) (\<lambda>(data, s).
       let s = s\<lparr>fd_data := (fd_data s)(new_descriptor := data)\<rparr>
       in Some (Inr (s\<lparr>fs_descriptors_head := new_descriptor\<rparr>))))"

fun allocate_loop :: "nat \<Rightarrow> 'a fs_scheme \<Rightarrow> 'a fs_scheme res option" where
  "allocate_loop 0 s = Some (Inr s)"
| "allocate_loop (Suc n) s = bindO (new_fs_block s) (allocate_loop n)"

definition allocate_fs_blocks :: "u64 \<Rightarrow> 'a fs_scheme \<Rightarrow> 'a fs_scheme res option" where
  "allocate_fs_blocks blocks_num s = allocate_loop (unat blocks_num) (s\<lparr>fs_descriptors_head := NULL\<rparr>)"

definition get_fs_block :: "'a fs_scheme \<Rightarrow> (addr \<times> 'a fs_scheme) res" where
  "get_fs_block s =
     (if fs_descriptors_head s = NULL then Inl (Bug ''no filesystem free blocks left'')
      else let result = fs_descriptors_head s;
               s = s\<lparr>fs_descriptors_head := fd_next s (fs_descriptors_head s)\<rparr>;
               s = (if fs_descriptors_head s \<noteq> NULL
                    then s\<lparr>fd_prev := (fd_prev s)(fs_descriptors_head s := NULL)\<rparr> else s)
        in Inr (result, s))"

section \<open>Nodes and paths\<close>

text \<open>A name that does not fit the 128 bytes of \<^verbatim>\<open>name_\<close> would overwrite the fields after it.\<close>

definition init_fs_node :: "addr \<Rightarrow> addr \<Rightarrow> node_t \<Rightarrow> 'a fs_scheme \<Rightarrow> 'a fs_scheme res option" where
  "init_fs_node node_ptr name type s =
     Option.bind (strlen name (bytes s)) (\<lambda>len.
     if len \<ge> MAX_FILE_NAME_LENGTH then Some (Inl (Fault ''name_ overflow''))
     else let s = s\<lparr>n_type := (n_type s)(node_ptr := type)\<rparr> in
       Option.bind (strcopy name (node_name node_ptr) (bytes s)) (\<lambda>m.
       let s = s\<lparr>bytes := m\<rparr> in
       bindO (if type = DIR then mem_alloc (176 * MAX_FILES_IN_DIR) s else Some (Inr (NULL, s))) (\<lambda>(children, s).
       Some (Inr (s\<lparr>n_children := (n_children s)(node_ptr := children),
                    n_list_head := (n_list_head s)(node_ptr := NULL),
                    n_children_num := (n_children_num s)(node_ptr := 0),
                    n_opened := (n_opened s)(node_ptr := False),
                    n_size := (n_size s)(node_ptr := 0)\<rparr>)))))"

text \<open>\<^verbatim>\<open>name_array_t\<close> as the pair of its fields.\<close>

type_synonym name_array = "addr \<times> nat"

fun delete_levels :: "addr \<Rightarrow> nat list \<Rightarrow> 'a fs_scheme \<Rightarrow> 'a fs_scheme res option" where
  "delete_levels array [] s = Some (Inr s)"
| "delete_levels array (i # is) s =
     bindO (mem_free (ptrs s (array + 8 * of_nat i)) s) (delete_levels array is)"

definition delete_name_array :: "name_array \<Rightarrow> 'a fs_scheme \<Rightarrow> 'a fs_scheme res option" where
  "delete_name_array = (\<lambda>(array, levels_num) s.
     bindO (delete_levels array [0..<levels_num] s) (\<lambda>s. mem_free array s))"

text \<open>The count of slashes, up to the terminating 0.\<close>

partial_function (option) count_slashes :: "addr \<Rightarrow> nat \<Rightarrow> mem \<Rightarrow> nat option" where
  "count_slashes c levels_num m =
     (if m c \<noteq> 0 then count_slashes (c + 1) (if m c = SLASH then levels_num + 1 else levels_num) m
      else Some levels_num)"

text \<open>The inner loop: \<^verbatim>\<open>current_level[j - level_start] = file_name[j]\<close>.\<close>

fun copy_level :: "addr \<Rightarrow> addr \<Rightarrow> nat \<Rightarrow> nat list \<Rightarrow> mem \<Rightarrow> mem" where
  "copy_level current_level file_name level_start [] m = m"
| "copy_level current_level file_name level_start (j # js) m =
     copy_level current_level file_name level_start js
       (m(current_level + of_nat (j - level_start) := m (file_name + of_nat j)))"

definition take_level ::
  "addr \<Rightarrow> addr \<Rightarrow> nat \<Rightarrow> nat \<Rightarrow> nat \<Rightarrow> nat \<Rightarrow> 'a fs_scheme \<Rightarrow> 'a fs_scheme res option" where
  "take_level levels file_name levels_num current_level_num level_start level_end s =
     (if level_end = level_start then Some (Inl (Bug ''level_end == level_start''))
      else bindO (alloc_used (of_nat (level_end - level_start + 1)) s) (\<lambda>(current_level, s).
        let m = copy_level current_level file_name level_start [level_start..<level_end] (bytes s);
            s = s\<lparr>bytes := m(current_level + of_nat (level_end - level_start) := 0)\<rparr>
        in if current_level_num \<ge> levels_num then Some (Inl (Fault ''levels overflow''))
           else Some (Inr (s\<lparr>ptrs := (ptrs s)(levels + 8 * of_nat current_level_num := current_level)\<rparr>))))"

fun levels_loop ::
  "addr \<Rightarrow> addr \<Rightarrow> nat \<Rightarrow> nat list \<Rightarrow> nat \<Rightarrow> nat \<Rightarrow> 'a fs_scheme \<Rightarrow> (nat \<times> nat \<times> 'a fs_scheme) res option" where
  "levels_loop levels file_name levels_num [] level_start current_level_num s =
     Some (Inr (level_start, current_level_num, s))"
| "levels_loop levels file_name levels_num (i # is) level_start current_level_num s =
     (if bytes s (file_name + of_nat i) = SLASH
      then bindO (take_level levels file_name levels_num current_level_num level_start i s) (\<lambda>s.
        levels_loop levels file_name levels_num is (i + 1) (current_level_num + 1) s)
      else levels_loop levels file_name levels_num is level_start current_level_num s)"

text \<open>After the loop the index is the length of the name, or 1 for a name shorter than that.\<close>

definition name_to_levels_array :: "addr \<Rightarrow> 'a fs_scheme \<Rightarrow> (name_array \<times> 'a fs_scheme) res option" where
  "name_to_levels_array file_name s =
     Option.bind (strlen file_name (bytes s)) (\<lambda>len.
     Option.bind (count_slashes file_name 0 (bytes s)) (\<lambda>levels_num.
     bindO (alloc_used (8 * of_nat levels_num) s) (\<lambda>(levels, s).
     bindO (levels_loop levels file_name levels_num [1..<unat len] 1 0 s) (\<lambda>(level_start, current_level_num, s).
     bindO (take_level levels file_name levels_num current_level_num level_start (max 1 (unat len)) s) (\<lambda>s.
     Some (Inr ((levels, levels_num), s)))))))"

text \<open>The index of the first child that \<^verbatim>\<open>streq\<close> accepts.\<close>

fun find_child :: "addr \<Rightarrow> addr \<Rightarrow> nat list \<Rightarrow> 'a fs_scheme \<Rightarrow> nat option option" where
  "find_child node name [] s = Some None"
| "find_child node name (j # js) s =
     Option.bind (streq name (node_name (child_at node (of_nat j) s)) (bytes s)) (\<lambda>eq.
       if eq then Some (Some j) else find_child node name js s)"

fun find_dir :: "addr \<Rightarrow> nat list \<Rightarrow> addr \<Rightarrow> 'a fs_scheme \<Rightarrow> addr res option" where
  "find_dir array [] node s = Some (Inr node)"
| "find_dir array (i # is) node s =
     (if n_type s node \<noteq> DIR then Some (Inl (Bug ''current_node_ptr->type_ != DIR''))
      else Option.bind (find_child node (ptrs s (array + 8 * of_nat i)) [0..<unat (n_children_num s node)] s) (\<lambda>r.
        case r of None \<Rightarrow> Some (Inl (Bug ''j == temp_max_j''))
        | Some j \<Rightarrow> find_dir array is (child_at node (of_nat j) s) s))"

definition add_child :: "addr \<Rightarrow> addr \<Rightarrow> node_t \<Rightarrow> 'a fs_scheme \<Rightarrow> (addr \<times> 'a fs_scheme) res option" where
  "add_child node name type s =
     (if n_children_num s node > 256 then Some (Inl (Bug ''current_node_ptr->children_num_ > 256''))
      else let s = s\<lparr>n_children_num := (n_children_num s)(node := n_children_num s node + 1)\<rparr>;
               child = child_at node (n_children_num s node - 1) s
        in if n_children_num s node > MAX_FILES_IN_DIR then Some (Inl (Fault ''children_ overflow''))
           else if n_children s node = NULL then Some (Inl (Fault ''null pointer''))
           else bindO (init_fs_node child name type s) (\<lambda>s. Some (Inr (child, s))))"

definition find_node :: "addr \<Rightarrow> node_t \<Rightarrow> 'a fs_scheme \<Rightarrow> (addr \<times> 'a fs_scheme) res option" where
  "find_node name type s =
     bindO (name_to_levels_array name s) (\<lambda>((array, levels_num), s).
     bindO (find_dir array [0..<levels_num - 1] (fs_root_ptr s) s) (\<lambda>node.
     if n_type s node \<noteq> DIR then Some (Inl (Bug ''current_node_ptr->type_ != DIR''))
     else if levels_num = 0 then Some (Inl (Fault ''levels underflow''))
     else let last = ptrs s (array + 8 * of_nat (levels_num - 1)) in
       Option.bind (find_child node last [0..<unat (n_children_num s node)] s) (\<lambda>r.
       case r of
         Some j \<Rightarrow> bindO (delete_name_array (array, levels_num) s) (\<lambda>s. Some (Inr (child_at node (of_nat j) s, s)))
       | None \<Rightarrow> bindO (add_child node last type s) (\<lambda>(child, s).
           bindO (delete_name_array (array, levels_num) s) (\<lambda>s. Some (Inr (child, s)))))))"

section \<open>Operations on names\<close>

definition open_file :: "addr \<Rightarrow> 'a fs_scheme \<Rightarrow> (addr \<times> 'a fs_scheme) res option" where
  "open_file file_name s =
     (let s = lock s in
      bindO (find_node file_name FILE s) (\<lambda>(node_ptr, s).
      if n_opened s node_ptr then Some (Inl (Bug ''node_ptr->opened_''))
      else let s = s\<lparr>n_opened := (n_opened s)(node_ptr := True)\<rparr>
        in Some (Inr (node_ptr, unlock s))))"

definition close :: "addr \<Rightarrow> 'a fs_scheme \<Rightarrow> 'a fs_scheme" where
  "close node_ptr s =
     (let s = lock s; s = s\<lparr>n_opened := (n_opened s)(node_ptr := False)\<rparr> in unlock s)"

definition mkdir :: "addr \<Rightarrow> 'a fs_scheme \<Rightarrow> 'a fs_scheme res option" where
  "mkdir dir_name s =
     (let s = lock s in bindO (find_node dir_name DIR s) (\<lambda>(_, s). Some (Inr (unlock s))))"

text \<open>
  The list of names grows at its end. Its head is a local structure, whose \<^verbatim>\<open>next_\<close> holds \<open>garbage\<close>
  until the first name is linked.
\<close>

fun names_loop :: "addr \<Rightarrow> nat list \<Rightarrow> addr option \<Rightarrow> addr \<Rightarrow> 'a fs_scheme \<Rightarrow> (addr \<times> 'a fs_scheme) res option" where
  "names_loop node [] current head_next s = Some (Inr (head_next, s))"
| "names_loop node (i # is) current head_next s =
     bindO (alloc_used 16 s) (\<lambda>(next_node, s).
       let s = s\<lparr>dn_names := (dn_names s)(next_node := node_name (child_at node (of_nat i) s))\<rparr>;
           (head_next, s) = (case current of None \<Rightarrow> (next_node, s)
                             | Some cur \<Rightarrow> (head_next, s\<lparr>dn_next := (dn_next s)(cur := next_node)\<rparr>));
           s = s\<lparr>dn_next := (dn_next s)(next_node := NULL)\<rparr>
       in names_loop node is (Some next_node) head_next s)"

definition readdir :: "addr \<Rightarrow> addr \<Rightarrow> 'a fs_scheme \<Rightarrow> (addr \<times> 'a fs_scheme) res option" where
  "readdir garbage dir_name s =
     (let s = lock s in
      bindO (find_node dir_name DIR s) (\<lambda>(node_ptr, s).
      bindO (names_loop node_ptr [0..<unat (n_children_num s node_ptr)] None garbage s) (\<lambda>(head, s).
      Some (Inr (head, unlock s)))))"

section \<open>File contents\<close>

text \<open>The copying loop of a write; both bounds are compared as addresses.\<close>

function copy_to_block :: "addr \<Rightarrow> addr \<Rightarrow> addr \<Rightarrow> addr \<Rightarrow> mem \<Rightarrow> addr \<times> mem" where
  "copy_to_block byte end1 end2 block_byte m =
     (if byte < end1 \<and> byte < end2
      then copy_to_block (byte + 1) end1 end2 (block_byte + 1) (m(block_byte := m byte))
      else (byte, m))"
  by pat_completeness auto
termination
proof (relation "measure (\<lambda>(byte, end1, end2, block_byte, m). unat end1 - unat byte)")
  fix byte end1 end2 block_byte :: addr and m :: mem
  assume "byte < end1 \<and> byte < end2"
  then have "unat (byte + 1) = unat byte + 1" "unat byte < unat end1"
    using unat_add_1 [of byte end1] by (simp_all add: word_less_nat_alt)
  then show "((byte + 1, end1, end2, block_byte + 1, m(block_byte := m byte)), byte, end1, end2, block_byte, m)
      \<in> measure (\<lambda>(byte, end1, end2, block_byte, m). unat end1 - unat byte)"
    by simp
qed simp

declare copy_to_block.simps [simp del]

text \<open>\<^verbatim>\<open>block->next_\<close>, taking a free block for it first if there is none.\<close>

definition next_block :: "addr \<Rightarrow> 'a fs_scheme \<Rightarrow> (addr \<times> 'a fs_scheme) res" where
  "next_block block s =
     (if fd_next s block = NULL
      then bindR (get_fs_block s) (\<lambda>(next, s).
        let s = s\<lparr>fd_next := (fd_next s)(block := next)\<rparr>;
            s = s\<lparr>fd_prev := (fd_prev s)(next := block)\<rparr>
        in Inr (fd_next s block, s))
      else Inr (fd_next s block, s))"

text \<open>
  For an offset past the block, the code writes into the next block and then goes on with the
  statements below as well.
\<close>

partial_function (option) write_to_block ::
  "addr \<Rightarrow> u64 \<Rightarrow> addr \<Rightarrow> u64 \<Rightarrow> 'a fs_scheme \<Rightarrow> 'a fs_scheme res option" where
  "write_to_block block offset data_begin data_size s =
     bindO (if offset > FS_BLOCK_SIZE
            then bindO (Some (next_block block s)) (\<lambda>(next, s).
              write_to_block next (offset - FS_BLOCK_SIZE) data_begin data_size s)
            else Some (Inr s)) (\<lambda>s.
     if fd_data s block = NULL then Some (Inl (Fault ''null pointer''))
     else let (byte, m) = copy_to_block data_begin (data_begin + data_size) (data_begin + FS_BLOCK_SIZE - offset)
                (fd_data s block + offset) (bytes s);
              s = s\<lparr>bytes := m\<rparr>
       in if byte < data_begin + data_size
          then bindO (Some (next_block block s)) (\<lambda>(next, s).
            write_to_block next 0 byte (data_size - FS_BLOCK_SIZE) s)
          else Some (Inr s))"

definition write_file :: "addr \<Rightarrow> u64 \<Rightarrow> addr \<Rightarrow> u64 \<Rightarrow> 'a fs_scheme \<Rightarrow> 'a fs_scheme res option" where
  "write_file node_ptr offset data_begin data_size s =
     (let s = lock s in
      if \<not> n_opened s node_ptr then Some (Inl (Bug ''!node_ptr->opened_''))
      else let s = (if offset + data_size > n_size s node_ptr
                    then s\<lparr>n_size := (n_size s)(node_ptr := offset + data_size)\<rparr> else s)
        in bindO (Some (if n_list_head s node_ptr = NULL
                        then bindR (get_fs_block s) (\<lambda>(b, s). Inr (b, s\<lparr>n_list_head := (n_list_head s)(node_ptr := b)\<rparr>))
                        else Inr (n_list_head s node_ptr, s))) (\<lambda>(current_block, s).
           bindO (write_to_block current_block offset data_begin data_size s) (\<lambda>s. Some (Inr (unlock s)))))"

text \<open>The copying loop of a read counts the bytes.\<close>

function copy_from_block :: "addr \<Rightarrow> addr \<Rightarrow> addr \<Rightarrow> addr \<Rightarrow> addr \<Rightarrow> u64 \<Rightarrow> mem \<Rightarrow> addr \<times> u64 \<times> mem" where
  "copy_from_block byte end1 end2 end3 block_byte bytes_read m =
     (if byte < end1 \<and> byte < end2 \<and> byte < end3
      then copy_from_block (byte + 1) end1 end2 end3 (block_byte + 1) (bytes_read + 1) (m(byte := m block_byte))
      else (byte, bytes_read, m))"
  by pat_completeness auto
termination
proof (relation "measure (\<lambda>(byte, end1, end2, end3, block_byte, n, m). unat end1 - unat byte)")
  fix byte end1 end2 end3 block_byte :: addr and n :: u64 and m :: mem
  assume "byte < end1 \<and> byte < end2 \<and> byte < end3"
  then have "unat (byte + 1) = unat byte + 1" "unat byte < unat end1"
    using unat_add_1 [of byte end1] by (simp_all add: word_less_nat_alt)
  then show "((byte + 1, end1, end2, end3, block_byte + 1, n + 1, m(byte := m block_byte)), byte, end1, end2, end3, block_byte, n, m)
      \<in> measure (\<lambda>(byte, end1, end2, end3, block_byte, n, m). unat end1 - unat byte)"
    by simp
qed simp

declare copy_from_block.simps [simp del]

partial_function (option) read_from_block ::
  "addr \<Rightarrow> u64 \<Rightarrow> addr \<Rightarrow> u64 \<Rightarrow> u64 \<Rightarrow> u64 \<Rightarrow> 'a fs_scheme \<Rightarrow> (u64 \<times> 'a fs_scheme) res option" where
  "read_from_block block offset data_begin data_size file_size_left bytes_read s =
     (if block = NULL then Some (Inr (bytes_read, s))
      else if offset > FS_BLOCK_SIZE
      then read_from_block (fd_next s block) (offset - FS_BLOCK_SIZE) data_begin data_size
             (file_size_left - FS_BLOCK_SIZE) bytes_read s
      else if fd_data s block = NULL then Some (Inl (Fault ''null pointer''))
      else let (byte, bytes_read, m) = copy_from_block data_begin (data_begin + data_size)
                 (data_begin + FS_BLOCK_SIZE - offset) (data_begin + file_size_left)
                 (fd_data s block + offset) bytes_read (bytes s);
               s = s\<lparr>bytes := m\<rparr>
        in if byte < data_begin + data_size
           then read_from_block (fd_next s block) 0 byte (data_size - FS_BLOCK_SIZE)
                  (file_size_left - FS_BLOCK_SIZE) bytes_read s
           else Some (Inr (bytes_read, s)))"

definition read_file :: "addr \<Rightarrow> u64 \<Rightarrow> addr \<Rightarrow> u64 \<Rightarrow> 'a fs_scheme \<Rightarrow> (u64 \<times> 'a fs_scheme) res option" where
  "read_file node_ptr offset data_begin data_size s =
     (let s = lock s in
      if \<not> n_opened s node_ptr then Some (Inl (Bug ''!node_ptr->opened_''))
      else bindO (read_from_block (n_list_head s node_ptr) offset data_begin data_size (n_size s node_ptr) 0 s)
        (\<lambda>(result, s). Some (Inr (result, unlock s))))"

definition init_file_system :: "u64 \<Rightarrow> 'a fs_scheme \<Rightarrow> 'a fs_scheme res option" where
  "init_file_system blocks_num s =
     (let s = spin_setup s; s = lock s in
      bindO (allocate_fs_blocks blocks_num s) (\<lambda>s.
      bindO (alloc_used 176 s) (\<lambda>(root, s).
      let s = s\<lparr>fs_root_ptr := root\<rparr> in
      bindO (init_fs_node (fs_root_ptr s) (root_name s) DIR s) (\<lambda>s. Some (Inr (unlock s))))))"

end
