(* ===== verification/FileBlocks.thy ===== *)
theory FileBlocks
  imports FileSystem
begin

text \<open>
  The contents of files: what \<^verbatim>\<open>write_to_block\<close> and \<^verbatim>\<open>read_from_block\<close> do to the bytes of the blocks,
  inside one block and over a chain of blocks.
\<close>

section \<open>The copying loops\<close>

lemma copy_to_block_eq:
  "copy_to_block byte end1 end2 bb m =
    (let k = min (unat end1 - unat byte) (unat end2 - unat byte) in (byte + of_nat k, memcpy_loop bb byte k m))"
proof (induction byte end1 end2 bb m rule: copy_to_block.induct)
  case (1 byte end1 end2 bb m)
  show ?case
  proof (cases "byte < end1 \<and> byte < end2")
    case True
    then have u: "unat (byte + 1) = unat byte + 1" "unat byte < unat end1" "unat byte < unat end2"
      using unat_add_1 [of byte end1] by (simp_all add: word_less_nat_alt)
    let ?k = "min (unat end1 - unat (byte + 1)) (unat end2 - unat (byte + 1))"
    have k: "min (unat end1 - unat byte) (unat end2 - unat byte) = Suc ?k" using u by linarith
    have "copy_to_block byte end1 end2 bb m = copy_to_block (byte + 1) end1 end2 (bb + 1) (m(bb := m byte))"
      using True by (subst copy_to_block.simps) simp
    then show ?thesis using 1 True unfolding k by (simp add: Let_def add.assoc fun_upd_def)
  next
    case False
    then have "min (unat end1 - unat byte) (unat end2 - unat byte) = 0" by (auto simp: word_less_nat_alt)
    then show ?thesis using False by (subst copy_to_block.simps) (auto simp: Let_def)
  qed
qed

lemma copy_from_block_eq:
  "copy_from_block byte end1 end2 end3 bb n m =
    (let k = min (unat end1 - unat byte) (min (unat end2 - unat byte) (unat end3 - unat byte))
     in (byte + of_nat k, n + of_nat k, memcpy_loop byte bb k m))"
proof (induction byte end1 end2 end3 bb n m rule: copy_from_block.induct)
  case (1 byte end1 end2 end3 bb n m)
  show ?case
  proof (cases "byte < end1 \<and> byte < end2 \<and> byte < end3")
    case True
    then have u: "unat (byte + 1) = unat byte + 1" "unat byte < unat end1" "unat byte < unat end2" "unat byte < unat end3"
      using unat_add_1 [of byte end1] by (simp_all add: word_less_nat_alt)
    let ?k = "min (unat end1 - unat (byte + 1)) (min (unat end2 - unat (byte + 1)) (unat end3 - unat (byte + 1)))"
    have k: "min (unat end1 - unat byte) (min (unat end2 - unat byte) (unat end3 - unat byte)) = Suc ?k" using u by linarith
    have "copy_from_block byte end1 end2 end3 bb n m = copy_from_block (byte + 1) end1 end2 end3 (bb + 1) (n + 1) (m(byte := m bb))"
      using True by (subst copy_from_block.simps) simp
    then show ?thesis using 1 True unfolding k by (simp add: Let_def add.assoc fun_upd_def)
  next
    case False
    then have "min (unat end1 - unat byte) (min (unat end2 - unat byte) (unat end3 - unat byte)) = 0"
      by (auto simp: word_less_nat_alt)
    then show ?thesis using False by (subst copy_from_block.simps) (auto simp: Let_def)
  qed
qed

text \<open>The byte after the block, seen from the buffer: \<^verbatim>\<open>data_begin + FS_BLOCK_SIZE - offset\<close>.\<close>

lemma block_end:
  assumes "fits d 512" "unat off \<le> 512"
  shows "unat (d + FS_BLOCK_SIZE - off) = unat d + (512 - unat off)"
proof -
  have eq: "d + FS_BLOCK_SIZE - off = d + of_nat (512 - unat off)"
    using assms(2) by (simp add: of_nat_diff)
  show ?thesis unfolding eq by (rule fits_end [OF assms(1)]) simp
qed

section \<open>One block\<close>

lemma write_in_block:
  assumes "unat off + unat n \<le> 512" "fits d 512" "fd_data s b \<noteq> NULL"
  shows "write_to_block b off d n s =
    Some (Inr (s\<lparr>bytes := memcpy_loop (fd_data s b + off) d (unat n) (bytes s)\<rparr>))"
proof -
  have n: "unat n \<le> 512" "unat off \<le> 512" using assms(1) by auto
  have e1: "unat (d + n) = unat d + unat n" using fits_end [OF assms(2) n(1)] by simp
  note e2 = block_end [OF assms(2) n(2)]
  have "copy_to_block d (d + n) (d + FS_BLOCK_SIZE - off) (fd_data s b + off) (bytes s)
      = (d + n, memcpy_loop (fd_data s b + off) d (unat n) (bytes s))"
    unfolding copy_to_block_eq e1 e2 using assms(1) by (simp add: Let_def)
  moreover have "\<not> FS_BLOCK_SIZE < off" using n(2) by (simp add: word_less_nat_alt)
  ultimately show ?thesis using assms(3) by (subst write_to_block.simps) simp
qed

lemma read_in_block:
  assumes "unat off + unat n \<le> 512" "fits d 512" "b \<noteq> NULL" "fd_data s b \<noteq> NULL" "unat n \<le> unat left" "fits d (unat left)"
  shows "read_from_block b off d n left r s =
    Some (Inr (r + n, s\<lparr>bytes := memcpy_loop d (fd_data s b + off) (unat n) (bytes s)\<rparr>))"
proof -
  have n: "unat n \<le> 512" "unat off \<le> 512" using assms(1) by auto
  have e1: "unat (d + n) = unat d + unat n" using fits_end [OF assms(2) n(1)] by simp
  have e3: "unat (d + left) = unat d + unat left" using fits_end [OF assms(6)] by (metis le_refl of_nat_unat ucast_id)
  note e2 = block_end [OF assms(2) n(2)]
  have "copy_from_block d (d + n) (d + FS_BLOCK_SIZE - off) (d + left) (fd_data s b + off) r (bytes s)
      = (d + n, r + n, memcpy_loop d (fd_data s b + off) (unat n) (bytes s))"
    unfolding copy_from_block_eq e1 e2 e3 using assms(1,5) by (simp add: Let_def)
  moreover have "\<not> FS_BLOCK_SIZE < off" using n(2) by (simp add: word_less_nat_alt)
  ultimately show ?thesis using assms(3,4) by (subst read_from_block.simps) simp
qed

section \<open>A chain of blocks\<close>

fun chain :: "'a fs_scheme \<Rightarrow> addr list \<Rightarrow> bool" where
  "chain s [] \<longleftrightarrow> True"
| "chain s [b] \<longleftrightarrow> b \<noteq> NULL \<and> fd_data s b \<noteq> NULL"
| "chain s (b # c # bs) \<longleftrightarrow> b \<noteq> NULL \<and> fd_data s b \<noteq> NULL \<and> fd_next s b = c \<and> chain s (c # bs)"

lemma chain_bytes [simp]: "chain (s\<lparr>bytes := m\<rparr>) bs = chain s bs"
  by (induction s bs rule: chain.induct) auto

text \<open>Reference definitions: a buffer cut into pieces of 512 bytes, one for each data area.\<close>

fun write_chunks :: "addr list \<Rightarrow> addr \<Rightarrow> nat \<Rightarrow> mem \<Rightarrow> mem" where
  "write_chunks [] d n m = m"
| "write_chunks (a # as) d n m =
     (if n \<le> 512 then memcpy_loop a d n m else write_chunks as (d + 512) (n - 512) (memcpy_loop a d 512 m))"

fun read_chunks :: "addr list \<Rightarrow> addr \<Rightarrow> nat \<Rightarrow> mem \<Rightarrow> mem" where
  "read_chunks [] d n m = m"
| "read_chunks (a # as) d n m =
     (if n \<le> 512 then memcpy_loop d a n m else read_chunks as (d + 512) (n - 512) (memcpy_loop d a 512 m))"

lemma fits_shift: "fits d (n + 512) \<Longrightarrow> 512 \<le> n \<Longrightarrow> fits (d + 512) n"
  using fits_end [of d "n + 512" 512] by (simp add: fits_def)

lemma write_chain:
  assumes "chain s bs" "bs \<noteq> []" "unat n \<le> 512 * length bs" "fits d (unat n + 512)"
  shows "write_to_block (hd bs) 0 d n s =
    Some (Inr (s\<lparr>bytes := write_chunks (map (fd_data s) bs) d (unat n) (bytes s)\<rparr>))"
  using assms
proof (induction bs arbitrary: n d s)
  case (Cons b bs)
  have b: "b \<noteq> NULL" "fd_data s b \<noteq> NULL" using Cons.prems(1) by (cases bs; simp)+
  have f512: "fits d 512" using Cons.prems(4) by (simp add: fits_def)
  show ?case
  proof (cases "unat n \<le> 512")
    case True
    then show ?thesis using write_in_block [of 0 n d s b] f512 b by simp
  next
    case False
    then obtain c cs where bs: "bs = c # cs" using Cons.prems(3) by (cases bs) auto
    have nx: "fd_next s b = c" "chain s bs" "c \<noteq> NULL" using Cons.prems(1) bs by (auto elim: chain.elims)
    have e1: "unat (d + n) = unat d + unat n"
      using fits_end [OF Cons.prems(4), of "unat n"] by (simp add: of_nat_unat)
    have e2: "unat (d + 512 - 0) = unat d + 512" using block_end [OF f512, of 0] by simp
    let ?m = "memcpy_loop (fd_data s b) d 512 (bytes s)" and ?s = "s\<lparr>bytes := memcpy_loop (fd_data s b) d 512 (bytes s)\<rparr>"
    have copy: "copy_to_block d (d + n) (d + 512 - 0) (fd_data s b + 0) (bytes s) = (d + 512, ?m)"
      unfolding copy_to_block_eq e1 e2 using False by (simp add: Let_def min_def)
    have more: "d + 512 < d + n" using e1 e2 False by (simp add: word_less_nat_alt)
    have nxt: "next_block b ?s = Inr (c, ?s)" using nx by (simp add: next_block_def)
    have "512 \<le> n" using False by (simp add: word_le_nat_alt)
    then have n': "unat (n - 512) = unat n - 512" by (simp add: unat_sub_le)
    have step: "write_to_block b 0 d n s = write_to_block c 0 (d + 512) (n - 512) ?s"
      using b(2) copy more nxt by (subst write_to_block.simps) (simp add: Let_def)
    have "fits (d + 512) (unat (n - 512) + 512)" using fits_shift [OF Cons.prems(4)] False n' by simp
    then have "write_to_block (hd bs) 0 (d + 512) (n - 512) ?s =
        Some (Inr (?s\<lparr>bytes := write_chunks (map (fd_data ?s) bs) (d + 512) (unat (n - 512)) (bytes ?s)\<rparr>))"
      using Cons.IH [of ?s "n - 512" "d + 512"] nx(2) bs Cons.prems(3) n' by simp
    then show ?thesis using step bs n' False by simp
  qed
qed simp

lemma read_chain:
  assumes "chain s bs" "bs \<noteq> []" "unat n \<le> 512 * length bs" "fits d (unat n + 512)" "unat n \<le> unat left" "fits d (unat left)"
  shows "read_from_block (hd bs) 0 d n left r s =
    Some (Inr (r + n, s\<lparr>bytes := read_chunks (map (fd_data s) bs) d (unat n) (bytes s)\<rparr>))"
  using assms
proof (induction bs arbitrary: n d left r s)
  case (Cons b bs)
  have b: "b \<noteq> NULL" "fd_data s b \<noteq> NULL" using Cons.prems(1) by (cases bs; simp)+
  have f512: "fits d 512" using Cons.prems(4) by (simp add: fits_def)
  show ?case
  proof (cases "unat n \<le> 512")
    case True
    then show ?thesis using read_in_block [of 0 n d b s left r] f512 b Cons.prems(5,6) by simp
  next
    case False
    then obtain c cs where bs: "bs = c # cs" using Cons.prems(3) by (cases bs) auto
    have nx: "fd_next s b = c" "chain s bs" using Cons.prems(1) bs by (auto elim: chain.elims)
    have e1: "unat (d + n) = unat d + unat n"
      using fits_end [OF Cons.prems(4), of "unat n"] by (simp add: of_nat_unat)
    have e2: "unat (d + 512 - 0) = unat d + 512" using block_end [OF f512, of 0] by simp
    have e3: "unat (d + left) = unat d + unat left"
      using fits_end [OF Cons.prems(6), of "unat left"] by (simp add: of_nat_unat)
    let ?m = "memcpy_loop d (fd_data s b) 512 (bytes s)" and ?s = "s\<lparr>bytes := memcpy_loop d (fd_data s b) 512 (bytes s)\<rparr>"
    have copy: "copy_from_block d (d + n) (d + 512 - 0) (d + left) (fd_data s b + 0) r (bytes s) = (d + 512, r + 512, ?m)"
      unfolding copy_from_block_eq e1 e2 e3 using False Cons.prems(5) by (simp add: Let_def min_def)
    have more: "d + 512 < d + n" using e1 e2 False by (simp add: word_less_nat_alt)
    have "512 \<le> n" "512 \<le> left" using False Cons.prems(5) by (simp_all add: word_le_nat_alt)
    then have n': "unat (n - 512) = unat n - 512" "unat (left - 512) = unat left - 512" by (simp_all add: unat_sub_le)
    have step: "read_from_block b 0 d n left r s = read_from_block c 0 (d + 512) (n - 512) (left - 512) (r + 512) ?s"
      using b copy more nx(1) by (subst read_from_block.simps) (simp add: Let_def)
    have "fits (d + 512) (unat (n - 512) + 512)" using fits_shift [OF Cons.prems(4)] False n' by simp
    moreover have "fits (d + 512) (unat (left - 512))"
      using Cons.prems(5,6) False n' e2 by (simp add: fits_def)
    ultimately have "read_from_block (hd bs) 0 (d + 512) (n - 512) (left - 512) (r + 512) ?s =
        Some (Inr (r + 512 + (n - 512), ?s\<lparr>bytes := read_chunks (map (fd_data ?s) bs) (d + 512) (unat (n - 512)) (bytes ?s)\<rparr>))"
      using Cons.IH [of ?s "n - 512" "d + 512" "left - 512" "r + 512"] nx(2) bs Cons.prems(3,5) n' by simp
    then show ?thesis using step bs n' False by simp
  qed
qed simp

text \<open>The bytes of a file with these data areas, and areas that do not overlap.\<close>

definition file_bytes :: "addr list \<Rightarrow> mem \<Rightarrow> u8 list" where
  "file_bytes as m = concat (map (\<lambda>a. bytes_at a 512 m) as)"

fun areas_apart :: "addr list \<Rightarrow> bool" where
  "areas_apart [] \<longleftrightarrow> True"
| "areas_apart (a # as) \<longleftrightarrow> (\<forall>b \<in> set as. region a 512 \<inter> region b 512 = {}) \<and> areas_apart as"

definition buffer_apart :: "addr \<Rightarrow> nat \<Rightarrow> addr list \<Rightarrow> bool" where
  "buffer_apart d n as \<longleftrightarrow> (\<forall>a \<in> set as. region d n \<inter> region a 512 = {})"

lemma region_shift: "k + n \<le> j \<Longrightarrow> region (a + of_nat k) n \<subseteq> region a j"
proof
  fix x
  assume kn: "k + n \<le> j" and "x \<in> region (a + of_nat k) n"
  then obtain i where "i < n" "x = a + of_nat (k + i)" by (auto simp: region_def add.assoc)
  then show "x \<in> region a j" using kn unfolding region_def by (intro image_eqI [of _ _ "k + i"]) auto
qed

lemma region_disjoint:
  assumes "k + n \<le> 2 ^ 64"
  shows "region a k \<inter> region (a + of_nat k) n = {}"
proof -
  have "a + of_nat i \<noteq> a + of_nat k + of_nat j" if "i < k" "j < n" for i j
  proof
    assume "a + of_nat i = a + of_nat k + of_nat j"
    then have "(of_nat i :: u64) = of_nat (k + j)" by (simp add: add.assoc)
    then show False using of_nat64_eq [of i "k + j"] that assms by simp
  qed
  then show ?thesis by (auto simp: region_def)
qed

lemma buffer_apart_shift: "buffer_apart d n as \<Longrightarrow> 512 \<le> n \<Longrightarrow> buffer_apart (d + 512) (n - 512) as"
  using region_shift [of 512 "n - 512" n d] unfolding buffer_apart_def by fastforce

lemma buffer_apart_cut: "buffer_apart d n as \<Longrightarrow> k \<le> n \<Longrightarrow> buffer_apart d k as"
  using region_mono [of k n d] unfolding buffer_apart_def by blast

lemma buffer_split: "512 \<le> n \<Longrightarrow> bytes_at d n m = bytes_at d 512 m @ bytes_at (d + 512) (n - 512) m"
  using bytes_at_append [of d 512 "n - 512" m] by simp

lemma file_bytes_Cons [simp]: "file_bytes (a # as) m = bytes_at a 512 m @ file_bytes as m"
  by (simp add: file_bytes_def)

lemma file_bytes_cong: "(\<And>a x. a \<in> set as \<Longrightarrow> x \<in> region a 512 \<Longrightarrow> m' x = m x) \<Longrightarrow> file_bytes as m' = file_bytes as m"
proof (induction as)
  case (Cons a as)
  have "bytes_at a 512 m' = bytes_at a 512 m" by (rule bytes_at_cong) (use Cons.prems in auto)
  moreover have "file_bytes as m' = file_bytes as m" by (rule Cons.IH) (use Cons.prems in auto)
  ultimately show ?case by simp
qed (simp add: file_bytes_def)

lemma write_chunks_outside: "\<forall>a \<in> set as. x \<notin> region a 512 \<Longrightarrow> write_chunks as d n m x = m x"
proof (induction as arbitrary: d n m)
  case (Cons a as)
  have out: "memcpy_loop a d k m x = m x" if "k \<le> 512" for k
    using memcpy_loop_outside [of x a k] region_mono [OF that, of a] Cons.prems by fastforce
  then show ?case using Cons by simp
qed simp

lemma write_chunks_bytes:
  assumes "n \<le> 512 * length as" "areas_apart as" "buffer_apart d n as"
  shows "take n (file_bytes as (write_chunks as d n m)) = bytes_at d n m"
  using assms
proof (induction as arbitrary: d n m)
  case (Cons a as)
  have da: "region a k \<inter> region d k = {}" if "k \<le> n" "k \<le> 512" for k
    using Cons.prems(3) region_mono [OF that(1), of d] region_mono [OF that(2), of a] by (auto simp: buffer_apart_def)
  show ?case
  proof (cases "n \<le> 512")
    case True
    let ?m = "memcpy_loop a d n m"
    have "bytes_at a 512 ?m = bytes_at a n ?m @ bytes_at (a + of_nat n) (512 - n) ?m"
      using bytes_at_append [of a n "512 - n" ?m] True by simp
    then show ?thesis using True memcpy_loop_bytes [of n a d m] da [of n] by simp
  next
    case False
    let ?m = "memcpy_loop a d 512 m"
    let ?w = "write_chunks as (d + 512) (n - 512) ?m"
    have "bytes_at a 512 ?w = bytes_at a 512 ?m"
    proof (rule bytes_at_cong)
      fix x
      assume "x \<in> region a 512"
      then have "\<forall>b \<in> set as. x \<notin> region b 512" using Cons.prems(2) by auto
      then show "?w x = ?m x" by (rule write_chunks_outside)
    qed
    also have "\<dots> = bytes_at d 512 m" using memcpy_loop_bytes [of 512 a d m] da [of 512] False by simp
    finally have first: "bytes_at a 512 ?w = bytes_at d 512 m" .
    have "bytes_at (d + 512) (n - 512) ?m = bytes_at (d + 512) (n - 512) m"
    proof (rule bytes_at_cong)
      fix x
      assume "x \<in> region (d + 512) (n - 512)"
      then have "x \<notin> region a 512" using region_shift [of 512 "n - 512" n d] False Cons.prems(3) by (auto simp: buffer_apart_def)
      then show "?m x = m x" by (rule memcpy_loop_outside)
    qed
    moreover have "take (n - 512) (file_bytes as ?w) = bytes_at (d + 512) (n - 512) ?m"
      using Cons.IH [of "n - 512" "d + 512" ?m] Cons.prems buffer_apart_shift [of d n as] False by (simp add: buffer_apart_def)
    ultimately show ?thesis using False first buffer_split [of n d m] by simp
  qed
qed (simp add: file_bytes_def)

lemma read_chunks_outside:
  "n \<le> 512 * length as \<Longrightarrow> x \<notin> region d n \<Longrightarrow> read_chunks as d n m x = m x"
proof (induction as arbitrary: d n m)
  case (Cons a as)
  show ?case
  proof (cases "n \<le> 512")
    case True
    then show ?thesis using memcpy_loop_outside Cons.prems by simp
  next
    case False
    then have "x \<notin> region d 512" "x \<notin> region (d + 512) (n - 512)"
      using Cons.prems(2) region_mono [of 512 n d] region_shift [of 512 "n - 512" n d] by auto
    then show ?thesis using Cons.IH [of "n - 512" "d + 512"] Cons.prems(1) False memcpy_loop_outside by simp
  qed
qed simp

lemma read_chunks_bytes:
  assumes "n \<le> 512 * length as" "buffer_apart d n as" "n \<le> 2 ^ 64 - 1"
  shows "bytes_at d n (read_chunks as d n m) = take n (file_bytes as m)"
  using assms
proof (induction as arbitrary: d n m)
  case (Cons a as)
  have da: "region d k \<inter> region a k = {}" if "k \<le> n" "k \<le> 512" for k
    using Cons.prems(2) region_mono [OF that(1), of d] region_mono [OF that(2), of a] by (auto simp: buffer_apart_def)
  show ?case
  proof (cases "n \<le> 512")
    case True
    have "bytes_at a 512 m = bytes_at a n m @ bytes_at (a + of_nat n) (512 - n) m"
      using bytes_at_append [of a n "512 - n" m] True by simp
    then show ?thesis using True memcpy_loop_bytes [of n d a m] da [of n] by simp
  next
    case False
    let ?m = "memcpy_loop d a 512 m"
    let ?r = "read_chunks as (d + 512) (n - 512) ?m"
    have n': "n - 512 \<le> 512 * length as" using Cons.prems(1) by simp
    have "bytes_at d 512 ?r = bytes_at d 512 ?m"
    proof (rule bytes_at_cong)
      fix x
      assume x: "x \<in> region d 512"
      have "region d 512 \<inter> region (d + 512) (n - 512) = {}"
        using region_disjoint [of 512 "n - 512" d] Cons.prems(3) False by simp
      then show "?r x = ?m x" using x read_chunks_outside [OF n'] by blast
    qed
    also have "\<dots> = bytes_at a 512 m" using memcpy_loop_bytes [of 512 d a m] da [of 512] False by simp
    finally have first: "bytes_at d 512 ?r = bytes_at a 512 m" .
    have "file_bytes as ?m = file_bytes as m"
    proof (rule file_bytes_cong)
      fix b x
      assume "b \<in> set as" "x \<in> region b 512"
      then have "x \<notin> region d 512" using Cons.prems(2) False region_mono [of 512 n d] by (auto simp: buffer_apart_def)
      then show "?m x = m x" by (rule memcpy_loop_outside)
    qed
    then have "bytes_at (d + 512) (n - 512) ?r = take (n - 512) (file_bytes as m)"
      using Cons.IH [OF n' _ _, of "d + 512" ?m] Cons.prems(2,3) buffer_apart_shift [of d n as] False by (simp add: buffer_apart_def)
    then show ?thesis using False first buffer_split [of n d ?r] by simp
  qed
qed (simp add: file_bytes_def)

end
