(* ===== verification/FileProps.thy ===== *)
theory FileProps
  imports FileBlocks "HOL-Library.Sublist"
begin

text \<open>
  The properties of files: what is written is read back, the free blocks are handed out one by
  one, and three behaviours of the code that its users have to know.
\<close>

section \<open>Files over a chain of blocks\<close>

definition file_ok :: "addr \<Rightarrow> addr list \<Rightarrow> 'a fs_scheme \<Rightarrow> bool" where
  "file_ok f bs s \<longleftrightarrow> n_opened s f \<and> bs \<noteq> [] \<and> n_list_head s f = hd bs \<and> chain s bs \<and>
     areas_apart (map (fd_data s) bs)"

lemma lock_sel [simp]:
  "n_opened (lock s) = n_opened s" "n_list_head (lock s) = n_list_head s" "n_size (lock s) = n_size s"
  "fd_next (lock s) = fd_next s" "fd_data (lock s) = fd_data s" "bytes (lock s) = bytes s"
  "fs_descriptors_head (lock s) = fs_descriptors_head s" "fd_prev (lock s) = fd_prev s"
  "preempt_cnt (lock s) = preempt_cnt s + 1"
  by (simp_all add: lock_def spin_defs)

lemma unlock_sel [simp]:
  "n_opened (unlock s) = n_opened s" "n_list_head (unlock s) = n_list_head s" "n_size (unlock s) = n_size s"
  "fd_next (unlock s) = fd_next s" "fd_data (unlock s) = fd_data s" "bytes (unlock s) = bytes s"
  "fs_descriptors_head (unlock s) = fs_descriptors_head s" "fd_prev (unlock s) = fd_prev s"
  "preempt_cnt (unlock s) = preempt_cnt s - 1"
  by (simp_all add: unlock_def spin_defs)

lemma chain_cong: "fd_next s' = fd_next s \<Longrightarrow> fd_data s' = fd_data s \<Longrightarrow> chain s' bs = chain s bs"
  by (induction s bs rule: chain.induct) auto

lemma chain_head: "chain s bs \<Longrightarrow> bs \<noteq> [] \<Longrightarrow> hd bs \<noteq> NULL \<and> fd_data s (hd bs) \<noteq> NULL"
  by (cases "(s, bs)" rule: chain.cases) auto

text \<open>The new size of the file: it only grows.\<close>

definition grown :: "addr \<Rightarrow> u64 \<Rightarrow> u64 \<Rightarrow> 'a fs_scheme \<Rightarrow> u64" where
  "grown f off n s = (if off + n > n_size s f then off + n else n_size s f)"

lemma write_file_eq:
  assumes "n_opened s f" "n_list_head s f \<noteq> NULL"
  shows "write_file f off d n s =
    bindO (write_to_block (n_list_head s f) off d n ((lock s)\<lparr>n_size := (n_size s)(f := grown f off n s)\<rparr>))
      (\<lambda>s. Some (Inr (unlock s)))"
proof -
  have eq: "(if off + n > n_size s f then (lock s)\<lparr>n_size := (n_size s)(f := off + n)\<rparr> else lock s)
      = (lock s)\<lparr>n_size := (n_size s)(f := grown f off n s)\<rparr>"
  proof (cases "off + n > n_size s f")
    case False
    have "n_size s = n_size (lock s)" by simp
    then show ?thesis using False by (simp add: grown_def del: lock_sel)
  qed (simp add: grown_def)
  show ?thesis
    using assms eq unfolding write_file_def Let_def by (cases "off + n > n_size s f") simp_all
qed

lemma read_file_eq:
  assumes "n_opened s f"
  shows "read_file f off d n s = bindO (read_from_block (n_list_head s f) off d n (n_size s f) 0 (lock s))
      (\<lambda>(r, s). Some (Inr (r, unlock s)))"
  using assms by (simp add: read_file_def Let_def)

lemma write_file_chain:
  assumes ok: "file_ok f bs s" and n: "unat n \<le> 512 * length bs" "fits d (unat n + 512)"
  shows "\<exists>s'. write_file f 0 d n s = Some (Inr s') \<and> file_ok f bs s' \<and> fd_data s' = fd_data s \<and>
    n_size s' f = grown f 0 n s \<and> bytes s' = write_chunks (map (fd_data s) bs) d (unat n) (bytes s) \<and>
    preempt_cnt s' = preempt_cnt s"
proof -
  let ?t = "(lock s)\<lparr>n_size := (n_size s)(f := grown f 0 n s)\<rparr>"
  have c: "chain ?t bs" using ok chain_cong [of ?t s bs] by (simp add: file_ok_def)
  have f: "n_opened s f" "n_list_head s f = hd bs" "bs \<noteq> []" "hd bs \<noteq> NULL"
    using ok chain_head by (auto simp: file_ok_def)
  let ?u = "?t\<lparr>bytes := write_chunks (map (fd_data s) bs) d (unat n) (bytes s)\<rparr>"
  have "write_file f 0 d n s = Some (Inr (unlock ?u))"
    using write_file_eq [of s f 0 d n] write_chain [OF c f(3) n] f by simp
  moreover have "file_ok f bs (unlock ?u)"
    using ok chain_cong [of "unlock ?u" s bs] by (simp add: file_ok_def)
  ultimately show ?thesis by (intro exI [of _ "unlock ?u"]) simp
qed

lemma read_file_chain:
  assumes ok: "file_ok f bs s" and n: "unat n \<le> 512 * length bs" "fits d (unat n + 512)"
    and sz: "unat n \<le> unat (n_size s f)" "fits d (unat (n_size s f))"
  shows "\<exists>s'. read_file f 0 d n s = Some (Inr (n, s')) \<and> file_ok f bs s' \<and>
    bytes s' = read_chunks (map (fd_data s) bs) d (unat n) (bytes s) \<and> preempt_cnt s' = preempt_cnt s"
proof -
  have c: "chain (lock s) bs" using ok chain_cong [of "lock s" s bs] by (simp add: file_ok_def)
  have f: "n_opened s f" "n_list_head s f = hd bs" "bs \<noteq> []" using ok by (auto simp: file_ok_def)
  let ?u = "(lock s)\<lparr>bytes := read_chunks (map (fd_data s) bs) d (unat n) (bytes s)\<rparr>"
  have "read_file f 0 d n s = Some (Inr (n, unlock ?u))"
    using read_file_eq [of s f 0 d n] read_chain [OF c f(3) n sz, of 0] f by simp
  moreover have "file_ok f bs (unlock ?u)"
    using ok chain_cong [of "unlock ?u" s bs] by (simp add: file_ok_def)
  ultimately show ?thesis by (intro exI [of _ "unlock ?u"]) simp
qed

lemma grown_ge: "unat n \<le> unat (grown f 0 n s)"
  by (auto simp: grown_def word_less_nat_alt)

section \<open>Free blocks\<close>

text \<open>The descriptors from \<open>p\<close> on, through \<^verbatim>\<open>next_\<close> up to \<^verbatim>\<open>NULL\<close>.\<close>

fun desc_list :: "'a fs_scheme \<Rightarrow> addr \<Rightarrow> addr list \<Rightarrow> bool" where
  "desc_list s p [] \<longleftrightarrow> p = NULL"
| "desc_list s p (b # bs) \<longleftrightarrow> p = b \<and> b \<noteq> NULL \<and> fd_data s b \<noteq> NULL \<and> desc_list s (fd_next s b) bs"

definition free_blocks :: "addr list \<Rightarrow> 'a fs_scheme \<Rightarrow> bool" where
  "free_blocks bs s \<longleftrightarrow> desc_list s (fs_descriptors_head s) bs"

lemma desc_list_cong: "fd_next s' = fd_next s \<Longrightarrow> fd_data s' = fd_data s \<Longrightarrow> desc_list s' p bs = desc_list s p bs"
  by (induction bs arbitrary: p) auto

lemma desc_list_chain: "desc_list s p bs \<Longrightarrow> chain s bs"
proof (induction bs arbitrary: p)
  case (Cons b bs)
  then show ?case by (cases bs) auto
qed simp

lemma get_fs_block_ok:
  assumes "free_blocks (b # bs) s"
  shows "\<exists>s'. get_fs_block s = Inr (b, s') \<and> free_blocks bs s' \<and> fd_next s' = fd_next s \<and> fd_data s' = fd_data s \<and>
    s' = s\<lparr>fs_descriptors_head := fs_descriptors_head s', fd_prev := fd_prev s'\<rparr>"
proof -
  have b: "fs_descriptors_head s = b" "b \<noteq> NULL" "desc_list s (fd_next s b) bs"
    using assms by (simp_all add: free_blocks_def)
  obtain s' where s': "get_fs_block s = Inr (b, s')" "fs_descriptors_head s' = fd_next s b"
    "s' = s\<lparr>fs_descriptors_head := fs_descriptors_head s', fd_prev := fd_prev s'\<rparr>"
    using b(1,2) by (auto simp: get_fs_block_def Let_def)
  have "fd_next s' = fd_next s" "fd_data s' = fd_data s" by (subst s'(3), simp)+
  then show ?thesis using s' b(3) desc_list_cong [of s' s] by (auto simp: free_blocks_def)
qed

section \<open>Comparison of names\<close>

lemma streq_prefix: "cstring a xs m \<Longrightarrow> cstring b ys m \<Longrightarrow> streq a b m = Some (prefix xs ys)"
proof (induction xs arbitrary: a b ys)
  case Nil
  then show ?case by (subst streq.simps) (simp add: cstring_Nil)
next
  case (Cons x xs)
  show ?case
  proof (cases ys)
    case Nil
    then show ?thesis using Cons.prems by (subst streq.simps) (auto simp: cstring_Cons cstring_Nil)
  next
    case (Cons y ys')
    then show ?thesis
      using Cons.prems Cons.IH [of "a + 1" "b + 1" ys'] by (subst streq.simps) (auto simp: cstring_Cons)
  qed
qed

section \<open>A small file system\<close>

text \<open>
  Two free blocks (descriptors at \<open>0x100\<close> and \<open>0x200\<close>), an opened empty file at \<open>0x9000\<close>, an opened
  file at \<open>0x9400\<close> with the chain of both blocks, and three names in memory.
\<close>

definition demo_fs :: fs where
  "demo_fs =
     \<lparr>ints_on = True, preempt_cnt = 0, ll = \<lparr>lh_next = (\<lambda>_. 0), lh_prev = (\<lambda>_. 0)\<rparr>, zones_head = 0x100,
      zone_begin = (\<lambda>_. 0), zone_end = (\<lambda>_. 0), flags = (\<lambda>_. 0), page_u = (\<lambda>_. 0), meta_offs = (\<lambda>_. 0),
      obj_count = (\<lambda>_. 0), mask_words = (\<lambda>_. 0), obj_size = (\<lambda>_. 0), pool_order = (\<lambda>_. 0), pool_page = (\<lambda>_. 0),
      pool_data = (\<lambda>_. 0), pool_free = (\<lambda>_. 0), bitmask = (\<lambda>_ _. 0), mem_pool = 0x8000,
      bytes = (\<lambda>_. 0)(0x600 := 97, 0x610 := 97, 0x611 := 98),
      fd_next = (\<lambda>_. 0)(0x100 := 0x200), fd_prev = (\<lambda>_. 0)(0x200 := 0x100), fd_data = (\<lambda>_. 0)(0x100 := 0x2000, 0x200 := 0x3000),
      n_type = (\<lambda>_. FILE), n_children = (\<lambda>_. 0), n_children_num = (\<lambda>_. 0), n_list_head = (\<lambda>_. 0)(0x9400 := 0x100),
      n_size = (\<lambda>_. 0), n_opened = (\<lambda>_. True), dn_next = (\<lambda>_. 0), dn_names = (\<lambda>_. 0), ptrs = (\<lambda>_. 0),
      fs_descriptors_head = 0x100, fs_root_ptr = 0x9000, root_name = 0x700\<rparr>"

lemma demo_file: "file_ok 0x9400 [0x100, 0x200] demo_fs"
proof -
  have "region 0x2000 512 \<inter> region 0x3000 512 = {}" by (rule region_apart) (simp_all add: fits_def)
  then show ?thesis by (simp add: file_ok_def demo_fs_def)
qed

section \<open>Properties\<close>

text \<open>
  C13. A file over a chain of blocks whose data areas do not overlap: writing \<open>n\<close> bytes from its start
  and reading \<open>n\<close> bytes back gives the bytes written, for every \<open>n\<close> up to the capacity of the chain,
  if the buffers are apart from the blocks. Both calls return, \<^verbatim>\<open>read\<close> with the count \<open>n\<close>.
\<close>

theorem file_roundtrip:
  assumes "file_ok f bs s" "unat n \<le> 512 * length bs" "fits src (unat n + 512)" "fits dst (unat n + 512)"
    and "fits dst (unat (grown f 0 n s))"
    and "buffer_apart src (unat n) (map (fd_data s) bs)" "buffer_apart dst (unat n) (map (fd_data s) bs)"
  shows "\<exists>s1 s2. write_file f 0 src n s = Some (Inr s1) \<and> read_file f 0 dst n s1 = Some (Inr (n, s2)) \<and>
    bytes_at dst (unat n) (bytes s2) = bytes_at src (unat n) (bytes s)"
proof -
  let ?as = "map (fd_data s) bs"
  obtain s1 where s1: "write_file f 0 src n s = Some (Inr s1)" "file_ok f bs s1" "fd_data s1 = fd_data s"
    "n_size s1 f = grown f 0 n s" "bytes s1 = write_chunks ?as src (unat n) (bytes s)"
    using write_file_chain [OF assms(1-3)] by blast
  have "unat n \<le> unat (n_size s1 f)" "fits dst (unat (n_size s1 f))" using grown_ge [of n f s] assms(5) s1(4) by simp_all
  then obtain s2 where s2: "read_file f 0 dst n s1 = Some (Inr (n, s2))" "bytes s2 = read_chunks ?as dst (unat n) (bytes s1)"
    using read_file_chain [OF s1(2) assms(2,4)] s1(3) by auto
  have len: "unat n \<le> 512 * length ?as" using assms(2) by simp
  have "bytes_at dst (unat n) (bytes s2) = take (unat n) (file_bytes ?as (bytes s1))"
    unfolding s2(2) using read_chunks_bytes [OF len assms(7)] unat64_less [of n] by simp
  also have "\<dots> = bytes_at src (unat n) (bytes s)"
    unfolding s1(5) by (rule write_chunks_bytes [OF len _ assms(6)]) (use assms(1) in \<open>simp add: file_ok_def\<close>)
  finally show ?thesis using s1(1) s2(1) by blast
qed

theorem file_roundtrip_witness:
  "\<exists>s1 s2. write_file 0x9400 0 0x5000 700 demo_fs = Some (Inr s1) \<and> read_file 0x9400 0 0x7000 700 s1 = Some (Inr (700, s2)) \<and>
    bytes_at 0x7000 (unat (700 :: u64)) (bytes s2) = bytes_at 0x5000 (unat (700 :: u64)) (bytes demo_fs)"
proof (rule file_roundtrip [OF demo_file])
  show "buffer_apart 0x5000 (unat (700 :: u64)) (map (fd_data demo_fs) [0x100, 0x200])"
    by (auto simp: buffer_apart_def demo_fs_def fits_def dest!: region_bounds [rotated])
  show "buffer_apart 0x7000 (unat (700 :: u64)) (map (fd_data demo_fs) [0x100, 0x200])"
    by (auto simp: buffer_apart_def demo_fs_def fits_def dest!: region_bounds [rotated])
qed (simp_all add: fits_def grown_def demo_fs_def)

text \<open>
  C14. Inside the first block a write at an offset is exact: \<open>n\<close> bytes go to the offset, every other
  byte of the memory stays, the size becomes the maximum of the old one and the end of the write,
  and the lock is released.
\<close>

theorem write_at_offset:
  assumes "n_opened s f" "n_list_head s f = b" "b \<noteq> NULL" "fd_data s b \<noteq> NULL"
    and "unat off + unat n \<le> 512" "fits d 512" "region (fd_data s b + off) (unat n) \<inter> region d (unat n) = {}"
  shows "\<exists>s'. write_file f off d n s = Some (Inr s') \<and>
    bytes_at (fd_data s b + off) (unat n) (bytes s') = bytes_at d (unat n) (bytes s) \<and>
    (\<forall>x. x \<notin> region (fd_data s b + off) (unat n) \<longrightarrow> bytes s' x = bytes s x) \<and>
    unat (n_size s' f) = max (unat (n_size s f)) (unat off + unat n) \<and> preempt_cnt s' = preempt_cnt s"
proof -
  let ?t = "(lock s)\<lparr>n_size := (n_size s)(f := grown f off n s)\<rparr>"
  let ?m = "memcpy_loop (fd_data s b + off) d (unat n) (bytes s)"
  have "write_to_block b off d n ?t = Some (Inr (?t\<lparr>bytes := ?m\<rparr>))"
    using write_in_block [of off n d ?t b] assms(4,5,6) by simp
  then have w: "write_file f off d n s = Some (Inr (unlock (?t\<lparr>bytes := ?m\<rparr>)))"
    using write_file_eq [of s f off d n] assms(1-3) by simp
  have "unat (off + n) = unat off + unat n" using assms(5) by (subst unat_add_no_wrap) simp_all
  then have "unat (grown f off n s) = max (unat (n_size s f)) (unat off + unat n)"
    by (auto simp: grown_def word_less_nat_alt max_def)
  moreover have "bytes_at (fd_data s b + off) (unat n) ?m = bytes_at d (unat n) (bytes s)"
    by (rule memcpy_loop_bytes) (use assms(5,7) in auto)
  moreover have "?m x = bytes s x" if "x \<notin> region (fd_data s b + off) (unat n)" for x
    using that by (rule memcpy_loop_outside)
  ultimately show ?thesis using w by (intro exI [of _ "unlock (?t\<lparr>bytes := ?m\<rparr>)"]) simp
qed

theorem write_at_offset_witness:
  "\<exists>s'. write_file 0x9400 100 0x5000 50 demo_fs = Some (Inr s') \<and>
    bytes_at (fd_data demo_fs 0x100 + 100) (unat (50 :: u64)) (bytes s') = bytes_at 0x5000 (unat (50 :: u64)) (bytes demo_fs) \<and>
    (\<forall>x. x \<notin> region (fd_data demo_fs 0x100 + 100) (unat (50 :: u64)) \<longrightarrow> bytes s' x = bytes demo_fs x) \<and>
    unat (n_size s' 0x9400) = max (unat (n_size demo_fs 0x9400)) (unat (100 :: u64) + unat (50 :: u64)) \<and>
    preempt_cnt s' = preempt_cnt demo_fs"
proof (rule write_at_offset)
  show "region (fd_data demo_fs 0x100 + 100) (unat (50 :: u64)) \<inter> region 0x5000 (unat (50 :: u64)) = {}"
    by (rule region_apart) (simp_all add: fits_def demo_fs_def)
qed (simp_all add: demo_fs_def fits_def)

text \<open>
  C15. \<^verbatim>\<open>streq\<close> is not equality: it accepts every name the looked-up name is a prefix of. So
  \<^verbatim>\<open>find_node\<close> may return a file with a longer name.
\<close>

theorem streq_is_prefix:
  assumes "cstring a xs m" "cstring b ys m"
  shows "streq a b m = Some (prefix xs ys)"
  using assms by (rule streq_prefix)

theorem streq_is_prefix_witness: "streq 0x600 0x610 (bytes demo_fs) = Some (prefix [97 :: u8] [97, 98])"
  by (rule streq_is_prefix) (simp_all add: cstring_Cons cstring_Nil demo_fs_def)

text \<open>
  \<^verbatim>\<open>get_fs_block\<close> takes the first free descriptor and leaves the others, and stops the kernel when
  there is none.
\<close>

theorem get_fs_block_pops:
  assumes "free_blocks bs s"
  shows "case bs of [] \<Rightarrow> get_fs_block s = Inl (Bug ''no filesystem free blocks left'')
    | b # bs' \<Rightarrow> \<exists>s'. get_fs_block s = Inr (b, s') \<and> free_blocks bs' s'"
  using assms get_fs_block_ok [of _ _ s] by (cases bs) (auto simp: free_blocks_def get_fs_block_def)

theorem get_fs_block_pops_witness: "\<exists>s'. get_fs_block demo_fs = Inr (0x100, s') \<and> free_blocks [0x200] s'"
  using get_fs_block_pops [of "[0x100, 0x200]" demo_fs] by (simp add: free_blocks_def demo_fs_def)

text \<open>
  C16. A block that \<^verbatim>\<open>get_fs_block\<close> hands out keeps its \<^verbatim>\<open>next_\<close>, so a file that grows past its first
  block continues in the next free block without taking it: after writing 513 to 1024 bytes to an
  empty file, its second block is still the first one on the free list, and the next file that
  needs a block gets the same one.
\<close>

theorem second_block_still_free:
  assumes "free_blocks (b # c # bs) s" "n_opened s f" "n_list_head s f = NULL"
    and "512 < unat n" "unat n \<le> 1024" "fits d (unat n + 512)"
  shows "\<exists>s' s''. write_file f 0 d n s = Some (Inr s') \<and> n_list_head s' f = b \<and> fd_next s' b = c \<and>
    get_fs_block s' = Inr (c, s'')"
proof -
  let ?t = "(lock s)\<lparr>n_size := (n_size s)(f := grown f 0 n s)\<rparr>"
  have "free_blocks (b # c # bs) ?t"
    using assms(1) desc_list_cong [of ?t s] by (simp add: free_blocks_def)
  then obtain t where t: "get_fs_block ?t = Inr (b, t)" "free_blocks (c # bs) t" "fd_next t = fd_next ?t" "fd_data t = fd_data ?t"
    "t = ?t\<lparr>fs_descriptors_head := fs_descriptors_head t, fd_prev := fd_prev t\<rparr>"
    using get_fs_block_ok by blast
  let ?u = "t\<lparr>n_list_head := (n_list_head t)(f := b)\<rparr>"
  have lst: "desc_list s b [b, c] \<or> chain s [b, c]" "fd_next s b = c"
    using assms(1) by (auto simp: free_blocks_def)
  have "chain s [b, c]" using assms(1) by (auto simp: free_blocks_def)
  then have c: "chain ?u [b, c]" using chain_cong [of ?u s "[b, c]"] t(3,4) by simp
  let ?v = "?u\<lparr>bytes := write_chunks (map (fd_data ?u) [b, c]) d (unat n) (bytes ?u)\<rparr>"
  have w: "write_to_block b 0 d n ?u = Some (Inr ?v)"
    using write_chain [OF c _ _ assms(6)] assms(5) by simp
  have sz: "(if n > n_size s f then (lock s)\<lparr>n_size := (n_size s)(f := n)\<rparr> else lock s) = ?t"
  proof (cases "n > n_size s f")
    case False
    have "n_size s = n_size (lock s)" by simp
    then show ?thesis using False by (simp add: grown_def del: lock_sel)
  qed (simp add: grown_def)
  have "write_file f 0 d n s = Some (Inr (unlock ?v))"
    using assms(2,3) sz t(1) w unfolding write_file_def Let_def
    by (cases "n > n_size s f") simp_all
  moreover have "free_blocks (c # bs) (unlock ?v)"
    using t(2) desc_list_cong [of "unlock ?v" t] by (simp add: free_blocks_def)
  then obtain s'' where "get_fs_block (unlock ?v) = Inr (c, s'')" using get_fs_block_ok by blast
  moreover have "n_list_head (unlock ?v) f = b" "fd_next (unlock ?v) b = c" using t(3) lst(2) by simp_all
  ultimately show ?thesis by blast
qed

theorem second_block_still_free_witness:
  "\<exists>s' s''. write_file 0x9000 0 0x5000 600 demo_fs = Some (Inr s') \<and> n_list_head s' 0x9000 = 0x100 \<and> fd_next s' 0x100 = 0x200 \<and>
    get_fs_block s' = Inr (0x200, s'')"
  by (rule second_block_still_free [where bs = "[]"]) (simp_all add: free_blocks_def demo_fs_def fits_def)

text \<open>
  A write that starts at a positive offset and crosses the end of the block loses its tail: of
  \<open>n < 512\<close> bytes only the first \<open>512 - off\<close> are stored, the rest is written nowhere, although the size
  of the file covers it.
\<close>

theorem crossing_write_loses_tail:
  assumes "chain s [b, c]" "unat off \<le> 512" "512 < unat off + unat n" "unat n < 512" "fits d 1024" "512 \<le> unat d"
  shows "write_to_block b off d n s =
    Some (Inr (s\<lparr>bytes := memcpy_loop (fd_data s b + off) d (512 - unat off) (bytes s)\<rparr>))"
proof -
  have bc: "fd_data s b \<noteq> NULL" "fd_next s b = c" "c \<noteq> NULL" "fd_data s c \<noteq> NULL" using assms(1) by auto
  have f512: "fits d 512" using assms(5) by (simp add: fits_def)
  let ?k = "512 - unat off"
  let ?s = "s\<lparr>bytes := memcpy_loop (fd_data s b + off) d ?k (bytes s)\<rparr>"
  have e1: "unat (d + n) = unat d + unat n" using fits_end [OF f512, of "unat n"] assms(4) by simp
  note e2 = block_end [OF f512 assms(2)]
  have ek: "unat (d + of_nat ?k) = unat d + ?k" by (rule fits_end [OF f512]) simp
  have k: "min (unat d + unat n - unat d) (unat d + ?k - unat d) = ?k" using assms(3) by simp
  have copy: "copy_to_block d (d + n) (d + FS_BLOCK_SIZE - off) (fd_data s b + off) (bytes s) = (d + of_nat ?k, bytes ?s)"
    unfolding copy_to_block_eq e1 e2 Let_def k by simp
  have more: "d + of_nat ?k < d + n" using ek e1 assms(2,3) by (simp add: word_less_nat_alt)
  have le: "\<not> FS_BLOCK_SIZE < off" using assms(2) by (simp add: word_less_nat_alt)
  have step: "write_to_block b off d n s = write_to_block c 0 (d + of_nat ?k) (n - FS_BLOCK_SIZE) ?s"
    using bc(1-3) copy more le by (subst write_to_block.simps) (simp add: Let_def next_block_def)
  have neg: "d + of_nat ?k + (n - FS_BLOCK_SIZE) = d + n - off"
    using assms(2) by (simp add: of_nat_diff)
  have "unat (d + n - off) = unat (d + n) - unat off"
    by (rule unat_sub_le) (use assms(2,6) e1 in \<open>simp add: word_le_nat_alt\<close>)
  then have low: "unat (d + of_nat ?k + (n - FS_BLOCK_SIZE)) \<le> unat (d + of_nat ?k)"
    unfolding neg ek using e1 assms(2,4) by simp
  have "write_to_block c 0 (d + of_nat ?k) (n - FS_BLOCK_SIZE) ?s = Some (Inr ?s)"
    using bc(4) low by (subst write_to_block.simps) (simp add: copy_to_block_eq word_less_nat_alt)
  then show ?thesis using step by simp
qed

theorem crossing_write_loses_tail_witness:
  "write_to_block 0x100 100 0x5000 500 demo_fs =
    Some (Inr (demo_fs\<lparr>bytes := memcpy_loop (fd_data demo_fs 0x100 + 100) 0x5000 (512 - unat (100 :: u64)) (bytes demo_fs)\<rparr>))"
  by (rule crossing_write_loses_tail [where c = "0x200"]) (simp_all add: demo_fs_def fits_def)

end
