(* ===== verification/Threads.thy ===== *)
theory Threads
  imports Slab
begin

text \<open>
  Threads and the scheduler of \<^verbatim>\<open>src/threads.c\<close>, with the stack switch of \<^verbatim>\<open>src/switch.S\<close> and the clock
  of \<^verbatim>\<open>src/time.c\<close>. The fields of a \<^verbatim>\<open>struct thread\<close> are indexed by its address, which is also the
  address of its list node. The state is that of the processor: when a call switches stacks, the
  operation goes on in the thread that was switched to, and the locals of the suspended call stay
  with its saved frame until another call switches back.
\<close>

section \<open>State\<close>

datatype thread_state = THREAD_IDLE | THREAD_ACTIVE | THREAD_BLOCKED | THREAD_FINISHING | THREAD_FINISHED

record callee_saved =
  r15 :: u64
  r14 :: u64
  r13 :: u64
  r12 :: u64
  rbx :: u64
  rbp :: u64

record thread_switch_frame = callee_saved +
  rflags :: u64
  rip :: addr

record threads = slab +
  t_state :: "addr \<Rightarrow> thread_state"      \<comment> \<open>fields of \<^verbatim>\<open>struct thread\<close>\<close>
  t_time :: "addr \<Rightarrow> u64"
  t_stack :: "addr \<Rightarrow> addr"
  t_stack_addr :: "addr \<Rightarrow> addr"
  t_stack_order :: "addr \<Rightarrow> nat"
  t_stack_ptr :: "addr \<Rightarrow> addr"
  frames :: "addr \<Rightarrow> thread_switch_frame" \<comment> \<open>saved registers, by stack pointer\<close>
  k_self :: "addr \<Rightarrow> addr"               \<comment> \<open>locals of the suspended calls, by stack pointer\<close>
  k_enable :: "addr \<Rightarrow> bool"
  regs :: callee_saved                  \<comment> \<open>the processor\<close>
  rsp :: addr
  thread_cache :: addr                  \<comment> \<open>addresses of static variables and code\<close>
  runqueue :: addr
  entry_ip :: addr                      \<comment> \<open>\<^verbatim>\<open>__thread_entry\<close>\<close>
  switch_ip :: addr                     \<comment> \<open>after the call in \<^verbatim>\<open>thread_switch_to\<close>\<close>
  current :: addr
  idle_thread :: addr
  jiffies :: u64                        \<comment> \<open>src/time.c\<close>

abbreviation (input) STACK_ORDER :: nat where "STACK_ORDER \<equiv> 1"
abbreviation (input) SLICE :: u64 where "SLICE \<equiv> 10"

definition thread_current :: "'a threads_scheme \<Rightarrow> addr" where
  "thread_current s = current s"

definition current_time :: "'a threads_scheme \<Rightarrow> u64" where
  "current_time s = jiffies s"

definition set_state :: "addr \<Rightarrow> thread_state \<Rightarrow> 'a threads_scheme \<Rightarrow> 'a threads_scheme" where
  "set_state t st s = s\<lparr>t_state := (t_state s)(t := st)\<rparr>"

section \<open>Creating threads\<close>

definition thread_alloc :: "'a threads_scheme \<Rightarrow> (addr \<times> 'a threads_scheme) res option" where
  "thread_alloc s = mem_cache_alloc (thread_cache s) s"

definition thread_free :: "addr \<Rightarrow> 'a threads_scheme \<Rightarrow> 'a threads_scheme res" where
  "thread_free thread s = mem_cache_free (thread_cache s) thread s"

text \<open>
  \<^verbatim>\<open>sizeof(struct thread)\<close> is 64; \<^verbatim>\<open>memset\<close> gets the size of the pointer and clears the first eight bytes,
  the next link.
\<close>

definition threads_setup :: "'a threads_scheme \<Rightarrow> 'a threads_scheme res option" where
  "threads_setup s = bindO (mem_cache_setup (thread_cache s) 64 64 s) (\<lambda>s.
     let s = spin_setup s;
         s = s\<lparr>ll := list_init (runqueue s) (ll s)\<rparr>
     in bindO (thread_alloc s) (\<lambda>(t, s).
       let s = s\<lparr>current := t\<rparr> in
       if current s = NULL then Some (Inl (Bug ''!current''))
       else let s = s\<lparr>ll := set_next (current s) NULL (ll s)\<rparr>
         in Some (Inr (set_state (current s) THREAD_ACTIVE s))))"

text \<open>
  The frame a new thread starts from; \<open>r15\<close> and \<open>rbx\<close> keep what the memory held. The frame is 64 bytes.
\<close>

definition raw_thread_create ::
  "addr \<Rightarrow> addr \<Rightarrow> nat \<Rightarrow> 'a threads_scheme \<Rightarrow> (addr \<times> 'a threads_scheme) res option" where
  "raw_thread_create fptr arg order s =
     (let stack_size = push_bit (PAGE_SHIFT + order) 1 in
      bindO (raw_page_alloc order s) (\<lambda>(stack, s).
      if stack = NULL then Some (Inr (NULL, s))
      else bindO (thread_alloc s) (\<lambda>(thread, s).
        if thread = NULL then Some (Inl (Fault ''null pointer''))
        else bindO (page_addr stack s) (\<lambda>a.
          let s = s\<lparr>t_stack := (t_stack s)(thread := stack)\<rparr>;
              s = s\<lparr>t_stack_order := (t_stack_order s)(thread := order)\<rparr>;
              s = s\<lparr>t_stack_addr := (t_stack_addr s)(thread := va a)\<rparr>;
              s = s\<lparr>t_stack_ptr := (t_stack_ptr s)(thread := t_stack_addr s thread + stack_size - 64)\<rparr>;
              s = set_state thread THREAD_BLOCKED s;
              frame = t_stack_ptr s thread;
              s = s\<lparr>frames := (frames s)(frame := (frames s frame)
                     \<lparr>r12 := thread, r13 := fptr, r14 := arg, rbp := 0, rflags := 4, rip := entry_ip s\<rparr>)\<rparr>
          in Some (Inr (thread, s))))))"

definition thread_create :: "addr \<Rightarrow> addr \<Rightarrow> 'a threads_scheme \<Rightarrow> (addr \<times> 'a threads_scheme) res option" where
  "thread_create fptr arg s = raw_thread_create fptr arg STACK_ORDER s"

definition thread_destroy :: "addr \<Rightarrow> 'a threads_scheme \<Rightarrow> 'a threads_scheme res option" where
  "thread_destroy thread s = bindO (raw_page_free (t_stack s thread) (t_stack_order s thread) s) (\<lambda>s.
     Some (thread_free thread s))"

definition thread_activate :: "addr \<Rightarrow> 'a threads_scheme \<Rightarrow> 'a threads_scheme" where
  "thread_activate thread s =
     (let (enable, s) = spin_lock_irqsave s;
          s = set_state thread THREAD_ACTIVE s;
          s = s\<lparr>ll := list_add_tail thread (runqueue s) (ll s)\<rparr>
      in spin_unlock_irqrestore enable s)"

section \<open>Switching\<close>

definition place_thread :: "addr \<Rightarrow> 'a threads_scheme \<Rightarrow> 'a threads_scheme" where
  "place_thread nxt s =
     (let prev = thread_current s;
          s = (if t_state s prev = THREAD_FINISHING then set_state prev THREAD_FINISHED s else s);
          s = spin_lock s;
          s = (if t_state s prev = THREAD_ACTIVE then s\<lparr>ll := list_add_tail prev (runqueue s) (ll s)\<rparr> else s);
          s = spin_unlock s;
          s = s\<lparr>current := nxt\<rparr>
      in s\<lparr>t_time := (t_time s)(nxt := current_time s)\<rparr>)"

text \<open>
  \<^verbatim>\<open>__thread_switch\<close>: the call pushes its return address, the code the callee-saved registers and
  the flags (bit 9 is the interrupt flag, bit 1 is always set); then the stack pointer is exchanged and
  the same words are popped. The locals \<open>self\<close> and \<open>enable\<close> of the calls it suspends stay on their stack.
  The result is the address \<^verbatim>\<open>ret\<close> goes to.
\<close>

definition raw_thread_switch ::
  "addr \<Rightarrow> bool \<Rightarrow> addr \<Rightarrow> 'a threads_scheme \<Rightarrow> addr \<times> 'a threads_scheme" where
  "raw_thread_switch self enable next_state s =
     (let sp = rsp s - 64;
          s = s\<lparr>frames := (frames s)(sp := callee_saved.extend (regs s)
                 \<lparr>rflags = (if ints_on s then 0x202 else 2), rip = switch_ip s\<rparr>),
                k_self := (k_self s)(sp := self), k_enable := (k_enable s)(sp := enable)\<rparr>;
          s = s\<lparr>t_stack_ptr := (t_stack_ptr s)(self := sp)\<rparr>;
          fr = frames s next_state;
          s = s\<lparr>rsp := next_state + 64, regs := callee_saved.truncate fr, ints_on := bit (rflags fr) 9\<rparr>
      in (rip fr, s))"

text \<open>
  What the processor does after a switch: a suspended call of \<^verbatim>\<open>__schedule\<close> returns to its caller,
  whose local \<open>enable\<close> is given, or a new thread runs its function.
\<close>

datatype resumed = Back bool | Entered addr addr

definition thread_entry :: "addr \<Rightarrow> addr \<Rightarrow> addr \<Rightarrow> 'a threads_scheme \<Rightarrow> resumed \<times> 'a threads_scheme" where
  "thread_entry thread fptr arg s =
     (let s = place_thread thread s; s = enable_ints s in (Entered fptr arg, s))"

definition thread_switch_to :: "addr \<Rightarrow> bool \<Rightarrow> 'a threads_scheme \<Rightarrow> (resumed \<times> 'a threads_scheme) res" where
  "thread_switch_to nxt enable s =
     (let self = thread_current s;
          next_state = t_stack_ptr s nxt;
          (ip, s) = raw_thread_switch self enable next_state s
      in if ip = entry_ip s then Inr (thread_entry (r12 (regs s)) (r13 (regs s)) (r14 (regs s)) s)
         else if ip = switch_ip s
         then Inr (Back (k_enable s next_state), place_thread (k_self s next_state) s)
         else Inl (Fault ''corrupt stack''))"

section \<open>Scheduling\<close>

text \<open>\<^verbatim>\<open>__schedule\<close>, with the local \<open>enable\<close> of its caller.\<close>

definition raw_schedule :: "bool \<Rightarrow> bool \<Rightarrow> 'a threads_scheme \<Rightarrow> (resumed \<times> 'a threads_scheme) res" where
  "raw_schedule force enable s =
     (let time = current_time s; prev = thread_current s; nxt = idle_thread s in
      if \<not> force \<and> t_state s prev = THREAD_ACTIVE \<and> time - t_time s prev < SLICE then Inr (Back enable, s)
      else let s = spin_lock s;
               (nxt, s) = (if \<not> list_empty (runqueue s) (ll s)
                           then let nxt = list_first (runqueue s) (ll s) in (nxt, s\<lparr>ll := list_del nxt (ll s)\<rparr>)
                           else (nxt, s));
               s = spin_unlock s
        in if prev = nxt then Inr (Back enable, s)
           else if nxt \<noteq> NULL \<and> (nxt \<noteq> idle_thread s \<or> t_state s prev \<noteq> THREAD_ACTIVE)
           then thread_switch_to nxt enable s
           else Inr (Back enable, s))"

text \<open>The end of \<^verbatim>\<open>schedule\<close> and \<^verbatim>\<open>force_schedule\<close>, in whichever thread goes on.\<close>

definition restore_ints :: "resumed \<times> 'a threads_scheme \<Rightarrow> (addr \<times> addr) option \<times> 'a threads_scheme" where
  "restore_ints = (\<lambda>(r, s). case r of Back enable \<Rightarrow> (None, if enable then enable_ints s else s)
     | Entered fptr arg \<Rightarrow> (Some (fptr, arg), s))"

definition schedule :: "'a threads_scheme \<Rightarrow> ((addr \<times> addr) option \<times> 'a threads_scheme) res" where
  "schedule s =
     (if preempt_cnt s \<noteq> 0 then Inr (None, s)
      else let enable = ints_enabled s; s = disable_ints s
        in bindR (raw_schedule False enable s) (\<lambda>x. Inr (restore_ints x)))"

definition force_schedule :: "'a threads_scheme \<Rightarrow> ((addr \<times> addr) option \<times> 'a threads_scheme) res" where
  "force_schedule s =
     (if preempt_cnt s \<noteq> 0 then Inl (Bug ''preempt_cnt'')
      else let enable = ints_enabled s; s = disable_ints s
        in bindR (raw_schedule True enable s) (\<lambda>x. Inr (restore_ints x)))"

text \<open>
  The loops around \<^verbatim>\<open>force_schedule\<close>: they go on as long as the call returns in the same thread, and are
  suspended when it does not. If there is no other thread to run, an exit spins for ever.
\<close>

partial_function (option) schedule_loop ::
  "'a threads_scheme \<Rightarrow> ((addr \<times> addr) option \<times> 'a threads_scheme) res option" where
  "schedule_loop s = bindO (Some (force_schedule s)) (\<lambda>(r, s').
     if current s' = current s then schedule_loop s' else Some (Inr (r, s')))"

definition thread_exit :: "'a threads_scheme \<Rightarrow> ((addr \<times> addr) option \<times> 'a threads_scheme) res option" where
  "thread_exit s = schedule_loop (set_state (thread_current s) THREAD_FINISHING s)"

text \<open>One round of \<^verbatim>\<open>thread_join\<close>; the flag tells that the loop is left.\<close>

definition thread_join ::
  "addr \<Rightarrow> 'a threads_scheme \<Rightarrow> (bool \<times> (addr \<times> addr) option \<times> 'a threads_scheme) res" where
  "thread_join thread s =
     (if t_state s thread \<noteq> THREAD_FINISHED
      then bindR (force_schedule s) (\<lambda>(r, s). Inr (False, r, s))
      else Inr (True, None, s))"

definition idle :: "'a threads_scheme \<Rightarrow> ((addr \<times> addr) option \<times> 'a threads_scheme) res option" where
  "idle s =
     (let self = thread_current s in
      if idle_thread s \<noteq> NULL then Some (Inl (Bug ''idle_thread''))
      else let s = s\<lparr>idle_thread := self\<rparr>; s = set_state self THREAD_IDLE s in schedule_loop s)"

section \<open>The clock\<close>

definition pit_handler :: "'a threads_scheme \<Rightarrow> ((addr \<times> addr) option \<times> 'a threads_scheme) res" where
  "pit_handler s = (let s = s\<lparr>jiffies := jiffies s + 1\<rparr> in schedule s)"

end
