(* ===== verification/Scheduler.thy ===== *)
theory Scheduler
  imports Threads
begin

text \<open>
  The scheduler against an abstract one: a running thread, a queue of ready threads and the state of
  every thread. A representation relation ties the two; each operation of \<^verbatim>\<open>src/threads.c\<close> is shown to
  implement the abstract operation, and to give every thread its own registers back.
\<close>

section \<open>The abstract scheduler\<close>

record asched =
  running :: addr
  ready :: "addr list"
  tstate :: "addr \<Rightarrow> thread_state"
  idler :: addr

definition a_run :: "addr \<Rightarrow> asched \<Rightarrow> asched" where
  "a_run r A =
     (let p = running A in
      A\<lparr>running := r,
        ready := ready A @ (if tstate A p = THREAD_ACTIVE then [p] else []),
        tstate := (if tstate A p = THREAD_FINISHING then (tstate A)(p := THREAD_FINISHED) else tstate A)\<rparr>)"

definition a_yield :: "asched \<Rightarrow> asched" where
  "a_yield A =
     (case ready A of
        r # rs \<Rightarrow> a_run r (A\<lparr>ready := rs\<rparr>)
      | [] \<Rightarrow> if idler A \<noteq> NULL \<and> idler A \<noteq> running A \<and> tstate A (running A) \<noteq> THREAD_ACTIVE
              then a_run (idler A) A else A)"

definition a_set :: "addr \<Rightarrow> thread_state \<Rightarrow> asched \<Rightarrow> asched" where
  "a_set t st A = A\<lparr>tstate := (tstate A)(t := st)\<rparr>"

definition a_activate :: "addr \<Rightarrow> asched \<Rightarrow> asched" where
  "a_activate t A = (a_set t THREAD_ACTIVE A)\<lparr>ready := ready A @ [t]\<rparr>"

section \<open>Representation\<close>

text \<open>
  A thread that does not run has a frame to go on from: a new one, made for it, or one its own call
  left. In both, interrupts are off until the thread has been placed.
\<close>

definition suspended :: "addr \<Rightarrow> 'a threads_scheme \<Rightarrow> bool" where
  "suspended t s \<longleftrightarrow>
     (let sp = t_stack_ptr s t; fr = frames s sp in
      \<not> bit (rflags fr) 9 \<and>
      (rip fr = entry_ip s \<and> r12 fr = t \<or> rip fr = switch_ip s \<and> k_self s sp = t))"

text \<open>
  \<open>contexts T s\<close>: the threads of \<open>T\<close> that do not run are suspended, on stacks of their own, and the running
  one pushes its next frame on none of theirs.
\<close>

definition contexts :: "addr set \<Rightarrow> 'a threads_scheme \<Rightarrow> bool" where
  "contexts T s \<longleftrightarrow>
     entry_ip s \<noteq> switch_ip s \<and>
     (\<forall>t \<in> T - {current s}. suspended t s) \<and> inj_on (t_stack_ptr s) (T - {current s}) \<and>
     rsp s - 64 \<notin> t_stack_ptr s ` (T - {current s})"

text \<open>The abstract states that make sense: every active thread is running or ready, and nothing else is ready.\<close>

definition asched_ok :: "addr set \<Rightarrow> asched \<Rightarrow> bool" where
  "asched_ok T A \<longleftrightarrow>
     NULL \<notin> T \<and> running A \<in> T \<and> set (ready A) \<subseteq> T \<and> distinct (running A # ready A) \<and>
     (\<forall>t \<in> T. t \<in> set (ready A) \<longleftrightarrow> t \<noteq> running A \<and> tstate A t = THREAD_ACTIVE) \<and>
     (idler A \<noteq> NULL \<longrightarrow> idler A \<in> T \<and> tstate A (idler A) = THREAD_IDLE)"

definition sched_rep :: "addr set \<Rightarrow> lfamily \<Rightarrow> asched \<Rightarrow> 'a threads_scheme \<Rightarrow> bool" where
  "sched_rep T L A s \<longleftrightarrow>
     asched_ok T A \<and> contexts T s \<and> heap_lists (ll s) L \<and> L (runqueue s) = Some (ready A) \<and>
     members L \<inter> T = set (ready A) \<and>
     running A = current s \<and> tstate A = t_state s \<and> idler A = idle_thread s"

section \<open>The abstract scheduler keeps its invariant\<close>

lemma a_run_ok:
  assumes "asched_ok T A" "r \<in> T" "r \<noteq> running A" "tstate A r \<noteq> THREAD_ACTIVE"
  shows "asched_ok T (a_run r A)"
  using assms by (auto simp: asched_ok_def a_run_def Let_def)

lemma a_yield_Cons_ok:
  assumes "asched_ok T A" "ready A = r # rs"
  shows "asched_ok T (a_yield A)"
  using assms by (auto simp: asched_ok_def a_yield_def a_run_def Let_def)

lemma a_yield_ok: "asched_ok T A \<Longrightarrow> asched_ok T (a_yield A)"
proof (cases "ready A")
  case Nil
  assume ok: "asched_ok T A"
  show ?thesis
  proof (cases "idler A \<noteq> NULL \<and> idler A \<noteq> running A \<and> tstate A (running A) \<noteq> THREAD_ACTIVE")
    case True
    then show ?thesis using a_run_ok [OF ok, of "idler A"] ok Nil by (simp add: a_yield_def asched_ok_def)
  next
    case False
    then have "a_yield A = A" using Nil by (auto simp: a_yield_def)
    then show ?thesis using ok by simp
  qed
qed (use a_yield_Cons_ok in blast)

lemma a_activate_ok:
  assumes "asched_ok T A" "t \<in> T" "t \<noteq> running A" "tstate A t = THREAD_BLOCKED"
  shows "asched_ok T (a_activate t A)"
  using assms by (auto simp: asched_ok_def a_activate_def a_set_def)

lemma a_set_running_ok:
  assumes "asched_ok T A" "idler A \<noteq> running A"
  shows "asched_ok T (a_set (running A) st A)"
  using assms by (auto simp: asched_ok_def a_set_def)

section \<open>Switching implements it\<close>

definition ended :: "thread_state \<Rightarrow> thread_state" where
  "ended st = (if st = THREAD_FINISHING then THREAD_FINISHED else st)"

lemma ended_simps [simp]: "ended THREAD_ACTIVE = THREAD_ACTIVE" "ended st = THREAD_ACTIVE \<longleftrightarrow> st = THREAD_ACTIVE"
  by (auto simp: ended_def)

lemma place_thread_eq:
  "place_thread n s = s\<lparr>
     t_state := (t_state s)(current s := ended (t_state s (current s))),
     ll := (if t_state s (current s) = THREAD_ACTIVE then list_add_tail (current s) (runqueue s) (ll s) else ll s),
     current := n, t_time := (t_time s)(n := jiffies s)\<rparr>"
  by (auto simp: place_thread_def thread_current_def current_time_def set_state_def spin_defs Let_def ended_def)

text \<open>The registers, the stack pointer and the interrupt flag a thread goes on with.\<close>

type_synonym reg_context = "callee_saved \<times> addr \<times> bool"

definition live_context :: "'a threads_scheme \<Rightarrow> reg_context" where
  "live_context s = (regs s, rsp s, ints_on s)"

text \<open>For a suspended call of \<^verbatim>\<open>schedule\<close>, the flag is its local \<open>enable\<close>; a new thread starts with interrupts on.\<close>

definition saved_context :: "addr \<Rightarrow> 'a threads_scheme \<Rightarrow> reg_context" where
  "saved_context t s =
     (let sp = t_stack_ptr s t; fr = frames s sp in
      (callee_saved.truncate fr, sp + 64, rip fr = entry_ip s \<or> k_enable s sp))"

text \<open>The state after the stack switch to \<open>nxt\<close> and \<^verbatim>\<open>place_thread\<close>, common to new and suspended threads.\<close>

definition switched :: "addr \<Rightarrow> bool \<Rightarrow> 'a threads_scheme \<Rightarrow> 'a threads_scheme" where
  "switched nxt en s = place_thread nxt (snd (raw_thread_switch (current s) en (t_stack_ptr s nxt) s))"

text \<open>What the proofs below use of the switch to \<open>nxt\<close>.\<close>

definition can_switch :: "addr set \<Rightarrow> addr \<Rightarrow> 'a threads_scheme \<Rightarrow> bool" where
  "can_switch T nxt s \<longleftrightarrow> contexts T s \<and> nxt \<in> T \<and> nxt \<noteq> current s \<and> current s \<in> T \<and> \<not> ints_on s"

lemma frame_apart: "contexts T s \<Longrightarrow> t \<in> T \<Longrightarrow> t \<noteq> current s \<Longrightarrow> t_stack_ptr s t \<noteq> rsp s - 64"
  unfolding contexts_def by (metis DiffI image_eqI singletonD)

lemma raw_thread_switch_eq:
  assumes "can_switch T nxt s"
  shows "raw_thread_switch (current s) en (t_stack_ptr s nxt) s = (rip (frames s (t_stack_ptr s nxt)),
    s\<lparr>frames := (frames s)(rsp s - 64 := callee_saved.extend (regs s) \<lparr>rflags = 2, rip = switch_ip s\<rparr>),
      k_self := (k_self s)(rsp s - 64 := current s), k_enable := (k_enable s)(rsp s - 64 := en),
      t_stack_ptr := (t_stack_ptr s)(current s := rsp s - 64), rsp := t_stack_ptr s nxt + 64,
      regs := callee_saved.truncate (frames s (t_stack_ptr s nxt)), ints_on := False\<rparr>)"
  using assms frame_apart [of T s nxt] unfolding raw_thread_switch_def
  by (simp add: Let_def contexts_def suspended_def can_switch_def)

lemma switched_sel:
  assumes "can_switch T nxt s"
  shows "current (switched nxt en s) = nxt" "entry_ip (switched nxt en s) = entry_ip s"
    "switch_ip (switched nxt en s) = switch_ip s" "rsp (switched nxt en s) = t_stack_ptr s nxt + 64"
    "regs (switched nxt en s) = callee_saved.truncate (frames s (t_stack_ptr s nxt))" "\<not> ints_on (switched nxt en s)"
    "ll (switched nxt en s) = ll (place_thread nxt s)" "t_state (switched nxt en s) = t_state (place_thread nxt s)"
    "idle_thread (switched nxt en s) = idle_thread s" "runqueue (switched nxt en s) = runqueue s"
    "preempt_cnt (switched nxt en s) = preempt_cnt s" "threads.more (switched nxt en s) = threads.more s"
  by (simp_all add: switched_def raw_thread_switch_eq [OF assms] place_thread_eq)

lemma switched_self:
  assumes "can_switch T nxt s"
  shows "t_stack_ptr (switched nxt en s) (current s) = rsp s - 64"
    "frames (switched nxt en s) (rsp s - 64) = callee_saved.extend (regs s) \<lparr>rflags = 2, rip = switch_ip s\<rparr>"
    "k_self (switched nxt en s) (rsp s - 64) = current s" "k_enable (switched nxt en s) (rsp s - 64) = en"
  by (simp_all add: switched_def raw_thread_switch_eq [OF assms] place_thread_eq)

lemma switched_other:
  assumes "can_switch T nxt s" "t \<in> T" "t \<noteq> current s"
  shows "t_stack_ptr (switched nxt en s) t = t_stack_ptr s t"
    "frames (switched nxt en s) (t_stack_ptr s t) = frames s (t_stack_ptr s t)"
    "k_self (switched nxt en s) (t_stack_ptr s t) = k_self s (t_stack_ptr s t)"
    "k_enable (switched nxt en s) (t_stack_ptr s t) = k_enable s (t_stack_ptr s t)"
  using frame_apart [of T s t] assms
  by (simp_all add: switched_def raw_thread_switch_eq [OF assms(1)] place_thread_eq can_switch_def)

lemma switched_contexts:
  assumes can: "can_switch T nxt s"
  shows "contexts T (switched nxt en s)"
proof -
  let ?p = "switched nxt en s"
  have c: "contexts T s" and n: "nxt \<in> T" "nxt \<noteq> current s" using can by (simp_all add: can_switch_def)
  note self = switched_self [OF can, of en] and other = switched_other [OF can, of _ en] and sel = switched_sel [OF can, of en]
  have "suspended t ?p" if "t \<in> T" "t \<noteq> nxt" for t
  proof (cases "t = current s")
    case True
    then show ?thesis using self sel by (simp add: suspended_def callee_saved.defs bit_iff_odd)
  next
    case False
    then show ?thesis using c that other [OF that(1)] sel by (auto simp: contexts_def suspended_def Let_def)
  qed
  moreover have "inj_on (t_stack_ptr ?p) (T - {nxt})"
  proof (rule inj_onI)
    fix x y assume xy: "x \<in> T - {nxt}" "y \<in> T - {nxt}" "t_stack_ptr ?p x = t_stack_ptr ?p y"
    show "x = y"
      using c xy other(1) [of x] other(1) [of y] self(1) frame_apart [OF c, of x] frame_apart [OF c, of y]
      by (cases "x = current s"; cases "y = current s") (auto simp: contexts_def dest: inj_onD)
  qed
  moreover have "t_stack_ptr s nxt \<noteq> t_stack_ptr ?p x" if "x \<in> T" "x \<noteq> nxt" for x
    using c n that other(1) [of x] self(1) frame_apart [OF c n]
    by (cases "x = current s") (auto simp: contexts_def dest: inj_onD)
  ultimately show ?thesis using c sel by (auto simp: contexts_def)
qed

lemma switched_saved:
  assumes "can_switch T nxt s"
  shows "saved_context (current s) (switched nxt en s) = (regs s, rsp s, en)"
    and "t \<in> T - {nxt, current s} \<Longrightarrow> saved_context t (switched nxt en s) = saved_context t s"
proof -
  have "entry_ip s \<noteq> switch_ip s" using assms by (simp add: can_switch_def contexts_def)
  then show "saved_context (current s) (switched nxt en s) = (regs s, rsp s, en)"
    using switched_self [OF assms] switched_sel [OF assms] by (simp add: saved_context_def callee_saved.defs)
  show "saved_context t (switched nxt en s) = saved_context t s" if "t \<in> T - {nxt, current s}"
    using switched_other [OF assms, of t en] that switched_sel [OF assms, of en] by (simp add: saved_context_def Let_def)
qed

text \<open>The thread switched to goes on with its own context.\<close>

lemma thread_switch_to_ok:
  assumes can: "can_switch T nxt s"
  obtains r s' where "thread_switch_to nxt en s = Inr (r, s')"
    and "s' = switched nxt en s \<or> s' = enable_ints (switched nxt en s)"
    and "live_context (snd (restore_ints (r, s'))) = saved_context nxt s"
proof -
  let ?fr = "frames s (t_stack_ptr s nxt)" and ?p = "switched nxt en s"
  have n: "nxt \<in> T" "nxt \<noteq> current s" and c: "contexts T s" using can by (simp_all add: can_switch_def)
  have sus: "suspended nxt s" and ip: "entry_ip s \<noteq> switch_ip s" using c n by (simp_all add: contexts_def)
  note sw = raw_thread_switch_eq [OF can, of en] and sel = switched_sel [OF can, of en] and np = frame_apart [OF c n]
  show thesis
  proof (cases "rip ?fr = entry_ip s")
    case True
    have "thread_switch_to nxt en s = Inr (Entered (r13 ?fr) (r14 ?fr), enable_ints ?p)"
      using True sus ip sw np unfolding thread_switch_to_def
      by (simp add: Let_def thread_current_def thread_entry_def switched_def suspended_def callee_saved.defs)
    then show thesis
      by (rule that) (use True sel in \<open>simp_all add: live_context_def saved_context_def Let_def enable_ints_def restore_ints_def\<close>)
  next
    case False
    have "thread_switch_to nxt en s = Inr (Back (k_enable s (t_stack_ptr s nxt)), ?p)"
      using False sus ip sw np unfolding thread_switch_to_def
      by (simp add: Let_def thread_current_def switched_def suspended_def)
    then show thesis
      by (rule that) (use False sel in \<open>simp_all add: live_context_def saved_context_def Let_def enable_ints_def restore_ints_def\<close>)
  qed
qed

section \<open>The operations\<close>

text \<open>The representation does not depend on the interrupt flag and the preemption counter.\<close>

lemma suspended_cpu [simp]:
  "suspended t (s\<lparr>ints_on := b\<rparr>) = suspended t s" "suspended t (s\<lparr>preempt_cnt := c\<rparr>) = suspended t s"
  "suspended t (s\<lparr>ll := h\<rparr>) = suspended t s" "suspended t (s\<lparr>t_state := f\<rparr>) = suspended t s"
  by (simp_all add: suspended_def)

lemma contexts_cpu [simp]:
  "contexts T (s\<lparr>ints_on := b\<rparr>) = contexts T s" "contexts T (s\<lparr>preempt_cnt := c\<rparr>) = contexts T s"
  "contexts T (s\<lparr>ll := h\<rparr>) = contexts T s" "contexts T (s\<lparr>t_state := f\<rparr>) = contexts T s"
  by (simp_all add: contexts_def)

lemma sched_rep_cpu [simp]:
  "sched_rep T L A (s\<lparr>ints_on := b\<rparr>) = sched_rep T L A s" "sched_rep T L A (s\<lparr>preempt_cnt := c\<rparr>) = sched_rep T L A s"
  by (simp_all add: sched_rep_def)

lemma saved_context_cpu [simp]:
  "saved_context t (s\<lparr>ints_on := b\<rparr>) = saved_context t s" "saved_context t (s\<lparr>ll := h\<rparr>) = saved_context t s"
  by (simp_all add: saved_context_def)

lemma restore_ints_eq:
  "\<exists>b. snd (restore_ints (r, s)) = s\<lparr>ints_on := b\<rparr>"
proof (cases r)
  case (Back en)
  then show ?thesis
    by (cases en) (auto simp: restore_ints_def enable_ints_def intro: exI [of _ True] exI [of _ "ints_on s"])
next
  case (Entered f a)
  then show ?thesis by (auto simp: restore_ints_def intro: exI [of _ "ints_on s"])
qed

lemma switched_rep:
  assumes can: "can_switch T nxt s" and ok: "asched_ok T (a_run nxt A)"
    and Asel: "running A = current s" "tstate A = t_state s" "idler A = idle_thread s"
    and q: "heap_lists (ll s) L" "L (runqueue s) = Some (ready A)" "members L \<inter> (T - {nxt}) = set (ready A)" "nxt \<notin> members L"
    and cur: "current s \<notin> set (ready A)" "NULL \<notin> T"
  shows "sched_rep T (L(runqueue s \<mapsto> ready (a_run nxt A))) (a_run nxt A) (switched nxt en s)"
proof -
  let ?p = "switched nxt en s" and ?B = "a_run nxt A"
  note sel = switched_sel [OF can, of en]
  have c: "current s \<in> T" "nxt \<noteq> current s" using can by (simp_all add: can_switch_def)
  have "current s \<in> members L \<inter> (T - {nxt})" if "current s \<in> members L" using that c by simp
  then have new: "current s \<notin> members L" unfolding q(3) using cur(1) by argo
  have nn: "current s \<noteq> NULL" using c(1) cur(2) by metis
  have lists: "heap_lists (ll ?p) (L(runqueue s \<mapsto> ready ?B)) \<and> members (L(runqueue s \<mapsto> ready ?B)) \<inter> T = set (ready ?B)"
  proof (cases "t_state s (current s) = THREAD_ACTIVE")
    case True
    have rdy: "ready ?B = ready A @ [current s]" using True Asel by (simp add: a_run_def Let_def)
    have heap: "ll ?p = list_add_tail (current s) (runqueue s) (ll s)" using True sel(7) by (simp add: place_thread_eq)
    show ?thesis unfolding rdy heap
      using kl.rep_add_tail [OF q(1) q(2) nn new] kl.members_add_tail [of L "runqueue s" "ready A" "current s", OF q(2)]
        q(3,4) c by auto
  next
    case False
    have rdy: "ready ?B = ready A" using False Asel by (simp add: a_run_def Let_def)
    have heap: "ll ?p = ll s" using False sel(7) by (simp add: place_thread_eq)
    have same: "L(runqueue s \<mapsto> ready A) = L" using q(2) by (simp add: fun_upd_idem)
    show ?thesis unfolding rdy heap same using q(1,3,4) by auto
  qed
  have "running ?B = current ?p" "tstate ?B = t_state ?p" "idler ?B = idle_thread ?p"
    using Asel sel by (simp_all add: a_run_def Let_def place_thread_eq ended_def)
  then show ?thesis
    using ok switched_contexts [OF can, of en] sel(10) lists by (simp add: sched_rep_def)
qed

text \<open>The context of every thread, whether it runs or not.\<close>

definition thread_context :: "addr \<Rightarrow> 'a threads_scheme \<Rightarrow> reg_context" where
  "thread_context t s = (if t = current s then live_context s else saved_context t s)"

text \<open>What a switch decided by the scheduler gives, in the thread that goes on.\<close>

definition yielded :: "addr set \<Rightarrow> lfamily \<Rightarrow> asched \<Rightarrow> 'a threads_scheme \<Rightarrow> 'a threads_scheme \<Rightarrow> bool" where
  "yielded T L B s s' \<longleftrightarrow>
     sched_rep T (L(runqueue s \<mapsto> ready B)) B s' \<and> runqueue s' = runqueue s \<and> preempt_cnt s' = preempt_cnt s \<and>
     threads.more s' = threads.more s \<and> (\<forall>t \<in> T. thread_context t s' = thread_context t s)"

lemma switch_yields:
  assumes can: "can_switch T nxt s1" and s1: "s1 = s\<lparr>ints_on := False, ll := h\<rparr>"
    and rep: "sched_rep T (L(runqueue s \<mapsto> ready B)) B (switched nxt (ints_on s) s1)"
  shows "\<exists>r s'. thread_switch_to nxt (ints_on s) s1 = Inr (r, s') \<and> yielded T L B s (snd (restore_ints (r, s')))"
proof -
  let ?p = "switched nxt (ints_on s) s1"
  obtain r s' where r: "thread_switch_to nxt (ints_on s) s1 = Inr (r, s')" "s' = ?p \<or> s' = enable_ints ?p"
    "live_context (snd (restore_ints (r, s'))) = saved_context nxt s1"
    using thread_switch_to_ok [OF can] by blast
  obtain b where b: "snd (restore_ints (r, s')) = ?p\<lparr>ints_on := b\<rparr>"
    using r(2) restore_ints_eq [of r s'] by (auto simp: enable_ints_def)
  have cur: "current s1 = current s" "runqueue s1 = runqueue s" "preempt_cnt s1 = preempt_cnt s"
    "threads.more s1 = threads.more s" by (simp_all add: s1)
  note sel = switched_sel [OF can, of "ints_on s"]
  have ctx: "thread_context t (?p\<lparr>ints_on := b\<rparr>) = thread_context t s" if "t \<in> T" for t
  proof -
    have "saved_context t s1 = saved_context t s" by (simp add: s1 saved_context_def)
    moreover have "saved_context (current s) ?p = live_context s"
      using switched_saved(1) [OF can, of "ints_on s"] cur(1) by (simp add: s1 live_context_def)
    moreover have "nxt \<noteq> current s" using can cur(1) by (simp add: can_switch_def)
    ultimately show ?thesis
      using r(3) b sel(1) switched_saved(2) [OF can, of t "ints_on s"] that cur(1)
      by (auto simp: thread_context_def)
  qed
  then have "yielded T L B s (?p\<lparr>ints_on := b\<rparr>)" using rep sel(10-12) cur by (simp add: yielded_def)
  then show ?thesis using r(1) b by auto
qed

lemma yielded_refl:
  assumes "sched_rep T L A s"
  shows "yielded T L A s s"
proof -
  have "L(runqueue s \<mapsto> ready A) = L" using assms by (simp add: sched_rep_def fun_upd_idem)
  then show ?thesis using assms by (simp add: yielded_def)
qed

lemma raw_schedule_queue:
  assumes rep: "sched_rep T L A s" and q: "ready A = x # xs"
  shows "\<exists>r s'. raw_schedule True (ints_on s) (disable_ints s) = Inr (r, s') \<and>
    yielded T L (a_yield A) s (snd (restore_ints (r, s')))"
proof -
  let ?s = "s\<lparr>ints_on := False, ll := list_del x (ll s)\<rparr>" and ?L = "L(runqueue s \<mapsto> xs)"
  have h: "heap_lists (ll s) L" "L (runqueue s) = Some (x # xs)" "members L \<inter> T = set (x # xs)"
    and A: "running A = current s" "tstate A = t_state s" "idler A = idle_thread s"
    and ok: "asched_ok T A" and c: "contexts T s"
    using rep q by (simp_all add: sched_rep_def)
  note pop = kl.rep_pop [OF h(1,2)]
  have x: "x \<in> T" "x \<noteq> current s" "current s \<in> T" "current s \<notin> set xs" "NULL \<notin> T" "x \<notin> set xs"
    using ok q A by (auto simp: asched_ok_def)
  have idle: "x \<noteq> idle_thread s" using ok q A by (auto simp: asched_ok_def)
  have can: "can_switch T x ?s" using c x by (simp add: can_switch_def)
  have mem: "members ?L = members L - {x}" using kl.members_del [OF h(1,2), of x] by simp
  have inter: "members ?L \<inter> (T - {x}) = set xs" unfolding mem using h(3) x(6) by auto
  have "raw_schedule True (ints_on s) (disable_ints s) = thread_switch_to x (ints_on s) ?s"
    using lists_list_empty [OF h(1,2)] pop(1,4) x(2) idle
    by (simp add: raw_schedule_def spin_defs thread_current_def)
  moreover have "sched_rep T (?L(runqueue ?s \<mapsto> ready (a_run x (A\<lparr>ready := xs\<rparr>)))) (a_run x (A\<lparr>ready := xs\<rparr>)) (switched x (ints_on s) ?s)"
  proof (rule switched_rep [OF can])
    show "asched_ok T (a_run x (A\<lparr>ready := xs\<rparr>))" using a_yield_ok [OF ok] q by (simp add: a_yield_def)
  qed (use pop A inter x mem in simp_all)
  ultimately show ?thesis using switch_yields [OF can refl, of L "a_yield A"] q by (simp add: a_yield_def)
qed

lemma raw_schedule_no_queue:
  assumes rep: "sched_rep T L A s" and q: "ready A = []"
  shows "\<exists>r s'. raw_schedule True (ints_on s) (disable_ints s) = Inr (r, s') \<and>
    yielded T L (a_yield A) s (snd (restore_ints (r, s')))"
proof -
  let ?s = "s\<lparr>ints_on := False, ll := ll s\<rparr>" and ?i = "idle_thread s"
  have h: "heap_lists (ll s) L" "L (runqueue s) = Some []" "members L \<inter> T = {}"
    and A: "running A = current s" "tstate A = t_state s" "idler A = idle_thread s"
    and ok: "asched_ok T A" and c: "contexts T s"
    using rep q by (simp_all add: sched_rep_def)
  have cur: "current s \<in> T" "NULL \<notin> T" using ok A by (auto simp: asched_ok_def)
  note em = lists_list_empty [OF h(1,2)]
  show ?thesis
  proof (cases "?i \<noteq> NULL \<and> ?i \<noteq> current s \<and> t_state s (current s) \<noteq> THREAD_ACTIVE")
    case True
    have i: "?i \<in> T" "t_state s ?i = THREAD_IDLE" using ok A True by (auto simp: asched_ok_def)
    have can: "can_switch T ?i ?s" using c True i cur by (simp add: can_switch_def)
    have y: "a_yield A = a_run ?i A" using True A q by (simp add: a_yield_def)
    have "raw_schedule True (ints_on s) (disable_ints s) = thread_switch_to ?i (ints_on s) ?s"
      using em True by (auto simp: raw_schedule_def spin_defs thread_current_def Let_def)
    moreover have "sched_rep T (L(runqueue ?s \<mapsto> ready (a_run ?i A))) (a_run ?i A) (switched ?i (ints_on s) ?s)"
    proof (rule switched_rep [OF can])
      show "asched_ok T (a_run ?i A)" using a_yield_ok [OF ok] y by simp
    qed (use h A q i cur in auto)
    ultimately show ?thesis using switch_yields [OF can refl, of L "a_yield A"] y by simp
  next
    case False
    then have "a_yield A = A" using A q by (auto simp: a_yield_def)
    moreover have "raw_schedule True (ints_on s) (disable_ints s) = Inr (Back (ints_on s), disable_ints s)"
      using em False by (auto simp: raw_schedule_def spin_defs thread_current_def Let_def)
    moreover have "snd (restore_ints (Back (ints_on s), disable_ints s)) = s"
      by (simp add: restore_ints_def spin_defs)
    ultimately show ?thesis using yielded_refl [OF rep] by auto
  qed
qed

lemma raw_schedule_ok:
  assumes "sched_rep T L A s"
  shows "\<exists>r s'. raw_schedule True (ints_on s) (disable_ints s) = Inr (r, s') \<and>
    yielded T L (a_yield A) s (snd (restore_ints (r, s')))"
  using raw_schedule_queue [OF assms] raw_schedule_no_queue [OF assms] by (cases "ready A") auto

lemma force_schedule_ok:
  assumes "sched_rep T L A s" "preempt_cnt s = 0"
  shows "\<exists>r s'. force_schedule s = Inr (r, s') \<and> yielded T L (a_yield A) s s'"
proof -
  obtain r s' where "raw_schedule True (ints_on s) (disable_ints s) = Inr (r, s')"
    "yielded T L (a_yield A) s (snd (restore_ints (r, s')))"
    using raw_schedule_ok [OF assms(1)] by blast
  then show ?thesis using assms(2)
    by (intro exI [of _ "fst (restore_ints (r, s'))"] exI [of _ "snd (restore_ints (r, s'))"])
       (simp add: force_schedule_def ints_enabled_def)
qed

text \<open>\<^verbatim>\<open>schedule\<close> keeps a thread that has time left, and is \<^verbatim>\<open>force_schedule\<close> otherwise.\<close>

definition keeps_running :: "'a threads_scheme \<Rightarrow> bool" where
  "keeps_running s \<longleftrightarrow> preempt_cnt s \<noteq> 0 \<or>
     t_state s (current s) = THREAD_ACTIVE \<and> jiffies s - t_time s (current s) < SLICE"

lemma raw_schedule_slice:
  "raw_schedule False en s =
     (if t_state s (current s) = THREAD_ACTIVE \<and> jiffies s - t_time s (current s) < SLICE then Inr (Back en, s)
      else raw_schedule True en s)"
  by (simp add: raw_schedule_def current_time_def thread_current_def Let_def)

lemma schedule_eq: "schedule s = (if keeps_running s then Inr (None, s) else force_schedule s)"
proof (cases "preempt_cnt s = 0")
  case True
  have "t_state (disable_ints s) = t_state s" "current (disable_ints s) = current s" "jiffies (disable_ints s) = jiffies s"
    "t_time (disable_ints s) = t_time s" by (simp_all add: spin_defs)
  moreover have "restore_ints (Back (ints_on s), disable_ints s) = (None, s)"
    by (simp add: restore_ints_def spin_defs)
  ultimately show ?thesis
    using True by (simp add: schedule_def force_schedule_def ints_enabled_def raw_schedule_slice keeps_running_def Let_def)
qed (simp add: schedule_def keeps_running_def)

lemma schedule_ok:
  assumes "sched_rep T L A s"
  shows "\<exists>r s'. schedule s = Inr (r, s') \<and> yielded T L (if keeps_running s then A else a_yield A) s s'"
  using yielded_refl [OF assms] force_schedule_ok [OF assms] by (auto simp: schedule_eq keeps_running_def)

section \<open>Waking and ending\<close>

lemma thread_activate_eq:
  "thread_activate t s = s\<lparr>t_state := (t_state s)(t := THREAD_ACTIVE), ll := list_add_tail t (runqueue s) (ll s)\<rparr>"
  by (auto simp: thread_activate_def spin_defs set_state_def Let_def)

lemma thread_activate_ok:
  assumes rep: "sched_rep T L A s" and t: "t \<in> T" "t \<noteq> current s" "t_state s t = THREAD_BLOCKED"
  shows "sched_rep T (L(runqueue s \<mapsto> ready A @ [t])) (a_activate t A) (thread_activate t s)"
proof -
  have h: "heap_lists (ll s) L" "L (runqueue s) = Some (ready A)" "members L \<inter> T = set (ready A)"
    and A: "running A = current s" "tstate A = t_state s" "idler A = idle_thread s" and ok: "asched_ok T A" "contexts T s"
    using rep by (simp_all add: sched_rep_def)
  have nr: "t \<notin> set (ready A)" "t \<noteq> NULL" using ok t A by (auto simp: asched_ok_def)
  then have new: "t \<notin> members L" using h(3) t(1) by blast
  have "members (L(runqueue s \<mapsto> ready A @ [t])) \<inter> T = set (ready A @ [t])"
    using kl.members_add_tail [of L "runqueue s" "ready A" t, OF h(2)] h(3) t(1) by auto
  then show ?thesis
    using kl.rep_add_tail [OF h(1,2) nr(2) new] a_activate_ok [of T A t] ok A t
    by (simp add: sched_rep_def thread_activate_eq a_activate_def a_set_def)
qed

lemma set_running_ok:
  assumes "sched_rep T L A s" "idle_thread s \<noteq> current s"
  shows "sched_rep T L (a_set (current s) st A) (set_state (current s) st s)"
  using assms a_set_running_ok [of T A st] by (auto simp: sched_rep_def set_state_def a_set_def)

end
