(* ===== verification/Sync.thy ===== *)
theory Sync
  imports Scheduler
begin

text \<open>
  The mutex of \<^verbatim>\<open>src/mutex.c\<close> and the condition variable of \<^verbatim>\<open>src/condition.c\<close> on top of the scheduler. Their
  queues hold \<^verbatim>\<open>struct wait\<close> nodes, locals of the waiting calls, whose addresses are arguments here.
\<close>

section \<open>State\<close>

record sync = threads +
  w_thread :: "addr \<Rightarrow> addr"        \<comment> \<open>\<^verbatim>\<open>struct wait\<close>\<close>
  mtx_locked :: "addr \<Rightarrow> bool"      \<comment> \<open>\<^verbatim>\<open>struct mutex\<close>\<close>

text \<open>\<^verbatim>\<open>waitqueue\<close> is at offset 8 of both structures, after the spin lock.\<close>

definition waitqueue :: "addr \<Rightarrow> addr" where
  "waitqueue m = m + 8"

type_synonym ('a) switching = "((addr \<times> addr) option \<times> 'a sync_scheme) res"

section \<open>Mutex\<close>

definition mutex_setup :: "addr \<Rightarrow> 'a sync_scheme \<Rightarrow> 'a sync_scheme" where
  "mutex_setup mtx s =
     (let s = spin_setup s;
          s = s\<lparr>ll := list_init (waitqueue mtx) (ll s)\<rparr>
      in s\<lparr>mtx_locked := (mtx_locked s)(mtx := False)\<rparr>)"

definition mutex_lock :: "addr \<Rightarrow> addr \<Rightarrow> 'a sync_scheme \<Rightarrow> 'a switching" where
  "mutex_lock node mtx s =
     (let (enable, s) = spin_lock_irqsave s in
      if mtx_locked s mtx
      then let self = thread_current s;
               s = s\<lparr>w_thread := (w_thread s)(node := self)\<rparr>;
               s = set_state self THREAD_BLOCKED s;
               s = s\<lparr>ll := list_add_tail node (waitqueue mtx) (ll s)\<rparr>;
               s = spin_unlock_irqrestore enable s
        in schedule s
      else let s = s\<lparr>mtx_locked := (mtx_locked s)(mtx := True)\<rparr>
        in Inr (None, spin_unlock_irqrestore enable s))"

definition mutex_unlock :: "addr \<Rightarrow> 'a sync_scheme \<Rightarrow> 'a sync_scheme" where
  "mutex_unlock mtx s =
     (let (enable, s) = spin_lock_irqsave s in
      if list_empty (waitqueue mtx) (ll s)
      then let s = s\<lparr>mtx_locked := (mtx_locked s)(mtx := False)\<rparr> in spin_unlock_irqrestore enable s
      else let nxt = list_first (waitqueue mtx) (ll s);
               s = s\<lparr>ll := list_del nxt (ll s)\<rparr>;
               s = thread_activate (w_thread s nxt) s
        in spin_unlock_irqrestore enable s)"

section \<open>Condition variable\<close>

definition condition_setup :: "addr \<Rightarrow> 'a sync_scheme \<Rightarrow> 'a sync_scheme" where
  "condition_setup cond s = (let s = spin_setup s in s\<lparr>ll := list_init (waitqueue cond) (ll s)\<rparr>)"

text \<open>
  \<^verbatim>\<open>condition_wait\<close> up to the return of \<^verbatim>\<open>schedule\<close>; the thread that waited then calls \<^verbatim>\<open>mutex_lock\<close>, at once
  if no other thread was switched to, and otherwise when it runs again.
\<close>

definition condition_block :: "addr \<Rightarrow> addr \<Rightarrow> addr \<Rightarrow> 'a sync_scheme \<Rightarrow> 'a switching" where
  "condition_block node cond mtx s =
     (let self = thread_current s;
          (enable, s) = spin_lock_irqsave s;
          s = s\<lparr>w_thread := (w_thread s)(node := self)\<rparr>;
          s = set_state self THREAD_BLOCKED s;
          s = s\<lparr>ll := list_add_tail node (waitqueue cond) (ll s)\<rparr>;
          s = mutex_unlock mtx s;
          s = spin_unlock_irqrestore enable s
      in schedule s)"

definition condition_wait :: "addr \<Rightarrow> addr \<Rightarrow> addr \<Rightarrow> addr \<Rightarrow> 'a sync_scheme \<Rightarrow> 'a switching" where
  "condition_wait node lock_node cond mtx s =
     bindR (condition_block node cond mtx s) (\<lambda>(r, s').
       if current s' = current s then mutex_lock lock_node mtx s' else Inr (r, s'))"

definition condition_signal :: "addr \<Rightarrow> 'a sync_scheme \<Rightarrow> 'a sync_scheme" where
  "condition_signal cond s =
     (let (enable, s) = spin_lock_irqsave s;
          s = (if \<not> list_empty (waitqueue cond) (ll s)
               then let node = list_first (waitqueue cond) (ll s);
                        s = s\<lparr>ll := list_del node (ll s)\<rparr>
                    in thread_activate (w_thread s node) s
               else s)
      in spin_unlock_irqrestore enable s)"

text \<open>The loop of \<^verbatim>\<open>condition_broadcast\<close> over the local list at \<open>head\<close>; the next link is read first.\<close>

partial_function (option) wake_all :: "addr \<Rightarrow> addr \<Rightarrow> 'a sync_scheme \<Rightarrow> 'a sync_scheme option" where
  "wake_all head ptr s =
     (if ptr \<noteq> head
      then let node = ptr; ptr = lh_next (ll s) ptr
        in wake_all head ptr (thread_activate (w_thread s node) s)
      else Some s)"

definition condition_broadcast :: "addr \<Rightarrow> addr \<Rightarrow> 'a sync_scheme \<Rightarrow> 'a sync_scheme option" where
  "condition_broadcast lst cond s =
     (let (enable, s) = spin_lock_irqsave s;
          s = s\<lparr>ll := list_init lst (ll s)\<rparr>;
          s = s\<lparr>ll := list_splice (waitqueue cond) lst (ll s)\<rparr>;
          s = spin_unlock_irqrestore enable s
      in wake_all lst (lh_next (ll s) lst) s)"

section \<open>Waiting threads\<close>

text \<open>
  \<open>waiting T L q ws s\<close>: the queue at \<open>q\<close> holds the nodes of the threads \<open>ws\<close>, in this order, and they are
  blocked.
\<close>

definition waiting :: "addr set \<Rightarrow> lfamily \<Rightarrow> addr \<Rightarrow> addr list \<Rightarrow> 'a sync_scheme \<Rightarrow> bool" where
  "waiting T L q ws s \<longleftrightarrow>
     q \<noteq> runqueue s \<and> distinct ws \<and> (\<exists>ns. L q = Some ns \<and> map (w_thread s) ns = ws) \<and>
     (\<forall>t \<in> set ws. t \<in> T \<and> t_state s t = THREAD_BLOCKED)"

lemma sync_more:
  assumes "threads.more s = threads.more (s' :: 'a sync_scheme)"
  shows "w_thread s = w_thread s'" "mtx_locked s = mtx_locked s'"
  using assms by (cases s; cases s'; simp)+

lemma mutex_lock_eq:
  "mutex_lock node mtx s =
     (if mtx_locked s mtx
      then schedule (s\<lparr>w_thread := (w_thread s)(node := current s), t_state := (t_state s)(current s := THREAD_BLOCKED),
             ll := list_add_tail node (waitqueue mtx) (ll s)\<rparr>)
      else Inr (None, s\<lparr>mtx_locked := (mtx_locked s)(mtx := True)\<rparr>))"
  by (auto simp: mutex_lock_def spin_defs set_state_def thread_current_def Let_def intro!: arg_cong [where f = schedule])

lemma mutex_unlock_eq:
  "mutex_unlock mtx s =
     (if list_empty (waitqueue mtx) (ll s) then s\<lparr>mtx_locked := (mtx_locked s)(mtx := False)\<rparr>
      else let n = list_first (waitqueue mtx) (ll s)
        in thread_activate (w_thread s n) (s\<lparr>ll := list_del n (ll s)\<rparr>))"
  by (auto simp: mutex_unlock_def spin_defs thread_activate_eq Let_def)

lemma sched_rep_sync [simp]:
  "sched_rep T L A (s\<lparr>w_thread := w\<rparr>) = sched_rep T L A s" "sched_rep T L A (s\<lparr>mtx_locked := l\<rparr>) = sched_rep T L A s"
  by (simp_all add: sched_rep_def contexts_def suspended_def)

text \<open>Putting the running thread on a queue.\<close>

definition enqueue_self :: "addr \<Rightarrow> addr \<Rightarrow> 'a sync_scheme \<Rightarrow> 'a sync_scheme" where
  "enqueue_self node q s =
     s\<lparr>w_thread := (w_thread s)(node := current s), t_state := (t_state s)(current s := THREAD_BLOCKED),
       ll := list_add_tail node q (ll s)\<rparr>"

lemma sched_rep_other_list:
  assumes "sched_rep T L A s" "heap_lists h L'" "L' (runqueue s) = L (runqueue s)" "members L' \<inter> T = members L \<inter> T"
  shows "sched_rep T L' A (s\<lparr>ll := h\<rparr>)"
  using assms by (simp add: sched_rep_def)

lemma enqueue_self_ok:
  assumes rep: "sched_rep T L A s" and q: "L q = Some ns" "q \<noteq> runqueue s"
    and n: "node \<notin> members L" "node \<noteq> NULL" "node \<notin> T" and i: "idle_thread s \<noteq> current s"
  shows "sched_rep T (L(q \<mapsto> ns @ [node])) (a_set (current s) THREAD_BLOCKED A) (enqueue_self node q s)"
proof -
  let ?t = "set_state (current s) THREAD_BLOCKED (s\<lparr>w_thread := (w_thread s)(node := current s)\<rparr>)"
  have r: "sched_rep T L (a_set (current s) THREAD_BLOCKED A) ?t"
    using set_running_ok [of T L A "s\<lparr>w_thread := (w_thread s)(node := current s)\<rparr>"] rep i by simp
  have h: "heap_lists (ll s) L" using rep by (simp add: sched_rep_def)
  have "enqueue_self node q s = ?t\<lparr>ll := list_add_tail node q (ll s)\<rparr>" by (simp add: enqueue_self_def set_state_def)
  then show ?thesis
    using sched_rep_other_list [OF r, of "list_add_tail node q (ll s)" "L(q \<mapsto> ns @ [node])"]
      kl.rep_add_tail [OF h q(1) n(2,1)] kl.members_add_tail [of L q ns node, OF q(1)] n(3) q(2)
    by (simp add: set_state_def)
qed

text \<open>Taking the first waiting thread off a queue and waking it.\<close>

definition wake_first :: "addr \<Rightarrow> 'a sync_scheme \<Rightarrow> 'a sync_scheme" where
  "wake_first q s =
     (let n = list_first q (ll s) in thread_activate (w_thread s n) (s\<lparr>ll := list_del n (ll s)\<rparr>))"

lemma wake_first_ok:
  assumes rep: "sched_rep T L A s" and w: "waiting T L q (t # ws) s" and cur: "t \<noteq> current s"
  shows "\<exists>L'. sched_rep T L' (a_activate t A) (wake_first q s) \<and> waiting T L' q ws (wake_first q s) \<and>
    (\<forall>l. l \<noteq> q \<longrightarrow> l \<noteq> runqueue s \<longrightarrow> L' l = L l) \<and> w_thread (wake_first q s) = w_thread s \<and>
    mtx_locked (wake_first q s) = mtx_locked s \<and> runqueue (wake_first q s) = runqueue s \<and>
    preempt_cnt (wake_first q s) = preempt_cnt s \<and> current (wake_first q s) = current s \<and> t_state (wake_first q s) = (t_state s)(t := THREAD_ACTIVE)"
proof -
  obtain n ns where n: "L q = Some (n # ns)" "w_thread s n = t" "map (w_thread s) ns = ws"
    using w by (auto simp: waiting_def)
  have t: "t \<in> T" "t \<noteq> current s" "t_state s t = THREAD_BLOCKED" "q \<noteq> runqueue s" "t \<notin> set ws"
    using w cur by (auto simp: waiting_def)
  have h: "heap_lists (ll s) L" and rq: "L (runqueue s) = Some (ready A)" "members L \<inter> T = set (ready A)"
    using rep by (simp_all add: sched_rep_def)
  note pop = kl.rep_pop [OF h n(1)]
  let ?s = "s\<lparr>ll := list_del n (ll s)\<rparr>" and ?L = "L(q \<mapsto> ns)"
  have "n \<notin> set (ready A)" using kl.rep_disjoint [OF h n(1) rq(1)] t(4) by auto
  then have "n \<notin> T" using rq(2) members_Some [of L q "n # ns", OF n(1)] by auto
  then have "members ?L \<inter> T = members L \<inter> T" using kl.members_del [OF h n(1), of n] by auto
  then have r: "sched_rep T ?L A ?s" using sched_rep_other_list [OF rep pop(2)] t(4) by simp
  let ?L' = "?L(runqueue ?s \<mapsto> ready A @ [t])"
  have eq: "wake_first q s = thread_activate t ?s" using pop(1) n(2) by (simp add: wake_first_def)
  have "sched_rep T ?L' (a_activate t A) (thread_activate t ?s)" using thread_activate_ok [OF r t(1)] t by simp
  moreover have "waiting T ?L' q ws (thread_activate t ?s)"
    using w t n(3) by (auto simp: waiting_def thread_activate_eq)
  ultimately show ?thesis unfolding eq by (intro exI [of _ ?L']) (simp add: thread_activate_eq)
qed

lemma mutex_lock_busy: "mtx_locked s mtx \<Longrightarrow> mutex_lock node mtx s = schedule (enqueue_self node (waitqueue mtx) s)"
  by (simp add: mutex_lock_eq enqueue_self_def)

lemma mutex_unlock_wakes: "\<not> list_empty (waitqueue mtx) (ll s) \<Longrightarrow> mutex_unlock mtx s = wake_first (waitqueue mtx) s"
  by (simp add: mutex_unlock_eq wake_first_def)

lemma condition_signal_eq:
  "condition_signal cond s = (if list_empty (waitqueue cond) (ll s) then s else wake_first (waitqueue cond) s)"
  by (auto simp: condition_signal_def wake_first_def spin_defs thread_activate_eq Let_def)

end
