(* ===== verification/SyncSpec.thy ===== *)
theory SyncSpec
  imports Sync
begin

text \<open>
  What mutexes and condition variables promise: an abstract machine in which a mutex has an owner and
  a queue of waiting threads, and the proof that the code implements it.
\<close>

section \<open>The abstract machine\<close>

record async =
  sched :: asched
  wait_of :: "addr \<Rightarrow> addr list"     \<comment> \<open>the threads in a wait queue\<close>
  owner :: "addr \<Rightarrow> addr option"     \<comment> \<open>the thread a mutex belongs to\<close>

definition self_of :: "async \<Rightarrow> addr" where
  "self_of B = running (sched B)"

definition a_enqueue :: "addr \<Rightarrow> async \<Rightarrow> async" where
  "a_enqueue q B = B\<lparr>sched := a_set (self_of B) THREAD_BLOCKED (sched B),
     wait_of := (wait_of B)(q := wait_of B q @ [self_of B])\<rparr>"

definition a_switch :: "async \<Rightarrow> async" where
  "a_switch B = B\<lparr>sched := a_yield (sched B)\<rparr>"

definition a_wake :: "addr \<Rightarrow> async \<Rightarrow> async" where
  "a_wake q B = (case wait_of B q of [] \<Rightarrow> B
     | t # ws \<Rightarrow> B\<lparr>sched := a_activate t (sched B), wait_of := (wait_of B)(q := ws)\<rparr>)"

definition a_lock :: "addr \<Rightarrow> async \<Rightarrow> async" where
  "a_lock m B = (if owner B m = None then B\<lparr>owner := (owner B)(m \<mapsto> self_of B)\<rparr>
     else a_switch (a_enqueue (waitqueue m) B))"

text \<open>Unlocking gives the mutex to the first waiting thread.\<close>

definition a_unlock :: "addr \<Rightarrow> async \<Rightarrow> async" where
  "a_unlock m B =
     (let B' = a_wake (waitqueue m) B
      in B'\<lparr>owner := (owner B)(m := (case wait_of B (waitqueue m) of [] \<Rightarrow> None | t # _ \<Rightarrow> Some t))\<rparr>)"

definition a_wait :: "addr \<Rightarrow> addr \<Rightarrow> async \<Rightarrow> async" where
  "a_wait c m B = a_switch (a_unlock m (a_enqueue (waitqueue c) B))"

definition a_signal :: "addr \<Rightarrow> async \<Rightarrow> async" where
  "a_signal c B = a_wake (waitqueue c) B"

definition a_broadcast :: "addr \<Rightarrow> async \<Rightarrow> async" where
  "a_broadcast c B = B\<lparr>sched := fold a_activate (wait_of B (waitqueue c)) (sched B),
     wait_of := (wait_of B)(waitqueue c := [])\<rparr>"

section \<open>Representation\<close>

text \<open>
  \<open>Q\<close> are the wait queues and \<open>M\<close> the mutexes. \<open>sync_core\<close> allows that the running thread has just put itself
  on a queue; in \<open>sync_rep\<close> no waiting thread runs.
\<close>

definition waiters :: "addr set \<Rightarrow> async \<Rightarrow> addr set" where
  "waiters Q B = (\<Union>q \<in> Q. set (wait_of B q))"

definition queues_ok :: "addr set \<Rightarrow> async \<Rightarrow> bool" where
  "queues_ok Q B \<longleftrightarrow> (\<forall>q \<in> Q. \<forall>q2 \<in> Q. q \<noteq> q2 \<longrightarrow> set (wait_of B q) \<inter> set (wait_of B q2) = {})"

definition owners_ok :: "addr set \<Rightarrow> async \<Rightarrow> bool" where
  "owners_ok M B \<longleftrightarrow> (\<forall>m \<in> M. (owner B m = None \<longrightarrow> wait_of B (waitqueue m) = []) \<and>
     (\<forall>t \<in> set (wait_of B (waitqueue m)). owner B m \<noteq> Some t))"

definition sync_core :: "addr set \<Rightarrow> addr set \<Rightarrow> addr set \<Rightarrow> lfamily \<Rightarrow> async \<Rightarrow> 'a sync_scheme \<Rightarrow> bool" where
  "sync_core T Q M L B s \<longleftrightarrow>
     sched_rep T L (sched B) s \<and> (\<forall>q \<in> Q. waiting T L q (wait_of B q) s) \<and> queues_ok Q B \<and>
     waitqueue ` M \<subseteq> Q \<and> owners_ok M B \<and> (\<forall>m \<in> M. mtx_locked s m \<longleftrightarrow> owner B m \<noteq> None)"

definition sync_rep :: "addr set \<Rightarrow> addr set \<Rightarrow> addr set \<Rightarrow> lfamily \<Rightarrow> async \<Rightarrow> 'a sync_scheme \<Rightarrow> bool" where
  "sync_rep T Q M L B s \<longleftrightarrow> sync_core T Q M L B s \<and> self_of B \<notin> waiters Q B"

text \<open>Some other thread can run: a ready one, or the idle thread.\<close>

definition can_leave :: "asched \<Rightarrow> bool" where
  "can_leave A \<longleftrightarrow> ready A \<noteq> [] \<or> idler A \<noteq> NULL \<and> idler A \<noteq> running A"

lemma waitqueue_inj [simp]: "waitqueue a = waitqueue b \<longleftrightarrow> a = b"
  by (simp add: waitqueue_def)

lemma a_yield_blocked: "tstate A t = THREAD_BLOCKED \<Longrightarrow> tstate (a_yield A) t = THREAD_BLOCKED"
  by (auto simp: a_yield_def a_run_def Let_def split: list.split)

text \<open>After a switch the running thread is not blocked, if another one could be switched to.\<close>

lemma a_yield_running:
  assumes "asched_ok T A" "tstate A (running A) = THREAD_BLOCKED \<Longrightarrow> can_leave A"
  shows "tstate (a_yield A) (running (a_yield A)) \<noteq> THREAD_BLOCKED"
proof (cases "ready A")
  case Nil
  then show ?thesis using assms by (auto simp: a_yield_def a_run_def Let_def asched_ok_def can_leave_def)
next
  case (Cons r rs)
  then have "tstate A r = THREAD_ACTIVE" "r \<noteq> running A" using assms(1) by (auto simp: asched_ok_def)
  then show ?thesis using Cons by (simp add: a_yield_def a_run_def Let_def)
qed

lemma sync_core_waiter:
  assumes "sync_core T Q M L B s" "t \<in> waiters Q B"
  shows "tstate (sched B) t = THREAD_BLOCKED" "t \<in> T"
  using assms by (auto simp: sync_core_def waiters_def waiting_def sched_rep_def)

lemma switch_waiting:
  assumes core: "sync_core T Q M L B s" and y: "yielded T L (a_yield (sched B)) s s'"
  shows "sync_core T Q M (L(runqueue s \<mapsto> ready (a_yield (sched B)))) (a_switch B) s'"
proof -
  let ?L = "L(runqueue s \<mapsto> ready (a_yield (sched B)))"
  have more: "w_thread s' = w_thread s" "mtx_locked s' = mtx_locked s" "runqueue s' = runqueue s"
    using y sync_more [of s' s] by (simp_all add: yielded_def)
  have st: "t_state s' = tstate (a_yield (sched B))" "t_state s = tstate (sched B)" "sched_rep T ?L (a_yield (sched B)) s'"
    using y core by (simp_all add: yielded_def sched_rep_def sync_core_def)
  have "waiting T ?L q (wait_of B q) s'" if "q \<in> Q" for q
    using core that a_yield_blocked [of "sched B"] more st by (auto simp: sync_core_def waiting_def)
  then show ?thesis
    using core st more by (simp add: sync_core_def a_switch_def queues_ok_def owners_ok_def)
qed

lemma switch_core:
  assumes core: "sync_core T Q M L B s" and y: "yielded T L (a_yield (sched B)) s s'"
    and go: "tstate (sched B) (self_of B) = THREAD_BLOCKED \<Longrightarrow> can_leave (sched B)"
  shows "sync_rep T Q M (L(runqueue s \<mapsto> ready (a_yield (sched B)))) (a_switch B) s'"
proof -
  note c = switch_waiting [OF core y]
  have "asched_ok T (sched B)" using core by (simp add: sync_core_def sched_rep_def)
  then have "self_of (a_switch B) \<notin> waiters Q (a_switch B)"
    using a_yield_running [of T "sched B"] go sync_core_waiter(1) [OF c] by (auto simp: self_of_def a_switch_def)
  then show ?thesis using c by (simp add: sync_rep_def)
qed

section \<open>Blocking and waking\<close>

lemma enqueue_core:
  assumes rep: "sync_rep T Q M L B s" and q: "q \<in> Q" and n: "node \<notin> members L" "node \<noteq> NULL" "node \<notin> T"
    and i: "idle_thread s \<noteq> current s" and own: "\<forall>m \<in> M. waitqueue m = q \<longrightarrow> owner B m \<noteq> None \<and> owner B m \<noteq> Some (self_of B)"
  shows "\<exists>L'. sync_core T Q M L' (a_enqueue q B) (enqueue_self node q s) \<and> members L' = insert node (members L)"
proof -
  have core: "sync_core T Q M L B s" and fresh: "self_of B \<notin> waiters Q B" using rep by (simp_all add: sync_rep_def)
  have r: "sched_rep T L (sched B) s" and self: "self_of B = current s" "current s \<in> T"
    using core by (auto simp: sync_core_def sched_rep_def self_of_def asched_ok_def)
  obtain ns where ns: "L q = Some ns" "map (w_thread s) ns = wait_of B q" "q \<noteq> runqueue s"
    using core q by (auto simp: sync_core_def waiting_def)
  let ?L = "L(q \<mapsto> ns @ [node])" and ?s = "enqueue_self node q s"
  have "node \<notin> set ns'" if "L q2 = Some ns'" for q2 ns' using members_Some [of L q2 ns', OF that] n(1) by auto
  then have keep: "map (w_thread ?s) ns' = map (w_thread s) ns'" if "L q2 = Some ns'" for q2 ns'
    using that by (intro map_cong) (auto simp: enqueue_self_def)
  have "waiting T ?L q2 (wait_of (a_enqueue q B) q2) ?s" if q2: "q2 \<in> Q" for q2
  proof (cases "q2 = q")
    case True
    moreover have "map (w_thread ?s) (ns @ [node]) = wait_of B q @ [self_of B]"
      using keep [OF ns(1)] ns(2) self(1) by (simp add: enqueue_self_def)
    moreover have "current s \<notin> set (wait_of B q)" using fresh self q by (auto simp: waiters_def)
    ultimately show ?thesis using core q self by (auto simp: sync_core_def waiting_def a_enqueue_def enqueue_self_def)
  next
    case False
    then obtain ns' where ns': "L q2 = Some ns'" "map (w_thread s) ns' = wait_of B q2"
      using core q2 by (auto simp: sync_core_def waiting_def)
    then have "map (w_thread ?s) ns' = wait_of B q2" using keep by metis
    moreover have "waiting T L q2 (wait_of B q2) s" using core q2 by (simp add: sync_core_def)
    ultimately show ?thesis
      using False ns' by (auto simp: waiting_def a_enqueue_def enqueue_self_def)
  qed
  moreover have "sched_rep T ?L (sched (a_enqueue q B)) ?s"
    using enqueue_self_ok [OF r ns(1,3) n i] self by (simp add: a_enqueue_def)
  moreover have "queues_ok Q (a_enqueue q B)"
    using core fresh q by (auto simp: sync_core_def queues_ok_def a_enqueue_def waiters_def)
  moreover have "owners_ok M (a_enqueue q B)"
    using core own by (auto simp: sync_core_def owners_ok_def a_enqueue_def)
  ultimately have "sync_core T Q M ?L (a_enqueue q B) ?s"
    using core by (simp add: sync_core_def a_enqueue_def enqueue_self_def)
  then show ?thesis using kl.members_add_tail [of L q ns node, OF ns(1)] by (intro exI [of _ ?L]) simp
qed

lemma queues_ok_mono:
  assumes "queues_ok Q B" "\<And>q. q \<in> Q \<Longrightarrow> set (wait_of B' q) \<subseteq> set (wait_of B q)"
  shows "queues_ok Q B'"
  unfolding queues_ok_def
proof (intro ballI impI)
  fix q q2 assume "q \<in> Q" "q2 \<in> Q" "q \<noteq> q2"
  then have "set (wait_of B q) \<inter> set (wait_of B q2) = {}" using assms(1) by (simp add: queues_ok_def)
  then show "set (wait_of B' q) \<inter> set (wait_of B' q2) = {}"
    using assms(2) [OF \<open>q \<in> Q\<close>] assms(2) [OF \<open>q2 \<in> Q\<close>] by blast
qed

lemma wake_core:
  assumes core: "sync_core T Q M L B s" and q: "q \<in> Q" "wait_of B q = t # ws" and cur: "t \<noteq> current s"
    and B': "B' = (a_wake q B)\<lparr>owner := ow\<rparr>" "owners_ok M B'" "\<forall>m \<in> M. mtx_locked s m \<longleftrightarrow> ow m \<noteq> None"
  shows "\<exists>L'. sync_core T Q M L' B' (wake_first q s) \<and> current (wake_first q s) = current s"
proof -
  have "sched_rep T L (sched B) s" "waiting T L q (t # ws) s" using core q by (auto simp: sync_core_def)
  then obtain L' where L': "sched_rep T L' (a_activate t (sched B)) (wake_first q s)" "waiting T L' q ws (wake_first q s)"
    "\<forall>l. l \<noteq> q \<longrightarrow> l \<noteq> runqueue s \<longrightarrow> L' l = L l" "w_thread (wake_first q s) = w_thread s"
    "mtx_locked (wake_first q s) = mtx_locked s" "runqueue (wake_first q s) = runqueue s"
    "current (wake_first q s) = current s" "t_state (wake_first q s) = (t_state s)(t := THREAD_ACTIVE)"
    using wake_first_ok cur by blast
  have "waiting T L' q2 (wait_of B q2) (wake_first q s)" if "q2 \<in> Q" "q2 \<noteq> q" for q2
  proof -
    have "t \<notin> set (wait_of B q2)" using core that q by (auto simp: sync_core_def queues_ok_def)
    moreover have "waiting T L q2 (wait_of B q2) s" using core that by (simp add: sync_core_def)
    ultimately show ?thesis using L'(3,4,6,8) that(2) by (auto simp: waiting_def)
  qed
  moreover have "queues_ok Q B'"
    by (rule queues_ok_mono [of Q B]) (use core q B'(1) in \<open>auto simp: sync_core_def a_wake_def\<close>)
  ultimately have "sync_core T Q M L' B' (wake_first q s)"
    using core q L'(1,2,5) B' by (auto simp: sync_core_def a_wake_def)
  then show ?thesis using L'(7) by blast
qed

section \<open>The operations implement the abstract ones\<close>

lemma can_leave_simps [simp]:
  "can_leave (a_set t st A) = can_leave A" "can_leave A \<Longrightarrow> can_leave (a_activate t A)"
  by (auto simp: can_leave_def a_set_def a_activate_def)

lemma schedule_core:
  assumes core: "sync_core T Q M L B s" and p: "preempt_cnt s = 0" and st: "t_state s (current s) = THREAD_BLOCKED"
    and go: "can_leave (sched B)"
  shows "\<exists>r s' L'. schedule s = Inr (r, s') \<and> sync_rep T Q M L' (a_switch B) s' \<and> preempt_cnt s' = 0"
proof -
  have r: "sched_rep T L (sched B) s" using core by (simp add: sync_core_def)
  have "\<not> keeps_running s" using p st by (simp add: keeps_running_def)
  then obtain r s' where s': "schedule s = Inr (r, s')" "yielded T L (a_yield (sched B)) s s'"
    using schedule_ok [OF r] by auto
  then have "sync_rep T Q M (L(runqueue s \<mapsto> ready (a_yield (sched B)))) (a_switch B) s'"
    using switch_core [OF core] go by blast
  then show ?thesis using s' p by (auto simp: yielded_def)
qed

lemma mutex_lock_ok:
  assumes rep: "sync_rep T Q M L B s" and m: "m \<in> M" "owner B m \<noteq> Some (self_of B)" and p: "preempt_cnt s = 0"
    and n: "node \<notin> members L" "node \<noteq> NULL" "node \<notin> T" and i: "idle_thread s \<noteq> current s" and go: "can_leave (sched B)"
  shows "\<exists>r s' L'. mutex_lock node m s = Inr (r, s') \<and> sync_rep T Q M L' (a_lock m B) s' \<and> preempt_cnt s' = 0"
proof (cases "owner B m")
  case None
  have free: "\<not> mtx_locked s m" using rep m None by (simp add: sync_rep_def sync_core_def)
  let ?s = "s\<lparr>mtx_locked := (mtx_locked s)(m := True)\<rparr>"
  have "waiting T L q ws ?s = waiting T L q ws s" for q ws by (simp add: waiting_def)
  then have "sync_rep T Q M L (a_lock m B) ?s"
    using rep None m by (auto simp: sync_rep_def sync_core_def a_lock_def owners_ok_def queues_ok_def waiters_def self_of_def)
  then show ?thesis using free p by (auto simp: mutex_lock_eq)
next
  case (Some t)
  let ?q = "waitqueue m"
  have q: "?q \<in> Q" and busy: "mtx_locked s m" using rep m Some by (auto simp: sync_rep_def sync_core_def)
  obtain L' where core: "sync_core T Q M L' (a_enqueue ?q B) (enqueue_self node ?q s)"
    using enqueue_core [OF rep q n i] m Some by auto
  moreover have "can_leave (sched (a_enqueue ?q B))" using go by (simp add: a_enqueue_def)
  ultimately show ?thesis
    using schedule_core [OF core] p busy Some by (simp add: mutex_lock_busy a_lock_def enqueue_self_def)
qed

lemma unlock_core:
  assumes core: "sync_core T Q M L B s" and m: "m \<in> M" "self_of B \<notin> set (wait_of B (waitqueue m))"
  shows "\<exists>L'. sync_core T Q M L' (a_unlock m B) (mutex_unlock m s) \<and> current (mutex_unlock m s) = current s"
proof -
  let ?q = "waitqueue m"
  have q: "?q \<in> Q" using core m by (auto simp: sync_core_def)
  then obtain ns where ns: "L ?q = Some ns" "map (w_thread s) ns = wait_of B ?q"
    using core by (auto simp: sync_core_def waiting_def)
  have h: "heap_lists (ll s) L" and self: "self_of B = current s"
    using core by (simp_all add: sync_core_def sched_rep_def self_of_def)
  note em = lists_list_empty [OF h ns(1)]
  show ?thesis
  proof (cases "wait_of B ?q")
    case Nil
    let ?s = "s\<lparr>mtx_locked := (mtx_locked s)(m := False)\<rparr>"
    have "mutex_unlock m s = ?s" using em Nil ns(2) by (simp add: mutex_unlock_eq)
    moreover have "waiting T L q ws ?s = waiting T L q ws s" for q ws by (simp add: waiting_def)
    then have "sync_core T Q M L (a_unlock m B) ?s"
      using core Nil by (auto simp: sync_core_def a_unlock_def a_wake_def owners_ok_def queues_ok_def)
    ultimately show ?thesis by auto
  next
    case (Cons t ws)
    have w: "mutex_unlock m s = wake_first ?q s" using em Cons ns(2) by (auto simp: mutex_unlock_wakes)
    have dist: "distinct (t # ws)" "t \<noteq> current s" using core q m(2) Cons self by (auto simp: sync_core_def waiting_def)
    have eq: "a_unlock m B = (a_wake ?q B)\<lparr>owner := (owner B)(m := Some t)\<rparr>" using Cons by (simp add: a_unlock_def Let_def)
    have "owner B m \<noteq> None" using core m Cons by (force simp: sync_core_def owners_ok_def)
    then have "\<forall>k \<in> M. mtx_locked s k \<longleftrightarrow> ((owner B)(m := Some t)) k \<noteq> None" using core m by (auto simp: sync_core_def)
    moreover have "owners_ok M (a_unlock m B)"
      using core Cons dist by (auto simp: eq sync_core_def owners_ok_def a_wake_def)
    ultimately show ?thesis unfolding w using wake_core [OF core q Cons dist(2) eq] by blast
  qed
qed

lemma mutex_unlock_ok:
  assumes "sync_rep T Q M L B s" "m \<in> M"
  shows "\<exists>L'. sync_rep T Q M L' (a_unlock m B) (mutex_unlock m s)"
proof -
  have core: "sync_core T Q M L B s" and self: "self_of B \<notin> waiters Q B" using assms by (simp_all add: sync_rep_def)
  have "waitqueue m \<in> Q" using core assms(2) by (auto simp: sync_core_def)
  then obtain L' where L': "sync_core T Q M L' (a_unlock m B) (mutex_unlock m s)"
    using unlock_core [OF core assms(2)] self by (auto simp: waiters_def)
  have "self_of (a_unlock m B) = self_of B" "waiters Q (a_unlock m B) \<subseteq> waiters Q B"
    by (auto simp: a_unlock_def a_wake_def self_of_def a_activate_def a_set_def Let_def waiters_def split: list.splits if_splits)
  then show ?thesis using L' self by (auto simp: sync_rep_def)
qed

section \<open>Condition variables\<close>

lemma mutex_unlock_cpu:
  "mutex_unlock m (s\<lparr>ints_on := b, preempt_cnt := c\<rparr>) = (mutex_unlock m s)\<lparr>ints_on := b, preempt_cnt := c\<rparr>"
  by (simp add: mutex_unlock_eq thread_activate_eq Let_def)

lemma mutex_unlock_flags: "ints_on (mutex_unlock m s) = ints_on s" "preempt_cnt (mutex_unlock m s) = preempt_cnt s"
  by (simp_all add: mutex_unlock_eq thread_activate_eq Let_def)

lemma condition_block_eq:
  "condition_block node cond mtx s = schedule (mutex_unlock mtx (enqueue_self node (waitqueue cond) s))"
proof -
  let ?e = "enqueue_self node (waitqueue cond)"
  have e: "?e (s\<lparr>ints_on := b, preempt_cnt := c\<rparr>) = (?e s)\<lparr>ints_on := b, preempt_cnt := c\<rparr>" for b c
    by (simp add: enqueue_self_def)
  have fl: "ints_on (?e s) = ints_on s" "preempt_cnt (?e s) = preempt_cnt s" by (simp_all add: enqueue_self_def)
  have "condition_block node cond mtx s =
      schedule (spin_unlock_irqrestore (ints_on s) (mutex_unlock mtx (?e (s\<lparr>ints_on := False, preempt_cnt := preempt_cnt s + 1\<rparr>))))"
    by (simp add: condition_block_def enqueue_self_def spin_lock_irqsave_def spin_lock_def disable_preempt_def disable_ints_def
        ints_enabled_def set_state_def thread_current_def Let_def)
  also have "spin_unlock_irqrestore (ints_on s) (mutex_unlock mtx (?e (s\<lparr>ints_on := False, preempt_cnt := preempt_cnt s + 1\<rparr>)))
      = mutex_unlock mtx (?e s)"
    unfolding e mutex_unlock_cpu using fl mutex_unlock_flags [of mtx "?e s"]
    by (cases "ints_on s") (simp_all add: spin_unlock_irqrestore_def spin_unlock_def enable_preempt_def enable_ints_def Let_def)
  finally show ?thesis .
qed

lemma a_unlock_self [simp]:
  "self_of (a_unlock m B) = self_of B" "can_leave (sched B) \<Longrightarrow> can_leave (sched (a_unlock m B))"
  by (auto simp: a_unlock_def a_wake_def self_of_def a_activate_def a_set_def Let_def can_leave_def split: list.splits)

lemma a_unlock_other: "q \<noteq> waitqueue m \<Longrightarrow> wait_of (a_unlock m B) q = wait_of B q"
  by (simp add: a_unlock_def a_wake_def Let_def split: list.split)

lemma condition_block_ok:
  assumes rep: "sync_rep T Q M L B s" and c: "waitqueue c \<in> Q" "c \<notin> M" and m: "m \<in> M" and p: "preempt_cnt s = 0"
    and n: "node \<notin> members L" "node \<noteq> NULL" "node \<notin> T" and i: "idle_thread s \<noteq> current s" and go: "can_leave (sched B)"
  shows "\<exists>r s' L'. condition_block node c m s = Inr (r, s') \<and> sync_rep T Q M L' (a_wait c m B) s' \<and> preempt_cnt s' = 0"
proof -
  let ?B = "a_enqueue (waitqueue c) B" and ?s = "enqueue_self node (waitqueue c) s"
  have "\<forall>k \<in> M. waitqueue k = waitqueue c \<longrightarrow> owner B k \<noteq> None \<and> owner B k \<noteq> Some (self_of B)" using c(2) by auto
  then obtain L1 where core: "sync_core T Q M L1 ?B ?s" using enqueue_core [OF rep c(1) n i] by blast
  have mc: "m \<noteq> c" and mq: "waitqueue m \<in> Q" using m c(2) core by (auto simp: sync_core_def)
  have self: "self_of ?B = self_of B" "wait_of ?B (waitqueue m) = wait_of B (waitqueue m)"
    using mc by (simp_all add: a_enqueue_def self_of_def a_set_def)
  have fresh: "self_of B \<notin> set (wait_of B (waitqueue m))" using rep mq by (auto simp: sync_rep_def waiters_def)
  then obtain L2 where L2: "sync_core T Q M L2 (a_unlock m ?B) (mutex_unlock m ?s)" "current (mutex_unlock m ?s) = current ?s"
    using unlock_core [OF core m] self by auto
  have "wait_of (a_unlock m ?B) (waitqueue c) = wait_of B (waitqueue c) @ [self_of B]"
    using mc by (simp add: a_unlock_other) (simp add: a_enqueue_def)
  then have "self_of B \<in> waiters Q (a_unlock m ?B)" unfolding waiters_def using c(1) by (intro UN_I) auto
  then have "tstate (sched (a_unlock m ?B)) (self_of B) = THREAD_BLOCKED" using sync_core_waiter(1) [OF L2(1)] by blast
  moreover have "self_of B = current s" using rep by (simp add: sync_rep_def sync_core_def sched_rep_def self_of_def)
  ultimately have "t_state (mutex_unlock m ?s) (current (mutex_unlock m ?s)) = THREAD_BLOCKED"
    using L2 by (simp add: sync_core_def sched_rep_def enqueue_self_def)
  moreover have "preempt_cnt (mutex_unlock m ?s) = 0" using p by (simp add: mutex_unlock_flags enqueue_self_def)
  moreover have "can_leave (sched (a_unlock m ?B))" using go by (simp add: a_enqueue_def)
  ultimately show ?thesis
    using schedule_core [OF L2(1)] by (simp add: condition_block_eq a_wait_def)
qed

lemma condition_signal_ok:
  assumes rep: "sync_rep T Q M L B s" and c: "waitqueue c \<in> Q" "c \<notin> M"
  shows "\<exists>L'. sync_rep T Q M L' (a_signal c B) (condition_signal c s)"
proof -
  let ?q = "waitqueue c"
  have core: "sync_core T Q M L B s" and fresh: "self_of B \<notin> waiters Q B" using rep by (simp_all add: sync_rep_def)
  obtain ns where ns: "L ?q = Some ns" "map (w_thread s) ns = wait_of B ?q"
    using core c by (auto simp: sync_core_def waiting_def)
  have h: "heap_lists (ll s) L" and self: "self_of B = current s"
    using core by (simp_all add: sync_core_def sched_rep_def self_of_def)
  note em = lists_list_empty [OF h ns(1)]
  show ?thesis
  proof (cases "wait_of B ?q")
    case Nil
    then show ?thesis using rep em ns(2) by (auto simp: condition_signal_eq a_signal_def a_wake_def)
  next
    case (Cons t ws)
    have t: "t \<noteq> current s" using fresh self c(1) Cons by (auto simp: waiters_def)
    have ow: "owners_ok M (a_signal c B)" using core Cons c(2) by (auto simp: sync_core_def owners_ok_def a_signal_def a_wake_def)
    have lk: "\<forall>m \<in> M. mtx_locked s m \<longleftrightarrow> owner B m \<noteq> None" using core by (simp add: sync_core_def)
    have "a_signal c B = (a_wake ?q B)\<lparr>owner := owner B\<rparr>" using Cons by (simp add: a_signal_def a_wake_def)
    then obtain L' where "sync_core T Q M L' (a_signal c B) (wake_first ?q s)"
      using wake_core [OF core c(1) Cons t _ ow lk] by blast
    moreover have "self_of (a_signal c B) = self_of B" "waiters Q (a_signal c B) \<subseteq> waiters Q B"
      using Cons by (auto simp: a_signal_def a_wake_def self_of_def a_activate_def a_set_def waiters_def split: if_splits)
    ultimately show ?thesis using em Cons ns(2) fresh by (auto simp: condition_signal_eq sync_rep_def)
  qed
qed

text \<open>The threads \<open>ts\<close> can be woken one after the other.\<close>

definition wakeable :: "addr set \<Rightarrow> addr list \<Rightarrow> 'a sync_scheme \<Rightarrow> bool" where
  "wakeable T ts s \<longleftrightarrow> distinct ts \<and> (\<forall>t \<in> set ts. t \<in> T \<and> t \<noteq> current s \<and> t_state s t = THREAD_BLOCKED)"

lemma wake_all_ok:
  assumes "sched_rep T L A s" "L lst = Some (as @ bs)" "lst \<noteq> runqueue s" "wakeable T (map (w_thread s) bs) s"
  shows "\<exists>s'. wake_all lst (hd (bs @ [lst])) s = Some s' \<and>
    sched_rep T (L(runqueue s \<mapsto> ready A @ map (w_thread s) bs)) (fold a_activate (map (w_thread s) bs) A) s' \<and>
    w_thread s' = w_thread s \<and> mtx_locked s' = mtx_locked s \<and> current s' = current s \<and> runqueue s' = runqueue s \<and>
    (\<forall>t. t \<notin> w_thread s ` set bs \<longrightarrow> t_state s' t = t_state s t)"
  using assms
proof (induction bs arbitrary: as s L A)
  case Nil
  have "L(runqueue s \<mapsto> ready A) = L" using Nil(1) by (simp add: sched_rep_def fun_upd_idem)
  then show ?case using Nil by (subst wake_all.simps) simp
next
  case (Cons b bs)
  let ?t = "w_thread s b" and ?s = "thread_activate (w_thread s b) s" and ?L = "L(runqueue s \<mapsto> ready A @ [w_thread s b])"
  have h: "heap_lists (ll s) L" using Cons.prems(1) by (simp add: sched_rep_def)
  have "b \<noteq> lst" using kl.rep_distinct [OF h Cons.prems(2)] by auto
  moreover have "lh_next (ll s) b = hd (bs @ [lst])" using lists_next [OF h, of lst as b bs] Cons.prems(2) by simp
  ultimately have step: "wake_all lst (hd ((b # bs) @ [lst])) s = wake_all lst (hd (bs @ [lst])) ?s"
    by (subst wake_all.simps) simp
  have sel: "w_thread ?s = w_thread s" "mtx_locked ?s = mtx_locked s" "current ?s = current s" "runqueue ?s = runqueue s"
    "t_state ?s = (t_state s)(?t := THREAD_ACTIVE)" by (simp_all add: thread_activate_eq)
  have t: "?t \<in> T" "?t \<noteq> current s" "t_state s ?t = THREAD_BLOCKED" "?t \<notin> w_thread s ` set bs"
    using Cons.prems(4) by (auto simp: wakeable_def)
  have rep: "sched_rep T ?L (a_activate ?t A) ?s" by (rule thread_activate_ok [OF Cons.prems(1) t(1-3)])
  have lst: "?L lst = Some ((as @ [b]) @ bs)" "lst \<noteq> runqueue ?s" using Cons.prems(2,3) sel(4) by simp_all
  have "\<forall>x \<in> set bs. w_thread s x \<noteq> ?t" using t(4) by (metis imageI)
  then have "wakeable T (map (w_thread ?s) bs) ?s" using Cons.prems(4) sel by (auto simp: wakeable_def)
  then obtain s' where s': "wake_all lst (hd (bs @ [lst])) ?s = Some s'"
    "sched_rep T (?L(runqueue ?s \<mapsto> ready (a_activate ?t A) @ map (w_thread ?s) bs)) (fold a_activate (map (w_thread ?s) bs) (a_activate ?t A)) s'"
    "w_thread s' = w_thread ?s" "mtx_locked s' = mtx_locked ?s" "current s' = current ?s" "runqueue s' = runqueue ?s"
    "\<forall>t. t \<notin> w_thread ?s ` set bs \<longrightarrow> t_state s' t = t_state ?s t"
    using Cons.IH [OF rep lst] by blast
  have "ready (a_activate ?t A) = ready A @ [?t]" by (simp add: a_activate_def a_set_def)
  then have "sched_rep T (L(runqueue s \<mapsto> ready A @ map (w_thread s) (b # bs))) (fold a_activate (map (w_thread s) (b # bs)) A) s'"
    using s'(2) unfolding sel by simp
  moreover have "\<forall>t. t \<notin> w_thread s ` set (b # bs) \<longrightarrow> t_state s' t = t_state s t" using s'(7) unfolding sel by simp
  ultimately show ?case unfolding step using s'(1,3-6) sel(1-4) by (intro exI [of _ s']) argo
qed

lemma sched_rep_drop:
  assumes "sched_rep T L A s" "L l = Some xs" "l \<noteq> runqueue s" "l \<notin> T"
  shows "sched_rep T (L(l := None)) A s"
proof -
  have h: "heap_lists (ll s) L" "L (runqueue s) = Some (ready A)" "members L \<inter> T = set (ready A)"
    using assms(1) by (simp_all add: sched_rep_def)
  have "members L = members (L(l := None)) \<union> set (l # xs)"
    unfolding members_def using assms(2) by (auto split: if_splits; metis option.inject)
  moreover have "set (ready A) \<inter> set (l # xs) = {}" using kl.rep_disjoint [OF h(1,2) assms(2)] assms(3) by auto
  ultimately have "members (L(l := None)) \<inter> T = set (ready A)" using h(3) lists_drop(2) [OF h(1) assms(2)] by blast
  then show ?thesis using assms lists_drop(1) [OF h(1) assms(2)] by (simp add: sched_rep_def)
qed

lemma condition_broadcast_eq:
  "condition_broadcast lst c s =
     (let h = list_splice (waitqueue c) lst (list_init lst (ll s)) in wake_all lst (lh_next h lst) (s\<lparr>ll := h\<rparr>))"
  by (auto simp: condition_broadcast_def spin_defs Let_def intro!: arg_cong [where f = "wake_all lst _"])

lemma fold_activate_self [simp]:
  "running (fold a_activate ts A) = running A" "ready (fold a_activate ts A) = ready A @ ts"
  by (induction ts arbitrary: A) (simp_all add: a_activate_def a_set_def)

text \<open>Moving a queue to the local list of \<^verbatim>\<open>condition_broadcast\<close>.\<close>

lemma splice_local_ok:
  assumes r: "sched_rep T L A s" and q: "L q = Some ns" "q \<noteq> runqueue s"
    and l: "lst \<noteq> NULL" "lst \<notin> members L" "lst \<notin> T"
  shows "heap_lists (list_splice q lst (list_init lst (ll s))) (L(q \<mapsto> [], lst \<mapsto> ns))"
    and "sched_rep T (L(q \<mapsto> [], lst \<mapsto> ns)) A (s\<lparr>ll := list_splice q lst (list_init lst (ll s))\<rparr>)"
    and "lst \<noteq> runqueue s" "lst \<notin> dom L"
proof -
  have h: "heap_lists (ll s) L" "L (runqueue s) = Some (ready A)" using r by (simp_all add: sched_rep_def)
  have m: "q \<in> members L" "runqueue s \<in> members L" "set ns \<subseteq> members L"
    using members_Some [of L q ns, OF q(1)] members_Some [of L "runqueue s", OF h(2)] by auto
  have ne: "lst \<noteq> q" "lst \<noteq> runqueue s" using m l(2) by metis+
  have dom: "lst \<notin> dom L" using l(2) by (auto simp: members_def)
  let ?h = "list_splice q lst (list_init lst (ll s))" and ?L1 = "L(q \<mapsto> [], lst \<mapsto> ns)"
  have "heap_lists (list_init lst (ll s)) (L(lst \<mapsto> []))" by (rule kl.rep_init [OF h(1) l(1,2)])
  then have h1: "heap_lists ?h ?L1"
    using kl.rep_splice [of "list_init lst (ll s)" "L(lst \<mapsto> [])" q ns lst "[]"] q(1) ne(1) by (simp add: fun_upd_twist)
  have "(L(q \<mapsto> [])) lst = None" using ne dom by auto
  then have "members ?L1 = insert lst ((members L - set ns) \<union> set ns)"
    using members_new [of "L(q \<mapsto> [])" lst ns] members_upd [OF q(1) h(1), of "[]"] by simp
  then have "members ?L1 = insert lst (members L)" using m(3) by auto
  then have mem: "members ?L1 \<inter> T = members L \<inter> T" using l(3) by simp
  have "sched_rep T ?L1 A (s\<lparr>ll := ?h\<rparr>)" by (rule sched_rep_other_list [OF r h1 _ mem]) (use q(2) ne in simp)
  then show "heap_lists ?h ?L1" "sched_rep T ?L1 A (s\<lparr>ll := ?h\<rparr>)" "lst \<noteq> runqueue s" "lst \<notin> dom L"
    using h1 ne(2) dom by simp_all
qed

lemma condition_broadcast_ok:
  assumes rep: "sync_rep T Q M L B s" and c: "waitqueue c \<in> Q" "c \<notin> M"
    and l: "lst \<noteq> NULL" "lst \<notin> members L" "lst \<notin> T"
  shows "\<exists>s' L'. condition_broadcast lst c s = Some s' \<and> sync_rep T Q M L' (a_broadcast c B) s'"
proof -
  let ?q = "waitqueue c"
  have core: "sync_core T Q M L B s" and fresh: "self_of B \<notin> waiters Q B" using rep by (simp_all add: sync_rep_def)
  have r: "sched_rep T L (sched B) s" using core by (simp add: sync_core_def)
  have self: "self_of B = current s" using r by (simp add: sched_rep_def self_of_def)
  obtain ns where ns: "L ?q = Some ns" "map (w_thread s) ns = wait_of B ?q" "?q \<noteq> runqueue s"
    using core c by (auto simp: sync_core_def waiting_def)
  let ?h = "list_splice ?q lst (list_init lst (ll s))" and ?L1 = "L(?q \<mapsto> [], lst \<mapsto> ns)"
  note loc = splice_local_ok [OF r ns(1,3) l]
  have lq: "lst \<noteq> ?q" using loc(4) ns(1) by blast
  let ?s = "s\<lparr>ll := ?h\<rparr>" and ?ts = "wait_of B ?q"
  have w: "waiting T L ?q ?ts s" using core c by (simp add: sync_core_def)
  have "current s \<notin> set ?ts" using fresh self c(1) by (auto simp: waiters_def)
  then have ready: "wakeable T (map (w_thread ?s) ns) ?s" using w ns(2) by (auto simp: wakeable_def waiting_def)
  obtain s' where s': "wake_all lst (hd (ns @ [lst])) ?s = Some s'"
    "sched_rep T (?L1(runqueue s \<mapsto> ready (sched B) @ ?ts)) (fold a_activate ?ts (sched B)) s'"
    "w_thread s' = w_thread s" "mtx_locked s' = mtx_locked s" "current s' = current s" "runqueue s' = runqueue s"
    "\<forall>t. t \<notin> set ?ts \<longrightarrow> t_state s' t = t_state s t"
    using wake_all_ok [OF loc(2), of lst "[]" ns] loc(3) ready ns(2) [symmetric] by auto
  have ret: "condition_broadcast lst c s = Some s'"
    using s'(1) lists_head_next [OF loc(1), of lst ns] by (simp add: condition_broadcast_eq Let_def)
  let ?L2 = "(?L1(runqueue s \<mapsto> ready (sched B) @ ?ts))(lst := None)"
  have "sched_rep T ?L2 (fold a_activate ?ts (sched B)) s'"
    by (rule sched_rep_drop [OF s'(2)]) (use loc(3) s'(6) l(3) in simp_all)
  moreover have "waiting T ?L2 q (wait_of (a_broadcast c B) q) s'" if q: "q \<in> Q" for q
  proof (cases "q = ?q")
    case True
    then show ?thesis using ns(3) lq s'(6) by (simp add: waiting_def a_broadcast_def)
  next
    case False
    then have dj: "set (wait_of B q) \<inter> set ?ts = {}" using core q c(1) by (simp add: sync_core_def queues_ok_def)
    have wq: "waiting T L q (wait_of B q) s" using core q by (simp add: sync_core_def)
    then have "q \<noteq> lst" using loc(4) by (auto simp: waiting_def)
    then show ?thesis using wq dj False s'(3,6,7) by (auto simp: waiting_def a_broadcast_def)
  qed
  moreover have "queues_ok Q (a_broadcast c B)"
    by (rule queues_ok_mono [of Q B]) (use core in \<open>auto simp: sync_core_def a_broadcast_def\<close>)
  moreover have "owners_ok M (a_broadcast c B)" using core c(2) by (auto simp: sync_core_def owners_ok_def a_broadcast_def)
  ultimately have "sync_core T Q M ?L2 (a_broadcast c B) s'"
    using core s'(4) by (simp add: sync_core_def a_broadcast_def)
  moreover have "self_of (a_broadcast c B) \<notin> waiters Q (a_broadcast c B)"
    using fresh by (auto simp: self_of_def a_broadcast_def waiters_def split: if_splits)
  ultimately show ?thesis using ret by (auto simp: sync_rep_def)
qed

end
