(* ===== verification/ThreadProps.thy ===== *)
theory ThreadProps
  imports SyncSpec
begin

text \<open>
  The properties of threads, mutexes and condition variables, with a small system of three threads as
  their witness.
\<close>

section \<open>Many switches\<close>

fun yields :: "nat \<Rightarrow> 'a threads_scheme \<Rightarrow> 'a threads_scheme res" where
  "yields 0 s = Inr s"
| "yields (Suc n) s = bindR (force_schedule s) (\<lambda>(_, s). yields n s)"

lemma a_yield_queue:
  assumes "ready A = r # rs"
  shows "running (a_yield A) = r" "\<exists>xs. ready (a_yield A) = rs @ xs"
  using assms by (auto simp: a_yield_def a_run_def Let_def)

lemma yields_ok:
  assumes "sched_rep T L A s" "preempt_cnt s = 0" "k < length (ready A)"
  shows "\<exists>s'. yields (Suc k) s = Inr s' \<and> current s' = ready A ! k"
  using assms
proof (induction k arbitrary: s L A)
  case 0
  then obtain r rs where q: "ready A = r # rs" by (cases "ready A") auto
  obtain x s' where "force_schedule s = Inr (x, s')" "yielded T L (a_yield A) s s'"
    using force_schedule_ok [OF 0(1,2)] by blast
  then show ?case using a_yield_queue(1) [OF q] q by (auto simp: yielded_def sched_rep_def)
next
  case (Suc k)
  then obtain r rs where q: "ready A = r # rs" by (cases "ready A") auto
  obtain x s' where s': "force_schedule s = Inr (x, s')" "yielded T L (a_yield A) s s'"
    using force_schedule_ok [OF Suc.prems(1,2)] by blast
  obtain xs where xs: "ready (a_yield A) = rs @ xs" using a_yield_queue(2) [OF q] by blast
  have rep: "sched_rep T (L(runqueue s \<mapsto> ready (a_yield A))) (a_yield A) s'" "preempt_cnt s' = 0"
    using s'(2) Suc.prems(2) unfolding yielded_def by simp_all
  have "k < length (ready (a_yield A))" using xs q Suc.prems(3) by simp
  then have "\<exists>s''. yields (Suc k) s' = Inr s'' \<and> current s'' = ready (a_yield A) ! k" by (rule Suc.IH [OF rep])
  then show ?case using s'(1) xs q Suc.prems(3) by (auto simp: nth_append)
qed

section \<open>Steps of the machine\<close>

text \<open>
  What happens on the processor: the running thread computes (and pushes on its own stack only), the
  clock interrupts it, it yields, blocks, wakes a blocked thread or ends.
\<close>

inductive kstep :: "addr set \<Rightarrow> 'a threads_scheme \<Rightarrow> 'a threads_scheme \<Rightarrow> bool" for T where
  compute: "p - 64 \<notin> t_stack_ptr s ` (T - {current s}) \<Longrightarrow>
    kstep T s (s\<lparr>regs := g, rsp := p, ints_on := b, bytes := m\<rparr>)"
| tick: "ints_on s \<Longrightarrow> pit_handler (disable_ints s) = Inr (r, s') \<Longrightarrow> kstep T s s'"
| yield: "force_schedule s = Inr (r, s') \<Longrightarrow> kstep T s s'"
| sleep: "idle_thread s \<noteq> current s \<Longrightarrow> schedule (set_state (current s) THREAD_BLOCKED s) = Inr (r, s') \<Longrightarrow> kstep T s s'"
| wake: "t \<in> T \<Longrightarrow> t \<noteq> current s \<Longrightarrow> t_state s t = THREAD_BLOCKED \<Longrightarrow> kstep T s (thread_activate t s)"
| exit: "idle_thread s \<noteq> current s \<Longrightarrow> thread_exit s = Some (Inr (r, s')) \<Longrightarrow> kstep T s s'"

inductive_cases kstepE: "kstep T s s'"

text \<open>
  \<open>advances T s s'\<close>: the state stays representable, and the threads that have ended stay ended and do not run.
\<close>

definition scheduled :: "addr set \<Rightarrow> 'a threads_scheme \<Rightarrow> bool" where
  "scheduled T s \<longleftrightarrow> (\<exists>L A. sched_rep T L A s)"

definition gone :: "addr \<Rightarrow> 'a threads_scheme \<Rightarrow> bool" where
  "gone t s \<longleftrightarrow> t_state s t = THREAD_FINISHED \<and> t \<noteq> current s"

definition advances :: "addr set \<Rightarrow> 'a threads_scheme \<Rightarrow> 'a threads_scheme \<Rightarrow> bool" where
  "advances T s s' \<longleftrightarrow> (scheduled T s \<longrightarrow> scheduled T s' \<and> (\<forall>t \<in> T. gone t s \<longrightarrow> gone t s'))"

lemma advances_trans: "advances T s s' \<Longrightarrow> advances T s' s'' \<Longrightarrow> advances T s s''"
  by (auto simp: advances_def)

lemma a_yield_gone:
  assumes "asched_ok T A" "t \<in> T" "tstate A t = THREAD_FINISHED" "t \<noteq> running A"
  shows "tstate (a_yield A) t = THREAD_FINISHED" "t \<noteq> running (a_yield A)"
  using assms by (auto simp: asched_ok_def a_yield_def a_run_def Let_def split: list.split)

lemma yielded_advances:
  assumes "sched_rep T L A s" "yielded T L B s s'" "B = A \<or> B = a_yield A"
  shows "advances T s s'"
proof -
  have r: "sched_rep T (L(runqueue s \<mapsto> ready B)) B s'" using assms(2) by (simp add: yielded_def)
  have A: "asched_ok T A" "running A = current s" "tstate A = t_state s" "running B = current s'" "tstate B = t_state s'"
    using assms(1) r by (simp_all add: sched_rep_def)
  have "gone t s'" if "t \<in> T" "gone t s" for t
    using a_yield_gone [OF A(1) that(1)] A(2-5) that(2) assms(3) unfolding gone_def by metis
  then show ?thesis using r by (auto simp: advances_def scheduled_def)
qed

lemma force_schedule_advances:
  assumes "force_schedule s = Inr (r, s')"
  shows "advances T s s'"
proof -
  have "preempt_cnt s = 0" using assms by (auto simp: force_schedule_def split: if_splits)
  then have "advances T s s'" if "sched_rep T L A s" for L A
    using force_schedule_ok [OF that] assms yielded_advances [OF that] by auto
  then show ?thesis unfolding advances_def scheduled_def by blast
qed

lemma schedule_advances: "schedule s = Inr (r, s') \<Longrightarrow> advances T s s'"
  using force_schedule_advances by (auto simp: schedule_eq advances_def split: if_splits)

lemma schedule_loop_advances:
  assumes "schedule_loop s = Some (Inr (r, s'))"
  shows "advances T s s'"
proof -
  have "case x of Inl _ \<Rightarrow> True | Inr (r, s') \<Rightarrow> advances T s s'" if "schedule_loop s = Some x" for s :: "'a threads_scheme" and x
  proof (rule schedule_loop.raw_induct [of "\<lambda>s x. case x of Inl _ \<Rightarrow> True | Inr (r, s') \<Rightarrow> advances T s s'", OF _ that])
    fix loop :: "'a threads_scheme \<Rightarrow> ((addr \<times> addr) option \<times> 'a threads_scheme) res option" and s x
    assume IH: "\<And>s x. loop s = Some x \<Longrightarrow> case x of Inl _ \<Rightarrow> True | Inr (r, s') \<Rightarrow> advances T s s'"
      and eq: "bindO (Some (force_schedule s)) (\<lambda>(r, s'). if current s' = current s then loop s' else Some (Inr (r, s'))) = Some x"
    show "case x of Inl _ \<Rightarrow> True | Inr (r, s') \<Rightarrow> advances T s s'"
    proof (cases "force_schedule s")
      case (Inr y)
      obtain r1 s1 where f: "force_schedule s = Inr (r1, s1)" using Inr by (cases y) auto
      note adv = force_schedule_advances [OF f, of T]
      show ?thesis
        using eq f adv IH [of s1 x] advances_trans [OF adv] by (auto split: if_splits sum.splits)
    next
      case (Inl e)
      then have "x = Inl e" using eq by simp
      then show ?thesis by simp
    qed
  qed
  from this [OF assms] show ?thesis by simp
qed

lemma set_running_advances:
  "idle_thread s \<noteq> current s \<Longrightarrow> advances T s (set_state (current s) st s)"
  using set_running_ok unfolding advances_def scheduled_def gone_def by (fastforce simp: set_state_def)

lemma sched_rep_compute:
  assumes "sched_rep T L A s" "p - 64 \<notin> t_stack_ptr s ` (T - {current s})"
  shows "sched_rep T L A (s\<lparr>regs := g, rsp := p, ints_on := b, bytes := m\<rparr>)"
  using assms by (simp add: sched_rep_def contexts_def suspended_def)

lemma sched_rep_jiffies [simp]: "sched_rep T L A (s\<lparr>jiffies := j\<rparr>) = sched_rep T L A s"
  by (simp add: sched_rep_def contexts_def suspended_def)

lemma kstep_advances: "kstep T s s' \<Longrightarrow> advances T s s'"
proof (induction rule: kstep.induct)
  case (compute p s g b m)
  then show ?case using sched_rep_compute [OF _ compute] unfolding advances_def scheduled_def gone_def by fastforce
next
  case (tick s r s')
  let ?s = "(disable_ints s)\<lparr>jiffies := jiffies s + 1\<rparr>"
  have "advances T s ?s" by (simp add: advances_def scheduled_def gone_def disable_ints_def)
  moreover have "advances T ?s s'"
    using tick(2) schedule_advances by (simp add: pit_handler_def disable_ints_def)
  ultimately show ?case by (rule advances_trans)
next
  case (yield s r s')
  then show ?case by (rule force_schedule_advances)
next
  case (sleep s r s')
  show ?case by (rule advances_trans [OF set_running_advances [OF sleep(1)] schedule_advances [OF sleep(2)]])
next
  case (wake t s)
  then show ?case using thread_activate_ok unfolding advances_def scheduled_def gone_def
    by (fastforce simp: thread_activate_eq)
next
  case (exit s r s')
  have "advances T (set_state (current s) THREAD_FINISHING s) s'"
    using exit(2) schedule_loop_advances [of "set_state (current s) THREAD_FINISHING s"] by (simp add: thread_exit_def thread_current_def)
  then show ?case by (rule advances_trans [OF set_running_advances [OF exit(1)]])
qed

section \<open>A small system\<close>

text \<open>
  Three threads: \<open>0x1000\<close> runs, \<open>0x2000\<close> is ready and has not run yet, \<open>0x3000\<close> is the idle thread; \<open>0x6000\<close> is
  blocked in the queue of the mutex at \<open>0x7000\<close>, which \<open>0x1000\<close> owns.
\<close>

definition demo_frame :: "addr \<Rightarrow> addr \<Rightarrow> thread_switch_frame" where
  "demo_frame t ip = \<lparr>r15 = 0, r14 = 5, r13 = 6, r12 = t, rbx = 0, rbp = 0, rflags = 2, rip = ip\<rparr>"

definition demo_sync :: sync where
  "demo_sync =
     \<lparr>ints_on = True, preempt_cnt = 0,
      ll = \<lparr>lh_next = (\<lambda>_. 0)(0x500 := 0x2000, 0x2000 := 0x500, 0x7008 := 0x8800, 0x8800 := 0x7008, 0x9008 := 0x9008),
            lh_prev = (\<lambda>_. 0)(0x500 := 0x2000, 0x2000 := 0x500, 0x7008 := 0x8800, 0x8800 := 0x7008, 0x9008 := 0x9008)\<rparr>,
      zones_head = 0x100, zone_begin = (\<lambda>_. 0), zone_end = (\<lambda>_. 0), flags = (\<lambda>_. 0), page_u = (\<lambda>_. 0), meta_offs = (\<lambda>_. 0),
      obj_count = (\<lambda>_. 0), mask_words = (\<lambda>_. 0), obj_size = (\<lambda>_. 0), pool_order = (\<lambda>_. 0), pool_page = (\<lambda>_. 0),
      pool_data = (\<lambda>_. 0), pool_free = (\<lambda>_. 0), bitmask = (\<lambda>_ _. 0), mem_pool = 0x8000, bytes = (\<lambda>_. 0),
      t_state = (\<lambda>_. THREAD_FINISHED)(0x1000 := THREAD_ACTIVE, 0x2000 := THREAD_ACTIVE, 0x3000 := THREAD_IDLE, 0x6000 := THREAD_BLOCKED),
      t_time = (\<lambda>_. 0), t_stack = (\<lambda>_. 0), t_stack_addr = (\<lambda>_. 0), t_stack_order = (\<lambda>_. 1),
      t_stack_ptr = (\<lambda>_. 0)(0x2000 := 0x20f0, 0x3000 := 0x30f0, 0x6000 := 0x60f0, 0x4000 := 0x40f0),
      frames = (\<lambda>_. demo_frame 0 0)(0x20f0 := demo_frame 0x2000 0x11, 0x30f0 := demo_frame 0 0x22, 0x60f0 := demo_frame 0 0x22,
                                    0x40f0 := demo_frame 0 0x22),
      k_self = (\<lambda>_. 0)(0x30f0 := 0x3000, 0x60f0 := 0x6000, 0x40f0 := 0x4000), k_enable = (\<lambda>_. True),
      regs = \<lparr>r15 = 1, r14 = 2, r13 = 3, r12 = 4, rbx = 5, rbp = 6\<rparr>, rsp = 0x1ff0,
      thread_cache = 0x400, runqueue = 0x500, entry_ip = 0x11, switch_ip = 0x22, current = 0x1000, idle_thread = 0x3000, jiffies = 7,
      w_thread = (\<lambda>_. 0)(0x8800 := 0x6000), mtx_locked = (\<lambda>_. False)(0x7000 := True)\<rparr>"

abbreviation (input) demo_T :: "addr set" where
  "demo_T \<equiv> {0x1000, 0x2000, 0x3000, 0x4000, 0x6000}"

abbreviation (input) demo_L :: lfamily where
  "demo_L \<equiv> [0x500 \<mapsto> [0x2000], 0x7008 \<mapsto> [0x8800], 0x9008 \<mapsto> []]"

definition demo_A :: asched where
  "demo_A = \<lparr>running = 0x1000, ready = [0x2000], tstate = t_state demo_sync, idler = 0x3000\<rparr>"

lemma demo_members1: "members [0x500 \<mapsto> [0x2000]] = {0x500, 0x2000}"
  by (simp add: members_new)

lemma demo_members2: "members [0x500 \<mapsto> [0x2000], 0x7008 \<mapsto> [0x8800]] = {0x500, 0x2000, 0x7008, 0x8800}"
  using members_new [of "[0x500 \<mapsto> [0x2000]]" "0x7008" "[0x8800]"] demo_members1 by auto

lemma demo_members: "members demo_L = {0x500, 0x2000, 0x7008, 0x8800, 0x9008}"
  using members_new [of "[0x500 \<mapsto> [0x2000], 0x7008 \<mapsto> [0x8800]]" "0x9008" "[]"] demo_members2 by auto

lemma demo_circ:
  "circ (ll demo_sync) 0x500 [0x2000]" "circ (ll demo_sync) 0x7008 [0x8800]" "circ (ll demo_sync) 0x9008 []"
  by (simp_all add: circ_def demo_sync_def)

lemma demo_lists: "heap_lists (ll demo_sync) demo_L"
proof (intro heap_lists_add demo_circ)
  show "heap_lists (ll demo_sync) Map.empty" by (simp add: heap_lists_def)
  show "set [0x7008, 0x8800] \<inter> members [0x500 \<mapsto> [0x2000]] = {}" unfolding demo_members1 by simp
  show "set [0x9008] \<inter> members [0x500 \<mapsto> [0x2000], 0x7008 \<mapsto> [0x8800]] = {}" unfolding demo_members2 by simp
qed simp

lemma demo_sched: "sched_rep demo_T demo_L demo_A demo_sync"
proof -
  have "asched_ok demo_T demo_A" by (auto simp: asched_ok_def demo_A_def demo_sync_def)
  moreover have "contexts demo_T demo_sync"
    by (auto simp: contexts_def suspended_def demo_sync_def demo_frame_def inj_on_def bit_iff_odd)
  moreover have "members demo_L \<inter> demo_T = set (ready demo_A)" unfolding demo_members by (auto simp: demo_A_def)
  ultimately show ?thesis using demo_lists by (simp add: sched_rep_def demo_A_def) (simp add: demo_sync_def)
qed

definition demo_B :: async where
  "demo_B = \<lparr>sched = demo_A, wait_of = (\<lambda>_. [])(0x7008 := [0x6000]), owner = [0x7000 \<mapsto> 0x2000]\<rparr>"

abbreviation (input) demo_Q :: "addr set" where "demo_Q \<equiv> {0x7008, 0x9008}"
abbreviation (input) demo_M :: "addr set" where "demo_M \<equiv> {0x7000}"

lemma demo_waiting:
  "waiting demo_T demo_L 0x7008 [0x6000] demo_sync" "waiting demo_T demo_L 0x9008 [] demo_sync"
  by (simp_all add: waiting_def demo_sync_def)

lemma demo_rep: "sync_rep demo_T demo_Q demo_M demo_L demo_B demo_sync"
proof -
  have "queues_ok demo_Q demo_B" "owners_ok demo_M demo_B" "self_of demo_B \<notin> waiters demo_Q demo_B"
    by (auto simp: queues_ok_def owners_ok_def waiters_def self_of_def demo_B_def demo_A_def waitqueue_def)
  moreover have "mtx_locked demo_sync 0x7000" by (simp add: demo_sync_def)
  ultimately show ?thesis
    using demo_sched demo_waiting by (simp add: sync_rep_def sync_core_def demo_B_def waitqueue_def)
qed

text \<open>The same with one thread only, and a locked mutex no thread waits for.\<close>

definition demo_lone :: sync where
  "demo_lone = demo_sync\<lparr>idle_thread := 0,
     ll := \<lparr>lh_next = (\<lambda>_. 0)(0x500 := 0x500, 0x7008 := 0x7008), lh_prev = (\<lambda>_. 0)(0x500 := 0x500, 0x7008 := 0x7008)\<rparr>\<rparr>"

definition demo_lone_A :: asched where
  "demo_lone_A = \<lparr>running = 0x1000, ready = [], tstate = t_state demo_sync, idler = 0\<rparr>"

lemma demo_lone_members1: "members [0x500 \<mapsto> []] = {0x500}"
  by (simp add: members_new)

lemma demo_lone_members: "members [0x500 \<mapsto> [], 0x7008 \<mapsto> []] = {0x500, 0x7008}"
  using members_new [of "[0x500 \<mapsto> []]" "0x7008" "[]"] demo_lone_members1 by auto

lemma demo_lone_lists: "heap_lists (ll demo_lone) [0x500 \<mapsto> [], 0x7008 \<mapsto> []]"
proof (intro heap_lists_add)
  show "heap_lists (ll demo_lone) Map.empty" by (simp add: heap_lists_def)
  show "set [0x7008] \<inter> members [0x500 \<mapsto> []] = {}" unfolding demo_lone_members1 by simp
qed (simp_all add: circ_def demo_lone_def)

lemma demo_lone_sched: "sched_rep {0x1000} [0x500 \<mapsto> [], 0x7008 \<mapsto> []] demo_lone_A demo_lone"
proof -
  have "asched_ok {0x1000} demo_lone_A" by (auto simp: asched_ok_def demo_lone_A_def)
  moreover have "contexts {0x1000} demo_lone" by (simp add: contexts_def demo_lone_def demo_sync_def)
  moreover have "members [0x500 \<mapsto> [], 0x7008 \<mapsto> []] \<inter> {0x1000} = set (ready demo_lone_A)"
    unfolding demo_lone_members by (simp add: demo_lone_A_def)
  ultimately show ?thesis
    using demo_lone_lists by (simp add: sched_rep_def demo_lone_A_def) (simp add: demo_lone_def demo_sync_def)
qed

definition demo_lone_B :: async where
  "demo_lone_B = \<lparr>sched = demo_lone_A, wait_of = (\<lambda>_. []), owner = [0x7000 \<mapsto> 0x2000]\<rparr>"

lemma demo_lone_rep: "sync_rep {0x1000} {0x7008} {0x7000} [0x500 \<mapsto> [], 0x7008 \<mapsto> []] demo_lone_B demo_lone"
  using demo_lone_sched
  by (simp add: sync_rep_def sync_core_def demo_lone_B_def waiting_def queues_ok_def owners_ok_def waiters_def waitqueue_def)
    (simp add: demo_lone_def demo_sync_def)

section \<open>Properties\<close>

text \<open>
  C17. \<^verbatim>\<open>force_schedule\<close> implements the abstract switch: it returns, in the first ready thread (or the idle
  one), the thread that ran goes to the end of the queue if it is active and ends if it was finishing,
  and every thread keeps its own registers, stack pointer and interrupt flag.
\<close>

theorem force_schedule_refines:
  assumes "sched_rep T L A s" "preempt_cnt s = 0"
  shows "\<exists>r s' L'. force_schedule s = Inr (r, s') \<and> sched_rep T L' (a_yield A) s' \<and>
    (\<forall>t \<in> T. thread_context t s' = thread_context t s)"
  using force_schedule_ok [OF assms] by (auto simp: yielded_def)

theorem force_schedule_refines_witness:
  "\<exists>r s' L'. force_schedule demo_sync = Inr (r, s') \<and> sched_rep demo_T L' (a_yield demo_A) s' \<and>
    (\<forall>t \<in> demo_T. thread_context t s' = thread_context t demo_sync)"
  by (rule force_schedule_refines [OF demo_sched]) (simp add: demo_sync_def)

text \<open>
  C22. Every ready thread runs: the thread at position \<open>k\<close> of the queue is the running one after \<open>k + 1\<close> calls
  of \<^verbatim>\<open>force_schedule\<close>, all of which return.
\<close>

theorem ready_thread_runs:
  assumes "sched_rep T L A s" "preempt_cnt s = 0" "k < length (ready A)"
  shows "\<exists>s'. yields (Suc k) s = Inr s' \<and> current s' = ready A ! k"
  using assms by (rule yields_ok)

theorem ready_thread_runs_witness: "\<exists>s'. yields (Suc 0) demo_sync = Inr s' \<and> current s' = ready demo_A ! 0"
  by (rule ready_thread_runs [OF demo_sched]) (simp_all add: demo_sync_def demo_A_def)

text \<open>
  C23. A thread that has ended never runs again, whatever the other threads do, and its state stays
  \<^verbatim>\<open>THREAD_FINISHED\<close>, so that \<^verbatim>\<open>thread_join\<close> on it returns.
\<close>

theorem finished_never_runs:
  assumes "(kstep T)\<^sup>*\<^sup>* s s'" "scheduled T s" "t \<in> T" "t_state s t = THREAD_FINISHED" "t \<noteq> current s"
  shows "t_state s' t = THREAD_FINISHED \<and> current s' \<noteq> t \<and> thread_join t s' = Inr (True, None, s')"
proof -
  from assms(1) have "advances T s s'"
  proof (induction rule: rtranclp_induct)
    case base
    show ?case by (simp add: advances_def)
  next
    case (step y z)
    show ?case by (rule advances_trans [OF step.IH kstep_advances [OF step.hyps(2)]])
  qed
  then show ?thesis using assms(2-5) by (auto simp: advances_def gone_def thread_join_def)
qed

theorem finished_never_runs_witness:
  "\<exists>s'. (kstep demo_T)\<^sup>*\<^sup>* demo_sync s' \<and> current s' = 0x2000 \<and>
    t_state s' 0x4000 = THREAD_FINISHED \<and> current s' \<noteq> 0x4000 \<and> thread_join 0x4000 s' = Inr (True, None, s')"
proof -
  obtain r s' where s': "force_schedule demo_sync = Inr (r, s')" "yielded demo_T demo_L (a_yield demo_A) demo_sync s'"
    using force_schedule_ok [OF demo_sched] by (auto simp: demo_sync_def)
  have "running (a_yield demo_A) = 0x2000" by (simp add: a_yield_def a_run_def demo_A_def)
  then have "current s' = 0x2000" using s'(2) by (simp add: yielded_def sched_rep_def)
  moreover have star: "(kstep demo_T)\<^sup>*\<^sup>* demo_sync s'" using kstep.yield [OF s'(1)] by blast
  moreover have "scheduled demo_T demo_sync" using demo_sched by (auto simp: scheduled_def)
  ultimately show ?thesis
    using finished_never_runs [OF star, of "0x4000"] by (auto simp: demo_sync_def)
qed

text \<open>
  \<^verbatim>\<open>schedule\<close> leaves the state as it is while preemption is disabled or the running active thread has
  used less than its slice of ten ticks, and is \<^verbatim>\<open>force_schedule\<close> in every other case.
\<close>

theorem schedule_slice: "schedule s = (if keeps_running s then Inr (None, s) else force_schedule s)"
  by (rule schedule_eq)

text \<open>
  C24. Ending a thread: with a ready thread, \<^verbatim>\<open>thread_exit\<close> comes to an end in the first one, and the
  thread that called it is finished and in no queue.
\<close>

theorem thread_exit_switches:
  assumes "sched_rep T L A s" "preempt_cnt s = 0" "ready A = r # rs" "idle_thread s \<noteq> current s"
  shows "\<exists>x s' L' A'. thread_exit s = Some (Inr (x, s')) \<and> current s' = r \<and> t_state s' (current s) = THREAD_FINISHED \<and>
    sched_rep T L' A' s' \<and> ready A' = rs"
proof -
  let ?s = "set_state (current s) THREAD_FINISHING s" and ?A = "a_set (current s) THREAD_FINISHING A"
  have rep: "sched_rep T L ?A ?s" by (rule set_running_ok [OF assms(1,4)])
  have p: "preempt_cnt ?s = 0" "current ?s = current s" using assms(2) by (simp_all add: set_state_def)
  obtain x s' where s': "force_schedule ?s = Inr (x, s')" "yielded T L (a_yield ?A) ?s s'"
    using force_schedule_ok [OF rep p(1)] by blast
  have run: "running A = current s" "r \<noteq> current s" using assms(1,3) by (auto simp: sched_rep_def asched_ok_def)
  have y: "running (a_yield ?A) = r" "ready (a_yield ?A) = rs" "tstate (a_yield ?A) (current s) = THREAD_FINISHED"
    using assms(3) run by (simp_all add: a_yield_def a_run_def a_set_def)
  have rep': "sched_rep T (L(runqueue ?s \<mapsto> ready (a_yield ?A))) (a_yield ?A) s'" using s'(2) by (simp add: yielded_def)
  then have "current s' = r" "t_state s' (current s) = THREAD_FINISHED" using y by (simp_all add: sched_rep_def)
  moreover from this have "thread_exit s = Some (Inr (x, s'))"
    unfolding thread_exit_def thread_current_def using s'(1) p(2) run(2) by (subst schedule_loop.simps) simp
  ultimately show ?thesis using rep' y(2) by blast
qed

theorem thread_exit_switches_witness:
  "\<exists>x s' L' A'. thread_exit demo_sync = Some (Inr (x, s')) \<and> current s' = 0x2000 \<and>
    t_state s' (current demo_sync) = THREAD_FINISHED \<and> sched_rep demo_T L' A' s' \<and> ready A' = []"
  by (rule thread_exit_switches [OF demo_sched]) (simp_all add: demo_sync_def demo_A_def)

text \<open>
  C18. \<^verbatim>\<open>mutex_lock\<close> implements the abstract lock, and mutual exclusion holds: when the call is over, either
  the caller runs and the mutex is its own, or the caller waits in the queue of the mutex and another
  thread runs. As no thread in a queue runs (this is part of \<open>sync_rep\<close>), a waiting caller goes on
  only after \<^verbatim>\<open>mutex_unlock\<close> has given it the mutex. Some other thread must be able to run, the idle thread
  for example.
\<close>

theorem mutex_lock_refines:
  assumes "sync_rep T Q M L B s" "m \<in> M" "owner B m \<noteq> Some (self_of B)" "preempt_cnt s = 0"
    and "node \<notin> members L" "node \<noteq> NULL" "node \<notin> T" "idle_thread s \<noteq> current s" "can_leave (sched B)"
  shows "\<exists>r s' L' B'. mutex_lock node m s = Inr (r, s') \<and> B' = a_lock m B \<and> sync_rep T Q M L' B' s' \<and>
    (current s' = current s \<and> owner B' m = Some (current s) \<or>
     current s' \<noteq> current s \<and> current s \<in> set (wait_of B' (waitqueue m)))"
proof -
  obtain r s' L' where s': "mutex_lock node m s = Inr (r, s')" "sync_rep T Q M L' (a_lock m B) s'"
    using mutex_lock_ok [OF assms] by blast
  have q: "waitqueue m \<in> Q" and self: "self_of B = current s" "self_of (a_lock m B) = current s'"
    using assms(1,2) s'(2) by (auto simp: sync_rep_def sync_core_def sched_rep_def self_of_def)
  have "owner (a_lock m B) m = Some (current s) \<and> current s' = current s \<or>
      current s' \<noteq> current s \<and> current s \<in> set (wait_of (a_lock m B) (waitqueue m))"
  proof (cases "owner B m")
    case None
    then show ?thesis using self by (simp add: a_lock_def self_of_def)
  next
    case (Some t)
    then have wait: "current s \<in> set (wait_of (a_lock m B) (waitqueue m))"
      using self(1) by (simp add: a_lock_def a_switch_def a_enqueue_def)
    then have "current s \<in> waiters Q (a_lock m B)" using q by (auto simp: waiters_def)
    then have "current s' \<noteq> current s" using s'(2) self(2) unfolding sync_rep_def by metis
    then show ?thesis using wait by blast
  qed
  then show ?thesis using s' by blast
qed

theorem mutex_lock_refines_witness:
  "\<exists>r s' L' B'. mutex_lock 0x8900 0x7000 demo_sync = Inr (r, s') \<and> B' = a_lock 0x7000 demo_B \<and>
    sync_rep demo_T demo_Q demo_M L' B' s' \<and>
    (current s' = current demo_sync \<and> owner B' 0x7000 = Some (current demo_sync) \<or>
     current s' \<noteq> current demo_sync \<and> current demo_sync \<in> set (wait_of B' (waitqueue 0x7000)))"
proof (rule mutex_lock_refines [OF demo_rep])
  show "0x8900 \<notin> members demo_L" unfolding demo_members by simp
qed (simp_all add: demo_sync_def demo_B_def demo_A_def self_of_def can_leave_def)

text \<open>
  C19. \<^verbatim>\<open>mutex_unlock\<close> implements the abstract unlock: the mutex goes to the thread that has waited longest,
  which becomes ready, and is free if no thread waits.
\<close>

theorem mutex_unlock_refines:
  assumes "sync_rep T Q M L B s" "m \<in> M"
  shows "\<exists>L'. sync_rep T Q M L' (a_unlock m B) (mutex_unlock m s) \<and>
    owner (a_unlock m B) m = (case wait_of B (waitqueue m) of [] \<Rightarrow> None | t # _ \<Rightarrow> Some t)"
  using mutex_unlock_ok [OF assms] by (simp add: a_unlock_def Let_def)

theorem mutex_unlock_refines_witness:
  "\<exists>L'. sync_rep demo_T demo_Q demo_M L' (a_unlock 0x7000 demo_B) (mutex_unlock 0x7000 demo_sync) \<and>
    owner (a_unlock 0x7000 demo_B) 0x7000 = (case wait_of demo_B (waitqueue 0x7000) of [] \<Rightarrow> None | t # _ \<Rightarrow> Some t)"
  by (rule mutex_unlock_refines [OF demo_rep]) simp

text \<open>
  C20. Waiting on a condition variable, up to the switch to another thread, implements the abstract wait:
  the caller is put on the queue of the variable and gives up the mutex in one step that no other
  thread can come between.
\<close>

theorem condition_wait_refines:
  assumes "sync_rep T Q M L B s" "waitqueue c \<in> Q" "c \<notin> M" "m \<in> M" "preempt_cnt s = 0"
    and "node \<notin> members L" "node \<noteq> NULL" "node \<notin> T" "idle_thread s \<noteq> current s" "can_leave (sched B)"
  shows "\<exists>r s' L'. condition_wait node node2 c m s = Inr (r, s') \<and> sync_rep T Q M L' (a_wait c m B) s' \<and>
    current s' \<noteq> current s"
proof -
  obtain r s' L' where s': "condition_block node c m s = Inr (r, s')" "sync_rep T Q M L' (a_wait c m B) s'"
    using condition_block_ok [OF assms] by blast
  have self: "self_of B = current s" "self_of (a_wait c m B) = current s'"
    using assms(1) s'(2) by (auto simp: sync_rep_def sync_core_def sched_rep_def self_of_def)
  have "c \<noteq> m" using assms(3,4) by auto
  then have "wait_of (a_wait c m B) (waitqueue c) = wait_of B (waitqueue c) @ [current s]"
    using self(1) by (simp add: a_wait_def a_switch_def a_unlock_other) (simp add: a_enqueue_def)
  then have "current s \<in> waiters Q (a_wait c m B)" unfolding waiters_def using assms(2) by (intro UN_I) auto
  then have "current s' \<noteq> current s" using s'(2) self(2) unfolding sync_rep_def by metis
  then show ?thesis using s' by (auto simp: condition_wait_def)
qed

theorem condition_wait_refines_witness:
  "\<exists>r s' L'. condition_wait 0x8900 0x8a00 0x9000 0x7000 demo_sync = Inr (r, s') \<and>
    sync_rep demo_T demo_Q demo_M L' (a_wait 0x9000 0x7000 demo_B) s' \<and> current s' \<noteq> current demo_sync"
proof (rule condition_wait_refines [OF demo_rep])
  show "0x8900 \<notin> members demo_L" unfolding demo_members by simp
qed (simp_all add: demo_sync_def demo_B_def demo_A_def can_leave_def waitqueue_def)

text \<open>
  C21. \<^verbatim>\<open>condition_broadcast\<close> returns and wakes every thread that waits on the variable, in the order of the
  queue, which is empty afterwards.
\<close>

theorem condition_broadcast_refines:
  assumes "sync_rep T Q M L B s" "waitqueue c \<in> Q" "c \<notin> M" "lst \<noteq> NULL" "lst \<notin> members L" "lst \<notin> T"
  shows "\<exists>s' L'. condition_broadcast lst c s = Some s' \<and> sync_rep T Q M L' (a_broadcast c B) s' \<and>
    ready (sched (a_broadcast c B)) = ready (sched B) @ wait_of B (waitqueue c)"
  using condition_broadcast_ok [OF assms] by (simp add: a_broadcast_def)

theorem condition_broadcast_refines_witness:
  "\<exists>s' L'. condition_broadcast 0x8b00 0x9000 demo_sync = Some s' \<and> sync_rep demo_T demo_Q demo_M L' (a_broadcast 0x9000 demo_B) s' \<and>
    ready (sched (a_broadcast 0x9000 demo_B)) = ready (sched demo_B) @ wait_of demo_B (waitqueue 0x9000)"
proof (rule condition_broadcast_refines [OF demo_rep])
  show "0x8b00 \<notin> members demo_L" unfolding demo_members by simp
qed (simp_all add: waitqueue_def)

text \<open>
  C25. When no other thread can run (nothing is ready and there is no idle thread yet), \<^verbatim>\<open>mutex_lock\<close> on a
  mutex that another thread owns returns in the caller: the caller goes on running, although the owner is
  the same as before and the caller has become the last thread in the queue of the mutex, blocked.
\<close>

theorem mutex_lock_returns_unowned:
  assumes "sync_rep T Q M L B s" "preempt_cnt s = 0" "m \<in> M" "owner B m = Some t" "t \<noteq> current s"
    and "ready (sched B) = []" "idle_thread s = NULL" "node \<notin> members L" "node \<noteq> NULL" "node \<notin> T"
  shows "\<exists>r s' L' B' ns. mutex_lock node m s = Inr (r, s') \<and> current s' = current s \<and> t_state s' (current s) = THREAD_BLOCKED \<and>
    sync_core T Q M L' B' s' \<and> owner B' m = Some t \<and> mtx_locked s' m \<and>
    wait_of B' (waitqueue m) = wait_of B (waitqueue m) @ [current s] \<and>
    heap_lists (ll s') L' \<and> L' (waitqueue m) = Some ns \<and> map (w_thread s') ns = wait_of B (waitqueue m) @ [current s]"
proof -
  let ?q = "waitqueue m" and ?s = "enqueue_self node (waitqueue m) s"
  let ?B = "a_enqueue (waitqueue m) B"
  have core: "sync_core T Q M L B s" using assms(1) by (simp add: sync_rep_def)
  then have A: "running (sched B) = current s" "idler (sched B) = NULL" "current s \<noteq> NULL" and q: "?q \<in> Q" and lk: "mtx_locked s m"
    using assms(3,4,7) by (auto simp: sync_core_def sched_rep_def asched_ok_def)
  have "idle_thread s \<noteq> current s" using A(3) assms(7) by simp
  moreover have "\<forall>m' \<in> M. waitqueue m' = ?q \<longrightarrow> owner B m' \<noteq> None \<and> owner B m' \<noteq> Some (self_of B)"
    using assms(4,5) A(1) by (simp add: self_of_def)
  ultimately obtain L1 where c1: "sync_core T Q M L1 ?B ?s" using enqueue_core [OF assms(1) q assms(8-10)] by blast
  have stay: "a_yield (sched ?B) = sched ?B" using assms(6) A by (simp add: a_yield_def a_set_def a_enqueue_def self_of_def)
  have "\<not> keeps_running ?s" using assms(2) by (simp add: keeps_running_def enqueue_self_def)
  moreover have "sched_rep T L1 (sched ?B) ?s" using c1 by (simp add: sync_core_def)
  ultimately obtain r s' where s': "schedule ?s = Inr (r, s')" "yielded T L1 (a_yield (sched ?B)) ?s s'"
    using schedule_ok by fastforce
  let ?L = "L1(runqueue ?s \<mapsto> ready (a_yield (sched ?B)))"
  have c: "sync_core T Q M ?L ?B s'" using switch_waiting [OF c1 s'(2)] stay by (simp add: a_switch_def)
  then have "waiting T ?L ?q (wait_of ?B ?q) s'" "sched_rep T ?L (sched ?B) s'" using q by (simp_all add: sync_core_def)
  then obtain ns where "?L ?q = Some ns" "map (w_thread s') ns = wait_of ?B ?q" "heap_lists (ll s') ?L"
      "current s' = running (sched ?B)" "t_state s' = tstate (sched ?B)"
    by (auto simp: waiting_def sched_rep_def)
  moreover have "mutex_lock node m s = Inr (r, s')" using s'(1) by (simp add: mutex_lock_busy [OF lk])
  moreover have "mtx_locked s' m" using c assms(3,4) by (simp add: sync_core_def a_enqueue_def)
  ultimately show ?thesis using c assms(4) A
    by (intro exI [of _ r] exI [of _ s'] exI [of _ ?L] exI [of _ ?B] exI [of _ ns]) (simp add: a_enqueue_def a_set_def self_of_def)
qed

theorem mutex_lock_returns_unowned_witness:
  "\<exists>r s' L' B' ns. mutex_lock 0x8900 0x7000 demo_lone = Inr (r, s') \<and> current s' = current demo_lone \<and>
    t_state s' (current demo_lone) = THREAD_BLOCKED \<and> sync_core {0x1000} {0x7008} {0x7000} L' B' s' \<and>
    owner B' 0x7000 = Some 0x2000 \<and> mtx_locked s' 0x7000 \<and>
    wait_of B' (waitqueue 0x7000) = wait_of demo_lone_B (waitqueue 0x7000) @ [current demo_lone] \<and>
    heap_lists (ll s') L' \<and> L' (waitqueue 0x7000) = Some ns \<and>
    map (w_thread s') ns = wait_of demo_lone_B (waitqueue 0x7000) @ [current demo_lone]"
proof (rule mutex_lock_returns_unowned [OF demo_lone_rep])
  show "0x8900 \<notin> members [0x500 \<mapsto> [], 0x7008 \<mapsto> []]" unfolding demo_lone_members by simp
qed (simp_all add: demo_lone_def demo_lone_A_def demo_lone_B_def demo_sync_def)

end
