(* ===== verification/Devices.thy ===== *)
theory Devices
  imports CString
begin

text \<open>
  Port input and output and the drivers on top of it: the serial line (\<^verbatim>\<open>src/serial.c\<close>), the interrupt
  controller (\<^verbatim>\<open>src/i8259a.c\<close>), the interrupt table and its dispatch (\<^verbatim>\<open>src/ints.c\<close>), the programming of
  the timer (\<^verbatim>\<open>src/time.c\<close>) and the walk over the stack (\<^verbatim>\<open>src/backtrace.c\<close>). The bytes written to ports
  are a log; the bytes read come from a sequence the devices decide.
\<close>

section \<open>Ports\<close>

record ports =
  out_log :: "(u16 \<times> u8) list"
  in_src :: "nat \<Rightarrow> u16 \<Rightarrow> u8"       \<comment> \<open>what the \<open>n\<close>-th read finds\<close>
  in_cnt :: nat
  pic_irq_mask :: u32
  irq_handler :: "nat \<Rightarrow> addr"
  error_handler :: "nat \<Rightarrow> addr"
  idt :: "(u64 \<times> u64) list"           \<comment> \<open>low and high word of the entries\<close>

definition out8 :: "u16 \<Rightarrow> u8 \<Rightarrow> 'a ports_scheme \<Rightarrow> 'a ports_scheme" where
  "out8 port data s = s\<lparr>out_log := out_log s @ [(port, data)]\<rparr>"

definition in8 :: "u16 \<Rightarrow> 'a ports_scheme \<Rightarrow> u8 \<times> 'a ports_scheme" where
  "in8 port s = (in_src s (in_cnt s) port, s\<lparr>in_cnt := in_cnt s + 1\<rparr>)"

section \<open>Serial line\<close>

abbreviation (input) REG_DATA :: u16 where "REG_DATA \<equiv> 0x3f8"
abbreviation (input) REG_DLL :: u16 where "REG_DLL \<equiv> 0x3f8"
abbreviation (input) REG_IER :: u16 where "REG_IER \<equiv> 0x3f9"
abbreviation (input) REG_DLH :: u16 where "REG_DLH \<equiv> 0x3f9"
abbreviation (input) REG_LCR :: u16 where "REG_LCR \<equiv> 0x3fb"
abbreviation (input) REG_LSR :: u16 where "REG_LSR \<equiv> 0x3fd"

definition serial_setup :: "'a ports_scheme \<Rightarrow> 'a ports_scheme" where
  "serial_setup s =
     (let s = out8 REG_LCR 0 s;
          s = out8 REG_IER 0 s;
          s = out8 REG_LCR 0x80 s;
          s = out8 REG_DLL 0x0C s;
          s = out8 REG_DLH 0x00 s
      in out8 REG_LCR 3 s)"

text \<open>The wait for the transmitter does not end if the device never gets ready.\<close>

partial_function (option) wait_tx :: "'a ports_scheme \<Rightarrow> 'a ports_scheme option" where
  "wait_tx s = (let (v, s) = in8 REG_LSR s in if v AND 0x20 = 0 then wait_tx s else Some s)"

definition serial_putchar :: "u8 \<Rightarrow> 'a ports_scheme \<Rightarrow> 'a ports_scheme option" where
  "serial_putchar c s = Option.bind (wait_tx s) (\<lambda>s. Some (out8 REG_DATA c s))"

fun serial_write_loop :: "addr \<Rightarrow> nat \<Rightarrow> mem \<Rightarrow> 'a ports_scheme \<Rightarrow> 'a ports_scheme option" where
  "serial_write_loop buf 0 m s = Some s"
| "serial_write_loop buf (Suc n) m s = Option.bind (serial_putchar (m buf) s) (serial_write_loop (buf + 1) n m)"

definition serial_write :: "addr \<Rightarrow> u64 \<Rightarrow> mem \<Rightarrow> 'a ports_scheme \<Rightarrow> 'a ports_scheme option" where
  "serial_write buf sz m s = serial_write_loop buf (unat sz) m s"

section \<open>Interrupt controller\<close>

abbreviation (input) PIC_MASTER_CMD :: u16 where "PIC_MASTER_CMD \<equiv> 0x20"
abbreviation (input) PIC_MASTER_DATA :: u16 where "PIC_MASTER_DATA \<equiv> 0x21"
abbreviation (input) PIC_SLAVE_CMD :: u16 where "PIC_SLAVE_CMD \<equiv> 0xA0"
abbreviation (input) PIC_SLAVE_DATA :: u16 where "PIC_SLAVE_DATA \<equiv> 0xA1"
abbreviation (input) PIC_SLAVE_IRQ :: nat where "PIC_SLAVE_IRQ \<equiv> 2"
abbreviation (input) PIC_ACK_CMD :: u8 where "PIC_ACK_CMD \<equiv> 0x60"

definition master_mask :: "'a ports_scheme \<Rightarrow> u8" where
  "master_mask s = ucast (pic_irq_mask s AND 0xFF)"

definition slave_mask :: "'a ports_scheme \<Rightarrow> u8" where
  "slave_mask s = ucast (drop_bit 8 (pic_irq_mask s) AND 0xFF)"

definition pic_setup :: "u8 \<Rightarrow> 'a ports_scheme \<Rightarrow> 'a ports_scheme" where
  "pic_setup offset s =
     (let s = out8 PIC_MASTER_CMD 0x11 s;
          s = out8 PIC_SLAVE_CMD 0x11 s;
          s = out8 PIC_MASTER_DATA offset s;
          s = out8 PIC_SLAVE_DATA (offset + 8) s;
          s = out8 PIC_MASTER_DATA 4 s;
          s = out8 PIC_SLAVE_DATA 2 s;
          s = out8 PIC_MASTER_DATA 1 s;
          s = out8 PIC_SLAVE_DATA 1 s;
          s = out8 PIC_MASTER_DATA (master_mask s) s
      in out8 PIC_SLAVE_DATA (slave_mask s) s)"

definition send_mask :: "nat \<Rightarrow> 'a ports_scheme \<Rightarrow> 'a ports_scheme" where
  "send_mask irq s =
     (if irq < 8 then out8 PIC_MASTER_DATA (master_mask s) s else out8 PIC_SLAVE_DATA (slave_mask s) s)"

definition pic_mask :: "nat \<Rightarrow> 'a ports_scheme \<Rightarrow> 'a ports_scheme" where
  "pic_mask irq s = send_mask irq (s\<lparr>pic_irq_mask := pic_irq_mask s OR push_bit irq 1\<rparr>)"

definition pic_unmask :: "nat \<Rightarrow> 'a ports_scheme \<Rightarrow> 'a ports_scheme" where
  "pic_unmask irq s = send_mask irq (s\<lparr>pic_irq_mask := pic_irq_mask s AND NOT (push_bit irq 1)\<rparr>)"

definition pic_ack :: "nat \<Rightarrow> 'a ports_scheme \<Rightarrow> 'a ports_scheme" where
  "pic_ack irq s =
     (if irq \<ge> 8
      then let s = out8 PIC_SLAVE_CMD (PIC_ACK_CMD + of_nat (irq mod 8)) s
        in out8 PIC_MASTER_CMD (PIC_ACK_CMD + of_nat PIC_SLAVE_IRQ) s
      else out8 PIC_MASTER_CMD (PIC_ACK_CMD + of_nat irq) s)"

section \<open>Interrupts\<close>

abbreviation (input) IDT_PRESENT :: u64 where "IDT_PRESENT \<equiv> 0x800000000000"
abbreviation (input) IDT_INT_GATE :: u64 where "IDT_INT_GATE \<equiv> 0xE0000000000"
abbreviation (input) IDT_ENTRIES :: nat where "IDT_ENTRIES \<equiv> 256"
abbreviation (input) IRQS :: nat where "IRQS \<equiv> 16"
abbreviation (input) ERRORS :: nat where "ERRORS \<equiv> 32"

definition idt_entry_setup :: "u16 \<Rightarrow> u64 \<Rightarrow> u64 \<Rightarrow> u64 \<times> u64" where
  "idt_entry_setup selector handler fl =
     ((handler AND 0xFFFF) OR push_bit 16 (ucast selector) OR push_bit 32 (handler AND 0xFFFF0000) OR fl,
      drop_bit 32 handler AND 0xFFFFFFFF)"

text \<open>The handler an interrupt runs; an interrupt without one is reported and the kernel hangs.\<close>

datatype handler_call = Error_handler addr nat | Irq_handler addr nat

definition call_error_handler :: "nat \<Rightarrow> 'a ports_scheme \<Rightarrow> (handler_call \<times> 'a ports_scheme) res" where
  "call_error_handler error s =
     (let handler = error_handler s error
      in if handler = NULL then Inl (Bug ''Unexpected interrupt'') else Inr (Error_handler handler error, s))"

definition call_irq_handler :: "nat \<Rightarrow> 'a ports_scheme \<Rightarrow> (handler_call \<times> 'a ports_scheme) res" where
  "call_irq_handler irq s =
     (let handler = irq_handler s irq
      in if handler = NULL then Inl (Bug ''Unexpected interrupt'')
         else let s = pic_ack irq s in Inr (Irq_handler handler irq, s))"

definition int_handler :: "u64 \<Rightarrow> 'a ports_scheme \<Rightarrow> (handler_call \<times> 'a ports_scheme) res" where
  "int_handler intno s =
     (if unat intno < ERRORS then call_error_handler (unat intno) s
      else if unat intno < ERRORS + IRQS then call_irq_handler (unat intno - ERRORS) s
      else Inl (Bug ''Unexpected interrupt''))"

text \<open>The tables have no test of the index; past their end the model stops.\<close>

definition register_error_handler :: "nat \<Rightarrow> addr \<Rightarrow> 'a ports_scheme \<Rightarrow> 'a ports_scheme res" where
  "register_error_handler error handler s =
     (if error \<ge> ERRORS then Inl (Fault ''error_handler overflow'')
      else Inr (s\<lparr>error_handler := (error_handler s)(error := handler)\<rparr>))"

definition register_irq_handler :: "nat \<Rightarrow> addr \<Rightarrow> 'a ports_scheme \<Rightarrow> 'a ports_scheme res" where
  "register_irq_handler irq handler s =
     (if irq \<ge> IRQS then Inl (Fault ''irq_handler overflow'')
      else Inr (s\<lparr>irq_handler := (irq_handler s)(irq := handler)\<rparr>))"

definition activate_irq :: "nat \<Rightarrow> 'a ports_scheme \<Rightarrow> 'a ports_scheme" where
  "activate_irq irq s = pic_unmask irq s"

definition deactivate_irq :: "nat \<Rightarrow> 'a ports_scheme \<Rightarrow> 'a ports_scheme" where
  "deactivate_irq irq s = pic_mask irq s"

text \<open>\<open>int_entry\<close> is the table of entry points of \<^verbatim>\<open>src/entry.S\<close>, \<^verbatim>\<open>KERNEL_CS\<close> is \<open>0x08\<close>.\<close>

definition idt_setup :: "(nat \<Rightarrow> u64) \<Rightarrow> 'a ports_scheme \<Rightarrow> 'a ports_scheme" where
  "idt_setup int_entry s =
     s\<lparr>idt := map (\<lambda>i. idt_entry_setup 0x08 (int_entry i) (IDT_PRESENT OR IDT_INT_GATE)) [0..<IDT_ENTRIES]\<rparr>"

definition ints_setup :: "(nat \<Rightarrow> u64) \<Rightarrow> 'a ports_scheme \<Rightarrow> 'a ports_scheme" where
  "ints_setup int_entry s = (let s = idt_setup int_entry s in pic_setup (of_nat ERRORS) s)"

section \<open>Timer\<close>

abbreviation (input) PIT_CMD :: u16 where "PIT_CMD \<equiv> 0x43"
abbreviation (input) PIT_CH0_DATA :: u16 where "PIT_CH0_DATA \<equiv> 0x40"
abbreviation (input) PIT_FREQ :: u64 where "PIT_FREQ \<equiv> 1193180"
abbreviation (input) HZ :: u64 where "HZ \<equiv> 100"

definition pit_divisor :: "u64 \<Rightarrow> u64" where
  "pit_divisor freq = PIT_FREQ div freq"

definition pit_set_frequency :: "u64 \<Rightarrow> 'a ports_scheme \<Rightarrow> 'a ports_scheme res" where
  "pit_set_frequency freq s =
     (if freq = 0 then Inl (Fault ''division by zero'')
      else let dv = pit_divisor freq;
               cmd = push_bit 1 (2 AND 7) OR push_bit 4 ((1 OR 2) AND 3) OR push_bit 6 (0 AND 3);
               s = out8 PIT_CMD cmd s;
               s = out8 PIT_CH0_DATA (ucast (dv AND 0xff)) s
        in Inr (out8 PIT_CH0_DATA (ucast (drop_bit 8 dv AND 0xff)) s))"

text \<open>\<open>handler\<close> is the address of \<^verbatim>\<open>pit_handler\<close>.\<close>

definition time_setup :: "addr \<Rightarrow> 'a ports_scheme \<Rightarrow> 'a ports_scheme res" where
  "time_setup handler s =
     bindR (register_irq_handler 0 handler s) (\<lambda>s.
     bindR (pit_set_frequency HZ s) (\<lambda>s. Inr (activate_irq 0 s)))"

section \<open>Backtrace\<close>

text \<open>The words on the stack; \<^verbatim>\<open>frame[0]\<close> and \<^verbatim>\<open>frame[1]\<close> are at \<open>rbp\<close> and \<open>rbp + 8\<close>. The result is the list of the return addresses printed.\<close>

function raw_backtrace :: "(addr \<Rightarrow> u64) \<Rightarrow> addr \<Rightarrow> addr \<Rightarrow> addr \<Rightarrow> u64 list" where
  "raw_backtrace w rbp stack_begin stack_end =
     (if rbp \<ge> stack_begin \<and> rbp + 16 \<le> stack_end
      then let prev_rbp = w rbp; prev_rip = w (rbp + 8)
        in if prev_rbp \<le> rbp then [] else prev_rip # raw_backtrace w prev_rbp stack_begin stack_end
      else [])"
  by pat_completeness auto
termination
proof (relation "measure (\<lambda>(w, rbp, b, e). 2 ^ 64 - unat rbp)")
  fix w :: "addr \<Rightarrow> u64" and rbp b e x xa :: addr
  assume "x = w rbp" "\<not> x \<le> rbp"
  then have "unat rbp < unat x" "unat x < 2 ^ 64" using unat64_less [of x] by (simp_all add: word_le_nat_alt)
  then show "((w, x, b, e), w, rbp, b, e) \<in> measure (\<lambda>(w, rbp, b, e). 2 ^ 64 - unat rbp)" by simp
qed simp

declare raw_backtrace.simps [simp del]

definition stack_begin :: "addr \<Rightarrow> addr" where
  "stack_begin rsp = rsp AND NOT (0x1000 - 1)"

definition stack_end :: "addr \<Rightarrow> addr" where
  "stack_end rsp = stack_begin rsp + 0x1000"

definition backtrace :: "(addr \<Rightarrow> u64) \<Rightarrow> addr \<Rightarrow> addr \<Rightarrow> u64 list" where
  "backtrace w rbp rsp = raw_backtrace w rbp (stack_begin rsp) (stack_end rsp)"

end
