(* ===== verification/Ctype.thy ===== *)
theory Ctype
  imports Prelude
begin

text \<open>
  The character classes of \<^verbatim>\<open>src/ctype.c\<close>. A C \<^verbatim>\<open>int\<close> is a 32-bit word, and a class test gives the bits it
  found in the table. The table is shown to be the usual classification of ASCII.
\<close>

section \<open>The code\<close>

abbreviation (input) CTYPE_SP :: u8 where "CTYPE_SP \<equiv> 0x01"
abbreviation (input) CTYPE_DI :: u8 where "CTYPE_DI \<equiv> 0x02"
abbreviation (input) CTYPE_LO :: u8 where "CTYPE_LO \<equiv> 0x04"
abbreviation (input) CTYPE_UP :: u8 where "CTYPE_UP \<equiv> 0x08"
abbreviation (input) CTYPE_XD :: u8 where "CTYPE_XD \<equiv> 0x10"
abbreviation (input) CTYPE_PU :: u8 where "CTYPE_PU \<equiv> 0x20"
abbreviation (input) CTYPE_XS :: u8 where "CTYPE_XS \<equiv> 0x40"

definition ctype :: "u8 list" where
  "ctype =
     [0, 0, 0, 0, 0, 0, 0, 0,
      0, CTYPE_SP, CTYPE_SP, CTYPE_SP, CTYPE_SP, CTYPE_SP, 0, 0,
      0, 0, 0, 0, 0, 0, 0, 0,
      0, 0, 0, 0, 0, 0, 0, 0,
      CTYPE_XS OR CTYPE_SP, CTYPE_PU, CTYPE_PU, CTYPE_PU, CTYPE_PU, CTYPE_PU, CTYPE_PU, CTYPE_PU,
      CTYPE_PU, CTYPE_PU, CTYPE_PU, CTYPE_PU, CTYPE_PU, CTYPE_PU, CTYPE_PU, CTYPE_PU,
      CTYPE_DI OR CTYPE_XD, CTYPE_DI OR CTYPE_XD, CTYPE_DI OR CTYPE_XD, CTYPE_DI OR CTYPE_XD, CTYPE_DI OR CTYPE_XD, CTYPE_DI OR CTYPE_XD, CTYPE_DI OR CTYPE_XD, CTYPE_DI OR CTYPE_XD,
      CTYPE_DI OR CTYPE_XD, CTYPE_DI OR CTYPE_XD, CTYPE_PU, CTYPE_PU, CTYPE_PU, CTYPE_PU, CTYPE_PU, CTYPE_PU,
      CTYPE_PU, CTYPE_UP OR CTYPE_XD, CTYPE_UP OR CTYPE_XD, CTYPE_UP OR CTYPE_XD, CTYPE_UP OR CTYPE_XD, CTYPE_UP OR CTYPE_XD, CTYPE_UP OR CTYPE_XD, CTYPE_UP,
      CTYPE_UP, CTYPE_UP, CTYPE_UP, CTYPE_UP, CTYPE_UP, CTYPE_UP, CTYPE_UP, CTYPE_UP,
      CTYPE_UP, CTYPE_UP, CTYPE_UP, CTYPE_UP, CTYPE_UP, CTYPE_UP, CTYPE_UP, CTYPE_UP,
      CTYPE_UP, CTYPE_UP, CTYPE_UP, CTYPE_PU, CTYPE_PU, CTYPE_PU, CTYPE_PU, CTYPE_PU,
      CTYPE_PU, CTYPE_LO OR CTYPE_XD, CTYPE_LO OR CTYPE_XD, CTYPE_LO OR CTYPE_XD, CTYPE_LO OR CTYPE_XD, CTYPE_LO OR CTYPE_XD, CTYPE_LO OR CTYPE_XD, CTYPE_LO,
      CTYPE_LO, CTYPE_LO, CTYPE_LO, CTYPE_LO, CTYPE_LO, CTYPE_LO, CTYPE_LO, CTYPE_LO,
      CTYPE_LO, CTYPE_LO, CTYPE_LO, CTYPE_LO, CTYPE_LO, CTYPE_LO, CTYPE_LO, CTYPE_LO,
      CTYPE_LO, CTYPE_LO, CTYPE_LO, CTYPE_PU, CTYPE_PU, CTYPE_PU, CTYPE_PU, 0,
      0, 0, 0, 0, 0, 0, 0, 0,
      0, 0, 0, 0, 0, 0, 0, 0,
      0, 0, 0, 0, 0, 0, 0, 0,
      0, 0, 0, 0, 0, 0, 0, 0,
      0, 0, 0, 0, 0, 0, 0, 0,
      0, 0, 0, 0, 0, 0, 0, 0,
      0, 0, 0, 0, 0, 0, 0, 0,
      0, 0, 0, 0, 0, 0, 0, 0,
      0, 0, 0, 0, 0, 0, 0, 0,
      0, 0, 0, 0, 0, 0, 0, 0,
      0, 0, 0, 0, 0, 0, 0, 0,
      0, 0, 0, 0, 0, 0, 0, 0,
      0, 0, 0, 0, 0, 0, 0, 0,
      0, 0, 0, 0, 0, 0, 0, 0,
      0, 0, 0, 0, 0, 0, 0, 0,
      0, 0, 0, 0, 0, 0, 0, 0]"

text \<open>\<^verbatim>\<open>ctype[(unsigned char)c] & mask\<close>\<close>

definition ctype_and :: "u32 \<Rightarrow> u8 \<Rightarrow> u32" where
  "ctype_and c msk = ucast (ctype ! unat (ucast c :: u8) AND msk)"

definition isprint :: "u32 \<Rightarrow> u32" where
  "isprint c = ctype_and c (CTYPE_LO OR CTYPE_UP OR CTYPE_DI OR CTYPE_PU OR CTYPE_XS)"

definition isalpha :: "u32 \<Rightarrow> u32" where
  "isalpha c = ctype_and c (CTYPE_LO OR CTYPE_UP)"

definition isdigit :: "u32 \<Rightarrow> u32" where
  "isdigit c = ctype_and c CTYPE_DI"

definition isxdigit :: "u32 \<Rightarrow> u32" where
  "isxdigit c = ctype_and c CTYPE_XD"

definition isspace :: "u32 \<Rightarrow> u32" where
  "isspace c = ctype_and c CTYPE_SP"

definition islower :: "u32 \<Rightarrow> u32" where
  "islower c = ctype_and c CTYPE_LO"

definition isupper :: "u32 \<Rightarrow> u32" where
  "isupper c = ctype_and c CTYPE_UP"

definition toupper :: "u32 \<Rightarrow> u32" where
  "toupper c = (if islower c \<noteq> 0 then c - 0x20 else c)"

definition tolower :: "u32 \<Rightarrow> u32" where
  "tolower c = (if isupper c \<noteq> 0 then c + 0x20 else c)"

section \<open>What the table says\<close>

text \<open>The class of the character with code \<open>n\<close>, by ranges.\<close>

definition class_of :: "nat \<Rightarrow> u8" where
  "class_of n =
     (if 9 \<le> n \<and> n \<le> 13 then 0x01
      else if n = 32 then 0x41
      else if 48 \<le> n \<and> n \<le> 57 then 0x12
      else if 65 \<le> n \<and> n \<le> 70 then 0x18
      else if 71 \<le> n \<and> n \<le> 90 then 0x08
      else if 97 \<le> n \<and> n \<le> 102 then 0x14
      else if 103 \<le> n \<and> n \<le> 122 then 0x04
      else if 33 \<le> n \<and> n \<le> 126 then 0x20 else 0)"

lemma ctype_table: "ctype = map class_of [0..<256]"
  by code_simp

lemma ctype_nth: "ctype ! unat (c :: u8) = class_of (unat c)"
proof -
  have "unat c < 256" using unsigned_less [of c] by simp
  then show ?thesis by (simp add: ctype_table)
qed

lemma ucast8_eq_0: "(ucast (x :: u8) :: u32) = 0 \<longleftrightarrow> x = 0"
  by transfer (simp add: take_bit_take_bit)

lemma ctype_and_nonzero: "ctype_and c msk \<noteq> 0 \<longleftrightarrow> class_of (unat (ucast c :: u8)) AND msk \<noteq> 0"
  by (simp add: ctype_and_def ctype_nth ucast8_eq_0)

lemmas class_tests = isprint_def isalpha_def isdigit_def isxdigit_def isspace_def islower_def isupper_def ctype_and_nonzero

lemma isdigit_iff: "isdigit c \<noteq> 0 \<longleftrightarrow> 48 \<le> unat (ucast c :: u8) \<and> unat (ucast c :: u8) \<le> 57"
  unfolding class_tests by (auto simp: class_of_def)

lemma islower_iff: "islower c \<noteq> 0 \<longleftrightarrow> 97 \<le> unat (ucast c :: u8) \<and> unat (ucast c :: u8) \<le> 122"
  unfolding class_tests by (auto simp: class_of_def)

lemma isupper_iff: "isupper c \<noteq> 0 \<longleftrightarrow> 65 \<le> unat (ucast c :: u8) \<and> unat (ucast c :: u8) \<le> 90"
  unfolding class_tests by (auto simp: class_of_def)

lemma isspace_iff:
  "isspace c \<noteq> 0 \<longleftrightarrow> 9 \<le> unat (ucast c :: u8) \<and> unat (ucast c :: u8) \<le> 13 \<or> unat (ucast c :: u8) = 32"
  unfolding class_tests by (auto simp: class_of_def)

lemma isxdigit_iff:
  "isxdigit c \<noteq> 0 \<longleftrightarrow> (let n = unat (ucast c :: u8) in 48 \<le> n \<and> n \<le> 57 \<or> 65 \<le> n \<and> n \<le> 70 \<or> 97 \<le> n \<and> n \<le> 102)"
  unfolding class_tests Let_def by (auto simp: class_of_def)

lemma isalpha_iff:
  "isalpha c \<noteq> 0 \<longleftrightarrow> (let n = unat (ucast c :: u8) in 65 \<le> n \<and> n \<le> 90 \<or> 97 \<le> n \<and> n \<le> 122)"
  unfolding class_tests Let_def by (auto simp: class_of_def)

lemma isprint_iff: "isprint c \<noteq> 0 \<longleftrightarrow> 32 \<le> unat (ucast c :: u8) \<and> unat (ucast c :: u8) \<le> 126"
  unfolding class_tests by (auto simp: class_of_def)

end
