(* ===== verification/Stdlib.thy ===== *)
theory Stdlib
  imports CString Ctype
begin

text \<open>
  Conversion between numbers and their text, \<^verbatim>\<open>src/stdlib.c\<close>. A \<^verbatim>\<open>char\<close> is signed, so that it is extended
  by its sign where the code uses it as an \<^verbatim>\<open>int\<close>; the base is an \<^verbatim>\<open>int\<close> that takes part in unsigned
  arithmetic of 64 bits.
\<close>

section \<open>The code\<close>

definition c_int :: "u8 \<Rightarrow> u32" where
  "c_int c = scast c"

abbreviation (input) ULONG_MAX :: u64 where "ULONG_MAX \<equiv> -1"

partial_function (option) skip_spaces :: "addr \<Rightarrow> mem \<Rightarrow> addr option" where
  "skip_spaces ptr m = (if isspace (c_int (m ptr)) \<noteq> 0 then skip_spaces (ptr + 1) m else Some ptr)"

text \<open>The value of a character: every character counts as a digit.\<close>

definition char_digit :: "u8 \<Rightarrow> u32" where
  "char_digit ch =
     (let c = ucast (toupper (c_int ch)) :: u8
      in if isdigit (c_int c) \<noteq> 0 then c_int c - 48 else c_int c - 65 + 10)"

partial_function (option) strtoul_digits ::
  "u32 \<Rightarrow> u64 \<Rightarrow> bool \<Rightarrow> addr \<Rightarrow> mem \<Rightarrow> (u64 \<times> bool \<times> addr) option" where
  "strtoul_digits base ret consumed ptr m =
     (if m ptr \<noteq> 0
      then let digit = char_digit (m ptr)
        in if ret > (ULONG_MAX - scast digit) div scast base then Some (ULONG_MAX, consumed, ptr)
           else strtoul_digits base (ret * scast base + scast digit) True (ptr + 1) m
      else Some (ret, consumed, ptr))"

text \<open>The sign; the prefix of the number and the base it gives.\<close>

definition strtoul_sign :: "addr \<Rightarrow> mem \<Rightarrow> bool \<times> addr" where
  "strtoul_sign ptr m = (if m ptr = 45 \<or> m ptr = 43 then (m ptr = 45, ptr + 1) else (False, ptr))"

definition strtoul_base :: "u32 \<Rightarrow> addr \<Rightarrow> mem \<Rightarrow> u32 \<times> addr" where
  "strtoul_base base ptr m =
     (if base = 0
      then if m ptr = 48
           then let ptr = ptr + 1 in if tolower (c_int (m ptr)) = 120 then (16, ptr + 1) else (8, ptr)
           else (10, ptr)
      else let ptr = (if base = 8 \<and> m ptr = 48 then ptr + 1 else ptr);
               ptr = (if base = 16 \<and> m ptr = 48 \<and> tolower (if m (ptr + 1) = 120 then 1 else 0) \<noteq> 0 then ptr + 2 else ptr)
        in (base, ptr))"

text \<open>The result and \<^verbatim>\<open>*endptr\<close>.\<close>

definition strtoul :: "addr \<Rightarrow> u32 \<Rightarrow> mem \<Rightarrow> (u64 \<times> addr) option" where
  "strtoul str base m =
     Option.bind (skip_spaces str m) (\<lambda>ptr.
     let (negate, ptr) = strtoul_sign ptr m;
         (base, ptr) = strtoul_base base ptr m
     in Option.bind (strtoul_digits base 0 False ptr m) (\<lambda>(ret, consumed, ptr).
        Some (if negate then - ret else ret, if consumed then ptr else str)))"

definition digits :: "u8 list" where
  "digits = [48, 49, 50, 51, 52, 53, 54, 55, 56, 57, 97, 98, 99, 100, 101, 102, 103, 104, 105, 106, 107, 108, 109, 110,
     111, 112, 113, 114, 115, 116, 117, 118, 119, 120, 121, 122]"

text \<open>The first loop of \<^verbatim>\<open>ulltoa\<close> does not end for a base of 1.\<close>

partial_function (option) ulltoa_loop :: "u64 \<Rightarrow> u64 \<Rightarrow> addr \<Rightarrow> mem \<Rightarrow> (addr \<times> mem) res option" where
  "ulltoa_loop base value ptr m =
     (let r = value mod base; value = value div base
      in if r \<ge> 36 then Some (Inl (Fault ''digits overflow''))
         else let m = m(ptr := digits ! unat r); ptr = ptr + 1
           in if value \<noteq> 0 then ulltoa_loop base value ptr m else Some (Inr (ptr, m)))"

function reverse_loop :: "addr \<Rightarrow> addr \<Rightarrow> mem \<Rightarrow> mem" where
  "reverse_loop start ptr m =
     (if start < ptr
      then let c = m ptr; m = m(ptr := m start); m = m(start := c) in reverse_loop (start + 1) (ptr - 1) m
      else m)"
  by pat_completeness auto
termination
proof (relation "measure (\<lambda>(start, ptr, m). unat ptr - unat start)")
  fix start ptr :: addr and m c m1 m2
  assume less: "start < ptr"
  then have "unat (start + 1) = unat start + 1" "unat start < unat ptr" "unat (ptr - 1) = unat ptr - 1"
    using unat_add_1 [of start ptr] unat_sub_le [of 1 ptr] by (auto simp: word_less_nat_alt word_le_nat_alt)
  then show "((start + 1, ptr - 1, m2), start, ptr, m) \<in> measure (\<lambda>(start, ptr, m). unat ptr - unat start)" by simp
qed simp

declare reverse_loop.simps [simp del]

definition ulltoa :: "u64 \<Rightarrow> addr \<Rightarrow> u32 \<Rightarrow> mem \<Rightarrow> (addr \<times> mem) res option" where
  "ulltoa value str base m =
     (if base = 0 then Some (Inl (Fault ''division by zero''))
      else bindO (ulltoa_loop (scast base) value str m) (\<lambda>(ptr, m).
        let m = m(ptr := 0); ptr = ptr - 1
        in Some (Inr (str, reverse_loop str ptr m))))"

text \<open>The arguments are signed; the negation of the least value wraps to itself.\<close>

definition lltoa :: "u64 \<Rightarrow> addr \<Rightarrow> u32 \<Rightarrow> mem \<Rightarrow> (addr \<times> mem) res option" where
  "lltoa value str base m =
     (let (ptr, value, m) = (if sint value < 0 then (str + 1, - value, m(str := 45)) else (str, value, m))
      in bindO (ulltoa value ptr base m) (\<lambda>(_, m). Some (Inr (str, m))))"

definition ultoa :: "u64 \<Rightarrow> addr \<Rightarrow> u32 \<Rightarrow> mem \<Rightarrow> (addr \<times> mem) res option" where
  "ultoa value str base m = ulltoa value str base m"

definition ltoa :: "u64 \<Rightarrow> addr \<Rightarrow> u32 \<Rightarrow> mem \<Rightarrow> (addr \<times> mem) res option" where
  "ltoa value str base m = lltoa value str base m"

definition utoa :: "u32 \<Rightarrow> addr \<Rightarrow> u32 \<Rightarrow> mem \<Rightarrow> (addr \<times> mem) res option" where
  "utoa value str base m = ulltoa (ucast value) str base m"

definition itoa :: "u32 \<Rightarrow> addr \<Rightarrow> u32 \<Rightarrow> mem \<Rightarrow> (addr \<times> mem) res option" where
  "itoa value str base m = lltoa (scast value) str base m"

section \<open>Digits\<close>

function to_digits :: "nat \<Rightarrow> nat \<Rightarrow> nat list" where
  "to_digits b n = (if n < b \<or> b < 2 then [n] else to_digits b (n div b) @ [n mod b])"
  by pat_completeness auto
termination by (relation "measure snd") auto

declare to_digits.simps [simp del]

definition of_digits :: "nat \<Rightarrow> nat \<Rightarrow> nat list \<Rightarrow> nat" where
  "of_digits b = foldl (\<lambda>a d. a * b + d)"

lemma of_digits_simps [simp]:
  "of_digits b a [] = a" "of_digits b a (d # ds) = of_digits b (a * b + d) ds"
  "of_digits b a (ds @ es) = of_digits b (of_digits b a ds) es"
  by (simp_all add: of_digits_def)

lemma of_to_digits: "2 \<le> b \<Longrightarrow> of_digits b 0 (to_digits b n) = n"
  by (induction b n rule: to_digits.induct) (subst to_digits.simps, auto)

lemma to_digits_less: "2 \<le> b \<Longrightarrow> d \<in> set (to_digits b n) \<Longrightarrow> d < b"
proof (induction b n rule: to_digits.induct)
  case (1 b n)
  then show ?case using to_digits.simps [of b n] by (auto split: if_splits)
qed

lemma to_digits_nonempty [simp]: "to_digits b n \<noteq> []"
  by (subst to_digits.simps) simp

text \<open>A number below \<open>b ^ k\<close> has at most \<open>k\<close> digits.\<close>

lemma length_to_digits: "2 \<le> b \<Longrightarrow> n < b ^ k \<Longrightarrow> 0 < k \<Longrightarrow> length (to_digits b n) \<le> k"
proof (induction k arbitrary: n)
  case (Suc k)
  show ?case
  proof (cases "n < b")
    case False
    then have "0 < k" using Suc.prems by (cases k) auto
    moreover have "n div b < b ^ k" using Suc.prems by (simp add: less_mult_imp_div_less mult.commute)
    ultimately show ?thesis using Suc False by (subst to_digits.simps) simp
  qed (simp add: to_digits.simps)
qed simp

section \<open>Writing a number\<close>

text \<open>The first loop writes the digits, the least significant one first.\<close>

lemma ulltoa_loop_ok:
  assumes b: "2 \<le> unat base" "unat base \<le> 36" and f: "fits p (length (to_digits (unat base) (unat v)))"
  shows "\<exists>m'. ulltoa_loop base v p m = Some (Inr (p + of_nat (length (to_digits (unat base) (unat v))), m')) \<and>
    bytes_at p (length (to_digits (unat base) (unat v))) m' = map ((!) digits) (rev (to_digits (unat base) (unat v))) \<and>
    (\<forall>x. x \<notin> region p (length (to_digits (unat base) (unat v))) \<longrightarrow> m' x = m x)"
  using f
proof (induction "unat v" arbitrary: v p m rule: less_induct)
  case less
  let ?b = "unat base" and ?m = "m(p := digits ! (unat v mod unat base))"
  have r: "unat (v mod base) = unat v mod ?b" "unat (v div base) = unat v div ?b"
    by (simp_all add: unat_mod unat_div)
  have "unat v mod ?b < 36" using b mod_less_divisor [of ?b "unat v"] by linarith
  then have small: "\<not> 36 \<le> v mod base" by (simp add: word_le_nat_alt r)
  note step = ulltoa_loop.simps [of base v p m]
  show ?case
  proof (cases "unat v < ?b")
    case True
    then have d: "to_digits ?b (unat v) = [unat v]" "v div base = 0"
      by (simp_all add: to_digits.simps unat_eq_zero [symmetric] r del: unat_eq_zero)
    then show ?thesis using small True by (subst step) (simp add: r bytes_at_Suc region_Suc)
  next
    case False
    let ?v = "v div base" and ?ds = "to_digits ?b (unat v div ?b)"
    have d: "to_digits ?b (unat v) = ?ds @ [unat v mod ?b]" using False b by (subst to_digits.simps) simp
    have nz: "?v \<noteq> 0" using False b r(2) by (metis div_greater_zero_iff not_less unat_0 less_irrefl gr0I le_0_eq not_numeral_le_zero)
    have "unat ?v < unat v" using False b r(2) by simp
    moreover have "fits (p + 1) (length (to_digits ?b (unat ?v)))"
      using less.prems fits_end [of p "Suc (length ?ds)" 1] by (simp add: d r fits_def)
    ultimately obtain m' where m': "ulltoa_loop base ?v (p + 1) ?m = Some (Inr (p + 1 + of_nat (length ?ds), m'))"
      "bytes_at (p + 1) (length ?ds) m' = map ((!) digits) (rev ?ds)" "\<forall>x. x \<notin> region (p + 1) (length ?ds) \<longrightarrow> m' x = ?m x"
      using less.hyps [of ?v "p + 1" ?m] by (auto simp: r)
    have "m' p = digits ! (unat v mod ?b)"
      using m'(3) region_fresh [of "length ?ds" p] less.prems by (simp add: d fits_def)
    then show ?thesis using m' small nz by (subst step) (simp add: d r bytes_at_Suc region_Suc add.assoc)
  qed
qed

text \<open>The second loop reverses them in place.\<close>

lemma reverse_loop_ok:
  assumes "fits a (Suc n)"
  shows "bytes_at a (Suc n) (reverse_loop a (a + of_nat n) m) = rev (bytes_at a (Suc n) m) \<and>
    (\<forall>x. x \<notin> region a (Suc n) \<longrightarrow> reverse_loop a (a + of_nat n) m x = m x)"
  using assms
proof (induction n arbitrary: a m rule: less_induct)
  case (less n)
  show ?case
  proof (cases n)
    case 0
    then show ?thesis by (simp add: reverse_loop.simps bytes_at_Suc)
  next
    case (Suc k)
    let ?e = "a + of_nat n" and ?m = "m(a + of_nat n := m a, a := m (a + of_nat n))"
    have e: "unat ?e = unat a + n" "unat (a + 1) = unat a + 1"
      using fits_end [OF less.prems, of n] fits_end [OF less.prems, of 1] by simp_all
    then have step: "reverse_loop a ?e m = reverse_loop (a + 1) (?e - 1) ?m"
      using Suc by (subst reverse_loop.simps) (simp add: word_less_nat_alt)
    show ?thesis
    proof (cases k)
      case 0
      then have "reverse_loop a ?e m = ?m" using Suc step e by (simp add: reverse_loop.simps word_less_nat_alt)
      then show ?thesis using Suc 0 by (auto simp: bytes_at_Suc region_Suc)
    next
      case j: (Suc j)
      define w where "w = ?m"
      let ?r = "reverse_loop (a + 1) (a + 1 + of_nat j) w"
      have eq: "?e = a + 1 + of_nat (Suc j)" "?e - 1 = a + 1 + of_nat j" using Suc j by simp_all
      have f: "fits (a + 1) (Suc j)" using less.prems e(2) Suc j by (simp add: fits_def)
      have IH: "bytes_at (a + 1) (Suc j) ?r = rev (bytes_at (a + 1) (Suc j) w)" "\<And>x. x \<notin> region (a + 1) (Suc j) \<Longrightarrow> ?r x = w x"
        using less.IH [OF _ f, of w] Suc j by auto
      have fresh: "a \<notin> region (a + 1) (Suc j)" "?e \<notin> region (a + 1) (Suc j)" "?e \<noteq> a"
        using region_bounds [OF f, of a] region_bounds [OF f, of ?e] e Suc j by auto
      have "bytes_at (a + 1) (Suc j) w = bytes_at (a + 1) (Suc j) m"
        unfolding w_def using fresh(1,2) by (simp only: bytes_at_upd not_False_eq_True)
      then have "bytes_at (a + 1) (Suc j) ?r = rev (bytes_at (a + 1) (Suc j) m)" using IH(1) by simp
      moreover have "?r a = m ?e" "?r ?e = m a" using IH(2) fresh by (simp_all add: w_def)
      moreover have "?r x = m x" if "x \<notin> region a (Suc n)" for x
      proof -
        have "x \<notin> region (a + 1) (Suc j)" "x \<noteq> a" "x \<noteq> ?e"
          using that Suc j region_append [of a n 1] by (auto simp: region_Suc)
        then show ?thesis using IH(2) by (simp add: w_def)
      qed
      moreover have "bytes_at a (Suc n) m' = m' a # bytes_at (a + 1) (Suc j) m' @ [m' ?e]" for m'
        using bytes_at_Suc [of a n m'] bytes_at_snoc [of "a + 1" "Suc j" m'] Suc j eq(1) by (simp add: ac_simps)
      ultimately show ?thesis unfolding step eq(2) w_def [symmetric] by simp
    qed
  qed
qed

lemma scast_small:
  assumes "unat (x :: u32) < 2 ^ 31"
  shows "(scast x :: u64) = of_nat (unat x)" "unat (scast x :: u64) = unat x"
proof -
  have "int (unat x) < int (2 ^ 31)" using assms by (simp only: of_nat_less_iff)
  then have "uint x < 2 ^ 31" by simp
  moreover have "- (2 ^ 31) \<le> uint x" by (rule order_trans [of _ 0]) simp_all
  ultimately have "signed_take_bit 31 (uint x) = uint x" by (intro signed_take_bit_int_eq_self)
  then have si: "sint x = uint x" by (subst sint_uint) simp
  show eq: "(scast x :: u64) = of_nat (unat x)" unfolding scast_eq si by simp
  show "unat (scast x :: u64) = unat x" unfolding eq by (rule unat_of_nat64) (use assms in simp)
qed

text \<open>The text of a number.\<close>

definition number_text :: "nat \<Rightarrow> nat \<Rightarrow> u8 list" where
  "number_text b n = map ((!) digits) (to_digits b n)"

lemma digits_nonzero: "d < 36 \<Longrightarrow> digits ! d \<noteq> 0"
proof -
  have "list_all (\<lambda>c. c \<noteq> 0) digits" "length digits = 36" by (simp_all add: digits_def)
  then show "d < 36 \<Longrightarrow> digits ! d \<noteq> 0" by (simp add: list_all_length)
qed

lemma ulltoa_ok:
  assumes b: "2 \<le> unat base" "unat base \<le> 36" and f: "fits str (Suc (length (number_text (unat base) (unat v))))"
  shows "\<exists>m'. ulltoa v str base m = Some (Inr (str, m')) \<and> cstring str (number_text (unat base) (unat v)) m' \<and>
    (\<forall>x. x \<notin> region str (Suc (length (number_text (unat base) (unat v)))) \<longrightarrow> m' x = m x)"
proof -
  let ?ds = "to_digits (unat base) (unat v)"
  obtain k where k: "length ?ds = Suc k" by (cases "length ?ds") auto
  have len: "length (number_text (unat base) (unat v)) = Suc k" using k by (simp add: number_text_def)
  have sb: "unat (scast base :: u64) = unat base" using scast_small(2) [of base] b by simp
  have f': "fits str (length (to_digits (unat (scast base :: u64)) (unat v)))" "fits str (Suc k)"
    using f len k sb by (simp_all add: fits_def)
  obtain m1 where m1: "ulltoa_loop (scast base) v str m = Some (Inr (str + of_nat (Suc k), m1))"
    "bytes_at str (Suc k) m1 = map ((!) digits) (rev ?ds)" "\<forall>x. x \<notin> region str (Suc k) \<longrightarrow> m1 x = m x"
    using ulltoa_loop_ok [OF _ _ f'(1), of m] b unfolding sb k by blast
  define m2 where "m2 = m1(str + of_nat (Suc k) := 0)"
  let ?m3 = "reverse_loop str (str + of_nat k) m2"
  have e: "unat (str + of_nat (Suc k)) = unat str + Suc k" by (rule fits_end [OF f]) (simp add: len)
  then have out: "str + of_nat (Suc k) \<notin> region str (Suc k)" using region_bounds [OF f'(2)] by fastforce
  have r: "bytes_at str (Suc k) ?m3 = rev (bytes_at str (Suc k) m2)" "\<And>x. x \<notin> region str (Suc k) \<Longrightarrow> ?m3 x = m2 x"
    using reverse_loop_ok [OF f'(2), of m2] by auto
  have tx: "bytes_at str (Suc k) ?m3 = number_text (unat base) (unat v)"
  proof -
    have "bytes_at str (Suc k) m2 = map ((!) digits) (rev ?ds)" unfolding m2_def bytes_at_upd [OF out] m1(2) ..
    then show ?thesis using r(1) by (simp add: number_text_def rev_map)
  qed
  have "0 \<notin> set (number_text (unat base) (unat v))"
    using digits_nonzero to_digits_less [OF b(1)] b(2) by (fastforce simp: number_text_def)
  then have "cstring str (number_text (unat base) (unat v)) ?m3"
    using tx r(2) [OF out] unfolding cstring_def len by (simp add: m2_def)
  moreover have "ulltoa v str base m = Some (Inr (str, ?m3))"
    using m1(1) b by (auto simp: ulltoa_def m2_def)
  moreover have "?m3 x = m x" if "x \<notin> region str (Suc (Suc k))" for x
  proof -
    have "x \<notin> region str (Suc k)" "x \<noteq> str + of_nat (Suc k)"
      using that region_append [of str "Suc k" 1] by (auto simp: region_Suc)
    then show ?thesis using r(2) m1(3) by (simp add: m2_def)
  qed
  ultimately show ?thesis unfolding len by blast
qed

section \<open>Reading a number\<close>

lemma char_digit_digits: "d < 36 \<Longrightarrow> char_digit (digits ! d) = of_nat d"
proof -
  have "list_all (\<lambda>d. char_digit (digits ! d) = of_nat d) [0..<36]" by code_simp
  then show "d < 36 \<Longrightarrow> char_digit (digits ! d) = of_nat d" by (simp add: list_all_iff)
qed

text \<open>The value stays in range, so that the test for an overflow does not fire.\<close>

lemma strtoul_digits_ok:
  assumes b: "2 \<le> unat base" "unat base \<le> 36"
    and "cstring p (map ((!) digits) ds) m" "\<forall>d \<in> set ds. d < unat base" "of_digits (unat base) (unat r) ds < 2 ^ 64"
  shows "strtoul_digits base r c p m =
    Some (of_nat (of_digits (unat base) (unat r) ds), c \<or> ds \<noteq> [], p + of_nat (length ds))"
  using assms(3-)
proof (induction ds arbitrary: p r c)
  case Nil
  then show ?case by (subst strtoul_digits.simps) (simp add: cstring_Nil)
next
  case (Cons d ds)
  let ?b = "unat base"
  have ch: "m p = digits ! d" "m p \<noteq> 0" "cstring (p + 1) (map ((!) digits) ds) m" "d < ?b" "d < 36"
    using Cons.prems b by (auto simp: cstring_Cons)
  have dg: "scast (char_digit (m p)) = (of_nat d :: u64)"
    unfolding ch(1) char_digit_digits [OF ch(5)] using ch(5) scast_small(1) [of "of_nat d"]
    by (simp add: unat_of_nat take_bit_nat_eq_self)
  have sb: "(scast base :: u64) = of_nat ?b" using scast_small(1) [of base] b by simp
  have mono: "a \<le> of_digits ?b a ds" for a
  proof (induction ds arbitrary: a)
    case (Cons e es)
    have "a \<le> a * ?b + e" using b(1) by (cases ?b) auto
    also have "\<dots> \<le> of_digits ?b (a * ?b + e) es" by (rule Cons.IH)
    finally show ?case by simp
  qed simp
  have lim: "unat r * ?b + d < 2 ^ 64" using mono [of "unat r * ?b + d"] Cons.prems(3) by simp
  have "r * scast base + of_nat d = of_nat (unat r * ?b + d)" unfolding sb by simp
  then have next_r: "unat (r * scast base + of_nat d) = unat r * ?b + d" using unat_of_nat64 [OF lim] by simp
  have "unat (of_nat d :: u64) = d" using ch(5) by (intro unat_of_nat64) simp
  then have mx: "unat (ULONG_MAX - of_nat d) = 2 ^ 64 - 1 - d"
    using unat_sub_le [of "of_nat d" "ULONG_MAX"] by (simp add: unsigned_minus_1_eq_mask mask_eq_exp_minus_1)
  have "unat r \<le> (2 ^ 64 - 1 - d) div ?b" using lim b(1) by (simp add: less_eq_div_iff_mult_less_eq)
  then have ok: "\<not> (ULONG_MAX - of_nat d) div scast base < r"
    using scast_small(2) [of base] b by (simp add: word_less_nat_alt unat_div mx)
  have "strtoul_digits base r c p m = strtoul_digits base (r * scast base + of_nat d) True (p + 1) m"
    using ch(2) ok by (subst strtoul_digits.simps) (simp add: dg)
  also have "\<dots> = Some (of_nat (of_digits ?b (unat r * ?b + d) ds), True, p + 1 + of_nat (length ds))"
    using Cons.IH [OF ch(3), of "r * scast base + of_nat d" True] Cons.prems(2,3) unfolding next_r by simp
  finally show ?case by (simp add: add.assoc)
qed

text \<open>No digit is a blank or a sign.\<close>

lemma digits_plain: "d < 36 \<Longrightarrow> isspace (c_int (digits ! d)) = 0 \<and> digits ! d \<noteq> 45 \<and> digits ! d \<noteq> 43"
proof -
  have "list_all (\<lambda>d. isspace (c_int (digits ! d)) = 0 \<and> digits ! d \<noteq> 45 \<and> digits ! d \<noteq> 43) [0..<36]" by code_simp
  then show "d < 36 \<Longrightarrow> ?thesis" by (simp add: list_all_iff)
qed

lemma digits_zero: "d < 36 \<Longrightarrow> digits ! d = 48 \<Longrightarrow> d = 0"
proof -
  have "list_all (\<lambda>d. digits ! d = 48 \<longrightarrow> d = 0) [0..<36]" by code_simp
  then show "d < 36 \<Longrightarrow> digits ! d = 48 \<Longrightarrow> d = 0" by (simp add: list_all_iff)
qed

lemma hd_to_digits: "2 \<le> b \<Longrightarrow> hd (to_digits b n) = 0 \<Longrightarrow> n = 0"
proof (induction b n rule: to_digits.induct)
  case (1 b n)
  show ?case
  proof (cases "n < b")
    case True
    then show ?thesis using "1.prems" by (simp add: to_digits.simps)
  next
    case False
    then have "to_digits b n = to_digits b (n div b) @ [n mod b]" using "1.prems"(1) by (subst to_digits.simps) simp
    then have "n div b = 0" using "1.IH" "1.prems" False by simp
    then show ?thesis using False "1.prems"(1) by (simp add: div_eq_0_iff)
  qed
qed

lemma tolower_bit: "tolower (if x = (120 :: u8) then 1 else 0) \<noteq> 0 \<longleftrightarrow> x = 120"
proof -
  have "tolower 1 = 1" "tolower 0 = 0" by code_simp+
  then show ?thesis by simp
qed

text \<open>A number that \<^verbatim>\<open>ulltoa\<close> could have written is read back.\<close>

lemma strtoul_ok:
  assumes b: "2 \<le> unat base" "unat base \<le> 36" and s: "cstring str (number_text (unat base) n) m" and n: "n < 2 ^ 64"
  shows "\<exists>e. strtoul str base m = Some (of_nat n, e)"
proof -
  obtain d ds where ds: "to_digits (unat base) n = d # ds" by (cases "to_digits (unat base) n") auto
  have dl: "\<forall>x \<in> set (d # ds). x < unat base" using to_digits_less [OF b(1)] ds by metis
  then have d36: "d < 36" using b(2) by simp
  have ch: "m str = digits ! d" using s ds by (simp add: number_text_def cstring_Cons)
  have sk: "skip_spaces str m = Some str" using digits_plain [OF d36] ch by (subst skip_spaces.simps) simp
  have sg: "strtoul_sign str m = (False, str)" using digits_plain [OF d36] ch by (simp add: strtoul_sign_def)
  have base: "base \<noteq> 0" using b(1) by auto
  show ?thesis
  proof (cases "n = 0")
    case True
    have z: "d = 0" "ds = []" using ds True b(1) by (simp_all add: to_digits.simps)
    then have m0: "m str = 48" "m (str + 1) = 0" using s ds by (simp_all add: number_text_def cstring_Cons cstring_Nil digits_def)
    have "strtoul_base base str m = (base, if base = 8 then str + 1 else str)"
      using base m0 tolower_bit [of "m (str + 1)"] by (simp add: strtoul_base_def)
    moreover have "strtoul_digits base 0 False (str + 1) m = Some (0, False, str + 1)"
      using m0 by (subst strtoul_digits.simps) simp
    moreover have "strtoul_digits base 0 False str m = Some (0, True, str + 1)"
      using strtoul_digits_ok [OF b, of str "[0]" m 0 False] s ds z dl by (simp add: number_text_def)
    ultimately show ?thesis using sk sg True by (auto simp: strtoul_def)
  next
    case False
    then have "m str \<noteq> 48" using hd_to_digits [OF b(1), of n] digits_zero [OF d36] ds ch by auto
    then have "strtoul_base base str m = (base, str)" using base by (simp add: strtoul_base_def)
    moreover have "of_digits (unat base) 0 (d # ds) = n" using of_to_digits [OF b(1), of n] ds by simp
    then have "strtoul_digits base 0 False str m = Some (of_nat n, True, str + of_nat (length (d # ds)))"
      using strtoul_digits_ok [OF b, of str "d # ds" m 0 False] s ds dl n by (simp add: number_text_def del: of_digits_simps)
    ultimately show ?thesis using sk sg by (simp add: strtoul_def)
  qed
qed

end
