(* ===== verification/Print.thy ===== *)
theory Print
  imports Devices Stdlib
begin

text \<open>
  Formatted output, \<^verbatim>\<open>src/print.c\<close>. The state is the memory and the ports. Arguments of variable number are a
  list of machine words, taken from the front; taking one too many is a fault. A C \<^verbatim>\<open>int\<close> is a word of 32
  bits that \<open>sint\<close> reads.
\<close>

section \<open>C integers\<close>

text \<open>
  A \<^verbatim>\<open>size_t\<close> or \<^verbatim>\<open>ptrdiff_t\<close> that becomes an \<^verbatim>\<open>int\<close> keeps its low 32 bits; an \<^verbatim>\<open>int\<close> that becomes one, or an
  index of an array, is extended with its sign. A sum or difference outside the range of \<^verbatim>\<open>int\<close> is undefined
  in C, and a fault here.
\<close>

type_synonym i32 = "32 word"

definition int_of_size :: "u64 \<Rightarrow> i32" where
  "int_of_size n = ucast n"

definition size_of_int :: "i32 \<Rightarrow> u64" where
  "size_of_int i = scast i"

definition in_int :: "int \<Rightarrow> bool" where
  "in_int i \<longleftrightarrow> - (2 ^ 31) \<le> i \<and> i < 2 ^ 31"

definition int_add :: "i32 \<Rightarrow> i32 \<Rightarrow> i32 res" where
  "int_add a b = (if in_int (sint a + sint b) then Inr (a + b) else Inl (Fault ''signed overflow''))"

definition int_sub :: "i32 \<Rightarrow> i32 \<Rightarrow> i32 res" where
  "int_sub a b = (if in_int (sint a - sint b) then Inr (a - b) else Inl (Fault ''signed overflow''))"

section \<open>Targets\<close>

text \<open>\<^verbatim>\<open>struct print_ctx\<close> with its two kinds: the serial line, and a buffer with its size.\<close>

datatype print_ctx = Serial | Str addr i32

type_synonym 'a out_state = "mem \<times> 'a ports_scheme"

definition serial_out :: "addr \<Rightarrow> i32 \<Rightarrow> 'a out_state \<Rightarrow> 'a out_state option" where
  "serial_out buf sz = (\<lambda>(m, p). Option.bind (serial_write buf (size_of_int sz) m p) (\<lambda>p. Some (m, p)))"

definition str_out :: "addr \<Rightarrow> i32 \<Rightarrow> i32 \<Rightarrow> addr \<Rightarrow> i32 \<Rightarrow> 'a out_state \<Rightarrow> 'a out_state res" where
  "str_out sbuf ssize written buf sz = (\<lambda>(m, p).
     if sint written > sint ssize then Inr (m, p)
     else bindR (int_sub ssize written) (\<lambda>room.
       let remain = (if sint sz < sint room then sz else room)
       in Inr (memcpy (sbuf + size_of_int written) buf (size_of_int remain) m, p)))"

text \<open>\<^verbatim>\<open>print\<close>: both targets report success, so the count grows by the size and the result is 0.\<close>

definition print :: "print_ctx \<Rightarrow> i32 \<Rightarrow> addr \<Rightarrow> i32 \<Rightarrow> 'a out_state \<Rightarrow> (i32 \<times> 'a out_state) res option" where
  "print ctx written buf sz s =
     bindO (case ctx of
              Serial \<Rightarrow> Option.bind (serial_out buf sz s) (\<lambda>s. Some (Inr s))
            | Str sbuf ssize \<Rightarrow> Some (str_out sbuf ssize written buf sz s)) (\<lambda>s.
     bindO (Some (int_add written sz)) (\<lambda>written. Some (Inr (written, s))))"

section \<open>Formats\<close>

abbreviation (input) FMT_INVALID :: u32 where "FMT_INVALID \<equiv> 0"
abbreviation (input) FMT_NONE :: u32 where "FMT_NONE \<equiv> 1"
abbreviation (input) FMT_STR :: u32 where "FMT_STR \<equiv> 2"
abbreviation (input) FMT_CHAR :: u32 where "FMT_CHAR \<equiv> 3"
abbreviation (input) FMT_INT :: u32 where "FMT_INT \<equiv> 4"
abbreviation (input) FMT_PERCENT :: u32 where "FMT_PERCENT \<equiv> 5"
abbreviation (input) FMT_SSHORT :: u32 where "FMT_SSHORT \<equiv> 0x100"
abbreviation (input) FMT_SHORT :: u32 where "FMT_SHORT \<equiv> 0x200"
abbreviation (input) FMT_LONG :: u32 where "FMT_LONG \<equiv> 0x400"
abbreviation (input) FMT_LLONG :: u32 where "FMT_LLONG \<equiv> 0x800"
abbreviation (input) FMT_UNSIGNED :: u32 where "FMT_UNSIGNED \<equiv> 0x1000"
abbreviation (input) FMT_HEX :: u32 where "FMT_HEX \<equiv> 0x2000"
abbreviation (input) FMT_OCT :: u32 where "FMT_OCT \<equiv> 0x4000"

partial_function (option) skip_digits :: "addr \<Rightarrow> mem \<Rightarrow> addr option" where
  "skip_digits fmt m =
     (if m fmt \<noteq> 0 \<and> isdigit (c_int (m fmt)) \<noteq> 0 then skip_digits (fmt + 1) m else Some fmt)"

text \<open>The characters \<^verbatim>\<open>-+ #0\<close>, the precision, and the length modifier with its bit.\<close>

definition skip_flag :: "addr \<Rightarrow> mem \<Rightarrow> addr" where
  "skip_flag fmt m = (if m fmt \<in> {45, 43, 32, 35, 48} then fmt + 1 else fmt)"

definition skip_precision :: "addr \<Rightarrow> mem \<Rightarrow> addr option" where
  "skip_precision fmt m = (if m fmt = 46 then skip_digits (fmt + 1) m else Some fmt)"

definition length_modifier :: "addr \<Rightarrow> mem \<Rightarrow> u32 \<times> addr" where
  "length_modifier fmt m =
     (if m fmt = 108
      then let fmt = fmt + 1 in if m fmt = 108 then (FMT_LLONG, fmt + 1) else (FMT_LONG, fmt)
      else if m fmt = 104
      then let fmt = fmt + 1 in if m fmt = 104 then (FMT_SSHORT, fmt + 1) else (FMT_SHORT, fmt)
      else (0, fmt))"

text \<open>The letter: the cases of the switch fall through from \<^verbatim>\<open>p\<close> to \<^verbatim>\<open>d\<close>.\<close>

definition conversion_type :: "u8 \<Rightarrow> u32 \<Rightarrow> u32" where
  "conversion_type c spec =
     (let spec = (if c = 112 then spec OR FMT_LONG else spec);
          spec = (if c \<in> {112, 120, 88, 111} then spec OR (if c = 111 then FMT_OCT else FMT_HEX) else spec);
          spec = (if c \<in> {112, 120, 88, 111, 117} then spec OR FMT_UNSIGNED else spec)
      in (if c \<in> {112, 120, 88, 111, 117, 100, 105} then FMT_INT
          else if c = 115 then FMT_STR
          else if c = 99 then FMT_CHAR
          else if c = 37 then FMT_PERCENT else FMT_INVALID) OR spec)"

text \<open>What follows a percent sign.\<close>

definition decode_conversion :: "addr \<Rightarrow> mem \<Rightarrow> (u32 \<times> addr) option" where
  "decode_conversion fmt m =
     Option.bind (skip_digits (skip_flag fmt m) m) (\<lambda>fmt.
     Option.bind (skip_precision fmt m) (\<lambda>fmt.
     let (spec, fmt) = length_modifier fmt m
     in Some (conversion_type (m fmt) spec, fmt + 1)))"

partial_function (option) decode_from :: "u32 \<Rightarrow> addr \<Rightarrow> mem \<Rightarrow> (u32 \<times> addr) option" where
  "decode_from type fmt m =
     (if m fmt = 0 then Some (type, fmt)
      else if m fmt = 37 \<and> type \<noteq> FMT_INVALID then Some (type, fmt)
      else if m fmt \<noteq> 37 then decode_from FMT_NONE (fmt + 1) m
      else decode_conversion (fmt + 1) m)"

definition decode_format :: "addr \<Rightarrow> mem \<Rightarrow> (u32 \<times> addr) option" where
  "decode_format fmt m = decode_from FMT_INVALID fmt m"

section \<open>Printing\<close>

text \<open>Addresses of the locals \<^verbatim>\<open>buf\<close> and \<^verbatim>\<open>c\<close>, and of the string literal with the percent sign.\<close>

record print_env =
  number_buf :: addr
  char_buf :: addr
  percent :: addr

fun va_arg :: "u64 list \<Rightarrow> (u64 \<times> u64 list) res" where
  "va_arg [] = Inl (Fault ''va_arg'')"
| "va_arg (a # as) = Inr (a, as)"

definition number_base :: "u32 \<Rightarrow> u32" where
  "number_base type = (if type AND FMT_HEX \<noteq> 0 then 16 else if type AND FMT_OCT \<noteq> 0 then 8 else 10)"

text \<open>An argument that is not long is an \<^verbatim>\<open>int\<close> or an \<^verbatim>\<open>unsigned\<close>.\<close>

definition number_value :: "u32 \<Rightarrow> u64 \<Rightarrow> u64" where
  "number_value type arg =
     (if type AND FMT_LONG \<noteq> 0 \<or> type AND FMT_LLONG \<noteq> 0 then arg
      else if type AND FMT_UNSIGNED \<noteq> 0 then ucast (ucast arg :: u32)
      else scast (ucast arg :: u32))"

definition print_number ::
  "print_env \<Rightarrow> print_ctx \<Rightarrow> i32 \<Rightarrow> u64 list \<Rightarrow> u32 \<Rightarrow> 'a out_state \<Rightarrow> (i32 \<times> u64 list \<times> 'a out_state) res option" where
  "print_number env ctx written args type = (\<lambda>(m, p).
     let buf = number_buf env in
     bindO (Some (va_arg args)) (\<lambda>(arg, args).
     bindO (if type AND FMT_UNSIGNED \<noteq> 0 then ulltoa (number_value type arg) buf (number_base type) m
            else lltoa (number_value type arg) buf (number_base type) m) (\<lambda>(_, m).
     Option.bind (strlen buf m) (\<lambda>len.
     bindO (print ctx written buf (int_of_size len) (m, p)) (\<lambda>(written, s).
     Some (Inr (written, args, s)))))))"

text \<open>One round of the loop of \<^verbatim>\<open>__vprintf\<close>; no count stands for the negative result.\<close>

definition print_item ::
  "print_env \<Rightarrow> print_ctx \<Rightarrow> addr \<Rightarrow> addr \<Rightarrow> u32 \<Rightarrow> i32 \<Rightarrow> u64 list \<Rightarrow> 'a out_state \<Rightarrow>
     (i32 option \<times> u64 list \<times> 'a out_state) res option" where
  "print_item env ctx start fmt type written args s =
     (let kind = type AND 0xff in
      if kind = FMT_STR then
        bindO (Some (va_arg args)) (\<lambda>(str, args).
        Option.bind (strlen str (fst s)) (\<lambda>len.
        bindO (print ctx written str (int_of_size len) s) (\<lambda>(written, s). Some (Inr (Some written, args, s)))))
      else if kind = FMT_CHAR then
        bindO (Some (va_arg args)) (\<lambda>(arg, args).
        let s = ((fst s)(char_buf env := ucast arg), snd s) in
        bindO (print ctx written (char_buf env) 1 s) (\<lambda>(written, s). Some (Inr (Some written, args, s))))
      else if kind = FMT_INT then
        bindO (print_number env ctx written args type s) (\<lambda>(written, args, s). Some (Inr (Some written, args, s)))
      else if kind = FMT_NONE then
        bindO (print ctx written start (int_of_size (fmt - start)) s) (\<lambda>(written, s). Some (Inr (Some written, args, s)))
      else if kind = FMT_PERCENT then
        bindO (print ctx written (percent env) 1 s) (\<lambda>(written, s). Some (Inr (Some written, args, s)))
      else Some (Inr (None, args, s)))"

partial_function (option) vprintf_loop ::
  "print_env \<Rightarrow> print_ctx \<Rightarrow> addr \<Rightarrow> i32 \<Rightarrow> u64 list \<Rightarrow> 'a out_state \<Rightarrow> (i32 \<times> 'a out_state) res option" where
  "vprintf_loop env ctx fmt written args s =
     (if fst s fmt \<noteq> 0
      then Option.bind (decode_format fmt (fst s)) (\<lambda>(type, fmt').
        bindO (print_item env ctx fmt fmt' type written args s) (\<lambda>(r, args, s).
        case r of None \<Rightarrow> Some (Inr (-1, s)) | Some written \<Rightarrow> vprintf_loop env ctx fmt' written args s))
      else Some (Inr (written, s)))"

definition raw_vprintf ::
  "print_env \<Rightarrow> print_ctx \<Rightarrow> addr \<Rightarrow> u64 list \<Rightarrow> 'a out_state \<Rightarrow> (i32 \<times> 'a out_state) res option" where
  "raw_vprintf env ctx fmt args s = vprintf_loop env ctx fmt 0 args s"

definition vprintf :: "print_env \<Rightarrow> addr \<Rightarrow> u64 list \<Rightarrow> 'a out_state \<Rightarrow> (i32 \<times> 'a out_state) res option" where
  "vprintf env fmt args s = raw_vprintf env Serial fmt args s"

text \<open>\<^verbatim>\<open>rc\<close> is not negative where 1 is subtracted from it, so only the other difference can overflow.\<close>

definition vsnprintf ::
  "print_env \<Rightarrow> addr \<Rightarrow> u64 \<Rightarrow> addr \<Rightarrow> u64 list \<Rightarrow> 'a out_state \<Rightarrow> (i32 \<times> 'a out_state) res option" where
  "vsnprintf env buf sz fmt args s =
     bindO (raw_vprintf env (Str buf (int_of_size sz)) fmt args s) (\<lambda>(rc, (m, p)).
       if sint rc \<ge> 0
       then bindO (Some (if sint rc < sint (int_of_size sz) then int_sub rc 1 else int_sub (int_of_size sz) 1)) (\<lambda>i.
         Some (Inr (rc, (m(buf + size_of_int i := 0), p))))
       else Some (Inr (rc, (m, p))))"

definition printf :: "print_env \<Rightarrow> addr \<Rightarrow> u64 list \<Rightarrow> 'a out_state \<Rightarrow> (i32 \<times> 'a out_state) res option" where
  "printf env fmt args s = vprintf env fmt args s"

definition snprintf ::
  "print_env \<Rightarrow> addr \<Rightarrow> u64 \<Rightarrow> addr \<Rightarrow> u64 list \<Rightarrow> 'a out_state \<Rightarrow> (i32 \<times> 'a out_state) res option" where
  "snprintf env buf sz fmt args s = vsnprintf env buf sz fmt args s"

end
