(* ===== verification/DeviceProps.thy ===== *)
theory DeviceProps
  imports Devices
begin

text \<open>Properties of the drivers.\<close>

section \<open>Serial line\<close>

text \<open>The transmitter gets ready again and again.\<close>

definition tx_ready_often :: "'a ports_scheme \<Rightarrow> bool" where
  "tx_ready_often s \<longleftrightarrow> (\<forall>n. \<exists>k \<ge> n. in_src s k REG_LSR AND 0x20 \<noteq> 0)"

lemma wait_tx_ok:
  assumes "in_src s k REG_LSR AND 0x20 \<noteq> 0" "in_cnt s \<le> k"
  shows "\<exists>n. wait_tx s = Some (s\<lparr>in_cnt := n\<rparr>)"
  using assms
proof (induction "k - in_cnt s" arbitrary: s)
  case 0
  then show ?case by (subst wait_tx.simps) (auto simp: in8_def)
next
  case (Suc d)
  show ?case
  proof (cases "in_src s (in_cnt s) REG_LSR AND 0x20 = 0")
    case True
    let ?s = "s\<lparr>in_cnt := in_cnt s + 1\<rparr>"
    have "\<exists>n. wait_tx ?s = Some (?s\<lparr>in_cnt := n\<rparr>)" by (rule Suc.hyps(1)) (use Suc.hyps(2) Suc.prems in auto)
    then show ?thesis using True by (subst wait_tx.simps) (auto simp: in8_def)
  next
    case False
    then show ?thesis by (subst wait_tx.simps) (auto simp: in8_def)
  qed
qed

lemma serial_putchar_ok:
  assumes "tx_ready_often s"
  shows "\<exists>n. serial_putchar c s = Some (s\<lparr>in_cnt := n, out_log := out_log s @ [(REG_DATA, c)]\<rparr>)"
proof -
  obtain k where "in_cnt s \<le> k" "in_src s k REG_LSR AND 0x20 \<noteq> 0" using assms by (auto simp: tx_ready_often_def)
  then show ?thesis using wait_tx_ok [of s k] by (auto simp: serial_putchar_def out8_def)
qed

lemma serial_write_loop_ok:
  assumes "tx_ready_often s"
  shows "\<exists>k. serial_write_loop buf n m s =
    Some (s\<lparr>in_cnt := k, out_log := out_log s @ map (Pair REG_DATA) (bytes_at buf n m)\<rparr>)"
  using assms
proof (induction n arbitrary: buf s)
  case 0
  show ?case by (intro exI [of _ "in_cnt s"]) simp
next
  case (Suc n)
  obtain k where k: "serial_putchar (m buf) s = Some (s\<lparr>in_cnt := k, out_log := out_log s @ [(REG_DATA, m buf)]\<rparr>)"
    using serial_putchar_ok [OF Suc.prems] by blast
  have "tx_ready_often (s\<lparr>in_cnt := k, out_log := out_log s @ [(REG_DATA, m buf)]\<rparr>)"
    using Suc.prems by (simp add: tx_ready_often_def)
  from Suc.IH [OF this, of "buf + 1"] show ?case using k by (auto simp: bytes_at_Suc)
qed

section \<open>Interrupt controller\<close>

lemma pic_irq_mask_out8 [simp]: "pic_irq_mask (out8 p d s) = pic_irq_mask s" "pic_irq_mask (send_mask i s) = pic_irq_mask s"
  by (simp_all add: out8_def send_mask_def)

lemma mask_bit_32: "i < 32 \<Longrightarrow> bit (push_bit i 1 :: u32) k \<longleftrightarrow> k = i"
  by (auto simp: bit_simps)

lemma pic_unmask_bit: "i < 32 \<Longrightarrow> bit (pic_irq_mask (pic_unmask i s)) k \<longleftrightarrow> bit (pic_irq_mask s) k \<and> k \<noteq> i"
  unfolding pic_unmask_def using bit_imp_le_length [of "pic_irq_mask s" k] by (auto simp: bit_simps mask_bit_32)

lemma pic_mask_bit: "i < 32 \<Longrightarrow> bit (pic_irq_mask (pic_mask i s)) k \<longleftrightarrow> bit (pic_irq_mask s) k \<or> k = i"
  unfolding pic_mask_def by (auto simp: bit_simps mask_bit_32)

section \<open>Interrupt table\<close>

text \<open>How the processor reads an entry: the address of the handler and the selector.\<close>

definition entry_handler :: "u64 \<times> u64 \<Rightarrow> u64" where
  "entry_handler = (\<lambda>(low, high). (low AND 0xFFFF) OR push_bit 16 (drop_bit 48 low AND 0xFFFF) OR push_bit 32 high)"

definition entry_selector :: "u64 \<times> u64 \<Rightarrow> u16" where
  "entry_selector = (\<lambda>(low, high). ucast (drop_bit 16 low))"

definition entry_flags :: "u64 \<times> u64 \<Rightarrow> u64" where
  "entry_flags = (\<lambda>(low, high). low AND 0xFFFF00000000)"

lemma low_masks:
  "(0xFFFF :: u64) = mask 16" "(0xFFFF0000 :: u64) = push_bit 16 (mask 16)" "(0xFFFFFFFF :: u64) = mask 32"
  "(0xFFFF00000000 :: u64) = push_bit 32 (mask 16)"
  by (simp_all add: mask_eq_exp_minus_1 push_bit_eq_mult)

lemma idt_low_bit:
  "bit (fst (idt_entry_setup sel h fl)) k \<longleftrightarrow>
     k < 16 \<and> bit h k \<or> 16 \<le> k \<and> k < 32 \<and> bit sel (k - 16) \<or> 48 \<le> k \<and> k < 64 \<and> bit h (k - 32) \<or> bit fl k"
  using bit_imp_le_length [of h k] bit_imp_le_length [of sel "k - 16"] bit_imp_le_length [of fl k]
  unfolding idt_entry_setup_def fst_conv low_masks by (auto simp: bit_simps)

lemma idt_high_bit: "bit (snd (idt_entry_setup sel h fl)) k \<longleftrightarrow> k < 32 \<and> bit h (k + 32)"
  unfolding idt_entry_setup_def snd_conv low_masks using bit_imp_le_length [of h "k + 32"] by (auto simp: bit_simps add.commute)

text \<open>The flags of an entry are in the bits 32 to 47.\<close>

definition flag_bits :: "u64 \<Rightarrow> bool" where
  "flag_bits fl \<longleftrightarrow> fl AND NOT 0xFFFF00000000 = 0"

lemma flag_bits_bit: "flag_bits fl \<Longrightarrow> bit fl k \<Longrightarrow> 32 \<le> k \<and> k < 48"
proof -
  assume fl: "flag_bits fl" "bit fl k"
  have "\<not> bit (fl AND NOT 0xFFFF00000000) k" using fl(1) by (simp add: flag_bits_def)
  then show ?thesis using fl(2) bit_imp_le_length [OF fl(2)] unfolding low_masks by (auto simp: bit_simps)
qed

lemma idt_entry_ok:
  assumes "flag_bits fl"
  shows "entry_handler (idt_entry_setup sel h fl) = h" "entry_selector (idt_entry_setup sel h fl) = sel"
    "entry_flags (idt_entry_setup sel h fl) = fl"
proof -
  let ?e = "idt_entry_setup sel h fl"
  have eqs: "entry_handler ?e = (fst ?e AND 0xFFFF) OR push_bit 16 (drop_bit 48 (fst ?e) AND 0xFFFF) OR push_bit 32 (snd ?e)"
    "entry_selector ?e = ucast (drop_bit 16 (fst ?e))" "entry_flags ?e = fst ?e AND 0xFFFF00000000"
    by (simp_all add: entry_handler_def entry_selector_def entry_flags_def split_beta)
  note fb = flag_bits_bit [OF assms]
  show "entry_handler ?e = h"
  proof (rule bit_eqI)
    fix k :: nat
    consider "k < 16" | "16 \<le> k" "k < 32" | "32 \<le> k" by linarith
    then show "bit (entry_handler ?e) k \<longleftrightarrow> bit h k"
      unfolding eqs low_masks using fb [of k] fb [of "32 + k"] bit_imp_le_length [of h k]
      by cases (auto simp: bit_simps idt_low_bit idt_high_bit)
  qed
  show "entry_selector ?e = sel"
  proof (rule bit_eqI)
    fix k
    show "bit (entry_selector ?e) k \<longleftrightarrow> bit sel k"
      unfolding eqs using fb [of "k + 16"] bit_imp_le_length [of sel k]
      by (auto simp: bit_simps idt_low_bit add.commute)
  qed
  show "entry_flags ?e = fl"
  proof (rule bit_eqI)
    fix k
    show "bit (entry_flags ?e) k \<longleftrightarrow> bit fl k"
      unfolding eqs low_masks using fb [of k] by (auto simp: bit_simps idt_low_bit)
  qed
qed

section \<open>Bytes of a word\<close>

lemma byte_of: "unat (ucast (x AND 0xff) :: u8) = unat (x :: u64) mod 256"
proof -
  have "x AND 0xff = take_bit 8 x" by (simp add: take_bit_eq_mask mask_eq_exp_minus_1)
  then show ?thesis by (simp add: unsigned_ucast_eq unsigned_take_bit_eq take_bit_eq_mod unat_mod)
qed

section \<open>Small examples\<close>

text \<open>A machine whose transmitter is ready at every third look.\<close>

definition demo_ports :: ports where
  "demo_ports = \<lparr>out_log = [], in_src = (\<lambda>n _. if n mod 3 = 0 then 0x60 else 0), in_cnt = 1, pic_irq_mask = NOT 4,
     irq_handler = (\<lambda>_. 0), error_handler = (\<lambda>_. 0), idt = []\<rparr>"

lemma demo_ready: "tx_ready_often demo_ports"
  unfolding tx_ready_often_def
proof
  fix n :: nat
  have "in_src demo_ports (3 * n) REG_LSR AND 0x20 \<noteq> 0" by (simp add: demo_ports_def)
  then show "\<exists>k \<ge> n. in_src demo_ports k REG_LSR AND 0x20 \<noteq> 0" by (intro exI [of _ "3 * n"]) simp
qed

section \<open>Properties\<close>

text \<open>
  C30. \<^verbatim>\<open>serial_write\<close> returns if the transmitter gets ready again and again, and has then sent the bytes of
  the buffer to the data port, each once, in their order, and nothing else to any port.
\<close>

theorem serial_write_sends:
  assumes "tx_ready_often s"
  shows "\<exists>s'. serial_write buf sz m s = Some s' \<and>
    out_log s' = out_log s @ map (Pair REG_DATA) (bytes_at buf (unat sz) m)"
  using serial_write_loop_ok [OF assms, of buf "unat sz" m] by (auto simp: serial_write_def)

theorem serial_write_sends_witness:
  "\<exists>s'. serial_write 0x100 3 (\<lambda>a. ucast a) demo_ports = Some s' \<and>
    out_log s' = out_log demo_ports @ map (Pair REG_DATA) (bytes_at 0x100 (unat (3 :: u64)) (\<lambda>a. ucast a))"
  by (rule serial_write_sends [OF demo_ready])

text \<open>
  C31. Every entry of the interrupt table that \<^verbatim>\<open>idt_setup\<close> writes is read by the processor as the entry
  point of its interrupt, with the kernel code selector and as a present interrupt gate.
\<close>

theorem idt_setup_entries:
  assumes "i < 256"
  shows "entry_handler (idt (idt_setup int_entry s) ! i) = int_entry i \<and>
    entry_selector (idt (idt_setup int_entry s) ! i) = 0x08 \<and> entry_flags (idt (idt_setup int_entry s) ! i) = 0x8E0000000000"
proof -
  have "flag_bits (IDT_PRESENT OR IDT_INT_GATE)" by (simp add: flag_bits_def)
  from idt_entry_ok [OF this, of "0x08" "int_entry i"] show ?thesis using assms by (simp add: idt_setup_def)
qed

theorem idt_setup_entries_witness:
  "entry_handler (idt (idt_setup (\<lambda>i. 0xffffffff80100000 + of_nat i) demo_ports) ! 32) = 0xffffffff80100020 \<and>
   entry_selector (idt (idt_setup (\<lambda>i. 0xffffffff80100000 + of_nat i) demo_ports) ! 32) = 0x08 \<and>
   entry_flags (idt (idt_setup (\<lambda>i. 0xffffffff80100000 + of_nat i) demo_ports) ! 32) = 0x8E0000000000"
  using idt_setup_entries [of 32 "\<lambda>i. 0xffffffff80100000 + of_nat i" demo_ports] by simp

text \<open>
  What the controllers do with a command: \<open>0x60\<close> plus a level is a specific end of interrupt, which ends the
  service of that line; the lines of the second controller are 8 to 15.
\<close>

definition eoi_line :: "u16 \<times> u8 \<Rightarrow> nat set" where
  "eoi_line = (\<lambda>(port, cmd).
     if cmd AND 0xF8 \<noteq> 0x60 then {}
     else if port = PIC_MASTER_CMD then {unat (cmd AND 7)}
     else if port = PIC_SLAVE_CMD then {8 + unat (cmd AND 7)} else {})"

definition in_service_after :: "(u16 \<times> u8) list \<Rightarrow> nat set \<Rightarrow> nat set" where
  "in_service_after cmds I = fold (\<lambda>c I. I - eoi_line c) cmds I"

fun register_all :: "(nat \<times> addr) list \<Rightarrow> 'a ports_scheme \<Rightarrow> 'a ports_scheme res" where
  "register_all [] s = Inr s"
| "register_all ((i, h) # rs) s = bindR (register_irq_handler i h s) (register_all rs)"

definition irq_handler_after :: "(nat \<times> addr) list \<Rightarrow> 'a ports_scheme \<Rightarrow> nat \<Rightarrow> addr" where
  "irq_handler_after rs s i = (case map_of (rev rs) i of None \<Rightarrow> irq_handler s i | Some h \<Rightarrow> h)"

lemma register_all_ok: "register_all rs s = Inr s' \<Longrightarrow> s' = s\<lparr>irq_handler := irq_handler_after rs s\<rparr>"
proof (induction rs s rule: register_all.induct)
  case (2 i h rs s)
  let ?s = "s\<lparr>irq_handler := (irq_handler s)(i := h)\<rparr>"
  have i: "register_irq_handler i h s = Inr ?s" using 2(2) by (auto simp: register_irq_handler_def split: if_splits)
  have "irq_handler_after rs ?s = irq_handler_after ((i, h) # rs) s"
    by (auto simp: irq_handler_after_def map_add_def fun_eq_iff split: option.split)
  moreover have "s' = ?s\<lparr>irq_handler := irq_handler_after rs ?s\<rparr>" using 2(1) [of ?s] 2(2) i by simp
  ultimately show ?case by simp
next
  case (1 s)
  have "irq_handler_after [] s = irq_handler s" by (simp add: irq_handler_after_def fun_eq_iff)
  then show ?case using 1 by simp
qed

text \<open>Of the sixteen lines, each is acknowledged by its own commands.\<close>

definition ack_bytes :: "nat \<Rightarrow> (u16 \<times> u8) list" where
  "ack_bytes i = (if i < 8 then [(0x20, 0x60 + of_nat i)] else [(0xA0, 0x60 + of_nat (i - 8)), (0x20, 0x62)])"

lemma pic_ack_bytes:
  assumes "i < 16"
  shows "pic_ack i s = s\<lparr>out_log := out_log s @ ack_bytes i\<rparr>"
proof -
  have "\<not> i < 8 \<Longrightarrow> i mod 8 = i - 8" using assms by (simp add: mod_if)
  then show ?thesis by (auto simp: pic_ack_def out8_def ack_bytes_def)
qed

lemma ack_bytes_service:
  assumes "i < 16"
  shows "in_service_after (ack_bytes i) I = I - (if i < 8 then {i} else {i, 2})"
proof -
  have "list_all (\<lambda>i. map eoi_line (ack_bytes i) = (if i < 8 then [{i}] else [{i}, {2}])) [0..<16]" by code_simp
  then have "map eoi_line (ack_bytes i) = (if i < 8 then [{i}] else [{i}, {2}])" using assms by (simp add: list_all_iff)
  then show ?thesis by (auto simp: in_service_after_def ack_bytes_def split: if_splits)
qed

text \<open>
  C32. After any sequence of calls of \<^verbatim>\<open>register_irq_handler\<close>, an interrupt on line \<open>i\<close> runs the handler
  registered last for this line (or the one it had), and stops the kernel when that is none. Before the
  handler starts, the interrupt is acknowledged and nothing else is changed: the bytes sent end the service
  of line \<open>i\<close>, and of line 2 if it came through the second controller, and of no other line.
\<close>

theorem irq_dispatch:
  assumes "i < 16" "register_all rs s = Inr s'"
  shows "let h = (case map_of (rev rs) i of None \<Rightarrow> irq_handler s i | Some h \<Rightarrow> h) in
    if h = NULL then int_handler (of_nat (32 + i)) s' = Inl (Bug ''Unexpected interrupt'')
    else \<exists>cmds. int_handler (of_nat (32 + i)) s' = Inr (Irq_handler h i, s'\<lparr>out_log := out_log s @ cmds\<rparr>) \<and>
      cmds = (if i < 8 then [(0x20, 0x60 + of_nat i)] else [(0xA0, 0x60 + of_nat (i - 8)), (0x20, 0x62)]) \<and>
      (\<forall>I. in_service_after cmds I = I - (if i < 8 then {i} else {i, 2}))"
proof -
  have n: "unat (of_nat (32 + i) :: u64) = 32 + i" by (rule unat_of_nat64) (use assms(1) in simp)
  have s': "s' = s\<lparr>irq_handler := irq_handler_after rs s\<rparr>" by (rule register_all_ok [OF assms(2)])
  show ?thesis
    using assms(1) n s' pic_ack_bytes [OF assms(1), of s'] ack_bytes_service [OF assms(1)]
    unfolding ack_bytes_def [symmetric]
    by (simp add: int_handler_def call_irq_handler_def irq_handler_after_def Let_def del: of_nat_add)
qed

theorem irq_dispatch_witness:
  "\<exists>s' cmds. register_all [(9, 0x4444), (9, 0x5555)] demo_ports = Inr s' \<and>
    int_handler 41 s' = Inr (Irq_handler 0x5555 9, s'\<lparr>out_log := out_log demo_ports @ cmds\<rparr>) \<and>
    cmds = [(0xA0, 0x61), (0x20, 0x62)] \<and> in_service_after cmds {2, 5, 9} = {5}"
proof -
  obtain s' where s': "register_all [(9, 0x4444), (9, 0x5555)] demo_ports = Inr s'" by (simp add: register_irq_handler_def)
  show ?thesis using irq_dispatch [OF _ s', of 9] s' by (auto simp: Let_def)
qed

text \<open>
  Masking and unmasking change the one line they are about: after \<^verbatim>\<open>pic_unmask\<close> the line is open, after
  \<^verbatim>\<open>pic_mask\<close> it is closed, all others stay, and the byte sent to the chip is its part of the mask.
\<close>

theorem pic_lines:
  assumes "i < 16" "k < 16"
  shows "(bit (pic_irq_mask (pic_unmask i s)) k \<longleftrightarrow> bit (pic_irq_mask s) k \<and> k \<noteq> i) \<and>
    (bit (pic_irq_mask (pic_mask i s)) k \<longleftrightarrow> bit (pic_irq_mask s) k \<or> k = i) \<and>
    last (out_log (pic_unmask i s)) =
      (if i < 8 then (PIC_MASTER_DATA, master_mask (pic_unmask i s)) else (PIC_SLAVE_DATA, slave_mask (pic_unmask i s)))"
  using assms pic_unmask_bit [of i s k] pic_mask_bit [of i s k]
  by (simp add: pic_unmask_def send_mask_def out8_def master_mask_def slave_mask_def)

theorem pic_lines_witness:
  "(bit (pic_irq_mask (pic_unmask 9 demo_ports)) 3 \<longleftrightarrow> bit (pic_irq_mask demo_ports) 3 \<and> 3 \<noteq> (9 :: nat)) \<and>
    (bit (pic_irq_mask (pic_mask 9 demo_ports)) 3 \<longleftrightarrow> bit (pic_irq_mask demo_ports) 3 \<or> 3 = (9 :: nat)) \<and>
    last (out_log (pic_unmask 9 demo_ports)) =
      (if (9 :: nat) < 8 then (PIC_MASTER_DATA, master_mask (pic_unmask 9 demo_ports))
       else (PIC_SLAVE_DATA, slave_mask (pic_unmask 9 demo_ports)))"
  by (rule pic_lines) simp_all

text \<open>
  C33. The two bytes \<^verbatim>\<open>pit_set_frequency\<close> sends to the timer are the low and the high byte of the divisor, for
  every frequency of at least 19 ticks a second; below, the divisor does not fit sixteen bits.
\<close>

theorem pit_divisor_bytes:
  assumes "19 \<le> freq"
  shows "\<exists>s' lo hi. pit_set_frequency freq s = Inr s' \<and>
    out_log s' = out_log s @ [(PIT_CMD, 0x34), (PIT_CH0_DATA, lo), (PIT_CH0_DATA, hi)] \<and>
    unat lo + 256 * unat hi = unat PIT_FREQ div unat freq"
proof -
  let ?d = "PIT_FREQ div freq"
  have f: "19 \<le> unat freq" using assms by (simp add: word_le_nat_alt)
  have d: "unat ?d = 1193180 div unat freq" by (simp add: unat_div)
  also have "\<dots> \<le> 1193180 div 19" by (rule div_le_mono2) (use f in simp_all)
  finally have small: "unat ?d < 65536" by simp
  have "unat ?d div 256 < 256" using small by simp
  then have "unat (ucast (?d AND 0xff) :: u8) = unat ?d mod 256" "unat (ucast (drop_bit 8 ?d AND 0xff) :: u8) = unat ?d div 256"
    by (simp_all add: byte_of unat_drop_bit_div)
  then have "unat (ucast (?d AND 0xff) :: u8) + 256 * unat (ucast (drop_bit 8 ?d AND 0xff) :: u8) = unat ?d" by simp
  moreover have "freq \<noteq> 0" using f by auto
  ultimately show ?thesis by (auto simp: pit_set_frequency_def pit_divisor_def out8_def d Let_def)
qed

theorem pit_divisor_bytes_witness:
  "\<exists>s' lo hi. pit_set_frequency 100 demo_ports = Inr s' \<and>
    out_log s' = out_log demo_ports @ [(PIT_CMD, 0x34), (PIT_CH0_DATA, lo), (PIT_CH0_DATA, hi)] \<and>
    unat lo + 256 * unat hi = unat PIT_FREQ div unat (100 :: u64)"
  by (rule pit_divisor_bytes) simp


end
