(* ===== verification/PrintSpec.thy ===== *)
theory PrintSpec
  imports Print DeviceProps
begin

text \<open>
  What formatted output should print: a format is a list of pieces, plain text and conversions, and its
  output is the concatenation of what the pieces give. The code is shown to print exactly that.
\<close>

section \<open>Signed numbers\<close>

definition signed_text :: "nat \<Rightarrow> int \<Rightarrow> u8 list" where
  "signed_text b i = (if i < 0 then 45 # number_text b (nat (- i)) else number_text b (nat i))"

lemma unat_neg_sint: "sint (v :: u64) < 0 \<Longrightarrow> unat (- v) = nat (- sint v)"
proof -
  assume neg: "sint v < 0"
  have "- (2 ^ 63) \<le> sint v" using sint_ge [of v] by simp
  then have r: "0 \<le> - sint v" "- sint v < 2 ^ 64" using neg by simp_all
  have "(of_nat (nat (- sint v)) :: u64) = of_int (- sint v)" using r(1) by simp
  also have "\<dots> = - v" by simp
  finally have "- v = of_nat (nat (- sint v))" by simp
  moreover have "nat (- sint v) < 2 ^ 64" using r(2) by (simp add: nat_less_iff)
  ultimately show ?thesis using unat_of_nat64 by metis
qed

lemma unat_pos_sint: "\<not> sint (v :: u64) < 0 \<Longrightarrow> unat v = nat (sint v)"
proof -
  assume pos: "\<not> sint v < 0"
  have "sint v < 2 ^ 63" using sint_lt [of v] by simp
  then have "nat (sint v) < 2 ^ 64" using pos by (simp add: nat_less_iff)
  moreover have "(of_nat (nat (sint v)) :: u64) = v" using pos by simp
  ultimately show ?thesis using unat_of_nat64 by metis
qed

text \<open>In base 8 and above a number has at most 22 digits, and fits the buffer of \<^verbatim>\<open>print_number\<close>.\<close>

lemma number_text_bound: "8 \<le> b \<Longrightarrow> n < 2 ^ 64 \<Longrightarrow> length (number_text b n) \<le> 22"
proof -
  assume b: "8 \<le> b" and n: "n < 2 ^ 64"
  have "(2::nat) ^ 64 \<le> 8 ^ 22" by simp
  also have "\<dots> \<le> b ^ 22" by (rule power_mono) (use b in simp_all)
  finally have "n < b ^ 22" using n by simp
  then show ?thesis using length_to_digits [of b n 22] b by (simp add: number_text_def)
qed

lemma ulltoa_buf:
  assumes b: "8 \<le> unat base" "unat base \<le> 36" and f: "fits buf 64"
  shows "\<exists>m'. ulltoa v buf base m = Some (Inr (buf, m')) \<and> cstring buf (number_text (unat base) (unat v)) m' \<and>
    (\<forall>x. x \<notin> region buf 64 \<longrightarrow> m' x = m x)"
proof -
  let ?n = "Suc (length (number_text (unat base) (unat v)))"
  have len: "?n \<le> 23" using number_text_bound [OF b(1) unat64_less, of v] by simp
  then have "fits buf ?n" using f by (simp add: fits_def)
  then show ?thesis using ulltoa_ok [OF _ b(2), of buf v m] b(1) region_mono [of ?n 64 buf] len by fastforce
qed

lemma lltoa_buf:
  assumes b: "8 \<le> unat base" "unat base \<le> 36" and f: "fits buf 64"
  shows "\<exists>m'. lltoa v buf base m = Some (Inr (buf, m')) \<and> cstring buf (signed_text (unat base) (sint v)) m' \<and>
    (\<forall>x. x \<notin> region buf 64 \<longrightarrow> m' x = m x)"
proof (cases "sint v < 0")
  case False
  then show ?thesis using ulltoa_buf [OF assms, of v m] unat_pos_sint [OF False] by (auto simp: lltoa_def signed_text_def)
next
  case True
  let ?m = "m(buf := 45)" and ?n = "Suc (length (number_text (unat base) (unat (- v))))"
  have len: "?n \<le> 23" using number_text_bound [OF b(1) unat64_less, of "- v"] by simp
  have e: "unat (buf + 1) = unat buf + 1" using fits_end [OF f, of 1] by simp
  have "fits (buf + 1) ?n" using f len e by (simp add: fits_def)
  then obtain m' where m': "ulltoa (- v) (buf + 1) base ?m = Some (Inr (buf + 1, m'))"
    "cstring (buf + 1) (number_text (unat base) (unat (- v))) m'" "\<forall>x. x \<notin> region (buf + 1) ?n \<longrightarrow> m' x = ?m x"
    using ulltoa_ok [OF _ b(2), of "buf + 1" "- v" ?m] b(1) by auto
  have "buf \<notin> region (buf + 1) ?n" by (rule region_fresh) (use len in simp)
  then have "m' buf = 45" using m'(3) by simp
  then have "cstring buf (signed_text (unat base) (sint v)) m'"
    using m'(2) True by (simp add: signed_text_def cstring_Cons unat_neg_sint [OF True])
  moreover have "m' x = m x" if "x \<notin> region buf 64" for x
  proof -
    have "region buf (Suc ?n) \<subseteq> region buf 64" by (rule region_mono) (use len in simp)
    then have "x \<notin> region (buf + 1) ?n" "x \<noteq> buf" using that by (auto simp: region_Suc)
    then show ?thesis using m'(3) by simp
  qed
  ultimately show ?thesis using m'(1) True by (auto simp: lltoa_def)
qed

section \<open>Pieces\<close>

text \<open>Plain text, or a percent sign with a length modifier and a letter.\<close>

datatype piece = Lit "u8 list" | Spec "u8 list" u8

fun piece_text :: "piece \<Rightarrow> u8 list" where
  "piece_text (Lit cs) = cs"
| "piece_text (Spec mods c) = 37 # mods @ [c]"

definition letters :: "u8 set" where
  "letters = {112, 120, 88, 111, 117, 100, 105, 115, 99, 37}"

fun mod_bits :: "u8 list \<Rightarrow> u32 option" where
  "mod_bits [] = Some 0"
| "mod_bits [a] = (if a = 108 then Some FMT_LONG else if a = 104 then Some FMT_SHORT else None)"
| "mod_bits [a, b] = (if a = 108 \<and> b = 108 then Some FMT_LLONG else if a = 104 \<and> b = 104 then Some FMT_SSHORT else None)"
| "mod_bits _ = None"

text \<open>No two texts stand next to each other, and none is empty or has a percent sign.\<close>

fun wf_pieces :: "piece list \<Rightarrow> bool" where
  "wf_pieces [] \<longleftrightarrow> True"
| "wf_pieces (Spec mods c # ps) \<longleftrightarrow> c \<in> letters \<and> mod_bits mods \<noteq> None \<and> wf_pieces ps"
| "wf_pieces (Lit cs # ps) \<longleftrightarrow> cs \<noteq> [] \<and> 37 \<notin> set cs \<and> (case ps of Lit _ # _ \<Rightarrow> False | _ \<Rightarrow> True) \<and> wf_pieces ps"

text \<open>Plain text is read up to the next percent sign or the end.\<close>

lemma decode_from_text:
  assumes "cstring fmt (cs @ rest) m" "37 \<notin> set cs" "rest = [] \<or> hd rest = 37" "type \<noteq> FMT_INVALID \<or> cs \<noteq> []"
  shows "decode_from type fmt m = Some (if cs = [] then type else FMT_NONE, fmt + of_nat (length cs))"
  using assms
proof (induction cs arbitrary: fmt type)
  case Nil
  then show ?case by (subst decode_from.simps) (cases rest; auto simp: cstring_Nil cstring_Cons)
next
  case (Cons c cs)
  have "decode_from FMT_NONE (fmt + 1) m = Some (FMT_NONE, fmt + 1 + of_nat (length cs))"
    using Cons.IH [of "fmt + 1" FMT_NONE] Cons.prems by (simp add: cstring_Cons)
  then show ?case using Cons.prems by (subst decode_from.simps) (simp add: cstring_Cons add.assoc)
qed

lemma letter_facts:
  assumes "c \<in> letters \<union> {108, 104}"
  shows "isdigit (c_int c) = 0" "c \<notin> {45, 43, 32, 35, 48, 46}" "c \<noteq> 0"
proof -
  have "list_all (\<lambda>c. isdigit (c_int c) = 0) [112, 120, 88, 111, 117, 100, 105, 115, 99, 37, 108, 104]" by code_simp
  then show "isdigit (c_int c) = 0" using assms by (auto simp: letters_def)
qed (use assms in \<open>auto simp: letters_def\<close>)

lemma decode_spec:
  assumes s: "cstring fmt (piece_text (Spec mods c) @ rest) m" and c: "c \<in> letters" and mods: "mod_bits mods = Some spec"
  shows "decode_format fmt m = Some (conversion_type c spec, fmt + of_nat (length (piece_text (Spec mods c))))"
proof -
  have h: "m fmt = 37" and s1: "cstring (fmt + 1) (mods @ c # rest) m" using s by (simp_all add: cstring_Cons)
  let ?f = "m (fmt + 1)"
  have f: "?f \<in> letters \<union> {108, 104}"
    using s1 c mods by (cases mods rule: mod_bits.cases) (auto simp: cstring_Cons split: if_splits)
  have skip: "skip_flag (fmt + 1) m = fmt + 1" "skip_digits (fmt + 1) m = Some (fmt + 1)" "skip_precision (fmt + 1) m = Some (fmt + 1)"
    using letter_facts [OF f] by (simp_all add: skip_flag_def skip_precision_def skip_digits.simps)
  have "c \<noteq> 108" "c \<noteq> 104" using c by (auto simp: letters_def)
  then have lm: "length_modifier (fmt + 1) m = (spec, fmt + 1 + of_nat (length mods)) \<and> m (fmt + 1 + of_nat (length mods)) = c"
    using s1 mods by (cases mods rule: mod_bits.cases)
      (auto simp: length_modifier_def cstring_Cons add.assoc split: if_splits)
  have "decode_conversion (fmt + 1) m = Some (conversion_type c spec, fmt + of_nat (length (piece_text (Spec mods c))))"
    using skip lm by (simp add: decode_conversion_def add.assoc)
  then show ?thesis using h by (simp add: decode_format_def) (subst decode_from.simps, simp)
qed

section \<open>What a format prints\<close>

definition spec_base :: "u8 \<Rightarrow> nat" where
  "spec_base c = (if c \<in> {112, 120, 88} then 16 else if c = 111 then 8 else 10)"

definition spec_long :: "u8 list \<Rightarrow> u8 \<Rightarrow> bool" where
  "spec_long mods c \<longleftrightarrow> mods = [108] \<or> mods = [108, 108] \<or> c = 112"

text \<open>\<open>S\<close> gives the string at an address.\<close>

definition conv_out :: "(addr \<Rightarrow> u8 list) \<Rightarrow> u8 list \<Rightarrow> u8 \<Rightarrow> u64 \<Rightarrow> u8 list" where
  "conv_out S mods c a =
     (if c = 115 then S a
      else if c = 99 then [ucast a]
      else if c = 100 \<or> c = 105
      then signed_text 10 (if spec_long mods c then sint a else sint (ucast a :: u32))
      else number_text (spec_base c) (if spec_long mods c then unat a else unat (ucast a :: u32)))"

fun outputs :: "(addr \<Rightarrow> u8 list) \<Rightarrow> piece list \<Rightarrow> u64 list \<Rightarrow> u8 list" where
  "outputs S [] as = []"
| "outputs S (Lit cs # ps) as = cs @ outputs S ps as"
| "outputs S (Spec mods c # ps) as =
     (if c = 37 then 37 # outputs S ps as else conv_out S mods c (hd as) @ outputs S ps (tl as))"

text \<open>There is an argument for every conversion, and the ones printed as strings satisfy \<open>P\<close>.\<close>

fun args_ok :: "(addr \<Rightarrow> bool) \<Rightarrow> piece list \<Rightarrow> u64 list \<Rightarrow> bool" where
  "args_ok P [] as \<longleftrightarrow> True"
| "args_ok P (Lit cs # ps) as \<longleftrightarrow> args_ok P ps as"
| "args_ok P (Spec mods c # ps) as \<longleftrightarrow>
     (if c = 37 then args_ok P ps as else as \<noteq> [] \<and> (c = 115 \<longrightarrow> P (hd as)) \<and> args_ok P ps (tl as))"

section \<open>The code prints it\<close>

definition scratch :: "print_env \<Rightarrow> addr set" where
  "scratch env = insert (char_buf env) (region (number_buf env) 64)"

definition same_outside :: "print_env \<Rightarrow> mem \<Rightarrow> mem \<Rightarrow> bool" where
  "same_outside env m m' \<longleftrightarrow> (\<forall>x. x \<notin> scratch env \<longrightarrow> m' x = m x)"

text \<open>A string that printing does not overwrite.\<close>

definition safe_string :: "print_env \<Rightarrow> mem \<Rightarrow> addr \<Rightarrow> u8 list \<Rightarrow> bool" where
  "safe_string env m a cs \<longleftrightarrow> cstring a cs m \<and> region a (Suc (length cs)) \<inter> scratch env = {} \<and> length cs < 2 ^ 64"

lemma safe_string_same: "safe_string env m a cs \<Longrightarrow> same_outside env m m' \<Longrightarrow> safe_string env m' a cs"
  unfolding safe_string_def same_outside_def using cstring_cong [of a cs m' m] by blast

lemma same_outside_trans: "same_outside env m m' \<Longrightarrow> same_outside env m' m'' \<Longrightarrow> same_outside env m m''"
  by (simp add: same_outside_def)

text \<open>\<open>prints env s out written s'\<close>: the bytes \<open>out\<close> went to the serial line.\<close>

definition sent :: "print_env \<Rightarrow> 'a out_state \<Rightarrow> u8 list \<Rightarrow> 'a out_state \<Rightarrow> bool" where
  "sent env s out s' \<longleftrightarrow> out_log (snd s') = out_log (snd s) @ map (Pair REG_DATA) out \<and>
     same_outside env (fst s) (fst s') \<and> tx_ready_often (snd s')"

lemma sent_trans: "sent env s out s' \<Longrightarrow> sent env s' out' s'' \<Longrightarrow> sent env s (out @ out') s''"
  using same_outside_trans by (auto simp: sent_def)

text \<open>Counts below \<open>2 ^ 31\<close> are not changed by the conversions, and their sums do not overflow.\<close>

lemma sint_of_nat32: "k < 2 ^ 31 \<Longrightarrow> sint (of_nat k :: i32) = int k"
  by (simp add: signed_of_nat signed_take_bit_int_eq_self)

lemma int_of_size_of_nat [simp]: "int_of_size (of_nat k) = of_nat k"
  by (rule bit_word_eqI) (auto simp: int_of_size_def bit_simps)

lemma size_of_int_of_nat: "k < 2 ^ 31 \<Longrightarrow> size_of_int (of_nat k) = of_nat k"
  by (simp add: size_of_int_def scast_eq sint_of_nat32)

lemma int_add_of_nat: "w + k < 2 ^ 31 \<Longrightarrow> int_add (of_nat w) (of_nat k) = Inr (of_nat (w + k))"
  by (simp add: int_add_def in_int_def sint_of_nat32)

lemma print_serial:
  assumes "tx_ready_often p" "w + n < 2 ^ 31"
  shows "\<exists>p'. print Serial (of_nat w) buf (of_nat n) (m, p) = Some (Inr (of_nat (w + n), (m, p'))) \<and>
    sent env (m, p) (bytes_at buf n m) (m, p')"
proof -
  have n: "n < 2 ^ 31" "n < 2 ^ 64" using assms(2) by simp_all
  obtain k where "serial_write_loop buf n m p = Some (p\<lparr>in_cnt := k, out_log := out_log p @ map (Pair REG_DATA) (bytes_at buf n m)\<rparr>)"
    using serial_write_loop_ok [OF assms(1)] by blast
  then show ?thesis
    using assms(1) size_of_int_of_nat [OF n(1)] unat_of_nat64 [OF n(2)] int_add_of_nat [OF assms(2)]
    by (simp add: print_def serial_out_def serial_write_def sent_def same_outside_def tx_ready_often_def del: of_nat_add)
qed

lemma print_serial_string:
  assumes "tx_ready_often p" "cstring buf cs m" "w + length cs < 2 ^ 31"
  shows "\<exists>p'. print Serial (of_nat w) buf (of_nat (length cs)) (m, p) = Some (Inr (of_nat (w + length cs), (m, p'))) \<and>
    sent env (m, p) cs (m, p')"
  using print_serial [OF assms(1,3), of buf m env] assms(2) by (simp add: cstring_def)

lemma number_item:
  assumes p: "tx_ready_often p" and f: "fits (number_buf env) 64" and b: "8 \<le> unat (number_base type)" "unat (number_base type) \<le> 36"
    and out: "out = (if type AND FMT_UNSIGNED \<noteq> 0 then number_text (unat (number_base type)) (unat (number_value type a))
                     else signed_text (unat (number_base type)) (sint (number_value type a)))"
    and w: "w + length out < 2 ^ 31"
  shows "\<exists>s'. print_number env Serial (of_nat w) (a # as) type (m, p) = Some (Inr (of_nat (w + length out), as, s')) \<and>
    sent env (m, p) out s'"
proof -
  let ?buf = "number_buf env" and ?v = "number_value type a" and ?b = "number_base type"
  obtain m1 where m1: "(if type AND FMT_UNSIGNED \<noteq> 0 then ulltoa ?v ?buf ?b m else lltoa ?v ?buf ?b m) = Some (Inr (?buf, m1))"
    "cstring ?buf out m1" "\<forall>x. x \<notin> region ?buf 64 \<longrightarrow> m1 x = m x"
    using ulltoa_buf [OF b f, of ?v m] lltoa_buf [OF b f, of ?v m] out by (cases "type AND FMT_UNSIGNED = 0") auto
  obtain p' where p': "print Serial (of_nat w) ?buf (of_nat (length out)) (m1, p) = Some (Inr (of_nat (w + length out), (m1, p')))"
    "sent env (m1, p) out (m1, p')"
    using print_serial_string [OF p m1(2) w] by blast
  have "strlen ?buf m1 = Some (of_nat (length out))" by (rule strlen_cstring [OF m1(2)])
  then have "print_number env Serial (of_nat w) (a # as) type (m, p) = Some (Inr (of_nat (w + length out), as, (m1, p')))"
    using m1(1) p'(1) by (simp add: print_number_def del: of_nat_add split: if_splits)
  moreover have "sent env (m, p) out (m1, p')"
    using p'(2) m1(3) by (auto simp: sent_def same_outside_def scratch_def)
  ultimately show ?thesis by blast
qed

text \<open>The bits of a conversion, for every modifier and letter.\<close>

definition conversions :: "(u8 list \<times> u8) list" where
  "conversions = List.product [[], [108], [108, 108], [104], [104, 104]] [112, 120, 88, 111, 117, 100, 105]"

definition conversion_ok :: "u8 list \<times> u8 \<Rightarrow> bool" where
  "conversion_ok = (\<lambda>(mods, c). let type = conversion_type c (the (mod_bits mods)) in
     type AND 0xff = FMT_INT \<and> unat (number_base type) = spec_base c \<and>
     (type AND FMT_UNSIGNED \<noteq> 0 \<longleftrightarrow> c \<noteq> 100 \<and> c \<noteq> 105) \<and>
     (type AND FMT_LONG \<noteq> 0 \<or> type AND FMT_LLONG \<noteq> 0 \<longleftrightarrow> spec_long mods c))"

lemma conversions_ok: "list_all conversion_ok conversions"
  by code_simp

lemma mod_bits_cases: "mod_bits mods = Some spec \<Longrightarrow> mods \<in> {[], [108], [108, 108], [104], [104, 104]}"
  by (cases mods rule: mod_bits.cases) (auto split: if_splits)

lemma number_conversion:
  assumes "mod_bits mods = Some spec" "c \<in> {112, 120, 88, 111, 117, 100, 105}"
  shows "conversion_ok (mods, c)"
proof -
  have "mods \<in> set [[], [108], [108, 108], [104], [104, 104]]" "c \<in> set [112, 120, 88, 111, 117, 100, 105]"
    using mod_bits_cases [OF assms(1)] assms(2) by simp_all
  then have "(mods, c) \<in> set conversions" unfolding conversions_def set_product by (rule SigmaI)
  then show ?thesis using conversions_ok by (simp add: list_all_iff)
qed

lemma other_conversion:
  assumes "mod_bits mods = Some spec"
  shows "conversion_type 115 spec AND 0xff = FMT_STR" "conversion_type 99 spec AND 0xff = FMT_CHAR"
    "conversion_type 37 spec AND 0xff = FMT_PERCENT"
  using assms by (cases mods rule: mod_bits.cases; auto simp: conversion_type_def split: if_splits)+

lemma extend32: "unat (ucast (x :: u32) :: u64) = unat x" "sint (scast (x :: u32) :: u64) = sint x"
proof -
  have "unat x < 2 ^ 32" using unsigned_less [of x] by simp
  then have "unat x < 2 ^ 64" by simp
  then show "unat (ucast x :: u64) = unat x" by (simp add: unsigned_ucast_eq take_bit_nat_eq_self)
  have "- (2 ^ 63) \<le> sint x" "sint x < 2 ^ 63" using sint_ge [of x] sint_lt [of x] by simp_all
  then have "signed_take_bit 63 (sint x) = sint x" by (rule signed_take_bit_int_eq_self)
  then show "sint (scast x :: u64) = sint x" by (simp add: signed_scast_eq)
qed

lemma conv_out_number:
  assumes "mod_bits mods = Some spec" "c \<in> {112, 120, 88, 111, 117, 100, 105}" "type = conversion_type c spec"
  shows "conv_out S mods c a = (if type AND FMT_UNSIGNED \<noteq> 0 then number_text (unat (number_base type)) (unat (number_value type a))
    else signed_text (unat (number_base type)) (sint (number_value type a)))"
proof -
  have ok: "unat (number_base type) = spec_base c" "type AND FMT_UNSIGNED \<noteq> 0 \<longleftrightarrow> c \<noteq> 100 \<and> c \<noteq> 105"
    "type AND FMT_LONG \<noteq> 0 \<or> type AND FMT_LLONG \<noteq> 0 \<longleftrightarrow> spec_long mods c"
    using number_conversion [OF assms(1,2)] assms(1,3) by (simp_all add: conversion_ok_def Let_def)
  have c: "c \<noteq> 115" "c \<noteq> 99" using assms(2) by auto
  note ext = extend32 [of "ucast a"]
  show ?thesis
  proof (cases "c = 100 \<or> c = 105")
    case True
    then have "spec_base c = 10" by (auto simp: spec_base_def)
    then show ?thesis using True c ok ext by (auto simp: conv_out_def number_value_def)
  next
    case False
    then show ?thesis using c ok ext by (auto simp: conv_out_def number_value_def)
  qed
qed

text \<open>One conversion.\<close>

lemma spec_item:
  assumes p: "tx_ready_often p" and f: "fits (number_buf env) 64" and c: "c \<in> letters" "mod_bits mods = Some spec"
    and pct: "m (percent env) = 37" and as: "args_ok (\<lambda>a. safe_string env m a (S a)) [Spec mods c] as"
    and out: "out = outputs S [Spec mods c] as" and w: "w + length out < 2 ^ 31"
  shows "\<exists>s'. print_item env Serial start fmt (conversion_type c spec) (of_nat w) as (m, p) =
      Some (Inr (Some (of_nat (w + length out)), if c = 37 then as else tl as, s')) \<and> sent env (m, p) out s'"
proof -
  let ?ty = "conversion_type c spec"
  consider "c \<in> {112, 120, 88, 111, 117, 100, 105}" | "c = 115" | "c = 99" | "c = 37" using c(1) by (auto simp: letters_def)
  then show ?thesis
  proof cases
    case 1
    then have ne: "c \<noteq> 37" by auto
    then obtain a as' where a: "as = a # as'" using as by (cases as) auto
    have ok: "?ty AND 0xff = FMT_INT" "unat (number_base ?ty) = spec_base c"
      using number_conversion [OF c(2) 1] c(2) by (simp_all add: conversion_ok_def Let_def)
    have "spec_base c = 8 \<or> spec_base c = 10 \<or> spec_base c = 16" by (auto simp: spec_base_def)
    moreover have "out = conv_out S mods c a" using out a ne by simp
    ultimately obtain s' where "print_number env Serial (of_nat w) (a # as') ?ty (m, p) = Some (Inr (of_nat (w + length out), as', s'))"
      "sent env (m, p) out s'"
      using number_item [OF p f, of ?ty out a w as' m] ok(2) conv_out_number [OF c(2) 1 refl, of S a] w by auto
    then show ?thesis using ok(1) a ne by (simp add: print_item_def del: of_nat_add)
  next
    case 2
    then obtain a as' where a: "as = a # as'" using as by (cases as) auto
    then have str: "cstring a (S a) m" and o: "out = S a" using as out 2 by (simp_all add: safe_string_def conv_out_def)
    obtain p' where "print Serial (of_nat w) a (of_nat (length out)) (m, p) = Some (Inr (of_nat (w + length out), (m, p')))"
      "sent env (m, p) out (m, p')"
      using print_serial_string [OF p str, of w] w o by blast
    then show ?thesis using 2 a o strlen_cstring [OF str] other_conversion(1) [OF c(2)]
      by (simp add: print_item_def del: of_nat_add)
  next
    case 3
    then obtain a as' where a: "as = a # as'" using as by (cases as) auto
    let ?m = "m(char_buf env := ucast a)"
    have o: "out = [ucast a]" using out a 3 by (simp add: conv_out_def)
    obtain p' where p': "print Serial (of_nat w) (char_buf env) (of_nat 1) (?m, p) = Some (Inr (of_nat (w + 1), (?m, p')))"
      "sent env (?m, p) (bytes_at (char_buf env) 1 ?m) (?m, p')"
      using print_serial [OF p, of w 1 "char_buf env" ?m env] w o by auto
    moreover have "sent env (m, p) [ucast a] (?m, p')"
      using p'(2) by (simp add: sent_def same_outside_def scratch_def bytes_at_Suc)
    ultimately show ?thesis using 3 a o other_conversion(2) [OF c(2)] by (simp add: print_item_def)
  next
    case 4
    then have o: "out = [37]" using out by simp
    obtain p' where p': "print Serial (of_nat w) (percent env) (of_nat 1) (m, p) = Some (Inr (of_nat (w + 1), (m, p')))"
      "sent env (m, p) (bytes_at (percent env) 1 m) (m, p')"
      using print_serial [OF p, of w 1 "percent env" m env] w o by auto
    then show ?thesis using 4 o pct other_conversion(3) [OF c(2)] by (simp add: print_item_def bytes_at_Suc)
  qed
qed

lemma text_item:
  assumes p: "tx_ready_often p" and s: "cstring fmt (cs @ rest) m" and w: "w + length cs < 2 ^ 31"
  shows "\<exists>s'. print_item env Serial fmt (fmt + of_nat (length cs)) FMT_NONE (of_nat w) as (m, p) =
      Some (Inr (Some (of_nat (w + length cs)), as, s')) \<and> sent env (m, p) cs s'"
proof -
  have "bytes_at fmt (length cs) m = cs" using s by (simp add: cstring_def bytes_at_append)
  then obtain p' where "print Serial (of_nat w) fmt (of_nat (length cs)) (m, p) = Some (Inr (of_nat (w + length cs), (m, p')))"
    "sent env (m, p) cs (m, p')"
    using print_serial [OF p w, of fmt m env] by auto
  then show ?thesis by (simp add: print_item_def del: of_nat_add)
qed

lemma args_ok_mono: "args_ok P ps as \<Longrightarrow> (\<And>a. P a \<Longrightarrow> P' a) \<Longrightarrow> args_ok P' ps as"
  by (induction P ps as rule: args_ok.induct) (auto split: if_splits)

lemma args_ok_first:
  "args_ok P (Spec mods c # ps) as \<Longrightarrow> args_ok P [Spec mods c] as \<and> args_ok P ps (if c = 37 then as else tl as)"
  by (auto split: if_splits)

lemma outputs_first:
  "outputs S (Spec mods c # ps) as = outputs S [Spec mods c] as @ outputs S ps (if c = 37 then as else tl as)"
  by simp

lemma cstring_append_drop: "cstring a (cs @ rest) m \<Longrightarrow> cstring (a + of_nat (length cs)) rest m"
  by (induction cs arbitrary: a) (fastforce simp: cstring_Cons add.assoc [symmetric])+

lemma region_drop: "region (a + of_nat k) n \<subseteq> region a (k + n)"
  by (simp add: region_append)

lemma safe_string_drop: "safe_string env m a (cs @ rest) \<Longrightarrow> safe_string env m (a + of_nat (length cs)) rest"
  using cstring_append_drop [of a cs rest m] region_drop [of a "length cs" "Suc (length rest)"]
  by (auto simp: safe_string_def)

abbreviation (input) text_of :: "piece list \<Rightarrow> u8 list" where
  "text_of ps \<equiv> concat (map piece_text ps)"

text \<open>The first piece, whatever it is.\<close>

definition args_after :: "piece \<Rightarrow> u64 list \<Rightarrow> u64 list" where
  "args_after q as = (case q of Spec mods c \<Rightarrow> if c = 37 then as else tl as | Lit _ \<Rightarrow> as)"

lemma outputs_Cons: "outputs S (q # ps) as = outputs S [q] as @ outputs S ps (args_after q as)"
  by (cases q) (simp_all add: args_after_def)

lemma args_ok_Cons: "args_ok P (q # ps) as \<Longrightarrow> args_ok P [q] as \<and> args_ok P ps (args_after q as)"
  by (cases q) (auto simp: args_after_def split: if_splits)

lemma piece_item:
  assumes p: "tx_ready_often p" "fits (number_buf env) 64" "m (percent env) = 37"
    and q: "wf_pieces (q # ps)" "cstring fmt (piece_text q @ text_of ps) m" "w + length (outputs S [q] as) < 2 ^ 31"
    and as: "args_ok (\<lambda>a. safe_string env m a (S a)) [q] as"
  shows "\<exists>type s'. decode_format fmt m = Some (type, fmt + of_nat (length (piece_text q))) \<and> m fmt \<noteq> 0 \<and>
    print_item env Serial fmt (fmt + of_nat (length (piece_text q))) type (of_nat w) as (m, p) =
      Some (Inr (Some (of_nat (w + length (outputs S [q] as))), args_after q as, s')) \<and> sent env (m, p) (outputs S [q] as) s'"
proof (cases q)
  case (Lit cs)
  then have cs: "cs \<noteq> []" "37 \<notin> set cs" "cstring fmt (cs @ text_of ps) m" "w + length cs < 2 ^ 31" using q by simp_all
  have "text_of ps = [] \<or> hd (text_of ps) = 37"
  proof (cases ps)
    case (Cons q2 qs)
    then show ?thesis using q(1) Lit by (cases q2) auto
  qed simp
  then have "decode_format fmt m = Some (FMT_NONE, fmt + of_nat (length cs))"
    using decode_from_text [OF cs(3,2)] cs(1) by (simp add: decode_format_def)
  moreover have "m fmt \<noteq> 0" using cs(1,3) by (cases cs) (auto simp: cstring_Cons)
  ultimately show ?thesis using text_item [OF p(1) cs(3,4), of env as] Lit by (auto simp: args_after_def)
next
  case (Spec mods c)
  then obtain spec where c: "c \<in> letters" "mod_bits mods = Some spec" using q(1) by auto
  have "m fmt \<noteq> 0" using q(2) Spec by (auto simp: cstring_Cons)
  moreover have "decode_format fmt m = Some (conversion_type c spec, fmt + of_nat (length (piece_text q)))"
    using decode_spec [OF _ c] q(2) Spec by blast
  ultimately show ?thesis
    using spec_item [OF p(1,2) c, of m S as "outputs S [q] as" w fmt "fmt + of_nat (length (piece_text q))"] p(3) as Spec q(3)
    unfolding args_after_def by force
qed

lemma wf_pieces_tl: "wf_pieces (q # ps) \<Longrightarrow> wf_pieces ps"
  by (cases q) auto

lemma vprintf_loop_ok:
  assumes "tx_ready_often p" "fits (number_buf env) 64" "m (percent env) = 37" "percent env \<notin> scratch env"
    and "wf_pieces ps" "safe_string env m fmt (text_of ps)" "args_ok (\<lambda>a. safe_string env m a (S a)) ps as"
    and "w + length (outputs S ps as) < 2 ^ 31"
  shows "\<exists>s'. vprintf_loop env Serial fmt (of_nat w) as (m, p) = Some (Inr (of_nat (w + length (outputs S ps as)), s')) \<and>
    sent env (m, p) (outputs S ps as) s'"
  using assms
proof (induction ps arbitrary: fmt w as m p)
  case Nil
  then show ?case by (subst vprintf_loop.simps) (simp add: safe_string_def cstring_Nil sent_def same_outside_def)
next
  case (Cons q ps)
  let ?fmt = "fmt + of_nat (length (piece_text q))" and ?out = "outputs S [q] as" and ?as = "args_after q as"
  have fs: "cstring fmt (piece_text q @ text_of ps) m" using Cons.prems(6) by (simp add: safe_string_def)
  have all: "outputs S (q # ps) as = ?out @ outputs S ps ?as" by (rule outputs_Cons)
  then have w: "w + length ?out < 2 ^ 31" "w + length ?out + length (outputs S ps ?as) < 2 ^ 31" using Cons.prems(8) by simp_all
  note ao = args_ok_Cons [OF Cons.prems(7)]
  obtain type m1 p1 where st: "decode_format fmt m = Some (type, ?fmt)" "m fmt \<noteq> 0"
    "print_item env Serial fmt ?fmt type (of_nat w) as (m, p) = Some (Inr (Some (of_nat (w + length ?out)), ?as, (m1, p1)))"
    "sent env (m, p) ?out (m1, p1)"
    using piece_item [OF Cons.prems(1-3,5) fs w(1) conjunct1 [OF ao]] by auto
  have same: "same_outside env m m1" "tx_ready_often p1" using st(4) by (simp_all add: sent_def)
  have fmt: "safe_string env m1 ?fmt (text_of ps)"
    using safe_string_drop [of env m fmt "piece_text q" "text_of ps"] safe_string_same [OF _ same(1)] Cons.prems(6) by simp
  have pct: "m1 (percent env) = 37" using same(1) Cons.prems(3,4) by (simp add: same_outside_def)
  have "args_ok (\<lambda>a. safe_string env m1 a (S a)) ps ?as"
    by (rule args_ok_mono [OF conjunct2 [OF ao]]) (rule safe_string_same [OF _ same(1)])
  then obtain s' where s': "vprintf_loop env Serial ?fmt (of_nat (w + length ?out)) ?as (m1, p1) =
      Some (Inr (of_nat (w + length ?out + length (outputs S ps ?as)), s'))" "sent env (m1, p1) (outputs S ps ?as) s'"
    using Cons.IH [OF same(2) Cons.prems(2) pct Cons.prems(4) wf_pieces_tl [OF Cons.prems(5)] fmt _ w(2)] by blast
  have "vprintf_loop env Serial fmt (of_nat w) as (m, p) = Some (Inr (of_nat (w + length (outputs S (q # ps) as)), s'))"
    using st(1-3) s'(1) unfolding all by (subst vprintf_loop.simps) (simp add: add.assoc del: of_nat_add)
  moreover have "sent env (m, p) (outputs S (q # ps) as) s'"
    using sent_trans [OF st(4) s'(2)] outputs_Cons [of S q ps as] by simp
  ultimately show ?case by blast
qed

end
