(* ===== verification/TextProps.thy ===== *)
theory TextProps
  imports PrintSpec
begin

text \<open>The properties of character classes, conversions of numbers and formatted output.\<close>

section \<open>A small memory\<close>

text \<open>The format \<^verbatim>\<open>v=%d\<close> at \<open>0x100\<close>, the empty one at \<open>0x200\<close>, and the word \<^verbatim>\<open>abc\<close> at \<open>0x300\<close>.\<close>

definition demo_mem :: mem where
  "demo_mem = (\<lambda>_. 0)(0x100 := 118, 0x101 := 61, 0x102 := 37, 0x103 := 100, 0x300 := 97, 0x301 := 98, 0x302 := 99, 0x9100 := 37)"

definition demo_env :: print_env where
  "demo_env = \<lparr>number_buf = 0x8000, char_buf = 0x9000, percent = 0x9100\<rparr>"




section \<open>Properties\<close>



text \<open>
  C27. What \<^verbatim>\<open>ulltoa\<close> writes, \<^verbatim>\<open>strtoul\<close> reads: for every value and every base from 2 to 36 both return, and the
  value comes back.
\<close>

theorem ulltoa_strtoul:
  assumes "2 \<le> unat base" "unat base \<le> 36" "fits str (Suc (length (number_text (unat base) (unat v))))"
  shows "\<exists>m' e. ulltoa v str base m = Some (Inr (str, m')) \<and> strtoul str base m' = Some (v, e)"
proof -
  obtain m' where m': "ulltoa v str base m = Some (Inr (str, m'))" "cstring str (number_text (unat base) (unat v)) m'"
    using ulltoa_ok [OF assms] by blast
  then show ?thesis using strtoul_ok [OF assms(1,2) m'(2) unat64_less] by auto
qed

theorem ulltoa_strtoul_witness:
  "\<exists>m' e. ulltoa 255 0x1000 16 demo_mem = Some (Inr (0x1000, m')) \<and> strtoul 0x1000 16 m' = Some (255, e)"
  by (rule ulltoa_strtoul) (simp_all add: fits_def number_text_def to_digits.simps)

text \<open>
  C28. \<^verbatim>\<open>ulltoa\<close> writes the digits of the value, the most significant one first and without leading zeros, and
  a terminating 0, and no other byte of the memory.
\<close>

theorem ulltoa_writes:
  assumes "2 \<le> unat base" "unat base \<le> 36" "fits str (Suc (length (number_text (unat base) (unat v))))"
  shows "\<exists>m' ds. ulltoa v str base m = Some (Inr (str, m')) \<and> cstring str (map ((!) digits) ds) m' \<and>
    of_digits (unat base) 0 ds = unat v \<and> (\<forall>d \<in> set ds. d < unat base) \<and> (hd ds = 0 \<longrightarrow> ds = [0]) \<and>
    (\<forall>x. x \<notin> region str (Suc (length ds)) \<longrightarrow> m' x = m x)"
proof -
  let ?ds = "to_digits (unat base) (unat v)"
  have "to_digits (unat base) 0 = [0]" using assms(1) by (subst to_digits.simps) simp
  then have "hd ?ds = 0 \<longrightarrow> ?ds = [0]" using hd_to_digits [OF assms(1), of "unat v"] by metis
  moreover obtain m' where "ulltoa v str base m = Some (Inr (str, m'))" "cstring str (map ((!) digits) ?ds) m'"
    "\<forall>x. x \<notin> region str (Suc (length ?ds)) \<longrightarrow> m' x = m x"
    using ulltoa_ok [OF assms, of m] unfolding number_text_def length_map by blast
  ultimately show ?thesis
    using of_to_digits [OF assms(1), of "unat v"] to_digits_less [OF assms(1), of _ "unat v"]
    by (intro exI [of _ m'] exI [of _ ?ds]) simp
qed

theorem ulltoa_writes_witness:
  "\<exists>m' ds. ulltoa 255 0x1000 16 demo_mem = Some (Inr (0x1000, m')) \<and> cstring 0x1000 (map ((!) digits) ds) m' \<and>
    of_digits (unat (16 :: u32)) 0 ds = unat (255 :: u64) \<and> (\<forall>d \<in> set ds. d < unat (16 :: u32)) \<and> (hd ds = 0 \<longrightarrow> ds = [0]) \<and>
    (\<forall>x. x \<notin> region 0x1000 (Suc (length ds)) \<longrightarrow> m' x = demo_mem x)"
  by (rule ulltoa_writes) (simp_all add: fits_def number_text_def to_digits.simps)

text \<open>
  The buffer of 64 characters in \<^verbatim>\<open>print_number\<close> is large enough for every number the function formats,
  with its sign and the terminating 0.
\<close>

theorem number_fits_buffer:
  "length (number_text (unat (number_base type)) (unat v)) + 1 \<le> 64 \<and>
   length (signed_text (unat (number_base type)) (sint (v :: u64))) + 1 \<le> 64"
proof -
  have b: "8 \<le> unat (number_base type)" by (simp add: number_base_def)
  have "nat (- sint v) < 2 ^ 64" "nat (sint v) < 2 ^ 64" using sint_ge [of v] sint_lt [of v] by (simp_all add: nat_less_iff)
  then show ?thesis
    using number_text_bound [OF b, of "unat v"] number_text_bound [OF b, of "nat (- sint v)"]
      number_text_bound [OF b, of "nat (sint v)"] unat64_less [of v] by (auto simp: signed_text_def)
qed

text \<open>
  C29. The table of character classes is that of ASCII: each test holds exactly on the characters its name
  says, and on no character above 127.
\<close>

theorem ctype_ascii:
  "let n = unat (ucast c :: u8) in
     (isdigit c \<noteq> 0 \<longleftrightarrow> 48 \<le> n \<and> n \<le> 57) \<and> (isupper c \<noteq> 0 \<longleftrightarrow> 65 \<le> n \<and> n \<le> 90) \<and>
     (islower c \<noteq> 0 \<longleftrightarrow> 97 \<le> n \<and> n \<le> 122) \<and> (isalpha c \<noteq> 0 \<longleftrightarrow> 65 \<le> n \<and> n \<le> 90 \<or> 97 \<le> n \<and> n \<le> 122) \<and>
     (isxdigit c \<noteq> 0 \<longleftrightarrow> 48 \<le> n \<and> n \<le> 57 \<or> 65 \<le> n \<and> n \<le> 70 \<or> 97 \<le> n \<and> n \<le> 102) \<and>
     (isspace c \<noteq> 0 \<longleftrightarrow> 9 \<le> n \<and> n \<le> 13 \<or> n = 32) \<and> (isprint c \<noteq> 0 \<longleftrightarrow> 32 \<le> n \<and> n \<le> 126)"
  unfolding isdigit_iff isupper_iff islower_iff isalpha_iff isxdigit_iff isspace_iff isprint_iff Let_def by blast

text \<open>A text without conversions, printed to a buffer: as much of it as there is room for is copied.\<close>

lemma print_text_to_buffer:
  assumes "n < 2 ^ 31" "0 \<le> sint sz" "k = min n (nat (sint sz))"
  shows "print (Str buf sz) 0 fmt (of_nat n) (m, p) = Some (Inr (of_nat n, (memcpy_loop buf fmt k m, p)))"
proof -
  have n: "sint (of_nat n :: i32) = int n" by (rule sint_of_nat32 [OF assms(1)])
  have k: "k < 2 ^ 31" "k < 2 ^ 64" using assms(1,3) by simp_all
  have sz: "int_sub sz 0 = Inr sz" using sint_lt [of sz] assms(2) by (simp add: int_sub_def in_int_def)
  have sz': "size_of_int sz = of_nat (nat (sint sz))" by (simp only: size_of_int_def scast_eq of_nat_nat [OF assms(2)])
  have "size_of_int 0 = 0" by (simp add: size_of_int_def)
  moreover have "size_of_int (if int n < sint sz then of_nat n else sz) = of_nat k"
  proof (cases "int n < sint sz")
    case True
    then have "k = n" using assms(3) by linarith
    then show ?thesis using True size_of_int_of_nat [OF assms(1)] by simp
  next
    case False
    then have "k = nat (sint sz)" using assms(3) by linarith
    then show ?thesis using False sz' by simp
  qed
  ultimately have "str_out buf sz 0 fmt (of_nat n) (m, p) = Inr (memcpy_loop buf fmt k m, p)"
    using assms(2) n sz unat_of_nat64 [OF k(2)] by (simp add: str_out_def memcpy_def)
  then show ?thesis using int_add_of_nat [of 0 n] assms(1) by (simp add: print_def)
qed

lemma text_loop:
  assumes "cstring fmt cs m" "37 \<notin> set cs" "cs \<noteq> []" "length cs < 2 ^ 31" "0 \<le> sint sz" "k = min (length cs) (nat (sint sz))"
    and "fmt + of_nat (length cs) \<notin> region buf k"
  shows "raw_vprintf env (Str buf sz) fmt as (m, p) = Some (Inr (of_nat (length cs), (memcpy_loop buf fmt k m, p)))"
proof -
  let ?e = "fmt + of_nat (length cs)" and ?m = "memcpy_loop buf fmt k m"
  have h: "m fmt \<noteq> 0" using assms(1,3) by (cases cs) (auto simp: cstring_Cons)
  have d: "decode_format fmt m = Some (FMT_NONE, ?e)"
    using decode_from_text [of fmt cs "[]" m FMT_INVALID] assms(1-3) by (simp add: decode_format_def)
  have "?m ?e = 0" using assms(1,7) by (simp add: memcpy_loop_outside cstring_def)
  then have stop: "vprintf_loop env (Str buf sz) ?e (of_nat (length cs)) as (?m, p) = Some (Inr (of_nat (length cs), (?m, p)))"
    by (subst vprintf_loop.simps) simp
  show ?thesis unfolding raw_vprintf_def using h d stop print_text_to_buffer [OF assms(4-6), of buf fmt m p]
    by (subst vprintf_loop.simps) (simp add: print_item_def)
qed

text \<open>
  \<^verbatim>\<open>vsnprintf\<close> loses a character: for a text without conversions that fits the buffer, the terminating 0
  takes the place of the last character instead of the one after it.
\<close>

theorem vsnprintf_drops_last:
  assumes "cstring fmt cs m" "37 \<notin> set cs" "cs \<noteq> []" "int (length cs) < sint (int_of_size sz)"
    and "region buf (length cs) \<inter> region fmt (Suc (length cs)) = {}"
  shows "\<exists>r m'. vsnprintf env buf sz fmt as (m, p) = Some (Inr (r, (m', p))) \<and> sint r = int (length cs) \<and> cstring buf (butlast cs) m'"
proof -
  let ?n = "length cs"
  have len: "?n < 2 ^ 31" using assms(4) sint_lt [of "int_of_size sz"] by simp
  obtain k where k: "?n = Suc k" using assms(3) by (cases cs) auto
  let ?m = "memcpy_loop buf fmt ?n m"
  have mn: "?n = min ?n (nat (sint (int_of_size sz)))" "0 \<le> sint (int_of_size sz)" using assms(4) by simp_all
  have out: "fmt + of_nat ?n \<notin> region buf ?n"
    using assms(5) by (auto simp: region_def)
  have run: "raw_vprintf env (Str buf (int_of_size sz)) fmt as (m, p) = Some (Inr (of_nat ?n, (?m, p)))"
    by (rule text_loop [OF assms(1-3) len mn(2,1) out])
  have dj: "region buf ?n \<inter> region fmt ?n = {}" using assms(5) region_mono [of ?n "Suc ?n" fmt] by auto
  have "?n \<le> 2 ^ 64 - 1" using len by simp
  then have "bytes_at buf ?n ?m = cs" using memcpy_loop_bytes [OF _ dj, of m] assms(1) by (simp add: cstring_def)
  then have bl: "bytes_at buf k ?m = butlast cs" using bytes_at_snoc [of buf k ?m] k by (metis butlast_snoc)
  let ?m' = "?m(buf + of_nat k := 0)"
  have "buf + of_nat k \<notin> region buf k"
  proof
    assume "buf + of_nat k \<in> region buf k"
    then obtain i where "i < k" "(of_nat k :: u64) = of_nat i" by (auto simp: region_def)
    then show False using of_nat64_eq [of k i] k len by simp
  qed
  then have "bytes_at buf k ?m' = butlast cs" using bl by (simp add: bytes_at_upd)
  then have "cstring buf (butlast cs) ?m'"
    using assms(1) k in_set_butlastD [of 0 cs] by (auto simp: cstring_def)
  moreover have "vsnprintf env buf sz fmt as (m, p) = Some (Inr (of_nat ?n, (?m', p)))"
  proof -
    have "k < 2 ^ 31" using k len by simp
    then have "int_sub (of_nat ?n) 1 = Inr (of_nat k)" "size_of_int (of_nat k) = of_nat k"
      using sint_of_nat32 [OF len] k by (simp_all add: int_sub_def in_int_def size_of_int_of_nat)
    then show ?thesis using run assms(4) sint_of_nat32 [OF len] by (simp add: vsnprintf_def)
  qed
  ultimately show ?thesis using sint_of_nat32 [OF len] by blast
qed

theorem vsnprintf_drops_last_witness:
  "\<exists>r m'. vsnprintf demo_env 0x1000 16 0x300 [] (demo_mem, demo_ports) = Some (Inr (r, (m', demo_ports))) \<and>
    sint r = int (length [97 :: u8, 98, 99]) \<and> cstring 0x1000 (butlast [97, 98, 99]) m'"
proof (rule vsnprintf_drops_last)
  show "region 0x1000 (length [97 :: u8, 98, 99]) \<inter> region 0x300 (Suc (length [97 :: u8, 98, 99])) = {}"
    by (rule region_apart) (simp_all add: fits_def)
qed (simp_all add: demo_mem_def cstring_Cons cstring_Nil int_of_size_def)

text \<open>
  For an empty format \<^verbatim>\<open>vsnprintf\<close> writes the terminating 0 in front of the buffer.
\<close>

theorem vsnprintf_underflow:
  assumes "m fmt = 0" "0 < sint (int_of_size sz)"
  shows "vsnprintf env buf sz fmt as (m, p) = Some (Inr (0, (m(buf - 1 := 0), p)))"
proof -
  have "raw_vprintf env (Str buf (int_of_size sz)) fmt as (m, p) = Some (Inr (0, (m, p)))"
    unfolding raw_vprintf_def using assms(1) by (subst vprintf_loop.simps) simp
  moreover have "int_sub 0 1 = Inr (- 1)" "size_of_int (- 1) = - 1"
    by (simp_all add: int_sub_def in_int_def size_of_int_def scast_eq)
  ultimately show ?thesis using assms(2) by (simp add: vsnprintf_def)
qed

theorem vsnprintf_underflow_witness:
  "vsnprintf demo_env 0x1000 16 0x200 [] (demo_mem, demo_ports) = Some (Inr (0, (demo_mem(0x1000 - 1 := 0), demo_ports)))"
  by (rule vsnprintf_underflow) (simp_all add: demo_mem_def int_of_size_def)

end
