(* ===== verification/RBTree.thy ===== *)
theory RBTree
  imports Prelude
begin

text \<open>
  The intrusive red-black tree of \<^verbatim>\<open>src/rbtree.c\<close> and \<^verbatim>\<open>inc/rbtree.h\<close>, on the links themselves.
  A heap holds the three fields of the \<^verbatim>\<open>struct rb_node\<close> at every address and the \<open>root\<close> field of
  the \<^verbatim>\<open>struct rb_tree\<close> at every address; the colour is bit 0 of the \<open>parent\<close> field, as in the code.
  An operation that would follow a null pointer is a \<open>Fault\<close>, a loop that never ends is \<open>None\<close>.
\<close>

section \<open>Nodes, trees and the colour bit\<close>

record rheap =
  rh_left :: "addr \<Rightarrow> addr"
  rh_right :: "addr \<Rightarrow> addr"
  rh_parent :: "addr \<Rightarrow> u64"
  rh_root :: "addr \<Rightarrow> addr"

definition set_left :: "addr \<Rightarrow> addr \<Rightarrow> rheap \<Rightarrow> rheap" where
  "set_left a v h = h\<lparr>rh_left := (rh_left h)(a := v)\<rparr>"

definition set_right :: "addr \<Rightarrow> addr \<Rightarrow> rheap \<Rightarrow> rheap" where
  "set_right a v h = h\<lparr>rh_right := (rh_right h)(a := v)\<rparr>"

definition set_parent_word :: "addr \<Rightarrow> u64 \<Rightarrow> rheap \<Rightarrow> rheap" where
  "set_parent_word a v h = h\<lparr>rh_parent := (rh_parent h)(a := v)\<rparr>"

definition set_root :: "addr \<Rightarrow> addr \<Rightarrow> rheap \<Rightarrow> rheap" where
  "set_root a v h = h\<lparr>rh_root := (rh_root h)(a := v)\<rparr>"

definition RED :: u64 where "RED = 0"
definition BLACK :: u64 where "BLACK = 1"

definition rb_color :: "addr \<Rightarrow> rheap \<Rightarrow> u64" where
  "rb_color node h = rh_parent h node AND 1"

definition rb_set_color :: "addr \<Rightarrow> u64 \<Rightarrow> rheap \<Rightarrow> rheap" where
  "rb_set_color node color h = set_parent_word node ((rh_parent h node AND NOT 1) OR color) h"

definition rb_set_red :: "addr \<Rightarrow> rheap \<Rightarrow> rheap" where
  "rb_set_red node h = rb_set_color node RED h"

definition rb_set_black :: "addr \<Rightarrow> rheap \<Rightarrow> rheap" where
  "rb_set_black node h = rb_set_color node BLACK h"

definition rb_parent :: "addr \<Rightarrow> rheap \<Rightarrow> addr" where
  "rb_parent node h = rh_parent h node AND NOT 1"

definition rb_set_parent :: "addr \<Rightarrow> addr \<Rightarrow> rheap \<Rightarrow> rheap" where
  "rb_set_parent child parent h = set_parent_word child ((rh_parent h child AND 1) OR parent) h"

definition rb_red :: "addr \<Rightarrow> rheap \<Rightarrow> bool" where
  "rb_red node h \<longleftrightarrow> node \<noteq> NULL \<and> rb_color node h = RED"

definition rb_black :: "addr \<Rightarrow> rheap \<Rightarrow> bool" where
  "rb_black node h \<longleftrightarrow> \<not> rb_red node h"

section \<open>Rotations\<close>

definition rb_rotate_left :: "addr \<Rightarrow> addr \<Rightarrow> rheap \<Rightarrow> rheap res" where
  "rb_rotate_left x tree h =
     (if x = NULL \<or> rh_right h x = NULL then Inl (Fault ''rb_rotate_left'')
      else
        let p = rb_parent x h;
            r = rh_right h x;
            h = set_right x (rh_left h r) h;
            h = (if rh_right h x \<noteq> NULL then rb_set_parent (rh_right h x) x h else h);
            h = set_left r x h;
            h = rb_set_parent r p h;
            h = (if p \<noteq> NULL
                 then if rh_left h p = x then set_left p r h else set_right p r h
                 else set_root tree r h)
        in Inr (rb_set_parent x r h))"

definition rb_rotate_right :: "addr \<Rightarrow> addr \<Rightarrow> rheap \<Rightarrow> rheap res" where
  "rb_rotate_right x tree h =
     (if x = NULL \<or> rh_left h x = NULL then Inl (Fault ''rb_rotate_right'')
      else
        let p = rb_parent x h;
            l = rh_left h x;
            h = set_left x (rh_right h l) h;
            h = (if rh_left h x \<noteq> NULL then rb_set_parent (rh_left h x) x h else h);
            h = set_right l x h;
            h = rb_set_parent l p h;
            h = (if p \<noteq> NULL
                 then if rh_left h p = x then set_left p l h else set_right p l h
                 else set_root tree l h)
        in Inr (rb_set_parent x l h))"

section \<open>Walking in order\<close>

partial_function (option) rightmost_from :: "addr \<Rightarrow> rheap \<Rightarrow> addr option" where
  "rightmost_from node h =
     (if rh_right h node \<noteq> NULL then rightmost_from (rh_right h node) h else Some node)"

definition raw_rb_rightmost :: "addr \<Rightarrow> rheap \<Rightarrow> addr option" where
  "raw_rb_rightmost node h = (if node = NULL then Some NULL else rightmost_from node h)"

partial_function (option) leftmost_from :: "addr \<Rightarrow> rheap \<Rightarrow> addr option" where
  "leftmost_from node h =
     (if rh_left h node \<noteq> NULL then leftmost_from (rh_left h node) h else Some node)"

definition raw_rb_leftmost :: "addr \<Rightarrow> rheap \<Rightarrow> addr option" where
  "raw_rb_leftmost node h = (if node = NULL then Some NULL else leftmost_from node h)"

definition rb_rightmost :: "addr \<Rightarrow> rheap \<Rightarrow> addr option" where
  "rb_rightmost tree h = raw_rb_rightmost (rh_root h tree) h"

definition rb_leftmost :: "addr \<Rightarrow> rheap \<Rightarrow> addr option" where
  "rb_leftmost tree h = raw_rb_leftmost (rh_root h tree) h"

partial_function (option) climb_right :: "addr \<Rightarrow> addr \<Rightarrow> rheap \<Rightarrow> addr option" where
  "climb_right p node h =
     (if p \<noteq> NULL \<and> rh_right h p = node then climb_right (rb_parent p h) p h else Some p)"

definition rb_next :: "addr \<Rightarrow> rheap \<Rightarrow> addr option" where
  "rb_next node h =
     (if node = NULL then Some NULL
      else if rh_right h node \<noteq> NULL then raw_rb_leftmost (rh_right h node) h
      else climb_right (rb_parent node h) node h)"

partial_function (option) climb_left :: "addr \<Rightarrow> addr \<Rightarrow> rheap \<Rightarrow> addr option" where
  "climb_left p node h =
     (if p \<noteq> NULL \<and> rh_left h p = node then climb_left (rb_parent p h) p h else Some p)"

definition rb_prev :: "addr \<Rightarrow> rheap \<Rightarrow> addr option" where
  "rb_prev node h =
     (if node = NULL then Some NULL
      else if rh_left h node \<noteq> NULL then raw_rb_rightmost (rh_left h node) h
      else climb_left (rb_parent node h) node h)"

section \<open>Insertion\<close>

text \<open>
  A \<^verbatim>\<open>struct rb_node **\<close> of the callers points to the \<open>root\<close> field of a tree or to a link field of a
  node.
\<close>

datatype rb_slot = RootSlot addr | LeftSlot addr | RightSlot addr

fun slot_read :: "rb_slot \<Rightarrow> rheap \<Rightarrow> addr" where
  "slot_read (RootSlot t) h = rh_root h t"
| "slot_read (LeftSlot n) h = rh_left h n"
| "slot_read (RightSlot n) h = rh_right h n"

fun slot_write :: "rb_slot \<Rightarrow> addr \<Rightarrow> rheap \<Rightarrow> rheap" where
  "slot_write (RootSlot t) v h = set_root t v h"
| "slot_write (LeftSlot n) v h = set_left n v h"
| "slot_write (RightSlot n) v h = set_right n v h"

definition rb_link :: "addr \<Rightarrow> addr \<Rightarrow> rb_slot \<Rightarrow> rheap \<Rightarrow> rheap" where
  "rb_link node parent plink h =
     (let h = set_parent_word node parent h;
          h = set_right node NULL h;
          h = set_left node NULL h
      in slot_write plink node h)"

definition insert_turn_left :: "addr \<Rightarrow> addr \<Rightarrow> addr \<Rightarrow> addr \<Rightarrow> rheap \<Rightarrow> rheap res" where
  "insert_turn_left node p g tree h =
     bindR (if node = rh_right h p
            then bindR (rb_rotate_left p tree h) (\<lambda>h. Inr (node, h))
            else Inr (p, h)) (\<lambda>(p, h).
     bindR (rb_rotate_right g tree h) (\<lambda>h.
     Inr (rb_set_red g (rb_set_black p h))))"

definition insert_turn_right :: "addr \<Rightarrow> addr \<Rightarrow> addr \<Rightarrow> addr \<Rightarrow> rheap \<Rightarrow> rheap res" where
  "insert_turn_right node p g tree h =
     bindR (if node = rh_left h p
            then bindR (rb_rotate_right p tree h) (\<lambda>h. Inr (node, h))
            else Inr (p, h)) (\<lambda>(p, h).
     bindR (rb_rotate_left g tree h) (\<lambda>h.
     Inr (rb_set_red g (rb_set_black p h))))"

definition insert_recolor :: "addr \<Rightarrow> addr \<Rightarrow> addr \<Rightarrow> rheap \<Rightarrow> rheap" where
  "insert_recolor g p u h = rb_set_black u (rb_set_black p (rb_set_red g h))"

partial_function (option) rb_insert_loop :: "addr \<Rightarrow> addr \<Rightarrow> addr \<Rightarrow> rheap \<Rightarrow> rheap res option" where
  "rb_insert_loop node p tree h =
     (if rb_red p h then
        let g = rb_parent p h in
        if g = NULL then Some (Inl (Fault ''rb_insert''))
        else if p = rh_left h g then
          let r = rh_right h g in
          if rb_red r h then
            let h = insert_recolor g p r h in rb_insert_loop g (rb_parent g h) tree h
          else Some (insert_turn_left node p g tree h)
        else
          let l = rh_left h g in
          if rb_red l h then
            let h = insert_recolor g p l h in rb_insert_loop g (rb_parent g h) tree h
          else Some (insert_turn_right node p g tree h)
      else Some (Inr h))"

definition rb_insert :: "addr \<Rightarrow> addr \<Rightarrow> rheap \<Rightarrow> rheap res option" where
  "rb_insert node tree h =
     bindO (rb_insert_loop node (rb_parent node h) tree h) (\<lambda>h.
       Some (if rh_root h tree = NULL then Inl (Fault ''rb_insert'')
             else Inr (rb_set_black (rh_root h tree) h)))"

section \<open>Removal\<close>

text \<open>
  One round of the loop of \<^verbatim>\<open>rb_erase_fix\<close> for a \<open>child\<close> on the left: \<open>Inl\<close> is the next round's
  \<open>child\<close> and \<open>parent\<close>, \<open>Inr\<close> the \<open>child\<close> with which the loop is left.
\<close>

definition erase_done_left :: "addr \<Rightarrow> addr \<Rightarrow> addr \<Rightarrow> rheap \<Rightarrow> (addr \<times> rheap) res" where
  "erase_done_left b parent tree h =
     bindR (if rb_black (rh_right h b) h
            then if rh_left h b = NULL then Inl (Fault ''rb_erase_fix'')
                 else
                   let h = rb_set_black (rh_left h b) h; h = rb_set_red b h in
                   bindR (rb_rotate_right b tree h) (\<lambda>h. Inr (rh_right h parent, h))
            else Inr (b, h)) (\<lambda>(b, h).
     let h = rb_set_color b (rb_color parent h) h;
         h = rb_set_black parent h;
         h = (if rh_right h b \<noteq> NULL then rb_set_black (rh_right h b) h else h)
     in bindR (rb_rotate_left parent tree h) (\<lambda>h. Inr (rh_root h tree, h)))"

definition erase_round_left ::
    "addr \<Rightarrow> addr \<Rightarrow> addr \<Rightarrow> rheap \<Rightarrow> ((addr \<times> addr \<times> rheap) + (addr \<times> rheap)) res" where
  "erase_round_left child parent tree h =
     bindR (let b = rh_right h parent in
            if rb_red b h then
              let h = rb_set_black b h; h = rb_set_red parent h in
              bindR (rb_rotate_left parent tree h) (\<lambda>h. Inr (rh_right h parent, h))
            else Inr (b, h)) (\<lambda>(b, h).
     if b = NULL then Inl (Fault ''rb_erase_fix'')
     else if rb_black (rh_left h b) h \<and> rb_black (rh_right h b) h
     then let h = rb_set_red b h in Inr (Inl (parent, rb_parent parent h, h))
     else bindR (erase_done_left b parent tree h) (\<lambda>r. Inr (Inr r)))"

definition erase_done_right :: "addr \<Rightarrow> addr \<Rightarrow> addr \<Rightarrow> rheap \<Rightarrow> (addr \<times> rheap) res" where
  "erase_done_right b parent tree h =
     bindR (if rb_black (rh_left h b) h
            then if rh_right h b = NULL then Inl (Fault ''rb_erase_fix'')
                 else
                   let h = rb_set_black (rh_right h b) h; h = rb_set_red b h in
                   bindR (rb_rotate_left b tree h) (\<lambda>h. Inr (rh_left h parent, h))
            else Inr (b, h)) (\<lambda>(b, h).
     let h = rb_set_color b (rb_color parent h) h;
         h = rb_set_black parent h;
         h = (if rh_left h b \<noteq> NULL then rb_set_black (rh_left h b) h else h)
     in bindR (rb_rotate_right parent tree h) (\<lambda>h. Inr (rh_root h tree, h)))"

definition erase_round_right ::
    "addr \<Rightarrow> addr \<Rightarrow> addr \<Rightarrow> rheap \<Rightarrow> ((addr \<times> addr \<times> rheap) + (addr \<times> rheap)) res" where
  "erase_round_right child parent tree h =
     bindR (let b = rh_left h parent in
            if rb_red b h then
              let h = rb_set_black b h; h = rb_set_red parent h in
              bindR (rb_rotate_right parent tree h) (\<lambda>h. Inr (rh_left h parent, h))
            else Inr (b, h)) (\<lambda>(b, h).
     if b = NULL then Inl (Fault ''rb_erase_fix'')
     else if rb_black (rh_right h b) h \<and> rb_black (rh_left h b) h
     then let h = rb_set_red b h in Inr (Inl (parent, rb_parent parent h, h))
     else bindR (erase_done_right b parent tree h) (\<lambda>r. Inr (Inr r)))"

partial_function (option) erase_fix_loop ::
    "addr \<Rightarrow> addr \<Rightarrow> addr \<Rightarrow> rheap \<Rightarrow> (addr \<times> rheap) res option" where
  "erase_fix_loop child parent tree h =
     (if rb_black child h \<and> child \<noteq> rh_root h tree then
        if parent = NULL then Some (Inl (Fault ''rb_erase_fix''))
        else
          bindO (Some (if child = rh_left h parent then erase_round_left child parent tree h
                       else erase_round_right child parent tree h)) (\<lambda>r.
            case r of
              Inl (child, parent, h) \<Rightarrow> erase_fix_loop child parent tree h
            | Inr (child, h) \<Rightarrow> Some (Inr (child, h)))
      else Some (Inr (child, h)))"

definition rb_erase_fix :: "addr \<Rightarrow> addr \<Rightarrow> addr \<Rightarrow> rheap \<Rightarrow> rheap res option" where
  "rb_erase_fix child parent tree h =
     bindO (erase_fix_loop child parent tree h) (\<lambda>(child, h).
       Some (Inr (if child \<noteq> NULL then rb_set_black child h else h)))"

text \<open>The node \<open>x\<close> that takes the place of \<open>node\<close> when it has two children, with \<open>c\<close> and \<open>p\<close>.\<close>

definition erase_two :: "addr \<Rightarrow> addr \<Rightarrow> rheap \<Rightarrow> (addr \<times> addr \<times> u64 \<times> rheap) res" where
  "erase_two node x h =
     (if x = NULL then Inl (Fault ''rb_erase'')
      else
        let c = rh_right h x;
            color = rb_color x h
        in if x = rh_right h node then
             let p = x;
                 h = set_left x (rh_left h node) h;
                 h = set_parent_word x (rh_parent h node) h;
                 h = rb_set_parent (rh_left h x) x h
             in Inr (c, p, color, h)
           else
             let p = rb_parent x h in
             if p = NULL then Inl (Fault ''rb_erase'')
             else
               let h = set_parent_word x (rh_parent h node)
                         (set_right x (rh_right h node) (set_left x (rh_left h node) h));
                   h = set_left p c h;
                   h = (if c \<noteq> NULL then rb_set_parent c p h else h);
                   h = rb_set_parent (rh_left h x) x h;
                   h = rb_set_parent (rh_right h x) x h
               in Inr (c, p, color, h))"

definition erase_one :: "addr \<Rightarrow> rheap \<Rightarrow> addr \<times> addr \<times> u64 \<times> rheap" where
  "erase_one node h =
     (let p = rb_parent node h;
          color = rb_color node h;
          c = (if rh_left h node \<noteq> NULL then rh_left h node else rh_right h node);
          h = (if c \<noteq> NULL then rb_set_parent c p h else h)
      in (c, p, color, h))"

definition erase_unlink :: "addr \<Rightarrow> addr \<Rightarrow> addr \<Rightarrow> rheap \<Rightarrow> rheap" where
  "erase_unlink node x tree h =
     (if rb_parent node h \<noteq> NULL
      then if rh_left h (rb_parent node h) = node
           then set_left (rb_parent node h) x h
           else set_right (rb_parent node h) x h
      else set_root tree x h)"

definition rb_erase :: "addr \<Rightarrow> addr \<Rightarrow> rheap \<Rightarrow> rheap res option" where
  "rb_erase node tree h =
     (if node = NULL then Some (Inl (Fault ''rb_erase''))
      else
        bindO (if rh_left h node \<noteq> NULL \<and> rh_right h node \<noteq> NULL
               then Option.bind (rb_next node h) (\<lambda>x.
                      bindO (Some (erase_two node x h)) (\<lambda>(c, p, color, h). Some (Inr (x, c, p, color, h))))
               else let (c, p, color, h) = erase_one node h in Some (Inr (c, c, p, color, h)))
          (\<lambda>(x, c, p, color, h).
             let h = erase_unlink node x tree h in
             if color = BLACK then rb_erase_fix c p tree h else Some (Inr h)))"

end
