(* ===== verification/Multiboot.thy ===== *)
theory Multiboot
  imports CString
begin

text \<open>
  The multiboot information the boot loader leaves in memory, as \<^verbatim>\<open>src/balloc.c\<close> and
  \<^verbatim>\<open>src/initramfs.c\<close> read it (each file declares its own view of \<^verbatim>\<open>struct mboot_info\<close> over the same
  bytes), and the search for the initial file system in \<^verbatim>\<open>initramfs\<close>.
\<close>

section \<open>Little-endian loads\<close>

definition load32 :: "addr \<Rightarrow> mem \<Rightarrow> u32" where
  "load32 a m = ucast (m a) OR push_bit 8 (ucast (m (a + 1))) OR push_bit 16 (ucast (m (a + 2)))
     OR push_bit 24 (ucast (m (a + 3)))"

definition load64 :: "addr \<Rightarrow> mem \<Rightarrow> u64" where
  "load64 a m = ucast (load32 a m) OR push_bit 32 (ucast (load32 (a + 4) m))"

section \<open>The view of \<open>balloc.c\<close>\<close>

record mboot_info =
  mbi_flags :: u32
  mbi_mmap_size :: u32
  mbi_mmap_addr :: u32

definition mboot_info_at :: "addr \<Rightarrow> mem \<Rightarrow> mboot_info" where
  "mboot_info_at info m =
     \<lparr>mbi_flags = load32 info m, mbi_mmap_size = load32 (info + 44) m, mbi_mmap_addr = load32 (info + 48) m\<rparr>"

text \<open>An entry of the memory map is packed: \<open>size\<close> at 0, \<open>addr\<close> at 4, \<open>length\<close> at 12, \<open>type\<close> at 20.\<close>

record mboot_mmap_entry =
  me_size :: u32
  me_addr :: u64
  me_length :: u64
  me_type :: u32

definition mmap_entry_at :: "addr \<Rightarrow> mem \<Rightarrow> mboot_mmap_entry" where
  "mmap_entry_at p m =
     \<lparr>me_size = load32 p m, me_addr = load64 (p + 4) m, me_length = load64 (p + 12) m, me_type = load32 (p + 20) m\<rparr>"

section \<open>The view of \<open>initramfs.c\<close>\<close>

record mods_info =
  mi_flags :: u32
  mi_mods_count :: u32
  mi_mods_addr :: u32

definition mods_info_at :: "addr \<Rightarrow> mem \<Rightarrow> mods_info" where
  "mods_info_at info m =
     \<lparr>mi_flags = load32 info m, mi_mods_count = load32 (info + 20) m, mi_mods_addr = load32 (info + 24) m\<rparr>"

record multiboot_mod_desc =
  md_start :: u32
  md_end :: u32

definition mod_desc_at :: "addr \<Rightarrow> mem \<Rightarrow> multiboot_mod_desc" where
  "mod_desc_at p m = \<lparr>md_start = load32 p m, md_end = load32 (p + 4) m\<rparr>"

text \<open>The calls of \<^verbatim>\<open>printf\<close>, each with its format and arguments, in their order.\<close>

type_synonym plog = "(string \<times> u64 list) list"

definition newline :: string where
  "newline = [CHR 0x0A]"

text \<open>The condition on the first bytes of a module, with the operators of the code.\<close>

definition cpio_magic :: "addr \<Rightarrow> mem \<Rightarrow> bool" where
  "cpio_magic str m \<longleftrightarrow>
     m str = 0x30 \<or> m (str + 1) = 0x37 \<or> m (str + 2) = 0x30 \<or>
     m (str + 3) = 0x37 \<or> m (str + 4) = 0x30 \<or> m (str + 5) = 0x31"

text \<open>\<open>n\<close> descriptors are left to look at; none fitting is \<^verbatim>\<open>BUG_ON(1)\<close>.\<close>

fun initramfs_scan :: "nat \<Rightarrow> addr \<Rightarrow> mem \<Rightarrow> plog \<Rightarrow> ((u64 \<times> u64) \<times> plog) res" where
  "initramfs_scan 0 desc m log = Inl (Bug ''1'')"
| "initramfs_scan (Suc n) desc m log =
     (let first = ucast (md_start (mod_desc_at desc m));
          second = ucast (md_end (mod_desc_at desc m));
          log = log @ [(''0x%lu 0x%lu'' @ newline, [first, second])]
      in if 7 \<le> second - first \<and> cpio_magic first m then Inr ((first, second), log)
         else initramfs_scan n (desc + 16) m log)"

definition initramfs :: "addr \<Rightarrow> mem \<Rightarrow> plog \<Rightarrow> ((u64 \<times> u64) \<times> plog) res" where
  "initramfs mbt m log =
     (let i = mods_info_at mbt m in
      if mi_flags i AND 1000 = 0 then Inl (Bug ''!(mbt->flags & 1000)'')
      else initramfs_scan (unat (mi_mods_count i)) (ucast (mi_mods_addr i)) m log)"

end
