(* ===== verification/Balloc.thy ===== *)
theory Balloc
  imports RBTree KList Multiboot
begin

text \<open>
  The bootstrap allocator of \<^verbatim>\<open>src/balloc.c\<close> with \<^verbatim>\<open>inc/balloc.h\<close>: ranges of physical memory in two
  red-black trees, all known memory and free memory, over a pool of 128 nodes. A node's link is a
  union of a tree node and a list node at offset 0: \<open>next\<close> and \<open>prev\<close> of the list of unused nodes
  are the \<open>left\<close> and \<open>right\<close> words of the tree links.
\<close>

section \<open>State\<close>

text \<open>Addresses fixed by the linker.\<close>

record bstatics =
  nodes_base :: addr          \<comment> \<open>\<^verbatim>\<open>balloc_nodes\<close>\<close>
  free_list :: addr           \<comment> \<open>\<^verbatim>\<open>balloc_free_list\<close>\<close>
  free_ranges :: addr
  memory_map :: addr
  text_phys_begin :: u64
  bss_phys_end :: u64

record balloc =
  links :: rheap              \<comment> \<open>the unions \<open>link\<close> of all nodes, the list head, the roots of the trees\<close>
  rbegin :: "addr \<Rightarrow> u64"     \<comment> \<open>\<open>begin\<close> and \<open>end\<close> of each node\<close>
  rend :: "addr \<Rightarrow> u64"
  prints :: plog

abbreviation (input) BALLOC_MAX_RANGES :: nat where "BALLOC_MAX_RANGES \<equiv> 128"

text \<open>\<^verbatim>\<open>struct memory_node\<close> is 40 bytes; its link is at offset 0.\<close>

definition balloc_node :: "bstatics \<Rightarrow> nat \<Rightarrow> addr" where
  "balloc_node bc i = nodes_base bc + 40 * of_nat i"

definition RB2MEMORY_NODE :: "addr \<Rightarrow> addr" where
  "RB2MEMORY_NODE node = node - 0"

definition LL2MEMORY_NODE :: "addr \<Rightarrow> addr" where
  "LL2MEMORY_NODE node = node - 0"

text \<open>The same words seen as list links.\<close>

definition ll_view :: "rheap \<Rightarrow> lheap" where
  "ll_view h = \<lparr>lh_next = rh_left h, lh_prev = rh_right h\<rparr>"

definition on_ll :: "(lheap \<Rightarrow> lheap) \<Rightarrow> rheap \<Rightarrow> rheap" where
  "on_ll f h = h\<lparr>rh_left := lh_next (f (ll_view h)), rh_right := lh_prev (f (ll_view h))\<rparr>"

section \<open>Nodes\<close>

definition balloc_alloc_node :: "bstatics \<Rightarrow> balloc \<Rightarrow> (addr \<times> balloc) res" where
  "balloc_alloc_node bc s =
     (if list_empty (free_list bc) (ll_view (links s))
      then Inl (Bug ''list_empty(&balloc_free_list)'')
      else let node = lh_next (ll_view (links s)) (free_list bc)
           in Inr (LL2MEMORY_NODE node, s\<lparr>links := on_ll (list_del node) (links s)\<rparr>))"

definition balloc_free_node :: "bstatics \<Rightarrow> addr \<Rightarrow> balloc \<Rightarrow> balloc" where
  "balloc_free_node bc node s = s\<lparr>links := on_ll (list_add node (free_list bc)) (links s)\<rparr>"

section \<open>Ranges\<close>

partial_function (option) add_descend ::
    "rb_slot \<Rightarrow> addr \<Rightarrow> u64 \<Rightarrow> balloc \<Rightarrow> (rb_slot \<times> addr) option" where
  "add_descend plink parent from s =
     (let node = slot_read plink (links s) in
      if node \<noteq> NULL
      then if rbegin s (RB2MEMORY_NODE node) < from
           then add_descend (RightSlot node) node from s
           else add_descend (LeftSlot node) node from s
      else Some (plink, parent))"

definition on_links :: "(rheap \<Rightarrow> rheap res option) \<Rightarrow> balloc \<Rightarrow> balloc res option" where
  "on_links f s = bindO (f (links s)) (\<lambda>h. Some (Inr (s\<lparr>links := h\<rparr>)))"

definition add_merge_prev :: "bstatics \<Rightarrow> addr \<Rightarrow> addr \<Rightarrow> balloc \<Rightarrow> balloc res option" where
  "add_merge_prev bc tree new s =
     Option.bind (rb_prev new (links s)) (\<lambda>p.
       let prev = RB2MEMORY_NODE p in
       if prev \<noteq> NULL \<and> rbegin s new \<le> rend s prev then
         let s = s\<lparr>rbegin := (rbegin s)(new := rbegin s prev)\<rparr>;
             s = (if rend s new < rend s prev then s\<lparr>rend := (rend s)(new := rend s prev)\<rparr> else s)
         in bindO (on_links (rb_erase prev tree) s) (\<lambda>s.
            Some (Inr (balloc_free_node bc prev s)))
       else Some (Inr s))"

definition add_merge_next :: "bstatics \<Rightarrow> addr \<Rightarrow> addr \<Rightarrow> balloc \<Rightarrow> balloc res option" where
  "add_merge_next bc tree new s =
     Option.bind (rb_next new (links s)) (\<lambda>n.
       let nxt = RB2MEMORY_NODE n in
       if nxt \<noteq> NULL \<and> rbegin s nxt \<le> rend s new then
         let s = s\<lparr>rend := (rend s)(new := rend s nxt)\<rparr>
         in bindO (on_links (rb_erase nxt tree) s) (\<lambda>s.
            Some (Inr (balloc_free_node bc nxt s)))
       else Some (Inr s))"

definition balloc_add_range :: "bstatics \<Rightarrow> addr \<Rightarrow> u64 \<Rightarrow> u64 \<Rightarrow> balloc \<Rightarrow> balloc res option" where
  "balloc_add_range bc tree from to s =
     Option.bind (add_descend (RootSlot tree) NULL from s) (\<lambda>(plink, parent).
     bindO (Some (balloc_alloc_node bc s)) (\<lambda>(new, s).
     let s = s\<lparr>rbegin := (rbegin s)(new := from)\<rparr>;
         s = s\<lparr>rend := (rend s)(new := to)\<rparr>;
         s = s\<lparr>links := rb_link new parent plink (links s)\<rparr>
     in bindO (on_links (rb_insert new tree) s) (\<lambda>s.
        bindO (add_merge_prev bc tree new s) (\<lambda>s.
        add_merge_next bc tree new s))))"

text \<open>The search of \<^verbatim>\<open>__balloc_remove_range\<close> and \<^verbatim>\<open>__balloc_alloc\<close>: the first range that ends after \<open>from\<close>.\<close>

partial_function (option) range_after :: "addr \<Rightarrow> addr \<Rightarrow> u64 \<Rightarrow> balloc \<Rightarrow> addr option" where
  "range_after link ptr from s =
     (if link \<noteq> NULL
      then if from < rend s (RB2MEMORY_NODE link)
           then range_after (rh_left (links s) link) (RB2MEMORY_NODE link) from s
           else range_after (rh_right (links s) link) ptr from s
      else Some ptr)"

partial_function (option) remove_loop ::
    "bstatics \<Rightarrow> addr \<Rightarrow> addr \<Rightarrow> u64 \<Rightarrow> u64 \<Rightarrow> balloc \<Rightarrow> balloc res option" where
  "remove_loop bc tree ptr from to s =
     (if ptr \<noteq> NULL \<and> rbegin s ptr < to then
        Option.bind (rb_next ptr (links s)) (\<lambda>n.
        bindO (on_links (rb_erase ptr tree) s) (\<lambda>s.
        bindO (if rbegin s ptr < from then balloc_add_range bc tree (rbegin s ptr) from s
               else Some (Inr s)) (\<lambda>s.
        bindO (if to < rend s ptr then balloc_add_range bc tree to (rend s ptr) s
               else Some (Inr s)) (\<lambda>s.
        remove_loop bc tree (RB2MEMORY_NODE n) from to (balloc_free_node bc ptr s)))))
      else Some (Inr s))"

definition balloc_remove_range :: "bstatics \<Rightarrow> addr \<Rightarrow> u64 \<Rightarrow> u64 \<Rightarrow> balloc \<Rightarrow> balloc res option" where
  "balloc_remove_range bc tree from to s =
     Option.bind (range_after (rh_root (links s) tree) NULL from s) (\<lambda>ptr.
       remove_loop bc tree ptr from to s)"

section \<open>Allocation\<close>

definition addr_align_up :: "u64 \<Rightarrow> u64 \<Rightarrow> u64" where
  "addr_align_up b align = (let mask = align - 1 in (b + mask) AND NOT mask)"

definition take_from :: "bstatics \<Rightarrow> addr \<Rightarrow> u64 \<Rightarrow> u64 \<Rightarrow> balloc \<Rightarrow> (u64 \<times> balloc) res option" where
  "take_from bc ptr addr sz s =
     bindO (on_links (rb_erase ptr (free_ranges bc)) s) (\<lambda>s.
     bindO (if rbegin s ptr < addr then balloc_add_range bc (free_ranges bc) (rbegin s ptr) addr s
            else Some (Inr s)) (\<lambda>s.
     bindO (if addr + sz < rend s ptr then balloc_add_range bc (free_ranges bc) (addr + sz) (rend s ptr) s
            else Some (Inr s)) (\<lambda>s.
     Some (Inr (addr, balloc_free_node bc ptr s)))))"

partial_function (option) alloc_loop ::
    "bstatics \<Rightarrow> addr \<Rightarrow> u64 \<Rightarrow> u64 \<Rightarrow> u64 \<Rightarrow> u64 \<Rightarrow> balloc \<Rightarrow> (u64 \<times> balloc) res option" where
  "alloc_loop bc ptr sz align from to s =
     (if ptr \<noteq> NULL \<and> rbegin s ptr < to then
        let b = (if from < rbegin s ptr then rbegin s ptr else from);
            e = (if rend s ptr < to then rend s ptr else to);
            addr = addr_align_up b align
        in if addr + sz \<le> e then take_from bc ptr addr sz s
           else Option.bind (rb_next ptr (links s)) (\<lambda>n.
                  alloc_loop bc (RB2MEMORY_NODE n) sz align from to s)
      else Some (Inr (to, s)))"

definition raw_balloc_alloc :: "bstatics \<Rightarrow> u64 \<Rightarrow> u64 \<Rightarrow> u64 \<Rightarrow> u64 \<Rightarrow> balloc \<Rightarrow> (u64 \<times> balloc) res option" where
  "raw_balloc_alloc bc sz align from to s =
     Option.bind (range_after (rh_root (links s) (free_ranges bc)) NULL from s) (\<lambda>ptr.
       alloc_loop bc ptr sz align from to s)"

definition balloc_alloc :: "bstatics \<Rightarrow> u64 \<Rightarrow> u64 \<Rightarrow> u64 \<Rightarrow> balloc \<Rightarrow> (u64 \<times> balloc) res option" where
  "balloc_alloc bc sz from to s =
     (let align = 64;
          align = (if sz \<le> 32 then 32 else align);
          align = (if sz \<le> 16 then 16 else align);
          align = (if sz \<le> 8 then 8 else align)
      in raw_balloc_alloc bc sz align from to s)"

definition balloc_free :: "bstatics \<Rightarrow> u64 \<Rightarrow> u64 \<Rightarrow> balloc \<Rightarrow> balloc res option" where
  "balloc_free bc begin fin s = balloc_add_range bc (free_ranges bc) begin fin s"

section \<open>Setup\<close>

definition balloc_setup_nodes :: "bstatics \<Rightarrow> balloc \<Rightarrow> balloc" where
  "balloc_setup_nodes bc s =
     fold (\<lambda>i s. balloc_free_node bc (balloc_node bc i) s) [0..<BALLOC_MAX_RANGES]
       (s\<lparr>links := on_ll (list_init (free_list bc)) (links s)\<rparr>)"

text \<open>The two passes over the memory map. An entry takes 24 bytes; the step is 4 more than its \<open>size\<close>.\<close>

partial_function (option) mmap_add ::
    "bstatics \<Rightarrow> mem \<Rightarrow> u64 \<Rightarrow> u64 \<Rightarrow> balloc \<Rightarrow> balloc res option" where
  "mmap_add bc m ptr fin s =
     (if ptr + 24 \<le> fin then
        let entry = mmap_entry_at ptr m;
            rb = me_addr entry;
            re = rb + me_length entry
        in bindO (balloc_add_range bc (memory_map bc) rb re s) (\<lambda>s.
           bindO (balloc_add_range bc (free_ranges bc) rb re s) (\<lambda>s.
           mmap_add bc m (ptr + (ucast (me_size entry) + 4)) fin s))
      else Some (Inr s))"

partial_function (option) mmap_remove ::
    "bstatics \<Rightarrow> mem \<Rightarrow> u64 \<Rightarrow> u64 \<Rightarrow> balloc \<Rightarrow> balloc res option" where
  "mmap_remove bc m ptr fin s =
     (if ptr + 24 \<le> fin then
        let entry = mmap_entry_at ptr m;
            rb = me_addr entry;
            re = rb + me_length entry
        in bindO (if me_type entry \<noteq> 1 then balloc_remove_range bc (free_ranges bc) rb re s
                  else Some (Inr s)) (\<lambda>s.
           mmap_remove bc m (ptr + (ucast (me_size entry) + 4)) fin s)
      else Some (Inr s))"

definition balloc_parse_mmap :: "bstatics \<Rightarrow> addr \<Rightarrow> mem \<Rightarrow> balloc \<Rightarrow> ((u64 \<times> u64) \<times> balloc) res option" where
  "balloc_parse_mmap bc info m s =
     (let i = mboot_info_at info m in
      if mbi_flags i AND push_bit 6 1 = 0 then Some (Inl (Bug ''(info->flags & (1ul << 6)) == 0''))
      else
        let begin = ucast (mbi_mmap_addr i);
            fin = begin + ucast (mbi_mmap_size i);
            kbegin = text_phys_begin bc;
            kend = bss_phys_end bc
        in bindO (mmap_add bc m begin fin s) (\<lambda>s.
           bindO (balloc_add_range bc (memory_map bc) kbegin kend s) (\<lambda>s.
           bindO (balloc_add_range bc (free_ranges bc) kbegin kend s) (\<lambda>s.
           bindO (mmap_remove bc m begin fin s) (\<lambda>s.
           bindO (Some (initramfs info m (prints s))) (\<lambda>((first, second), log).
           let s = s\<lparr>prints := log\<rparr> in
           bindO (balloc_remove_range bc (free_ranges bc) first second s) (\<lambda>s.
           bindO (balloc_remove_range bc (free_ranges bc) kbegin kend s) (\<lambda>s.
           Some (Inr ((first, second), s))))))))))"

partial_function (option) dump_from :: "addr \<Rightarrow> balloc \<Rightarrow> balloc option" where
  "dump_from node s =
     (if node \<noteq> NULL then
        let s = s\<lparr>prints := prints s @ [(''memory range: 0x%llx-0x%llx'' @ newline, [rbegin s node, rend s node])]\<rparr>
        in Option.bind (rb_next node (links s)) (\<lambda>n. dump_from (RB2MEMORY_NODE n) s)
      else Some s)"

definition raw_balloc_dump_ranges :: "addr \<Rightarrow> balloc \<Rightarrow> balloc option" where
  "raw_balloc_dump_ranges tree s =
     Option.bind (rb_leftmost tree (links s)) (\<lambda>node. dump_from (RB2MEMORY_NODE node) s)"

definition balloc_dump_ranges :: "bstatics \<Rightarrow> balloc \<Rightarrow> balloc option" where
  "balloc_dump_ranges bc s =
     (let s = s\<lparr>prints := prints s @ [(''known memory ranges:'' @ newline, [])]\<rparr> in
      Option.bind (raw_balloc_dump_ranges (memory_map bc) s) (\<lambda>s.
      let s = s\<lparr>prints := prints s @ [(''free memory ranges:'' @ newline, [])]\<rparr> in
      raw_balloc_dump_ranges (free_ranges bc) s))"

definition balloc_memory :: "bstatics \<Rightarrow> balloc \<Rightarrow> u64 res option" where
  "balloc_memory bc s =
     Option.bind (rb_rightmost (memory_map bc) (links s)) (\<lambda>n.
       Some (if n = NULL then Inl (Fault ''balloc_memory'') else Inr (rend s (RB2MEMORY_NODE n))))"

definition balloc_setup :: "bstatics \<Rightarrow> addr \<Rightarrow> mem \<Rightarrow> balloc \<Rightarrow> ((u64 \<times> u64) \<times> balloc) res option" where
  "balloc_setup bc info m s =
     bindO (balloc_parse_mmap bc info m (balloc_setup_nodes bc s)) (\<lambda>(ramfs, s).
     Option.bind (balloc_dump_ranges bc s) (\<lambda>s. Some (Inr (ramfs, s))))"

end
