(* ===== verification/RBShape.thy ===== *)
theory RBShape
  imports RBTree
begin

text \<open>
  The tree a heap holds: \<open>rtree\<close> is the abstract red-black tree of node addresses, \<open>holds\<close> ties it
  to the links of the heap. An operation in the middle of a tree is described with a path \<open>rstep
  list\<close> from the subtree it works on up to the root (a zipper), so that each lemma speaks of the
  nodes the code touches only.
\<close>

section \<open>Abstract trees and paths\<close>

datatype color = Red | Black

datatype rtree = Lf | Nd rtree addr color rtree

fun nodes :: "rtree \<Rightarrow> addr list" where
  "nodes Lf = []"
| "nodes (Nd l n c r) = nodes l @ n # nodes r"

fun tip :: "rtree \<Rightarrow> addr" where
  "tip Lf = NULL"
| "tip (Nd l n c r) = n"

fun hue :: "rtree \<Rightarrow> color" where
  "hue Lf = Black"
| "hue (Nd l n c r) = c"

fun paint :: "color \<Rightarrow> rtree \<Rightarrow> rtree" where
  "paint d Lf = Lf"
| "paint d (Nd l n c r) = Nd l n d r"

datatype rstep =
    InLeft addr color rtree
  | InRight rtree addr color

fun above :: "rstep list \<Rightarrow> addr" where
  "above [] = NULL"
| "above (InLeft n c r # k) = n"
| "above (InRight l n c # k) = n"

fun above_hue :: "rstep list \<Rightarrow> color" where
  "above_hue [] = Black"
| "above_hue (InLeft n c r # k) = c"
| "above_hue (InRight l n c # k) = c"

fun plug :: "rstep list \<Rightarrow> rtree \<Rightarrow> rtree" where
  "plug [] t = t"
| "plug (InLeft n c r # k) t = plug k (Nd t n c r)"
| "plug (InRight l n c # k) t = plug k (Nd l n c t)"

fun before :: "rstep list \<Rightarrow> addr list" where
  "before [] = []"
| "before (InLeft n c r # k) = before k"
| "before (InRight l n c # k) = before k @ nodes l @ [n]"

fun after :: "rstep list \<Rightarrow> addr list" where
  "after [] = []"
| "after (InLeft n c r # k) = n # nodes r @ after k"
| "after (InRight l n c # k) = after k"

definition path_nodes :: "rstep list \<Rightarrow> addr set" where
  "path_nodes k = set (before k) \<union> set (after k)"

lemma nodes_plug: "nodes (plug k t) = before k @ nodes t @ after k"
  by (induction k t rule: plug.induct) simp_all

lemma path_nodes_simps [simp]:
  "path_nodes [] = {}"
  "path_nodes (InLeft n c r # k) = insert n (set (nodes r) \<union> path_nodes k)"
  "path_nodes (InRight l n c # k) = insert n (set (nodes l) \<union> path_nodes k)"
  by (auto simp: path_nodes_def)

lemma distinct_plug:
  "distinct (nodes (plug k t)) \<longleftrightarrow>
     distinct (nodes t) \<and> distinct (before k @ after k) \<and> set (nodes t) \<inter> path_nodes k = {}"
  by (auto simp: nodes_plug path_nodes_def)

lemma tip_in_nodes: "tip t = n \<Longrightarrow> n \<noteq> NULL \<Longrightarrow> n \<in> set (nodes t)"
  by (cases t) auto

lemma tip_eq_NULL: "NULL \<notin> set (nodes t) \<Longrightarrow> tip t = NULL \<longleftrightarrow> t = Lf"
  by (cases t) auto

lemma nodes_paint [simp]: "nodes (paint c t) = nodes t"
  by (cases t) auto

lemma tip_paint [simp]: "tip (paint c t) = tip t"
  by (cases t) auto

section \<open>The colour bit of the parent word\<close>

definition good_addr :: "addr \<Rightarrow> bool" where
  "good_addr n \<longleftrightarrow> n \<noteq> NULL \<and> n AND 1 = 0"

fun word_of :: "addr \<Rightarrow> color \<Rightarrow> u64" where
  "word_of p Red = p"
| "word_of p Black = p OR 1"

fun hue_word :: "color \<Rightarrow> u64" where
  "hue_word Red = RED"
| "hue_word Black = BLACK"

lemma even_word_bit: "p AND 1 = 0 \<longleftrightarrow> \<not> bit (p :: u64) 0"
  by (simp add: and_one_eq bit_0 even_iff_mod_2_eq_zero)

lemma bit_word1: "bit (1 :: u64) n \<longleftrightarrow> n = 0"
  by (rule bit_1_iff)

lemma word_of_facts:
  assumes "p AND 1 = 0"
  shows "word_of p c AND NOT 1 = p" "word_of p c AND 1 = hue_word c"
    "(word_of p c AND NOT 1) OR hue_word d = word_of p d"
proof -
  have b: "\<not> bit p 0" using assms by (simp add: even_word_bit)
  have p1: "p AND NOT 1 = p" using b by (intro bit_word_eqI) (auto simp: bit_simps bit_word1 intro!: Nat.gr0I)
  have p2: "(p OR 1) AND NOT 1 = p" using b by (intro bit_word_eqI) (auto simp: bit_simps bit_word1 intro!: Nat.gr0I)
  have p3: "(p OR 1) AND 1 = 1" by (intro bit_word_eqI) (auto simp: bit_simps bit_word1)
  show "word_of p c AND NOT 1 = p" using p1 p2 by (cases c) simp_all
  then show "(word_of p c AND NOT 1) OR hue_word d = word_of p d"
    by (cases d) (simp_all add: RED_def BLACK_def)
  show "word_of p c AND 1 = hue_word c" using p3 assms by (cases c) (simp_all add: RED_def BLACK_def)
qed

lemma word_of_reparent:
  assumes "p AND 1 = 0" "q AND 1 = 0"
  shows "(word_of p c AND 1) OR q = word_of q c"
  unfolding word_of_facts(2) [OF assms(1)]
  by (cases c) (auto simp: RED_def BLACK_def or.commute)

lemma hue_word_inject [simp]: "hue_word c = hue_word d \<longleftrightarrow> c = d"
  by (cases c; cases d) (simp_all add: RED_def BLACK_def)

lemma hue_word_eq [simp]:
  "hue_word c = RED \<longleftrightarrow> c = Red" "hue_word c = BLACK \<longleftrightarrow> c = Black"
  by (cases c; simp add: RED_def BLACK_def)+

section \<open>A heap that holds a tree\<close>

fun shape :: "rheap \<Rightarrow> addr \<Rightarrow> rtree \<Rightarrow> bool" where
  "shape h p Lf \<longleftrightarrow> True"
| "shape h p (Nd l n c r) \<longleftrightarrow>
     good_addr n \<and> rh_parent h n = word_of p c \<and> rh_left h n = tip l \<and> rh_right h n = tip r \<and>
     shape h n l \<and> shape h n r"

fun path :: "rheap \<Rightarrow> addr \<Rightarrow> addr \<Rightarrow> rstep list \<Rightarrow> bool" where
  "path h tree x [] \<longleftrightarrow> rh_root h tree = x"
| "path h tree x (InLeft n c r # k) \<longleftrightarrow>
     good_addr n \<and> rh_parent h n = word_of (above k) c \<and> rh_left h n = x \<and> rh_right h n = tip r \<and>
     shape h n r \<and> path h tree n k"
| "path h tree x (InRight l n c # k) \<longleftrightarrow>
     good_addr n \<and> rh_parent h n = word_of (above k) c \<and> rh_left h n = tip l \<and> rh_right h n = x \<and>
     shape h n l \<and> path h tree n k"

definition holds :: "rheap \<Rightarrow> addr \<Rightarrow> rtree \<Rightarrow> bool" where
  "holds h tree t \<longleftrightarrow> shape h NULL t \<and> rh_root h tree = tip t \<and> distinct (nodes t)"

definition focus :: "rheap \<Rightarrow> addr \<Rightarrow> rstep list \<Rightarrow> rtree \<Rightarrow> bool" where
  "focus h tree k t \<longleftrightarrow>
     shape h (above k) t \<and> path h tree (tip t) k \<and> distinct (nodes (plug k t))"

lemma holds_plug: "holds h tree (plug k t) \<longleftrightarrow> focus h tree k t"
proof -
  have "shape h NULL (plug k t) \<and> rh_root h tree = tip (plug k t) \<longleftrightarrow>
          shape h (above k) t \<and> path h tree (tip t) k"
    by (induction k t rule: plug.induct) auto
  then show ?thesis by (auto simp: holds_def focus_def)
qed

lemma holds_focus: "holds h tree t \<longleftrightarrow> focus h tree [] t"
  using holds_plug [of h tree "[]" t] by simp

lemma focus_in_left:
  "focus h tree k (Nd l n c r) \<longleftrightarrow> focus h tree (InLeft n c r # k) l"
  by (simp flip: holds_plug)

lemma focus_in_right:
  "focus h tree k (Nd l n c r) \<longleftrightarrow> focus h tree (InRight l n c # k) r"
  by (simp flip: holds_plug)

lemma shape_good: "shape h p t \<Longrightarrow> n \<in> set (nodes t) \<Longrightarrow> good_addr n"
  by (induction t arbitrary: p) auto

lemma path_good: "path h tree x k \<Longrightarrow> n \<in> path_nodes k \<Longrightarrow> good_addr n"
  by (induction h tree x k rule: path.induct) (auto dest: shape_good)

lemma good_addrD: "good_addr n \<Longrightarrow> n \<noteq> NULL" "good_addr n \<Longrightarrow> n AND 1 = 0"
  by (simp_all add: good_addr_def)

lemma focus_good: "focus h tree k t \<Longrightarrow> n \<in> set (nodes t) \<union> path_nodes k \<Longrightarrow> good_addr n"
  by (auto simp: focus_def dest: shape_good path_good)

lemma shape_null: "shape h p t \<Longrightarrow> NULL \<notin> set (nodes t)"
  by (metis shape_good good_addrD(1))

lemma shape_tip_NULL: "shape h p t \<Longrightarrow> tip t = NULL \<longleftrightarrow> t = Lf"
  by (simp add: tip_eq_NULL shape_null)

lemma above_in_path: "k \<noteq> [] \<Longrightarrow> above k \<in> path_nodes k"
  by (cases k rule: above.cases) auto

lemma above_even: "path h tree x k \<Longrightarrow> above k AND 1 = 0"
  by (cases k rule: above.cases) (auto simp: good_addr_def)

lemma above_NULL: "path h tree x k \<Longrightarrow> above k = NULL \<longleftrightarrow> k = []"
  by (cases k rule: above.cases) (auto simp: good_addr_def)

section \<open>Frames\<close>

definition same_at :: "addr set \<Rightarrow> rheap \<Rightarrow> rheap \<Rightarrow> bool" where
  "same_at A h h' \<longleftrightarrow>
     (\<forall>a\<in>A. rh_left h' a = rh_left h a \<and> rh_right h' a = rh_right h a \<and> rh_parent h' a = rh_parent h a)"

definition same_off :: "addr set \<Rightarrow> addr \<Rightarrow> rheap \<Rightarrow> rheap \<Rightarrow> bool" where
  "same_off A tree h h' \<longleftrightarrow> same_at (- A) h h' \<and> (\<forall>t. t \<noteq> tree \<longrightarrow> rh_root h' t = rh_root h t)"

lemma same_off_refl [simp]: "same_off A tree h h"
  by (simp add: same_off_def same_at_def)

lemma same_off_trans: "same_off A tree h h1 \<Longrightarrow> same_off A tree h1 h2 \<Longrightarrow> same_off A tree h h2"
  by (simp add: same_off_def same_at_def)

lemma same_off_mono: "same_off A tree h h' \<Longrightarrow> A \<subseteq> B \<Longrightarrow> same_off B tree h h'"
  by (auto simp: same_off_def same_at_def)

lemma same_at_mono: "same_at A h h' \<Longrightarrow> B \<subseteq> A \<Longrightarrow> same_at B h h'"
  by (auto simp: same_at_def)

lemma shape_same: "shape h p t \<Longrightarrow> same_at (set (nodes t)) h h' \<Longrightarrow> shape h' p t"
proof (induction t arbitrary: p)
  case (Nd l n c r)
  have "same_at (set (nodes l)) h h'" "same_at (set (nodes r)) h h'"
    using Nd.prems(2) by (auto intro: same_at_mono)
  then show ?case using Nd by (simp add: same_at_def)
qed simp

lemma path_same:
  "path h tree x k \<Longrightarrow> same_at (path_nodes k) h h' \<Longrightarrow> rh_root h' tree = rh_root h tree \<Longrightarrow>
   path h' tree x k"
proof (induction h tree x k rule: path.induct)
  case (2 h tree x n c r k)
  have "same_at (set (nodes r)) h h'" "same_at (path_nodes k) h h'"
    using 2(3) by (auto intro: same_at_mono)
  then show ?case using 2 by (auto intro: shape_same simp: same_at_def)
next
  case (3 h tree x l n c k)
  have "same_at (set (nodes l)) h h'" "same_at (path_nodes k) h h'"
    using 3(3) by (auto intro: same_at_mono)
  then show ?case using 3 by (auto intro: shape_same simp: same_at_def)
qed simp

lemma holds_frame:
  assumes "holds h t2 u" "same_off A tree h h'" "t2 \<noteq> tree" "set (nodes u) \<inter> A = {}"
  shows "holds h' t2 u"
proof -
  have "same_at (set (nodes u)) h h'"
    using assms(2,4) by (auto simp: same_off_def intro: same_at_mono)
  then show ?thesis using assms by (auto simp: holds_def same_off_def intro: shape_same)
qed

text \<open>Hanging a subtree under another parent, and another subtree under a path.\<close>

lemma shape_reparent:
  assumes "shape h p t" "distinct (nodes t)" "t \<noteq> Lf \<Longrightarrow> rh_parent h' (tip t) = word_of q (hue t)"
    "t \<noteq> Lf \<Longrightarrow> rh_left h' (tip t) = rh_left h (tip t) \<and> rh_right h' (tip t) = rh_right h (tip t)"
    "same_at (set (nodes t) - {tip t}) h h'"
  shows "shape h' q t"
proof (cases t)
  case (Nd l n c r)
  have "same_at (set (nodes l)) h h'" "same_at (set (nodes r)) h h'"
    using assms(2,5) Nd by (auto intro: same_at_mono)
  then show ?thesis using assms Nd by (auto intro: shape_same)
qed simp

definition set_link :: "addr \<Rightarrow> rstep list \<Rightarrow> addr \<Rightarrow> rheap \<Rightarrow> rheap" where
  "set_link tree k y h =
     (case k of [] \<Rightarrow> set_root tree y h
      | InLeft n c r # k' \<Rightarrow> set_left n y h
      | InRight l n c # k' \<Rightarrow> set_right n y h)"

lemma rheap_sel [simp]:
  "rh_left (set_left a v h) = (rh_left h)(a := v)" "rh_right (set_left a v h) = rh_right h"
  "rh_parent (set_left a v h) = rh_parent h" "rh_root (set_left a v h) = rh_root h"
  "rh_left (set_right a v h) = rh_left h" "rh_right (set_right a v h) = (rh_right h)(a := v)"
  "rh_parent (set_right a v h) = rh_parent h" "rh_root (set_right a v h) = rh_root h"
  "rh_left (set_parent_word a w h) = rh_left h" "rh_right (set_parent_word a w h) = rh_right h"
  "rh_parent (set_parent_word a w h) = (rh_parent h)(a := w)"
  "rh_root (set_parent_word a w h) = rh_root h"
  "rh_left (set_root a v h) = rh_left h" "rh_right (set_root a v h) = rh_right h"
  "rh_parent (set_root a v h) = rh_parent h" "rh_root (set_root a v h) = (rh_root h)(a := v)"
  by (simp_all add: set_left_def set_right_def set_parent_word_def set_root_def)

lemma set_link_sel [simp]:
  "rh_parent (set_link tree k y h) = rh_parent h"
  "t \<noteq> tree \<Longrightarrow> rh_root (set_link tree k y h) t = rh_root h t"
  "n \<noteq> above k \<Longrightarrow> rh_left (set_link tree k y h) n = rh_left h n"
  "n \<noteq> above k \<Longrightarrow> rh_right (set_link tree k y h) n = rh_right h n"
  by (cases k rule: above.cases; simp add: set_link_def)+

lemma link_code:
  assumes "path h tree x k" "x \<noteq> NULL" "x \<notin> path_nodes k"
    "rh_left h' (above k) = rh_left h (above k)"
  shows "(if above k \<noteq> NULL then if rh_left h' (above k) = x then set_left (above k) y h'
          else set_right (above k) y h' else set_root tree y h') = set_link tree k y h'"
proof (cases k rule: above.cases)
  case (3 l n c k')
  have "tip l \<noteq> x" using assms(2,3) 3 tip_in_nodes [of l x] by auto
  then show ?thesis using assms 3 by (simp add: set_link_def good_addr_def)
qed (use assms in \<open>auto simp: set_link_def good_addr_def\<close>)

lemma path_relink:
  assumes p: "path h tree x k" and d: "distinct (before k @ after k)"
    and s: "same_at (path_nodes k) h h'" "rh_root h' tree = rh_root h tree"
  shows "path (set_link tree k y h') tree y k"
proof (cases k rule: above.cases)
  case 1
  then show ?thesis by (simp add: set_link_def)
next
  case (2 n c r k')
  have n: "n \<notin> set (nodes r)" "n \<notin> path_nodes k'" using d 2 by (auto simp: path_nodes_def)
  have g: "path h' tree x k" by (rule path_same [OF p s])
  have "same_at (set (nodes r)) h' (set_left n y h')" "same_at (path_nodes k') h' (set_left n y h')"
    using n by (auto simp: same_at_def)
  then show ?thesis using g 2 by (auto simp: set_link_def intro: shape_same path_same)
next
  case (3 l n c k')
  have n: "n \<notin> set (nodes l)" "n \<notin> path_nodes k'" using d 3 by (auto simp: path_nodes_def)
  have g: "path h' tree x k" by (rule path_same [OF p s])
  have "same_at (set (nodes l)) h' (set_right n y h')" "same_at (path_nodes k') h' (set_right n y h')"
    using n by (auto simp: same_at_def)
  then show ?thesis using g 3 by (auto simp: set_link_def intro: shape_same path_same)
qed

section \<open>Rotations\<close>

lemma rb_parent_word: "rh_parent h n = word_of p c \<Longrightarrow> p AND 1 = 0 \<Longrightarrow> rb_parent n h = p"
  by (simp only: rb_parent_def word_of_facts)

lemma rb_color_word: "rh_parent h n = word_of p c \<Longrightarrow> p AND 1 = 0 \<Longrightarrow> rb_color n h = hue_word c"
  by (simp add: rb_color_def word_of_facts)

lemma rb_set_parent_sel [simp]:
  "rh_left (rb_set_parent n q h) = rh_left h" "rh_right (rb_set_parent n q h) = rh_right h"
  "rh_root (rb_set_parent n q h) = rh_root h"
  "m \<noteq> n \<Longrightarrow> rh_parent (rb_set_parent n q h) m = rh_parent h m"
  by (simp_all add: rb_set_parent_def)

lemma rb_set_parent_word:
  "rh_parent h n = word_of p c \<Longrightarrow> p AND 1 = 0 \<Longrightarrow> q AND 1 = 0 \<Longrightarrow>
   rh_parent (rb_set_parent n q h) n = word_of q c"
  by (simp add: rb_set_parent_def word_of_reparent)

lemma rb_rotate_left_ok:
  assumes F: "focus h tree k (Nd a x c (Nd b r d e))"
  shows "\<exists>h'. rb_rotate_left x tree h = Inr h' \<and> focus h' tree k (Nd (Nd a x c b) r d e) \<and>
           same_off (set (nodes (plug k (Nd a x c (Nd b r d e))))) tree h h'"
proof -
  let ?p = "above k"
  have sh: "good_addr x" "rh_parent h x = word_of ?p c" "rh_left h x = tip a" "rh_right h x = r"
      "good_addr r" "rh_parent h r = word_of x d" "rh_left h r = tip b" "rh_right h r = tip e"
      "shape h x a" "shape h r b" "shape h r e" "path h tree x k"
    using F by (simp_all add: focus_def)
  have D: "distinct (nodes a @ x # nodes b @ r # nodes e)" "distinct (before k @ after k)"
      "set (nodes a @ x # nodes b @ r # nodes e) \<inter> path_nodes k = {}"
    using F by (simp_all add: focus_def distinct_plug)
  note [simp] = good_addrD [OF sh(1)] good_addrD [OF sh(5)] above_even [OF sh(12)]
  have pn: "?p \<noteq> x" "?p \<noteq> r" "?p \<notin> set (nodes a)" "?p \<notin> set (nodes b)" "?p \<notin> set (nodes e)"
    using D(3) above_in_path [of k] shape_null [OF sh(9)] shape_null [OF sh(10)] shape_null [OF sh(11)]
    by (cases "k = []"; auto)+
  have tb: "tip b \<noteq> x" "tip b \<noteq> r" "b \<noteq> Lf \<Longrightarrow> tip b \<in> set (nodes b)"
    using D(1) tip_in_nodes [of b x] tip_in_nodes [of b r] by (cases b; auto)+
  define h1 where "h1 = set_right x (tip b) h"
  define h2 where "h2 = (if tip b \<noteq> NULL then rb_set_parent (tip b) x h1 else h1)"
  define h3 where "h3 = set_left r x h2"
  define h4 where "h4 = rb_set_parent r ?p h3"
  define h5 where "h5 = set_link tree k r h4"
  define h6 where "h6 = rb_set_parent x r h5"
  have off4: "same_at (- {x, r, tip b}) h h4"
    by (auto simp: same_at_def h4_def h3_def h2_def h1_def)
  have root4: "rh_root h4 = rh_root h" by (simp add: h4_def h3_def h2_def h1_def)
  have run: "rb_rotate_left x tree h = Inr h6"
  proof -
    have "(if ?p \<noteq> NULL then if rh_left h4 ?p = x then set_left ?p r h4 else set_right ?p r h4
           else set_root tree r h4) = h5"
      unfolding h5_def using sh(12) D(3) pn
      by (intro link_code [where h = h]) (auto simp: h4_def h3_def h2_def h1_def)
    note link = this
    have par: "rb_parent x h = ?p" by (rule rb_parent_word [OF sh(2)]) simp
    have h1x: "rh_right h1 x = tip b" by (simp add: h1_def)
    show ?thesis
      unfolding rb_rotate_left_def Let_def par sh(4) sh(7) h1_def [symmetric] h1x h2_def [symmetric]
        h3_def [symmetric] h4_def [symmetric] link h6_def [symmetric]
      by simp
  qed
  have p5: "path h5 tree r k"
    unfolding h5_def
  proof (rule path_relink [OF sh(12) D(2)])
    have "tip b \<notin> path_nodes k" using tb(3) D(3) sh(12) path_good [OF sh(12)]
      by (cases b) (auto dest: good_addrD)
    then show "same_at (path_nodes k) h h4"
      using D(3) by (intro same_at_mono [OF off4]) auto
    show "rh_root h4 tree = rh_root h tree" by (simp add: root4)
  qed
  have off6: "same_at (- {x, r, tip b, ?p}) h h6"
    using off4 by (auto simp: same_at_def h6_def h5_def)
  have p6: "path h6 tree r k"
  proof (rule path_same [OF p5])
    have "\<forall>n\<in>path_nodes k. n \<noteq> x" using D(3) by auto
    then show "same_at (path_nodes k) h5 h6" by (simp add: same_at_def h6_def)
    show "rh_root h6 tree = rh_root h5 tree" by (simp add: h6_def)
  qed
  have sa: "shape h6 x a"
    using D(1) pn tb shape_null [OF sh(9)] shape_null [OF sh(11)]
    by (intro shape_same [OF sh(9)] same_at_mono [OF off6]) (cases b; auto)
  have se: "shape h6 r e"
    using D(1) pn tb shape_null [OF sh(9)] shape_null [OF sh(11)]
    by (intro shape_same [OF sh(11)] same_at_mono [OF off6]) (cases b; auto)
  have sb: "shape h6 x b"
  proof (rule shape_reparent [OF sh(10)])
    show "distinct (nodes b)" using D(1) by simp
    show "same_at (set (nodes b) - {tip b}) h h6"
      using D(1) pn by (intro same_at_mono [OF off6]) auto
    assume b: "b \<noteq> Lf"
    then have tp: "tip b \<noteq> ?p" "tip b \<noteq> NULL" using tb(3) pn(4) shape_null [OF sh(10)] by auto
    have "rh_parent h (tip b) = word_of r (hue b)" using sh(10) b by (cases b) simp_all
    then show "rh_parent h6 (tip b) = word_of x (hue b)"
      using tb tp by (simp add: h6_def h5_def h4_def h3_def h2_def h1_def rb_set_parent_word [where p = r])
    show "rh_left h6 (tip b) = rh_left h (tip b) \<and> rh_right h6 (tip b) = rh_right h (tip b)"
      using tb tp by (simp add: h6_def h5_def h4_def h3_def h2_def h1_def)
  qed
  have xr: "x \<noteq> r" using D(1) by auto
  have fx: "rh_left h6 x = tip a" "rh_right h6 x = tip b" "rh_left h6 r = x" "rh_right h6 r = tip e"
    using sh pn xr by (auto simp: h6_def h5_def h4_def h3_def h2_def h1_def)
  have "rh_parent h3 r = word_of x d" using tb sh(6) by (simp add: h3_def h2_def h1_def)
  then have pr: "rh_parent h6 r = word_of ?p d"
    using xr by (simp add: h6_def h5_def h4_def rb_set_parent_word [where p = x])
  have "rh_parent h5 x = word_of ?p c" using tb xr sh(2) by (simp add: h5_def h4_def h3_def h2_def h1_def)
  then have px: "rh_parent h6 x = word_of r c" by (simp add: h6_def rb_set_parent_word [where p = ?p])
  have "focus h6 tree k (Nd (Nd a x c b) r d e)"
    unfolding focus_def using D p6 sa sb se fx pr px sh(1,5) by (auto simp: distinct_plug)
  moreover have "same_off (set (nodes (plug k (Nd a x c (Nd b r d e))))) tree h h6"
  proof -
    have "{x, r} \<union> (if b = Lf then {} else {tip b}) \<union> (if k = [] then {} else {?p}) \<subseteq>
        set (nodes (plug k (Nd a x c (Nd b r d e))))"
      using tb above_in_path [of k] by (auto simp: nodes_plug path_nodes_def)
    moreover have "b = Lf \<Longrightarrow> same_at (- {x, r, ?p}) h h6"
      by (auto simp: same_at_def h6_def h5_def h4_def h3_def h2_def h1_def)
    moreover have "k = [] \<Longrightarrow> same_at (- {x, r, tip b}) h h6"
      using off4 by (auto simp: same_at_def h6_def h5_def set_link_def)
    moreover have "b = Lf \<Longrightarrow> k = [] \<Longrightarrow> same_at (- {x, r}) h h6"
      by (auto simp: same_at_def h6_def h5_def h4_def h3_def h2_def h1_def set_link_def)
    moreover have "\<forall>t. t \<noteq> tree \<longrightarrow> rh_root h6 t = rh_root h t"
      by (simp add: h6_def h5_def root4)
    ultimately show ?thesis unfolding same_off_def
      using off6 by (auto intro: same_at_mono split: if_splits)
  qed
  ultimately show ?thesis using run by blast
qed

lemma rb_rotate_right_ok:
  assumes F: "focus h tree k (Nd (Nd a r d b) x c e)"
  shows "\<exists>h'. rb_rotate_right x tree h = Inr h' \<and> focus h' tree k (Nd a r d (Nd b x c e)) \<and>
           same_off (set (nodes (plug k (Nd (Nd a r d b) x c e)))) tree h h'"
proof -
  let ?p = "above k"
  have sh: "good_addr x" "rh_parent h x = word_of ?p c" "rh_left h x = r" "rh_right h x = tip e"
      "good_addr r" "rh_parent h r = word_of x d" "rh_left h r = tip a" "rh_right h r = tip b"
      "shape h r a" "shape h r b" "shape h x e" "path h tree x k"
    using F by (simp_all add: focus_def)
  have D: "distinct (nodes a @ r # nodes b @ x # nodes e)" "distinct (before k @ after k)"
      "set (nodes a @ r # nodes b @ x # nodes e) \<inter> path_nodes k = {}"
    using F by (simp_all add: focus_def distinct_plug)
  note [simp] = good_addrD [OF sh(1)] good_addrD [OF sh(5)] above_even [OF sh(12)]
  have pn: "?p \<noteq> x" "?p \<noteq> r" "?p \<notin> set (nodes a)" "?p \<notin> set (nodes b)" "?p \<notin> set (nodes e)"
    using D(3) above_in_path [of k] shape_null [OF sh(9)] shape_null [OF sh(10)] shape_null [OF sh(11)]
    by (cases "k = []"; auto)+
  have tb: "tip b \<noteq> x" "tip b \<noteq> r" "b \<noteq> Lf \<Longrightarrow> tip b \<in> set (nodes b)"
    using D(1) tip_in_nodes [of b x] tip_in_nodes [of b r] by (cases b; auto)+
  define h1 where "h1 = set_left x (tip b) h"
  define h2 where "h2 = (if tip b \<noteq> NULL then rb_set_parent (tip b) x h1 else h1)"
  define h3 where "h3 = set_right r x h2"
  define h4 where "h4 = rb_set_parent r ?p h3"
  define h5 where "h5 = set_link tree k r h4"
  define h6 where "h6 = rb_set_parent x r h5"
  have off4: "same_at (- {x, r, tip b}) h h4"
    by (auto simp: same_at_def h4_def h3_def h2_def h1_def)
  have root4: "rh_root h4 = rh_root h" by (simp add: h4_def h3_def h2_def h1_def)
  have run: "rb_rotate_right x tree h = Inr h6"
  proof -
    have "(if ?p \<noteq> NULL then if rh_left h4 ?p = x then set_left ?p r h4 else set_right ?p r h4
           else set_root tree r h4) = h5"
      unfolding h5_def using sh(12) D(3) pn
      by (intro link_code [where h = h]) (auto simp: h4_def h3_def h2_def h1_def)
    note link = this
    have par: "rb_parent x h = ?p" by (rule rb_parent_word [OF sh(2)]) simp
    have h1x: "rh_left h1 x = tip b" by (simp add: h1_def)
    show ?thesis
      unfolding rb_rotate_right_def Let_def par sh(3) sh(8) h1_def [symmetric] h1x h2_def [symmetric]
        h3_def [symmetric] h4_def [symmetric] link h6_def [symmetric]
      by simp
  qed
  have p5: "path h5 tree r k"
    unfolding h5_def
  proof (rule path_relink [OF sh(12) D(2)])
    have "tip b \<notin> path_nodes k" using tb(3) D(3) sh(12) path_good [OF sh(12)]
      by (cases b) (auto dest: good_addrD)
    then show "same_at (path_nodes k) h h4"
      using D(3) by (intro same_at_mono [OF off4]) auto
    show "rh_root h4 tree = rh_root h tree" by (simp add: root4)
  qed
  have off6: "same_at (- {x, r, tip b, ?p}) h h6"
    using off4 by (auto simp: same_at_def h6_def h5_def)
  have p6: "path h6 tree r k"
  proof (rule path_same [OF p5])
    have "\<forall>n\<in>path_nodes k. n \<noteq> x" using D(3) by auto
    then show "same_at (path_nodes k) h5 h6" by (simp add: same_at_def h6_def)
    show "rh_root h6 tree = rh_root h5 tree" by (simp add: h6_def)
  qed
  have sa: "shape h6 r a"
    using D(1) pn tb shape_null [OF sh(9)] shape_null [OF sh(11)]
    by (intro shape_same [OF sh(9)] same_at_mono [OF off6]) (cases b; auto)
  have se: "shape h6 x e"
    using D(1) pn tb shape_null [OF sh(9)] shape_null [OF sh(11)]
    by (intro shape_same [OF sh(11)] same_at_mono [OF off6]) (cases b; auto)
  have sb: "shape h6 x b"
  proof (rule shape_reparent [OF sh(10)])
    show "distinct (nodes b)" using D(1) by simp
    show "same_at (set (nodes b) - {tip b}) h h6"
      using D(1) pn by (intro same_at_mono [OF off6]) auto
    assume b: "b \<noteq> Lf"
    then have tp: "tip b \<noteq> ?p" "tip b \<noteq> NULL" using tb(3) pn(4) shape_null [OF sh(10)] by auto
    have "rh_parent h (tip b) = word_of r (hue b)" using sh(10) b by (cases b) simp_all
    then show "rh_parent h6 (tip b) = word_of x (hue b)"
      using tb tp by (simp add: h6_def h5_def h4_def h3_def h2_def h1_def rb_set_parent_word [where p = r])
    show "rh_left h6 (tip b) = rh_left h (tip b) \<and> rh_right h6 (tip b) = rh_right h (tip b)"
      using tb tp by (simp add: h6_def h5_def h4_def h3_def h2_def h1_def)
  qed
  have xr: "x \<noteq> r" using D(1) by auto
  have fx: "rh_left h6 x = tip b" "rh_right h6 x = tip e" "rh_left h6 r = tip a" "rh_right h6 r = x"
    using sh pn xr by (auto simp: h6_def h5_def h4_def h3_def h2_def h1_def)
  have "rh_parent h3 r = word_of x d" using tb sh(6) by (simp add: h3_def h2_def h1_def)
  then have pr: "rh_parent h6 r = word_of ?p d"
    using xr by (simp add: h6_def h5_def h4_def rb_set_parent_word [where p = x])
  have "rh_parent h5 x = word_of ?p c" using tb xr sh(2) by (simp add: h5_def h4_def h3_def h2_def h1_def)
  then have px: "rh_parent h6 x = word_of r c" by (simp add: h6_def rb_set_parent_word [where p = ?p])
  have "focus h6 tree k (Nd a r d (Nd b x c e))"
    unfolding focus_def using D p6 sa sb se fx pr px sh(1,5) by (auto simp: distinct_plug)
  moreover have "same_off (set (nodes (plug k (Nd (Nd a r d b) x c e)))) tree h h6"
  proof -
    have "{x, r} \<union> (if b = Lf then {} else {tip b}) \<union> (if k = [] then {} else {?p}) \<subseteq>
        set (nodes (plug k (Nd (Nd a r d b) x c e)))"
      using tb above_in_path [of k] by (auto simp: nodes_plug path_nodes_def)
    moreover have "b = Lf \<Longrightarrow> same_at (- {x, r, ?p}) h h6"
      by (auto simp: same_at_def h6_def h5_def h4_def h3_def h2_def h1_def)
    moreover have "k = [] \<Longrightarrow> same_at (- {x, r, tip b}) h h6"
      using off4 by (auto simp: same_at_def h6_def h5_def set_link_def)
    moreover have "b = Lf \<Longrightarrow> k = [] \<Longrightarrow> same_at (- {x, r}) h h6"
      by (auto simp: same_at_def h6_def h5_def h4_def h3_def h2_def h1_def set_link_def)
    moreover have "\<forall>t. t \<noteq> tree \<longrightarrow> rh_root h6 t = rh_root h t"
      by (simp add: h6_def h5_def root4)
    ultimately show ?thesis unfolding same_off_def
      using off6 by (auto intro: same_at_mono split: if_splits)
  qed
  ultimately show ?thesis using run by blast
qed

end
