(* ===== verification/RBWalk.thy ===== *)
theory RBWalk
  imports RBShape
begin

text \<open>
  Walking a tree in order: the leftmost and rightmost node, the successor and the predecessor of a
  node, each the neighbour in the in-order list of the tree; every loop ends.
\<close>

definition first_of :: "addr list \<Rightarrow> addr" where
  "first_of xs = (case xs of [] \<Rightarrow> NULL | x # _ \<Rightarrow> x)"

definition last_of :: "addr list \<Rightarrow> addr" where
  "last_of xs = (if xs = [] then NULL else last xs)"

lemma first_of_simps [simp]:
  "first_of [] = NULL" "first_of (x # xs) = x" "xs \<noteq> [] \<Longrightarrow> first_of (xs @ ys) = first_of xs"
  by (simp_all add: first_of_def split: list.split)

lemma last_of_simps [simp]:
  "last_of [] = NULL" "last_of (xs @ [x]) = x" "ys \<noteq> [] \<Longrightarrow> last_of (xs @ ys) = last_of ys"
  by (simp_all add: last_of_def)

lemma nodes_empty [simp]: "nodes t = [] \<longleftrightarrow> t = Lf"
  by (cases t) auto

lemma leftmost_from_ok: "shape h p t \<Longrightarrow> t \<noteq> Lf \<Longrightarrow> leftmost_from (tip t) h = Some (first_of (nodes t))"
proof (induction t arbitrary: p)
  case (Nd l n c r)
  then show ?case
    using shape_tip_NULL [of h n l]
    by (subst leftmost_from.simps) (cases "l = Lf"; auto)
qed simp

lemma rightmost_from_ok: "shape h p t \<Longrightarrow> t \<noteq> Lf \<Longrightarrow> rightmost_from (tip t) h = Some (last_of (nodes t))"
proof (induction t arbitrary: p)
  case (Nd l n c r)
  then show ?case
    using shape_tip_NULL [of h n r]
    by (subst rightmost_from.simps) (cases "r = Lf"; auto simp: last_of_def)
qed simp

lemma raw_rb_leftmost_ok: "shape h p t \<Longrightarrow> raw_rb_leftmost (tip t) h = Some (first_of (nodes t))"
  using leftmost_from_ok [of h p t] shape_tip_NULL [of h p t] by (auto simp: raw_rb_leftmost_def)

lemma raw_rb_rightmost_ok: "shape h p t \<Longrightarrow> raw_rb_rightmost (tip t) h = Some (last_of (nodes t))"
  using rightmost_from_ok [of h p t] shape_tip_NULL [of h p t] by (auto simp: raw_rb_rightmost_def)

lemma rb_leftmost_ok: "holds h tree t \<Longrightarrow> rb_leftmost tree h = Some (first_of (nodes t))"
  by (auto simp: rb_leftmost_def holds_def intro: raw_rb_leftmost_ok)

lemma rb_rightmost_ok: "holds h tree t \<Longrightarrow> rb_rightmost tree h = Some (last_of (nodes t))"
  by (auto simp: rb_rightmost_def holds_def intro: raw_rb_rightmost_ok)

lemma climb_right_ok:
  "path h tree x k \<Longrightarrow> x \<noteq> NULL \<Longrightarrow> x \<notin> path_nodes k \<Longrightarrow> distinct (before k @ after k) \<Longrightarrow>
   climb_right (above k) x h = Some (first_of (after k))"
proof (induction k arbitrary: x rule: before.induct)
  case 1
  then show ?case by (subst climb_right.simps) simp
next
  case (2 n c r k)
  then have "tip r \<noteq> x" using tip_in_nodes [of r x] by auto
  then show ?case using 2 by (subst climb_right.simps) simp
next
  case (3 l n c k)
  then have "n \<notin> path_nodes k" by (auto simp: path_nodes_def)
  moreover have "rb_parent n h = above k"
    using 3 above_even [of h tree n k] by (intro rb_parent_word) simp_all
  ultimately show ?case using 3 by (subst climb_right.simps) (simp add: good_addr_def Int_Un_distrib2 Int_Un_distrib)
qed

lemma climb_left_ok:
  "path h tree x k \<Longrightarrow> x \<noteq> NULL \<Longrightarrow> x \<notin> path_nodes k \<Longrightarrow> distinct (before k @ after k) \<Longrightarrow>
   climb_left (above k) x h = Some (last_of (before k))"
proof (induction k arbitrary: x rule: before.induct)
  case 1
  then show ?case by (subst climb_left.simps) simp
next
  case (2 n c r k)
  then have "n \<notin> path_nodes k" by (auto simp: path_nodes_def)
  moreover have "rb_parent n h = above k"
    using 2 above_even [of h tree n k] by (intro rb_parent_word) simp_all
  ultimately show ?case using 2 by (subst climb_left.simps) (simp add: good_addr_def Int_Un_distrib)
next
  case (3 l n c k)
  then have "tip l \<noteq> x" using tip_in_nodes [of l x] by auto
  then show ?case using 3 by (subst climb_left.simps) simp
qed

lemma focus_nodeD:
  assumes "focus h tree k (Nd l n c r)"
  shows "path h tree n k" "n \<noteq> NULL" "n \<notin> path_nodes k" "distinct (before k @ after k)"
    "shape h n l" "shape h n r" "rh_left h n = tip l" "rh_right h n = tip r"
    "rb_parent n h = above k" "rb_color n h = hue_word c" "rh_parent h n = word_of (above k) c"
    "good_addr n" "n \<notin> set (nodes l)" "n \<notin> set (nodes r)"
proof -
  show p: "path h tree n k" and w: "rh_parent h n = word_of (above k) c" and g: "good_addr n"
    and "shape h n l" "shape h n r" "rh_left h n = tip l" "rh_right h n = tip r"
    using assms by (simp_all add: focus_def)
  show "n \<noteq> NULL" using g by (simp add: good_addr_def)
  show "n \<notin> path_nodes k" "distinct (before k @ after k)" "n \<notin> set (nodes l)" "n \<notin> set (nodes r)"
    using assms by (simp_all add: focus_def distinct_plug)
  show "rb_parent n h = above k" by (rule rb_parent_word [OF w above_even [OF p]])
  show "rb_color n h = hue_word c" by (rule rb_color_word [OF w above_even [OF p]])
qed

lemma rb_next_focus:
  assumes "focus h tree k (Nd l n c r)"
  shows "rb_next n h = Some (first_of (nodes r @ after k))"
proof (cases "r = Lf")
  case True
  then show ?thesis using focus_nodeD [OF assms] climb_right_ok [of h tree n k] by (simp add: rb_next_def)
next
  case False
  then show ?thesis
    using focus_nodeD [OF assms] shape_tip_NULL [of h n r] by (simp add: rb_next_def raw_rb_leftmost_ok)
qed

lemma rb_prev_focus:
  assumes "focus h tree k (Nd l n c r)"
  shows "rb_prev n h = Some (last_of (before k @ nodes l))"
proof (cases "l = Lf")
  case True
  then show ?thesis using focus_nodeD [OF assms] climb_left_ok [of h tree n k] by (simp add: rb_prev_def)
next
  case False
  then show ?thesis
    using focus_nodeD [OF assms] shape_tip_NULL [of h n l] by (simp add: rb_prev_def raw_rb_rightmost_ok)
qed

text \<open>Every node of a tree is the top of a subtree under some path.\<close>

lemma plug_append: "plug (k @ k') t = plug k' (plug k t)"
  by (induction k t rule: plug.induct) simp_all

lemma find_node: "n \<in> set (nodes t) \<Longrightarrow> \<exists>k l c r. t = plug k (Nd l n c r)"
proof (induction t)
  case (Nd l m c r)
  consider "m = n" | "n \<in> set (nodes l)" | "n \<in> set (nodes r)" using Nd.prems by auto
  then show ?case
  proof cases
    case 1
    then have "Nd l m c r = plug [] (Nd l n c r)" by simp
    then show ?thesis by metis
  next
    case 2
    then obtain k l' c' r' where "l = plug k (Nd l' n c' r')" using Nd.IH(1) by metis
    then have "Nd l m c r = plug (k @ [InLeft m c r]) (Nd l' n c' r')" by (simp add: plug_append)
    then show ?thesis by metis
  next
    case 3
    then obtain k l' c' r' where "r = plug k (Nd l' n c' r')" using Nd.IH(2) by metis
    then have "Nd l m c r = plug (k @ [InRight l m c]) (Nd l' n c' r')" by (simp add: plug_append)
    then show ?thesis by metis
  qed
qed simp

lemma distinct_split_unique:
  assumes "xs @ n # ys = us @ n # vs" "distinct (xs @ n # ys)"
  shows "xs = us" "ys = vs"
proof -
  have "n \<notin> set xs" "n \<notin> set ys" using assms(2) by auto
  then show "xs = us" "ys = vs" using assms(1) by (simp_all add: append_Cons_eq_iff)
qed

lemma focus_at:
  assumes "holds h tree t" "nodes t = xs @ n # ys"
  obtains k l c r where "t = plug k (Nd l n c r)" "focus h tree k (Nd l n c r)"
    "xs = before k @ nodes l" "ys = nodes r @ after k"
proof -
  obtain k l c r where t: "t = plug k (Nd l n c r)" using find_node [of n t] assms(2) by auto
  have f: "focus h tree k (Nd l n c r)" using assms(1) by (simp add: t holds_plug)
  have e: "xs @ n # ys = (before k @ nodes l) @ n # (nodes r @ after k)"
    using assms(2) by (simp add: t nodes_plug)
  have "distinct (xs @ n # ys)" using assms by (simp add: holds_def)
  from distinct_split_unique [OF e this] show thesis by (rule that [OF t f])
qed

lemma rb_next_ok: "holds h tree t \<Longrightarrow> nodes t = xs @ n # ys \<Longrightarrow> rb_next n h = Some (first_of ys)"
proof -
  assume a: "holds h tree t" "nodes t = xs @ n # ys"
  obtain k l c r where "t = plug k (Nd l n c r)" "focus h tree k (Nd l n c r)"
    "xs = before k @ nodes l" "ys = nodes r @ after k"
    by (rule focus_at [OF a])
  then show ?thesis by (simp add: rb_next_focus)
qed

lemma rb_prev_ok: "holds h tree t \<Longrightarrow> nodes t = xs @ n # ys \<Longrightarrow> rb_prev n h = Some (last_of xs)"
proof -
  assume a: "holds h tree t" "nodes t = xs @ n # ys"
  obtain k l c r where "t = plug k (Nd l n c r)" "focus h tree k (Nd l n c r)"
    "xs = before k @ nodes l" "ys = nodes r @ after k"
    by (rule focus_at [OF a])
  then show ?thesis by (simp add: rb_prev_focus)
qed

end
