(* ===== verification/RBInsert.thy ===== *)
theory RBInsert
  imports RBWalk
begin

text \<open>
  The balance of a tree (\<open>invc\<close>, \<open>invh\<close>) and insertion: \<^verbatim>\<open>rb_insert\<close> on a node linked as a leaf
  ends, follows no null pointer, keeps the in-order list and gives a balanced tree again.
\<close>

section \<open>Balance\<close>

fun bheight :: "rtree \<Rightarrow> nat" where
  "bheight Lf = 0"
| "bheight (Nd l n c r) = bheight l + (if c = Black then 1 else 0)"

fun invc :: "rtree \<Rightarrow> bool" where
  "invc Lf \<longleftrightarrow> True"
| "invc (Nd l n c r) \<longleftrightarrow> (c = Red \<longrightarrow> hue l = Black \<and> hue r = Black) \<and> invc l \<and> invc r"

fun invh :: "rtree \<Rightarrow> bool" where
  "invh Lf \<longleftrightarrow> True"
| "invh (Nd l n c r) \<longleftrightarrow> bheight l = bheight r \<and> invh l \<and> invh r"

definition balanced :: "rtree \<Rightarrow> bool" where
  "balanced t \<longleftrightarrow> invc t \<and> invh t \<and> hue t = Black"

text \<open>The paths a balanced subtree of black height \<open>b\<close> completes to a balanced tree.\<close>

fun path_ok :: "rstep list \<Rightarrow> nat \<Rightarrow> bool" where
  "path_ok [] b \<longleftrightarrow> True"
| "path_ok (InLeft n c r # k) b \<longleftrightarrow>
     invc r \<and> invh r \<and> bheight r = b \<and>
     (c = Red \<longrightarrow> hue r = Black \<and> above_hue k = Black \<and> k \<noteq> []) \<and>
     path_ok k (b + (if c = Black then 1 else 0))"
| "path_ok (InRight l n c # k) b \<longleftrightarrow>
     invc l \<and> invh l \<and> bheight l = b \<and>
     (c = Red \<longrightarrow> hue l = Black \<and> above_hue k = Black \<and> k \<noteq> []) \<and>
     path_ok k (b + (if c = Black then 1 else 0))"

lemma not_Red [simp]: "c \<noteq> Red \<longleftrightarrow> c = Black" "c \<noteq> Black \<longleftrightarrow> c = Red"
  by (cases c; simp)+

lemma balanced_plug:
  "balanced (plug k t) \<longleftrightarrow>
     invc t \<and> invh t \<and> path_ok k (bheight t) \<and>
     (hue t = Red \<longrightarrow> above_hue k = Black \<and> k \<noteq> [])"
proof (induction k t rule: plug.induct)
  case (1 t)
  then show ?case by (auto simp: balanced_def)
qed (auto split: if_splits)

lemma balanced_paint_Black: "balanced t \<Longrightarrow> balanced (paint Black t)"
  by (cases t) (auto simp: balanced_def)

lemma balanced_paint: "invc t \<Longrightarrow> invh t \<Longrightarrow> balanced (paint Black t)"
  by (cases t) (auto simp: balanced_def)

section \<open>Colours\<close>

lemma rb_set_color_sel [simp]:
  "rh_left (rb_set_color n q h) = rh_left h" "rh_right (rb_set_color n q h) = rh_right h"
  "rh_root (rb_set_color n q h) = rh_root h"
  "m \<noteq> n \<Longrightarrow> rh_parent (rb_set_color n q h) m = rh_parent h m"
  by (simp_all add: rb_set_color_def)

lemma rb_set_color_focus:
  assumes F: "focus h tree k (Nd l n c r)"
  shows "focus (rb_set_color n (hue_word d) h) tree k (Nd l n d r)"
proof -
  note D = focus_nodeD [OF F]
  let ?h = "rb_set_color n (hue_word d) h"
  have s: "same_at (- {n}) h ?h" by (simp add: same_at_def)
  have w: "rh_parent ?h n = word_of (above k) d"
    unfolding rb_set_color_def D(11) word_of_facts(3) [OF above_even [OF D(1)]] by simp
  have "shape ?h n l" "shape ?h n r"
    using D by (auto intro!: shape_same [where h = h] same_at_mono [OF s])
  moreover have "path ?h tree n k"
    using D by (intro path_same [OF D(1)] same_at_mono [OF s]) auto
  ultimately show ?thesis using F w by (simp add: focus_def distinct_plug)
qed

lemma rb_set_color_off: "n \<in> A \<Longrightarrow> same_off A tree h (rb_set_color n q h)"
proof -
  assume "n \<in> A"
  then have "\<forall>a\<in>- A. a \<noteq> n" by auto
  then show ?thesis by (simp add: same_off_def same_at_def)
qed

lemma rb_red_tip: "shape h p t \<Longrightarrow> p AND 1 = 0 \<Longrightarrow> rb_red (tip t) h \<longleftrightarrow> hue t = Red"
  by (cases t) (auto simp: rb_red_def good_addr_def rb_color_word)

lemma rb_red_above: "path h tree x k \<Longrightarrow> rb_red (above k) h \<longleftrightarrow> above_hue k = Red \<and> k \<noteq> []"
proof (cases k rule: above.cases)
  case (2 n c r k')
  assume p: "path h tree x k"
  then have "rb_color n h = hue_word c"
    using 2 above_even [of h tree n k'] by (intro rb_color_word) simp_all
  then show ?thesis using p 2 by (simp add: rb_red_def good_addr_def)
next
  case (3 l n c k')
  assume p: "path h tree x k"
  then have "rb_color n h = hue_word c"
    using 3 above_even [of h tree n k'] by (intro rb_color_word) simp_all
  then show ?thesis using p 3 by (simp add: rb_red_def good_addr_def)
qed (simp add: rb_red_def)

section \<open>Local changes\<close>

text \<open>
  \<open>becomes tree k t h t' h'\<close>: under the path \<open>k\<close> the heap \<open>h'\<close> has the subtree \<open>t'\<close> where \<open>h\<close> has
  \<open>t\<close>, with the same nodes in the same order, and nothing outside the tree has changed.
\<close>

definition becomes :: "addr \<Rightarrow> rstep list \<Rightarrow> rtree \<Rightarrow> rheap \<Rightarrow> rtree \<Rightarrow> rheap \<Rightarrow> bool" where
  "becomes tree k t h t' h' \<longleftrightarrow>
     focus h' tree k t' \<and> nodes t' = nodes t \<and> same_off (set (nodes (plug k t))) tree h h'"

lemma becomes_refl: "focus h tree k t \<Longrightarrow> becomes tree k t h t h"
  by (simp add: becomes_def)

lemma becomes_trans:
  "becomes tree k t h t1 h1 \<Longrightarrow> becomes tree k t1 h1 t2 h2 \<Longrightarrow> becomes tree k t h t2 h2"
  by (auto simp: becomes_def nodes_plug intro: same_off_trans)

lemma becomes_focus: "becomes tree k t h t' h' \<Longrightarrow> focus h' tree k t'"
  by (simp add: becomes_def)

lemma focus_plug: "focus h tree k (plug k' t) \<longleftrightarrow> focus h tree (k' @ k) t"
  by (simp flip: holds_plug add: plug_append)

lemma becomes_plug:
  "becomes tree (k' @ k) t h t' h' \<longleftrightarrow>
   focus h' tree k (plug k' t') \<and> nodes t' = nodes t \<and> same_off (set (nodes (plug k (plug k' t)))) tree h h'"
  by (simp add: becomes_def plug_append focus_plug)

lemma becomes_inside:
  "becomes tree (k' @ k) t h t' h' \<Longrightarrow> becomes tree k (plug k' t) h (plug k' t') h'"
  unfolding becomes_plug by (simp add: becomes_def nodes_plug)

lemma recolor_becomes:
  assumes "focus h tree k (plug k' (Nd l n c r))"
  shows "becomes tree k (plug k' (Nd l n c r)) h (plug k' (Nd l n d r)) (rb_set_color n (hue_word d) h)"
proof (rule becomes_inside)
  show "becomes tree (k' @ k) (Nd l n c r) h (Nd l n d r) (rb_set_color n (hue_word d) h)"
    using assms by (simp add: becomes_def focus_plug rb_set_color_focus rb_set_color_off nodes_plug)
qed

lemma recolor_top:
  "focus h tree k (Nd l n c r) \<Longrightarrow> becomes tree k (Nd l n c r) h (Nd l n d r) (rb_set_color n (hue_word d) h)"
  using recolor_becomes [of h tree k "[]" l n c r d] by simp

lemma rotate_left_becomes:
  assumes "focus h tree k (plug k' (Nd a x c (Nd b r d e)))"
  obtains h' where "rb_rotate_left x tree h = Inr h'"
    "becomes tree k (plug k' (Nd a x c (Nd b r d e))) h (plug k' (Nd (Nd a x c b) r d e)) h'"
proof -
  obtain h' where h': "rb_rotate_left x tree h = Inr h'" "focus h' tree (k' @ k) (Nd (Nd a x c b) r d e)"
      "same_off (set (nodes (plug (k' @ k) (Nd a x c (Nd b r d e))))) tree h h'"
    using rb_rotate_left_ok [of h tree "k' @ k" a x c b r d e] assms unfolding focus_plug by blast
  show thesis by (rule that [OF h'(1)], rule becomes_inside) (use h'(2,3) in \<open>simp add: becomes_def\<close>)
qed

lemma rotate_right_becomes:
  assumes "focus h tree k (plug k' (Nd (Nd a r d b) x c e))"
  obtains h' where "rb_rotate_right x tree h = Inr h'"
    "becomes tree k (plug k' (Nd (Nd a r d b) x c e)) h (plug k' (Nd a r d (Nd b x c e))) h'"
proof -
  obtain h' where h': "rb_rotate_right x tree h = Inr h'" "focus h' tree (k' @ k) (Nd a r d (Nd b x c e))"
      "same_off (set (nodes (plug (k' @ k) (Nd (Nd a r d b) x c e)))) tree h h'"
    using rb_rotate_right_ok [of h tree "k' @ k" a r d b x c e] assms unfolding focus_plug by blast
  show thesis by (rule that [OF h'(1)], rule becomes_inside) (use h'(2,3) in \<open>simp add: becomes_def\<close>)
qed

section \<open>The turns of insertion\<close>

lemma insert_turn_left_outer:
  assumes F: "focus h tree k (Nd (Nd a p Red b) g Black u)" and n: "a \<noteq> Lf"
  shows "\<exists>h'. insert_turn_left (tip a) p g tree h = Inr h' \<and>
           becomes tree k (Nd (Nd a p Red b) g Black u) h (Nd a p Black (Nd b g Red u)) h'"
proof -
  have "rh_right h p = tip b" "tip a \<noteq> NULL" using F n by (auto simp: focus_def shape_tip_NULL)
  moreover have "set (nodes a) \<inter> set (nodes b) = {}" using F by (auto simp: focus_def distinct_plug)
  ultimately have nr: "tip a \<noteq> rh_right h p"
    using tip_in_nodes [of a "tip a"] tip_in_nodes [of b "tip a"] by auto
  obtain h1 where h1: "rb_rotate_right g tree h = Inr h1"
      "becomes tree k (Nd (Nd a p Red b) g Black u) h (Nd a p Red (Nd b g Black u)) h1"
    using rotate_right_becomes [of h tree k "[]" a p Red b g Black u] F by auto
  let ?h2 = "rb_set_color p (hue_word Black) h1"
  have h2: "becomes tree k (Nd a p Red (Nd b g Black u)) h1 (Nd a p Black (Nd b g Black u)) ?h2"
    by (rule recolor_top [OF becomes_focus [OF h1(2)]])
  have h3: "becomes tree k (Nd a p Black (Nd b g Black u)) ?h2 (Nd a p Black (Nd b g Red u))
      (rb_set_color g (hue_word Red) ?h2)"
    using recolor_becomes [of ?h2 tree k "[InRight a p Black]" b g Black u Red]
      becomes_focus [OF h2] by simp
  show ?thesis
    using becomes_trans [OF becomes_trans [OF h1(2) h2] h3] nr h1(1)
    by (simp add: insert_turn_left_def rb_set_red_def rb_set_black_def)
qed

lemma insert_turn_left_inner:
  assumes F: "focus h tree k (Nd (Nd a p Red (Nd bl m Red br)) g Black u)"
  shows "\<exists>h'. insert_turn_left m p g tree h = Inr h' \<and>
           becomes tree k (Nd (Nd a p Red (Nd bl m Red br)) g Black u) h
             (Nd (Nd a p Red bl) m Black (Nd br g Red u)) h'"
proof -
  have nr: "rh_right h p = m" using F by (simp add: focus_def)
  obtain h1 where h1: "rb_rotate_left p tree h = Inr h1"
      "becomes tree k (Nd (Nd a p Red (Nd bl m Red br)) g Black u) h
        (Nd (Nd (Nd a p Red bl) m Red br) g Black u) h1"
    using rotate_left_becomes [of h tree k "[InLeft g Black u]" a p Red bl m Red br] F by auto
  obtain h2 where h2: "rb_rotate_right g tree h1 = Inr h2"
      "becomes tree k (Nd (Nd (Nd a p Red bl) m Red br) g Black u) h1
        (Nd (Nd a p Red bl) m Red (Nd br g Black u)) h2"
    using rotate_right_becomes [of h1 tree k "[]" "Nd a p Red bl" m Red br g Black u]
      becomes_focus [OF h1(2)] by auto
  let ?h3 = "rb_set_color m (hue_word Black) h2"
  have h3: "becomes tree k (Nd (Nd a p Red bl) m Red (Nd br g Black u)) h2
      (Nd (Nd a p Red bl) m Black (Nd br g Black u)) ?h3"
    by (rule recolor_top [OF becomes_focus [OF h2(2)]])
  have h4: "becomes tree k (Nd (Nd a p Red bl) m Black (Nd br g Black u)) ?h3
      (Nd (Nd a p Red bl) m Black (Nd br g Red u)) (rb_set_color g (hue_word Red) ?h3)"
    using recolor_becomes [of ?h3 tree k "[InRight (Nd a p Red bl) m Black]" br g Black u Red]
      becomes_focus [OF h3] by simp
  show ?thesis
    using becomes_trans [OF becomes_trans [OF becomes_trans [OF h1(2) h2(2)] h3] h4] nr h1(1) h2(1)
    by (simp add: insert_turn_left_def rb_set_red_def rb_set_black_def)
qed

lemma insert_turn_right_outer:
  assumes F: "focus h tree k (Nd u g Black (Nd b p Red a))" and n: "a \<noteq> Lf"
  shows "\<exists>h'. insert_turn_right (tip a) p g tree h = Inr h' \<and>
           becomes tree k (Nd u g Black (Nd b p Red a)) h (Nd (Nd u g Red b) p Black a) h'"
proof -
  have "rh_left h p = tip b" "tip a \<noteq> NULL" using F n by (auto simp: focus_def shape_tip_NULL)
  moreover have "set (nodes a) \<inter> set (nodes b) = {}" using F by (auto simp: focus_def distinct_plug)
  ultimately have nr: "tip a \<noteq> rh_left h p"
    using tip_in_nodes [of a "tip a"] tip_in_nodes [of b "tip a"] by auto
  obtain h1 where h1: "rb_rotate_left g tree h = Inr h1"
      "becomes tree k (Nd u g Black (Nd b p Red a)) h (Nd (Nd u g Black b) p Red a) h1"
    using rotate_left_becomes [of h tree k "[]" u g Black b p Red a] F by auto
  let ?h2 = "rb_set_color p (hue_word Black) h1"
  have h2: "becomes tree k (Nd (Nd u g Black b) p Red a) h1 (Nd (Nd u g Black b) p Black a) ?h2"
    by (rule recolor_top [OF becomes_focus [OF h1(2)]])
  have h3: "becomes tree k (Nd (Nd u g Black b) p Black a) ?h2 (Nd (Nd u g Red b) p Black a)
      (rb_set_color g (hue_word Red) ?h2)"
    using recolor_becomes [of ?h2 tree k "[InLeft p Black a]" u g Black b Red]
      becomes_focus [OF h2] by simp
  show ?thesis
    using becomes_trans [OF becomes_trans [OF h1(2) h2] h3] nr h1(1)
    by (simp add: insert_turn_right_def rb_set_red_def rb_set_black_def)
qed

lemma insert_turn_right_inner:
  assumes F: "focus h tree k (Nd u g Black (Nd (Nd bl m Red br) p Red a))"
  shows "\<exists>h'. insert_turn_right m p g tree h = Inr h' \<and>
           becomes tree k (Nd u g Black (Nd (Nd bl m Red br) p Red a)) h
             (Nd (Nd u g Red bl) m Black (Nd br p Red a)) h'"
proof -
  have nr: "rh_left h p = m" using F by (simp add: focus_def)
  obtain h1 where h1: "rb_rotate_right p tree h = Inr h1"
      "becomes tree k (Nd u g Black (Nd (Nd bl m Red br) p Red a)) h
        (Nd u g Black (Nd bl m Red (Nd br p Red a))) h1"
    using rotate_right_becomes [of h tree k "[InRight u g Black]" bl m Red br p Red a] F by auto
  obtain h2 where h2: "rb_rotate_left g tree h1 = Inr h2"
      "becomes tree k (Nd u g Black (Nd bl m Red (Nd br p Red a))) h1
        (Nd (Nd u g Black bl) m Red (Nd br p Red a)) h2"
    using rotate_left_becomes [of h1 tree k "[]" u g Black bl m Red "Nd br p Red a"]
      becomes_focus [OF h1(2)] by auto
  let ?h3 = "rb_set_color m (hue_word Black) h2"
  have h3: "becomes tree k (Nd (Nd u g Black bl) m Red (Nd br p Red a)) h2
      (Nd (Nd u g Black bl) m Black (Nd br p Red a)) ?h3"
    by (rule recolor_top [OF becomes_focus [OF h2(2)]])
  have h4: "becomes tree k (Nd (Nd u g Black bl) m Black (Nd br p Red a)) ?h3
      (Nd (Nd u g Red bl) m Black (Nd br p Red a)) (rb_set_color g (hue_word Red) ?h3)"
    using recolor_becomes [of ?h3 tree k "[InLeft m Black (Nd br p Red a)]" u g Black bl Red]
      becomes_focus [OF h3] by simp
  show ?thesis
    using becomes_trans [OF becomes_trans [OF becomes_trans [OF h1(2) h2(2)] h3] h4] nr h1(1) h2(1)
    by (simp add: insert_turn_right_def rb_set_red_def rb_set_black_def)
qed

lemma insert_recolor_left:
  assumes F: "focus h tree k (Nd (Nd a p Red b) g Black (Nd x w Red y))"
  shows "becomes tree k (Nd (Nd a p Red b) g Black (Nd x w Red y)) h
    (Nd (Nd a p Black b) g Red (Nd x w Black y)) (insert_recolor g p w h)"
proof -
  let ?h1 = "rb_set_color g (hue_word Red) h"
  let ?h2 = "rb_set_color p (hue_word Black) ?h1"
  have h1: "becomes tree k (Nd (Nd a p Red b) g Black (Nd x w Red y)) h
      (Nd (Nd a p Red b) g Red (Nd x w Red y)) ?h1"
    by (rule recolor_top [OF F])
  have h2: "becomes tree k (Nd (Nd a p Red b) g Red (Nd x w Red y)) ?h1
      (Nd (Nd a p Black b) g Red (Nd x w Red y)) ?h2"
    using recolor_becomes [of ?h1 tree k "[InLeft g Red (Nd x w Red y)]" a p Red b Black]
      becomes_focus [OF h1] by simp
  have h3: "becomes tree k (Nd (Nd a p Black b) g Red (Nd x w Red y)) ?h2
      (Nd (Nd a p Black b) g Red (Nd x w Black y)) (rb_set_color w (hue_word Black) ?h2)"
    using recolor_becomes [of ?h2 tree k "[InRight (Nd a p Black b) g Red]" x w Red y Black]
      becomes_focus [OF h2] by simp
  show ?thesis using becomes_trans [OF becomes_trans [OF h1 h2] h3]
    by (simp add: insert_recolor_def rb_set_red_def rb_set_black_def)
qed

lemma insert_recolor_right:
  assumes F: "focus h tree k (Nd (Nd x w Red y) g Black (Nd a p Red b))"
  shows "becomes tree k (Nd (Nd x w Red y) g Black (Nd a p Red b)) h
    (Nd (Nd x w Black y) g Red (Nd a p Black b)) (insert_recolor g p w h)"
proof -
  let ?h1 = "rb_set_color g (hue_word Red) h"
  let ?h2 = "rb_set_color p (hue_word Black) ?h1"
  have h1: "becomes tree k (Nd (Nd x w Red y) g Black (Nd a p Red b)) h
      (Nd (Nd x w Red y) g Red (Nd a p Red b)) ?h1"
    by (rule recolor_top [OF F])
  have h2: "becomes tree k (Nd (Nd x w Red y) g Red (Nd a p Red b)) ?h1
      (Nd (Nd x w Red y) g Red (Nd a p Black b)) ?h2"
    using recolor_becomes [of ?h1 tree k "[InRight (Nd x w Red y) g Red]" a p Red b Black]
      becomes_focus [OF h1] by simp
  have h3: "becomes tree k (Nd (Nd x w Red y) g Red (Nd a p Black b)) ?h2
      (Nd (Nd x w Black y) g Red (Nd a p Black b)) (rb_set_color w (hue_word Black) ?h2)"
    using recolor_becomes [of ?h2 tree k "[InLeft g Red (Nd a p Black b)]" x w Red y Black]
      becomes_focus [OF h2] by simp
  show ?thesis using becomes_trans [OF becomes_trans [OF h1 h2] h3]
    by (simp add: insert_recolor_def rb_set_red_def rb_set_black_def)
qed


section \<open>The loop\<close>

definition fixed :: "addr \<Rightarrow> rtree \<Rightarrow> rheap \<Rightarrow> rheap \<Rightarrow> bool" where
  "fixed tree t h h' \<longleftrightarrow> (\<exists>t'. becomes tree [] t h t' h' \<and> t' \<noteq> Lf \<and> balanced (paint Black t'))"

lemma plug_Lf [simp]: "plug k t = Lf \<longleftrightarrow> k = [] \<and> t = Lf"
  by (induction k t rule: plug.induct) auto

lemma becomes_top: "becomes tree k t h t' h' \<Longrightarrow> becomes tree [] (plug k t) h (plug k t') h'"
  using becomes_inside [of tree k "[]"] by simp

lemma fixed_stop:
  assumes "becomes tree k t h t2 h2" "t2 \<noteq> Lf" "invc t2" "invh t2" "path_ok k (bheight t2)" "hue t2 = Black"
  shows "fixed tree (plug k t) h h2"
proof -
  have "balanced (plug k t2)" using assms by (simp add: balanced_plug)
  then have "balanced (paint Black (plug k t2))" by (rule balanced_paint_Black)
  then show ?thesis using becomes_top [OF assms(1)] assms(2) by (auto simp: fixed_def)
qed

lemma fixed_step: "becomes tree k t h t1 h1 \<Longrightarrow> fixed tree (plug k t1) h1 h2 \<Longrightarrow> fixed tree (plug k t) h h2"
  unfolding fixed_def by (blast dest: becomes_top intro: becomes_trans)

definition subtree_ok :: "nat \<Rightarrow> rtree \<Rightarrow> bool" where
  "subtree_ok b t \<longleftrightarrow> invc t \<and> invh t \<and> bheight t = b \<and> hue t = Black"

lemma rb_insert_loop_ok:
  assumes "focus h tree k (Nd l n Red r)" "path_ok k b" "subtree_ok b l" "subtree_ok b r"
  shows "\<exists>h'. rb_insert_loop n (above k) tree h = Some (Inr h') \<and> fixed tree (plug k (Nd l n Red r)) h h'"
  using assms
proof (induction "length k" arbitrary: k l n r h b rule: less_induct)
  case less
  note F = less.prems(1) and ok = less.prems(2) and sub = less.prems(3,4) [unfolded subtree_ok_def]
  have pk: "path h tree n k" and nN: "n \<noteq> NULL" using focus_nodeD [OF F] by simp_all
  have loop: "rb_insert_loop n p tree h =
      (if rb_red p h then let g = rb_parent p h in
         if g = NULL then Some (Inl (Fault ''rb_insert''))
         else if p = rh_left h g then let r = rh_right h g in
           if rb_red r h then let h = insert_recolor g p r h in rb_insert_loop g (rb_parent g h) tree h
           else Some (insert_turn_left n p g tree h)
         else let l = rh_left h g in
           if rb_red l h then let h = insert_recolor g p l h in rb_insert_loop g (rb_parent g h) tree h
           else Some (insert_turn_right n p g tree h)
       else Some (Inr h))" for p
    by (subst rb_insert_loop.simps) simp
  have again: ?case
    if b1: "becomes tree k' (plug k1 (Nd l n Red r)) h (Nd l' g Red r') h1" and k: "k = k1 @ k'" "k1 \<noteq> []"
      and run: "rb_insert_loop n (above k) tree h = rb_insert_loop g (rb_parent g h1) tree h1"
      and rest: "path_ok k' b'" "subtree_ok b' l'" "subtree_ok b' r'" for k1 k' l' g r' h1 b'
  proof -
    have "rb_parent g h1 = above k'" using focus_nodeD(9) [OF becomes_focus [OF b1]] .
    moreover obtain h' where "rb_insert_loop g (above k') tree h1 = Some (Inr h')"
        "fixed tree (plug k' (Nd l' g Red r')) h1 h'"
      using less.hyps [OF _ becomes_focus [OF b1] rest] k by auto
    ultimately show ?thesis using run fixed_step [OF b1] k by (auto simp: plug_append)
  qed
  have leave: ?case
    if b1: "becomes tree k' (plug k1 (Nd l n Red r)) h t2 h1" and k: "k = k1 @ k'"
      and run: "rb_insert_loop n (above k) tree h = Some (Inr h1)"
      and rest: "t2 \<noteq> Lf" "invc t2" "invh t2" "path_ok k' (bheight t2)" "hue t2 = Black" for k1 k' t2 h1
    using fixed_stop [OF b1 rest] run k by (auto simp: plug_append)
  show ?case
  proof (cases "above_hue k = Red \<and> k \<noteq> []")
    case False
    then have "rb_insert_loop n (above k) tree h = Some (Inr h)"
      using rb_red_above [OF pk] by (subst loop) auto
    moreover have "balanced (paint Black (plug k (Nd l n Red r)))"
    proof (cases "k = []")
      case True
      then show ?thesis using sub by (simp add: balanced_def)
    next
      case False2: False
      then have "balanced (plug k (Nd l n Red r))" using False sub ok by (simp add: balanced_plug)
      then show ?thesis by (rule balanced_paint_Black)
    qed
    ultimately show ?thesis
      using becomes_top [OF becomes_refl [OF F]] by (auto simp: fixed_def)
  next
    case True
    then have red: "rb_red (above k) h" using rb_red_above [OF pk] by simp
    consider (LL) p q g v k' where "k = InLeft p Red q # InLeft g Black v # k'"
      | (RL) p q g v k' where "k = InRight q p Red # InLeft g Black v # k'"
      | (LR) p q g v k' where "k = InLeft p Red q # InRight v g Black # k'"
      | (RR) p q g v k' where "k = InRight q p Red # InRight v g Black # k'"
      using True ok by (cases k rule: above.cases; cases "tl k" rule: above.cases; auto)
    then show ?thesis
    proof cases
      case LL
      have F1: "focus h tree (InLeft g Black v # k') (Nd (Nd l n Red r) p Red q)"
        using F LL by (simp add: focus_plug flip: holds_plug)
      have F2: "focus h tree k' (Nd (Nd (Nd l n Red r) p Red q) g Black v)"
        using F LL by (simp flip: holds_plug)
      note D1 = focus_nodeD [OF F1] and D2 = focus_nodeD [OF F2]
      show ?thesis
      proof (cases "hue v = Red")
        case True
        then obtain x w y where v: "v = Nd x w Red y" by (cases v) auto
        have "rb_red w h" using rb_red_tip [OF D2(6)] D2(12) v by (simp add: good_addr_def)
        then have run: "rb_insert_loop n (above k) tree h =
            rb_insert_loop g (rb_parent g (insert_recolor g p w h)) tree (insert_recolor g p w h)"
          using red LL v D1(9) D2(2,7,8) by (subst loop) (simp add: Let_def)
        show ?thesis
          using insert_recolor_left [of h tree k' "Nd l n Red r" p q g x w y] F2 ok sub LL v
          by (intro again [where k' = k' and ?k1.0 = "[InLeft p Red q, InLeft g Black v]" and b' = "Suc b", OF _ _ _ run])
            (auto simp: subtree_ok_def)
      next
        case False
        obtain h' where h': "insert_turn_left n p g tree h = Inr h'"
            "becomes tree k' (Nd (Nd (Nd l n Red r) p Red q) g Black v) h (Nd (Nd l n Red r) p Black (Nd q g Red v)) h'"
          using insert_turn_left_outer [OF F2] by auto
        have "\<not> rb_red (rh_right h g) h"
          using rb_red_tip [OF D2(6)] D2(8,12) False by (simp add: good_addr_def)
        then have run: "rb_insert_loop n (above k) tree h = Some (Inr h')"
          using red LL D1(9) D2(2,7) h'(1) by (subst loop) (simp add: Let_def)
        show ?thesis
          using h'(2) LL ok sub False
          by (intro leave [where k' = k' and ?k1.0 = "[InLeft p Red q, InLeft g Black v]" and ?t2.0 = "(Nd (Nd l n Red r) p Black (Nd q g Red v))", OF _ _ run]) auto
      qed
    next
      case RL
      have F1: "focus h tree (InLeft g Black v # k') (Nd q p Red (Nd l n Red r))"
        using F RL by (simp add: focus_plug flip: holds_plug)
      have F2: "focus h tree k' (Nd (Nd q p Red (Nd l n Red r)) g Black v)"
        using F RL by (simp flip: holds_plug)
      note D1 = focus_nodeD [OF F1] and D2 = focus_nodeD [OF F2]
      show ?thesis
      proof (cases "hue v = Red")
        case True
        then obtain x w y where v: "v = Nd x w Red y" by (cases v) auto
        have "rb_red w h" using rb_red_tip [OF D2(6)] D2(12) v by (simp add: good_addr_def)
        then have run: "rb_insert_loop n (above k) tree h =
            rb_insert_loop g (rb_parent g (insert_recolor g p w h)) tree (insert_recolor g p w h)"
          using red RL v D1(9) D2(2,7,8) by (subst loop) (simp add: Let_def)
        show ?thesis
          using insert_recolor_left [of h tree k' q p "Nd l n Red r" g x w y] F2 ok sub RL v
          by (intro again [where k' = k' and ?k1.0 = "[InRight q p Red, InLeft g Black v]" and b' = "Suc b", OF _ _ _ run])
            (auto simp: subtree_ok_def)
      next
        case False
        obtain h' where h': "insert_turn_left n p g tree h = Inr h'"
            "becomes tree k' (Nd (Nd q p Red (Nd l n Red r)) g Black v) h (Nd (Nd q p Red l) n Black (Nd r g Red v)) h'"
          using insert_turn_left_inner [OF F2] by auto
        have "\<not> rb_red (rh_right h g) h"
          using rb_red_tip [OF D2(6)] D2(8,12) False by (simp add: good_addr_def)
        then have run: "rb_insert_loop n (above k) tree h = Some (Inr h')"
          using red RL D1(9) D2(2,7) h'(1) by (subst loop) (simp add: Let_def)
        show ?thesis
          using h'(2) RL ok sub False
          by (intro leave [where k' = k' and ?k1.0 = "[InRight q p Red, InLeft g Black v]" and ?t2.0 = "(Nd (Nd q p Red l) n Black (Nd r g Red v))", OF _ _ run]) auto
      qed
    next
      case LR
      have F1: "focus h tree (InRight v g Black # k') (Nd (Nd l n Red r) p Red q)"
        using F LR by (simp add: focus_plug flip: holds_plug)
      have F2: "focus h tree k' (Nd v g Black (Nd (Nd l n Red r) p Red q))"
        using F LR by (simp flip: holds_plug)
      note D1 = focus_nodeD [OF F1] and D2 = focus_nodeD [OF F2]
      have ne: "p \<noteq> rh_left h g"
        using F2 focus_nodeD(2) [OF F1] tip_in_nodes [of v p] by (auto simp: focus_def distinct_plug)
      show ?thesis
      proof (cases "hue v = Red")
        case True
        then obtain x w y where v: "v = Nd x w Red y" by (cases v) auto
        have "rb_red w h" using rb_red_tip [OF D2(5)] D2(12) v by (simp add: good_addr_def)
        then have run: "rb_insert_loop n (above k) tree h =
            rb_insert_loop g (rb_parent g (insert_recolor g p w h)) tree (insert_recolor g p w h)"
          using red ne LR v D1(9) D2(2,7,8) by (subst loop) (simp add: Let_def)
        show ?thesis
          using insert_recolor_right [of h tree k' x w y g "Nd l n Red r" p q] F2 ok sub LR v
          by (intro again [where k' = k' and ?k1.0 = "[InLeft p Red q, InRight v g Black]" and b' = "Suc b", OF _ _ _ run])
            (auto simp: subtree_ok_def)
      next
        case False
        obtain h' where h': "insert_turn_right n p g tree h = Inr h'"
            "becomes tree k' (Nd v g Black (Nd (Nd l n Red r) p Red q)) h (Nd (Nd v g Red l) n Black (Nd r p Red q)) h'"
          using insert_turn_right_inner [OF F2] by auto
        have "\<not> rb_red (rh_left h g) h"
          using rb_red_tip [OF D2(5)] D2(7,12) False by (simp add: good_addr_def)
        then have run: "rb_insert_loop n (above k) tree h = Some (Inr h')"
          using red ne LR D1(9) D2(2,7) h'(1) by (subst loop) (simp add: Let_def)
        show ?thesis
          using h'(2) LR ok sub False
          by (intro leave [where k' = k' and ?k1.0 = "[InLeft p Red q, InRight v g Black]" and ?t2.0 = "(Nd (Nd v g Red l) n Black (Nd r p Red q))", OF _ _ run]) auto
      qed
    next
      case RR
      have F1: "focus h tree (InRight v g Black # k') (Nd q p Red (Nd l n Red r))"
        using F RR by (simp add: focus_plug flip: holds_plug)
      have F2: "focus h tree k' (Nd v g Black (Nd q p Red (Nd l n Red r)))"
        using F RR by (simp flip: holds_plug)
      note D1 = focus_nodeD [OF F1] and D2 = focus_nodeD [OF F2]
      have ne: "p \<noteq> rh_left h g"
        using F2 focus_nodeD(2) [OF F1] tip_in_nodes [of v p] by (auto simp: focus_def distinct_plug)
      show ?thesis
      proof (cases "hue v = Red")
        case True
        then obtain x w y where v: "v = Nd x w Red y" by (cases v) auto
        have "rb_red w h" using rb_red_tip [OF D2(5)] D2(12) v by (simp add: good_addr_def)
        then have run: "rb_insert_loop n (above k) tree h =
            rb_insert_loop g (rb_parent g (insert_recolor g p w h)) tree (insert_recolor g p w h)"
          using red ne RR v D1(9) D2(2,7,8) by (subst loop) (simp add: Let_def)
        show ?thesis
          using insert_recolor_right [of h tree k' x w y g q p "Nd l n Red r"] F2 ok sub RR v
          by (intro again [where k' = k' and ?k1.0 = "[InRight q p Red, InRight v g Black]" and b' = "Suc b", OF _ _ _ run])
            (auto simp: subtree_ok_def)
      next
        case False
        obtain h' where h': "insert_turn_right n p g tree h = Inr h'"
            "becomes tree k' (Nd v g Black (Nd q p Red (Nd l n Red r))) h (Nd (Nd v g Red q) p Black (Nd l n Red r)) h'"
          using insert_turn_right_outer [OF F2] by auto
        have "\<not> rb_red (rh_left h g) h"
          using rb_red_tip [OF D2(5)] D2(7,12) False by (simp add: good_addr_def)
        then have run: "rb_insert_loop n (above k) tree h = Some (Inr h')"
          using red ne RR D1(9) D2(2,7) h'(1) by (subst loop) (simp add: Let_def)
        show ?thesis
          using h'(2) RR ok sub False
          by (intro leave [where k' = k' and ?k1.0 = "[InRight q p Red, InRight v g Black]" and ?t2.0 = "(Nd (Nd v g Red q) p Black (Nd l n Red r))", OF _ _ run]) auto
      qed
    qed
  qed
qed

section \<open>Linking a node and inserting it\<close>

fun slot_of :: "addr \<Rightarrow> rstep list \<Rightarrow> rb_slot" where
  "slot_of tree [] = RootSlot tree"
| "slot_of tree (InLeft n c r # k) = LeftSlot n"
| "slot_of tree (InRight l n c # k) = RightSlot n"

lemma slot_write_link: "slot_write (slot_of tree k) y h = set_link tree k y h"
  by (cases k rule: above.cases) (simp_all add: set_link_def)

lemma slot_read_path: "path h tree x k \<Longrightarrow> slot_read (slot_of tree k) h = x"
  by (cases k rule: above.cases) simp_all

lemma rb_link_ok:
  assumes H: "focus h tree k Lf" and n: "good_addr n" "n \<notin> path_nodes k"
  shows "focus (rb_link n (above k) (slot_of tree k) h) tree k (Nd Lf n Red Lf) \<and>
         same_off (insert n (path_nodes k)) tree h (rb_link n (above k) (slot_of tree k) h)"
proof -
  let ?h = "set_left n NULL (set_right n NULL (set_parent_word n (above k) h))"
  have run: "rb_link n (above k) (slot_of tree k) h = set_link tree k n ?h"
    by (simp add: rb_link_def slot_write_link)
  have p: "path h tree NULL k" "distinct (before k @ after k)"
    using H by (simp_all add: focus_def distinct_plug)
  have ne: "\<forall>a\<in>path_nodes k. a \<noteq> n" "above k \<noteq> n"
    using n above_in_path [of k] by (cases "k = []"; auto simp: good_addr_def)+
  have "path (set_link tree k n ?h) tree n k"
    using ne by (intro path_relink [OF p]) (simp_all add: same_at_def)
  then have "focus (set_link tree k n ?h) tree k (Nd Lf n Red Lf)"
    using n p ne by (simp add: focus_def distinct_plug)
  moreover have "same_off (insert n (path_nodes k)) tree h (set_link tree k n ?h)"
  proof (cases "k = []")
    case True
    then show ?thesis by (simp add: set_link_def same_off_def same_at_def)
  next
    case False
    have "\<forall>a\<in>- insert n (path_nodes k). a \<noteq> n \<and> a \<noteq> above k" using above_in_path [OF False] by auto
    then show ?thesis by (simp add: same_off_def same_at_def)
  qed
  ultimately show ?thesis by (simp add: run)
qed

lemma paint_root_ok:
  assumes "holds h tree t" "t \<noteq> Lf"
  shows "holds (rb_set_black (rh_root h tree) h) tree (paint Black t)"
proof -
  obtain l n c r where t: "t = Nd l n c r" using assms(2) by (cases t) auto
  have "rh_root h tree = n" using assms t by (simp add: holds_def)
  then show ?thesis
    using rb_set_color_focus [of h tree "[]" l n c r Black] assms t
    by (simp add: holds_focus rb_set_black_def)
qed

theorem rb_insert_link_ok:
  assumes H: "holds h tree (plug k Lf)" and b: "balanced (plug k Lf)"
    and n: "good_addr n" "n \<notin> path_nodes k"
  shows "\<exists>h' t'. rb_insert n tree (rb_link n (above k) (slot_of tree k) h) = Some (Inr h') \<and>
           holds h' tree t' \<and> balanced t' \<and> nodes t' = before k @ n # after k \<and>
           same_off (insert n (path_nodes k)) tree h h'"
proof -
  let ?h = "rb_link n (above k) (slot_of tree k) h"
  have F: "focus ?h tree k (Nd Lf n Red Lf)" and off: "same_off (insert n (path_nodes k)) tree h ?h"
    using rb_link_ok [OF _ n] H by (simp_all add: holds_plug)
  obtain h1 t1 where h1: "rb_insert_loop n (above k) tree ?h = Some (Inr h1)"
      "becomes tree [] (plug k (Nd Lf n Red Lf)) ?h t1 h1" "t1 \<noteq> Lf" "balanced (paint Black t1)"
    using rb_insert_loop_ok [OF F, of 0] b by (auto simp: balanced_plug subtree_ok_def fixed_def)
  let ?h2 = "rb_set_black (rh_root h1 tree) h1"
  have H1: "holds h1 tree t1" using becomes_focus [OF h1(2)] by (simp add: holds_focus)
  have root: "rh_root h1 tree \<in> set (nodes t1)" "rh_root h1 tree \<noteq> NULL"
    using H1 h1(3) shape_tip_NULL [of h1 NULL t1] tip_in_nodes [of t1] by (auto simp: holds_def)
  have nodes: "nodes t1 = before k @ n # after k" using h1(2) by (simp add: becomes_def nodes_plug)
  have "rb_insert n tree ?h = Some (Inr ?h2)"
    using focus_nodeD(9) [OF F] h1(1) root(2) by (simp add: rb_insert_def)
  moreover have "holds ?h2 tree (paint Black t1)" by (rule paint_root_ok [OF H1 h1(3)])
  moreover have "same_off (insert n (path_nodes k)) tree h ?h2"
  proof -
    have "same_off (insert n (path_nodes k)) tree ?h h1"
      using h1(2) by (auto simp: becomes_def nodes_plug path_nodes_def elim: same_off_mono)
    moreover have "same_off (insert n (path_nodes k)) tree h1 ?h2"
      unfolding rb_set_black_def using root(1) nodes
      by (intro rb_set_color_off) (auto simp: path_nodes_def)
    ultimately show ?thesis using off by (blast intro: same_off_trans)
  qed
  ultimately show ?thesis using h1(4) nodes by auto
qed

end
