(* ===== verification/RBErase.thy ===== *)
theory RBErase
  imports RBInsert
begin

text \<open>
  Removal: \<^verbatim>\<open>rb_erase\<close> on a node of a balanced tree ends, follows no null pointer, removes exactly
  that node from the in-order list and gives a balanced tree again.
\<close>

section \<open>The repair loop\<close>

text \<open>
  \<open>short k t\<close>: the subtree \<open>t\<close> lacks one black node under the path \<open>k\<close>; its top may be red, with a
  red child.
\<close>

definition short :: "rstep list \<Rightarrow> rtree \<Rightarrow> bool" where
  "short k t \<longleftrightarrow> invc (paint Black t) \<and> invh t \<and> path_ok k (Suc (bheight t))"

lemma RED_BLACK [simp]: "RED \<noteq> BLACK" "BLACK \<noteq> RED"
  by (simp_all add: RED_def BLACK_def)

lemma short_black: "short k t \<Longrightarrow> hue t = Black \<Longrightarrow> invc t"
  by (cases t) (auto simp: short_def)

lemma path_root: "path h tree x k \<Longrightarrow> k \<noteq> [] \<Longrightarrow> rh_root h tree \<in> path_nodes k"
proof (induction h tree x k rule: path.induct)
  case (2 h tree x n c r k)
  then show ?case by (cases "k = []") auto
next
  case (3 h tree x l n c k)
  then show ?case by (cases "k = []") auto
qed simp

lemma tip_not_root:
  assumes "focus h tree k t"
  shows "tip t = rh_root h tree \<longleftrightarrow> k = []"
proof (cases "k = []")
  case True
  then show ?thesis using assms by (simp add: focus_def)
next
  case False
  have p: "path h tree (tip t) k" using assms by (simp add: focus_def)
  have r: "rh_root h tree \<in> path_nodes k" by (rule path_root [OF p False])
  then have "rh_root h tree \<noteq> NULL" using path_good [OF p] by (auto dest: good_addrD)
  then have "tip t \<noteq> rh_root h tree"
    using r assms tip_in_nodes [of t "rh_root h tree"] by (auto simp: focus_def distinct_plug)
  then show ?thesis using False by simp
qed

lemma rb_black_tip: "shape h p t \<Longrightarrow> p AND 1 = 0 \<Longrightarrow> rb_black (tip t) h \<longleftrightarrow> hue t = Black"
  by (simp add: rb_black_def rb_red_tip)

lemma focus_childD:
  assumes "focus h tree k (plug [s] t)"
  shows "rb_black (tip t) h \<longleftrightarrow> hue t = Black" "rb_red (tip t) h \<longleftrightarrow> hue t = Red" "tip t = NULL \<longleftrightarrow> t = Lf"
proof -
  have F: "focus h tree (s # k) t" using assms by (simp add: focus_plug)
  then have "shape h (above (s # k)) t" "above (s # k) AND 1 = 0"
    unfolding focus_def using above_even by blast+
  then show "rb_black (tip t) h \<longleftrightarrow> hue t = Black" "rb_red (tip t) h \<longleftrightarrow> hue t = Red" "tip t = NULL \<longleftrightarrow> t = Lf"
    by (simp_all add: rb_black_tip rb_red_tip shape_tip_NULL)
qed

text \<open>The last round: the sibling has a red child.\<close>

definition repaired :: "nat \<Rightarrow> color \<Rightarrow> rtree \<Rightarrow> bool" where
  "repaired b c t \<longleftrightarrow> invc t \<and> invh t \<and> hue t = c \<and> bheight t = b + (if c = Black then 2 else 1) \<and> t \<noteq> Lf"

lemma erase_turn_left:
  assumes F: "focus h tree k (Nd t p c (Nd x y d z))" and z: "hue z = Red"
  shows "\<exists>h'. (let h = rb_set_color y (rb_color p h) h;
                   h = rb_set_black p h;
                   h = (if rh_right h y \<noteq> NULL then rb_set_black (rh_right h y) h else h)
               in bindR (rb_rotate_left p tree h) (\<lambda>h. Inr (rh_root h tree, h))) = Inr (rh_root h' tree, h') \<and>
           becomes tree k (Nd t p c (Nd x y d z)) h (Nd (Nd t p Black x) y c (paint Black z)) h'"
proof -
  obtain z1 m z2 where zz: "z = Nd z1 m Red z2" using z by (cases z) auto
  have col: "rb_color p h = hue_word c" using focus_nodeD(10) [OF F] .
  let ?h1 = "rb_set_color y (hue_word c) h"
  have h1: "becomes tree k (Nd t p c (Nd x y d z)) h (Nd t p c (Nd x y c z)) ?h1"
    using recolor_becomes [of h tree k "[InRight t p c]" x y d z c] F by simp
  let ?h2 = "rb_set_color p (hue_word Black) ?h1"
  have h2: "becomes tree k (Nd t p c (Nd x y c z)) ?h1 (Nd t p Black (Nd x y c z)) ?h2"
    by (rule recolor_top [OF becomes_focus [OF h1]])
  let ?h3 = "rb_set_color m (hue_word Black) ?h2"
  have h3: "becomes tree k (Nd t p Black (Nd x y c z)) ?h2 (Nd t p Black (Nd x y c (paint Black z))) ?h3"
    using recolor_becomes [of ?h2 tree k "[InRight x y c, InRight t p Black]" z1 m Red z2 Black]
      becomes_focus [OF h2] zz by simp
  obtain h4 where h4: "rb_rotate_left p tree ?h3 = Inr h4"
      "becomes tree k (Nd t p Black (Nd x y c (paint Black z))) ?h3 (Nd (Nd t p Black x) y c (paint Black z)) h4"
    using rotate_left_becomes [of ?h3 tree k "[]" t p Black x y c "paint Black z"] becomes_focus [OF h3] by auto
  have r: "rh_right h y = m" "m \<noteq> NULL" using F zz by (simp_all add: focus_def good_addr_def)
  show ?thesis
    using becomes_trans [OF becomes_trans [OF becomes_trans [OF h1 h2] h3] h4(2)] h4(1) r
    by (simp add: col rb_set_black_def)
qed

lemma erase_done_left_ok:
  assumes F: "focus h tree k (Nd t p c (Nd x y Black z))" and red: "hue x = Red \<or> hue z = Red"
    and inv: "invc t" "invh t" "hue t = Black" "invc (Nd x y Black z)" "invh (Nd x y Black z)"
      "bheight (Nd x y Black z) = Suc (bheight t)"
  shows "\<exists>h' t2. erase_done_left y p tree h = Inr (rh_root h' tree, h') \<and>
           becomes tree k (Nd t p c (Nd x y Black z)) h t2 h' \<and> repaired (bheight t) c t2"
proof -
  have z: "rb_black (rh_right h y) h \<longleftrightarrow> hue z = Black" "rh_left h y = tip x" "tip x = NULL \<longleftrightarrow> x = Lf"
    using focus_childD [of h tree "InRight t p c # k" "InRight x y Black" z]
      focus_childD [of h tree "InRight t p c # k" "InLeft y Black z" x] F
    by (auto simp: focus_def focus_in_right)
  show ?thesis
  proof (cases "hue z = Red")
    case True
    obtain h' where h': "erase_done_left y p tree h = Inr (rh_root h' tree, h')"
        "becomes tree k (Nd t p c (Nd x y Black z)) h (Nd (Nd t p Black x) y c (paint Black z)) h'"
      using erase_turn_left [OF F True] True z by (auto simp: erase_done_left_def)
    moreover have "repaired (bheight t) c (Nd (Nd t p Black x) y c (paint Black z))"
      using inv True by (cases z) (auto simp: repaired_def)
    ultimately show ?thesis by blast
  next
    case False
    then obtain x1 m x2 where x: "x = Nd x1 m Red x2" using red by (cases x) auto
    let ?h1 = "rb_set_color m (hue_word Black) h"
    have h1: "becomes tree k (Nd t p c (Nd x y Black z)) h (Nd t p c (Nd (Nd x1 m Black x2) y Black z)) ?h1"
      using recolor_becomes [of h tree k "[InLeft y Black z, InRight t p c]" x1 m Red x2 Black] F x by simp
    let ?h2 = "rb_set_color y (hue_word Red) ?h1"
    have h2: "becomes tree k (Nd t p c (Nd (Nd x1 m Black x2) y Black z)) ?h1
        (Nd t p c (Nd (Nd x1 m Black x2) y Red z)) ?h2"
      using recolor_becomes [of ?h1 tree k "[InRight t p c]" "Nd x1 m Black x2" y Black z Red]
        becomes_focus [OF h1] by simp
    obtain h3 where h3: "rb_rotate_right y tree ?h2 = Inr h3"
        "becomes tree k (Nd t p c (Nd (Nd x1 m Black x2) y Red z)) ?h2
          (Nd t p c (Nd x1 m Black (Nd x2 y Red z))) h3"
      using rotate_right_becomes [of ?h2 tree k "[InRight t p c]" x1 m Black x2 y Red z]
        becomes_focus [OF h2] by auto
    have s: "rh_right h3 p = m" using becomes_focus [OF h3(2)] by (simp add: focus_def)
    obtain h' where h': "erase_done_left y p tree h = Inr (rh_root h' tree, h')"
        "becomes tree k (Nd t p c (Nd x1 m Black (Nd x2 y Red z))) h3
          (Nd (Nd t p Black x1) m c (Nd x2 y Black z)) h'"
      using erase_turn_left [OF becomes_focus [OF h3(2)]] False z h3(1) s x
      by (auto simp: erase_done_left_def rb_set_black_def rb_set_red_def Let_def)
    moreover have "repaired (bheight t) c (Nd (Nd t p Black x1) m c (Nd x2 y Black z))"
      using inv False x by (auto simp: repaired_def)
    ultimately show ?thesis
      using becomes_trans [OF becomes_trans [OF becomes_trans [OF h1 h2] h3(2)] h'(2)] by blast
  qed
qed

text \<open>What a round leaves: a smaller short subtree, or a balanced tree.\<close>

definition outcome ::
    "addr \<Rightarrow> rtree \<Rightarrow> rheap \<Rightarrow> nat \<Rightarrow> (addr \<times> addr \<times> rheap) + (addr \<times> rheap) \<Rightarrow> bool" where
  "outcome tree T h n res \<longleftrightarrow>
     (case res of
        Inl (child, parent, h') \<Rightarrow>
          \<exists>k t. becomes tree [] T h (plug k t) h' \<and> child = tip t \<and> parent = above k \<and> short k t \<and>
            2 * length k + (if hue t = Red then 0 else 1) < n
      | Inr (child, h') \<Rightarrow>
          child = rh_root h' tree \<and> (\<exists>t. becomes tree [] T h t h' \<and> t \<noteq> Lf \<and> balanced t))"

lemma outcome_step: "becomes tree [] T h T1 h1 \<Longrightarrow> outcome tree T1 h1 n res \<Longrightarrow> outcome tree T h n res"
proof (cases res)
  case (Inl a)
  assume b: "becomes tree [] T h T1 h1" and o: "outcome tree T1 h1 n res"
  obtain child parent h' where a: "a = (child, parent, h')" by (cases a)
  obtain k t where "becomes tree [] T1 h1 (plug k t) h'" "child = tip t" "parent = above k" "short k t"
      "2 * length k + (if hue t = Red then 0 else 1) < n"
    using o Inl a unfolding outcome_def by auto
  then show ?thesis using becomes_trans [OF b] Inl a unfolding outcome_def
    by (auto intro!: exI [of _ k] exI [of _ t])
next
  case (Inr a)
  assume b: "becomes tree [] T h T1 h1" and o: "outcome tree T1 h1 n res"
  obtain child h' where a: "a = (child, h')" by (cases a)
  obtain t where "becomes tree [] T1 h1 t h'" "t \<noteq> Lf" "balanced t" "child = rh_root h' tree"
    using o Inr a unfolding outcome_def by auto
  then show ?thesis using becomes_trans [OF b] Inr a unfolding outcome_def by auto
qed

lemma repaired_outcome:
  assumes "becomes tree k t h t2 h2" "repaired b c t2" "path_ok k (b + (if c = Black then 2 else 1))"
    "c = Red \<Longrightarrow> above_hue k = Black \<and> k \<noteq> []"
  shows "outcome tree (plug k t) h n (Inr (rh_root h2 tree, h2))"
proof -
  have "balanced (plug k t2)" using assms(2-4) by (auto simp: balanced_plug repaired_def)
  moreover have "plug k t2 \<noteq> Lf" using assms(2) by (simp add: repaired_def)
  ultimately show ?thesis using becomes_top [OF assms(1)] by (auto simp: outcome_def)
qed

lemma erase_black_left:
  assumes F: "focus h tree k (Nd t p c (Nd x y Black z))"
    and S: "short (InLeft p c (Nd x y Black z) # k) t" "hue t = Black"
    and n: "2 * length k + (if c = Red then 0 else 1) < n"
  shows "\<exists>res. (if y = NULL then Inl (Fault ''rb_erase_fix'')
      else if rb_black (rh_left h y) h \<and> rb_black (rh_right h y) h
      then let h = rb_set_red y h in Inr (Inl (p, rb_parent p h, h))
      else bindR (erase_done_left y p tree h) (\<lambda>r. Inr (Inr r))) = Inr res \<and>
    outcome tree (plug k (Nd t p c (Nd x y Black z))) h n res"
proof -
  have inv: "invc t" "invh t" "invc (Nd x y Black z)" "invh (Nd x y Black z)"
      "bheight (Nd x y Black z) = Suc (bheight t)" "path_ok k (bheight t + (if c = Black then 2 else 1))"
      "c = Red \<Longrightarrow> above_hue k = Black \<and> k \<noteq> []"
    using S short_black [OF S] by (auto simp: short_def split: if_splits)
  have y: "y \<noteq> NULL" using F by (simp add: focus_def good_addr_def)
  have ch: "rb_black (rh_left h y) h \<longleftrightarrow> hue x = Black" "rb_black (rh_right h y) h \<longleftrightarrow> hue z = Black"
    using focus_childD(1) [of h tree "InRight t p c # k" "InRight x y Black" z]
      focus_childD(1) [of h tree "InRight t p c # k" "InLeft y Black z" x] F
    by (auto simp: focus_def focus_in_right)
  show ?thesis
  proof (cases "hue x = Black \<and> hue z = Black")
    case True
    let ?h1 = "rb_set_color y (hue_word Red) h"
    have h1: "becomes tree k (Nd t p c (Nd x y Black z)) h (Nd t p c (Nd x y Red z)) ?h1"
      using recolor_becomes [of h tree k "[InRight t p c]" x y Black z Red] F by simp
    have "rb_parent p ?h1 = above k" using focus_nodeD(9) [OF becomes_focus [OF h1]] .
    moreover have "short k (Nd t p c (Nd x y Red z))" using inv S True by (auto simp: short_def)
    ultimately have "outcome tree (plug k (Nd t p c (Nd x y Black z))) h n (Inl (p, rb_parent p ?h1, ?h1))"
      unfolding outcome_def using becomes_top [OF h1] n
      by (auto intro!: exI [of _ k] exI [of _ "Nd t p c (Nd x y Red z)"])
    then show ?thesis using y ch True by (auto simp: rb_set_red_def Let_def)
  next
    case False
    then have red: "hue x = Red \<or> hue z = Red" by auto
    obtain h' t2 where d: "erase_done_left y p tree h = Inr (rh_root h' tree, h')"
        "becomes tree k (Nd t p c (Nd x y Black z)) h t2 h'" "repaired (bheight t) c t2"
      using erase_done_left_ok [OF F red inv(1,2) S(2) inv(3-5)] by blast
    show ?thesis
      using repaired_outcome [OF d(2,3) inv(6,7)] d(1) y ch False by auto
  qed
qed

lemma erase_round_left_ok:
  assumes F: "focus h tree (InLeft p c r # k) t"
    and S: "short (InLeft p c r # k) t" "hue t = Black"
  shows "\<exists>res. erase_round_left (tip t) p tree h = Inr res \<and>
    outcome tree (plug (InLeft p c r # k) t) h (2 * length k + 3) res"
proof -
  have F1: "focus h tree k (Nd t p c r)" using F by (simp add: focus_in_left)
  have r: "rh_right h p = tip r" "rb_red (tip r) h \<longleftrightarrow> hue r = Red" "r \<noteq> Lf"
    using F1 focus_childD(2) [of h tree k "InRight t p c" r] S by (auto simp: focus_def short_def)
  then obtain x y d z where rr: "r = Nd x y d z" by (cases r) auto
  show ?thesis
  proof (cases "d = Red")
    case False
    then show ?thesis
      using erase_black_left [of h tree k t p c x y z "2 * length k + 3"] F1 S rr r
      by (simp add: erase_round_left_def Let_def)
  next
    case True
    have c: "c = Black" using S(1) rr True by (cases c) (auto simp: short_def)
    let ?h1 = "rb_set_color y (hue_word Black) h"
    have h1: "becomes tree k (Nd t p Black (Nd x y Red z)) h (Nd t p Black (Nd x y Black z)) ?h1"
      using recolor_becomes [of h tree k "[InRight t p Black]" x y Red z Black] F1 rr c True by simp
    let ?h2 = "rb_set_color p (hue_word Red) ?h1"
    have h2: "becomes tree k (Nd t p Black (Nd x y Black z)) ?h1 (Nd t p Red (Nd x y Black z)) ?h2"
      by (rule recolor_top [OF becomes_focus [OF h1]])
    obtain h3 where h3: "rb_rotate_left p tree ?h2 = Inr h3"
        "becomes tree k (Nd t p Red (Nd x y Black z)) ?h2 (Nd (Nd t p Red x) y Black z) h3"
      using rotate_left_becomes [of ?h2 tree k "[]" t p Red x y Black z] becomes_focus [OF h2] by auto
    have b: "becomes tree k (Nd t p Black (Nd x y Red z)) h (Nd (Nd t p Red x) y Black z) h3"
      by (rule becomes_trans [OF becomes_trans [OF h1 h2] h3(2)])
    have xx: "hue x = Black" "bheight x = Suc (bheight t)" using S rr True by (auto simp: short_def)
    then obtain x1 m x2 where x: "x = Nd x1 m Black x2" by (cases x) auto
    have F3: "focus h3 tree (InLeft y Black z # k) (Nd t p Red (Nd x1 m Black x2))"
      using becomes_focus [OF b] x by (simp add: focus_in_left)
    have s: "rh_right h3 p = m" using F3 by (simp add: focus_def)
    have "short (InLeft p Red (Nd x1 m Black x2) # InLeft y Black z # k) t"
      using S rr True x xx c by (auto simp: short_def)
    from erase_black_left [OF F3 this S(2), of "2 * length k + 3"] obtain res where
      "erase_round_left (tip t) p tree h = Inr res"
      "outcome tree (plug (InLeft y Black z # k) (Nd t p Red (Nd x1 m Black x2))) h3 (2 * length k + 3) res"
      using r rr True h3(1) s by (auto simp: erase_round_left_def Let_def rb_set_black_def rb_set_red_def)
    then show ?thesis using outcome_step [OF becomes_top [OF b]] x rr True c by auto
  qed
qed

lemma erase_turn_right:
  assumes F: "focus h tree k (Nd (Nd z y d x) p c t)" and z: "hue z = Red"
  shows "\<exists>h'. (let h = rb_set_color y (rb_color p h) h;
                   h = rb_set_black p h;
                   h = (if rh_left h y \<noteq> NULL then rb_set_black (rh_left h y) h else h)
               in bindR (rb_rotate_right p tree h) (\<lambda>h. Inr (rh_root h tree, h))) = Inr (rh_root h' tree, h') \<and>
           becomes tree k (Nd (Nd z y d x) p c t) h (Nd (paint Black z) y c (Nd x p Black t)) h'"
proof -
  obtain z1 m z2 where zz: "z = Nd z2 m Red z1" using z by (cases z) auto
  have col: "rb_color p h = hue_word c" using focus_nodeD(10) [OF F] .
  let ?h1 = "rb_set_color y (hue_word c) h"
  have h1: "becomes tree k (Nd (Nd z y d x) p c t) h (Nd (Nd z y c x) p c t) ?h1"
    using recolor_becomes [of h tree k "[InLeft p c t]" z y d x c] F by simp
  let ?h2 = "rb_set_color p (hue_word Black) ?h1"
  have h2: "becomes tree k (Nd (Nd z y c x) p c t) ?h1 (Nd (Nd z y c x) p Black t) ?h2"
    by (rule recolor_top [OF becomes_focus [OF h1]])
  let ?h3 = "rb_set_color m (hue_word Black) ?h2"
  have h3: "becomes tree k (Nd (Nd z y c x) p Black t) ?h2 (Nd (Nd (paint Black z) y c x) p Black t) ?h3"
    using recolor_becomes [of ?h2 tree k "[InLeft y c x, InLeft p Black t]" z2 m Red z1 Black]
      becomes_focus [OF h2] zz by simp
  obtain h4 where h4: "rb_rotate_right p tree ?h3 = Inr h4"
      "becomes tree k (Nd (Nd (paint Black z) y c x) p Black t) ?h3 (Nd (paint Black z) y c (Nd x p Black t)) h4"
    using rotate_right_becomes [of ?h3 tree k "[]" "paint Black z" y c x p Black t] becomes_focus [OF h3] by auto
  have r: "rh_left h y = m" "m \<noteq> NULL" using F zz by (simp_all add: focus_def good_addr_def)
  show ?thesis
    using becomes_trans [OF becomes_trans [OF becomes_trans [OF h1 h2] h3] h4(2)] h4(1) r
    by (simp add: col rb_set_black_def)
qed

lemma erase_done_right_ok:
  assumes F: "focus h tree k (Nd (Nd z y Black x) p c t)" and red: "hue x = Red \<or> hue z = Red"
    and inv: "invc t" "invh t" "hue t = Black" "invc (Nd z y Black x)" "invh (Nd z y Black x)"
      "bheight (Nd z y Black x) = Suc (bheight t)"
  shows "\<exists>h' t2. erase_done_right y p tree h = Inr (rh_root h' tree, h') \<and>
           becomes tree k (Nd (Nd z y Black x) p c t) h t2 h' \<and> repaired (bheight t) c t2"
proof -
  have z: "rb_black (rh_left h y) h \<longleftrightarrow> hue z = Black" "rh_right h y = tip x" "tip x = NULL \<longleftrightarrow> x = Lf"
    using focus_childD [of h tree "InLeft p c t # k" "InLeft y Black x" z]
      focus_childD [of h tree "InLeft p c t # k" "InRight z y Black" x] F
    by (auto simp: focus_def focus_in_left)
  show ?thesis
  proof (cases "hue z = Red")
    case True
    obtain h' where h': "erase_done_right y p tree h = Inr (rh_root h' tree, h')"
        "becomes tree k (Nd (Nd z y Black x) p c t) h (Nd (paint Black z) y c (Nd x p Black t)) h'"
      using erase_turn_right [OF F True] True z by (auto simp: erase_done_right_def)
    moreover have "repaired (bheight t) c (Nd (paint Black z) y c (Nd x p Black t))"
      using inv True by (cases z) (auto simp: repaired_def)
    ultimately show ?thesis by blast
  next
    case False
    then obtain x1 m x2 where x: "x = Nd x2 m Red x1" using red by (cases x) auto
    let ?h1 = "rb_set_color m (hue_word Black) h"
    have h1: "becomes tree k (Nd (Nd z y Black x) p c t) h (Nd (Nd z y Black (Nd x2 m Black x1)) p c t) ?h1"
      using recolor_becomes [of h tree k "[InRight z y Black, InLeft p c t]" x2 m Red x1 Black] F x by simp
    let ?h2 = "rb_set_color y (hue_word Red) ?h1"
    have h2: "becomes tree k (Nd (Nd z y Black (Nd x2 m Black x1)) p c t) ?h1
        (Nd (Nd z y Red (Nd x2 m Black x1)) p c t) ?h2"
      using recolor_becomes [of ?h1 tree k "[InLeft p c t]" z y Black "Nd x2 m Black x1" Red]
        becomes_focus [OF h1] by simp
    obtain h3 where h3: "rb_rotate_left y tree ?h2 = Inr h3"
        "becomes tree k (Nd (Nd z y Red (Nd x2 m Black x1)) p c t) ?h2
          (Nd (Nd (Nd z y Red x2) m Black x1) p c t) h3"
      using rotate_left_becomes [of ?h2 tree k "[InLeft p c t]" z y Red x2 m Black x1]
        becomes_focus [OF h2] by auto
    have s: "rh_left h3 p = m" using becomes_focus [OF h3(2)] by (simp add: focus_def)
    obtain h' where h': "erase_done_right y p tree h = Inr (rh_root h' tree, h')"
        "becomes tree k (Nd (Nd (Nd z y Red x2) m Black x1) p c t) h3
          (Nd (Nd z y Black x2) m c (Nd x1 p Black t)) h'"
      using erase_turn_right [OF becomes_focus [OF h3(2)]] False z h3(1) s x
      by (auto simp: erase_done_right_def rb_set_black_def rb_set_red_def Let_def)
    moreover have "repaired (bheight t) c (Nd (Nd z y Black x2) m c (Nd x1 p Black t))"
      using inv False x by (auto simp: repaired_def)
    ultimately show ?thesis
      using becomes_trans [OF becomes_trans [OF becomes_trans [OF h1 h2] h3(2)] h'(2)] by blast
  qed
qed

lemma erase_black_right:
  assumes F: "focus h tree k (Nd (Nd z y Black x) p c t)"
    and S: "short (InRight (Nd z y Black x) p c # k) t" "hue t = Black"
    and n: "2 * length k + (if c = Red then 0 else 1) < n"
  shows "\<exists>res. (if y = NULL then Inl (Fault ''rb_erase_fix'')
      else if rb_black (rh_right h y) h \<and> rb_black (rh_left h y) h
      then let h = rb_set_red y h in Inr (Inl (p, rb_parent p h, h))
      else bindR (erase_done_right y p tree h) (\<lambda>r. Inr (Inr r))) = Inr res \<and>
    outcome tree (plug k (Nd (Nd z y Black x) p c t)) h n res"
proof -
  have inv: "invc t" "invh t" "invc (Nd z y Black x)" "invh (Nd z y Black x)"
      "bheight (Nd z y Black x) = Suc (bheight t)" "path_ok k (bheight t + (if c = Black then 2 else 1))"
      "c = Red \<Longrightarrow> above_hue k = Black \<and> k \<noteq> []"
    using S short_black [OF S] by (auto simp: short_def split: if_splits)
  have y: "y \<noteq> NULL" using F by (simp add: focus_def good_addr_def)
  have ch: "rb_black (rh_right h y) h \<longleftrightarrow> hue x = Black" "rb_black (rh_left h y) h \<longleftrightarrow> hue z = Black"
    using focus_childD(1) [of h tree "InLeft p c t # k" "InLeft y Black x" z]
      focus_childD(1) [of h tree "InLeft p c t # k" "InRight z y Black" x] F
    by (auto simp: focus_def focus_in_left)
  show ?thesis
  proof (cases "hue x = Black \<and> hue z = Black")
    case True
    let ?h1 = "rb_set_color y (hue_word Red) h"
    have h1: "becomes tree k (Nd (Nd z y Black x) p c t) h (Nd (Nd z y Red x) p c t) ?h1"
      using recolor_becomes [of h tree k "[InLeft p c t]" z y Black x Red] F by simp
    have "rb_parent p ?h1 = above k" using focus_nodeD(9) [OF becomes_focus [OF h1]] .
    moreover have "short k (Nd (Nd z y Red x) p c t)" using inv S True by (auto simp: short_def)
    ultimately have "outcome tree (plug k (Nd (Nd z y Black x) p c t)) h n (Inl (p, rb_parent p ?h1, ?h1))"
      unfolding outcome_def using becomes_top [OF h1] n
      by (auto intro!: exI [of _ k] exI [of _ "Nd (Nd z y Red x) p c t"])
    then show ?thesis using y ch True by (auto simp: rb_set_red_def Let_def)
  next
    case False
    then have red: "hue x = Red \<or> hue z = Red" by auto
    obtain h' t2 where d: "erase_done_right y p tree h = Inr (rh_root h' tree, h')"
        "becomes tree k (Nd (Nd z y Black x) p c t) h t2 h'" "repaired (bheight t) c t2"
      using erase_done_right_ok [OF F red inv(1,2) S(2) inv(3-5)] by blast
    show ?thesis
      using repaired_outcome [OF d(2,3) inv(6,7)] d(1) y ch False by auto
  qed
qed

lemma erase_round_right_ok:
  assumes F: "focus h tree (InRight r p c # k) t"
    and S: "short (InRight r p c # k) t" "hue t = Black"
  shows "\<exists>res. erase_round_right (tip t) p tree h = Inr res \<and>
    outcome tree (plug (InRight r p c # k) t) h (2 * length k + 3) res"
proof -
  have F1: "focus h tree k (Nd r p c t)" using F by (simp add: focus_in_right)
  have r: "rh_left h p = tip r" "rb_red (tip r) h \<longleftrightarrow> hue r = Red" "r \<noteq> Lf"
    using F1 focus_childD(2) [of h tree k "InLeft p c t" r] S by (auto simp: focus_def short_def)
  then obtain x y d z where rr: "r = Nd z y d x" by (cases r) auto
  show ?thesis
  proof (cases "d = Red")
    case False
    then show ?thesis
      using erase_black_right [of h tree k z y x p c t "2 * length k + 3"] F1 S rr r
      by (simp add: erase_round_right_def Let_def)
  next
    case True
    have c: "c = Black" using S(1) rr True by (cases c) (auto simp: short_def)
    let ?h1 = "rb_set_color y (hue_word Black) h"
    have h1: "becomes tree k (Nd (Nd z y Red x) p Black t) h (Nd (Nd z y Black x) p Black t) ?h1"
      using recolor_becomes [of h tree k "[InLeft p Black t]" z y Red x Black] F1 rr c True by simp
    let ?h2 = "rb_set_color p (hue_word Red) ?h1"
    have h2: "becomes tree k (Nd (Nd z y Black x) p Black t) ?h1 (Nd (Nd z y Black x) p Red t) ?h2"
      by (rule recolor_top [OF becomes_focus [OF h1]])
    obtain h3 where h3: "rb_rotate_right p tree ?h2 = Inr h3"
        "becomes tree k (Nd (Nd z y Black x) p Red t) ?h2 (Nd z y Black (Nd x p Red t)) h3"
      using rotate_right_becomes [of ?h2 tree k "[]" z y Black x p Red t] becomes_focus [OF h2] by auto
    have b: "becomes tree k (Nd (Nd z y Red x) p Black t) h (Nd z y Black (Nd x p Red t)) h3"
      by (rule becomes_trans [OF becomes_trans [OF h1 h2] h3(2)])
    have xx: "hue x = Black" "bheight x = Suc (bheight t)" using S rr True by (auto simp: short_def)
    then obtain x1 m x2 where x: "x = Nd x2 m Black x1" by (cases x) auto
    have F3: "focus h3 tree (InRight z y Black # k) (Nd (Nd x2 m Black x1) p Red t)"
      using becomes_focus [OF b] x by (simp add: focus_in_right)
    have s: "rh_left h3 p = m" using F3 by (simp add: focus_def)
    have "short (InRight (Nd x2 m Black x1) p Red # InRight z y Black # k) t"
      using S rr True x xx c by (auto simp: short_def)
    from erase_black_right [OF F3 this S(2), of "2 * length k + 3"] obtain res where
      "erase_round_right (tip t) p tree h = Inr res"
      "outcome tree (plug (InRight z y Black # k) (Nd (Nd x2 m Black x1) p Red t)) h3 (2 * length k + 3) res"
      using r rr True h3(1) s by (auto simp: erase_round_right_def Let_def rb_set_black_def rb_set_red_def)
    then show ?thesis using outcome_step [OF becomes_top [OF b]] x rr True c by auto
  qed
qed

section \<open>The loop\<close>

lemma balanced_Lf [simp]: "balanced Lf"
  by (simp add: balanced_def)

lemma invc_paint_Black: "invc t \<Longrightarrow> invc (paint Black t)"
  by (cases t) auto

definition finished :: "addr \<Rightarrow> rtree \<Rightarrow> rheap \<Rightarrow> addr \<Rightarrow> rheap \<Rightarrow> bool" where
  "finished tree T h child h' \<longleftrightarrow>
     (\<exists>t. becomes tree [] T h t (if child \<noteq> NULL then rb_set_black child h' else h') \<and> balanced t)"

lemma finished_step: "becomes tree [] T h T1 h1 \<Longrightarrow> finished tree T1 h1 c h' \<Longrightarrow> finished tree T h c h'"
  unfolding finished_def by (blast intro: becomes_trans)

lemma paint_becomes:
  assumes "focus h tree k t" "t \<noteq> Lf"
  shows "becomes tree k t h (paint Black t) (rb_set_black (tip t) h)"
proof -
  obtain l n c r where t: "t = Nd l n c r" using assms(2) by (cases t) auto
  have "becomes tree k (Nd l n c r) h (Nd l n Black r) (rb_set_color n (hue_word Black) h)"
    using assms(1) t by (intro recolor_top) simp
  then show ?thesis using t by (simp add: rb_set_black_def)
qed

lemma finished_root:
  assumes "becomes tree [] T h t h'" "t \<noteq> Lf" "balanced t"
  shows "finished tree T h (rh_root h' tree) h'"
proof -
  have F: "focus h' tree [] t" by (rule becomes_focus [OF assms(1)])
  then have "rh_root h' tree = tip t" "tip t \<noteq> NULL"
    using assms(2) by (auto simp: focus_def shape_tip_NULL)
  then show ?thesis
    using becomes_trans [OF assms(1) paint_becomes [OF F assms(2)]] balanced_paint_Black [OF assms(3)]
    by (auto simp: finished_def)
qed

lemma erase_fix_loop_ok:
  assumes "focus h tree k t" "short k t"
  shows "\<exists>child h'. erase_fix_loop (tip t) (above k) tree h = Some (Inr (child, h')) \<and>
           finished tree (plug k t) h child h'"
  using assms
proof (induction "2 * length k + (if hue t = Red then 0 else 1)" arbitrary: k t h rule: less_induct)
  case less
  note F = less.prems(1) and S = less.prems(2)
  have sh: "shape h (above k) t" "above k AND 1 = 0"
    using F above_even by (auto simp: focus_def)
  have guard: "rb_black (tip t) h \<and> tip t \<noteq> rh_root h tree \<longleftrightarrow> hue t = Black \<and> k \<noteq> []"
    using rb_black_tip [OF sh] tip_not_root [OF F] by simp
  show ?case
  proof (cases "hue t = Black \<and> k \<noteq> []")
    case False
    then have run: "erase_fix_loop (tip t) (above k) tree h = Some (Inr (tip t, h))"
    proof -
      have g: "(rb_black (tip t) h \<and> tip t \<noteq> rh_root h tree) = False" using guard False by simp
      show ?thesis by (subst erase_fix_loop.simps) (simp only: g if_False)
    qed
    have "finished tree (plug k t) h (tip t) h"
    proof (cases "t = Lf")
      case True
      then show ?thesis using False becomes_refl [of h tree "[]" Lf] F
        by (auto simp: finished_def)
    next
      case tL: False
      then have "tip t \<noteq> NULL" using shape_tip_NULL [OF sh(1)] by simp
      moreover have "balanced (plug k (paint Black t))"
        using False S by (cases t) (auto simp: balanced_plug short_def)
      ultimately show ?thesis
        using becomes_top [OF paint_becomes [OF F tL]] by (auto simp: finished_def)
    qed
    then show ?thesis using run by blast
  next
    case True
    then have above: "above k \<noteq> NULL" using F above_NULL by (auto simp: focus_def)
    have "\<exists>res. (if tip t = rh_left h (above k) then erase_round_left (tip t) (above k) tree h
                 else erase_round_right (tip t) (above k) tree h) = Inr res \<and>
        outcome tree (plug k t) h (2 * length k + 1) res"
    proof (cases k rule: above.cases)
      case (2 p c r k')
      then have "rh_left h p = tip t" using F by (simp add: focus_def)
      then show ?thesis using erase_round_left_ok [of h tree p c r k' t] F S True 2
        by (auto simp: numeral_3_eq_3)
    next
      case (3 l p c k')
      have l: "rh_left h p = tip l" "l \<noteq> Lf" using F S 3 by (auto simp: focus_def short_def)
      have "set (nodes l) \<inter> set (nodes t) = {}" "tip l \<noteq> NULL"
        using F 3 l(2) by (auto simp: focus_def distinct_plug shape_tip_NULL)
      then have "tip t \<noteq> tip l"
        using tip_in_nodes [of l "tip l"] tip_in_nodes [of t "tip l"] by auto
      then show ?thesis using erase_round_right_ok [of h tree l p c k' t] F S True 3 l
        by (auto simp: numeral_3_eq_3)
    qed (use True in simp)
    then obtain res where res: "(if tip t = rh_left h (above k) then erase_round_left (tip t) (above k) tree h
                 else erase_round_right (tip t) (above k) tree h) = Inr res"
        "outcome tree (plug k t) h (2 * length k + 1) res" by blast
    have run: "erase_fix_loop (tip t) (above k) tree h =
        (case res of Inl (child, parent, h) \<Rightarrow> erase_fix_loop child parent tree h
         | Inr (child, h) \<Rightarrow> Some (Inr (child, h)))"
      using guard True above by (subst erase_fix_loop.simps) (simp add: res(1))
    show ?thesis
    proof (cases res)
      case (Inl a)
      obtain child parent h1 where a: "a = (child, parent, h1)" by (cases a)
      obtain k1 t1 where o: "becomes tree [] (plug k t) h (plug k1 t1) h1" "child = tip t1" "parent = above k1"
          "short k1 t1" "2 * length k1 + (if hue t1 = Red then 0 else 1) < 2 * length k + 1"
        using res(2) Inl a unfolding outcome_def by auto
      have "focus h1 tree k1 t1" using becomes_focus [OF o(1)] by (simp add: focus_plug)
      then obtain ch h' where "erase_fix_loop child parent tree h1 = Some (Inr (ch, h'))"
          "finished tree (plug k1 t1) h1 ch h'"
        using less.hyps [of k1 t1 h1] o True by auto
      then show ?thesis using run finished_step [OF o(1)] Inl a by auto
    next
      case (Inr a)
      obtain child h1 where a: "a = (child, h1)" by (cases a)
      obtain t1 where o: "becomes tree [] (plug k t) h t1 h1" "t1 \<noteq> Lf" "balanced t1" "child = rh_root h1 tree"
        using res(2) Inr a unfolding outcome_def by auto
      show ?thesis using run finished_root [OF o(1-3)] o(4) Inr a by auto
    qed
  qed
qed

lemma rb_erase_fix_ok:
  assumes "focus h tree k t" "short k t"
  shows "\<exists>h' t'. rb_erase_fix (tip t) (above k) tree h = Some (Inr h') \<and>
           becomes tree [] (plug k t) h t' h' \<and> balanced t'"
  using erase_fix_loop_ok [OF assms] by (auto simp: rb_erase_fix_def finished_def)

section \<open>Unlinking a node with at most one child\<close>

lemma unlink_ok:
  assumes F: "focus h tree k (Nd l n c r)" and one: "l = Lf \<and> t = r \<or> r = Lf \<and> t = l"
  shows "focus (set_link tree k (tip t) (if t \<noteq> Lf then rb_set_parent (tip t) (above k) h else h)) tree k t \<and>
         same_off (set (nodes (plug k (Nd l n c r)))) tree h
           (set_link tree k (tip t) (if t \<noteq> Lf then rb_set_parent (tip t) (above k) h else h))"
proof -
  let ?h1 = "if t \<noteq> Lf then rb_set_parent (tip t) (above k) h else h"
  let ?h2 = "set_link tree k (tip t) ?h1"
  note D = focus_nodeD [OF F]
  have sub: "set (nodes t) \<subseteq> set (nodes (Nd l n c r))" "distinct (nodes t)"
      "set (nodes t) \<inter> path_nodes k = {}" "shape h n t"
    using one F by (auto simp: focus_def distinct_plug)
  have tt: "t \<noteq> Lf \<Longrightarrow> tip t \<in> set (nodes t)" by (cases t) auto
  have "t \<noteq> Lf \<Longrightarrow> \<forall>a\<in>path_nodes k. a \<noteq> tip t" using tt sub(3) by auto
  then have same1: "same_at (path_nodes k) h ?h1" by (simp add: same_at_def)
  have p: "path ?h2 tree (tip t) k"
    by (rule path_relink [OF D(1,4) same1]) simp
  have abn: "t \<noteq> Lf \<Longrightarrow> above k \<notin> set (nodes t)"
    using above_in_path [of k] sub(3) shape_null [OF sub(4)] by (cases "k = []") auto
  have "shape ?h2 (above k) t"
  proof (rule shape_reparent [OF sub(4,2)])
    assume t: "t \<noteq> Lf"
    have ne: "tip t \<noteq> above k" using abn tt t by auto
    have "rh_parent h (tip t) = word_of n (hue t)" using sub(4) t by (cases t) auto
    then show "rh_parent ?h2 (tip t) = word_of (above k) (hue t)"
      using t D(12) above_even [OF D(1)] by (simp add: rb_set_parent_word good_addr_def)
    show "rh_left ?h2 (tip t) = rh_left h (tip t) \<and> rh_right ?h2 (tip t) = rh_right h (tip t)"
      using ne by simp
  next
    have "\<forall>a\<in>set (nodes t) - {tip t}. a \<noteq> above k" using abn by (cases "t = Lf") auto
    then show "same_at (set (nodes t) - {tip t}) h ?h2" by (simp add: same_at_def)
  qed
  then have "focus ?h2 tree k t" using p sub D(4) by (simp add: focus_def distinct_plug)
  moreover have "same_off (set (nodes (plug k (Nd l n c r)))) tree h ?h2"
  proof (cases "k = []")
    case True
    have "\<forall>a\<in>- set (nodes (plug k (Nd l n c r))). t \<noteq> Lf \<longrightarrow> a \<noteq> tip t" using tt sub(1) by (auto simp: nodes_plug)
    then show ?thesis using True by (simp add: same_off_def same_at_def set_link_def)
  next
    case False
    have "\<forall>a\<in>- set (nodes (plug k (Nd l n c r))). a \<noteq> above k \<and> (t \<noteq> Lf \<longrightarrow> a \<noteq> tip t)"
      using tt sub(1) above_in_path [OF False] by (auto simp: nodes_plug path_nodes_def)
    then show ?thesis by (simp add: same_off_def same_at_def)
  qed
  ultimately show ?thesis by blast
qed

lemma erase_unlink_link:
  assumes F: "focus h tree k (Nd l n c r)"
    and "rh_parent h' n = rh_parent h n" "rh_left h' (above k) = rh_left h (above k)"
  shows "erase_unlink n y tree h' = set_link tree k y h'"
proof -
  have par: "rb_parent n h' = above k" using focus_nodeD(9) [OF F] assms(2) by (simp add: rb_parent_def)
  show ?thesis
    unfolding erase_unlink_def par by (rule link_code [OF focus_nodeD(1-3) [OF F] assms(3)])
qed

definition erased :: "addr \<Rightarrow> rtree \<Rightarrow> rtree \<Rightarrow> rheap \<Rightarrow> rheap \<Rightarrow> bool" where
  "erased tree T T' h h' \<longleftrightarrow>
     (\<exists>t'. holds h' tree t' \<and> balanced t' \<and> nodes t' = nodes T' \<and> same_off (set (nodes T)) tree h h')"

lemma finish_erase:
  assumes F: "focus h2 tree k t" and off: "same_off A tree h h2" and A: "A = set (nodes T)"
      "set (nodes (plug k t)) \<subseteq> A"
    and bal: "balanced (plug k' (Nd u n c v))" "path_ok k = path_ok k'" "above_hue k = above_hue k'" "k = [] \<longleftrightarrow> k' = []"
      "u = Lf \<and> t = v \<or> v = Lf \<and> t = u"
  shows "\<exists>h'. (if hue_word c = BLACK then rb_erase_fix (tip t) (above k) tree h2 else Some (Inr h2)) = Some (Inr h') \<and>
           erased tree T (plug k t) h h'"
proof (cases "c = Black")
  case True
  have "short k t" using bal True by (auto simp: short_def balanced_plug invc_paint_Black)
  then obtain h' t' where h': "rb_erase_fix (tip t) (above k) tree h2 = Some (Inr h')"
      "becomes tree [] (plug k t) h2 t' h'" "balanced t'"
    using rb_erase_fix_ok [OF F] by blast
  have "same_off A tree h h'"
    using h'(2) A(2) by (auto simp: becomes_def intro: same_off_trans [OF off] elim: same_off_mono)
  then have "erased tree T (plug k t) h h'"
    unfolding erased_def using h' A(1) by (auto simp: becomes_def holds_focus)
  then show ?thesis using True h'(1) by auto
next
  case False
  have "balanced (plug k t)" using bal False by (auto simp: balanced_plug)
  then have "erased tree T (plug k t) h h2"
    unfolding erased_def using F off A(1) by (intro exI [of _ "plug k t"]) (simp add: holds_plug)
  then show ?thesis using False by auto
qed

section \<open>Removing a node\<close>

lemma erase_one_ok:
  assumes F: "focus h tree k (Nd l n c r)" and bal: "balanced (plug k (Nd l n c r))" and one: "l = Lf \<or> r = Lf"
  shows "\<exists>h'. rb_erase n tree h = Some (Inr h') \<and>
           erased tree (plug k (Nd l n c r)) (plug k (if l = Lf then r else l)) h h'"
proof -
  let ?t = "if l = Lf then r else l"
  let ?h1 = "if ?t \<noteq> Lf then rb_set_parent (tip ?t) (above k) h else h"
  note D = focus_nodeD [OF F]
  have one': "l = Lf \<and> ?t = r \<or> r = Lf \<and> ?t = l" using one by auto
  note U = unlink_ok [OF F one']
  have tl: "tip l = NULL \<longleftrightarrow> l = Lf" "tip r = NULL \<longleftrightarrow> r = Lf" using D shape_tip_NULL by blast+
  then have tt: "tip ?t = NULL \<longleftrightarrow> ?t = Lf" by auto
  have nt: "?t \<noteq> Lf \<Longrightarrow> tip ?t \<noteq> n" using D(13,14) tip_in_nodes [of l n] tip_in_nodes [of r n] D(2) by auto
  have e1: "erase_one n h = (tip ?t, above k, hue_word c, ?h1)"
    using tl tt D(7-10) by (auto simp: erase_one_def Let_def)
  have un: "erase_unlink n (tip ?t) tree ?h1 = set_link tree k (tip ?t) ?h1"
    by (rule erase_unlink_link [OF F]) (use nt in auto)
  have run: "rb_erase n tree h = (if hue_word c = BLACK
      then rb_erase_fix (tip ?t) (above k) tree (set_link tree k (tip ?t) ?h1)
      else Some (Inr (set_link tree k (tip ?t) ?h1)))"
    using one D(2,7,8) tl e1 un by (auto simp: rb_erase_def Let_def)
  have "\<exists>h'. (if hue_word c = BLACK
      then rb_erase_fix (tip ?t) (above k) tree (set_link tree k (tip ?t) ?h1)
      else Some (Inr (set_link tree k (tip ?t) ?h1))) = Some (Inr h') \<and>
      erased tree (plug k (Nd l n c r)) (plug k ?t) h h'"
    by (rule finish_erase [OF conjunct1 [OF U] conjunct2 [OF U] refl _ bal refl refl refl one'])
      (auto simp: nodes_plug)
  then show ?thesis using run by simp
qed

lemma path_append: "before (k @ k') = before k' @ before k" "after (k @ k') = after k @ after k'"
  by (induction k rule: before.induct; simp)+

lemma leftmost_split: "r \<noteq> Lf \<Longrightarrow> \<exists>k x d rr. r = plug k (Nd Lf x d rr) \<and> before k = []"
proof (induction r)
  case (Nd l n c r)
  show ?case
  proof (cases "l = Lf")
    case True
    then show ?thesis by (intro exI [of _ "[]"]) auto
  next
    case False
    then obtain k x d rr where "l = plug k (Nd Lf x d rr)" "before k = []" using Nd.IH(1) by blast
    then have "Nd l n c r = plug (k @ [InLeft n c r]) (Nd Lf x d rr)" "before (k @ [InLeft n c r]) = []"
      by (simp_all add: plug_append path_append)
    then show ?thesis by blast
  qed
qed simp

lemma path_ok_rename: "path_ok (k @ InRight l n c # k') b \<longleftrightarrow> path_ok (k @ InRight l m c # k') b"
proof (induction k arbitrary: b rule: before.induct)
  case (2 n1 c1 r1 k)
  have "above_hue (k @ InRight l n c # k') = above_hue (k @ InRight l m c # k')"
    by (cases k rule: above.cases) simp_all
  then show ?case using 2 by simp
next
  case (3 l1 n1 c1 k)
  have "above_hue (k @ InRight l n c # k') = above_hue (k @ InRight l m c # k')"
    by (cases k rule: above.cases) simp_all
  then show ?case using 3 by simp
qed simp

definition tips :: "rtree \<Rightarrow> addr set" where
  "tips t = (if t = Lf then {} else {tip t})"

lemma tips_nodes: "tips t \<subseteq> set (nodes t)"
  by (cases t) (auto simp: tips_def)

lemma tip_plug: "k \<noteq> [] \<Longrightarrow> tip (plug k t) = tip (plug k u)"
proof (induction k arbitrary: t u rule: before.induct)
  case (2 n c r k)
  then show ?case by (cases "k = []") auto
next
  case (3 l n c k)
  then show ?case by (cases "k = []") auto
qed simp

lemma tip_plug_path: "k \<noteq> [] \<Longrightarrow> tip (plug k t) \<in> path_nodes k"
proof (induction k arbitrary: t rule: before.induct)
  case (2 n c r k)
  then show ?case by (cases "k = []") auto
next
  case (3 l n c k)
  then show ?case by (cases "k = []") auto
qed simp

text \<open>Another node taking over the place, the colour and the children of a node.\<close>

lemma swap_in:
  assumes F: "focus hA tree k (Nd l n c r)" and x: "good_addr x" "x \<notin> set (nodes (plug k (Nd l n c r)))"
    and fx: "rh_left h' x = tip l" "rh_right h' x = tip r" "rh_parent h' x = word_of (above k) c"
    and l: "l \<noteq> Lf \<Longrightarrow> rh_parent h' (tip l) = word_of x (hue l) \<and>
              rh_left h' (tip l) = rh_left hA (tip l) \<and> rh_right h' (tip l) = rh_right hA (tip l)"
    and r: "r \<noteq> Lf \<Longrightarrow> rh_parent h' (tip r) = word_of x (hue r) \<and>
              rh_left h' (tip r) = rh_left hA (tip r) \<and> rh_right h' (tip r) = rh_right hA (tip r)"
    and S: "same_at (- ({n, x} \<union> tips l \<union> tips r)) hA h'" "rh_root h' = rh_root hA"
  shows "focus (set_link tree k x h') tree k (Nd l x c r) \<and>
         same_off (insert x (set (nodes (plug k (Nd l n c r))))) tree hA (set_link tree k x h')"
proof -
  let ?h = "set_link tree k x h'"
  note D = focus_nodeD [OF F]
  have dj: "distinct (nodes l @ n # nodes r)" "set (nodes l @ n # nodes r) \<inter> path_nodes k = {}"
      "distinct (before k @ after k)"
    using F by (simp_all add: focus_def distinct_plug)
  have x': "x \<noteq> n" "x \<notin> set (nodes l)" "x \<notin> set (nodes r)" "x \<notin> path_nodes k" "x \<noteq> NULL"
    using x by (auto simp: nodes_plug path_nodes_def good_addr_def)
  have nn: "NULL \<notin> set (nodes l)" "NULL \<notin> set (nodes r)" using D shape_null by blast+
  have ab: "above k \<notin> set (nodes l)" "above k \<notin> set (nodes r)" "above k \<noteq> x" "above k \<noteq> n"
    using above_in_path [of k] dj(2) nn x' D(2) by (cases "k = []"; auto)+
  have p: "path ?h tree x k"
  proof (rule path_relink [OF D(1) dj(3)])
    show "same_at (path_nodes k) hA h'"
      using dj(2) x' tips_nodes [of l] tips_nodes [of r] by (intro same_at_mono [OF S(1)]) auto
  qed (simp add: S(2))
  have shl: "shape ?h x l"
  proof (rule shape_reparent [OF D(5)])
    show "distinct (nodes l)" using dj by simp
    show "same_at (set (nodes l) - {tip l}) hA ?h"
    proof -
      have "same_at (set (nodes l) - {tip l}) hA h'"
        using dj(1) x' tips_nodes [of r] by (intro same_at_mono [OF S(1)]) (auto simp: tips_def)
      moreover have "\<forall>a\<in>set (nodes l) - {tip l}. a \<noteq> above k" using ab by auto
      ultimately show ?thesis by (simp add: same_at_def)
    qed
    assume nl: "l \<noteq> Lf"
    then have "tip l \<noteq> above k" using ab tips_nodes [of l] by (auto simp: tips_def)
    then show "rh_left ?h (tip l) = rh_left hA (tip l) \<and> rh_right ?h (tip l) = rh_right hA (tip l)"
      and "rh_parent ?h (tip l) = word_of x (hue l)" using l [OF nl] by simp_all
  qed
  have shr: "shape ?h x r"
  proof (rule shape_reparent [OF D(6)])
    show "distinct (nodes r)" using dj by simp
    show "same_at (set (nodes r) - {tip r}) hA ?h"
    proof -
      have "same_at (set (nodes r) - {tip r}) hA h'"
        using dj(1) x' tips_nodes [of l] by (intro same_at_mono [OF S(1)]) (auto simp: tips_def)
      moreover have "\<forall>a\<in>set (nodes r) - {tip r}. a \<noteq> above k" using ab by auto
      ultimately show ?thesis by (simp add: same_at_def)
    qed
    assume nr: "r \<noteq> Lf"
    then have "tip r \<noteq> above k" using ab tips_nodes [of r] by (auto simp: tips_def)
    then show "rh_left ?h (tip r) = rh_left hA (tip r) \<and> rh_right ?h (tip r) = rh_right hA (tip r)"
      and "rh_parent ?h (tip r) = word_of x (hue r)" using r [OF nr] by simp_all
  qed
  have "focus ?h tree k (Nd l x c r)"
    using x(1) x' fx ab p shl shr dj by (simp add: focus_def distinct_plug)
  moreover have "same_off (insert x (set (nodes (plug k (Nd l n c r))))) tree hA ?h"
  proof (cases "k = []")
    case True
    have "same_at (- insert x (set (nodes (plug k (Nd l n c r))))) hA h'"
      using tips_nodes [of l] tips_nodes [of r] by (intro same_at_mono [OF S(1)]) (auto simp: nodes_plug)
    then show ?thesis using True S(2) by (simp add: same_off_def same_at_def set_link_def)
  next
    case False
    have "same_at (- insert x (set (nodes (plug k (Nd l n c r))))) hA h'"
      using tips_nodes [of l] tips_nodes [of r] by (intro same_at_mono [OF S(1)]) (auto simp: nodes_plug)
    moreover have "\<forall>a\<in>- insert x (set (nodes (plug k (Nd l n c r)))). a \<noteq> above k"
      using above_in_path [OF False] by (auto simp: nodes_plug path_nodes_def)
    ultimately show ?thesis using S(2) by (simp add: same_off_def same_at_def)
  qed
  ultimately show ?thesis by blast
qed

lemma set_link_root: "k \<noteq> [] \<Longrightarrow> rh_root (set_link tree k y h) = rh_root h"
  by (cases k rule: above.cases) (simp_all add: set_link_def)

lemma erase_two_ok:
  assumes F: "focus h tree k (Nd l n c r)" and r: "r = plug k2 (Nd Lf x d rr)" "before k2 = []"
    and nl: "l \<noteq> Lf"
  shows "\<exists>h'. erase_two n x h = Inr (tip rr, above (k2 @ InRight l x c # k), hue_word d, h') \<and>
           erase_unlink n x tree h' = set_link tree k x h' \<and>
           focus (set_link tree k x h') tree (k2 @ InRight l x c # k) rr \<and>
           same_off (set (nodes (plug k (Nd l n c r)))) tree h (set_link tree k x h')"
proof -
  let ?kx = "k2 @ InRight l n c # k"
  have FX: "focus h tree ?kx (Nd Lf x d rr)"
    using F r by (simp add: focus_in_right focus_plug)
  define hA where "hA = set_link tree ?kx (tip rr) (if rr \<noteq> Lf then rb_set_parent (tip rr) (above ?kx) h else h)"
  have UA: "focus hA tree ?kx rr" "same_off (set (nodes (plug ?kx (Nd Lf x d rr)))) tree h hA"
    using unlink_ok [OF FX, of rr] by (simp_all add: hA_def)
  have FA: "focus hA tree k (Nd l n c (plug k2 rr))"
    using UA(1) by (simp add: focus_in_right focus_plug)
  have rootA: "rh_root hA = rh_root h" unfolding hA_def by (subst set_link_root) auto
  note D = focus_nodeD [OF F] and DX = focus_nodeD [OF FX] and DA = focus_nodeD [OF FA]
  have set: "set (nodes (plug k (Nd l n c r))) = insert x (set (nodes (plug k (Nd l n c (plug k2 rr)))))"
    using r by (auto simp: nodes_plug)
  have xout: "x \<notin> set (nodes (plug k (Nd l n c (plug k2 rr))))"
    using F r unfolding focus_def by (auto simp: nodes_plug)
  have ne: "x \<noteq> n" "x \<noteq> tip l" "x \<noteq> NULL" "n \<noteq> NULL" "tip l \<noteq> n" "tip l \<noteq> NULL"
      "tip l \<in> set (nodes l)" "x \<notin> set (nodes l)" "x \<notin> set (nodes rr)" "n \<notin> set (nodes rr)"
      "tip l \<notin> set (nodes rr)" "n \<notin> set (nodes l)" "x \<noteq> tip (plug k2 rr)"
    using xout DX(2,12) D(2,13) nl tips_nodes [of l] shape_null [OF D(5)] F r(1)
      tip_in_nodes [of "plug k2 rr" x]
    by (auto simp: tips_def nodes_plug focus_def)
  have rrt: "rr \<noteq> Lf \<Longrightarrow> tip rr \<in> set (nodes rr)" "tip rr = NULL \<longleftrightarrow> rr = Lf"
    using tips_nodes [of rr] shape_tip_NULL [OF DX(6)] by (auto simp: tips_def)
  have lw: "rh_parent h (tip l) = word_of n (hue l)" using D(5) nl by (cases l) auto
  have ev: "n AND 1 = 0" "x AND 1 = 0" using D(12) DX(12) by (simp_all add: good_addr_def)
  have main: "\<exists>h'. erase_two n x h = Inr (tip rr, above (k2 @ InRight l x c # k), hue_word d, h') \<and>
      rh_parent h' n = rh_parent h n \<and> rh_left h' (above k) = rh_left h (above k) \<and>
      focus (set_link tree k x h') tree k (Nd l x c (plug k2 rr)) \<and>
      same_off (insert x (set (nodes (plug k (Nd l n c (plug k2 rr)))))) tree hA (set_link tree k x h')"
  proof (cases "k2 = []")
    case True
    have rn: "rh_right h n = x" using D(8) r True by simp
    define h' where "h' = rb_set_parent (tip l) x (set_parent_word x (rh_parent h n) (set_left x (tip l) h))"
    have run: "erase_two n x h = Inr (tip rr, x, hue_word d, h')"
      using ne rn DX(8,10) D(7) by (simp add: erase_two_def h'_def Let_def)
    have abx: "above k \<noteq> x" "above k \<noteq> tip l"
      using ne xout above_in_path [of k] F by (cases "k = []"; auto simp: nodes_plug path_nodes_def focus_def)+
    have rrx: "rr \<noteq> Lf \<Longrightarrow> tip rr \<noteq> x \<and> tip rr \<noteq> tip l \<and> tip rr \<noteq> n" using rrt ne by auto
    have "focus (set_link tree k x h') tree k (Nd l x c (plug k2 rr)) \<and>
      same_off (insert x (set (nodes (plug k (Nd l n c (plug k2 rr)))))) tree hA (set_link tree k x h')"
    proof (rule swap_in [OF FA DX(12) xout])
      show "rh_left h' x = tip l" "rh_right h' x = tip (plug k2 rr)" "rh_parent h' x = word_of (above k) c"
        using ne True DX(8) D(11) by (simp_all add: h'_def)
      show "rh_parent h' (tip l) = word_of x (hue l) \<and> rh_left h' (tip l) = rh_left hA (tip l) \<and>
          rh_right h' (tip l) = rh_right hA (tip l)"
        using ne lw ev True by (simp add: h'_def hA_def set_link_def rb_set_parent_word [where p = n])
      show "rh_parent h' (tip (plug k2 rr)) = word_of x (hue (plug k2 rr)) \<and>
          rh_left h' (tip (plug k2 rr)) = rh_left hA (tip (plug k2 rr)) \<and>
          rh_right h' (tip (plug k2 rr)) = rh_right hA (tip (plug k2 rr))" if q: "plug k2 rr \<noteq> Lf"
      proof -
        have "rh_parent h (tip rr) = word_of x (hue rr)" using DX(6) q True by (cases rr) auto
        then show ?thesis using rrx q True by (simp add: h'_def hA_def set_link_def)
      qed
      show "same_at (- ({n, x} \<union> tips l \<union> tips (plug k2 rr))) hA h'"
        using True nl by (auto simp: same_at_def tips_def h'_def hA_def set_link_def)
      show "rh_root h' = rh_root hA" by (simp add: rootA h'_def)
    qed
    then show ?thesis using run True ne abx by (auto simp: h'_def)
  next
    case False
    obtain p0 c0 r0 k2' where k2: "k2 = InLeft p0 c0 r0 # k2'"
      using False r(2) by (cases k2 rule: above.cases) auto
    have p0: "p0 \<noteq> NULL" "p0 \<noteq> x" "p0 \<noteq> n" "p0 \<notin> set (nodes l)" "p0 \<notin> set (nodes rr)" "p0 \<notin> path_nodes k"
        "p0 \<in> set (nodes (plug k2 rr))"
      using FX k2 F r by (auto simp: focus_def good_addr_def nodes_plug path_append path_nodes_def)
    have rt: "tip r = tip (plug k2 rr)" using r tip_plug [OF False] by metis
    have tr: "tip r \<in> set (nodes (plug k2 rr))" "tip r \<noteq> tip rr" "tip r \<noteq> NULL" "tip r \<notin> set (nodes l)"
        "tip r \<noteq> x" "tip r \<noteq> n" "tip r \<notin> path_nodes k"
    proof -
      have t: "tip r \<in> path_nodes k2" using tip_plug_path [OF False, of "Nd Lf x d rr"] r by simp
      then have "tip r \<in> set (nodes (plug k2 rr))" by (auto simp: nodes_plug path_nodes_def)
      have ta: "tip r \<in> set (after k2)" using t r(2) by (simp add: path_nodes_def)
      have d: "distinct ((before k @ nodes l @ [n]) @ (x # nodes rr) @ after k2 @ after k)"
        using FX r(2) by (simp add: focus_def nodes_plug path_append)
      have nN: "NULL \<notin> path_nodes ?kx" using focus_good [OF FX, of NULL] by (auto simp: good_addr_def)
      show "tip r \<in> set (nodes (plug k2 rr))" by fact
      show "tip r \<noteq> NULL" using nN ta by (auto simp: path_nodes_def path_append)
      then show "tip r \<noteq> tip rr" using d ta rrt by (cases "rr = Lf") auto
      show "tip r \<notin> set (nodes l)" "tip r \<noteq> x" "tip r \<noteq> n" "tip r \<notin> path_nodes k"
        using d ta by (auto simp: path_nodes_def)
    qed
    define h3 where "h3 = set_left p0 (tip rr)
        (set_parent_word x (rh_parent h n) (set_right x (tip r) (set_left x (tip l) h)))"
    define hB where "hB = (if tip rr \<noteq> NULL then rb_set_parent (tip rr) p0 h3 else h3)"
    define h' where "h' = rb_set_parent (tip r) x (rb_set_parent (tip l) x hB)"
    have "rb_parent x h = p0" using DX(9) k2 by simp
    moreover have "x \<noteq> rh_right h n" using D(8) tr(5) by simp
    moreover have "rh_left (rb_set_parent (tip l) x hB) x = tip l" "rh_left hB x = tip l" "rh_right hB x = tip r"
      using p0 by (simp_all add: hB_def h3_def)
    ultimately have run: "erase_two n x h = Inr (tip rr, p0, hue_word d, h')"
      using ne p0 DX(8,10) D(7,8) by (simp add: erase_two_def Let_def h'_def hB_def h3_def)
    have abx: "above k \<noteq> x" "above k \<noteq> p0"
      using xout p0 ne above_in_path [of k] by (cases "k = []"; auto simp: nodes_plug path_nodes_def)+
    have same: "same_at (- {x}) hA hB" "rh_root hB = rh_root hA"
      using rootA ne rrt k2 by (auto simp: same_at_def hA_def hB_def h3_def set_link_def rb_set_parent_def set_parent_word_def)
    have "rr \<noteq> Lf \<Longrightarrow> x \<noteq> tip rr" using ne rrt by auto
    then have xB: "rh_left hB x = tip l" "rh_right hB x = tip r" "rh_parent hB x = word_of (above k) c"
      using p0 ne rrt D(11) by (auto simp: hB_def h3_def)
    have pA: "rh_parent hA (tip l) = word_of n (hue l)" "rh_parent hA (tip r) = word_of n (hue (plug k2 rr))"
      using DA(5,6) nl rt False by (cases l; cases "plug k2 rr"; simp)+
    have lr: "tip l \<noteq> tip r" using ne(7) tr(4) by auto
    have pB: "rh_parent hB (tip l) = word_of n (hue l)" "rh_parent hB (tip r) = word_of n (hue (plug k2 rr))"
      using same(1) pA ne tr by (simp_all add: same_at_def)
    have kids: "rh_left hB (tip l) = rh_left hA (tip l) \<and> rh_right hB (tip l) = rh_right hA (tip l)"
        "rh_left hB (tip r) = rh_left hA (tip r) \<and> rh_right hB (tip r) = rh_right hA (tip r)"
      using same(1) ne tr by (simp_all add: same_at_def)
    have "focus (set_link tree k x h') tree k (Nd l x c (plug k2 rr)) \<and>
      same_off (insert x (set (nodes (plug k (Nd l n c (plug k2 rr)))))) tree hA (set_link tree k x h')"
    proof (rule swap_in [OF FA DX(12) xout])
      show "rh_left h' x = tip l" "rh_right h' x = tip (plug k2 rr)" "rh_parent h' x = word_of (above k) c"
        using ne xB rt tr by (simp_all add: h'_def)
      show "rh_parent h' (tip l) = word_of x (hue l) \<and> rh_left h' (tip l) = rh_left hA (tip l) \<and>
          rh_right h' (tip l) = rh_right hA (tip l)"
        using lr kids rb_set_parent_word [OF pB(1) ev] by (simp add: h'_def)
      show "rh_parent h' (tip (plug k2 rr)) = word_of x (hue (plug k2 rr)) \<and>
          rh_left h' (tip (plug k2 rr)) = rh_left hA (tip (plug k2 rr)) \<and>
          rh_right h' (tip (plug k2 rr)) = rh_right hA (tip (plug k2 rr))"
      proof -
        have "rh_parent (rb_set_parent (tip l) x hB) (tip r) = word_of n (hue (plug k2 rr))" using lr pB by simp
        from rb_set_parent_word [OF this ev] show ?thesis using kids by (simp add: h'_def flip: rt)
      qed
      show "same_at (- ({n, x} \<union> tips l \<union> tips (plug k2 rr))) hA h'"
        using same(1) nl False rt by (auto simp: same_at_def tips_def h'_def)
      show "rh_root h' = rh_root hA" by (simp add: same(2) h'_def)
    qed
    moreover have "rr \<noteq> Lf \<Longrightarrow> n \<noteq> tip rr" using ne rrt by auto
    then have "rh_parent h' n = rh_parent h n" "rh_left h' (above k) = rh_left h (above k)"
      using ne tr p0 abx rrt by (auto simp: h'_def hB_def h3_def)
    ultimately show ?thesis using run k2 by auto
  qed
  then obtain h' where h': "erase_two n x h = Inr (tip rr, above (k2 @ InRight l x c # k), hue_word d, h')"
      "rh_parent h' n = rh_parent h n" "rh_left h' (above k) = rh_left h (above k)"
      "focus (set_link tree k x h') tree k (Nd l x c (plug k2 rr))"
      "same_off (insert x (set (nodes (plug k (Nd l n c (plug k2 rr)))))) tree hA (set_link tree k x h')"
    by blast
  have "erase_unlink n x tree h' = set_link tree k x h'"
    by (rule erase_unlink_link [OF F h'(2,3)])
  moreover have "focus (set_link tree k x h') tree (k2 @ InRight l x c # k) rr"
    using h'(4) by (simp add: focus_in_right focus_plug)
  moreover have "same_off (set (nodes (plug k (Nd l n c r)))) tree h (set_link tree k x h')"
    unfolding set
    by (rule same_off_trans [OF same_off_mono [OF UA(2)] h'(5)]) (auto simp: nodes_plug path_append)
  ultimately show ?thesis using h'(1) by blast
qed

theorem rb_erase_ok:
  assumes H: "holds h tree t" and bal: "balanced t" and n: "nodes t = xs @ n # ys"
  shows "\<exists>h' t'. rb_erase n tree h = Some (Inr h') \<and> holds h' tree t' \<and> balanced t' \<and>
           nodes t' = xs @ ys \<and> same_off (set (nodes t)) tree h h'"
proof -
  obtain k l c r where t: "t = plug k (Nd l n c r)" "focus h tree k (Nd l n c r)"
    "xs = before k @ nodes l" "ys = nodes r @ after k"
    by (rule focus_at [OF H n])
  note F = t(2) and D = focus_nodeD [OF t(2)]
  show ?thesis
  proof (cases "l = Lf \<or> r = Lf")
    case True
    then have "nodes (plug k (if l = Lf then r else l)) = xs @ ys" using t by (auto simp: nodes_plug)
    then show ?thesis using erase_one_ok [OF F _ True] bal t(1) by (auto simp: erased_def)
  next
    case False
    then obtain k2 x d rr where r: "r = plug k2 (Nd Lf x d rr)" "before k2 = []"
      using leftmost_split by blast
    obtain h' where h': "erase_two n x h = Inr (tip rr, above (k2 @ InRight l x c # k), hue_word d, h')"
        "erase_unlink n x tree h' = set_link tree k x h'"
        "focus (set_link tree k x h') tree (k2 @ InRight l x c # k) rr"
        "same_off (set (nodes (plug k (Nd l n c r)))) tree h (set_link tree k x h')"
      using erase_two_ok [OF F r] False by blast
    have nx: "rb_next n h = Some x" using rb_next_focus [OF F] r by (simp add: nodes_plug)
    have lr: "rh_left h n \<noteq> NULL" "rh_right h n \<noteq> NULL"
      using D False shape_tip_NULL by auto
    have run: "rb_erase n tree h = (if hue_word d = BLACK
        then rb_erase_fix (tip rr) (above (k2 @ InRight l x c # k)) tree (set_link tree k x h')
        else Some (Inr (set_link tree k x h')))"
      using D(2) lr nx h'(1,2) by (simp add: rb_erase_def)
    have bal': "balanced (plug (k2 @ InRight l n c # k) (Nd Lf x d rr))"
      using bal t(1) r by (simp add: plug_append)
    have "\<exists>h2. (if hue_word d = BLACK
        then rb_erase_fix (tip rr) (above (k2 @ InRight l x c # k)) tree (set_link tree k x h')
        else Some (Inr (set_link tree k x h'))) = Some (Inr h2) \<and>
        erased tree t (plug (k2 @ InRight l x c # k) rr) h h2"
    proof (rule finish_erase [OF h'(3,4)])
      show "balanced (plug (k2 @ InRight l n c # k) (Nd Lf x d rr))" by (rule bal')
      show "path_ok (k2 @ InRight l x c # k) = path_ok (k2 @ InRight l n c # k)"
        using path_ok_rename by blast
      show "above_hue (k2 @ InRight l x c # k) = above_hue (k2 @ InRight l n c # k)"
        by (cases k2 rule: above.cases) simp_all
    qed (use t r in \<open>auto simp: nodes_plug path_append plug_append\<close>)
    then obtain h2 where "rb_erase n tree h = Some (Inr h2)" "erased tree t (plug (k2 @ InRight l x c # k) rr) h h2"
      using run by auto
    then show ?thesis using t r by (auto simp: erased_def nodes_plug path_append)
  qed
qed

end
