(* ===== verification/RBSeq.thy ===== *)
theory RBSeq
  imports RBErase
begin

text \<open>
  What a user of the tree relies on: a tree is a sequence of nodes in which a new node can be put
  into any gap and any node be taken out. The interface is a locale; the links of the code are its
  interpretation, and what follows from the interface is proved once.
\<close>

section \<open>The interface\<close>

text \<open>
  \<open>seq h tree xs\<close>: the heap \<open>h\<close> has the sequence \<open>xs\<close> at \<open>tree\<close>. \<open>gap h tree plink parent xs ys\<close>: between
  \<open>xs\<close> and \<open>ys\<close> there is the empty link \<open>plink\<close> of the node \<open>parent\<close>. \<open>keeps A tree h h'\<close>: outside the
  nodes \<open>A\<close> and the root of \<open>tree\<close> nothing has changed.
\<close>

locale ordered_nodes =
  fixes seq :: "'h \<Rightarrow> addr \<Rightarrow> addr list \<Rightarrow> bool"
    and gap :: "'h \<Rightarrow> addr \<Rightarrow> 'l \<Rightarrow> addr \<Rightarrow> addr list \<Rightarrow> addr list \<Rightarrow> bool"
    and keeps :: "addr set \<Rightarrow> addr \<Rightarrow> 'h \<Rightarrow> 'h \<Rightarrow> bool"
    and insert_at :: "addr \<Rightarrow> addr \<Rightarrow> 'l \<Rightarrow> addr \<Rightarrow> 'h \<Rightarrow> 'h res option"
    and erase :: "addr \<Rightarrow> addr \<Rightarrow> 'h \<Rightarrow> 'h res option"
    and succ_of :: "addr \<Rightarrow> 'h \<Rightarrow> addr option"
    and pred_of :: "addr \<Rightarrow> 'h \<Rightarrow> addr option"
    and first_node :: "addr \<Rightarrow> 'h \<Rightarrow> addr option"
    and last_node :: "addr \<Rightarrow> 'h \<Rightarrow> addr option"
  assumes seq_first: "seq h tree xs \<Longrightarrow> first_node tree h = Some (first_of xs)"
    and seq_last: "seq h tree xs \<Longrightarrow> last_node tree h = Some (last_of xs)"
    and seq_succ: "seq h tree (xs @ n # ys) \<Longrightarrow> succ_of n h = Some (first_of ys)"
    and seq_pred: "seq h tree (xs @ n # ys) \<Longrightarrow> pred_of n h = Some (last_of xs)"
    and seq_erase: "seq h tree (xs @ n # ys) \<Longrightarrow>
      \<exists>h'. erase n tree h = Some (Inr h') \<and> seq h' tree (xs @ ys) \<and> keeps (set (xs @ n # ys)) tree h h'"
    and seq_insert: "gap h tree plink parent xs ys \<Longrightarrow> good_addr n \<Longrightarrow> n \<notin> set (xs @ ys) \<Longrightarrow>
      \<exists>h'. insert_at n parent plink tree h = Some (Inr h') \<and> seq h' tree (xs @ n # ys) \<and>
        keeps (set (xs @ n # ys)) tree h h'"
    and seq_nodes: "seq h tree xs \<Longrightarrow> distinct xs \<and> (\<forall>n\<in>set xs. good_addr n)"
    and keeps_seq: "seq h t2 ys \<Longrightarrow> keeps A tree h h' \<Longrightarrow> t2 \<noteq> tree \<Longrightarrow> set ys \<inter> A = {} \<Longrightarrow> seq h' t2 ys"
    and keeps_trans: "keeps A tree h h1 \<Longrightarrow> keeps A tree h1 h2 \<Longrightarrow> keeps A tree h h2"
begin

lemma insert_then_erase:
  assumes "gap h tree plink parent xs ys" "good_addr n" "n \<notin> set (xs @ ys)"
  shows "\<exists>h1 h2. insert_at n parent plink tree h = Some (Inr h1) \<and> erase n tree h1 = Some (Inr h2) \<and>
           seq h2 tree (xs @ ys) \<and> keeps (set (xs @ n # ys)) tree h h2"
  using seq_insert [OF assms] seq_erase [of _ tree xs n ys] by (blast intro: keeps_trans)

lemma insert_neighbours:
  assumes "gap h tree plink parent xs ys" "good_addr n" "n \<notin> set (xs @ ys)"
  shows "\<exists>h1. insert_at n parent plink tree h = Some (Inr h1) \<and>
           succ_of n h1 = Some (first_of ys) \<and> pred_of n h1 = Some (last_of xs)"
  using seq_insert [OF assms] seq_succ [of _ tree xs n ys] seq_pred [of _ tree xs n ys] by blast

lemma succ_pred:
  assumes "seq h tree (xs @ m # n # ys)"
  shows "succ_of m h = Some n \<and> pred_of n h = Some m"
  using seq_succ [of h tree xs m "n # ys"] seq_pred [of h tree "xs @ [m]" n ys] assms by simp

lemma erase_first_all:
  "seq h tree xs \<Longrightarrow> \<exists>h'. fold (\<lambda>n r. bindO r (erase n tree)) xs (Some (Inr h)) = Some (Inr h') \<and> seq h' tree []"
proof (induction xs arbitrary: h)
  case (Cons x xs)
  then show ?case using seq_erase [of h tree "[]" x xs] by fastforce
qed simp

end

section \<open>The links of the code\<close>

definition rb_seq :: "rheap \<Rightarrow> addr \<Rightarrow> addr list \<Rightarrow> bool" where
  "rb_seq h tree xs \<longleftrightarrow> (\<exists>t. holds h tree t \<and> balanced t \<and> nodes t = xs)"

definition rb_gap :: "rheap \<Rightarrow> addr \<Rightarrow> rb_slot \<Rightarrow> addr \<Rightarrow> addr list \<Rightarrow> addr list \<Rightarrow> bool" where
  "rb_gap h tree plink parent xs ys \<longleftrightarrow>
     (\<exists>k. holds h tree (plug k Lf) \<and> balanced (plug k Lf) \<and> plink = slot_of tree k \<and> parent = above k \<and>
        xs = before k \<and> ys = after k)"

definition rb_keeps :: "addr set \<Rightarrow> addr \<Rightarrow> rheap \<Rightarrow> rheap \<Rightarrow> bool" where
  "rb_keeps A tree h h' \<longleftrightarrow> same_off A tree h h'"

definition rb_insert_at :: "addr \<Rightarrow> addr \<Rightarrow> rb_slot \<Rightarrow> addr \<Rightarrow> rheap \<Rightarrow> rheap res option" where
  "rb_insert_at n parent plink tree h = rb_insert n tree (rb_link n parent plink h)"

lemma shape_nodes_good: "holds h tree t \<Longrightarrow> \<forall>n\<in>set (nodes t). good_addr n"
  by (auto simp: holds_def dest: shape_good)

interpretation rb: ordered_nodes rb_seq rb_gap rb_keeps rb_insert_at rb_erase rb_next rb_prev rb_leftmost rb_rightmost
proof
  show "rb_leftmost tree h = Some (first_of xs)" if "rb_seq h tree xs" for h tree xs
    using that by (auto simp: rb_seq_def rb_leftmost_ok)
  show "rb_rightmost tree h = Some (last_of xs)" if "rb_seq h tree xs" for h tree xs
    using that by (auto simp: rb_seq_def rb_rightmost_ok)
  show "rb_next n h = Some (first_of ys)" if "rb_seq h tree (xs @ n # ys)" for h tree xs n ys
    using that by (auto simp: rb_seq_def intro: rb_next_ok)
  show "rb_prev n h = Some (last_of xs)" if "rb_seq h tree (xs @ n # ys)" for h tree xs n ys
    using that by (auto simp: rb_seq_def intro: rb_prev_ok)
  show "\<exists>h'. rb_erase n tree h = Some (Inr h') \<and> rb_seq h' tree (xs @ ys) \<and> rb_keeps (set (xs @ n # ys)) tree h h'"
    if s: "rb_seq h tree (xs @ n # ys)" for h tree xs n ys
  proof -
    obtain t where t: "holds h tree t" "balanced t" "nodes t = xs @ n # ys" using s by (auto simp: rb_seq_def)
    obtain h' t' where "rb_erase n tree h = Some (Inr h')" "holds h' tree t'" "balanced t'" "nodes t' = xs @ ys"
        "same_off (set (nodes t)) tree h h'"
      using rb_erase_ok [OF t] by blast
    then show ?thesis using t(3) by (auto simp: rb_seq_def rb_keeps_def)
  qed
  show "\<exists>h'. rb_insert_at n parent plink tree h = Some (Inr h') \<and> rb_seq h' tree (xs @ n # ys) \<and>
        rb_keeps (set (xs @ n # ys)) tree h h'"
    if g: "rb_gap h tree plink parent xs ys" and n: "good_addr n" "n \<notin> set (xs @ ys)"
    for h tree plink parent xs ys n
  proof -
    obtain k where k: "holds h tree (plug k Lf)" "balanced (plug k Lf)" "plink = slot_of tree k" "parent = above k"
        "xs = before k" "ys = after k"
      using g by (auto simp: rb_gap_def)
    have "n \<notin> path_nodes k" using n(2) k by (simp add: path_nodes_def)
    then show ?thesis
      using rb_insert_link_ok [OF k(1,2) n(1)] k
      by (auto simp: rb_insert_at_def rb_seq_def rb_keeps_def path_nodes_def)
  qed
  show "distinct xs \<and> (\<forall>n\<in>set xs. good_addr n)" if "rb_seq h tree xs" for h tree xs
    using that shape_nodes_good unfolding rb_seq_def holds_def by blast
  show "rb_seq h' t2 ys" if "rb_seq h t2 ys" "rb_keeps A tree h h'" "t2 \<noteq> tree" "set ys \<inter> A = {}" for h t2 ys A tree h'
    using that holds_frame unfolding rb_seq_def rb_keeps_def by blast
  show "rb_keeps A tree h h2" if "rb_keeps A tree h h1" "rb_keeps A tree h1 h2" for A tree h h1 h2
    using that same_off_trans unfolding rb_keeps_def by blast
qed

lemma rb_seq_empty: "rb_seq h tree [] \<longleftrightarrow> rh_root h tree = NULL"
proof
  assume "rb_seq h tree []"
  then show "rh_root h tree = NULL" by (auto simp: rb_seq_def holds_def)
next
  assume "rh_root h tree = NULL"
  then have "holds h tree Lf" by (simp add: holds_def)
  then show "rb_seq h tree []" unfolding rb_seq_def by (intro exI [of _ Lf]) (simp add: balanced_def)
qed

end
