(* ===== verification/BallocPool.thy ===== *)
theory BallocPool
  imports Balloc RBSeq
begin

text \<open>
  The node pool of the bootstrap allocator: every node is either in one of the trees, or on the list
  of unused nodes, or loose in the hands of the running operation, although tree links and list
  links are the same words.
\<close>

section \<open>List links and tree links on the same words\<close>

lemma ll_view_sel [simp]: "lh_next (ll_view h) = rh_left h" "lh_prev (ll_view h) = rh_right h"
  by (simp_all add: ll_view_def)

lemma ll_view_on_ll [simp]: "ll_view (on_ll f h) = f (ll_view h)"
  by (simp add: ll_view_def on_ll_def)

lemma on_ll_sel [simp]: "rh_parent (on_ll f h) = rh_parent h" "rh_root (on_ll f h) = rh_root h"
  by (simp_all add: on_ll_def)

lemma list_add_frame:
  assumes "circ h l xs" "a \<notin> set (n # l # xs)"
  shows "lh_next (list_add n l h) a = lh_next h a \<and> lh_prev (list_add n l h) a = lh_prev h a"
proof -
  have "lh_next h l \<in> set (l # xs)" using circ_first [OF assms(1)] by (cases xs) auto
  then have "a \<noteq> lh_next h l" using assms(2) by auto
  then show ?thesis using assms(2) by (simp add: list_add_def list_insert_def)
qed

lemma list_del_first_frame:
  assumes "circ h l (x # xs)" "a \<notin> set (l # x # xs)"
  shows "lh_next (list_del x h) a = lh_next h a \<and> lh_prev (list_del x h) a = lh_prev h a"
proof -
  have "linked h ([] @ l # (x # xs @ [l]))" using assms(1) by (simp add: circ_def)
  then have "lh_prev h x = l" "lh_next h x = hd (xs @ [l])" by (auto simp: linked_Cons)
  moreover have "hd (xs @ [l]) \<in> set (l # xs)" by (cases xs) auto
  ultimately show ?thesis using assms(2) by (auto simp: list_del_def raw_list_del_def)
qed

lemma rb_keeps_on_ll:
  assumes "\<And>a. a \<notin> A \<Longrightarrow> lh_next (f (ll_view h)) a = rh_left h a \<and> lh_prev (f (ll_view h)) a = rh_right h a"
  shows "rb_keeps A tree h (on_ll f h)"
  using assms by (simp add: rb_keeps_def same_off_def same_at_def on_ll_def)

lemma keeps_circ:
  assumes "rb_keeps A tree h h'" "circ (ll_view h) l xs" "set (l # xs) \<inter> A = {}"
  shows "circ (ll_view h') l xs"
proof -
  have "lh_next (ll_view h') a = lh_next (ll_view h) a \<and> lh_prev (ll_view h') a = lh_prev (ll_view h) a"
    if "a \<in> set (l # xs)" for a
    using assms(1,3) that by (auto simp: rb_keeps_def same_off_def same_at_def)
  then show ?thesis using circ_cong [of l xs "ll_view h'" "ll_view h"] assms(2) by blast
qed

section \<open>The pool\<close>

definition pool_ok :: "bstatics \<Rightarrow> (addr \<rightharpoonup> addr list) \<Rightarrow> addr list \<Rightarrow> balloc \<Rightarrow> bool" where
  "pool_ok bc Q N s \<longleftrightarrow>
     (\<forall>tree xs. Q tree = Some xs \<longrightarrow>
        rb_seq (links s) tree xs \<and> free_list bc \<notin> set xs \<and> set xs \<inter> set N = {}) \<and>
     (\<forall>t1 t2 xs ys. t1 \<noteq> t2 \<longrightarrow> Q t1 = Some xs \<longrightarrow> Q t2 = Some ys \<longrightarrow> set xs \<inter> set ys = {}) \<and>
     circ (ll_view (links s)) (free_list bc) N \<and> (\<forall>n\<in>set N. good_addr n)"

definition loose :: "bstatics \<Rightarrow> (addr \<rightharpoonup> addr list) \<Rightarrow> addr list \<Rightarrow> addr \<Rightarrow> bool" where
  "loose bc Q N n \<longleftrightarrow> good_addr n \<and> n \<noteq> free_list bc \<and> n \<notin> set N \<and>
     (\<forall>tree xs. Q tree = Some xs \<longrightarrow> n \<notin> set xs)"

lemma pool_seq: "pool_ok bc Q N s \<Longrightarrow> Q tree = Some xs \<Longrightarrow> rb_seq (links s) tree xs"
  by (simp add: pool_ok_def)

lemma pool_treeD:
  "pool_ok bc Q N s \<Longrightarrow> Q tree = Some xs \<Longrightarrow> free_list bc \<notin> set xs"
  "pool_ok bc Q N s \<Longrightarrow> Q tree = Some xs \<Longrightarrow> set xs \<inter> set N = {}"
  unfolding pool_ok_def by blast+

lemma looseD:
  "loose bc Q N n \<Longrightarrow> Q tree = Some xs \<Longrightarrow> n \<notin> set xs"
  "loose bc Q N n \<Longrightarrow> n \<notin> set (free_list bc # N)" "loose bc Q N n \<Longrightarrow> good_addr n"
  unfolding loose_def by auto

lemma pool_distinct: "pool_ok bc Q N s \<Longrightarrow> Q tree = Some xs \<Longrightarrow> distinct xs"
  using rb.seq_nodes pool_seq by blast

lemma pool_tree_step:
  assumes P: "pool_ok bc Q N s" and Q: "Q tree = Some xs"
    and new: "rb_seq h' tree zs" "rb_keeps A tree (links s) h'" "A \<subseteq> set xs \<union> B" "set zs \<subseteq> A"
    and B: "\<forall>n\<in>B. loose bc Q N n"
  shows "pool_ok bc (Q(tree \<mapsto> zs)) N (s\<lparr>links := h'\<rparr>)"
proof -
  have dj: "set ys \<inter> A = {}" if "t2 \<noteq> tree" "Q t2 = Some ys" for t2 ys
    using P Q that new(3) B unfolding pool_ok_def loose_def by blast
  have fl: "set (free_list bc # N) \<inter> A = {}"
  proof -
    have "a \<notin> A" if "a \<in> set (free_list bc # N)" for a
      using pool_treeD [OF P Q] new(3) B looseD(2) [of bc Q N a] that by fastforce
    then show ?thesis by blast
  qed
  have "circ (ll_view h') (free_list bc) N"
    using keeps_circ [OF new(2) _ fl] P by (simp add: pool_ok_def)
  moreover have "rb_seq h' t2 ys \<and> free_list bc \<notin> set ys \<and> set ys \<inter> set N = {}"
    if "(Q(tree \<mapsto> zs)) t2 = Some ys" for t2 ys
  proof (cases "t2 = tree")
    case True
    then show ?thesis using that new fl by auto
  next
    case False
    then have q: "Q t2 = Some ys" using that by simp
    then show ?thesis
      using rb.keeps_seq [OF pool_seq [OF P q] new(2) False dj [OF False q]] P by (auto simp: pool_ok_def)
  qed
  moreover have "set us \<inter> set vs = {}"
    if "t1 \<noteq> t2" "(Q(tree \<mapsto> zs)) t1 = Some us" "(Q(tree \<mapsto> zs)) t2 = Some vs" for t1 t2 us vs
  proof -
    consider "t1 = tree" | "t2 = tree" | "t1 \<noteq> tree" "t2 \<noteq> tree" by blast
    then show ?thesis
    proof cases
      case 1
      then have "us = zs" "Q t2 = Some vs" "t2 \<noteq> tree" using that by simp_all
      then show ?thesis using dj [of t2 vs] new(4) by blast
    next
      case 2
      then have "vs = zs" "Q t1 = Some us" "t1 \<noteq> tree" using that by simp_all
      then show ?thesis using dj [of t1 us] new(4) by blast
    next
      case 3
      then have "Q t1 = Some us" "Q t2 = Some vs" using that by simp_all
      then show ?thesis using P \<open>t1 \<noteq> t2\<close> unfolding pool_ok_def by blast
    qed
  qed
  ultimately show ?thesis using P by (simp add: pool_ok_def)
qed

lemma pool_erase:
  assumes P: "pool_ok bc Q N s" and Q: "Q tree = Some (xs @ n # ys)"
  shows "\<exists>h'. on_links (rb_erase n tree) s = Some (Inr (s\<lparr>links := h'\<rparr>)) \<and>
           pool_ok bc (Q(tree \<mapsto> xs @ ys)) N (s\<lparr>links := h'\<rparr>) \<and> loose bc (Q(tree \<mapsto> xs @ ys)) N n"
proof -
  note sq = pool_seq [OF P Q]
  obtain h' where h': "rb_erase n tree (links s) = Some (Inr h')" "rb_seq h' tree (xs @ ys)"
      "rb_keeps (set (xs @ n # ys)) tree (links s) h'"
    using rb.seq_erase [OF sq] by blast
  have "pool_ok bc (Q(tree \<mapsto> xs @ ys)) N (s\<lparr>links := h'\<rparr>)"
    by (rule pool_tree_step [OF P Q h'(2,3), of "{}"]) auto
  moreover have "loose bc (Q(tree \<mapsto> xs @ ys)) N n"
  proof -
    have "good_addr n" "n \<notin> set (xs @ ys)" using rb.seq_nodes [OF sq] by auto
    moreover have "n \<notin> set zs" if "t2 \<noteq> tree" "Q t2 = Some zs" for t2 zs
    proof -
      have "set zs \<inter> set (xs @ n # ys) = {}" using P Q that unfolding pool_ok_def by blast
      then show ?thesis by auto
    qed
    moreover have "n \<noteq> free_list bc" "n \<notin> set N" using pool_treeD [OF P Q] by auto
    ultimately show ?thesis by (auto simp: loose_def split: if_splits)
  qed
  ultimately show ?thesis using h'(1) by (auto simp: on_links_def)
qed

lemma pool_insert:
  assumes P: "pool_ok bc Q N s" and Q: "Q tree = Some (xs @ ys)"
    and gap: "rb_gap (links s) tree plink parent xs ys" and n: "loose bc Q N n"
  shows "\<exists>h'. on_links (rb_insert n tree) (s\<lparr>links := rb_link n parent plink (links s)\<rparr>) = Some (Inr (s\<lparr>links := h'\<rparr>)) \<and>
           pool_ok bc (Q(tree \<mapsto> xs @ n # ys)) N (s\<lparr>links := h'\<rparr>)"
proof -
  have g: "good_addr n" and out: "n \<notin> set (xs @ ys)" using looseD [OF n] Q by blast+
  obtain h' where h': "rb_insert_at n parent plink tree (links s) = Some (Inr h')" "rb_seq h' tree (xs @ n # ys)"
      "rb_keeps (set (xs @ n # ys)) tree (links s) h'"
    using rb.seq_insert [OF gap g out] by blast
  have "pool_ok bc (Q(tree \<mapsto> xs @ n # ys)) N (s\<lparr>links := h'\<rparr>)"
    by (rule pool_tree_step [OF P Q h'(2,3), of "{n}"]) (use n in auto)
  then show ?thesis using h'(1) by (auto simp: on_links_def rb_insert_at_def)
qed

lemma pool_list_step:
  assumes P: "pool_ok bc Q N s" and circ: "circ (ll_view h') (free_list bc) N'"
    and k: "\<And>tree. rb_keeps (set (free_list bc # N) \<union> B) tree (links s) h'"
    and B: "\<forall>n\<in>B. loose bc Q N n" "set N' \<subseteq> set N \<union> B"
  shows "pool_ok bc Q N' (s\<lparr>links := h'\<rparr>)"
proof -
  have dj: "set xs \<inter> (set (free_list bc # N) \<union> B) = {}" if "Q t = Some xs" for t xs
  proof -
    have "a \<notin> set (free_list bc # N) \<union> B" if "a \<in> set xs" for a
      using pool_treeD [OF P \<open>Q t = Some xs\<close>] B(1) looseD(1) [of bc Q N a, OF _ \<open>Q t = Some xs\<close>] that by auto
    then show ?thesis by blast
  qed
  have "rb_seq h' t xs \<and> free_list bc \<notin> set xs \<and> set xs \<inter> set N' = {}" if q: "Q t = Some xs" for t xs
  proof -
    have "rb_keeps (set (free_list bc # N) \<union> B) (t + 1) (links s) h'" by (rule k)
    then have "rb_seq h' t xs" by (rule rb.keeps_seq [OF pool_seq [OF P q] _ _ dj [OF q]]) simp
    then show ?thesis using dj [OF q] B(2) by auto
  qed
  moreover have "\<forall>n\<in>set N'. good_addr n" using P B by (auto simp: pool_ok_def loose_def)
  ultimately show ?thesis using P circ by (simp add: pool_ok_def)
qed

lemma pool_free:
  assumes P: "pool_ok bc Q N s" and n: "loose bc Q N n"
  shows "pool_ok bc Q (n # N) (balloc_free_node bc n s)"
    "rbegin (balloc_free_node bc n s) = rbegin s" "rend (balloc_free_node bc n s) = rend s"
    "prints (balloc_free_node bc n s) = prints s"
proof -
  have c: "circ (ll_view (links s)) (free_list bc) N" using P by (simp add: pool_ok_def)
  have nn: "n \<notin> set (free_list bc # N)" "n \<noteq> NULL" using n by (auto simp: loose_def good_addr_def)
  have "rb_keeps (set (free_list bc # N) \<union> {n}) tree (links s) (on_ll (list_add n (free_list bc)) (links s))" for tree
    using list_add_frame [OF c] by (intro rb_keeps_on_ll) auto
  then show "pool_ok bc Q (n # N) (balloc_free_node bc n s)"
    unfolding balloc_free_node_def
    using circ_list_add [OF c nn] n by (intro pool_list_step [OF P, of _ _ "{n}"]) auto
qed (simp_all add: balloc_free_node_def)

lemma pool_alloc:
  assumes P: "pool_ok bc Q (n # N) s"
  shows "\<exists>h'. balloc_alloc_node bc s = Inr (n, s\<lparr>links := h'\<rparr>) \<and> pool_ok bc Q N (s\<lparr>links := h'\<rparr>) \<and>
           loose bc Q N n \<and> (\<forall>tree xs. Q tree = Some xs \<longrightarrow> rb_keeps (- set xs) tree (links s) h') \<and>
           rh_root h' = rh_root (links s)"
proof -
  have c: "circ (ll_view (links s)) (free_list bc) (n # N)" using P by (simp add: pool_ok_def)
  let ?h = "on_ll (list_del n) (links s)"
  have first: "rh_left (links s) (free_list bc) = n" using circ_first [OF c] by simp
  have "n \<noteq> free_list bc" using c by (auto simp: circ_def)
  then have run: "balloc_alloc_node bc s = Inr (n, s\<lparr>links := ?h\<rparr>)"
    using first by (simp add: balloc_alloc_node_def list_empty_def LL2MEMORY_NODE_def)
  have k: "rb_keeps (set (free_list bc # n # N)) tree (links s) ?h" for tree
    using list_del_first_frame [OF c] by (intro rb_keeps_on_ll) auto
  have "circ (ll_view ?h) (free_list bc) N" using circ_list_del [of "ll_view (links s)" "free_list bc" "[]" n N] c by simp
  then have "pool_ok bc Q N (s\<lparr>links := ?h\<rparr>)"
    using k by (intro pool_list_step [OF P, of _ _ "{}"]) auto
  moreover have "loose bc Q N n" using P c by (auto simp: pool_ok_def loose_def circ_def)
  moreover have "rb_keeps (- set xs) tree (links s) ?h" if "Q tree = Some xs" for tree xs
    using k [of tree] P that unfolding rb_keeps_def pool_ok_def by (auto elim!: same_off_mono)
  ultimately show ?thesis using run by (intro exI [of _ ?h]) simp
qed

lemma pool_alloc_empty: "pool_ok bc Q [] s \<Longrightarrow> balloc_alloc_node bc s = Inl (Bug ''list_empty(&balloc_free_list)'')"
  by (auto simp: pool_ok_def balloc_alloc_node_def list_empty_def dest: circ_first)

end
