(* ===== verification/BallocSpec.thy ===== *)
theory BallocSpec
  imports BallocPool
begin

text \<open>
  What the operations of the bootstrap allocator do to the sets of addresses their trees stand for:
  adding a range, removing a range, allocation, and the whole setup from the memory map.
\<close>

section \<open>Sequences of ranges\<close>

definition apart :: "balloc \<Rightarrow> addr list \<Rightarrow> bool" where
  "apart s xs \<longleftrightarrow> sorted_wrt (\<lambda>m n. rend s m < rbegin s n) xs \<and> (\<forall>n\<in>set xs. rbegin s n < rend s n)"

definition cover :: "balloc \<Rightarrow> addr list \<Rightarrow> u64 set" where
  "cover s xs = (\<Union>n\<in>set xs. {rbegin s n..<rend s n})"

lemma cover_simps [simp]:
  "cover s [] = {}" "cover s (n # xs) = {rbegin s n..<rend s n} \<union> cover s xs"
  "cover s (xs @ ys) = cover s xs \<union> cover s ys"
  by (auto simp: cover_def)

lemma apart_append:
  "apart s (xs @ ys) \<longleftrightarrow> apart s xs \<and> apart s ys \<and> (\<forall>m\<in>set xs. \<forall>n\<in>set ys. rend s m < rbegin s n)"
  by (auto simp: apart_def sorted_wrt_append)

lemma apart_Cons:
  "apart s (n # xs) \<longleftrightarrow> rbegin s n < rend s n \<and> (\<forall>m\<in>set xs. rend s n < rbegin s m) \<and> apart s xs"
  by (auto simp: apart_def)

lemma apart_Nil [simp]: "apart s []"
  by (simp add: apart_def)

lemma apart_cong:
  "(\<And>n. n \<in> set xs \<Longrightarrow> rbegin s' n = rbegin s n \<and> rend s' n = rend s n) \<Longrightarrow> apart s' xs \<longleftrightarrow> apart s xs"
  unfolding apart_def by (metis (mono_tags, lifting) sorted_wrt_mono_rel)

lemma cover_cong:
  "(\<And>n. n \<in> set xs \<Longrightarrow> rbegin s' n = rbegin s n \<and> rend s' n = rend s n) \<Longrightarrow> cover s' xs = cover s xs"
  by (simp add: cover_def)

lemma apart_begins: "apart s xs \<Longrightarrow> sorted_wrt (\<lambda>m n. rbegin s m < rbegin s n) xs"
  unfolding apart_def by (auto elim!: sorted_wrt_mono_rel [rotated])

lemma apart_ends: "apart s xs \<Longrightarrow> sorted_wrt (\<lambda>m n. rend s m < rend s n) xs"
  unfolding apart_def by (auto elim!: sorted_wrt_mono_rel [rotated])

section \<open>The searches\<close>

lemma add_descend_ok:
  assumes "holds (links s) tree (plug k u)" "sorted_wrt (\<lambda>m n. rbegin s m < rbegin s n) (nodes (plug k u))"
    and "\<forall>m\<in>set (before k). rbegin s m < lo" "\<forall>m\<in>set (after k). lo \<le> rbegin s m"
  shows "\<exists>k'. add_descend (slot_of tree k) (above k) lo s = Some (slot_of tree k', above k') \<and>
           plug k' Lf = plug k u \<and>
           (\<forall>m\<in>set (before k'). rbegin s m < lo) \<and> (\<forall>m\<in>set (after k'). lo \<le> rbegin s m)"
  using assms
proof (induction u arbitrary: k)
  case Lf
  have "slot_read (slot_of tree k) (links s) = NULL"
    using Lf(1) by (intro slot_read_path [of _ _ _ k]) (simp add: holds_plug focus_def)
  then have "add_descend (slot_of tree k) (above k) lo s = Some (slot_of tree k, above k)"
    by (subst add_descend.simps) (simp add: Let_def)
  then show ?case using Lf by blast
next
  case (Nd l n c r)
  have F: "focus (links s) tree k (Nd l n c r)" using Nd.prems(1) by (simp add: holds_plug)
  have r: "slot_read (slot_of tree k) (links s) = n" "n \<noteq> NULL"
    using focus_nodeD(1,2) [OF F] by (auto intro: slot_read_path)
  have srt: "sorted_wrt (\<lambda>m n. rbegin s m < rbegin s n) (before k @ nodes l @ n # nodes r @ after k)"
    using Nd.prems(2) by (simp add: nodes_plug)
  show ?case
  proof (cases "rbegin s n < lo")
    case True
    then have "add_descend (slot_of tree k) (above k) lo s =
        add_descend (slot_of tree (InRight l n c # k)) (above (InRight l n c # k)) lo s"
      using r by (subst add_descend.simps) (simp add: Let_def RB2MEMORY_NODE_def)
    moreover have "\<forall>m\<in>set (nodes l). rbegin s m < lo"
      using srt True by (auto simp: sorted_wrt_append intro: less_trans)
    ultimately show ?thesis
      using Nd.IH(2) [of "InRight l n c # k"] Nd.prems True by auto
  next
    case False
    then have "add_descend (slot_of tree k) (above k) lo s =
        add_descend (slot_of tree (InLeft n c r # k)) (above (InLeft n c r # k)) lo s"
      using r by (subst add_descend.simps) (simp add: Let_def RB2MEMORY_NODE_def)
    moreover have "\<forall>m\<in>set (nodes r). lo \<le> rbegin s m"
    proof
      fix m
      assume "m \<in> set (nodes r)"
      then have "rbegin s n < rbegin s m" using srt by (auto simp: sorted_wrt_append)
      then show "lo \<le> rbegin s m" using False by simp
    qed
    ultimately show ?thesis
      using Nd.IH(1) [of "InLeft n c r # k"] Nd.prems False by (auto simp: not_less)
  qed
qed

lemma add_descend_gap:
  assumes "rb_seq (links s) tree xs" "apart s xs"
  shows "\<exists>plink parent A B. add_descend (RootSlot tree) NULL lo s = Some (plink, parent) \<and>
           rb_gap (links s) tree plink parent A B \<and> xs = A @ B \<and>
           (\<forall>m\<in>set A. rbegin s m < lo) \<and> (\<forall>m\<in>set B. lo \<le> rbegin s m)"
proof -
  obtain t where t: "holds (links s) tree t" "balanced t" "nodes t = xs" using assms(1) by (auto simp: rb_seq_def)
  obtain k where k: "add_descend (slot_of tree []) (above []) lo s = Some (slot_of tree k, above k)"
      "plug k Lf = plug [] t" "\<forall>m\<in>set (before k). rbegin s m < lo" "\<forall>m\<in>set (after k). lo \<le> rbegin s m"
    using add_descend_ok [of s tree "[]" t lo] t apart_begins [OF assms(2)] by auto
  have "xs = before k @ after k" using t(3) k(2) nodes_plug [of k Lf] by simp
  moreover have "rb_gap (links s) tree (slot_of tree k) (above k) (before k) (after k)"
    using t k(2) unfolding rb_gap_def by (intro exI [of _ k]) simp
  ultimately show ?thesis using k by auto
qed

lemma range_after_ok:
  "shape (links s) p u \<Longrightarrow> sorted_wrt (\<lambda>m n. rend s m < rend s n) (nodes u) \<Longrightarrow>
   range_after (tip u) ptr lo s =
     Some (case dropWhile (\<lambda>n. rend s n \<le> lo) (nodes u) of [] \<Rightarrow> ptr | x # _ \<Rightarrow> x)"
proof (induction u arbitrary: p ptr)
  case Lf
  then show ?case by (subst range_after.simps) simp
next
  case (Nd l n c r)
  have n: "n \<noteq> NULL" "rh_left (links s) n = tip l" "rh_right (links s) n = tip r"
    using Nd.prems(1) by (simp_all add: good_addr_def)
  have srt: "sorted_wrt (\<lambda>m n. rend s m < rend s n) (nodes l)" "sorted_wrt (\<lambda>m n. rend s m < rend s n) (nodes r)"
      "\<forall>m\<in>set (nodes l). rend s m < rend s n"
    using Nd.prems(2) by (auto simp: sorted_wrt_append)
  show ?case
  proof (cases "lo < rend s n")
    case True
    then have "range_after (tip (Nd l n c r)) ptr lo s = range_after (tip l) n lo s"
      using n by (subst range_after.simps) (simp add: RB2MEMORY_NODE_def)
    then have run: "range_after (tip (Nd l n c r)) ptr lo s =
        Some (case dropWhile (\<lambda>n. rend s n \<le> lo) (nodes l) of [] \<Rightarrow> n | x # _ \<Rightarrow> x)"
      using Nd.IH(1) [of n n] Nd.prems(1) srt by simp
    show ?thesis
    proof (cases "dropWhile (\<lambda>n. rend s n \<le> lo) (nodes l)")
      case Nil
      then have "\<forall>m\<in>set (nodes l). rend s m \<le> lo" by simp
      then have "dropWhile (\<lambda>n. rend s n \<le> lo) (nodes l @ n # nodes r) = n # nodes r"
        using True by (subst dropWhile_append2) auto
      then show ?thesis unfolding run Nil by simp
    next
      case (Cons x xs)
      then obtain m where m: "m \<in> set (nodes l)" "\<not> rend s m \<le> lo"
        by (metis dropWhile_eq_Nil_conv list.distinct(1))
      have "dropWhile (\<lambda>n. rend s n \<le> lo) (nodes l @ n # nodes r) = x # xs @ n # nodes r"
        using dropWhile_append1 [of m "nodes l" "\<lambda>n. rend s n \<le> lo", OF m] Cons by simp
      then show ?thesis unfolding run Cons by simp
    qed
  next
    case False
    then have "range_after (tip (Nd l n c r)) ptr lo s = range_after (tip r) ptr lo s"
      using n by (subst range_after.simps) (simp add: RB2MEMORY_NODE_def)
    moreover have "dropWhile (\<lambda>n. rend s n \<le> lo) (nodes l @ n # nodes r) =
        dropWhile (\<lambda>n. rend s n \<le> lo) (nodes r)"
      using srt(3) False by (subst dropWhile_append2) (auto intro: less_imp_le less_le_trans order_trans)
    ultimately show ?thesis using Nd.IH(2) [of n ptr] Nd.prems(1) srt by simp
  qed
qed

lemma range_after_seq:
  assumes "rb_seq (links s) tree xs" "apart s xs"
  shows "range_after (rh_root (links s) tree) NULL lo s = Some (first_of (dropWhile (\<lambda>n. rend s n \<le> lo) xs))"
proof -
  obtain t where t: "shape (links s) NULL t" "rh_root (links s) tree = tip t" "nodes t = xs"
    using assms(1) by (auto simp: rb_seq_def holds_def)
  show ?thesis
    using range_after_ok [OF t(1), of NULL lo] apart_ends [OF assms(2)] t(2,3) by (simp add: first_of_def)
qed

section \<open>Adding a range\<close>

lemma good_not_null: "good_addr n \<Longrightarrow> n \<noteq> NULL"
  by (simp add: good_addr_def)

lemma pool_fields [simp]: "pool_ok bc Q N (s\<lparr>rbegin := f\<rparr>) = pool_ok bc Q N s" "pool_ok bc Q N (s\<lparr>rend := f\<rparr>) = pool_ok bc Q N s"
    "pool_ok bc Q N (s\<lparr>prints := p\<rparr>) = pool_ok bc Q N s"
  by (simp_all add: pool_ok_def)

lemma pool_cong: "pool_ok bc Q N s \<Longrightarrow> links s' = links s \<Longrightarrow> pool_ok bc Q N s'"
  by (simp add: pool_ok_def)

lemma add_merge_prev_ok:
  assumes P: "pool_ok bc Q N s" and Q: "Q tree = Some (A @ new # B)"
  defines "c \<equiv> A \<noteq> [] \<and> rbegin s new \<le> rend s (last A)"
  shows "\<exists>h'. add_merge_prev bc tree new s = Some (Inr (s\<lparr>links := h',
           rbegin := (if c then (rbegin s)(new := rbegin s (last A)) else rbegin s),
           rend := (if c then (rend s)(new := max (rend s new) (rend s (last A))) else rend s)\<rparr>)) \<and>
         pool_ok bc (Q(tree \<mapsto> (if c then butlast A else A) @ new # B)) (if c then last A # N else N) (s\<lparr>links := h'\<rparr>)"
proof -
  have prev: "rb_prev new (links s) = Some (last_of A)" using rb.seq_pred [OF pool_seq [OF P Q]] .
  have good: "\<forall>n\<in>set (A @ new # B). good_addr n" and dist: "distinct (A @ new # B)"
    using rb.seq_nodes [OF pool_seq [OF P Q]] by blast+
  show ?thesis
  proof (cases c)
    case False
    have "last_of A = NULL \<or> \<not> rbegin s new \<le> rend s (last_of A)"
      using False by (cases A rule: rev_cases) (auto simp: c_def)
    then have "add_merge_prev bc tree new s = Some (Inr s)"
      using prev by (auto simp: add_merge_prev_def RB2MEMORY_NODE_def)
    moreover have "Q(tree \<mapsto> A @ new # B) = Q" using Q by auto
    ultimately show ?thesis using P False by (intro exI [of _ "links s"]) simp
  next
    case True
    obtain A' p where A: "A = A' @ [p]" using True by (cases A rule: rev_cases) (auto simp: c_def)
    have p: "p \<noteq> NULL" "p \<noteq> new" using good dist A by (auto dest: good_not_null)
    let ?s1 = "s\<lparr>rbegin := (rbegin s)(new := rbegin s p), rend := (rend s)(new := max (rend s new) (rend s p))\<rparr>"
    have s1: "(let s = s\<lparr>rbegin := (rbegin s)(new := rbegin s p)\<rparr> in
        if rend s new < rend s p then s\<lparr>rend := (rend s)(new := rend s p)\<rparr> else s) = ?s1"
      using p by (auto simp: max_def Let_def)
    have Q1: "Q tree = Some (A' @ p # (new # B))" using Q A by simp
    have P1: "pool_ok bc Q N ?s1" using P by simp
    obtain h1 where h1: "on_links (rb_erase p tree) ?s1 = Some (Inr (?s1\<lparr>links := h1\<rparr>))"
        "pool_ok bc (Q(tree \<mapsto> A' @ new # B)) N (?s1\<lparr>links := h1\<rparr>)" "loose bc (Q(tree \<mapsto> A' @ new # B)) N p"
      using pool_erase [OF P1 Q1] by auto
    have run: "add_merge_prev bc tree new s = Some (Inr (balloc_free_node bc p (?s1\<lparr>links := h1\<rparr>)))"
    proof -
      have "add_merge_prev bc tree new s = bindO (on_links (rb_erase p tree) ?s1) (\<lambda>s. Some (Inr (balloc_free_node bc p s)))"
        unfolding s1 [symmetric] using prev A True p by (simp add: add_merge_prev_def RB2MEMORY_NODE_def c_def Let_def)
      then show ?thesis by (simp add: h1(1))
    qed
    have eq: "balloc_free_node bc p (?s1\<lparr>links := h1\<rparr>) = ?s1\<lparr>links := on_ll (list_add p (free_list bc)) h1\<rparr>"
      by (simp add: balloc_free_node_def)
    have "pool_ok bc (Q(tree \<mapsto> A' @ new # B)) (p # N) (?s1\<lparr>links := on_ll (list_add p (free_list bc)) h1\<rparr>)"
      using pool_free(1) [OF h1(2,3)] unfolding eq .
    then show ?thesis using run True A unfolding eq
      by (intro exI [of _ "on_ll (list_add p (free_list bc)) h1"]) (simp add: pool_ok_def)
  qed
qed

lemma add_merge_next_ok:
  assumes P: "pool_ok bc Q N s" and Q: "Q tree = Some (A @ new # B)"
  defines "c \<equiv> B \<noteq> [] \<and> rbegin s (hd B) \<le> rend s new"
  shows "\<exists>h'. add_merge_next bc tree new s = Some (Inr (s\<lparr>links := h',
           rend := (if c then (rend s)(new := rend s (hd B)) else rend s)\<rparr>)) \<and>
         pool_ok bc (Q(tree \<mapsto> A @ new # (if c then tl B else B))) (if c then hd B # N else N) (s\<lparr>links := h'\<rparr>)"
proof -
  have nxt: "rb_next new (links s) = Some (first_of B)" using rb.seq_succ [OF pool_seq [OF P Q]] .
  have good: "\<forall>n\<in>set (A @ new # B). good_addr n" and dist: "distinct (A @ new # B)"
    using rb.seq_nodes [OF pool_seq [OF P Q]] by blast+
  show ?thesis
  proof (cases c)
    case False
    have "first_of B = NULL \<or> \<not> rbegin s (first_of B) \<le> rend s new"
      using False by (cases B) (auto simp: c_def)
    then have "add_merge_next bc tree new s = Some (Inr s)"
      using nxt by (auto simp: add_merge_next_def RB2MEMORY_NODE_def)
    moreover have "Q(tree \<mapsto> A @ new # B) = Q" using Q by auto
    ultimately show ?thesis using P False by (intro exI [of _ "links s"]) simp
  next
    case True
    obtain p B' where B: "B = p # B'" using True by (cases B) (auto simp: c_def)
    have p: "p \<noteq> NULL" "p \<noteq> new" using good dist B by (auto dest: good_not_null)
    let ?s1 = "s\<lparr>rend := (rend s)(new := rend s p)\<rparr>"
    have Q1: "Q tree = Some ((A @ [new]) @ p # B')" using Q B by simp
    have P1: "pool_ok bc Q N ?s1" using P by simp
    obtain h1 where h1: "on_links (rb_erase p tree) ?s1 = Some (Inr (?s1\<lparr>links := h1\<rparr>))"
        "pool_ok bc (Q(tree \<mapsto> A @ new # B')) N (?s1\<lparr>links := h1\<rparr>)" "loose bc (Q(tree \<mapsto> A @ new # B')) N p"
      using pool_erase [OF P1 Q1] by auto
    have run: "add_merge_next bc tree new s = Some (Inr (balloc_free_node bc p (?s1\<lparr>links := h1\<rparr>)))"
      using nxt B True p h1(1) by (simp add: add_merge_next_def RB2MEMORY_NODE_def c_def Let_def)
    have eq: "balloc_free_node bc p (?s1\<lparr>links := h1\<rparr>) = ?s1\<lparr>links := on_ll (list_add p (free_list bc)) h1\<rparr>"
      by (simp add: balloc_free_node_def)
    have "pool_ok bc (Q(tree \<mapsto> A @ new # B')) (p # N) (?s1\<lparr>links := on_ll (list_add p (free_list bc)) h1\<rparr>)"
      using pool_free(1) [OF h1(2,3)] unfolding eq .
    then show ?thesis using run True B unfolding eq
      by (intro exI [of _ "on_ll (list_add p (free_list bc)) h1"]) (simp add: pool_ok_def)
  qed
qed

lemma gap_keeps:
  assumes g: "rb_gap h tree plink parent A B" and k: "rb_keeps (- set (A @ B)) tree h h'" "rh_root h' = rh_root h"
  shows "rb_gap h' tree plink parent A B"
proof -
  obtain k where k': "holds h tree (plug k Lf)" "balanced (plug k Lf)" "plink = slot_of tree k" "parent = above k"
      "A = before k" "B = after k"
    using g by (auto simp: rb_gap_def)
  have "same_at (set (nodes (plug k Lf))) h h'"
    using k(1) k' by (simp add: rb_keeps_def same_off_def nodes_plug)
  then have "holds h' tree (plug k Lf)" using k'(1) k(2) by (auto simp: holds_def intro: shape_same)
  then show ?thesis using k' unfolding rb_gap_def by blast
qed

text \<open>The result of an addition: what is left of the ranges before and after, and the new range.\<close>

definition join_prev :: "balloc \<Rightarrow> addr list \<Rightarrow> u64 \<Rightarrow> bool" where
  "join_prev s A lo \<longleftrightarrow> A \<noteq> [] \<and> lo \<le> rend s (last A)"

definition new_begin :: "balloc \<Rightarrow> addr list \<Rightarrow> u64 \<Rightarrow> u64" where
  "new_begin s A lo = (if join_prev s A lo then rbegin s (last A) else lo)"

definition reach :: "balloc \<Rightarrow> addr list \<Rightarrow> u64 \<Rightarrow> u64 \<Rightarrow> u64" where
  "reach s A lo hi = (if join_prev s A lo then max hi (rend s (last A)) else hi)"

definition join_next :: "balloc \<Rightarrow> addr list \<Rightarrow> addr list \<Rightarrow> u64 \<Rightarrow> u64 \<Rightarrow> bool" where
  "join_next s A B lo hi \<longleftrightarrow> B \<noteq> [] \<and> rbegin s (hd B) \<le> reach s A lo hi"

definition new_end :: "balloc \<Rightarrow> addr list \<Rightarrow> addr list \<Rightarrow> u64 \<Rightarrow> u64 \<Rightarrow> u64" where
  "new_end s A B lo hi = (if join_next s A B lo hi then rend s (hd B) else reach s A lo hi)"

definition added :: "balloc \<Rightarrow> addr list \<Rightarrow> addr list \<Rightarrow> addr \<Rightarrow> u64 \<Rightarrow> u64 \<Rightarrow> addr list" where
  "added s A B new lo hi = (if join_prev s A lo then butlast A else A) @ new #
     (if join_next s A B lo hi then tl B else B)"

definition unused :: "balloc \<Rightarrow> addr list \<Rightarrow> addr list \<Rightarrow> addr list \<Rightarrow> u64 \<Rightarrow> u64 \<Rightarrow> addr list" where
  "unused s A B N lo hi = (if join_next s A B lo hi then [hd B] else []) @
     (if join_prev s A lo then [last A] else []) @ N"

lemma add_range_run:
  assumes P: "pool_ok bc Q (new # N) s" and Q: "Q tree = Some xs" and ap: "apart s xs"
  shows "\<exists>A B h'. xs = A @ B \<and> (\<forall>m\<in>set A. rbegin s m < lo) \<and> (\<forall>m\<in>set B. lo \<le> rbegin s m) \<and>
    balloc_add_range bc tree lo hi s = Some (Inr (s\<lparr>links := h',
      rbegin := (rbegin s)(new := new_begin s A lo), rend := (rend s)(new := new_end s A B lo hi)\<rparr>)) \<and>
    pool_ok bc (Q(tree \<mapsto> added s A B new lo hi)) (unused s A B N lo hi) (s\<lparr>links := h'\<rparr>)"
proof -
  obtain plink parent A B where d: "add_descend (RootSlot tree) NULL lo s = Some (plink, parent)"
      "rb_gap (links s) tree plink parent A B" "xs = A @ B" "\<forall>m\<in>set A. rbegin s m < lo" "\<forall>m\<in>set B. lo \<le> rbegin s m"
    using add_descend_gap [OF pool_seq [OF P Q] ap] by metis
  obtain h1 where h1: "balloc_alloc_node bc s = Inr (new, s\<lparr>links := h1\<rparr>)" "pool_ok bc Q N (s\<lparr>links := h1\<rparr>)"
      "loose bc Q N new" "rb_keeps (- set xs) tree (links s) h1" "rh_root h1 = rh_root (links s)"
    using pool_alloc [OF P] Q by blast
  have out: "new \<notin> set A" "new \<notin> set B" using looseD(1) [OF h1(3) Q] d(3) by auto
  define s2 where "s2 = s\<lparr>links := h1, rbegin := (rbegin s)(new := lo), rend := (rend s)(new := hi)\<rparr>"
  have P2: "pool_ok bc Q N s2" using h1(2) by (simp add: s2_def pool_ok_def)
  have gap: "rb_gap (links s2) tree plink parent A B"
    using gap_keeps [OF d(2) _ h1(5)] h1(4) d(3) by (simp add: s2_def)
  obtain h2 where h2: "on_links (rb_insert new tree) (s2\<lparr>links := rb_link new parent plink (links s2)\<rparr>) = Some (Inr (s2\<lparr>links := h2\<rparr>))"
      "pool_ok bc (Q(tree \<mapsto> A @ new # B)) N (s2\<lparr>links := h2\<rparr>)"
    using pool_insert [OF P2 _ gap h1(3)] Q d(3) by blast
  define s3 where "s3 = s2\<lparr>links := h2\<rparr>"
  have f3: "rbegin s3 = (rbegin s)(new := lo)" "rend s3 = (rend s)(new := hi)" by (simp_all add: s3_def s2_def)
  have lastA: "A \<noteq> [] \<Longrightarrow> last A \<noteq> new" and hdB: "B \<noteq> [] \<Longrightarrow> hd B \<noteq> new"
    using out by (auto dest: last_in_set hd_in_set)
  have c1: "A \<noteq> [] \<and> rbegin s3 new \<le> rend s3 (last A) \<longleftrightarrow> join_prev s A lo"
    using lastA by (auto simp: f3 join_prev_def)
  let ?A = "if join_prev s A lo then butlast A else A"
  let ?N = "if join_prev s A lo then last A # N else N"
  obtain h3 where h3: "add_merge_prev bc tree new s3 = Some (Inr (s3\<lparr>links := h3,
        rbegin := (if join_prev s A lo then (rbegin s3)(new := rbegin s3 (last A)) else rbegin s3),
        rend := (if join_prev s A lo then (rend s3)(new := max (rend s3 new) (rend s3 (last A))) else rend s3)\<rparr>))"
      "pool_ok bc (Q(tree \<mapsto> A @ new # B, tree \<mapsto> ?A @ new # B)) ?N (s3\<lparr>links := h3\<rparr>)"
    using add_merge_prev_ok [OF h2(2) [folded s3_def], of tree A new B] unfolding c1 by auto
  define s4 where "s4 = s3\<lparr>links := h3,
        rbegin := (if join_prev s A lo then (rbegin s3)(new := rbegin s3 (last A)) else rbegin s3),
        rend := (if join_prev s A lo then (rend s3)(new := max (rend s3 new) (rend s3 (last A))) else rend s3)\<rparr>"
  have f4: "rbegin s4 = (rbegin s)(new := new_begin s A lo)" "rend s4 = (rend s)(new := reach s A lo hi)"
    using lastA by (auto simp: s4_def f3 new_begin_def reach_def join_prev_def)
  have P4: "pool_ok bc (Q(tree \<mapsto> ?A @ new # B)) ?N s4" using h3(2) by (simp add: s4_def pool_ok_def)
  have c2: "B \<noteq> [] \<and> rbegin s4 (hd B) \<le> rend s4 new \<longleftrightarrow> join_next s A B lo hi"
    using hdB by (auto simp: f4 join_next_def)
  obtain h5 where h5: "add_merge_next bc tree new s4 = Some (Inr (s4\<lparr>links := h5,
        rend := (if join_next s A B lo hi then (rend s4)(new := rend s4 (hd B)) else rend s4)\<rparr>))"
      "pool_ok bc (Q(tree \<mapsto> ?A @ new # B, tree \<mapsto> ?A @ new # (if join_next s A B lo hi then tl B else B)))
        (if join_next s A B lo hi then hd B # ?N else ?N) (s4\<lparr>links := h5\<rparr>)"
    using add_merge_next_ok [OF P4, of tree ?A new B] unfolding c2 by auto
  have fin: "s4\<lparr>links := h5, rend := (if join_next s A B lo hi then (rend s4)(new := rend s4 (hd B)) else rend s4)\<rparr> =
      s\<lparr>links := h5, rbegin := (rbegin s)(new := new_begin s A lo), rend := (rend s)(new := new_end s A B lo hi)\<rparr>"
    using hdB by (auto simp: s4_def s3_def s2_def f4 new_end_def join_next_def lastA new_begin_def reach_def join_prev_def)
  have "balloc_add_range bc tree lo hi s = Some (Inr (s4\<lparr>links := h5,
        rend := (if join_next s A B lo hi then (rend s4)(new := rend s4 (hd B)) else rend s4)\<rparr>))"
  proof -
    have l2: "links s2 = h1" by (simp add: s2_def)
    have "balloc_add_range bc tree lo hi s = add_merge_next bc tree new s4"
      using d(1) h1(1) h2(1) h3(1)
      by (simp add: balloc_add_range_def Let_def s2_def [symmetric] s3_def [symmetric] s4_def [symmetric] l2)
    then show ?thesis by (simp only: h5(1))
  qed
  moreover have "pool_ok bc (Q(tree \<mapsto> added s A B new lo hi)) (unused s A B N lo hi) (s\<lparr>links := h5\<rparr>)"
  proof -
    have "Q(tree \<mapsto> ?A @ new # B, tree \<mapsto> ?A @ new # (if join_next s A B lo hi then tl B else B)) =
        Q(tree \<mapsto> added s A B new lo hi)" by (simp add: added_def)
    moreover have "(if join_next s A B lo hi then hd B # ?N else ?N) = unused s A B N lo hi"
      by (simp add: unused_def)
    ultimately have "pool_ok bc (Q(tree \<mapsto> added s A B new lo hi)) (unused s A B N lo hi) (s4\<lparr>links := h5\<rparr>)"
      using h5(2) by argo
    then show ?thesis by (rule pool_cong) simp
  qed
  ultimately show ?thesis using d(3-5) unfolding fin by blast
qed

text \<open>
  The condition under which an addition is exact: a range that starts within the added one ends
  after it, so that at most one range is swallowed and none sticks out of the new one.
\<close>

definition add_exact :: "balloc \<Rightarrow> addr list \<Rightarrow> u64 \<Rightarrow> u64 \<Rightarrow> bool" where
  "add_exact s xs lo hi \<longleftrightarrow> (\<forall>m\<in>set xs. lo \<le> rbegin s m \<longrightarrow> rbegin s m \<le> hi \<longrightarrow> hi \<le> rend s m)"

lemma join_prev_cases:
  obtains "\<not> join_prev s A lo" "A = [] \<or> rend s (last A) < lo"
    | A' p where "join_prev s A lo" "A = A' @ [p]" "lo \<le> rend s p"
proof (cases A rule: rev_cases)
  case (snoc A' p)
  then show thesis using that by (cases "lo \<le> rend s p") (auto simp: join_prev_def not_le)
qed (use that in \<open>simp add: join_prev_def\<close>)

lemma join_next_cases:
  obtains "\<not> join_next s A B lo hi" "B = [] \<or> reach s A lo hi < rbegin s (hd B)"
    | q B' where "join_next s A B lo hi" "B = q # B'" "rbegin s q \<le> reach s A lo hi"
proof (cases B)
  case (Cons q B')
  then show thesis using that by (cases "rbegin s q \<le> reach s A lo hi") (auto simp: join_next_def not_le)
qed (use that in \<open>simp add: join_next_def\<close>)

lemma prev_part:
  assumes ap: "apart s (A @ B)" and A: "\<forall>m\<in>set A. rbegin s m < lo" and lt: "lo < hi"
  defines "A2 \<equiv> (if join_prev s A lo then butlast A else A)"
  shows "new_begin s A lo \<le> lo \<and> (\<forall>m\<in>set A2. rend s m < new_begin s A lo) \<and> apart s A2 \<and> set A2 \<subseteq> set A \<and>
    hi \<le> reach s A lo hi \<and> cover s A \<union> {lo..<hi} = cover s A2 \<union> {new_begin s A lo..<reach s A lo hi} \<and>
    (reach s A lo hi = hi \<or> (\<forall>m\<in>set B. reach s A lo hi < rbegin s m))"
proof (cases rule: join_prev_cases [of s A lo])
  case 1
  have "\<forall>m\<in>set A. rend s m < lo"
  proof (cases A rule: rev_cases)
    case (snoc A' p)
    then have "rbegin s p < lo" "\<forall>m\<in>set A'. rend s m < rbegin s p" "rend s p < lo"
      using ap A 1(2) by (auto simp: apart_append apart_Cons)
    then show ?thesis using snoc by (auto intro: less_trans)
  qed simp
  then show ?thesis using 1(1) ap lt by (simp add: A2_def new_begin_def reach_def apart_append)
next
  case (2 A' p)
  have f: "rbegin s p < lo" "\<forall>m\<in>set A'. rend s m < rbegin s p" "apart s A'" "\<forall>m\<in>set B. rend s p < rbegin s m"
    using ap A 2(2) by (auto simp: apart_append apart_Cons)
  have "{rbegin s p..<rend s p} \<union> {lo..<hi} = {rbegin s p..<max hi (rend s p)}"
    using f(1) 2(3) lt by (auto simp: less_max_iff_disj not_less)
  then have "cover s A \<union> {lo..<hi} = cover s A' \<union> {rbegin s p..<max hi (rend s p)}"
    using 2(2) by auto
  moreover have "max hi (rend s p) = hi \<or> (\<forall>m\<in>set B. max hi (rend s p) < rbegin s m)"
    using f(4) by (auto simp: max_def)
  ultimately show ?thesis using 2 f by (auto simp: A2_def new_begin_def reach_def)
qed

lemma next_part:
  assumes ap: "apart s (A @ B)" and B: "\<forall>m\<in>set B. lo \<le> rbegin s m" and ex: "add_exact s (A @ B) lo hi"
    and r: "hi \<le> reach s A lo hi" "reach s A lo hi = hi \<or> (\<forall>m\<in>set B. reach s A lo hi < rbegin s m)"
    and b: "b \<le> lo"
  defines "B2 \<equiv> (if join_next s A B lo hi then tl B else B)"
  shows "reach s A lo hi \<le> new_end s A B lo hi \<and> (\<forall>m\<in>set B2. new_end s A B lo hi < rbegin s m) \<and> apart s B2 \<and>
    set B2 \<subseteq> set B \<and> cover s B \<union> {b..<reach s A lo hi} = cover s B2 \<union> {b..<new_end s A B lo hi}"
proof (cases rule: join_next_cases [of s A B lo hi])
  case 1
  have "\<forall>m\<in>set B. reach s A lo hi < rbegin s m"
  proof (cases B)
    case (Cons q B')
    then have "rbegin s q < rend s q" "\<forall>m\<in>set B'. rend s q < rbegin s m" "reach s A lo hi < rbegin s q"
      using ap 1(2) by (auto simp: apart_append apart_Cons)
    then show ?thesis using Cons by (auto intro: less_trans)
  qed simp
  then show ?thesis using 1(1) ap by (simp add: B2_def new_end_def apart_append)
next
  case (2 q B')
  have rh: "reach s A lo hi = hi" using r(2) 2(2,3) by auto
  have f: "lo \<le> rbegin s q" "rbegin s q < rend s q" "apart s B'" "\<forall>m\<in>set B'. rend s q < rbegin s m"
    using ap B 2(2) by (auto simp: apart_append apart_Cons)
  have "hi \<le> rend s q" using ex f(1) 2(2,3) rh by (simp add: add_exact_def)
  moreover have "{rbegin s q..<rend s q} \<union> {b..<hi} = {b..<rend s q}"
    using calculation f(1,2) 2(3) rh b by (auto simp: not_less)
  ultimately show ?thesis using 2 f rh by (auto simp: B2_def new_end_def)
qed

lemma added_ok:
  assumes ap: "apart s (A @ B)" and A: "\<forall>m\<in>set A. rbegin s m < lo" and B: "\<forall>m\<in>set B. lo \<le> rbegin s m"
    and lt: "lo < hi" and ex: "add_exact s (A @ B) lo hi" and new: "new \<notin> set (A @ B)"
    and s': "rbegin s' = (rbegin s)(new := new_begin s A lo)" "rend s' = (rend s)(new := new_end s A B lo hi)"
  shows "apart s' (added s A B new lo hi)" "cover s' (added s A B new lo hi) = cover s (A @ B) \<union> {lo..<hi}"
proof -
  define A2 where "A2 = (if join_prev s A lo then butlast A else A)"
  define B2 where "B2 = (if join_next s A B lo hi then tl B else B)"
  let ?b = "new_begin s A lo" and ?r = "reach s A lo hi" and ?e = "new_end s A B lo hi"
  note p = prev_part [OF ap A lt, folded A2_def]
  note n = next_part [OF ap B ex, of ?b, folded B2_def]
  have p': "?b \<le> lo" "\<forall>m\<in>set A2. rend s m < ?b" "apart s A2" "set A2 \<subseteq> set A" "hi \<le> ?r"
      "cover s A \<union> {lo..<hi} = cover s A2 \<union> {?b..<?r}" "?r = hi \<or> (\<forall>m\<in>set B. ?r < rbegin s m)"
    using p by blast+
  have n': "?r \<le> ?e" "\<forall>m\<in>set B2. ?e < rbegin s m" "apart s B2" "set B2 \<subseteq> set B"
      "cover s B \<union> {?b..<?r} = cover s B2 \<union> {?b..<?e}"
    using n p'(1,5,7) by blast+
  have be: "?b < ?e" using p'(1,5) n'(1) lt by (meson le_less_trans less_le_trans)
  have same: "apart s' A2 = apart s A2" "apart s' B2 = apart s B2" "cover s' A2 = cover s A2" "cover s' B2 = cover s B2"
    using new p'(4) n'(4) by (auto intro!: apart_cong cover_cong simp: s')
  have keep: "\<forall>m\<in>set A2. rend s' m = rend s m \<and> rbegin s' m = rbegin s m" "\<forall>m\<in>set B2. rbegin s' m = rbegin s m"
    using new p'(4) n'(4) by (auto simp: s')
  have "\<forall>m\<in>set A2. \<forall>n\<in>set B2. rend s m < rbegin s n"
    using p'(2) n'(2) be by (meson less_trans)
  then show "apart s' (added s A B new lo hi)"
    unfolding added_def A2_def [symmetric] B2_def [symmetric] apart_append apart_Cons same
    using p'(2,3) n'(2,3) be keep by (auto simp: s')
  have "cover s' (added s A B new lo hi) = cover s A2 \<union> ({?b..<?e} \<union> cover s B2)"
    unfolding added_def A2_def [symmetric] B2_def [symmetric] cover_simps same by (simp add: s')
  also have "\<dots> = cover s A2 \<union> {?b..<?r} \<union> cover s B" using n'(5) by blast
  also have "\<dots> = cover s (A @ B) \<union> {lo..<hi}" using p'(6) by (simp add: Un_ac) blast
  finally show "cover s' (added s A B new lo hi) = cover s (A @ B) \<union> {lo..<hi}" .
qed

text \<open>All trees hold separated ranges; the fields of other nodes than the one taken from the pool stay.\<close>

definition ranges_ok :: "bstatics \<Rightarrow> (addr \<rightharpoonup> addr list) \<Rightarrow> addr list \<Rightarrow> balloc \<Rightarrow> bool" where
  "ranges_ok bc Q N s \<longleftrightarrow> pool_ok bc Q N s \<and> (\<forall>tree xs. Q tree = Some xs \<longrightarrow> apart s xs)"

theorem add_range_ok:
  assumes R: "ranges_ok bc Q (new # N) s" and Q: "Q tree = Some xs" and lt: "lo < hi" and ex: "add_exact s xs lo hi"
  shows "\<exists>s' xs' N'. balloc_add_range bc tree lo hi s = Some (Inr s') \<and> ranges_ok bc (Q(tree \<mapsto> xs')) N' s' \<and>
    cover s' xs' = cover s xs \<union> {lo..<hi} \<and> length N \<le> length N' \<and> set N' \<union> set xs' \<subseteq> set N \<union> {new} \<union> set xs \<and>
    (\<forall>n. n \<noteq> new \<longrightarrow> rbegin s' n = rbegin s n \<and> rend s' n = rend s n) \<and> prints s' = prints s"
proof -
  have P: "pool_ok bc Q (new # N) s" and ap: "apart s xs" using R Q by (auto simp: ranges_ok_def)
  obtain A B h' where r: "xs = A @ B" "\<forall>m\<in>set A. rbegin s m < lo" "\<forall>m\<in>set B. lo \<le> rbegin s m"
    "balloc_add_range bc tree lo hi s = Some (Inr (s\<lparr>links := h',
      rbegin := (rbegin s)(new := new_begin s A lo), rend := (rend s)(new := new_end s A B lo hi)\<rparr>))"
    "pool_ok bc (Q(tree \<mapsto> added s A B new lo hi)) (unused s A B N lo hi) (s\<lparr>links := h'\<rparr>)"
    using add_range_run [OF P Q ap] by blast
  define s' where "s' = s\<lparr>links := h', rbegin := (rbegin s)(new := new_begin s A lo), rend := (rend s)(new := new_end s A B lo hi)\<rparr>"
  have new: "new \<notin> set ys" if "Q t = Some ys" for t ys using pool_treeD(2) [OF P that] by auto
  have f: "rbegin s' = (rbegin s)(new := new_begin s A lo)" "rend s' = (rend s)(new := new_end s A B lo hi)"
    by (simp_all add: s'_def)
  note ok = added_ok [of s A B lo hi new s', OF _ r(2,3) lt _ _ f]
  have ok': "apart s' (added s A B new lo hi)" "cover s' (added s A B new lo hi) = cover s xs \<union> {lo..<hi}"
    using ok ap ex new [OF Q] by (simp_all add: r(1))
  have "pool_ok bc (Q(tree \<mapsto> added s A B new lo hi)) (unused s A B N lo hi) s'"
    by (rule pool_cong [OF r(5)]) (simp add: s'_def)
  moreover have "apart s' ys" if "(Q(tree \<mapsto> added s A B new lo hi)) t = Some ys" for t ys
  proof (cases "t = tree")
    case True
    then show ?thesis using that ok' by simp
  next
    case False
    then have q: "Q t = Some ys" using that by simp
    have "apart s' ys = apart s ys" using new [OF q] by (intro apart_cong) (auto simp: f)
    then show ?thesis using R q by (simp add: ranges_ok_def)
  qed
  ultimately have "ranges_ok bc (Q(tree \<mapsto> added s A B new lo hi)) (unused s A B N lo hi) s'"
    by (simp add: ranges_ok_def)
  moreover have "set (unused s A B N lo hi) \<union> set (added s A B new lo hi) \<subseteq> set N \<union> {new} \<union> set xs"
    by (auto simp: unused_def added_def r(1) join_prev_def join_next_def dest: in_set_butlastD list.set_sel(2))
  moreover have "length N \<le> length (unused s A B N lo hi)" by (simp add: unused_def)
  ultimately show ?thesis using r(4) ok'(2) unfolding s'_def [symmetric]
    by (intro exI [of _ s'] exI [of _ "added s A B new lo hi"] exI [of _ "unused s A B N lo hi"])
      (simp add: f s'_def)
qed

end
