(* ===== verification/BallocAlloc.thy ===== *)
theory BallocAlloc
  imports BallocSpec
begin

text \<open>
  Taking addresses out of the free ranges: \<^verbatim>\<open>__balloc_remove_range\<close> and \<^verbatim>\<open>__balloc_alloc\<close> both cut a
  piece out of a range, and so have the lemma about the cut in common.
\<close>

section \<open>Cutting a piece out of a range\<close>

definition cut :: "bstatics \<Rightarrow> addr \<Rightarrow> addr \<Rightarrow> u64 \<Rightarrow> u64 \<Rightarrow> balloc \<Rightarrow> balloc res option" where
  "cut bc tree p lo hi s =
     bindO (on_links (rb_erase p tree) s) (\<lambda>s.
     bindO (if rbegin s p < lo then balloc_add_range bc tree (rbegin s p) lo s else Some (Inr s)) (\<lambda>s.
     bindO (if hi < rend s p then balloc_add_range bc tree hi (rend s p) s else Some (Inr s)) (\<lambda>s.
     Some (Inr (balloc_free_node bc p s)))))"

text \<open>A range added between two others without touching them.\<close>

lemma add_gap_ok:
  assumes R: "ranges_ok bc Q (new # N) s" and Q: "Q tree = Some (A @ B)" and lt: "lo < hi"
    and A: "\<forall>m\<in>set A. rend s m < lo" and B: "\<forall>m\<in>set B. hi < rbegin s m"
  shows "\<exists>h'. let s' = s\<lparr>links := h', rbegin := (rbegin s)(new := lo), rend := (rend s)(new := hi)\<rparr> in
    balloc_add_range bc tree lo hi s = Some (Inr s') \<and> ranges_ok bc (Q(tree \<mapsto> A @ new # B)) N s'"
proof -
  have P: "pool_ok bc Q (new # N) s" and ap: "apart s (A @ B)" using R Q by (auto simp: ranges_ok_def)
  have A1: "\<forall>m\<in>set A. rbegin s m < lo" using ap A by (auto simp: apart_def intro: less_trans)
  have B1: "\<forall>m\<in>set B. lo \<le> rbegin s m" using B lt by (meson less_imp_le less_trans)
  obtain C D h' where r: "A @ B = C @ D" "\<forall>m\<in>set C. rbegin s m < lo" "\<forall>m\<in>set D. lo \<le> rbegin s m"
    "balloc_add_range bc tree lo hi s = Some (Inr (s\<lparr>links := h',
      rbegin := (rbegin s)(new := new_begin s C lo), rend := (rend s)(new := new_end s C D lo hi)\<rparr>))"
    "pool_ok bc (Q(tree \<mapsto> added s C D new lo hi)) (unused s C D N lo hi) (s\<lparr>links := h'\<rparr>)"
    using add_range_run [OF P Q ap] by blast
  have "takeWhile (\<lambda>m. rbegin s m < lo) (A @ B) = A"
    using A1 B1 by (subst takeWhile_append2) (auto simp: takeWhile_eq_Nil_iff not_less dest: hd_in_set)
  moreover have "takeWhile (\<lambda>m. rbegin s m < lo) (C @ D) = C"
    using r(2,3) by (subst takeWhile_append2) (auto simp: takeWhile_eq_Nil_iff not_less dest: hd_in_set)
  ultimately have CD: "C = A" "D = B" using r(1) by auto
  have "A \<noteq> [] \<Longrightarrow> rend s (last A) < lo" "B \<noteq> [] \<Longrightarrow> hi < rbegin s (hd B)" using A B by simp_all
  then have j1: "\<not> join_prev s A lo" and j2: "\<not> join_next s A B lo hi"
    by (auto simp: join_prev_def join_next_def reach_def not_le)
  have eqs: "new_begin s A lo = lo" "new_end s A B lo hi = hi" "added s A B new lo hi = A @ new # B" "unused s A B N lo hi = N"
    using j1 j2 by (simp_all add: new_begin_def new_end_def reach_def added_def unused_def)
  define s' where "s' = s\<lparr>links := h', rbegin := (rbegin s)(new := lo), rend := (rend s)(new := hi)\<rparr>"
  have out: "new \<notin> set ys" if "Q t = Some ys" for t ys using pool_treeD(2) [OF P that] by auto
  have "apart s' ys" if q: "(Q(tree \<mapsto> A @ new # B)) t = Some ys" for t ys
  proof (cases "t = tree")
    case True
    have "new \<notin> set A" "new \<notin> set B" using out [OF Q] by auto
    then have "apart s' A = apart s A" "apart s' B = apart s B" "\<forall>m\<in>set A. rend s' m = rend s m" "\<forall>m\<in>set B. rbegin s' m = rbegin s m"
      by (auto intro!: apart_cong simp: s'_def)
    moreover have "\<forall>m\<in>set A. \<forall>n\<in>set B. rend s m < rbegin s n" using ap by (simp add: apart_append)
    ultimately show ?thesis using True q ap lt A B by (auto simp: apart_append apart_Cons s'_def)
  next
    case False
    then have q': "Q t = Some ys" using q by simp
    have "apart s' ys = apart s ys" using out [OF q'] by (intro apart_cong) (auto simp: s'_def)
    then show ?thesis using R q' by (simp add: ranges_ok_def)
  qed
  moreover have "pool_ok bc (Q(tree \<mapsto> A @ new # B)) N s'"
    using r(5) unfolding CD eqs by (rule pool_cong) (simp add: s'_def)
  ultimately have "ranges_ok bc (Q(tree \<mapsto> A @ new # B)) N s'" by (simp add: ranges_ok_def)
  then show ?thesis using r(4) unfolding CD eqs s'_def Let_def by blast
qed

text \<open>What an operation on one tree leaves as it is: the fields of every node that was not unused.\<close>

definition fields_kept :: "addr list \<Rightarrow> balloc \<Rightarrow> balloc \<Rightarrow> bool" where
  "fields_kept N s s' \<longleftrightarrow> (\<forall>n. n \<notin> set N \<longrightarrow> rbegin s' n = rbegin s n \<and> rend s' n = rend s n) \<and> prints s' = prints s"

lemma cut_ok:
  assumes R: "ranges_ok bc Q N s" and Q: "Q tree = Some (A @ p # B)"
    and cut: "lo < hi" "rbegin s p < hi" "lo < rend s p"
    and N: "(if rbegin s p < lo then 1 else 0) + (if hi < rend s p then 1 else 0) \<le> length N"
  shows "\<exists>s' M N'. cut bc tree p lo hi s = Some (Inr s') \<and> ranges_ok bc (Q(tree \<mapsto> A @ M @ B)) N' s' \<and>
    cover s' M = {rbegin s p..<rend s p} - {lo..<hi} \<and> set M \<union> set N' \<subseteq> insert p (set N) \<and>
    length N' + (if rbegin s p < lo then 1 else 0) + (if hi < rend s p then 1 else 0) = length N + 1 \<and>
    fields_kept N s s'"
proof -
  have P: "pool_ok bc Q N s" and ap: "apart s (A @ p # B)" using R Q by (auto simp: ranges_ok_def)
  let ?b = "rbegin s p" and ?e = "rend s p"
  have AB: "\<forall>m\<in>set A. rend s m < ?b" "\<forall>m\<in>set B. ?e < rbegin s m" "?b < ?e"
      "\<forall>m\<in>set A. \<forall>n\<in>set B. rend s m < rbegin s n"
    using ap by (auto simp: apart_append apart_Cons)
  have pN: "p \<notin> set N" "p \<notin> set A" "p \<notin> set B" "set A \<inter> set N = {}" "set B \<inter> set N = {}"
    using pool_treeD(2) [OF P Q] pool_distinct [OF P Q] by auto
  obtain h0 where h0: "on_links (rb_erase p tree) s = Some (Inr (s\<lparr>links := h0\<rparr>))"
      "pool_ok bc (Q(tree \<mapsto> A @ B)) N (s\<lparr>links := h0\<rparr>)" "loose bc (Q(tree \<mapsto> A @ B)) N p"
    using pool_erase [OF P Q] by blast
  define s0 where "s0 = s\<lparr>links := h0\<rparr>"
  have f0: "rbegin s0 = rbegin s" "rend s0 = rend s" "prints s0 = prints s" by (simp_all add: s0_def)
  have c0: "apart s0 ys = apart s ys" for ys by (intro apart_cong) (simp add: f0)
  have R0: "ranges_ok bc (Q(tree \<mapsto> A @ B)) N s0"
    using h0(2) R ap unfolding ranges_ok_def c0 by (auto simp: s0_def [symmetric] apart_append apart_Cons split: if_splits)
  have "\<exists>s1 M1 N1. (if rbegin s0 p < lo then balloc_add_range bc tree (rbegin s0 p) lo s0 else Some (Inr s0)) = Some (Inr s1) \<and>
      ranges_ok bc (Q(tree \<mapsto> (A @ M1) @ B)) N1 s1 \<and> cover s1 M1 = {?b..<lo} \<and> set M1 \<union> set N1 = set N \<and>
      length N1 + (if ?b < lo then 1 else 0) = length N \<and> fields_kept N s0 s1 \<and> (\<forall>m\<in>set M1. rend s1 m \<le> lo)"
  proof (cases "?b < lo")
    case True
    then obtain n N1 where n: "N = n # N1" using N by (cases N) auto
    have "\<forall>m\<in>set B. lo < rbegin s m" using AB(2) cut(3) by (auto intro: less_trans)
    then obtain h1 where "balloc_add_range bc tree ?b lo s0 = Some (Inr (s0\<lparr>links := h1, rbegin := (rbegin s0)(n := ?b), rend := (rend s0)(n := lo)\<rparr>))"
       "ranges_ok bc (Q(tree \<mapsto> A @ B, tree \<mapsto> A @ n # B)) N1 (s0\<lparr>links := h1, rbegin := (rbegin s0)(n := ?b), rend := (rend s0)(n := lo)\<rparr>)"
      using add_gap_ok [OF R0 [unfolded n], of tree A B ?b lo] True AB cut(3) by (auto simp: f0 Let_def)
    then show ?thesis using True n
      by (intro exI [of _ "s0\<lparr>links := h1, rbegin := (rbegin s0)(n := ?b), rend := (rend s0)(n := lo)\<rparr>"]
          exI [of _ "[n]"] exI [of _ N1]) (simp add: f0 fields_kept_def)
  next
    case False
    then show ?thesis using R0 by (intro exI [of _ s0] exI [of _ "[]"] exI [of _ N]) (simp add: f0 fields_kept_def)
  qed
  then obtain s1 M1 N1 where s1: "(if rbegin s0 p < lo then balloc_add_range bc tree (rbegin s0 p) lo s0 else Some (Inr s0)) = Some (Inr s1)"
      "ranges_ok bc (Q(tree \<mapsto> (A @ M1) @ B)) N1 s1" "cover s1 M1 = {?b..<lo}" "set M1 \<union> set N1 = set N"
      "length N1 + (if ?b < lo then 1 else 0) = length N" "fields_kept N s0 s1" "\<forall>m\<in>set M1. rend s1 m \<le> lo"
    by blast
  have k1: "rbegin s1 n = rbegin s n" "rend s1 n = rend s n" if "n \<notin> set N" for n
    using s1(6) that by (simp_all add: fields_kept_def f0)
  have p1: "rbegin s1 p = ?b" "rend s1 p = ?e" using k1 pN by simp_all
  have "\<exists>s2 M2 N2. (if hi < rend s1 p then balloc_add_range bc tree hi (rend s1 p) s1 else Some (Inr s1)) = Some (Inr s2) \<and>
      ranges_ok bc (Q(tree \<mapsto> A @ M2 @ B)) N2 s2 \<and> cover s2 M2 = {?b..<lo} \<union> {hi..<?e} \<and> set M2 \<union> set N2 = set N \<and>
      length N2 + (if ?b < lo then 1 else 0) + (if hi < ?e then 1 else 0) = length N \<and> fields_kept N s0 s2"
  proof (cases "hi < ?e")
    case True
    then obtain n N2 where n: "N1 = n # N2" using N s1(5) by (cases N1) (auto split: if_splits)
    have A1: "\<forall>m\<in>set (A @ M1). rend s1 m < hi"
    proof
      fix m
      assume "m \<in> set (A @ M1)"
      then consider "m \<in> set A" | "m \<in> set M1" by auto
      then show "rend s1 m < hi"
      proof cases
        case 1
        then have "m \<notin> set N" "rend s m < ?b" using AB(1) pN(4) by auto
        then have "rend s1 m < ?b" by (simp add: k1)
        then show ?thesis using cut(2) by (rule less_trans)
      next
        case 2
        then show ?thesis using s1(7) cut(1) by (auto intro: le_less_trans)
      qed
    qed
    have B1: "\<forall>m\<in>set B. ?e < rbegin s1 m"
    proof
      fix m
      assume "m \<in> set B"
      then have "m \<notin> set N" "?e < rbegin s m" using AB(2) pN(5) by auto
      then show "?e < rbegin s1 m" by (simp add: k1)
    qed
    obtain h2 where h2: "balloc_add_range bc tree hi ?e s1 = Some (Inr (s1\<lparr>links := h2, rbegin := (rbegin s1)(n := hi), rend := (rend s1)(n := ?e)\<rparr>))"
       "ranges_ok bc (Q(tree \<mapsto> (A @ M1) @ B, tree \<mapsto> (A @ M1) @ n # B)) N2 (s1\<lparr>links := h2, rbegin := (rbegin s1)(n := hi), rend := (rend s1)(n := ?e)\<rparr>)"
      using add_gap_ok [OF s1(2) [unfolded n], of tree "A @ M1" B hi ?e] True A1 B1 by (auto simp: Let_def)
    let ?s2 = "s1\<lparr>links := h2, rbegin := (rbegin s1)(n := hi), rend := (rend s1)(n := ?e)\<rparr>"
    have "n \<notin> set M1" using s1(2) n pool_treeD(2) [of bc "Q(tree \<mapsto> (A @ M1) @ B)" N1 s1 tree "(A @ M1) @ B"]
      by (auto simp: ranges_ok_def)
    then have "cover ?s2 M1 = cover s1 M1" by (intro cover_cong) auto
    moreover have "n \<in> set N" using s1(4) n by auto
    ultimately show ?thesis using True h2 s1(3-6) n
      by (intro exI [of _ ?s2] exI [of _ "M1 @ [n]"] exI [of _ N2]) (auto simp: p1 fields_kept_def)
  next
    case False
    then have "{hi..<?e} = {}" by simp
    then show ?thesis using s1 False
      by (intro exI [of _ s1] exI [of _ M1] exI [of _ N1]) (simp add: p1)
  qed
  then obtain s2 M2 N2 where s2: "(if hi < rend s1 p then balloc_add_range bc tree hi (rend s1 p) s1 else Some (Inr s1)) = Some (Inr s2)"
      "ranges_ok bc (Q(tree \<mapsto> A @ M2 @ B)) N2 s2" "cover s2 M2 = {?b..<lo} \<union> {hi..<?e}" "set M2 \<union> set N2 = set N"
      "length N2 + (if ?b < lo then 1 else 0) + (if hi < ?e then 1 else 0) = length N" "fields_kept N s0 s2"
    by blast
  have "loose bc (Q(tree \<mapsto> A @ M2 @ B)) N2 p"
    using h0(3) s2(4) pN unfolding loose_def by (auto split: if_splits)
  note fr = pool_free [OF s2(2) [unfolded ranges_ok_def, THEN conjunct1] this]
  let ?s3 = "balloc_free_node bc p s2"
  have "apart ?s3 ys = apart s2 ys" "cover ?s3 ys = cover s2 ys" for ys
    by (auto intro!: apart_cong cover_cong simp: fr)
  then have "ranges_ok bc (Q(tree \<mapsto> A @ M2 @ B)) (p # N2) ?s3" "cover ?s3 M2 = {?b..<lo} \<union> {hi..<?e}"
    using fr(1) s2(2,3) by (simp_all add: ranges_ok_def)
  moreover have "{?b..<lo} \<union> {hi..<?e} = {?b..<?e} - {lo..<hi}" using cut AB(3) by (auto simp: not_le not_less)
  moreover have "fields_kept N s ?s3" using s2(6) by (simp add: fields_kept_def fr f0)
  moreover have "cut bc tree p lo hi s = Some (Inr ?s3)"
    using h0(1) s1(1) s2(1) by (simp add: cut_def s0_def [symmetric])
  moreover have "set M2 \<union> set (p # N2) \<subseteq> insert p (set N)" using s2(4) by auto
  moreover have "length (p # N2) + (if ?b < lo then 1 else 0) + (if hi < ?e then 1 else 0) = length N + 1"
    using s2(5) by simp
  ultimately show ?thesis by metis
qed

section \<open>Removing a range\<close>

lemma remove_loop_cut:
  "remove_loop bc tree ptr lo hi s =
     (if ptr \<noteq> NULL \<and> rbegin s ptr < hi then
        Option.bind (rb_next ptr (links s)) (\<lambda>n. bindO (cut bc tree ptr lo hi s) (remove_loop bc tree n lo hi))
      else Some (Inr s))"
  by (subst remove_loop.simps) (simp add: cut_def bindO_assoc RB2MEMORY_NODE_def)

lemma remove_loop_ok:
  assumes "ranges_ok bc Q N s" "Q tree = Some (A @ B)" "lo < hi" "cover s A \<inter> {lo..<hi} = {}"
    "\<forall>m\<in>set B. lo < rend s m"
    "2 \<le> length N \<or> 1 \<le> length N \<and> (\<forall>m\<in>set B. lo \<le> rbegin s m) \<or> (\<forall>m\<in>set B. hi \<le> rbegin s m)"
  shows "\<exists>s' xs' N'. remove_loop bc tree (first_of B) lo hi s = Some (Inr s') \<and> ranges_ok bc (Q(tree \<mapsto> xs')) N' s' \<and>
    cover s' xs' = cover s (A @ B) - {lo..<hi} \<and> set xs' \<union> set N' \<subseteq> set (A @ B) \<union> set N \<and>
    length N \<le> length N' + (if \<forall>m\<in>set B. lo \<le> rbegin s m then 0 else 1) \<and> (\<forall>n. n \<notin> set (A @ B) \<union> set N \<longrightarrow> rbegin s' n = rbegin s n \<and> rend s' n = rend s n) \<and>
    prints s' = prints s"
  using assms
proof (induction B arbitrary: A N s Q)
  case Nil
  then have "remove_loop bc tree (first_of []) lo hi s = Some (Inr s)" by (subst remove_loop_cut) simp
  moreover have "cover s A - {lo..<hi} = cover s A" using Nil.prems(4) by blast
  moreover have "Q(tree \<mapsto> A) = Q" using Nil.prems(2) by auto
  ultimately show ?case using Nil.prems(1) by (intro exI [of _ s] exI [of _ A] exI [of _ N]) simp
next
  case (Cons p B)
  note R = Cons.prems(1) and Q = Cons.prems(2) and lt = Cons.prems(3)
  have P: "pool_ok bc Q N s" and ap: "apart s (A @ p # B)" using R Q by (auto simp: ranges_ok_def)
  have p: "p \<noteq> NULL" "rb_next p (links s) = Some (first_of B)"
    using rb.seq_nodes [OF pool_seq [OF P Q]] rb.seq_succ [OF pool_seq [OF P Q]] by (auto dest: good_not_null)
  show ?case
  proof (cases "rbegin s p < hi")
    case False
    have "\<forall>m\<in>set B. rend s p < rbegin s m" "rbegin s p < rend s p" using ap by (auto simp: apart_append apart_Cons)
    then have "\<forall>m\<in>set (p # B). hi \<le> rbegin s m" using False by (auto simp: not_less intro: order_trans less_imp_le)
    then have "\<forall>m\<in>set (p # B). {rbegin s m..<rend s m} \<inter> {lo..<hi} = {}"
      by (auto dest!: bspec simp: not_less)
    then have "cover s (p # B) \<inter> {lo..<hi} = {}" unfolding cover_def by blast
    then have "cover s (A @ p # B) - {lo..<hi} = cover s (A @ p # B)" using Cons.prems(4) by (auto simp del: cover_simps(2))
    moreover have "remove_loop bc tree (first_of (p # B)) lo hi s = Some (Inr s)"
      using False by (subst remove_loop_cut) simp
    moreover have "Q(tree \<mapsto> A @ p # B) = Q" using Q by auto
    ultimately show ?thesis using R by (intro exI [of _ s] exI [of _ "A @ p # B"] exI [of _ N]) simp
  next
    case True
    have lp: "lo < rend s p" using Cons.prems(5) by simp
    have need: "(if rbegin s p < lo then 1 else 0) + (if hi < rend s p then 1 else 0) \<le> length N"
      using Cons.prems(6) True by (auto simp: not_le)
    obtain s1 M N1 where c: "cut bc tree p lo hi s = Some (Inr s1)" "ranges_ok bc (Q(tree \<mapsto> A @ M @ B)) N1 s1"
        "cover s1 M = {rbegin s p..<rend s p} - {lo..<hi}" "set M \<union> set N1 \<subseteq> insert p (set N)"
        "length N1 + (if rbegin s p < lo then 1 else 0) + (if hi < rend s p then 1 else 0) = length N + 1"
        "fields_kept N s s1"
      using cut_ok [OF R Q lt True lp need] by blast
    have out: "n \<notin> set N" if "n \<in> set (A @ p # B)" for n using pool_treeD(2) [OF P Q] that by blast
    have kA: "cover s1 A = cover s A" and kB: "\<forall>m\<in>set B. rbegin s1 m = rbegin s m \<and> rend s1 m = rend s m"
        "cover s1 B = cover s B"
      using c(6) out by (auto intro!: cover_cong simp: fields_kept_def)
    have apB: "\<forall>m\<in>set B. rend s p < rbegin s m" "rbegin s p < rend s p" using ap by (auto simp: apart_append apart_Cons)
    have need': "2 \<le> length N1 \<or> 1 \<le> length N1 \<and> (\<forall>m\<in>set B. lo \<le> rbegin s1 m) \<or> (\<forall>m\<in>set B. hi \<le> rbegin s1 m)"
    proof (cases "hi < rend s p")
      case True
      then show ?thesis using apB(1) kB(1) by (auto intro: less_imp_le less_trans)
    next
      case False
      have "lo \<le> rbegin s1 m" if "m \<in> set B" for m
        using apB(1) lp kB(1) that by (auto intro: less_imp_le less_trans)
      moreover have "1 \<le> length N1" using c(5) False need by (auto split: if_splits)
      ultimately show ?thesis by blast
    qed
    have IH: "\<exists>s' xs' N'. remove_loop bc tree (first_of B) lo hi s1 = Some (Inr s') \<and>
      ranges_ok bc (Q(tree \<mapsto> A @ M @ B, tree \<mapsto> xs')) N' s' \<and>
      cover s' xs' = cover s1 ((A @ M) @ B) - {lo..<hi} \<and> set xs' \<union> set N' \<subseteq> set ((A @ M) @ B) \<union> set N1 \<and>
      length N1 \<le> length N' + (if \<forall>m\<in>set B. lo \<le> rbegin s1 m then 0 else 1) \<and>
      (\<forall>n. n \<notin> set ((A @ M) @ B) \<union> set N1 \<longrightarrow> rbegin s' n = rbegin s1 n \<and> rend s' n = rend s1 n) \<and> prints s' = prints s1"
    proof (rule Cons.IH [OF c(2) _ lt _ _ need'])
      show "(Q(tree \<mapsto> A @ M @ B)) tree = Some ((A @ M) @ B)" by simp
      show "cover s1 (A @ M) \<inter> {lo..<hi} = {}" using Cons.prems(4) kA c(3) by auto
      show "\<forall>m\<in>set B. lo < rend s1 m" using Cons.prems(5) kB(1) by simp
    qed
    then obtain s' xs' N' where r: "remove_loop bc tree (first_of B) lo hi s1 = Some (Inr s')"
      "ranges_ok bc (Q(tree \<mapsto> xs')) N' s'"
      "cover s' xs' = cover s1 ((A @ M) @ B) - {lo..<hi}" "set xs' \<union> set N' \<subseteq> set ((A @ M) @ B) \<union> set N1"
      "length N1 \<le> length N' + (if \<forall>m\<in>set B. lo \<le> rbegin s1 m then 0 else 1)"
      "\<forall>n. n \<notin> set ((A @ M) @ B) \<union> set N1 \<longrightarrow> rbegin s' n = rbegin s1 n \<and> rend s' n = rend s1 n" "prints s' = prints s1"
      by (simp only: fun_upd_upd) blast
    have sub: "set ((A @ M) @ B) \<union> set N1 \<subseteq> set (A @ p # B) \<union> set N" using c(4) by auto
    have "remove_loop bc tree (first_of (p # B)) lo hi s = Some (Inr s')"
      using True p c(1) r(1) by (subst remove_loop_cut) simp
    moreover have "cover s' xs' = cover s (A @ p # B) - {lo..<hi}" using r(3) kA kB(2) c(3) by auto
    moreover have "set xs' \<union> set N' \<subseteq> set (A @ p # B) \<union> set N" using r(4) sub by blast
    moreover have "length N \<le> length N' + (if \<forall>m\<in>set (p # B). lo \<le> rbegin s m then 0 else 1)"
    proof -
      have "\<forall>m\<in>set B. lo \<le> rbegin s m" using apB lp by (auto intro: less_imp_le less_trans)
      then show ?thesis using r(5) c(5) kB(1) by (auto split: if_splits)
    qed
    moreover have "\<forall>n. n \<notin> set (A @ p # B) \<union> set N \<longrightarrow> rbegin s' n = rbegin s n \<and> rend s' n = rend s n"
    proof (intro allI impI)
      fix n
      assume n: "n \<notin> set (A @ p # B) \<union> set N"
      then have "n \<notin> set ((A @ M) @ B) \<union> set N1" "n \<notin> set N" using sub by blast+
      then show "rbegin s' n = rbegin s n \<and> rend s' n = rend s n" using r(6) c(6) by (simp add: fields_kept_def)
    qed
    moreover have "prints s' = prints s" using r(7) c(6) by (simp add: fields_kept_def)
    ultimately show ?thesis using r(2) by blast
  qed
qed

lemma dropWhile_seq:
  assumes "apart s xs"
  obtains A B where "xs = A @ B" "dropWhile (\<lambda>n. rend s n \<le> lo) xs = B" "\<forall>m\<in>set A. rend s m \<le> lo" "\<forall>m\<in>set B. lo < rend s m"
proof -
  let ?A = "takeWhile (\<lambda>n. rend s n \<le> lo) xs" and ?B = "dropWhile (\<lambda>n. rend s n \<le> lo) xs"
  have "\<forall>m\<in>set ?B. lo < rend s m"
  proof (cases ?B)
    case (Cons q B)
    have "\<not> rend s q \<le> lo" using hd_dropWhile [of "\<lambda>n. rend s n \<le> lo" xs] Cons by simp
    moreover have "sorted_wrt (\<lambda>m n. rend s m < rend s n) (?A @ q # B)"
      using apart_ends [OF assms] Cons by (metis takeWhile_dropWhile_id)
    ultimately show ?thesis using Cons by (auto simp: sorted_wrt_append intro: less_trans)
  next
    case Nil
    show ?thesis unfolding Nil by simp
  qed
  moreover have "\<forall>m\<in>set ?A. rend s m \<le> lo" by (auto dest: set_takeWhileD)
  ultimately show thesis using that [of ?A ?B] by simp
qed

theorem remove_range_ok:
  assumes R: "ranges_ok bc Q N s" and Q: "Q tree = Some xs" and lt: "lo < hi" and N: "2 \<le> length N"
  shows "\<exists>s' xs' N'. balloc_remove_range bc tree lo hi s = Some (Inr s') \<and> ranges_ok bc (Q(tree \<mapsto> xs')) N' s' \<and>
    cover s' xs' = cover s xs - {lo..<hi} \<and> set xs' \<union> set N' \<subseteq> set xs \<union> set N \<and> length N \<le> length N' + 1 \<and>
    (\<forall>n. n \<notin> set xs \<union> set N \<longrightarrow> rbegin s' n = rbegin s n \<and> rend s' n = rend s n) \<and> prints s' = prints s"
proof -
  have P: "pool_ok bc Q N s" and ap: "apart s xs" using R Q by (auto simp: ranges_ok_def)
  obtain A B where AB: "xs = A @ B" "dropWhile (\<lambda>n. rend s n \<le> lo) xs = B" "\<forall>m\<in>set A. rend s m \<le> lo" "\<forall>m\<in>set B. lo < rend s m"
    using dropWhile_seq [OF ap] by metis
  have "balloc_remove_range bc tree lo hi s = remove_loop bc tree (first_of B) lo hi s"
    using range_after_seq [OF pool_seq [OF P Q] ap, of lo] AB(2) by (simp add: balloc_remove_range_def)
  moreover have "\<forall>m\<in>set A. {rbegin s m..<rend s m} \<inter> {lo..<hi} = {}" using AB(3) by (auto dest!: bspec simp: not_less)
  then have "cover s A \<inter> {lo..<hi} = {}" unfolding cover_def by blast
  ultimately have run: "balloc_remove_range bc tree lo hi s = remove_loop bc tree (first_of B) lo hi s"
    and dj: "cover s A \<inter> {lo..<hi} = {}" by blast+
  have QAB: "Q tree = Some (A @ B)" using Q AB(1) by simp
  obtain s' xs' N' where "remove_loop bc tree (first_of B) lo hi s = Some (Inr s')" "ranges_ok bc (Q(tree \<mapsto> xs')) N' s'"
    "cover s' xs' = cover s (A @ B) - {lo..<hi}" "set xs' \<union> set N' \<subseteq> set (A @ B) \<union> set N"
    "length N \<le> length N' + (if \<forall>m\<in>set B. lo \<le> rbegin s m then 0 else 1)"
    "\<forall>n. n \<notin> set (A @ B) \<union> set N \<longrightarrow> rbegin s' n = rbegin s n \<and> rend s' n = rend s n" "prints s' = prints s"
    using remove_loop_ok [OF R QAB lt dj AB(4)] N by blast
  then show ?thesis unfolding run AB(1) [symmetric]
    by (intro exI [of _ s'] exI [of _ xs'] exI [of _ N']) (simp split: if_splits)
qed

section \<open>Allocation\<close>

lemma take_from_cut:
  "take_from bc p a sz s = bindO (cut bc (free_ranges bc) p a (a + sz) s) (\<lambda>s. Some (Inr (a, s)))"
  by (simp add: take_from_def cut_def bindO_assoc)

lemma and_not_mask: "(w :: u64) AND NOT (mask k) = push_bit k (drop_bit k w)"
  by (rule bit_word_eqI) (auto simp: bit_simps not_less)

lemma unat_push_drop: "unat (push_bit k (drop_bit k (w :: u64))) = unat w div 2 ^ k * 2 ^ k"
proof -
  have le: "unat w div 2 ^ k * 2 ^ k \<le> unat w" by simp
  have "unat (push_bit k (drop_bit k w)) = take_bit 64 (push_bit k (drop_bit k (unat w)))"
    by (rule bit_eqI) (auto simp: bit_simps bit_unsigned_iff dest: bit_imp_le_length)
  also have "push_bit k (drop_bit k (unat w)) = unat w div 2 ^ k * 2 ^ k" by (simp add: push_bit_eq_mult drop_bit_eq_div)
  also have "take_bit 64 (unat w div 2 ^ k * 2 ^ k) = unat w div 2 ^ k * 2 ^ k"
    by (intro take_bit_nat_eq_self le_less_trans [OF le unat64_less])
  finally show ?thesis .
qed

lemma addr_align_up_ok:
  assumes "k < 64" "unat b + 2 ^ k \<le> 2 ^ 64"
  shows "unat (addr_align_up b (2 ^ k)) = (unat b + (2 ^ k - 1)) div 2 ^ k * 2 ^ k"
    "2 ^ k dvd unat (addr_align_up b (2 ^ k))" "unat b \<le> unat (addr_align_up b (2 ^ k))"
    "unat (addr_align_up b (2 ^ k)) < unat b + 2 ^ k"
proof -
  have m: "(2 :: u64) ^ k - 1 = mask k" by (simp add: mask_eq_exp_minus_1)
  have um: "unat (mask k :: u64) = 2 ^ k - 1"
  proof -
    have "unat (mask k :: u64) = mask k" using assms(1) by (intro bit_eqI) (auto simp: bit_simps bit_unsigned_iff bit_mask_iff)
    then show ?thesis by (simp add: mask_eq_exp_minus_1)
  qed
  have s: "unat (b + mask k) = unat b + (2 ^ k - 1)"
    using assms(2) by (subst unat_add_no_wrap) (simp_all add: um)
  show eq: "unat (addr_align_up b (2 ^ k)) = (unat b + (2 ^ k - 1)) div 2 ^ k * 2 ^ k"
    unfolding addr_align_up_def Let_def m and_not_mask unat_push_drop s ..
  show "2 ^ k dvd unat (addr_align_up b (2 ^ k))" by (simp add: eq)
  let ?x = "unat b + (2 ^ k - 1)"
  have "?x = ?x div 2 ^ k * 2 ^ k + ?x mod 2 ^ k" by (rule div_mult_mod_eq [symmetric])
  moreover have "?x mod 2 ^ k < 2 ^ k" by simp
  moreover have "(0 :: nat) < 2 ^ k" by simp
  ultimately show "unat b \<le> unat (addr_align_up b (2 ^ k))" "unat (addr_align_up b (2 ^ k)) < unat b + 2 ^ k"
    unfolding eq by linarith+
qed

lemma addr_align_up_least:
  assumes "k < 64" "unat b + 2 ^ k \<le> 2 ^ 64" "2 ^ k dvd unat a" "unat b \<le> unat a"
  shows "unat (addr_align_up b (2 ^ k)) \<le> unat a"
proof -
  obtain q where q: "unat a = q * 2 ^ k" using assms(3) by (auto elim: dvdE)
  have "(unat b + (2 ^ k - 1)) div 2 ^ k \<le> (q * 2 ^ k + (2 ^ k - 1)) div 2 ^ k"
    using assms(4) q by (intro div_le_mono) simp
  also have "\<dots> = q"
  proof -
    have "(2 ^ k - 1 + q * 2 ^ k) div 2 ^ k = q + (2 ^ k - 1) div 2 ^ k" by (rule div_mult_self1) simp
    moreover have "(2 ^ k - 1 :: nat) div 2 ^ k = 0" by simp
    ultimately show ?thesis by (simp only: add.commute add_0)
  qed
  finally show ?thesis unfolding addr_align_up_ok(1) [OF assms(1,2)] q by simp
qed

text \<open>Where in a range a block would be taken, and whether it fits.\<close>

definition block_at :: "balloc \<Rightarrow> addr \<Rightarrow> u64 \<Rightarrow> u64 \<Rightarrow> u64" where
  "block_at s p align lo = addr_align_up (if lo < rbegin s p then rbegin s p else lo) align"

definition block_fits :: "balloc \<Rightarrow> addr \<Rightarrow> u64 \<Rightarrow> u64 \<Rightarrow> u64 \<Rightarrow> u64 \<Rightarrow> bool" where
  "block_fits s p sz align lo hi \<longleftrightarrow> block_at s p align lo + sz \<le> (if rend s p < hi then rend s p else hi)"

text \<open>No range comes so near to the end of the address space that the arithmetic could wrap.\<close>

definition no_wrap :: "balloc \<Rightarrow> addr list \<Rightarrow> nat \<Rightarrow> u64 \<Rightarrow> bool" where
  "no_wrap s xs k sz \<longleftrightarrow> (\<forall>m\<in>set xs. unat (rend s m) + 2 ^ k + unat sz < 2 ^ 64)"

lemma block_facts:
  assumes w: "unat (rend s p) + 2 ^ k + unat sz < 2 ^ 64" and k: "k < 64" and p: "rbegin s p < rend s p" "lo < rend s p"
  shows "lo \<le> block_at s p (2 ^ k) lo" "rbegin s p \<le> block_at s p (2 ^ k) lo" "2 ^ k dvd unat (block_at s p (2 ^ k) lo)"
    "unat (block_at s p (2 ^ k) lo + sz) = unat (block_at s p (2 ^ k) lo) + unat sz"
    "2 ^ k dvd unat a \<Longrightarrow> lo \<le> a \<Longrightarrow> rbegin s p \<le> a \<Longrightarrow> block_at s p (2 ^ k) lo \<le> a"
proof -
  let ?b = "if lo < rbegin s p then rbegin s p else lo"
  have lt: "unat ?b < unat (rend s p)" using p by (simp add: word_less_nat_alt)
  then have b: "unat ?b + 2 ^ k \<le> 2 ^ 64" using w by linarith
  note a = addr_align_up_ok [OF k b]
  have "?b \<le> addr_align_up ?b (2 ^ k)" using a(3) by (simp only: word_le_nat_alt)
  moreover have "lo \<le> ?b" "rbegin s p \<le> ?b" by auto
  ultimately show "lo \<le> block_at s p (2 ^ k) lo" "rbegin s p \<le> block_at s p (2 ^ k) lo"
    unfolding block_at_def using order_trans by blast+
  show "2 ^ k dvd unat (block_at s p (2 ^ k) lo)" unfolding block_at_def by (rule a(2))
  show "unat (block_at s p (2 ^ k) lo + sz) = unat (block_at s p (2 ^ k) lo) + unat sz"
    using a(4) lt w unfolding block_at_def by (intro unat_add_no_wrap) simp
  assume "2 ^ k dvd unat a" "lo \<le> a" "rbegin s p \<le> a"
  then show "block_at s p (2 ^ k) lo \<le> a"
    using addr_align_up_least [OF k b, of a] unfolding block_at_def word_le_nat_alt by (auto split: if_splits)
qed

lemma alloc_loop_step:
  "alloc_loop bc p sz align lo hi s =
     (if p \<noteq> NULL \<and> rbegin s p < hi then
        if block_fits s p sz align lo hi then take_from bc p (block_at s p align lo) sz s
        else Option.bind (rb_next p (links s)) (\<lambda>n. alloc_loop bc n sz align lo hi s)
      else Some (Inr (hi, s)))"
  by (subst alloc_loop.simps) (simp add: block_fits_def block_at_def Let_def RB2MEMORY_NODE_def)

definition taken ::
    "bstatics \<Rightarrow> (addr \<rightharpoonup> addr list) \<Rightarrow> addr list \<Rightarrow> addr list \<Rightarrow> u64 \<Rightarrow> u64 \<Rightarrow> balloc \<Rightarrow> balloc \<Rightarrow> bool" where
  "taken bc Q xs N a sz s s' \<longleftrightarrow> (\<exists>xs' N'. ranges_ok bc (Q(free_ranges bc \<mapsto> xs')) N' s' \<and>
     cover s' xs' = cover s xs - {a..<a + sz} \<and> set xs' \<union> set N' \<subseteq> set xs \<union> set N \<and> length N \<le> length N' + 1 \<and>
     (\<forall>n. n \<notin> set xs \<union> set N \<longrightarrow> rbegin s' n = rbegin s n \<and> rend s' n = rend s n) \<and> prints s' = prints s)"

lemma take_from_ok:
  assumes R: "ranges_ok bc Q N s" and Q: "Q (free_ranges bc) = Some (A @ p # B)" and N: "2 \<le> length N"
    and sz: "0 < sz" and k: "k < 64" and w: "no_wrap s (A @ p # B) k sz" and p: "rbegin s p < hi" "lo < rend s p"
    and fit: "block_fits s p sz (2 ^ k) lo hi"
  defines "a \<equiv> block_at s p (2 ^ k) lo"
  shows "\<exists>s'. take_from bc p a sz s = Some (Inr (a, s')) \<and> taken bc Q (A @ p # B) N a sz s s' \<and>
    lo \<le> a \<and> unat a + unat sz \<le> unat hi \<and> 2 ^ k dvd unat a \<and> {a..<a + sz} \<subseteq> cover s (A @ p # B)"
proof -
  have P: "pool_ok bc Q N s" and ap: "apart s (A @ p # B)" using R Q by (auto simp: ranges_ok_def)
  have be: "rbegin s p < rend s p" using ap by (simp add: apart_append apart_Cons)
  have "unat (rend s p) + 2 ^ k + unat sz < 2 ^ 64" using w by (simp add: no_wrap_def)
  note f = block_facts [OF this k be p(2), folded a_def]
  have le: "a + sz \<le> rend s p" "a + sz \<le> hi"
    using fit unfolding block_fits_def a_def by (auto split: if_splits)
  have lt: "a < a + sz" using sz f(4) by (simp add: word_less_nat_alt)
  have b: "rbegin s p < a + sz" using f(2) lt by (rule le_less_trans)
  have e: "a < rend s p" using lt le(1) by (rule less_le_trans)
  have need: "(if rbegin s p < a then 1 else 0) + (if a + sz < rend s p then 1 else 0) \<le> length N" using N by auto
  obtain s' M N' where c: "cut bc (free_ranges bc) p a (a + sz) s = Some (Inr s')"
      "ranges_ok bc (Q(free_ranges bc \<mapsto> A @ M @ B)) N' s'" "cover s' M = {rbegin s p..<rend s p} - {a..<a + sz}"
      "set M \<union> set N' \<subseteq> insert p (set N)"
      "length N' + (if rbegin s p < a then 1 else 0) + (if a + sz < rend s p then 1 else 0) = length N + 1" "fields_kept N s s'"
    using cut_ok [OF R Q lt b e need] by blast
  have sub: "{a..<a + sz} \<subseteq> {rbegin s p..<rend s p}" using f(2) le(1) by auto
  have out: "n \<notin> set N" if "n \<in> set (A @ p # B)" for n using pool_treeD(2) [OF P Q] that by blast
  have kAB: "cover s' A = cover s A" "cover s' B = cover s B"
    using c(6) out by (auto intro!: cover_cong simp: fields_kept_def)
  have "cover s (A @ B) \<inter> {rbegin s p..<rend s p} = {}"
  proof -
    have "\<forall>m\<in>set (A @ B). {rbegin s m..<rend s m} \<inter> {rbegin s p..<rend s p} = {}"
      using ap by (auto simp: apart_append apart_Cons dest!: bspec)
    then show ?thesis unfolding cover_def by blast
  qed
  then have "cover s (A @ B) \<inter> {a..<a + sz} = {}" using sub by blast
  then have cov: "cover s' (A @ M @ B) = cover s (A @ p # B) - {a..<a + sz}" using kAB c(3) by auto
  have "taken bc Q (A @ p # B) N a sz s s'"
    unfolding taken_def
  proof (intro exI conjI)
    show "ranges_ok bc (Q(free_ranges bc \<mapsto> A @ M @ B)) N' s'" by (rule c(2))
    show "cover s' (A @ M @ B) = cover s (A @ p # B) - {a..<a + sz}" by (rule cov)
    show "set (A @ M @ B) \<union> set N' \<subseteq> set (A @ p # B) \<union> set N" using c(4) by auto
    show "length N \<le> length N' + 1" using c(5) by (simp split: if_splits)
    show "\<forall>n. n \<notin> set (A @ p # B) \<union> set N \<longrightarrow> rbegin s' n = rbegin s n \<and> rend s' n = rend s n" "prints s' = prints s"
      using c(6) by (simp_all add: fields_kept_def)
  qed
  moreover have "take_from bc p a sz s = Some (Inr (a, s'))" by (simp add: take_from_cut c(1))
  moreover have "unat a + unat sz \<le> unat hi" using le(2) f(4) by (simp add: word_le_nat_alt)
  moreover have "{a..<a + sz} \<subseteq> cover s (A @ p # B)" using sub by auto
  ultimately show ?thesis using f(1,3) by blast
qed

definition least_block :: "balloc \<Rightarrow> addr list \<Rightarrow> u64 \<Rightarrow> u64 \<Rightarrow> nat \<Rightarrow> u64 \<Rightarrow> u64 \<Rightarrow> bool" where
  "least_block s xs a sz k lo hi \<longleftrightarrow>
     (\<forall>q\<in>set xs. rbegin s q < hi \<longrightarrow> block_fits s q sz (2 ^ k) lo hi \<longrightarrow> a \<le> block_at s q (2 ^ k) lo)"

lemma first_block_least:
  assumes ap: "apart s (p # B)" and w: "no_wrap s (p # B) k sz" and k: "k < 64" and sz: "0 < sz" and lo: "\<forall>m\<in>set (p # B). lo < rend s m"
    and fit: "block_fits s p sz (2 ^ k) lo hi"
  shows "least_block s (p # B) (block_at s p (2 ^ k) lo) sz k lo hi"
  unfolding least_block_def
proof (intro ballI impI)
  fix q
  assume q: "q \<in> set (p # B)"
  have be: "rbegin s m < rend s m" "unat (rend s m) + 2 ^ k + unat sz < 2 ^ 64" "lo < rend s m" if "m \<in> set (p # B)" for m
    using ap w lo that by (auto simp: apart_def no_wrap_def)
  show "block_at s p (2 ^ k) lo \<le> block_at s q (2 ^ k) lo"
  proof (cases "q = p")
    case False
    then have "rend s p < rbegin s q" using ap q by (auto simp: apart_Cons)
    moreover have "rbegin s q \<le> block_at s q (2 ^ k) lo" using block_facts(2) [OF be(2) k be(1,3)] q by blast
    moreover have "block_at s p (2 ^ k) lo + sz \<le> rend s p" using fit by (simp add: block_fits_def split: if_splits)
    moreover have "unat (block_at s p (2 ^ k) lo + sz) = unat (block_at s p (2 ^ k) lo) + unat sz"
      by (rule block_facts(4) [OF be(2) k be(1,3)]) simp_all
    ultimately show ?thesis by (simp add: word_le_nat_alt word_less_nat_alt)
  qed simp
qed

lemma alloc_loop_ok:
  assumes R: "ranges_ok bc Q N s" and "Q (free_ranges bc) = Some (A @ B)" and N: "2 \<le> length N"
    and sz: "0 < sz" and k: "k < 64" and "no_wrap s (A @ B) k sz" and "\<forall>m\<in>set B. lo < rend s m"
  shows "(\<exists>a s'. alloc_loop bc (first_of B) sz (2 ^ k) lo hi s = Some (Inr (a, s')) \<and> taken bc Q (A @ B) N a sz s s' \<and>
      lo \<le> a \<and> unat a + unat sz \<le> unat hi \<and> 2 ^ k dvd unat a \<and> {a..<a + sz} \<subseteq> cover s (A @ B) \<and>
      least_block s B a sz k lo hi) \<or>
    alloc_loop bc (first_of B) sz (2 ^ k) lo hi s = Some (Inr (hi, s)) \<and>
      (\<forall>p\<in>set B. rbegin s p < hi \<longrightarrow> \<not> block_fits s p sz (2 ^ k) lo hi)"
  using assms(2,6,7)
proof (induction B arbitrary: A)
  case Nil
  then show ?case by (subst (2) alloc_loop_step) simp
next
  case (Cons p B)
  have P: "pool_ok bc Q N s" and ap: "apart s (A @ p # B)" using R Cons.prems(1) by (auto simp: ranges_ok_def)
  have p: "p \<noteq> NULL" "rb_next p (links s) = Some (first_of B)"
    using rb.seq_nodes [OF pool_seq [OF P Cons.prems(1)]] rb.seq_succ [OF pool_seq [OF P Cons.prems(1)]]
    by (auto dest: good_not_null)
  consider "\<not> rbegin s p < hi" | "rbegin s p < hi" "block_fits s p sz (2 ^ k) lo hi"
    | "rbegin s p < hi" "\<not> block_fits s p sz (2 ^ k) lo hi" by blast
  then show ?case
  proof cases
    case 1
    have "\<forall>m\<in>set B. rend s p < rbegin s m" "rbegin s p < rend s p" using ap by (auto simp: apart_append apart_Cons)
    then have "\<forall>m\<in>set (p # B). \<not> rbegin s m < hi" using 1 by (auto simp: not_less intro: order_trans less_imp_le)
    moreover have "alloc_loop bc (first_of (p # B)) sz (2 ^ k) lo hi s = Some (Inr (hi, s))"
      using 1 by (subst alloc_loop_step) simp
    ultimately show ?thesis by blast
  next
    case 2
    have "alloc_loop bc (first_of (p # B)) sz (2 ^ k) lo hi s = take_from bc p (block_at s p (2 ^ k) lo) sz s"
      using 2 p by (subst alloc_loop_step) simp
    moreover have "lo < rend s p" using Cons.prems(3) by simp
    moreover have "apart s (p # B)" "no_wrap s (p # B) k sz" using ap Cons.prems(2) by (simp_all add: apart_append no_wrap_def)
    from first_block_least [OF this k sz Cons.prems(3) 2(2)]
    have "least_block s (p # B) (block_at s p (2 ^ k) lo) sz k lo hi" .
    ultimately show ?thesis
      using take_from_ok [OF R Cons.prems(1) N sz k Cons.prems(2) 2(1) _ 2(2)] by metis
  next
    case 3
    have "alloc_loop bc (first_of (p # B)) sz (2 ^ k) lo hi s = alloc_loop bc (first_of B) sz (2 ^ k) lo hi s"
      using 3 p by (subst alloc_loop_step) simp
    moreover have "Q (free_ranges bc) = Some ((A @ [p]) @ B)" "no_wrap s ((A @ [p]) @ B) k sz" "\<forall>m\<in>set B. lo < rend s m"
      using Cons.prems by simp_all
    note Cons.IH [OF this]
    moreover have "least_block s (p # B) a sz k lo hi = least_block s B a sz k lo hi" for a
      using 3 by (simp add: least_block_def)
    ultimately show ?thesis using 3 by auto
  qed
qed

text \<open>A block of free addresses lies in one range.\<close>

lemma block_in_range:
  assumes ap: "apart s xs" and sz: "a < a + sz" and sub: "{a..<a + sz} \<subseteq> cover s xs"
  shows "\<exists>p\<in>set xs. rbegin s p \<le> a \<and> a + sz \<le> rend s p"
proof -
  obtain p where p: "p \<in> set xs" "rbegin s p \<le> a" "a < rend s p"
  proof -
    have "a \<in> cover s xs" using sub sz by (meson atLeastLessThan_iff order_refl subsetD)
    then show ?thesis using that by (auto simp: cover_def)
  qed
  have "a + sz \<le> rend s p"
  proof (rule ccontr)
    assume "\<not> a + sz \<le> rend s p"
    then have "rend s p \<in> {a..<a + sz}" using p(3) by (simp add: not_le less_imp_le)
    then obtain q where q: "q \<in> set xs" "rbegin s q \<le> rend s p" "rend s p < rend s q"
      using sub unfolding cover_def by auto
    obtain i j where ij: "i < length xs" "xs ! i = p" "j < length xs" "xs ! j = q"
      using p(1) q(1) by (metis in_set_conv_nth)
    have far: "rend s (xs ! m) < rbegin s (xs ! n)" if "m < n" "n < length xs" for m n
      using ap that unfolding apart_def sorted_wrt_iff_nth_less by auto
    consider "i < j" | "j < i" | "i = j" by linarith
    then have "rend s p < rbegin s q \<or> rend s q < rbegin s p \<or> p = q"
    proof cases
      case 1 then show ?thesis using far[of i j] ij by simp
    next
      case 2 then show ?thesis using far[of j i] ij by simp
    next
      case 3 then show ?thesis using ij by simp
    qed
    moreover have "\<not> rend s p < rbegin s q" using q(2) by (simp add: not_less)
    moreover have "\<not> rend s q < rbegin s p"
      using q(3) p(2,3) by (meson less_imp_le less_le_trans not_less order_less_trans)
    moreover have "p \<noteq> q" using q(3) by auto
    ultimately show False by blast
  qed
  then show ?thesis using p by blast
qed

text \<open>The search as a whole: a block, cut out of the free ranges, whenever they hold an aligned one that fits.\<close>

theorem raw_balloc_alloc_ok:
  assumes R: "ranges_ok bc Q N s" and Q: "Q (free_ranges bc) = Some xs" and N: "2 \<le> length N"
    and sz: "0 < sz" and k: "k < 64" and w: "no_wrap s xs k sz"
  shows "(\<exists>a s'. raw_balloc_alloc bc sz (2 ^ k) lo hi s = Some (Inr (a, s')) \<and> taken bc Q xs N a sz s s' \<and>
      lo \<le> a \<and> unat a + unat sz \<le> unat hi \<and> 2 ^ k dvd unat a \<and> {a..<a + sz} \<subseteq> cover s xs \<and>
      (\<forall>c. 2 ^ k dvd unat c \<longrightarrow> lo \<le> c \<longrightarrow> unat c + unat sz \<le> unat hi \<longrightarrow> {c..<c + sz} \<subseteq> cover s xs \<longrightarrow> a \<le> c)) \<or>
    raw_balloc_alloc bc sz (2 ^ k) lo hi s = Some (Inr (hi, s)) \<and>
      (\<forall>a. 2 ^ k dvd unat a \<longrightarrow> lo \<le> a \<longrightarrow> unat a + unat sz \<le> unat hi \<longrightarrow> \<not> {a..<a + sz} \<subseteq> cover s xs)"
proof -
  have P: "pool_ok bc Q N s" and ap: "apart s xs" using R Q by (auto simp: ranges_ok_def)
  obtain A B where AB: "xs = A @ B" "dropWhile (\<lambda>n. rend s n \<le> lo) xs = B" "\<forall>m\<in>set A. rend s m \<le> lo" "\<forall>m\<in>set B. lo < rend s m"
    using dropWhile_seq [OF ap] by metis
  have run: "raw_balloc_alloc bc sz (2 ^ k) lo hi s = alloc_loop bc (first_of B) sz (2 ^ k) lo hi s"
    using range_after_seq [OF pool_seq [OF P Q] ap, of lo] AB(2) by (simp add: raw_balloc_alloc_def)
  have found: "\<exists>p\<in>set B. rbegin s p < hi \<and> block_fits s p sz (2 ^ k) lo hi \<and> block_at s p (2 ^ k) lo \<le> a"
    if a: "2 ^ k dvd unat a" "lo \<le> a" "unat a + unat sz \<le> unat hi" and sub: "{a..<a + sz} \<subseteq> cover s xs" for a
  proof -
    have "unat a + unat sz < 2 ^ 64" using a(3) unat64_less [of hi] by linarith
    then have ua: "unat (a + sz) = unat a + unat sz" by (simp add: unat_word_ariths(1))
    have "a < a + sz" using sz by (simp add: word_less_nat_alt ua)
    then obtain p where p: "p \<in> set xs" "rbegin s p \<le> a" "a + sz \<le> rend s p"
      using block_in_range [OF ap _ sub] by blast
    have lo: "lo < rend s p" using a(2) p(3) \<open>a < a + sz\<close> by (meson le_less_trans less_le_trans)
    then have pB: "p \<in> set B" using p(1) AB(1,3) by (auto simp: not_less [symmetric])
    have be: "rbegin s p < rend s p" using p(1) ap by (simp add: apart_def)
    have wp: "unat (rend s p) + 2 ^ k + unat sz < 2 ^ 64" using w p(1) by (simp add: no_wrap_def)
    note b = block_facts [OF wp k be lo]
    have ba: "block_at s p (2 ^ k) lo \<le> a" using b(5) a(1,2) p(2) by blast
    have "unat (block_at s p (2 ^ k) lo + sz) \<le> unat a + unat sz" using ba b(4) by (simp add: word_le_nat_alt)
    then have "block_at s p (2 ^ k) lo + sz \<le> rend s p" "block_at s p (2 ^ k) lo + sz \<le> hi"
      using p(3) a(3) ua by (simp_all add: word_le_nat_alt)
    then have "block_fits s p sz (2 ^ k) lo hi" by (simp add: block_fits_def)
    moreover have "rbegin s p < hi"
      using p(2) \<open>a < a + sz\<close> a(3) ua by (simp add: word_le_nat_alt word_less_nat_alt)
    ultimately show ?thesis using ba pB by blast
  qed
  have none: "\<not> {a..<a + sz} \<subseteq> cover s xs"
    if "\<forall>p\<in>set B. rbegin s p < hi \<longrightarrow> \<not> block_fits s p sz (2 ^ k) lo hi"
      and "2 ^ k dvd unat a" "lo \<le> a" "unat a + unat sz \<le> unat hi" for a
    using found that by blast
  have least: "a \<le> c" if prem: "least_block s B a sz k lo hi" "2 ^ k dvd unat c" "lo \<le> c" "unat c + unat sz \<le> unat hi"
      "{c..<c + sz} \<subseteq> cover s xs" for a c
  proof -
    obtain p where "p \<in> set B" "rbegin s p < hi" "block_fits s p sz (2 ^ k) lo hi" "block_at s p (2 ^ k) lo \<le> c"
      using found [OF prem(2-5)] by blast
    then show ?thesis using prem(1) order_trans unfolding least_block_def by blast
  qed
  have Q': "Q (free_ranges bc) = Some (A @ B)" "no_wrap s (A @ B) k sz" using Q w by (simp_all add: AB(1))
  from alloc_loop_ok [OF R Q'(1) N sz k Q'(2) AB(4), of hi] show ?thesis
  proof (elim disjE exE conjE)
    fix a s'
    assume "alloc_loop bc (first_of B) sz (2 ^ k) lo hi s = Some (Inr (a, s'))" "taken bc Q (A @ B) N a sz s s'"
      "lo \<le> a" "unat a + unat sz \<le> unat hi" "2 ^ k dvd unat a" "{a..<a + sz} \<subseteq> cover s (A @ B)" "least_block s B a sz k lo hi"
    then show ?thesis unfolding run AB(1) [symmetric] using least by blast
  next
    assume "alloc_loop bc (first_of B) sz (2 ^ k) lo hi s = Some (Inr (hi, s))"
      "\<forall>p\<in>set B. rbegin s p < hi \<longrightarrow> \<not> block_fits s p sz (2 ^ k) lo hi"
    then show ?thesis using none unfolding run by (intro disjI2) blast
  qed
qed

end
