(* ===== verification/BallocRel.thy ===== *)
theory BallocRel
  imports BallocAlloc
begin

text \<open>
  What the bootstrap allocator promises its users: a set \<open>F\<close> of free addresses and a set \<open>K\<close> of known
  ones, and \<open>n\<close> unused nodes. Each operation is refined by an operation on these sets; the trees, the
  order of the ranges in them and the list of unused nodes are gone.
\<close>

section \<open>The abstraction\<close>

definition balloc_rel :: "bstatics \<Rightarrow> u64 set \<Rightarrow> u64 set \<Rightarrow> nat \<Rightarrow> balloc \<Rightarrow> bool" where
  "balloc_rel bc F K n s \<longleftrightarrow> free_ranges bc \<noteq> memory_map bc \<and>
     (\<exists>xs ys N. ranges_ok bc [free_ranges bc \<mapsto> xs, memory_map bc \<mapsto> ys] N s \<and>
        cover s xs = F \<and> cover s ys = K \<and> length N = n)"

lemma balloc_relI:
  "free_ranges bc \<noteq> memory_map bc \<Longrightarrow> ranges_ok bc [free_ranges bc \<mapsto> xs, memory_map bc \<mapsto> ys] N s \<Longrightarrow>
   cover s xs = F \<Longrightarrow> cover s ys = K \<Longrightarrow> balloc_rel bc F K (length N) s"
  unfolding balloc_rel_def by blast

lemma apart_cover_end:
  assumes "apart s xs" "m \<in> set xs"
  shows "rend s m - 1 \<in> cover s xs" "unat (rend s m) = unat (rend s m - 1) + 1"
proof -
  have lt: "rbegin s m < rend s m" using assms by (simp add: apart_def)
  then have nz: "rend s m \<noteq> 0" by auto
  then have "unat (rend s m) \<noteq> 0" by (simp add: unat_eq_zero)
  then show u: "unat (rend s m) = unat (rend s m - 1) + 1" using unat_minus_one [OF nz] by linarith
  have "rbegin s m \<le> rend s m - 1" "rend s m - 1 < rend s m"
    using lt u by (simp_all add: word_le_nat_alt word_less_nat_alt)
  then show "rend s m - 1 \<in> cover s xs" using assms(2) by (auto simp: cover_def)
qed

lemma no_wrap_below:
  assumes "apart s xs" "\<forall>x\<in>cover s xs. unat x < l" "l + 2 ^ k + unat sz < 2 ^ 64"
  shows "no_wrap s xs k sz"
  unfolding no_wrap_def using apart_cover_end [OF assms(1)] assms(2,3) by fastforce

lemma begin_in_cover: "apart s xs \<Longrightarrow> m \<in> set xs \<Longrightarrow> rbegin s m \<in> cover s xs"
  unfolding cover_def apart_def by force

text \<open>Adding a range is exact when none of it, or all of it, is there already.\<close>

lemma add_exact_disjoint:
  assumes "apart s xs" "cover s xs \<inter> {lo..<hi} = {}"
  shows "add_exact s xs lo hi"
  unfolding add_exact_def
proof (intro ballI impI)
  fix m
  assume m: "m \<in> set xs" "lo \<le> rbegin s m" "rbegin s m \<le> hi"
  have "rbegin s m \<notin> {lo..<hi}" using begin_in_cover [OF assms(1) m(1)] assms(2) by blast
  then have "rbegin s m = hi" using m(2,3) by (simp add: not_less)
  then show "hi \<le> rend s m" using assms(1) m(1) by (auto simp: apart_def intro: less_imp_le)
qed

lemma apart_order:
  assumes "apart s xs" "p \<in> set xs" "q \<in> set xs"
  shows "p = q \<or> rend s p < rbegin s q \<or> rend s q < rbegin s p"
proof -
  obtain i j where ij: "i < length xs" "xs ! i = p" "j < length xs" "xs ! j = q"
    using assms(2,3) by (metis in_set_conv_nth)
  have far: "rend s (xs ! m) < rbegin s (xs ! n)" if "m < n" "n < length xs" for m n
    using assms(1) that unfolding apart_def sorted_wrt_iff_nth_less by auto
  consider "i < j" | "j < i" | "i = j" by linarith
  then show ?thesis using far [of i j] far [of j i] ij by cases auto
qed

lemma add_exact_inside:
  assumes "apart s xs" "lo < hi" "{lo..<hi} \<subseteq> cover s xs"
  shows "add_exact s xs lo hi"
proof -
  obtain p where p: "p \<in> set xs" "rbegin s p \<le> lo" "hi \<le> rend s p"
  proof -
    have "lo + (hi - lo) = hi" by simp
    then show thesis using block_in_range [OF assms(1), of lo "hi - lo"] assms(2,3) that by auto
  qed
  show ?thesis
    unfolding add_exact_def
  proof (intro ballI impI)
    fix m
    assume m: "m \<in> set xs" "lo \<le> rbegin s m" "rbegin s m \<le> hi"
    have be: "rbegin s m < rend s m" using assms(1) m(1) by (simp add: apart_def)
    have "rbegin s m \<le> rend s p" using m(3) p(3) by (rule order_trans)
    then have "\<not> rend s p < rbegin s m" by (simp add: not_less)
    moreover have "\<not> rend s m < rbegin s p" using be m(2) p(2) by (meson le_less_trans less_asym less_le_trans)
    ultimately have "p = m" using apart_order [OF assms(1) p(1) m(1)] by blast
    then show "hi \<le> rend s m" using p(3) by simp
  qed
qed

definition addable :: "u64 set \<Rightarrow> u64 \<Rightarrow> u64 \<Rightarrow> bool" where
  "addable F lo hi \<longleftrightarrow> F \<inter> {lo..<hi} = {} \<or> {lo..<hi} \<subseteq> F"

lemma addable_exact: "apart s xs \<Longrightarrow> lo < hi \<Longrightarrow> addable (cover s xs) lo hi \<Longrightarrow> add_exact s xs lo hi"
  unfolding addable_def using add_exact_disjoint add_exact_inside by blast

section \<open>The operations on sets\<close>

lemma other_cover:
  assumes "ranges_ok bc Q N s" "Q t2 = Some ys" "Q tree = Some xs" "t2 \<noteq> tree"
    and "\<forall>n. n \<notin> set xs \<union> set N \<longrightarrow> rbegin s' n = rbegin s n \<and> rend s' n = rend s n"
  shows "cover s' ys = cover s ys"
proof (rule cover_cong)
  fix n
  assume n: "n \<in> set ys"
  have P: "pool_ok bc Q N s" using assms(1) by (simp add: ranges_ok_def)
  have "n \<notin> set N" using pool_treeD(2) [OF P assms(2)] n by blast
  moreover have "set xs \<inter> set ys = {}" using P assms(2-4) unfolding pool_ok_def by blast
  ultimately show "rbegin s' n = rbegin s n \<and> rend s' n = rend s n" using assms(5) n by blast
qed

lemma add_free_rel:
  assumes "balloc_rel bc F K n s" "1 \<le> n" "lo < hi" "addable F lo hi"
  shows "\<exists>s' n'. balloc_add_range bc (free_ranges bc) lo hi s = Some (Inr s') \<and>
    balloc_rel bc (F \<union> {lo..<hi}) K n' s' \<and> n \<le> n' + 1 \<and> prints s' = prints s"
proof -
  obtain xs ys N where ne: "free_ranges bc \<noteq> memory_map bc"
      and R: "ranges_ok bc [free_ranges bc \<mapsto> xs, memory_map bc \<mapsto> ys] N s"
      and c: "cover s xs = F" "cover s ys = K" "length N = n"
    using assms(1) by (auto simp: balloc_rel_def)
  let ?Q = "[free_ranges bc \<mapsto> xs, memory_map bc \<mapsto> ys]"
  have Q: "?Q (free_ranges bc) = Some xs" "?Q (memory_map bc) = Some ys" using ne by auto
  obtain new N0 where N: "N = new # N0" using assms(2) c(3) by (cases N) auto
  have "apart s xs" using R Q(1) unfolding ranges_ok_def by blast
  then have ex: "add_exact s xs lo hi" using addable_exact assms(3,4) c(1) by blast
  obtain s' xs' N' where r: "balloc_add_range bc (free_ranges bc) lo hi s = Some (Inr s')"
      "ranges_ok bc (?Q(free_ranges bc \<mapsto> xs')) N' s'" "cover s' xs' = cover s xs \<union> {lo..<hi}" "length N0 \<le> length N'"
      "\<forall>m. m \<noteq> new \<longrightarrow> rbegin s' m = rbegin s m \<and> rend s' m = rend s m" "prints s' = prints s"
    using add_range_ok [OF R [unfolded N] Q(1) assms(3) ex] by blast
  have "cover s' ys = cover s ys"
    using r(5) N ne by (intro other_cover [OF R Q(2) Q(1)]) auto
  moreover have "?Q(free_ranges bc \<mapsto> xs') = [free_ranges bc \<mapsto> xs', memory_map bc \<mapsto> ys]"
    using ne by (auto simp: fun_eq_iff)
  ultimately have "balloc_rel bc (F \<union> {lo..<hi}) K (length N') s'"
    using r(2,3) c by (intro balloc_relI [OF ne]) auto
  moreover have "n \<le> length N' + 1" using r(4) N c(3) by auto
  ultimately show ?thesis using r(1,6) by blast
qed

lemma add_known_rel:
  assumes "balloc_rel bc F K n s" "1 \<le> n" "lo < hi" "addable K lo hi"
  shows "\<exists>s' n'. balloc_add_range bc (memory_map bc) lo hi s = Some (Inr s') \<and>
    balloc_rel bc F (K \<union> {lo..<hi}) n' s' \<and> n \<le> n' + 1 \<and> prints s' = prints s"
proof -
  obtain xs ys N where ne: "free_ranges bc \<noteq> memory_map bc"
      and R: "ranges_ok bc [free_ranges bc \<mapsto> xs, memory_map bc \<mapsto> ys] N s"
      and c: "cover s xs = F" "cover s ys = K" "length N = n"
    using assms(1) by (auto simp: balloc_rel_def)
  let ?Q = "[free_ranges bc \<mapsto> xs, memory_map bc \<mapsto> ys]"
  have Q: "?Q (free_ranges bc) = Some xs" "?Q (memory_map bc) = Some ys" using ne by auto
  obtain new N0 where N: "N = new # N0" using assms(2) c(3) by (cases N) auto
  have "apart s ys" using R Q(2) unfolding ranges_ok_def by blast
  then have ex: "add_exact s ys lo hi" using addable_exact assms(3,4) c(2) by blast
  obtain s' ys' N' where r: "balloc_add_range bc (memory_map bc) lo hi s = Some (Inr s')"
      "ranges_ok bc (?Q(memory_map bc \<mapsto> ys')) N' s'" "cover s' ys' = cover s ys \<union> {lo..<hi}" "length N0 \<le> length N'"
      "\<forall>m. m \<noteq> new \<longrightarrow> rbegin s' m = rbegin s m \<and> rend s' m = rend s m" "prints s' = prints s"
    using add_range_ok [OF R [unfolded N] Q(2) assms(3) ex] by blast
  have "cover s' xs = cover s xs"
    using r(5) N ne by (intro other_cover [OF R Q(1) Q(2)]) auto
  moreover have "?Q(memory_map bc \<mapsto> ys') = [free_ranges bc \<mapsto> xs, memory_map bc \<mapsto> ys']"
    by (auto simp: fun_eq_iff)
  ultimately have "balloc_rel bc F (K \<union> {lo..<hi}) (length N') s'"
    using r(2,3) c by (intro balloc_relI [OF ne]) auto
  moreover have "n \<le> length N' + 1" using r(4) N c(3) by auto
  ultimately show ?thesis using r(1,6) by blast
qed

lemma remove_free_rel:
  assumes "balloc_rel bc F K n s" "2 \<le> n" "lo < hi"
  shows "\<exists>s' n'. balloc_remove_range bc (free_ranges bc) lo hi s = Some (Inr s') \<and>
    balloc_rel bc (F - {lo..<hi}) K n' s' \<and> n \<le> n' + 1 \<and> prints s' = prints s"
proof -
  obtain xs ys N where ne: "free_ranges bc \<noteq> memory_map bc"
      and R: "ranges_ok bc [free_ranges bc \<mapsto> xs, memory_map bc \<mapsto> ys] N s"
      and c: "cover s xs = F" "cover s ys = K" "length N = n"
    using assms(1) by (auto simp: balloc_rel_def)
  let ?Q = "[free_ranges bc \<mapsto> xs, memory_map bc \<mapsto> ys]"
  have Q: "?Q (free_ranges bc) = Some xs" "?Q (memory_map bc) = Some ys" using ne by auto
  obtain s' xs' N' where r: "balloc_remove_range bc (free_ranges bc) lo hi s = Some (Inr s')"
      "ranges_ok bc (?Q(free_ranges bc \<mapsto> xs')) N' s'" "cover s' xs' = cover s xs - {lo..<hi}" "length N \<le> length N' + 1"
      "\<forall>m. m \<notin> set xs \<union> set N \<longrightarrow> rbegin s' m = rbegin s m \<and> rend s' m = rend s m" "prints s' = prints s"
    using remove_range_ok [OF R Q(1) assms(3)] assms(2) c(3) by blast
  have "cover s' ys = cover s ys"
    using ne by (intro other_cover [OF R Q(2) Q(1) _ r(5)]) auto
  moreover have "?Q(free_ranges bc \<mapsto> xs') = [free_ranges bc \<mapsto> xs', memory_map bc \<mapsto> ys]"
    using ne by (auto simp: fun_eq_iff)
  ultimately have "balloc_rel bc (F - {lo..<hi}) K (length N') s'"
    using r(2,3) c by (intro balloc_relI [OF ne]) auto
  then show ?thesis using r(1,4,6) c(3) by blast
qed

lemma alloc_rel:
  assumes "balloc_rel bc F K n s" "2 \<le> n" "0 < sz" "k < 64" "\<forall>x\<in>F. unat x < l" "l + 2 ^ k + unat sz < 2 ^ 64"
  shows "(\<exists>a s' n'. raw_balloc_alloc bc sz (2 ^ k) lo hi s = Some (Inr (a, s')) \<and>
      balloc_rel bc (F - {a..<a + sz}) K n' s' \<and> n \<le> n' + 1 \<and> {a..<a + sz} \<subseteq> F \<and>
      lo \<le> a \<and> unat a + unat sz \<le> unat hi \<and> 2 ^ k dvd unat a \<and>
      (\<forall>c. 2 ^ k dvd unat c \<longrightarrow> lo \<le> c \<longrightarrow> unat c + unat sz \<le> unat hi \<longrightarrow> {c..<c + sz} \<subseteq> F \<longrightarrow> a \<le> c)) \<or>
    raw_balloc_alloc bc sz (2 ^ k) lo hi s = Some (Inr (hi, s)) \<and>
      (\<forall>a. 2 ^ k dvd unat a \<longrightarrow> lo \<le> a \<longrightarrow> unat a + unat sz \<le> unat hi \<longrightarrow> \<not> {a..<a + sz} \<subseteq> F)"
proof -
  obtain xs ys N where ne: "free_ranges bc \<noteq> memory_map bc"
      and R: "ranges_ok bc [free_ranges bc \<mapsto> xs, memory_map bc \<mapsto> ys] N s"
      and c: "cover s xs = F" "cover s ys = K" "length N = n"
    using assms(1) by (auto simp: balloc_rel_def)
  let ?Q = "[free_ranges bc \<mapsto> xs, memory_map bc \<mapsto> ys]"
  have Q: "?Q (free_ranges bc) = Some xs" "?Q (memory_map bc) = Some ys" using ne by auto
  have "apart s xs" using R Q(1) unfolding ranges_ok_def by blast
  then have w: "no_wrap s xs k sz" using no_wrap_below assms(5,6) c(1) by blast
  have N: "2 \<le> length N" using assms(2) c(3) by simp
  have "\<exists>n'. balloc_rel bc (F - {a..<a + sz}) K n' s' \<and> n \<le> n' + 1" if t: "taken bc ?Q xs N a sz s s'" for a s'
  proof -
    obtain xs' N' where r: "ranges_ok bc (?Q(free_ranges bc \<mapsto> xs')) N' s'" "cover s' xs' = cover s xs - {a..<a + sz}"
        "length N \<le> length N' + 1" "\<forall>m. m \<notin> set xs \<union> set N \<longrightarrow> rbegin s' m = rbegin s m \<and> rend s' m = rend s m"
      using t unfolding taken_def by blast
    have "cover s' ys = cover s ys"
      using ne by (intro other_cover [OF R Q(2) Q(1) _ r(4)]) auto
    moreover have "?Q(free_ranges bc \<mapsto> xs') = [free_ranges bc \<mapsto> xs', memory_map bc \<mapsto> ys]"
      using ne by (auto simp: fun_eq_iff)
    ultimately have "balloc_rel bc (F - {a..<a + sz}) K (length N') s'"
      using r(1,2) c by (intro balloc_relI [OF ne]) auto
    then show ?thesis using r(3) c(3) by blast
  qed
  then show ?thesis
    using raw_balloc_alloc_ok [OF R Q(1) N assms(3,4) w, of lo hi] c(1) by blast
qed

end
