(* ===== verification/BallocBoot.thy ===== *)
theory BallocBoot
  imports BallocRel
begin

text \<open>
  The bootstrap allocator from power-on: the pool of 128 nodes, the two passes over the memory map of
  the boot loader, the printed tables.
\<close>

section \<open>The pool\<close>

text \<open>
  What the linker provides: nodes at even addresses that do not wrap, the list head outside them, two
  different trees.
\<close>

definition boot_layout_ok :: "bstatics \<Rightarrow> bool" where
  "boot_layout_ok bc \<longleftrightarrow> nodes_base bc AND 1 = 0 \<and> nodes_base bc \<noteq> 0 \<and> unat (nodes_base bc) + 5120 < 2 ^ 64 \<and>
     free_list bc \<noteq> 0 \<and> (free_list bc < nodes_base bc \<or> nodes_base bc + 5120 \<le> free_list bc) \<and>
     free_ranges bc \<noteq> memory_map bc"

lemma node_facts:
  assumes L: "boot_layout_ok bc" and i: "i < 128"
  shows "unat (balloc_node bc i) = unat (nodes_base bc) + 40 * i" "good_addr (balloc_node bc i)"
    "balloc_node bc i \<noteq> free_list bc"
proof -
  have b: "unat (nodes_base bc) + 5120 < 2 ^ 64" using L by (simp add: boot_layout_ok_def)
  have u40: "unat (40 * of_nat i :: u64) = 40 * i"
  proof -
    have "(40 * of_nat i :: u64) = of_nat (40 * i)" by simp
    moreover have "40 * i < 2 ^ 64" using i by simp
    ultimately show ?thesis using unat_of_nat64 by metis
  qed
  show u: "unat (balloc_node bc i) = unat (nodes_base bc) + 40 * i"
    unfolding balloc_node_def using b i by (subst unat_add_no_wrap) (simp_all add: u40)
  have "nodes_base bc \<noteq> 0" using L by (simp add: boot_layout_ok_def)
  then have "unat (nodes_base bc) \<noteq> 0" by (simp add: unat_eq_zero)
  then have nz: "balloc_node bc i \<noteq> 0" using u by (metis add_is_0 unat_0)
  have "even (nodes_base bc)" using L by (simp add: boot_layout_ok_def and_one_eq odd_iff_mod_2_eq_one even_iff_mod_2_eq_zero)
  then have "even (balloc_node bc i)" unfolding balloc_node_def by simp
  then show "good_addr (balloc_node bc i)" using nz by (simp add: good_addr_def and_one_eq even_iff_mod_2_eq_zero)
  show "balloc_node bc i \<noteq> free_list bc"
  proof
    assume eq: "balloc_node bc i = free_list bc"
    have "unat (nodes_base bc + 5120) = unat (nodes_base bc) + 5120" using b by (subst unat_add_no_wrap) simp_all
    then have "\<not> nodes_base bc + 5120 \<le> free_list bc" "\<not> free_list bc < nodes_base bc"
      using u i by (simp_all add: eq word_less_nat_alt word_le_nat_alt)
    then show False using L by (simp add: boot_layout_ok_def)
  qed
qed

lemma balloc_node_inj: "boot_layout_ok bc \<Longrightarrow> i < 128 \<Longrightarrow> j < 128 \<Longrightarrow> balloc_node bc i = balloc_node bc j \<Longrightarrow> i = j"
proof -
  assume a: "boot_layout_ok bc" "i < 128" "j < 128" "balloc_node bc i = balloc_node bc j"
  have "unat (nodes_base bc) + 40 * i = unat (nodes_base bc) + 40 * j"
    using node_facts(1) [OF a(1,2)] node_facts(1) [OF a(1,3)] unfolding a(4) by (rule subst)
  then show "i = j" by simp
qed

lemma setup_nodes_pool:
  assumes L: "boot_layout_ok bc" and P: "pool_ok bc Q [] s" and Q: "\<forall>t xs. Q t = Some xs \<longrightarrow> xs = []" and n: "n \<le> 128"
  shows "pool_ok bc Q (rev (map (balloc_node bc) [0..<n])) (fold (\<lambda>i s. balloc_free_node bc (balloc_node bc i) s) [0..<n] s) \<and>
    prints (fold (\<lambda>i s. balloc_free_node bc (balloc_node bc i) s) [0..<n] s) = prints s"
  using n
proof (induction n)
  case (Suc n)
  let ?s = "fold (\<lambda>i s. balloc_free_node bc (balloc_node bc i) s) [0..<n] s"
  have P': "pool_ok bc Q (rev (map (balloc_node bc) [0..<n])) ?s" "prints ?s = prints s" using Suc by simp_all
  have "balloc_node bc n \<notin> set (rev (map (balloc_node bc) [0..<n]))"
  proof
    assume "balloc_node bc n \<in> set (rev (map (balloc_node bc) [0..<n]))"
    then obtain i where "i < n" "balloc_node bc n = balloc_node bc i" by auto
    then show False using balloc_node_inj [OF L, of n i] Suc.prems by auto
  qed
  moreover have "balloc_node bc n \<notin> set xs" if "Q t = Some xs" for t xs using Q that by force
  ultimately have "loose bc Q (rev (map (balloc_node bc) [0..<n])) (balloc_node bc n)"
    using node_facts [OF L, of n] Suc.prems by (auto simp: loose_def)
  from pool_free [OF P'(1) this] show ?case using P'(2) by simp
qed (simp add: P)

lemma setup_nodes_rel:
  assumes L: "boot_layout_ok bc" and r: "rh_root (links s) (free_ranges bc) = NULL" "rh_root (links s) (memory_map bc) = NULL"
  shows "balloc_rel bc {} {} 128 (balloc_setup_nodes bc s)" "prints (balloc_setup_nodes bc s) = prints s"
proof -
  let ?Q = "[free_ranges bc \<mapsto> [], memory_map bc \<mapsto> []]"
  let ?s = "s\<lparr>links := on_ll (list_init (free_list bc)) (links s)\<rparr>"
  have ne: "free_ranges bc \<noteq> memory_map bc" "free_list bc \<noteq> 0" using L by (auto simp: boot_layout_ok_def)
  have "pool_ok bc ?Q [] ?s"
    unfolding pool_ok_def using r ne circ_list_init [of "free_list bc" "ll_view (links s)"]
    by (auto simp: rb_seq_empty split: if_splits)
  from setup_nodes_pool [OF L this, of 128]
  have P: "pool_ok bc ?Q (rev (map (balloc_node bc) [0..<128])) (balloc_setup_nodes bc s)"
    and pr: "prints (balloc_setup_nodes bc s) = prints s"
    by (auto simp: balloc_setup_nodes_def split: if_splits)
  show "prints (balloc_setup_nodes bc s) = prints s" by (rule pr)
  have "ranges_ok bc ?Q (rev (map (balloc_node bc) [0..<128])) (balloc_setup_nodes bc s)"
    using P by (auto simp: ranges_ok_def split: if_splits)
  from balloc_relI [OF ne(1) this] show "balloc_rel bc {} {} 128 (balloc_setup_nodes bc s)" by simp
qed

section \<open>The memory map of the boot loader\<close>

text \<open>\<open>mmap_is m fin ptr es\<close>: walking from \<open>ptr\<close> as the code does, the entries are \<open>es\<close>.\<close>

primrec mmap_is :: "mem \<Rightarrow> u64 \<Rightarrow> u64 \<Rightarrow> mboot_mmap_entry list \<Rightarrow> bool" where
  "mmap_is m fin ptr [] \<longleftrightarrow> \<not> ptr + 24 \<le> fin"
| "mmap_is m fin ptr (e # es) \<longleftrightarrow> ptr + 24 \<le> fin \<and> e = mmap_entry_at ptr m \<and>
     mmap_is m fin (ptr + (ucast (me_size e) + 4)) es"

definition entry_range :: "mboot_mmap_entry \<Rightarrow> u64 set" where
  "entry_range e = {me_addr e..<me_addr e + me_length e}"

definition all_of :: "mboot_mmap_entry list \<Rightarrow> u64 set" where
  "all_of es = (\<Union>e\<in>set es. entry_range e)"

definition usable :: "mboot_mmap_entry list \<Rightarrow> u64 set" where
  "usable es = (\<Union>e\<in>{e \<in> set es. me_type e = 1}. entry_range e)"

definition reserved :: "mboot_mmap_entry list \<Rightarrow> u64 set" where
  "reserved es = (\<Union>e\<in>{e \<in> set es. me_type e \<noteq> 1}. entry_range e)"

text \<open>A sane memory map: no empty entry, none that wraps, none that overlaps another.\<close>

definition entries_ok :: "mboot_mmap_entry list \<Rightarrow> bool" where
  "entries_ok es \<longleftrightarrow> (\<forall>e\<in>set es. me_addr e < me_addr e + me_length e) \<and>
     sorted_wrt (\<lambda>d e. entry_range d \<inter> entry_range e = {}) es"

lemma all_of_simps [simp]: "all_of [] = {}" "all_of (e # es) = entry_range e \<union> all_of es"
  by (auto simp: all_of_def)

lemma reserved_simps [simp]:
  "reserved [] = {}" "reserved (e # es) = (if me_type e \<noteq> 1 then entry_range e else {}) \<union> reserved es"
  by (auto simp: reserved_def)

lemma usable_simps [simp]:
  "usable [] = {}" "usable (e # es) = (if me_type e = 1 then entry_range e else {}) \<union> usable es"
  by (auto simp: usable_def)

lemma entries_ok_simps [simp]:
  "entries_ok []"
  "entries_ok (e # es) \<longleftrightarrow> me_addr e < me_addr e + me_length e \<and> entry_range e \<inter> all_of es = {} \<and> entries_ok es"
  by (auto simp: entries_ok_def all_of_def)

lemma usable_all: "entries_ok es \<Longrightarrow> all_of es - reserved es = usable es"
proof (induction es)
  case (Cons e es)
  have "reserved es \<subseteq> all_of es" "usable es \<subseteq> all_of es" by (auto simp: reserved_def usable_def all_of_def)
  then show ?case using Cons by auto
qed simp

lemma mmap_add_ok:
  assumes "balloc_rel bc F K n s" "mmap_is m fin ptr es" "entries_ok es" "2 * length es \<le> n"
    and "F \<inter> all_of es = {}" "K \<inter> all_of es = {}"
  shows "\<exists>s' n'. mmap_add bc m ptr fin s = Some (Inr s') \<and> balloc_rel bc (F \<union> all_of es) (K \<union> all_of es) n' s' \<and>
    n \<le> n' + 2 * length es \<and> prints s' = prints s"
  using assms
proof (induction es arbitrary: F K n s ptr)
  case Nil
  then show ?case by (subst mmap_add.simps) auto
next
  case (Cons e es)
  let ?lo = "me_addr e" and ?hi = "me_addr e + me_length e"
  have lt: "?lo < ?hi" and R: "entry_range e = {?lo..<?hi}" using Cons.prems(3) by (auto simp: entry_range_def)
  have "addable K ?lo ?hi" "addable F ?lo ?hi" using Cons.prems(5,6) R by (auto simp: addable_def)
  obtain s1 n1 where s1: "balloc_add_range bc (memory_map bc) ?lo ?hi s = Some (Inr s1)"
      "balloc_rel bc F (K \<union> {?lo..<?hi}) n1 s1" "n \<le> n1 + 1" "prints s1 = prints s"
    using add_known_rel [OF Cons.prems(1) _ lt \<open>addable K ?lo ?hi\<close>] Cons.prems(4) by auto
  have "1 \<le> n1" using s1(3) Cons.prems(4) by simp
  then obtain s2 n2 where s2: "balloc_add_range bc (free_ranges bc) ?lo ?hi s1 = Some (Inr s2)"
      "balloc_rel bc (F \<union> {?lo..<?hi}) (K \<union> {?lo..<?hi}) n2 s2" "n1 \<le> n2 + 1" "prints s2 = prints s1"
    using add_free_rel [OF s1(2) _ lt \<open>addable F ?lo ?hi\<close>] by auto
  have e: "ptr + 24 \<le> fin" "e = mmap_entry_at ptr m" "mmap_is m fin (ptr + (ucast (me_size e) + 4)) es"
    using Cons.prems(2) by auto
  have d: "entries_ok es" "2 * length es \<le> n2" "(F \<union> {?lo..<?hi}) \<inter> all_of es = {}" "(K \<union> {?lo..<?hi}) \<inter> all_of es = {}"
    using Cons.prems(3-6) s1(3) s2(3) R [symmetric] by auto
  obtain s3 n3 where s3: "mmap_add bc m (ptr + (ucast (me_size e) + 4)) fin s2 = Some (Inr s3)"
      "balloc_rel bc (F \<union> {?lo..<?hi} \<union> all_of es) (K \<union> {?lo..<?hi} \<union> all_of es) n3 s3"
      "n2 \<le> n3 + 2 * length es" "prints s3 = prints s2"
    using Cons.IH [OF s2(2) e(3) d] by blast
  have "mmap_add bc m ptr fin s = Some (Inr s3)"
    using e(1) s1(1) s2(1) s3(1) by (subst mmap_add.simps) (simp add: e(2) [symmetric] Let_def)
  moreover have "n \<le> n3 + 2 * length (e # es)" using s1(3) s2(3) s3(3) by simp
  ultimately show ?case using s3 s1(4) s2(4) R by (simp add: Un_assoc) blast
qed

lemma mmap_remove_ok:
  assumes "balloc_rel bc F K n s" "mmap_is m fin ptr es" "entries_ok es" "length es + 1 \<le> n"
  shows "\<exists>s' n'. mmap_remove bc m ptr fin s = Some (Inr s') \<and> balloc_rel bc (F - reserved es) K n' s' \<and>
    n \<le> n' + length es \<and> prints s' = prints s"
  using assms
proof (induction es arbitrary: F n s ptr)
  case Nil
  then show ?case by (subst mmap_remove.simps) auto
next
  case (Cons e es)
  let ?lo = "me_addr e" and ?hi = "me_addr e + me_length e"
  let ?R = "if me_type e \<noteq> 1 then {?lo..<?hi} else {}"
  let ?run = "if me_type e \<noteq> 1 then balloc_remove_range bc (free_ranges bc) ?lo ?hi s else Some (Inr s)"
  have lt: "?lo < ?hi" and R: "entry_range e = {?lo..<?hi}" using Cons.prems(3) by (auto simp: entry_range_def)
  have e: "ptr + 24 \<le> fin" "e = mmap_entry_at ptr m" "mmap_is m fin (ptr + (ucast (me_size e) + 4)) es"
    using Cons.prems(2) by auto
  obtain s1 n1 where s1: "?run = Some (Inr s1)" "balloc_rel bc (F - ?R) K n1 s1" "n \<le> n1 + 1" "prints s1 = prints s"
  proof (cases "me_type e \<noteq> 1")
    case True
    then show thesis using remove_free_rel [OF Cons.prems(1) _ lt] Cons.prems(4) that by auto
  next
    case False
    then show thesis using that [of s n] Cons.prems(1) by simp
  qed
  obtain s2 n2 where s2: "mmap_remove bc m (ptr + (ucast (me_size e) + 4)) fin s1 = Some (Inr s2)"
      "balloc_rel bc (F - ?R - reserved es) K n2 s2" "n1 \<le> n2 + length es" "prints s2 = prints s1"
  proof -
    have "entries_ok es" "length es + 1 \<le> n1" using Cons.prems(3,4) s1(3) by auto
    then show thesis using Cons.IH [OF s1(2) e(3)] that by blast
  qed
  have "mmap_remove bc m ptr fin s = Some (Inr s2)"
    using e(1) s1(1) s2(1) by (subst mmap_remove.simps) (simp add: e(2) [symmetric] Let_def)
  moreover have "F - ?R - reserved es = F - reserved (e # es)" using R by auto
  moreover have "n \<le> n2 + length (e # es)" using s1(3) s2(3) by simp
  ultimately show ?case using s2(2,4) s1(4) by metis
qed

text \<open>
  The whole of \<^verbatim>\<open>balloc_parse_mmap\<close>: three nodes for an entry and four more are enough, and two must be
  left for the last removal.
\<close>

lemma parse_mmap_ok:
  assumes R: "balloc_rel bc {} {} n s" and fl: "mbi_flags (mboot_info_at info m) AND push_bit 6 1 \<noteq> 0"
  defines "ptr \<equiv> ucast (mbi_mmap_addr (mboot_info_at info m))"
  assumes es: "mmap_is m (ptr + ucast (mbi_mmap_size (mboot_info_at info m))) ptr es" "entries_ok es"
    and n: "3 * length es + 6 \<le> n"
    and kern: "text_phys_begin bc < bss_phys_end bc" "{text_phys_begin bc..<bss_phys_end bc} \<subseteq> all_of es"
    and ramfs: "initramfs info m (prints s) = Inr ((x, y), log)" "x < y"
  shows "\<exists>s' n'. balloc_parse_mmap bc info m s = Some (Inr ((x, y), s')) \<and>
    balloc_rel bc (usable es - {x..<y} - {text_phys_begin bc..<bss_phys_end bc}) (all_of es) n' s' \<and>
    n \<le> n' + 3 * length es + 4 \<and> prints s' = log"
proof -
  let ?kb = "text_phys_begin bc" and ?ke = "bss_phys_end bc" and ?A = "all_of es"
  let ?fin = "ptr + ucast (mbi_mmap_size (mboot_info_at info m))"
  have kern': "addable ?A ?kb ?ke" "?A \<union> {?kb..<?ke} = ?A" using kern(2) by (auto simp: addable_def)
  obtain s1 n1 where s1: "mmap_add bc m ptr ?fin s = Some (Inr s1)" "balloc_rel bc ?A ?A n1 s1"
      "n \<le> n1 + 2 * length es" "prints s1 = prints s"
    using mmap_add_ok [OF R es] n by auto
  obtain s2 n2 where s2: "balloc_add_range bc (memory_map bc) ?kb ?ke s1 = Some (Inr s2)" "balloc_rel bc ?A ?A n2 s2"
      "n1 \<le> n2 + 1" "prints s2 = prints s1"
    using add_known_rel [OF s1(2) _ kern(1) kern'(1)] kern'(2) n s1(3) by auto
  obtain s3 n3 where s3: "balloc_add_range bc (free_ranges bc) ?kb ?ke s2 = Some (Inr s3)" "balloc_rel bc ?A ?A n3 s3"
      "n2 \<le> n3 + 1" "prints s3 = prints s2"
    using add_free_rel [OF s2(2) _ kern(1) kern'(1)] kern'(2) n s1(3) s2(3) by auto
  obtain s4 n4 where s4: "mmap_remove bc m ptr ?fin s3 = Some (Inr s4)" "balloc_rel bc (?A - reserved es) ?A n4 s4"
      "n3 \<le> n4 + length es" "prints s4 = prints s3"
    using mmap_remove_ok [OF s3(2) es] n s1(3) s2(3) s3(3) by auto
  have "balloc_rel bc (?A - reserved es) ?A n4 (s4\<lparr>prints := log\<rparr>)"
    using s4(2) by (simp add: balloc_rel_def ranges_ok_def apart_def cover_def)
  then obtain s5 n5 where s5: "balloc_remove_range bc (free_ranges bc) x y (s4\<lparr>prints := log\<rparr>) = Some (Inr s5)"
      "balloc_rel bc (?A - reserved es - {x..<y}) ?A n5 s5" "n4 \<le> n5 + 1" "prints s5 = log"
    using remove_free_rel [OF _ _ ramfs(2)] n s1(3) s2(3) s3(3) s4(3) by fastforce
  obtain s6 n6 where s6: "balloc_remove_range bc (free_ranges bc) ?kb ?ke s5 = Some (Inr s6)"
      "balloc_rel bc (?A - reserved es - {x..<y} - {?kb..<?ke}) ?A n6 s6" "n5 \<le> n6 + 1" "prints s6 = prints s5"
    using remove_free_rel [OF s5(2) _ kern(1)] n s1(3) s2(3) s3(3) s4(3) s5(3) by auto
  have pr: "initramfs info m (prints s4) = Inr ((x, y), log)" using ramfs(1) s1(4) s2(4) s3(4) s4(4) by simp
  have "balloc_parse_mmap bc info m s = Some (Inr ((x, y), s6))"
    unfolding balloc_parse_mmap_def using fl s1(1) s2(1) s3(1) s4(1) s5(1) s6(1) pr
    by (simp add: Let_def ptr_def)
  moreover have "n \<le> n6 + 3 * length es + 4" using s1(3) s2(3) s3(3) s4(3) s5(3) s6(3) by simp
  ultimately show ?thesis using s6(2,4) s5(4) usable_all [OF es(2)] by auto
qed

section \<open>The printed tables\<close>

definition range_line :: "balloc \<Rightarrow> addr \<Rightarrow> string \<times> u64 list" where
  "range_line s n = (''memory range: 0x%llx-0x%llx'' @ newline, [rbegin s n, rend s n])"

lemma dump_from_ok:
  "rb_seq (links s) tree (xs @ ys) \<Longrightarrow>
   dump_from (first_of ys) s = Some (s\<lparr>prints := prints s @ map (range_line s) ys\<rparr>)"
proof (induction ys arbitrary: xs s)
  case Nil
  then show ?case by (subst dump_from.simps) (simp add: first_of_def)
next
  case (Cons y ys)
  have y: "y \<noteq> NULL" using rb.seq_nodes [OF Cons.prems] by (auto simp: good_addr_def)
  have n: "rb_next y (links s) = Some (first_of ys)" by (rule rb.seq_succ [OF Cons.prems])
  let ?s = "s\<lparr>prints := prints s @ [range_line s y]\<rparr>"
  have "dump_from (first_of ys) ?s = Some (?s\<lparr>prints := prints ?s @ map (range_line ?s) ys\<rparr>)"
    using Cons.IH [of ?s "xs @ [y]"] Cons.prems by simp
  moreover have "range_line ?s = range_line s" by (simp add: range_line_def fun_eq_iff)
  ultimately show ?case
    using y n by (subst dump_from.simps) (simp add: first_of_def range_line_def RB2MEMORY_NODE_def Let_def)
qed

lemma dump_tree_ok:
  assumes "rb_seq (links s) tree xs"
  shows "raw_balloc_dump_ranges tree s = Some (s\<lparr>prints := prints s @ map (range_line s) xs\<rparr>)"
  using dump_from_ok [of s tree "[]" xs] rb.seq_first [OF assms] assms
  by (simp add: raw_balloc_dump_ranges_def RB2MEMORY_NODE_def)

lemma dump_ranges_ok:
  assumes "balloc_rel bc F K n s"
  shows "\<exists>ls. balloc_dump_ranges bc s = Some (s\<lparr>prints := ls\<rparr>) \<and> balloc_rel bc F K n (s\<lparr>prints := ls\<rparr>)"
proof -
  obtain xs ys N where ne: "free_ranges bc \<noteq> memory_map bc"
      and R: "ranges_ok bc [free_ranges bc \<mapsto> xs, memory_map bc \<mapsto> ys] N s"
    using assms by (auto simp: balloc_rel_def)
  have P: "pool_ok bc [free_ranges bc \<mapsto> xs, memory_map bc \<mapsto> ys] N s" using R by (simp add: ranges_ok_def)
  have q: "rb_seq (links s) (free_ranges bc) xs" "rb_seq (links s) (memory_map bc) ys"
    using pool_seq [OF P] ne by auto
  have dump: "\<exists>l2. raw_balloc_dump_ranges tree (s\<lparr>prints := l\<rparr>) = Some (s\<lparr>prints := l2\<rparr>)"
    if "rb_seq (links s) tree zs" for tree zs l
    using dump_tree_ok [of "s\<lparr>prints := l\<rparr>" tree zs] that by auto
  obtain l1 where l1: "raw_balloc_dump_ranges (memory_map bc) (s\<lparr>prints := prints s @ [(''known memory ranges:'' @ newline, [])]\<rparr>)
      = Some (s\<lparr>prints := l1\<rparr>)"
    using dump [OF q(2)] by blast
  obtain l2 where l2: "raw_balloc_dump_ranges (free_ranges bc) (s\<lparr>prints := l1 @ [(''free memory ranges:'' @ newline, [])]\<rparr>)
      = Some (s\<lparr>prints := l2\<rparr>)"
    using dump [OF q(1)] by blast
  have "balloc_dump_ranges bc s = Some (s\<lparr>prints := l2\<rparr>)"
    unfolding balloc_dump_ranges_def Let_def l1 bind.bind_lunit using l2 by simp
  moreover have "balloc_rel bc F K n (s\<lparr>prints := ls\<rparr>)" for ls
    using assms by (simp add: balloc_rel_def ranges_ok_def apart_def cover_def)
  ultimately show ?thesis by blast
qed

lemma balloc_memory_ok:
  assumes "balloc_rel bc F K n s" "K \<noteq> {}"
  shows "\<exists>e. balloc_memory bc s = Some (Inr e) \<and> e - 1 \<in> K \<and> (\<forall>x\<in>K. x < e)"
proof -
  obtain xs ys N where ne: "free_ranges bc \<noteq> memory_map bc"
      and R: "ranges_ok bc [free_ranges bc \<mapsto> xs, memory_map bc \<mapsto> ys] N s" and K: "cover s ys = K"
    using assms(1) by (auto simp: balloc_rel_def)
  have P: "pool_ok bc [free_ranges bc \<mapsto> xs, memory_map bc \<mapsto> ys] N s" using R by (simp add: ranges_ok_def)
  have "[free_ranges bc \<mapsto> xs, memory_map bc \<mapsto> ys] (memory_map bc) = Some ys" by simp
  then have ap: "apart s ys" using R unfolding ranges_ok_def by blast
  have q: "rb_seq (links s) (memory_map bc) ys" using pool_seq [OF P] ne by auto
  obtain ys0 y where y: "ys = ys0 @ [y]" using K assms(2) by (cases ys rule: rev_cases) auto
  have "y \<noteq> NULL" using rb.seq_nodes [OF q] y by (auto simp: good_addr_def)
  then have "balloc_memory bc s = Some (Inr (rend s y))"
    using rb.seq_last [OF q] by (simp add: balloc_memory_def y last_of_def RB2MEMORY_NODE_def)
  moreover have "rend s y - 1 \<in> K" using apart_cover_end(1) [OF ap, of y] y unfolding K by simp
  moreover have "x < rend s y" if x: "x \<in> K" for x
  proof -
    obtain p where p: "p \<in> set ys" "x < rend s p" using x K by (auto simp: cover_def)
    have "rend s p \<le> rend s y"
      using apart_ends [OF ap] p(1) y by (auto simp: sorted_wrt_append intro: less_imp_le)
    then show ?thesis using p(2) by (rule less_le_trans [rotated])
  qed
  ultimately show ?thesis by blast
qed

lemma balloc_setup_ok:
  assumes L: "boot_layout_ok bc" and r: "rh_root (links s) (free_ranges bc) = NULL" "rh_root (links s) (memory_map bc) = NULL"
    and fl: "mbi_flags (mboot_info_at info m) AND push_bit 6 1 \<noteq> 0"
  defines "ptr \<equiv> ucast (mbi_mmap_addr (mboot_info_at info m))"
  assumes es: "mmap_is m (ptr + ucast (mbi_mmap_size (mboot_info_at info m))) ptr es" "entries_ok es" "length es \<le> 40"
    and kern: "text_phys_begin bc < bss_phys_end bc" "{text_phys_begin bc..<bss_phys_end bc} \<subseteq> all_of es"
    and ramfs: "initramfs info m (prints s) = Inr ((x, y), log)" "x < y"
  shows "\<exists>s' n'. balloc_setup bc info m s = Some (Inr ((x, y), s')) \<and> 124 \<le> n' + 3 * length es \<and>
    balloc_rel bc (usable es - {x..<y} - {text_phys_begin bc..<bss_phys_end bc}) (all_of es) n' s'"
proof -
  note S = setup_nodes_rel [OF L r]
  obtain s1 n1 where s1: "balloc_parse_mmap bc info m (balloc_setup_nodes bc s) = Some (Inr ((x, y), s1))"
      "balloc_rel bc (usable es - {x..<y} - {text_phys_begin bc..<bss_phys_end bc}) (all_of es) n1 s1"
      "128 \<le> n1 + 3 * length es + 4"
    using parse_mmap_ok [OF S(1) fl es(1,2) [unfolded ptr_def] _ kern, of x y log] es(3) ramfs S(2) by auto
  obtain ls where ls: "balloc_dump_ranges bc s1 = Some (s1\<lparr>prints := ls\<rparr>)"
      "balloc_rel bc (usable es - {x..<y} - {text_phys_begin bc..<bss_phys_end bc}) (all_of es) n1 (s1\<lparr>prints := ls\<rparr>)"
    using dump_ranges_ok [OF s1(2)] by blast
  have "balloc_setup bc info m s = Some (Inr ((x, y), s1\<lparr>prints := ls\<rparr>))"
    by (simp add: balloc_setup_def s1(1) ls(1))
  moreover have "124 \<le> n1 + 3 * length es" using s1(3) by simp
  ultimately show ?thesis using ls(2) by blast
qed

end
