(* ===== verification/BallocProps.thy ===== *)
theory BallocProps
  imports BallocBoot
begin

text \<open>
  The properties of the red-black trees and of the bootstrap allocator, each with an example it
  applies to.
\<close>

section \<open>An example layout\<close>

definition bc0 :: bstatics where
  "bc0 = \<lparr>nodes_base = 0x8000, free_list = 0x7000, free_ranges = 0x7010, memory_map = 0x7018,
          text_phys_begin = 0x200000, bss_phys_end = 0x300000\<rparr>"

definition empty_links :: rheap where
  "empty_links = \<lparr>rh_left = \<lambda>_. 0, rh_right = \<lambda>_. 0, rh_parent = \<lambda>_. 0, rh_root = \<lambda>_. 0\<rparr>"

definition bs0 :: balloc where
  "bs0 = balloc_setup_nodes bc0 \<lparr>links = empty_links, rbegin = \<lambda>_. 0, rend = \<lambda>_. 0, prints = []\<rparr>"

lemma layout_bc0: "boot_layout_ok bc0"
  by (simp add: boot_layout_ok_def bc0_def)

lemma bs0_rel: "balloc_rel bc0 {} {} 128 bs0"
  unfolding bs0_def by (rule setup_nodes_rel [OF layout_bc0]) (simp_all add: empty_links_def)

text \<open>The example with the addresses from 4096 to 65535 free.\<close>

lemma bs1_rel: "\<exists>s n. balloc_free bc0 4096 65536 bs0 = Some (Inr s) \<and> balloc_rel bc0 {4096..<65536} {} n s \<and> 127 \<le> n"
  using add_free_rel [OF bs0_rel, of 4096 65536] by (auto simp: balloc_free_def addable_def)

lemma one_range:
  assumes "apart s xs" "cover s xs = {b..<e}" "b < e" and d: "distinct xs"
  shows "\<exists>q. xs = [q] \<and> rbegin s q = b \<and> rend s q = e"
proof -
  have "b + (e - b) = e" by simp
  then obtain p where p: "p \<in> set xs" "rbegin s p \<le> b" "e \<le> rend s p"
    using block_in_range [OF assms(1), of b "e - b"] assms(2,3) by auto
  have be: "rbegin s p < rend s p" using assms(1) p(1) by (simp add: apart_def)
  have b: "rbegin s p = b" using begin_in_cover [OF assms(1) p(1)] p(2) assms(2) by auto
  have "rend s p - 1 < e" using apart_cover_end(1) [OF assms(1) p(1)] assms(2) by simp
  then have e: "rend s p = e"
    using apart_cover_end(2) [OF assms(1) p(1)] p(3) by (simp add: word_le_nat_alt word_less_nat_alt word_unat_eq_iff)
  have one: "q = p" if q: "q \<in> set xs" for q
  proof (rule ccontr)
    assume ne: "q \<noteq> p"
    have "b \<le> rbegin s q" "rbegin s q < e" using begin_in_cover [OF assms(1) q] assms(2) by auto
    moreover have "rbegin s q < rend s q" using assms(1) q by (simp add: apart_def)
    ultimately have "\<not> rend s q < rbegin s p" "\<not> rend s p < rbegin s q" unfolding b e by auto
    then show False using apart_order [OF assms(1) q p(1)] ne by blast
  qed
  obtain x zs where xs: "xs = x # zs" using p(1) by (cases xs) auto
  have "x = p" using one [of x] xs by simp
  moreover have "zs = []" using one [of "hd zs"] xs calculation d by (cases zs) auto
  ultimately have "xs = [p]" using xs by simp
  then show ?thesis using b e by blast
qed

section \<open>Properties\<close>

lemma balloc_align:
  obtains k where "3 \<le> k" "k \<le> 6" "\<And>bc lo hi s. balloc_alloc bc sz lo hi s = raw_balloc_alloc bc sz (2 ^ k) lo hi s"
    "sz \<le> 8 \<longleftrightarrow> k = 3" "\<not> sz \<le> 32 \<longleftrightarrow> k = 6"
proof -
  consider "sz \<le> 8" | "\<not> sz \<le> 8" "sz \<le> 16" | "\<not> sz \<le> 8" "\<not> sz \<le> 16" "sz \<le> 32" | "\<not> sz \<le> 32" "\<not> sz \<le> 16" "\<not> sz \<le> 8"
    by fastforce
  then show thesis
  proof cases
    case 1
    then have "sz \<le> 16" "sz \<le> 32" by (auto intro: order_trans)
    then show thesis using that [of 3] 1 by (simp add: balloc_alloc_def)
  next
    case 2
    then have "sz \<le> 32" by (auto intro: order_trans)
    then show thesis using that [of 4] 2 by (simp add: balloc_alloc_def)
  next
    case 3
    then show thesis using that [of 5] by (simp add: balloc_alloc_def)
  next
    case 4
    then show thesis using that [of 6] by (simp add: balloc_alloc_def)
  qed
qed

text \<open>C36. \<open>balloc_alloc\<close> returns an 8-byte aligned block of the asked size that lay wholly in the free
memory between \<open>lo\<close> and \<open>hi\<close>, and takes exactly these addresses out of it; the known memory is not
touched. It fails, with \<open>hi\<close> and no change, only when no free block of that size aligned to 64 bytes
lies between the bounds.\<close>

theorem balloc_alloc_refines:
  assumes "balloc_rel bc F K n s" "2 \<le> n" "0 < sz" "\<forall>x\<in>F. unat x < l" "l + 64 + unat sz < 2 ^ 64"
  shows "(\<exists>a s' n'. balloc_alloc bc sz lo hi s = Some (Inr (a, s')) \<and>
      balloc_rel bc (F - {a..<a + sz}) K n' s' \<and> n \<le> n' + 1 \<and> {a..<a + sz} \<subseteq> F \<and>
      lo \<le> a \<and> unat a + unat sz \<le> unat hi \<and> 8 dvd unat a) \<or>
    balloc_alloc bc sz lo hi s = Some (Inr (hi, s)) \<and>
      (\<forall>a. 64 dvd unat a \<longrightarrow> lo \<le> a \<longrightarrow> unat a + unat sz \<le> unat hi \<longrightarrow> \<not> {a..<a + sz} \<subseteq> F)"
proof -
  obtain k where k: "3 \<le> k" "k \<le> 6" "\<And>bc lo hi s. balloc_alloc bc sz lo hi s = raw_balloc_alloc bc sz (2 ^ k) lo hi s"
    using balloc_align [of sz] by metis
  have dv: "(8::nat) dvd 2 ^ k" "(2::nat) ^ k dvd 64"
    using le_imp_power_dvd [OF k(1), of "2::nat"] le_imp_power_dvd [OF k(2), of "2::nat"] by simp_all
  have "(2::nat) ^ k \<le> 64" using power_increasing [OF k(2), of "2::nat"] by simp
  then have "l + 2 ^ k + unat sz < 2 ^ 64" using assms(5) by linarith
  note r = alloc_rel [OF assms(1-3) _ assms(4) this, of lo hi]
  have "k < 64" using k(2) by simp
  from r [OF this] show ?thesis
    unfolding k(3) using dvd_trans [OF dv(1)] dvd_trans [OF dv(2)] by blast
qed

theorem balloc_alloc_refines_witness:
  "\<exists>s n a s' n'. balloc_free bc0 4096 65536 bs0 = Some (Inr s) \<and> balloc_alloc bc0 100 0 8192 s = Some (Inr (a, s')) \<and>
     balloc_rel bc0 ({4096..<65536} - {a..<a + 100}) {} n' s' \<and> 8 dvd unat a"
proof -
  obtain s n where s: "balloc_free bc0 4096 65536 bs0 = Some (Inr s)" "balloc_rel bc0 {4096..<65536} {} n s" "127 \<le> n"
    using bs1_rel by blast
  have F: "\<forall>x\<in>{4096..<65536 :: u64}. unat x < 65536" by (auto simp: word_less_nat_alt)
  have "\<not> (\<forall>a. 64 dvd unat a \<longrightarrow> (0 :: u64) \<le> a \<longrightarrow> unat a + unat (100 :: u64) \<le> unat (8192 :: u64) \<longrightarrow>
    \<not> {a..<a + 100} \<subseteq> {4096..<65536 :: u64})"
  proof
    assume "\<forall>a. 64 dvd unat a \<longrightarrow> (0 :: u64) \<le> a \<longrightarrow> unat a + unat (100 :: u64) \<le> unat (8192 :: u64) \<longrightarrow>
      \<not> {a..<a + 100} \<subseteq> {4096..<65536 :: u64}"
    from spec [OF this, of 4096] show False by (auto elim: less_le_trans)
  qed
  then show ?thesis using balloc_alloc_refines [OF s(2) _ _ F, of 100 0 8192] s(1,3) by fastforce
qed

text \<open>C37. Freeing a block that has been allocated restores the free memory.\<close>

theorem balloc_alloc_free:
  assumes "balloc_rel bc F K n s" "3 \<le> n" "0 < sz" "\<forall>x\<in>F. unat x < l" "l + 64 + unat sz < 2 ^ 64"
    and "balloc_alloc bc sz lo hi s = Some (Inr (a, s'))" "a \<noteq> hi"
  shows "\<exists>s'' n'. balloc_free bc a (a + sz) s' = Some (Inr s'') \<and> balloc_rel bc F K n' s'' \<and> n \<le> n' + 2"
proof -
  obtain k where k: "3 \<le> k" "k \<le> 6" "\<And>bc lo hi s. balloc_alloc bc sz lo hi s = raw_balloc_alloc bc sz (2 ^ k) lo hi s"
    using balloc_align [of sz] by metis
  have "(2::nat) ^ k \<le> 64" using power_increasing [OF k(2), of "2::nat"] by simp
  then have "l + 2 ^ k + unat sz < 2 ^ 64" using assms(5) by linarith
  from alloc_rel [OF assms(1) _ assms(3) _ assms(4) this, of lo hi] k(2) assms(2,6,7)
  obtain n1 where 1: "balloc_rel bc (F - {a..<a + sz}) K n1 s'" "n \<le> n1 + 1" "{a..<a + sz} \<subseteq> F"
      "unat a + unat sz \<le> unat hi"
    unfolding k(3) by auto
  have "unat a + unat sz < 2 ^ 64" using 1(4) unat64_less [of hi] by linarith
  then have lt: "a < a + sz" using assms(3) by (simp add: word_less_nat_alt unat_word_ariths(1))
  obtain s'' n' where "balloc_add_range bc (free_ranges bc) a (a + sz) s' = Some (Inr s'')"
      "balloc_rel bc (F - {a..<a + sz} \<union> {a..<a + sz}) K n' s''" "n1 \<le> n' + 1"
    using add_free_rel [OF 1(1) _ lt] 1(2) assms(2) by (auto simp: addable_def)
  moreover have "F - {a..<a + sz} \<union> {a..<a + sz} = F" using 1(3) by blast
  ultimately show ?thesis using 1(2) by (auto simp: balloc_free_def)
qed

text \<open>The same, in the example: the block of the first fit.\<close>

theorem balloc_alloc_free_witness:
  "\<exists>s n a s' s'' n'. balloc_free bc0 4096 65536 bs0 = Some (Inr s) \<and> balloc_alloc bc0 100 0 8192 s = Some (Inr (a, s')) \<and>
     balloc_free bc0 a (a + 100) s' = Some (Inr s'') \<and> balloc_rel bc0 {4096..<65536} {} n' s''"
proof -
  obtain s n where s: "balloc_free bc0 4096 65536 bs0 = Some (Inr s)" "balloc_rel bc0 {4096..<65536} {} n s" "127 \<le> n"
    using bs1_rel by blast
  have F: "\<forall>x\<in>{4096..<65536 :: u64}. unat x < 65536" by (auto simp: word_less_nat_alt)
  obtain k where k: "k \<le> 6" "\<And>bc lo hi s. balloc_alloc bc 100 lo hi s = raw_balloc_alloc bc 100 (2 ^ k) lo hi s"
    "\<not> (100 :: u64) \<le> 32 \<longleftrightarrow> k = 6"
    using balloc_align [of 100] by metis
  then have 6: "balloc_alloc bc0 100 0 8192 s = raw_balloc_alloc bc0 100 (2 ^ 6) 0 8192 s" by simp
  have "\<not> (\<forall>a. 2 ^ 6 dvd unat a \<longrightarrow> (0 :: u64) \<le> a \<longrightarrow> unat a + unat (100 :: u64) \<le> unat (8192 :: u64) \<longrightarrow>
    \<not> {a..<a + 100} \<subseteq> {4096..<65536 :: u64})"
  proof
    assume "\<forall>a. 2 ^ 6 dvd unat a \<longrightarrow> (0 :: u64) \<le> a \<longrightarrow> unat a + unat (100 :: u64) \<le> unat (8192 :: u64) \<longrightarrow>
      \<not> {a..<a + 100} \<subseteq> {4096..<65536 :: u64}"
    from spec [OF this, of 4096] show False by (auto elim: less_le_trans)
  qed
  then obtain a s' where a: "balloc_alloc bc0 100 0 8192 s = Some (Inr (a, s'))" "unat a + 100 \<le> 8192"
    using alloc_rel [OF s(2) _ _ _ F, of 100 6 0 8192] s(3) unfolding 6 by fastforce
  have "a \<noteq> 8192" using a(2) by auto
  then obtain s'' n' where "balloc_free bc0 a (a + 100) s' = Some (Inr s'')" "balloc_rel bc0 {4096..<65536} {} n' s''"
    using balloc_alloc_free [OF s(2) _ _ F _ a(1)] s(3) by auto
  then show ?thesis using s(1) a(1) by blast
qed

text \<open>C39. A range freed over the only free range does not leave its union with it: the upper bound becomes
that of the old range, and the addresses above are lost, although the comment of the setup promises
that overlapped maps do no harm.\<close>

theorem balloc_free_swallow:
  assumes "balloc_rel bc {b..<e} K n s" "1 \<le> n" "lo < b" "b < e" "e < hi"
  shows "\<exists>s' n'. balloc_free bc lo hi s = Some (Inr s') \<and> balloc_rel bc {lo..<e} K n' s'"
proof -
  obtain xs ys N where ne: "free_ranges bc \<noteq> memory_map bc"
      and R: "ranges_ok bc [free_ranges bc \<mapsto> xs, memory_map bc \<mapsto> ys] N s"
      and c: "cover s xs = {b..<e}" "cover s ys = K" "length N = n"
    using assms(1) by (auto simp: balloc_rel_def)
  let ?Q = "[free_ranges bc \<mapsto> xs, memory_map bc \<mapsto> ys]"
  have Q: "?Q (free_ranges bc) = Some xs" "?Q (memory_map bc) = Some ys" using ne by auto
  have P: "pool_ok bc ?Q N s" and ap: "apart s xs" using R Q(1) unfolding ranges_ok_def by blast+
  have lt: "lo < hi" using assms(3-5) by (meson less_trans)
  obtain new N0 where N: "N = new # N0" using assms(2) c(3) by (cases N) auto
  obtain q where xs: "xs = [q]" "rbegin s q = b" "rend s q = e"
    using one_range [OF ap c(1) assms(4) pool_distinct [OF P Q(1)]] by blast
  obtain A B h' where r: "xs = A @ B" "\<forall>m\<in>set A. rbegin s m < lo" "\<forall>m\<in>set B. lo \<le> rbegin s m"
      "balloc_add_range bc (free_ranges bc) lo hi s = Some (Inr (s\<lparr>links := h',
        rbegin := (rbegin s)(new := new_begin s A lo), rend := (rend s)(new := new_end s A B lo hi)\<rparr>))"
      "pool_ok bc (?Q(free_ranges bc \<mapsto> added s A B new lo hi)) (unused s A B N0 lo hi) (s\<lparr>links := h'\<rparr>)"
    using add_range_run [OF P [unfolded N] Q(1) ap] by blast
  have AB: "A = []" "B = [q]"
    using r(1,2) xs assms(3) by (auto simp: Cons_eq_append_conv)
  have f: "new_begin s A lo = lo" "new_end s A B lo hi = e" "added s A B new lo hi = [new]" "unused s A B N0 lo hi = q # N0"
    using xs assms(4,5)
    by (auto simp: AB new_begin_def join_prev_def new_end_def join_next_def reach_def added_def unused_def)
  define s' where "s' = s\<lparr>links := h', rbegin := (rbegin s)(new := lo), rend := (rend s)(new := e)\<rparr>"
  have Q': "?Q(free_ranges bc \<mapsto> [new]) = [free_ranges bc \<mapsto> [new], memory_map bc \<mapsto> ys]"
    using ne by (auto simp: fun_eq_iff)
  have new: "new \<notin> set ys" using pool_treeD(2) [OF P Q(2)] N by auto
  have same: "apart s' ys = apart s ys" "cover s' ys = K"
    using new c(2) by (auto intro!: apart_cong cover_cong simp: s'_def)
  have "apart s ys" using R Q(2) unfolding ranges_ok_def by blast
  moreover have "apart s' [new]" using assms(3,4) by (auto simp: apart_def s'_def intro: less_trans)
  moreover have "pool_ok bc [free_ranges bc \<mapsto> [new], memory_map bc \<mapsto> ys] (q # N0) s'"
    using r(5) unfolding f Q' by (rule pool_cong) (simp add: s'_def)
  ultimately have "ranges_ok bc [free_ranges bc \<mapsto> [new], memory_map bc \<mapsto> ys] (q # N0) s'"
    unfolding ranges_ok_def using same ne by auto
  from balloc_relI [OF ne this _ same(2)] have "balloc_rel bc {lo..<e} K (length (q # N0)) s'"
    by (simp add: s'_def)
  then show ?thesis using r(4) by (auto simp: balloc_free_def f s'_def)
qed

theorem balloc_free_swallow_witness:
  "\<exists>s s' n'. balloc_free bc0 4096 65536 bs0 = Some (Inr s) \<and> balloc_free bc0 0 0x100000 s = Some (Inr s') \<and>
     balloc_rel bc0 {0..<65536} {} n' s'"
proof -
  obtain s n where s: "balloc_free bc0 4096 65536 bs0 = Some (Inr s)" "balloc_rel bc0 {4096..<65536} {} n s" "127 \<le> n"
    using bs1_rel by blast
  then show ?thesis using balloc_free_swallow [OF s(2), of 0 "0x100000"] by auto
qed

section \<open>Setup\<close>

text \<open>C35. With a sane memory map of at most 40 entries, a kernel image inside it and a module for the initial
file system, \<open>balloc_setup\<close> ends without running out of its 128 nodes: free are then the usable
entries less the module and the kernel, known are all entries, and \<open>balloc_memory\<close> is the end of the
highest known address.\<close>

theorem balloc_setup_free_memory:
  assumes "boot_layout_ok bc" "rh_root (links s) (free_ranges bc) = NULL" "rh_root (links s) (memory_map bc) = NULL"
    and "mbi_flags (mboot_info_at info m) AND push_bit 6 1 \<noteq> 0"
    and "ptr = ucast (mbi_mmap_addr (mboot_info_at info m))"
    and "mmap_is m (ptr + ucast (mbi_mmap_size (mboot_info_at info m))) ptr es" "entries_ok es" "length es \<le> 40"
    and "text_phys_begin bc < bss_phys_end bc" "{text_phys_begin bc..<bss_phys_end bc} \<subseteq> all_of es"
    and "initramfs info m (prints s) = Inr ((x, y), log)" "x < y"
  shows "\<exists>s' n' e. balloc_setup bc info m s = Some (Inr ((x, y), s')) \<and>
    balloc_rel bc (usable es - {x..<y} - {text_phys_begin bc..<bss_phys_end bc}) (all_of es) n' s' \<and>
    124 \<le> n' + 3 * length es \<and> balloc_memory bc s' = Some (Inr e) \<and> e - 1 \<in> all_of es \<and> (\<forall>a\<in>all_of es. a < e)"
proof -
  obtain s' n' where s': "balloc_setup bc info m s = Some (Inr ((x, y), s'))" "124 \<le> n' + 3 * length es"
      "balloc_rel bc (usable es - {x..<y} - {text_phys_begin bc..<bss_phys_end bc}) (all_of es) n' s'"
    using balloc_setup_ok [OF assms(1-4) assms(6) [unfolded assms(5)] assms(7-12)] by blast
  have "all_of es \<noteq> {}" using assms(9,10) by auto
  then show ?thesis using balloc_memory_ok [OF s'(3)] s' by blast
qed

text \<open>An example of what a boot loader leaves: two entries, the second usable, and one module.\<close>

definition boot_mem :: mem where
  "boot_mem = (\<lambda>_. 0)(0 := 0x48, 20 := 1, 24 := 100, 44 := 48, 48 := 120, 102 := 0x40, 105 := 1, 106 := 0x40,
     120 := 20, 133 := 0xF0, 134 := 9, 140 := 2, 144 := 20, 150 := 0x10, 158 := 0xF0, 159 := 7, 164 := 1,
     0x400000 := 0x30)"

definition boot_entries :: "mboot_mmap_entry list" where
  "boot_entries = [\<lparr>me_size = 20, me_addr = 0, me_length = 0x9F000, me_type = 2\<rparr>,
     \<lparr>me_size = 20, me_addr = 0x100000, me_length = 0x7F00000, me_type = 1\<rparr>]"

definition bs_cold :: balloc where
  "bs_cold = \<lparr>links = empty_links, rbegin = \<lambda>_. 0, rend = \<lambda>_. 0, prints = []\<rparr>"

lemma boot_info: "mboot_info_at 0 boot_mem = \<lparr>mbi_flags = 0x48, mbi_mmap_size = 48, mbi_mmap_addr = 120\<rparr>"
  by (simp add: mboot_info_at_def load32_def boot_mem_def)

lemma boot_mmap: "mmap_is boot_mem (120 + 48) 120 boot_entries"
  by (simp add: boot_entries_def mmap_entry_at_def load32_def load64_def boot_mem_def)

lemma boot_ramfs:
  "initramfs 0 boot_mem [] = Inr ((0x400000, 0x400100), [(''0x%lu 0x%lu'' @ newline, [0x400000, 0x400100])])"
  by (simp add: initramfs_def mods_info_at_def mod_desc_at_def load32_def boot_mem_def Let_def cpio_magic_def)

lemma boot_entries_sane: "entries_ok boot_entries" "{0x200000..<0x300000} \<subseteq> all_of boot_entries"
  by (auto simp: boot_entries_def entry_range_def word_le_nat_alt word_less_nat_alt)

theorem balloc_setup_free_memory_witness:
  "\<exists>s' n'. balloc_setup bc0 0 boot_mem bs_cold = Some (Inr ((0x400000, 0x400100), s')) \<and>
     balloc_rel bc0 (usable boot_entries - {0x400000..<0x400100} - {0x200000..<0x300000}) (all_of boot_entries) n' s'"
proof -
  have "\<exists>s' n' e. balloc_setup bc0 0 boot_mem bs_cold = Some (Inr ((0x400000, 0x400100), s')) \<and>
    balloc_rel bc0 (usable boot_entries - {0x400000..<0x400100} - {text_phys_begin bc0..<bss_phys_end bc0})
      (all_of boot_entries) n' s' \<and> 124 \<le> n' + 3 * length boot_entries \<and> balloc_memory bc0 s' = Some (Inr e) \<and>
    e - 1 \<in> all_of boot_entries \<and> (\<forall>a\<in>all_of boot_entries. a < e)"
  proof (rule balloc_setup_free_memory [OF layout_bc0])
    show "mmap_is boot_mem (120 + ucast (mbi_mmap_size (mboot_info_at 0 boot_mem))) 120 boot_entries"
      using boot_mmap by (simp add: boot_info)
    show "initramfs 0 boot_mem (prints bs_cold) = Inr ((0x400000, 0x400100), [(''0x%lu 0x%lu'' @ newline, [0x400000, 0x400100])])"
      using boot_ramfs by (simp add: bs_cold_def)
    show "{text_phys_begin bc0..<bss_phys_end bc0} \<subseteq> all_of boot_entries"
      using boot_entries_sane(2) by (simp add: bc0_def)
  qed (simp_all add: boot_info bs_cold_def empty_links_def boot_entries_sane(1), simp_all add: boot_entries_def bc0_def)
  then show ?thesis by (auto simp: bc0_def)
qed

section \<open>Red-black trees\<close>

text \<open>C38. The type of the links is kept: in a well-formed red-black tree (search order of the nodes, black
heights, no red child of a red node, parent words that agree with the children) a node linked into any
gap and inserted gives a well-formed tree with the node in its place, its neighbours are the ones the
walks \<open>rb_next\<close> and \<open>rb_prev\<close> find, and erasing it gives a well-formed tree of the old nodes.\<close>

theorem rb_insert_erase_wf:
  assumes "rb_gap h tree plink parent xs ys" "good_addr n" "n \<notin> set (xs @ ys)"
  shows "\<exists>h1 h2. rb_insert n tree (rb_link n parent plink h) = Some (Inr h1) \<and> rb_seq h1 tree (xs @ n # ys) \<and>
    rb_next n h1 = Some (first_of ys) \<and> rb_prev n h1 = Some (last_of xs) \<and>
    rb_erase n tree h1 = Some (Inr h2) \<and> rb_seq h2 tree (xs @ ys)"
proof -
  obtain h1 where h1: "rb_insert_at n parent plink tree h = Some (Inr h1)" "rb_seq h1 tree (xs @ n # ys)"
    using rb.seq_insert [OF assms] by blast
  then show ?thesis
    using rb.seq_erase [OF h1(2)] rb.seq_succ [OF h1(2)] rb.seq_pred [OF h1(2)] by (auto simp: rb_insert_at_def)
qed

theorem rb_insert_erase_wf_witness:
  "\<exists>h1 h2. rb_insert 0x8000 0x7010 (rb_link 0x8000 0 (RootSlot 0x7010) empty_links) = Some (Inr h1) \<and>
     rb_seq h1 0x7010 [0x8000] \<and> rb_erase 0x8000 0x7010 h1 = Some (Inr h2) \<and> rb_seq h2 0x7010 []"
proof -
  have "rb_gap empty_links 0x7010 (RootSlot 0x7010) 0 [] []"
    unfolding rb_gap_def
    by (intro exI [of _ "[]"]) (simp add: holds_def empty_links_def balanced_def)
  from rb_insert_erase_wf [OF this, of "0x8000"] show ?thesis by (auto simp: good_addr_def)
qed

end
