(* ===== verification/Boot.thy ===== *)
theory Boot
  imports PageSetup Slab Balloc
begin

text \<open>
  The start of the page allocator, the part of \<^verbatim>\<open>src/memory.c\<close> that works on the bootstrap allocator:
  \<^verbatim>\<open>page_alloc_setup\<close> makes a zone for every known range of memory, with its descriptors allocated by
  \<^verbatim>\<open>balloc_alloc\<close>, gives the free ranges to the zones and prints the zones.
\<close>

text \<open>The memory managers together: pages and objects, and the bootstrap allocator.\<close>

record kmem = slab +
  boot :: balloc

definition log_print :: "string \<Rightarrow> u64 list \<Rightarrow> 'a kmem_scheme \<Rightarrow> 'a kmem_scheme" where
  "log_print fmt args s = s\<lparr>boot := (boot s)\<lparr>prints := prints (boot s) @ [(fmt, args)]\<rparr>\<rparr>"

text \<open>\<^verbatim>\<open>sizeof(struct page_alloc_zone)\<close> is 376: it has room for one page descriptor of 32 bytes.\<close>

definition raw_page_alloc_zone_setup :: "bstatics \<Rightarrow> u64 \<Rightarrow> u64 \<Rightarrow> 'a kmem_scheme \<Rightarrow> 'a kmem_scheme res option" where
  "raw_page_alloc_zone_setup bc zbegin zend s =
     (let page_mask = NOT PAGE_MASK;
          begin_addr = (zbegin + PAGE_SIZE - 1) AND page_mask;
          end_addr = zend AND page_mask;
          first = drop_bit PAGE_SHIFT begin_addr;
          fin = drop_bit PAGE_SHIFT end_addr
      in if first \<ge> fin then Some (Inr s)
         else
           let pages = fin - first;
               sz = 376 + 32 * pages
           in bindO (balloc_alloc bc sz 0 (NOT 0) (boot s)) (\<lambda>(a, b).
              let s = s\<lparr>boot := b\<rparr>;
                  zone = va a
              in if pa zone = NOT 0 then Some (Inl (Bug ''pa(zone) == UINTPTR_MAX''))
                 else
                   let s = log_print (''page alloc zone [0x%llx; 0x%llx]'' @ newline) [first, fin] s
                   in Some (Inr (zone_setup_at zone first fin s))))"

text \<open>The lists of the zone are walked with \<^verbatim>\<open>list_size\<close>, the larger orders first.\<close>

fun dump_orders :: "addr \<Rightarrow> nat list \<Rightarrow> 'a kmem_scheme \<Rightarrow> 'a kmem_scheme option" where
  "dump_orders zone [] s = Some s"
| "dump_orders zone (ord # os) s =
     (if list_empty (order_head zone ord) (ll s) then dump_orders zone os s
      else Option.bind (list_size (order_head zone ord) (ll s)) (\<lambda>count.
        let block_size = push_bit PAGE_SHIFT (push_bit ord 1)
        in dump_orders zone os (log_print (''    %lu blocks of size %lu'' @ newline) [count, block_size] s)))"

definition page_alloc_zone_dump :: "addr \<Rightarrow> 'a kmem_scheme \<Rightarrow> 'a kmem_scheme option" where
  "page_alloc_zone_dump zone s =
     (let s = log_print (''zone 0x%llx-0x%llx:'' @ newline)
                [push_bit PAGE_SHIFT (zone_begin s zone), push_bit PAGE_SHIFT (zone_end s zone)] s
      in dump_orders zone (rev [0..<MAX_ORDER + 1]) s)"

text \<open>The three loops of \<^verbatim>\<open>page_alloc_setup\<close>.\<close>

partial_function (option) setup_zones :: "bstatics \<Rightarrow> addr \<Rightarrow> 'a kmem_scheme \<Rightarrow> 'a kmem_scheme res option" where
  "setup_zones bc ptr s =
     (if ptr \<noteq> NULL then
        let node = RB2MEMORY_NODE ptr in
        bindO (raw_page_alloc_zone_setup bc (rbegin (boot s) node) (rend (boot s) node) s) (\<lambda>s.
        Option.bind (rb_next ptr (links (boot s))) (\<lambda>ptr. setup_zones bc ptr s))
      else Some (Inr s))"

partial_function (option) free_zones :: "addr \<Rightarrow> 'a kmem_scheme \<Rightarrow> 'a kmem_scheme res option" where
  "free_zones ptr s =
     (if ptr \<noteq> NULL then
        let node = RB2MEMORY_NODE ptr in
        bindO (raw_page_alloc_zone_free (rbegin (boot s) node) (rend (boot s) node) s) (\<lambda>s.
        Option.bind (rb_next ptr (links (boot s))) (\<lambda>ptr. free_zones ptr s))
      else Some (Inr s))"

partial_function (option) dump_zones :: "addr \<Rightarrow> 'a kmem_scheme \<Rightarrow> 'a kmem_scheme option" where
  "dump_zones p s =
     (if p \<noteq> zones_head s
      then Option.bind (page_alloc_zone_dump (p - 8) s) (\<lambda>s. dump_zones (lh_next (ll s) p) s)
      else Some s)"

definition page_alloc_setup :: "bstatics \<Rightarrow> 'a kmem_scheme \<Rightarrow> 'a kmem_scheme res option" where
  "page_alloc_setup bc s =
     Option.bind (rb_leftmost (memory_map bc) (links (boot s))) (\<lambda>ptr.
     let s = s\<lparr>ll := list_init (zones_head s) (ll s)\<rparr> in
     bindO (setup_zones bc ptr s) (\<lambda>s.
     Option.bind (rb_leftmost (free_ranges bc) (links (boot s))) (\<lambda>ptr.
     bindO (free_zones ptr s) (\<lambda>s.
     Option.bind (dump_zones (lh_next (ll s) (zones_head s)) s) (\<lambda>s. Some (Inr s))))))"

end
