(* ===== verification/Paging.thy ===== *)
theory Paging
  imports Boot
begin

text \<open>
  The page tables of \<^verbatim>\<open>src/paging.c\<close> with \<^verbatim>\<open>inc/paging.h\<close>: mapping and populating ranges of virtual
  addresses, the first page table of the kernel, and the window \<open>kmap\<close> of 2 GB below the kernel image
  with its allocator of page ranges. A table entry is a word at its virtual address; the links of the
  free ranges are in the same heap of list links as all others.
\<close>

section \<open>State\<close>

record vm = kmem +
  ptm :: "addr \<Rightarrow> u64"              \<comment> \<open>page table entries\<close>
  cr3 :: u64
  flushed :: "addr list"            \<comment> \<open>the addresses given to \<^verbatim>\<open>flush_tlb_addr\<close>\<close>
  kmap_ranges :: addr
  kmap_free_ranges :: addr          \<comment> \<open>the static array of 16 list heads\<close>
  kmap_pages :: "addr \<Rightarrow> u64"       \<comment> \<open>\<open>pages\<close> of each \<^verbatim>\<open>struct kmap_range\<close>\<close>

abbreviation (input) PTE_PRESENT :: u64 where "PTE_PRESENT \<equiv> 1"
abbreviation (input) PTE_WRITE :: u64 where "PTE_WRITE \<equiv> 2"
abbreviation (input) PTE_USER :: u64 where "PTE_USER \<equiv> 4"
abbreviation (input) PTE_LARGE :: u64 where "PTE_LARGE \<equiv> 0x80"
abbreviation (input) PTE_PHYS_MASK :: u64 where "PTE_PHYS_MASK \<equiv> 0xffffffffff000"
abbreviation (input) VIRTUAL_BASE :: u64 where "VIRTUAL_BASE \<equiv> 0xffffffff80000000"
abbreviation (input) MAX_PMEM_SIZE :: u64 where "MAX_PMEM_SIZE \<equiv> 0x00007fff00000000"
abbreviation (input) BOOTSTRAP_MEM :: u64 where "BOOTSTRAP_MEM \<equiv> 0x100000000"

text \<open>A pool is a pair of functions; a null pool cannot be called.\<close>

record 's page_pool =
  get_page :: "'s \<Rightarrow> (u64 \<times> 's) res option"
  put_page :: "u64 \<Rightarrow> 's \<Rightarrow> 's res option"

definition pool_get_page :: "'s page_pool option \<Rightarrow> 's \<Rightarrow> (u64 \<times> 's) res option" where
  "pool_get_page pool s = (case pool of None \<Rightarrow> Some (Inl (Fault ''pool'')) | Some p \<Rightarrow> get_page p s)"

definition pool_put_page :: "'s page_pool option \<Rightarrow> u64 \<Rightarrow> 's \<Rightarrow> 's res option" where
  "pool_put_page pool page s = (case pool of None \<Rightarrow> Some (Inl (Fault ''pool'')) | Some p \<Rightarrow> put_page p page s)"

section \<open>Levels\<close>

definition pml_shift :: "nat \<Rightarrow> nat res" where
  "pml_shift level =
     (if level < 1 \<or> 4 < level then Inl (Bug ''level < 1 || level > 4'') else Inr ([0, 12, 21, 30, 39] ! level))"

definition pml_offs :: "u64 \<Rightarrow> nat \<Rightarrow> nat res" where
  "pml_offs a level =
     (if 4 < level then Inl (Bug ''level > 4'')
      else bindR (pml_shift level) (\<lambda>k. Inr (unat (drop_bit k a AND [0xfff, 0x1ff, 0x1ff, 0x1ff, 0x1ff] ! level))))"

definition pml_size :: "nat \<Rightarrow> u64 res" where
  "pml_size level =
     (if level < 1 \<or> 4 < level then Inl (Bug ''level < 1 || level > 4'')
      else bindR (pml_shift level) (\<lambda>k. Inr (push_bit k 1)))"

section \<open>Counting the tables of a mapping\<close>

text \<open>The loop runs until \<open>i\<close> is \<open>to\<close>, so it does not end when it starts above.\<close>

partial_function (option) count_loop ::
    "(u64 \<Rightarrow> u64 \<Rightarrow> u64 \<Rightarrow> int res option) \<Rightarrow> nat \<Rightarrow> u64 \<Rightarrow> bool \<Rightarrow> u64 \<Rightarrow> nat \<Rightarrow> nat \<Rightarrow> u64 \<Rightarrow> u64 \<Rightarrow> int \<Rightarrow> int res option" where
  "count_loop down lvl sz notaligned fin to i begin phys count =
     (if i = to then Some (Inr count)
      else
        let msk = sz - 1;
            entry_end = (begin + sz) AND NOT msk;
            map_begin = begin;
            map_end = (if entry_end < fin then entry_end else fin);
            tomap = map_end - map_begin
        in bindO (if lvl = 4 \<or> notaligned
                  then bindO (down map_begin map_end phys) (\<lambda>c. Some (Inr (count + c)))
                  else Some (Inr count)) (\<lambda>count.
           count_loop down lvl sz notaligned fin to (i + 1) (begin + tomap) (phys + tomap) count))"

primrec raw_pt_count_pages :: "nat \<Rightarrow> u64 \<Rightarrow> u64 \<Rightarrow> u64 \<Rightarrow> int res option" where
  "raw_pt_count_pages 0 begin fin phys = Some (Inl (Bug ''level < 1 || level > 4''))"
| "raw_pt_count_pages (Suc l) begin fin phys =
     bindO (Some (pml_size (Suc l))) (\<lambda>sz.
     bindO (Some (pml_offs begin (Suc l))) (\<lambda>from.
     bindO (Some (pml_offs (fin - 1) (Suc l))) (\<lambda>last.
       let msk = sz - 1;
           to = last + 1;
           notaligned = (begin AND msk \<noteq> 0 \<or> phys AND msk \<noteq> 0)
       in if Suc l = 1 then Some (Inr 1)
          else count_loop (raw_pt_count_pages l) (Suc l) sz notaligned fin to from begin phys 1)))"

definition pt_count_pages :: "u64 \<Rightarrow> u64 \<Rightarrow> u64 \<Rightarrow> int res option" where
  "pt_count_pages begin fin phys = raw_pt_count_pages 4 begin fin phys"

section \<open>Mapping\<close>

definition set_pte :: "addr \<Rightarrow> u64 \<Rightarrow> 'a vm_scheme \<Rightarrow> 'a vm_scheme" where
  "set_pte a v s = s\<lparr>ptm := (ptm s)(a := v)\<rparr>"

text \<open>
  One round of the loop of \<^verbatim>\<open>__pt_map_pages\<close>: \<open>down\<close> is the call for the next lower level, and \<open>begin\<close>
  and \<open>phys\<close> go on from round to round.
\<close>

definition map_entry ::
    "(addr \<Rightarrow> u64 \<Rightarrow> u64 \<Rightarrow> u64 \<Rightarrow> 'a vm_scheme \<Rightarrow> 'a vm_scheme res option) \<Rightarrow> 'a vm_scheme page_pool option \<Rightarrow>
     nat \<Rightarrow> u64 \<Rightarrow> addr \<Rightarrow> u64 \<Rightarrow> u64 \<Rightarrow> u64 \<Rightarrow> nat \<Rightarrow> u64 \<times> u64 \<times> 'a vm_scheme \<Rightarrow> (u64 \<times> u64 \<times> 'a vm_scheme) res option" where
  "map_entry down pool lvl sz pml fin fl pte_large i = (\<lambda>(begin, phys, s).
     let msk = sz - 1;
         pde_flags = PTE_PRESENT OR PTE_WRITE OR PTE_USER;
         aligned = (begin AND msk = 0 \<and> phys AND msk = 0);
         entry_end = ((begin + sz) AND NOT msk) - 1;
         map_end = (if entry_end < fin then entry_end else fin);
         map_begin = begin;
         tomap = map_end - map_begin + 1;
         entry = pml + 8 * of_nat i;
         pte = ptm s entry;
         fill = (lvl \<noteq> 4 \<and> tomap = sz \<and> aligned \<and> (pte_large \<noteq> 0 \<or> lvl = 1))
     in if pte AND PTE_PRESENT = 0 \<and> fill
        then Some (Inr (begin + tomap, phys + tomap, set_pte entry (phys OR fl OR pte_large) s))
        else
          bindO (if pte AND PTE_PRESENT = 0 then
                   if lvl = 1 then Some (Inl (Bug ''lvl == 1''))
                   else bindO (pool_get_page pool s) (\<lambda>(page, s).
                     if page = 0 then Some (Inl (Bug ''!page''))
                     else let pte = page OR pde_flags in Some (Inr (pte, set_pte entry pte s)))
                 else Some (Inr (pte, s))) (\<lambda>(pte, s).
          if lvl = 1 then Some (Inl (Bug ''lvl == 1''))
          else bindO (down (va (pte AND PTE_PHYS_MASK)) map_begin map_end phys s) (\<lambda>s.
            Some (Inr (begin + tomap, phys + tomap, s)))))"

fun for_entries :: "(nat \<Rightarrow> 'x \<Rightarrow> 'x res option) \<Rightarrow> nat list \<Rightarrow> 'x \<Rightarrow> 'x res option" where
  "for_entries f [] x = Some (Inr x)"
| "for_entries f (i # is) x = bindO (f i x) (for_entries f is)"

primrec raw_pt_map_pages ::
    "nat \<Rightarrow> 'a vm_scheme page_pool option \<Rightarrow> u64 \<Rightarrow> addr \<Rightarrow> u64 \<Rightarrow> u64 \<Rightarrow> u64 \<Rightarrow> 'a vm_scheme \<Rightarrow> 'a vm_scheme res option" where
  "raw_pt_map_pages 0 pool fl pml begin fin phys s = Some (Inl (Bug ''level < 1 || level > 4''))"
| "raw_pt_map_pages (Suc l) pool fl pml begin fin phys s =
     bindO (Some (pml_size (Suc l))) (\<lambda>sz.
     bindO (Some (pml_offs begin (Suc l))) (\<lambda>from.
     bindO (Some (pml_offs fin (Suc l))) (\<lambda>to.
       let pte_large = (if Suc l = 3 \<or> Suc l = 2 then fl AND PTE_LARGE else 0)
       in bindO (for_entries (map_entry (raw_pt_map_pages l pool fl) pool (Suc l) sz pml fin fl pte_large)
                   [from..<Suc to] (begin, phys, s)) (\<lambda>(begin, phys, s). Some (Inr s)))))"

definition pt_map_pages ::
    "addr \<Rightarrow> u64 \<Rightarrow> u64 \<Rightarrow> u64 \<Rightarrow> u64 \<Rightarrow> 'a vm_scheme page_pool option \<Rightarrow> 'a vm_scheme \<Rightarrow> 'a vm_scheme res option" where
  "pt_map_pages pml4 begin fin phys fl pool s =
     (if begin AND PAGE_MASK \<noteq> 0 then Some (Inl (Bug ''begin & PAGE_MASK''))
      else if fin AND PAGE_MASK \<noteq> 0 then Some (Inl (Bug ''end & PAGE_MASK''))
      else raw_pt_map_pages 4 pool (fl OR PTE_PRESENT OR PTE_LARGE) pml4 begin (fin - 1) phys s)"

definition pt_populate_pages ::
    "addr \<Rightarrow> u64 \<Rightarrow> u64 \<Rightarrow> 'a vm_scheme page_pool option \<Rightarrow> 'a vm_scheme \<Rightarrow> 'a vm_scheme res option" where
  "pt_populate_pages pml4 begin fin pool s =
     (if begin AND PAGE_MASK \<noteq> 0 then Some (Inl (Bug ''begin & PAGE_MASK''))
      else if fin AND PAGE_MASK \<noteq> 0 then Some (Inl (Bug ''end & PAGE_MASK''))
      else raw_pt_map_pages 4 pool 0 pml4 begin (fin - 1) 0 s)"

definition write_cr3 :: "u64 \<Rightarrow> 'a vm_scheme \<Rightarrow> 'a vm_scheme" where
  "write_cr3 a s = s\<lparr>cr3 := a\<rparr>"

definition read_cr3 :: "'a vm_scheme \<Rightarrow> u64" where
  "read_cr3 s = cr3 s"

definition flush_tlb_addr :: "addr \<Rightarrow> 'a vm_scheme \<Rightarrow> 'a vm_scheme" where
  "flush_tlb_addr a s = s\<lparr>flushed := flushed s @ [a]\<rparr>"

section \<open>The first page table\<close>

text \<open>\<^verbatim>\<open>memset(pte, 0, PAGE_SIZE)\<close> on the 512 entries of a table.\<close>

definition clear_table :: "addr \<Rightarrow> 'a vm_scheme \<Rightarrow> 'a vm_scheme" where
  "clear_table pte s = fold (\<lambda>i. set_pte (pte + 8 * of_nat i) 0) [0..<512] s"

definition paging_setup_get_page :: "bstatics \<Rightarrow> 'a vm_scheme \<Rightarrow> (u64 \<times> 'a vm_scheme) res option" where
  "paging_setup_get_page bc s =
     bindO (raw_balloc_alloc bc PAGE_SIZE PAGE_SIZE 0 BOOTSTRAP_MEM (boot s)) (\<lambda>(page, b).
       let s = s\<lparr>boot := b\<rparr>; pte = va page in
       if page = BOOTSTRAP_MEM then Some (Inl (Bug ''Not enough free memory to setup initial page table''))
       else Some (Inr (page, clear_table pte s)))"

definition paging_setup_pool :: "bstatics \<Rightarrow> 'a vm_scheme page_pool" where
  "paging_setup_pool bc =
     \<lparr>get_page = paging_setup_get_page bc, put_page = \<lambda>_ _. Some (Inl (Fault ''put_page''))\<rparr>"

definition paging_setup :: "bstatics \<Rightarrow> 'a vm_scheme \<Rightarrow> 'a vm_scheme res option" where
  "paging_setup bc s =
     bindO (balloc_memory bc (boot s)) (\<lambda>memory.
     let phys_mem_limit = memory AND NOT PAGE_MASK;
         mem_size = (if phys_mem_limit < MAX_PMEM_SIZE then phys_mem_limit else MAX_PMEM_SIZE);
         pool = Some (paging_setup_pool bc)
     in bindO (pool_get_page pool s) (\<lambda>(pml4, s).
        let pte = va pml4 in
        bindO (pt_map_pages pte HIGHER_BASE (HIGHER_BASE + mem_size) 0 PTE_WRITE pool s) (\<lambda>s.
        bindO (pt_map_pages pte VIRTUAL_BASE 0 0 PTE_WRITE pool s) (\<lambda>s.
        Some (Inr (write_cr3 pml4 s))))))"

section \<open>Ranges of the window\<close>

abbreviation (input) KMAP_ORDERS :: nat where "KMAP_ORDERS \<equiv> 16"
abbreviation (input) KMAP_BEGIN :: u64 where "KMAP_BEGIN \<equiv> 0xffffffff00000000"
abbreviation (input) KMAP_END :: u64 where "KMAP_END \<equiv> 0xffffffff80000000"
abbreviation (input) KMAP_PAGES :: u64 where "KMAP_PAGES \<equiv> 0x80000"

text \<open>\<^verbatim>\<open>struct kmap_range\<close> is 24 bytes with its links first: \<open>range + n\<close> in the code.\<close>

definition kmap_nth :: "addr \<Rightarrow> u64 \<Rightarrow> addr" where
  "kmap_nth rng n = rng + 24 * n"

definition kmap_head :: "nat \<Rightarrow> 'a vm_scheme \<Rightarrow> addr" where
  "kmap_head order s = kmap_free_ranges s + 16 * of_nat order"

definition addr_kmap :: "addr \<Rightarrow> 'a vm_scheme \<Rightarrow> addr" where
  "addr_kmap a s = (let no = drop_bit PAGE_SHIFT (a - KMAP_BEGIN) in kmap_nth (kmap_ranges s) no)"

definition kmap_addr :: "addr \<Rightarrow> 'a vm_scheme \<Rightarrow> addr" where
  "kmap_addr rng s = (let no = (rng - kmap_ranges s) div 24 in KMAP_BEGIN + push_bit PAGE_SHIFT no)"

function kmap_order_from :: "nat \<Rightarrow> u64 \<Rightarrow> nat" where
  "kmap_order_from order pages =
     (if push_bit order 1 < pages \<and> order < KMAP_ORDERS then kmap_order_from (order + 1) pages else order)"
  by pat_completeness auto
termination
  by (relation "measure (\<lambda>(order, pages). KMAP_ORDERS - order)") auto

declare kmap_order_from.simps [simp del]

definition kmap_order :: "u64 \<Rightarrow> nat" where
  "kmap_order pages = kmap_order_from 0 pages"

partial_function (option) kmap_find_from :: "addr \<Rightarrow> addr \<Rightarrow> u64 \<Rightarrow> 'a vm_scheme \<Rightarrow> addr option" where
  "kmap_find_from head ptr pages s =
     (if ptr \<noteq> head then
        if pages \<le> kmap_pages s ptr then Some ptr else kmap_find_from head (lh_next (ll s) ptr) pages s
      else Some NULL)"

definition kmap_find_free :: "nat \<Rightarrow> u64 \<Rightarrow> 'a vm_scheme \<Rightarrow> addr option" where
  "kmap_find_free order pages s =
     (let head = kmap_head order s in kmap_find_from head (lh_next (ll s) head) pages s)"

definition kmap_merge_prev :: "addr \<Rightarrow> u64 \<Rightarrow> 'a vm_scheme \<Rightarrow> addr \<times> u64 \<times> 'a vm_scheme" where
  "kmap_merge_prev rng pages s =
     (if kmap_ranges s < rng then
        let prev = kmap_nth rng (- kmap_pages s (kmap_nth rng (- 1))) in
        if \<not> list_empty prev (ll s)
        then (prev, pages + kmap_pages s prev, s\<lparr>ll := list_del prev (ll s)\<rparr>)
        else (rng, pages, s)
      else (rng, pages, s))"

definition kmap_merge_next :: "addr \<Rightarrow> u64 \<Rightarrow> 'a vm_scheme \<Rightarrow> u64 \<times> 'a vm_scheme" where
  "kmap_merge_next rng pages s =
     (if kmap_nth rng pages < kmap_nth (kmap_ranges s) KMAP_PAGES then
        let nxt = kmap_nth rng pages in
        if \<not> list_empty nxt (ll s)
        then (pages + kmap_pages s nxt, s\<lparr>ll := list_del nxt (ll s)\<rparr>)
        else (pages, s)
      else (pages, s))"

definition kmap_free_range :: "addr \<Rightarrow> u64 \<Rightarrow> 'a vm_scheme \<Rightarrow> 'a vm_scheme" where
  "kmap_free_range rng pages s =
     (let (rng, pages, s) = kmap_merge_prev rng pages s;
          (pages, s) = kmap_merge_next rng pages s;
          s = s\<lparr>kmap_pages := (kmap_pages s)(rng := pages)\<rparr>;
          s = s\<lparr>kmap_pages := (kmap_pages s)(kmap_nth rng (pages - 1) := pages)\<rparr>
      in s\<lparr>ll := list_add rng (kmap_head (kmap_order (pages + 1) - 1) s) (ll s)\<rparr>)"

fun kmap_find_orders :: "nat list \<Rightarrow> u64 \<Rightarrow> 'a vm_scheme \<Rightarrow> addr option" where
  "kmap_find_orders [] pages s = Some NULL"
| "kmap_find_orders (order # os) pages s =
     Option.bind (kmap_find_free order pages s) (\<lambda>rng.
       if rng \<noteq> NULL then Some rng else kmap_find_orders os pages s)"

definition kmap_alloc_range :: "u64 \<Rightarrow> 'a vm_scheme \<Rightarrow> (addr \<times> 'a vm_scheme) res option" where
  "kmap_alloc_range pages s =
     (let start = kmap_order pages in
      Option.bind (kmap_find_orders [start..<KMAP_ORDERS] pages s) (\<lambda>rng.
      bindO (if rng = NULL \<and> pages < push_bit start 1 then
               if start = 0 then Some (Inl (Fault ''kmap_free_ranges[-1]''))
               else map_option Inr (kmap_find_free (start - 1) pages s)
             else Some (Inr rng)) (\<lambda>rng.
      if rng = NULL then Some (Inr (NULL, s))
      else
        let range_pages = kmap_pages s rng;
            s = s\<lparr>ll := list_del rng (ll s)\<rparr>;
            s = s\<lparr>ll := list_init rng (ll s)\<rparr>;
            s = s\<lparr>kmap_pages := (kmap_pages s)(rng := pages)\<rparr>;
            s = s\<lparr>kmap_pages := (kmap_pages s)(kmap_nth rng (pages - 1) := pages)\<rparr>;
            s = (if pages < range_pages then kmap_free_range (kmap_nth rng pages) (range_pages - pages) s else s)
        in Some (Inr (rng, s)))))"

section \<open>Mapping pages into the window\<close>

fun kmap_loop :: "addr \<Rightarrow> addr \<Rightarrow> addr list \<Rightarrow> 'a vm_scheme \<Rightarrow> 'a vm_scheme res option" where
  "kmap_loop pte a [] s = Some (Inr s)"
| "kmap_loop pte a (page # pages) s =
     bindO (page_addr page s) (\<lambda>phys.
     bindO (pt_map_pages pte a (a + PAGE_SIZE) phys PTE_WRITE None s) (\<lambda>s.
     kmap_loop pte (a + PAGE_SIZE) pages (flush_tlb_addr a s)))"

text \<open>The array and its length are a list.\<close>

definition raw_kmap :: "addr list \<Rightarrow> 'a vm_scheme \<Rightarrow> (addr \<times> 'a vm_scheme) res option" where
  "raw_kmap pages s =
     (if length pages = 0 then Some (Inr (NULL, s))
      else if length pages = 1 then bindO (page_addr (pages ! 0) s) (\<lambda>a. Some (Inr (va a, s)))
      else
        bindO (kmap_alloc_range (of_nat (length pages)) s) (\<lambda>(rng, s).
        if rng = NULL then Some (Inr (NULL, s))
        else
          let pml4 = read_cr3 s;
              pte = va pml4;
              from = kmap_addr rng s
          in bindO (kmap_loop pte from pages s) (\<lambda>s. Some (Inr (kmap_addr rng s, s)))))"

text \<open>The walk to the entry of level 1, from a copy of \<open>cr3\<close> as the entry above level 4.\<close>

primrec pte_walk :: "nat \<Rightarrow> u64 \<Rightarrow> addr \<Rightarrow> u64 \<Rightarrow> 'a vm_scheme \<Rightarrow> addr res" where
  "pte_walk 0 a pte v s = Inr pte"
| "pte_walk (Suc l) a pte v s =
     bindR (pml_offs a (Suc l)) (\<lambda>index.
       let next_table = v AND PTE_PHYS_MASK;
           pte = va next_table + 8 * of_nat index
       in pte_walk l a pte (ptm s pte) s)"

partial_function (option) kunmap_loop :: "u64 \<Rightarrow> addr \<Rightarrow> addr \<Rightarrow> 'a vm_scheme \<Rightarrow> 'a vm_scheme res option" where
  "kunmap_loop pml4 a to s =
     (if a \<noteq> to then
        bindO (Some (pte_walk 4 a NULL pml4 s)) (\<lambda>pte.
        kunmap_loop pml4 (a + PAGE_SIZE) to (flush_tlb_addr a (set_pte pte 0 s)))
      else Some (Inr s))"

definition raw_kunmap :: "addr \<Rightarrow> 'a vm_scheme \<Rightarrow> 'a vm_scheme res option" where
  "raw_kunmap ptr s =
     (if ptr < KMAP_BEGIN \<or> KMAP_END \<le> ptr then Some (Inr s)
      else
        let pml4 = read_cr3 s;
            rng = addr_kmap ptr s;
            count = kmap_pages s rng;
            from = ptr;
            to = from + count * PAGE_SIZE
        in bindO (kunmap_loop pml4 from to s) (\<lambda>s.
           Some (Inr (kmap_free_range rng (kmap_pages s rng) s))))"

definition kmap_setup_get_page :: "'a vm_scheme \<Rightarrow> (u64 \<times> 'a vm_scheme) res option" where
  "kmap_setup_get_page s =
     bindO (page_alloc 0 s) (\<lambda>(a, s).
       let pte = va a in
       if a = 0 then Some (Inl (Bug ''!addr'')) else Some (Inr (a, clear_table pte s)))"

definition kmap :: "addr list \<Rightarrow> 'a vm_scheme \<Rightarrow> (addr \<times> 'a vm_scheme) res option" where
  "kmap pages s =
     (let (enable, s) = spin_lock_irqsave s in
      bindO (raw_kmap pages s) (\<lambda>(ptr, s). Some (Inr (ptr, spin_unlock_irqrestore enable s))))"

definition kunmap :: "addr \<Rightarrow> 'a vm_scheme \<Rightarrow> 'a vm_scheme res option" where
  "kunmap ptr s =
     (let (enable, s) = spin_lock_irqsave s in
      bindO (raw_kunmap ptr s) (\<lambda>s. Some (Inr (spin_unlock_irqrestore enable s))))"

definition kmap_setup_pool :: "'a vm_scheme page_pool" where
  "kmap_setup_pool = \<lparr>get_page = kmap_setup_get_page, put_page = \<lambda>_ _. Some (Inl (Fault ''put_page''))\<rparr>"

definition kmap_setup :: "'a vm_scheme \<Rightarrow> 'a vm_scheme res option" where
  "kmap_setup s =
     (let pml4 = read_cr3 s; pte = va pml4 in
      bindO (pt_populate_pages pte KMAP_BEGIN KMAP_END (Some kmap_setup_pool) s) (\<lambda>s.
      bindO (mem_alloc (24 * KMAP_PAGES) s) (\<lambda>(ranges, s).
      let s = s\<lparr>kmap_ranges := ranges\<rparr> in
      if ranges = NULL then Some (Inl (Bug ''!kmap_ranges''))
      else
        let s = spin_setup s;
            s = fold (\<lambda>i s. s\<lparr>ll := list_init (kmap_head i s) (ll s)\<rparr>) [0..<KMAP_ORDERS] s
        in Some (Inr (kmap_free_range (kmap_ranges s) KMAP_PAGES s)))))"

section \<open>The start of the memory managers\<close>

text \<open>The part of \<^verbatim>\<open>main\<close> from \<^verbatim>\<open>balloc_setup\<close> to \<^verbatim>\<open>kmap_setup\<close>; the bounds of the initial file system are kept.\<close>

definition memory_setup :: "bstatics \<Rightarrow> addr \<Rightarrow> mem \<Rightarrow> 'a vm_scheme \<Rightarrow> ((u64 \<times> u64) \<times> 'a vm_scheme) res option" where
  "memory_setup bc bootstrap_info m s =
     bindO (balloc_setup bc bootstrap_info m (boot s)) (\<lambda>(ramfs, b).
     bindO (paging_setup bc (s\<lparr>boot := b\<rparr>)) (\<lambda>s.
     bindO (page_alloc_setup bc s) (\<lambda>s.
     bindO (mem_alloc_setup s) (\<lambda>s.
     bindO (kmap_setup s) (\<lambda>s. Some (Inr (ramfs, s)))))))"

end
