(* ===== verification/PageTable.thy ===== *)
theory PageTable
  imports Paging BallocRel
begin

text \<open>
  Page tables as the processor reads them. A table of level \<open>l\<close> at the physical page \<open>p\<close> is a tree of
  512 entries; \<open>leaf\<close> walks it as the translation does and returns the level and the value of the entry
  where the walk ends. The tables of a well-formed tree are different pages.
\<close>

section \<open>Levels and words\<close>

definition esz :: "nat \<Rightarrow> nat" where
  "esz l = 2 ^ (3 + 9 * l)"

lemma esz_simps: "esz 1 = 4096" "esz (Suc 0) = 4096" "esz 2 = 2 ^ 21" "esz 3 = 2 ^ 30" "esz 4 = 2 ^ 39"
  by (simp_all add: esz_def)

lemma esz_pos [simp]: "0 < esz l"
  by (simp add: esz_def)

lemma esz_Suc: "esz (Suc l) = 512 * esz l"
  by (simp add: esz_def power_add)

lemma esz_less: "l \<le> 4 \<Longrightarrow> esz l \<le> 2 ^ 39"
  unfolding esz_def by (intro power_increasing) auto

lemma esz_page: "1 \<le> l \<Longrightarrow> 4096 dvd esz l"
  using le_imp_power_dvd [of 12 "3 + 9 * l" "2 :: nat"] by (simp add: esz_def)

definition idx :: "nat \<Rightarrow> u64 \<Rightarrow> nat" where
  "idx l v = unat v div esz l mod 512"

lemma idx_less [simp]: "idx l v < 512"
  by (simp add: idx_def)

lemma level_cases: "1 \<le> l \<Longrightarrow> l \<le> 4 \<Longrightarrow> l = 1 \<or> l = 2 \<or> l = 3 \<or> l = (4 :: nat)"
  by linarith

lemma and_mask_9: "unat (w AND 0x1ff :: u64) = unat w mod 512"
proof -
  have "w AND 0x1ff = take_bit 9 w" by (simp add: take_bit_eq_mask mask_eq_exp_minus_1)
  then have "unat (w AND 0x1ff) = take_bit 9 (unat w)" by (simp only: unsigned_take_bit_eq)
  then show ?thesis by (simp add: take_bit_eq_mod)
qed

lemma pml_offs_idx: "1 \<le> l \<Longrightarrow> l \<le> 4 \<Longrightarrow> pml_offs a l = Inr (idx l a)"
  using level_cases [of l]
  by (auto simp: pml_offs_def pml_shift_def idx_def and_mask_9 unat_drop_bit_div esz_def)

lemma pml_size_esz: "1 \<le> l \<Longrightarrow> l \<le> 4 \<Longrightarrow> pml_size l = Inr (of_nat (esz l))"
  using level_cases [of l] by (auto simp: pml_size_def pml_shift_def esz_def push_bit_eq_mult)

text \<open>The words of a table.\<close>

definition page_ok :: "u64 \<Rightarrow> bool" where
  "page_ok p \<longleftrightarrow> 4096 dvd unat p"

definition word_of_table :: "u64 \<Rightarrow> nat \<Rightarrow> addr" where
  "word_of_table p i = va p + 8 * of_nat i"

lemma unat_page_word:
  assumes "page_ok p" "i < 512"
  shows "unat (p + 8 * of_nat i) = unat p + 8 * i"
proof -
  obtain x where x: "unat p = 4096 * x" using assms(1) by (auto simp: page_ok_def elim: dvdE)
  have "4096 * x < 2 ^ 64" using unat64_less [of p] x by simp
  then have "x < 2 ^ 52" by simp
  then have lt: "unat p + 8 * i < 2 ^ 64" using assms(2) x by simp
  have "(8 * of_nat i :: u64) = of_nat (8 * i)" by simp
  then have "unat (8 * of_nat i :: u64) = 8 * i" using assms(2) unat_of_nat64 [of "8 * i"] by (simp only:) simp
  then show ?thesis using lt by (subst unat_add_no_wrap) simp_all
qed

lemma word_of_table_inj:
  assumes "page_ok p" "page_ok q" "i < 512" "j < 512"
  shows "word_of_table p i = word_of_table q j \<longleftrightarrow> p = q \<and> i = j"
proof
  assume "word_of_table p i = word_of_table q j"
  then have "p + 8 * of_nat i = q + 8 * of_nat j" by (simp add: word_of_table_def va_def)
  then have e: "unat p + 8 * i = unat q + 8 * j" using unat_page_word assms by metis
  obtain x y where xy: "unat p = 4096 * x" "unat q = 4096 * y" using assms(1,2) by (auto simp: page_ok_def elim!: dvdE)
  have c: "512 * x + i = 512 * y + j" using e xy by linarith
  have "(512 * x + i) div 512 = x" "(512 * y + j) div 512 = y" "(512 * x + i) mod 512 = i" "(512 * y + j) mod 512 = j"
    using assms(3,4) by simp_all
  then have "x = y" "i = j" unfolding c by simp_all
  then show "p = q \<and> i = j" using xy by (simp add: word_unat_eq_iff)
qed simp

section \<open>The tree of tables\<close>

text \<open>An entry that leads to a table; the large bit has this meaning on levels 2 and 3.\<close>

definition is_dir :: "nat \<Rightarrow> u64 \<Rightarrow> bool" where
  "is_dir l e \<longleftrightarrow> 2 \<le> l \<and> e AND PTE_PRESENT \<noteq> 0 \<and> (l \<le> 3 \<longrightarrow> e AND PTE_LARGE = 0)"

definition entry :: "(addr \<Rightarrow> u64) \<Rightarrow> u64 \<Rightarrow> nat \<Rightarrow> u64" where
  "entry h p i = h (word_of_table p i)"

definition child :: "(addr \<Rightarrow> u64) \<Rightarrow> u64 \<Rightarrow> nat \<Rightarrow> u64" where
  "child h p i = entry h p i AND PTE_PHYS_MASK"

primrec leaf :: "(addr \<Rightarrow> u64) \<Rightarrow> nat \<Rightarrow> u64 \<Rightarrow> u64 \<Rightarrow> nat \<times> u64" where
  "leaf h 0 p v = (0, 0)"
| "leaf h (Suc l) p v =
     (let i = idx (Suc l) v in
      if is_dir (Suc l) (entry h p i) then leaf h l (child h p i) v else (Suc l, entry h p i))"

primrec tables :: "(addr \<Rightarrow> u64) \<Rightarrow> nat \<Rightarrow> u64 \<Rightarrow> u64 set" where
  "tables h 0 p = {}"
| "tables h (Suc l) p =
     insert p (\<Union>i\<in>{i. i < 512 \<and> is_dir (Suc l) (entry h p i)}. tables h l (child h p i))"

primrec tables_ok :: "(addr \<Rightarrow> u64) \<Rightarrow> nat \<Rightarrow> u64 \<Rightarrow> bool" where
  "tables_ok h 0 p = True"
| "tables_ok h (Suc l) p \<longleftrightarrow> page_ok p \<and>
     (\<forall>i<512. is_dir (Suc l) (entry h p i) \<longrightarrow>
        tables_ok h l (child h p i) \<and> p \<notin> tables h l (child h p i) \<and>
        (\<forall>j<512. j \<noteq> i \<longrightarrow> is_dir (Suc l) (entry h p j) \<longrightarrow>
           tables h l (child h p i) \<inter> tables h l (child h p j) = {}))"

lemma tables_okD:
  assumes "tables_ok h (Suc l) p"
  shows "page_ok p" "i < 512 \<Longrightarrow> is_dir (Suc l) (entry h p i) \<Longrightarrow> tables_ok h l (child h p i)"
    "i < 512 \<Longrightarrow> is_dir (Suc l) (entry h p i) \<Longrightarrow> p \<notin> tables h l (child h p i)"
    "i < 512 \<Longrightarrow> is_dir (Suc l) (entry h p i) \<Longrightarrow> j < 512 \<Longrightarrow> j \<noteq> i \<Longrightarrow> is_dir (Suc l) (entry h p j) \<Longrightarrow>
       tables h l (child h p i) \<inter> tables h l (child h p j) = {}"
  using assms unfolding tables_ok.simps by blast+

lemma tables_child: "i < 512 \<Longrightarrow> is_dir (Suc l) (entry h p i) \<Longrightarrow> tables h l (child h p i) \<subseteq> tables h (Suc l) p"
  by auto

definition same_table :: "(addr \<Rightarrow> u64) \<Rightarrow> (addr \<Rightarrow> u64) \<Rightarrow> u64 \<Rightarrow> bool" where
  "same_table h h' p \<longleftrightarrow> (\<forall>i<512. entry h' p i = entry h p i)"

lemma tables_frame:
  "\<forall>q\<in>tables h l p. same_table h h' q \<Longrightarrow>
   tables h' l p = tables h l p \<and> tables_ok h' l p = tables_ok h l p \<and> leaf h' l p v = leaf h l p v"
proof (induction l arbitrary: p)
  case (Suc l)
  have e: "entry h' p i = entry h p i" "child h' p i = child h p i" if "i < 512" for i
    using Suc.prems that by (auto simp: same_table_def child_def)
  have sub: "tables h' l (child h p i) = tables h l (child h p i) \<and> tables_ok h' l (child h p i) = tables_ok h l (child h p i) \<and>
      leaf h' l (child h p i) v = leaf h l (child h p i) v"
    if "i < 512" "is_dir (Suc l) (entry h p i)" for i
    using Suc.IH [of "child h p i"] Suc.prems that by auto
  have "tables h' (Suc l) p = tables h (Suc l) p" using e sub by (auto cong: conj_cong)
  moreover have "tables_ok h' (Suc l) p = tables_ok h (Suc l) p" using e sub by (auto cong: conj_cong)
  moreover have "leaf h' (Suc l) p v = leaf h (Suc l) p v"
    using e [of "idx (Suc l) v"] sub [of "idx (Suc l) v"] by (simp add: Let_def)
  ultimately show ?case by blast
qed simp

lemma leaf_level: "1 \<le> l \<Longrightarrow> 1 \<le> fst (leaf h l p v) \<and> fst (leaf h l p v) \<le> l"
proof (induction l arbitrary: p)
  case (Suc l)
  show ?case
  proof (cases "is_dir (Suc l) (entry h p (idx (Suc l) v))")
    case True
    then have "1 \<le> l" by (simp add: is_dir_def)
    then show ?thesis using Suc.IH [of "child h p (idx (Suc l) v)"] True by (simp add: Let_def)
  qed (simp add: Let_def)
qed simp

lemma mask_page_ok: "page_ok (w AND PTE_PHYS_MASK)"
proof -
  have m: "(PTE_PHYS_MASK :: u64) = push_bit 12 (mask 40)" by (simp add: mask_eq_exp_minus_1 push_bit_eq_mult)
  have "w AND PTE_PHYS_MASK = push_bit 12 (drop_bit 12 w AND mask 40)"
    unfolding m by (rule bit_word_eqI) (auto simp: bit_simps)
  then have "w AND PTE_PHYS_MASK = push_bit 12 (drop_bit 12 (push_bit 12 (drop_bit 12 w AND mask 40)))"
    by (simp only:) (rule bit_word_eqI, auto simp: bit_simps)
  from arg_cong [OF this, of unat] have "unat (w AND PTE_PHYS_MASK) = unat (push_bit 12 (drop_bit 12 w AND mask 40 :: u64)) div 2 ^ 12 * 2 ^ 12"
    unfolding unat_push_drop .
  then show ?thesis unfolding page_ok_def by simp
qed

text \<open>Changing the entry \<open>i\<close> of a table, and what is below it.\<close>

lemma table_update:
  assumes ok: "tables_ok h (Suc l) p" and i: "i < 512"
    and same0: "\<forall>j<512. j \<noteq> i \<longrightarrow> entry h' p j = entry h p j"
    and others0: "\<forall>j<512. j \<noteq> i \<longrightarrow> is_dir (Suc l) (entry h p j) \<longrightarrow> (\<forall>q\<in>tables h l (child h p j). same_table h h' q)"
    and new0: "is_dir (Suc l) (entry h' p i) \<longrightarrow> tables_ok h' l (child h' p i) \<and> p \<notin> tables h' l (child h' p i) \<and>
      (\<forall>j<512. j \<noteq> i \<longrightarrow> is_dir (Suc l) (entry h p j) \<longrightarrow> tables h' l (child h' p i) \<inter> tables h l (child h p j) = {})"
  shows "tables_ok h' (Suc l) p"
    "tables h' (Suc l) p \<subseteq> tables h (Suc l) p \<union> (if is_dir (Suc l) (entry h' p i) then tables h' l (child h' p i) else {})"
    "idx (Suc l) v \<noteq> i \<Longrightarrow> leaf h' (Suc l) p v = leaf h (Suc l) p v"
proof -
  have same: "\<And>j. j < 512 \<Longrightarrow> j \<noteq> i \<Longrightarrow> entry h' p j = entry h p j" using same0 by blast
  have others: "\<And>j q. j < 512 \<Longrightarrow> j \<noteq> i \<Longrightarrow> is_dir (Suc l) (entry h p j) \<Longrightarrow> q \<in> tables h l (child h p j) \<Longrightarrow> same_table h h' q"
    using others0 by blast
  note new = new0 [rule_format]
  have c: "child h' p j = child h p j" if "j < 512" "j \<noteq> i" for j using same that by (simp add: child_def)
  have fr: "tables h' l (child h p j) = tables h l (child h p j) \<and> tables_ok h' l (child h p j) = tables_ok h l (child h p j) \<and>
      leaf h' l (child h p j) v = leaf h l (child h p j) v"
    if "j < 512" "j \<noteq> i" "is_dir (Suc l) (entry h p j)" for j
    using tables_frame [of h l "child h p j" h' v] others that by blast
  show "tables h' (Suc l) p \<subseteq> tables h (Suc l) p \<union> (if is_dir (Suc l) (entry h' p i) then tables h' l (child h' p i) else {})"
  proof
    fix q
    assume q: "q \<in> tables h' (Suc l) p"
    then consider "q = p" | j where "j < 512" "is_dir (Suc l) (entry h' p j)" "q \<in> tables h' l (child h' p j)"
      by auto
    then show "q \<in> tables h (Suc l) p \<union> (if is_dir (Suc l) (entry h' p i) then tables h' l (child h' p i) else {})"
    proof cases
      case 2
      then show ?thesis using same [of j] c [of j] fr [of j] by (cases "j = i") auto
    qed simp
  qed
  show "leaf h' (Suc l) p v = leaf h (Suc l) p v" if "idx (Suc l) v \<noteq> i"
    using same [of "idx (Suc l) v"] c [of "idx (Suc l) v"] fr [of "idx (Suc l) v"] that by (simp add: Let_def)
  have "tables_ok h' l (child h' p j) \<and> p \<notin> tables h' l (child h' p j) \<and>
      (\<forall>k<512. k \<noteq> j \<longrightarrow> is_dir (Suc l) (entry h' p k) \<longrightarrow> tables h' l (child h' p j) \<inter> tables h' l (child h' p k) = {})"
    if j: "j < 512" "is_dir (Suc l) (entry h' p j)" for j
  proof (cases "j = i")
    case True
    then show ?thesis using new j same c fr by auto
  next
    case False
    have d: "is_dir (Suc l) (entry h p j)" using same [of j] j False by simp
    have "tables h' l (child h' p j) \<inter> tables h' l (child h' p k) = {}"
      if k: "k < 512" "k \<noteq> j" "is_dir (Suc l) (entry h' p k)" for k
    proof (cases "k = i")
      case True
      then show ?thesis using new k j False d c [of j] fr [of j] by auto
    next
      case kF: False
      then have "is_dir (Suc l) (entry h p k)" using same [of k] k by simp
      then show ?thesis using ok k j d fr [of j] fr [of k] c [of j] c [of k] False kF by simp
    qed
    then show ?thesis using ok d j c [of j] fr [of j] False by simp
  qed
  then show "tables_ok h' (Suc l) p" using ok by simp
qed

section \<open>Address arithmetic\<close>

lemma of_nat_align_down: "(of_nat n :: u64) AND NOT (mask k) = of_nat (n div 2 ^ k * 2 ^ k)"
proof -
  have "(of_nat (n div 2 ^ k * 2 ^ k) :: u64) = of_nat (push_bit k (drop_bit k n))"
    by (simp add: push_bit_eq_mult drop_bit_eq_div)
  also have "\<dots> = push_bit k (of_nat (drop_bit k n))" by (rule push_bit_of_nat [symmetric])
  finally have e: "(of_nat (n div 2 ^ k * 2 ^ k) :: u64) = push_bit k (of_nat (drop_bit k n))" .
  show ?thesis
    unfolding e by (rule bit_word_eqI) (auto simp: bit_simps not_less)
qed

lemma esz_word: "l \<le> 4 \<Longrightarrow> (of_nat (esz l) :: u64) - 1 = mask (3 + 9 * l)"
  by (simp add: esz_def mask_eq_exp_minus_1)

lemma and_esz_0: "l \<le> 4 \<Longrightarrow> n < 2 ^ 64 \<Longrightarrow> (of_nat n :: u64) AND (of_nat (esz l) - 1) = 0 \<longleftrightarrow> esz l dvd n"
proof -
  assume l: "l \<le> 4" and n: "n < 2 ^ 64"
  have "(of_nat n :: u64) AND (of_nat (esz l) - 1) = take_bit (3 + 9 * l) (of_nat n)"
    by (simp only: esz_word [OF l] take_bit_eq_mask)
  moreover have "unat (take_bit (3 + 9 * l) (of_nat n :: u64)) = n mod esz l"
  proof -
    have "unat (take_bit (3 + 9 * l) (of_nat n :: u64)) = take_bit (3 + 9 * l) (unat (of_nat n :: u64))"
      by (rule unsigned_take_bit_eq)
    then show ?thesis unfolding unat_of_nat64 [OF n] by (simp add: take_bit_eq_mod esz_def)
  qed
  ultimately show ?thesis by (metis mod_eq_0_iff_dvd unat_0 unat_eq_zero)
qed

lemma esz_dvd_top: "l \<le> 4 \<Longrightarrow> esz l dvd 2 ^ 64"
  unfolding esz_def by (rule le_imp_power_dvd) simp

lemma entry_end_le: "l \<le> 4 \<Longrightarrow> b < 2 ^ 64 \<Longrightarrow> (b div esz l + 1) * esz l \<le> 2 ^ 64"
proof -
  assume l: "l \<le> 4" and b: "b < 2 ^ 64"
  obtain t where t: "2 ^ 64 = esz l * t" using esz_dvd_top [OF l] unfolding dvd_def by blast
  have "b < t * esz l" using b t by (simp add: mult.commute)
  then have "b div esz l < t" by (simp add: div_less_iff_less_mult)
  then have "(b div esz l + 1) * esz l \<le> t * esz l" by (intro mult_le_mono1) simp
  then show ?thesis using t by (simp add: mult.commute)
qed

definition entry_last :: "nat \<Rightarrow> nat \<Rightarrow> nat" where
  "entry_last l b = (b div esz l + 1) * esz l - 1"

lemma entry_last_facts:
  "b \<le> entry_last l b" "entry_last l b div esz l = b div esz l" "Suc (entry_last l b) = (b div esz l + 1) * esz l"
  "l \<le> 4 \<Longrightarrow> b < 2 ^ 64 \<Longrightarrow> entry_last l b < 2 ^ 64" "v div esz l = b div esz l \<Longrightarrow> v \<le> entry_last l b"
  "entry_last l b - b + 1 = esz l - b mod esz l"
proof -
  have E: "0 < (b div esz l + 1) * esz l" by simp
  show s: "Suc (entry_last l b) = (b div esz l + 1) * esz l" unfolding entry_last_def using E by linarith
  have lt: "v < (v div esz l + 1) * esz l" for v
    using div_mult_mod_eq [of v "esz l"] mod_less_divisor [OF esz_pos, of v l] unfolding distrib_right by linarith
  show "b \<le> entry_last l b" using s lt [of b] by linarith
  show "v \<le> entry_last l b" if "v div esz l = b div esz l" using s lt [of v] that by simp
  have "entry_last l b = b div esz l * esz l + (esz l - 1)" using esz_pos [of l] unfolding entry_last_def distrib_right by linarith
  moreover have "(b div esz l * esz l + (esz l - 1)) div esz l = b div esz l + (esz l - 1) div esz l"
    by (simp only: div_mult_self3 [of "esz l"] neq0_conv esz_pos)
  ultimately show "entry_last l b div esz l = b div esz l" by simp
  show "entry_last l b < 2 ^ 64" if "l \<le> 4" "b < 2 ^ 64" using entry_end_le [OF that] s by linarith
  show "entry_last l b - b + 1 = esz l - b mod esz l"
    using s div_mult_mod_eq [of b "esz l"] mod_less_divisor [OF esz_pos, of b l] unfolding distrib_right by linarith
qed

lemma idx_of_nat: "b < 2 ^ 64 \<Longrightarrow> idx l (of_nat b) = b div esz l mod 512"
  by (simp add: idx_def unat_of_nat64)

lemma region_split: "n div esz (Suc l) = n div esz l div 512"
  by (simp add: esz_Suc div_mult2_eq mult.commute)

lemma same_entry:
  "v div esz (Suc l) = b div esz (Suc l) \<Longrightarrow> v div esz l mod 512 = b div esz l mod 512 \<longleftrightarrow> v div esz l = b div esz l"
  unfolding region_split by (metis div_mod_decomp)

end
