(* ===== verification/PageMap.thy ===== *)
theory PageMap
  imports PageTable
begin

text \<open>
  What \<^verbatim>\<open>__pt_map_pages\<close> does to a well-formed tree of tables: every address of the range gets an entry
  for its page, no other address changes its translation, and only tables from the pool are added. The
  pools of the code are instances of the interface below.
\<close>

section \<open>One round of the loop\<close>

lemma large_absorb: "(x OR fl) OR (fl AND m) = x OR (fl :: u64)"
  by (rule bit_word_eqI) (auto simp: bit_simps)

definition big_entry :: "nat \<Rightarrow> u64 \<Rightarrow> bool" where
  "big_entry l fl \<longleftrightarrow> l = 1 \<or> (l = 2 \<or> l = 3) \<and> fl AND PTE_LARGE \<noteq> 0"

text \<open>Whether an entry is filled with a page, when it is not in use.\<close>

definition fills :: "nat \<Rightarrow> u64 \<Rightarrow> nat \<Rightarrow> nat \<Rightarrow> nat \<Rightarrow> bool" where
  "fills l fl b d P \<longleftrightarrow> big_entry l fl \<and> d - b + 1 = esz l \<and> esz l dvd b \<and> esz l dvd P"

definition pte_large_of :: "nat \<Rightarrow> u64 \<Rightarrow> u64" where
  "pte_large_of l fl = (if l = 3 \<or> l = 2 then fl AND PTE_LARGE else 0)"

lemma map_entry_eq:
  assumes l: "1 \<le> l" "l \<le> 4" and b: "b \<le> f" "f < 2 ^ 64" and P: "P + (f - b) < 2 ^ 52"
  defines "d \<equiv> min f (entry_last l b)"
  shows "map_entry down pool l (of_nat (esz l)) (va p) (of_nat f) fl (pte_large_of l fl) i (of_nat b, of_nat P, s) =
    (let e = entry (ptm s) p i in
     if e AND PTE_PRESENT = 0 \<and> fills l fl b d P
     then Some (Inr (of_nat (Suc d), of_nat (P + (Suc d - b)), set_pte (word_of_table p i) (of_nat P OR fl) s))
     else
       bindO (if e AND PTE_PRESENT = 0 then
                if l = 1 then Some (Inl (Bug ''lvl == 1''))
                else bindO (pool_get_page pool s) (\<lambda>(page, s).
                  if page = 0 then Some (Inl (Bug ''!page''))
                  else Some (Inr (page OR 7, set_pte (word_of_table p i) (page OR 7) s)))
              else Some (Inr (e, s))) (\<lambda>(pte, s).
       if l = 1 then Some (Inl (Bug ''lvl == 1''))
       else bindO (down (va (pte AND PTE_PHYS_MASK)) (of_nat b) (of_nat d) (of_nat P) s) (\<lambda>s.
         Some (Inr (of_nat (Suc d), of_nat (P + (Suc d - b)), s)))))"
proof -
  note ef = entry_last_facts [where b = b and l = l]
  have b64: "b < 2 ^ 64" using b by simp
  have el: "entry_last l b < 2 ^ 64" using ef(4) l(2) b64 by blast
  have d: "d \<le> f" "b \<le> d" "d < 2 ^ 64" using ef(1) b by (auto simp: d_def)
  have E: "esz l \<le> 2 ^ 39" using esz_less l(2) by blast
  have end_word: "((of_nat b + of_nat (esz l)) AND NOT (of_nat (esz l) - 1)) - 1 = (of_nat (entry_last l b) :: u64)"
  proof -
    have "(of_nat b + of_nat (esz l) :: u64) = of_nat (b + esz l)" by simp
    moreover have "(b + esz l) div 2 ^ (3 + 9 * l) * 2 ^ (3 + 9 * l) = Suc (entry_last l b)"
      using esz_pos [of l] unfolding ef(3) esz_def [symmetric] by (simp add: div_add_self2)
    ultimately have "(of_nat b + of_nat (esz l)) AND NOT (of_nat (esz l) - 1) = (of_nat (Suc (entry_last l b)) :: u64)"
      unfolding esz_word [OF l(2)] by (simp only: of_nat_align_down)
    then show ?thesis by simp
  qed
  have map_end: "(if (of_nat (entry_last l b) :: u64) < of_nat f then of_nat (entry_last l b) else of_nat f) = (of_nat d :: u64)"
    using of_nat64_less [OF el b(2)] by (simp add: d_def min_def)
  have tomap: "(of_nat d - of_nat b + 1 :: u64) = of_nat (Suc d - b)"
    using d(2) by (simp add: of_nat_diff Suc_diff_le)
  have small: "Suc d - b \<le> esz l" using ef(1,6) d(2) unfolding d_def by linarith
  have tomap_sz: "(of_nat (Suc d - b) :: u64) = of_nat (esz l) \<longleftrightarrow> d - b + 1 = esz l"
  proof -
    have "Suc d - b < 2 ^ 64" "esz l < 2 ^ 64" using small E by simp_all
    then have "(of_nat (Suc d - b) :: u64) = of_nat (esz l) \<longleftrightarrow> Suc d - b = esz l" by (rule of_nat64_eq)
    moreover have "Suc d - b = d - b + 1" using d(2) by simp
    ultimately show ?thesis by metis
  qed
  have al: "(of_nat b :: u64) AND (of_nat (esz l) - 1) = 0 \<longleftrightarrow> esz l dvd b"
      "(of_nat P :: u64) AND (of_nat (esz l) - 1) = 0 \<longleftrightarrow> esz l dvd P"
    using and_esz_0 [OF l(2) b64] and_esz_0 [OF l(2), of P] P by auto
  have b': "(of_nat b + of_nat (Suc d - b) :: u64) = of_nat (Suc d)" "(of_nat P + of_nat (Suc d - b) :: u64) = of_nat (P + (Suc d - b))"
    using d(2) by (simp_all add: of_nat_diff Suc_diff_le)
  have big: "(l \<noteq> 4 \<and> (pte_large_of l fl \<noteq> 0 \<or> l = 1)) \<longleftrightarrow> big_entry l fl"
    using l by (auto simp: pte_large_of_def big_entry_def)
  have fl: "of_nat P OR fl OR pte_large_of l fl = of_nat P OR fl"
    by (simp add: pte_large_of_def large_absorb or.assoc [symmetric])
  have fills: "l \<noteq> 4 \<and> d - b + 1 = esz l \<and> (esz l dvd b \<and> esz l dvd P) \<and> (pte_large_of l fl \<noteq> 0 \<or> l = 1) \<longleftrightarrow> fills l fl b d P"
    using big by (auto simp: fills_def)
  have ent: "ptm s (va p + 8 * of_nat i) = entry (ptm s) p i" by (simp add: entry_def word_of_table_def)
  have 7: "x OR (1 OR 2 OR 4) = x OR (7 :: u64)" for x by simp
  show ?thesis
    unfolding map_entry_def prod.case Let_def end_word map_end tomap tomap_sz al b' fills fl ent 7
    by (simp only: word_of_table_def [symmetric] bindO_assoc)
qed

section \<open>What a mapping is\<close>

text \<open>The entry \<open>(k, e)\<close> found for the address \<open>v\<close> of a range that starts at \<open>b\<close> and is mapped to \<open>P\<close>.\<close>

definition mapped_as :: "u64 \<Rightarrow> nat \<Rightarrow> nat \<Rightarrow> nat \<Rightarrow> nat \<times> u64 \<Rightarrow> bool" where
  "mapped_as fl P b v = (\<lambda>(k, e).
     big_entry k fl \<and> v mod esz k \<le> P + (v - b) \<and> esz k dvd P + (v - b) - v mod esz k \<and>
     e = of_nat (P + (v - b) - v mod esz k) OR fl)"

definition not_present :: "nat \<times> u64 \<Rightarrow> bool" where
  "not_present = (\<lambda>(k, e). e AND PTE_PRESENT = 0)"

text \<open>An address outside the range may get tables, but no page.\<close>

definition kept :: "nat \<times> u64 \<Rightarrow> nat \<times> u64 \<Rightarrow> bool" where
  "kept x y \<longleftrightarrow> y = x \<or> 1 < fst x \<and> not_present x \<and> not_present y"

definition range_mapped ::
    "u64 \<Rightarrow> nat \<Rightarrow> nat \<Rightarrow> nat \<Rightarrow> nat \<Rightarrow> u64 \<Rightarrow> (addr \<Rightarrow> u64) \<Rightarrow> (addr \<Rightarrow> u64) \<Rightarrow> bool" where
  "range_mapped fl P b f l p h h' \<longleftrightarrow>
     (\<forall>v. unat v div esz (Suc l) = b div esz (Suc l) \<longrightarrow>
        (if b \<le> unat v \<and> unat v \<le> f then mapped_as fl P b (unat v) (leaf h' l p v)
         else kept (leaf h l p v) (leaf h' l p v)))"

text \<open>A region of level \<open>k\<close> that the range does not meet gets no tables below level \<open>k\<close>.\<close>

definition shape_kept :: "nat \<Rightarrow> nat \<Rightarrow> nat \<Rightarrow> u64 \<Rightarrow> (addr \<Rightarrow> u64) \<Rightarrow> (addr \<Rightarrow> u64) \<Rightarrow> bool" where
  "shape_kept b f l p h h' \<longleftrightarrow>
     (\<forall>v k. unat v div esz (Suc l) = b div esz (Suc l) \<longrightarrow> unat v div esz k < b div esz k \<or> f div esz k < unat v div esz k \<longrightarrow>
        leaf h' l p v = leaf h l p v \<or> k \<le> fst (leaf h' l p v))"

text \<open>A page of the range, however large, lies in the range.\<close>

definition pages_within :: "nat \<Rightarrow> nat \<Rightarrow> nat \<Rightarrow> u64 \<Rightarrow> (addr \<Rightarrow> u64) \<Rightarrow> bool" where
  "pages_within b f l p h' \<longleftrightarrow>
     (\<forall>v. b \<le> unat v \<longrightarrow> unat v \<le> f \<longrightarrow>
        (let k = fst (leaf h' l p v) in b \<le> unat v div esz k * esz k \<and> unat v div esz k * esz k + esz k \<le> Suc f))"

lemma region_up: "v div esz k = b div esz k \<Longrightarrow> k \<le> m \<Longrightarrow> v div esz m = b div esz m"
proof (induction m)
  case (Suc m)
  then show ?case by (cases "k \<le> m") (auto simp: region_split le_Suc_eq)
qed simp

definition unmapped :: "(addr \<Rightarrow> u64) \<Rightarrow> nat \<Rightarrow> u64 \<Rightarrow> nat \<Rightarrow> nat \<Rightarrow> bool" where
  "unmapped h l p b f \<longleftrightarrow> (\<forall>v. b \<le> unat v \<longrightarrow> unat v \<le> f \<longrightarrow> not_present (leaf h l p v))"

text \<open>All addresses of the range have tables of level 1.\<close>

definition populated :: "(addr \<Rightarrow> u64) \<Rightarrow> nat \<Rightarrow> u64 \<Rightarrow> nat \<Rightarrow> nat \<Rightarrow> bool" where
  "populated h l p b f \<longleftrightarrow> (\<forall>v. b \<le> unat v \<longrightarrow> unat v \<le> f \<longrightarrow> fst (leaf h l p v) = 1)"

text \<open>There are no tables of the levels 1 and 2 yet.\<close>

definition sparse :: "(addr \<Rightarrow> u64) \<Rightarrow> nat \<Rightarrow> u64 \<Rightarrow> nat \<Rightarrow> nat \<Rightarrow> bool" where
  "sparse h l p b f \<longleftrightarrow> (\<forall>v. b \<le> unat v \<longrightarrow> unat v \<le> f \<longrightarrow> min l 3 \<le> fst (leaf h l p v))"

text \<open>How many tables a mapping takes from the pool when none of the range are there.\<close>

function new_tables :: "u64 \<Rightarrow> nat \<Rightarrow> nat \<Rightarrow> nat \<Rightarrow> nat \<Rightarrow> nat" where
  "new_tables fl l b f P =
     (if l \<le> 1 \<or> f < b then 0
      else let d = min f (entry_last l b) in
        (if fills l fl b d P then 0 else 1 + new_tables fl (l - 1) b d P) + new_tables fl l (Suc d) f (P + (Suc d - b)))"
  by pat_completeness auto
termination
proof (relation "measures [\<lambda>(fl, l, b, f, P). l, \<lambda>(fl, l, b, f, P). Suc f - b]")
  fix fl :: u64 and l b f P d :: nat
  assume a: "\<not> (l \<le> 1 \<or> f < b)" and d: "d = min f (entry_last l b)"
  then have "b \<le> d" using entry_last_facts(1) [of b l] by simp
  then show "((fl, l, Suc d, f, P + (Suc d - b)), fl, l, b, f, P)
      \<in> measures [\<lambda>(fl, l, b, f, P). l, \<lambda>(fl, l, b, f, P). Suc f - b]"
    using a by auto
qed auto

declare new_tables.simps [simp del]

definition tables_cost :: "(addr \<Rightarrow> u64) \<Rightarrow> nat \<Rightarrow> u64 \<Rightarrow> nat \<Rightarrow> nat \<Rightarrow> nat \<Rightarrow> nat" where
  "tables_cost h l p b f m = (if populated h l p b f then 0 else m)"

section \<open>Pools of tables\<close>

text \<open>
  \<open>pinv s U n\<close>: the pool in the state \<open>s\<close> gives at least \<open>n\<close> more pages, all different from the pages \<open>U\<close>.
  A page from the pool is cleared and nothing else is written to page tables.
\<close>

definition cleared :: "u64 \<Rightarrow> (addr \<Rightarrow> u64) \<Rightarrow> addr \<Rightarrow> u64" where
  "cleared q h = (\<lambda>a. if a \<in> word_of_table q ` {..<512} then 0 else h a)"

locale table_pool =
  fixes pool :: "'a vm_scheme page_pool option"
    and pinv :: "'a vm_scheme \<Rightarrow> u64 set \<Rightarrow> nat \<Rightarrow> bool"
  assumes get: "pinv s U (Suc n) \<Longrightarrow> \<exists>q s'. pool_get_page pool s = Some (Inr (q, s')) \<and> q \<notin> U \<and> q \<noteq> 0 \<and>
      q AND PTE_PHYS_MASK = q \<and> ptm s' = cleared q (ptm s) \<and> pinv s' (insert q U) n"
    and set_entry: "pinv s U n \<Longrightarrow> pinv (set_pte a v s) U n"
    and fewer: "pinv s U n \<Longrightarrow> m \<le> n \<Longrightarrow> pinv s U m"

definition map_result ::
    "('a vm_scheme \<Rightarrow> u64 set \<Rightarrow> nat \<Rightarrow> bool) \<Rightarrow> u64 \<Rightarrow> nat \<Rightarrow> nat \<Rightarrow> nat \<Rightarrow> nat \<Rightarrow> u64 \<Rightarrow> u64 set \<Rightarrow>
     'a vm_scheme \<Rightarrow> u64 set \<Rightarrow> nat \<Rightarrow> 'a vm_scheme \<Rightarrow> bool" where
  "map_result pinv fl P b f l p U s U' n' s' \<longleftrightarrow>
     U \<subseteq> U' \<and> (\<forall>q\<in>U'. page_ok q) \<and> pinv s' U' n' \<and> tables_ok (ptm s') l p \<and>
     tables (ptm s') l p \<subseteq> tables (ptm s) l p \<union> (U' - U) \<and>
     (\<forall>q\<in>U. q \<notin> tables (ptm s) l p \<longrightarrow> same_table (ptm s) (ptm s') q) \<and>
     range_mapped fl P b f l p (ptm s) (ptm s') \<and> shape_kept b f l p (ptm s) (ptm s') \<and>
     pages_within b f l p (ptm s')"

section \<open>Joining two parts of a range\<close>

lemma same_table_trans: "same_table h h1 q \<Longrightarrow> same_table h1 h2 q \<Longrightarrow> same_table h h2 q"
  by (simp add: same_table_def)

lemma kept_trans: "kept x y \<Longrightarrow> kept y z \<Longrightarrow> kept x z"
  unfolding kept_def by auto

lemma kept_not_present: "kept x y \<Longrightarrow> not_present y = not_present x"
  unfolding kept_def by auto

lemma mapped_as_shift: "b \<le> c \<Longrightarrow> c \<le> v \<Longrightarrow> mapped_as fl (P + (c - b)) c v x = mapped_as fl P b v x"
  by (simp add: mapped_as_def)

text \<open>The flags are the low 12 bits; an entry for a large page is present.\<close>

definition flags_fit :: "u64 \<Rightarrow> bool" where
  "flags_fit fl \<longleftrightarrow> fl AND NOT 0xfff = 0 \<and> (fl AND PTE_LARGE \<noteq> 0 \<longrightarrow> fl AND PTE_PRESENT \<noteq> 0)"

lemma present_or: "fl AND PTE_PRESENT \<noteq> 0 \<Longrightarrow> (x OR fl) AND PTE_PRESENT \<noteq> (0 :: u64)"
proof -
  assume "fl AND PTE_PRESENT \<noteq> 0"
  then have "odd fl" by (simp add: and_one_eq odd_iff_mod_2_eq_one)
  then have "odd (x OR fl)" by (simp add: even_or_iff)
  then show ?thesis by (simp add: and_one_eq odd_iff_mod_2_eq_one)
qed

lemma mapped_kept: "flags_fit fl \<Longrightarrow> mapped_as fl P b v x \<Longrightarrow> kept x y \<Longrightarrow> y = x"
  unfolding kept_def
  by (cases x) (auto simp: mapped_as_def big_entry_def flags_fit_def not_present_def dest: present_or)

lemma map_result_join:
  assumes r1: "map_result pinv fl P b d l p U s U1 n1 s1" and r2: "map_result pinv fl (P + (Suc d - b)) (Suc d) f l p U1 s1 U2 n2 s2"
    and sub: "tables (ptm s) l p \<subseteq> U" and reg: "Suc d div esz (Suc l) = b div esz (Suc l)" and le: "b \<le> d" "d < f"
    and fl: "flags_fit fl"
  shows "map_result pinv fl P b f l p U s U2 n2 s2"
proof -
  have sub1: "tables (ptm s1) l p \<subseteq> U1" using r1 sub unfolding map_result_def by blast
  have "range_mapped fl P b f l p (ptm s) (ptm s2)"
    unfolding range_mapped_def
  proof (intro allI impI)
    fix v :: u64
    assume v: "unat v div esz (Suc l) = b div esz (Suc l)"
    have m1: "if b \<le> unat v \<and> unat v \<le> d then mapped_as fl P b (unat v) (leaf (ptm s1) l p v)
        else kept (leaf (ptm s) l p v) (leaf (ptm s1) l p v)"
      using r1 v unfolding map_result_def range_mapped_def by blast
    have m2: "if Suc d \<le> unat v \<and> unat v \<le> f then mapped_as fl (P + (Suc d - b)) (Suc d) (unat v) (leaf (ptm s2) l p v)
        else kept (leaf (ptm s1) l p v) (leaf (ptm s2) l p v)"
      using r2 v reg unfolding map_result_def range_mapped_def by auto
    consider "b \<le> unat v" "unat v \<le> d" | "d < unat v" "unat v \<le> f" | "unat v < b \<or> f < unat v"
      by linarith
    then show "if b \<le> unat v \<and> unat v \<le> f then mapped_as fl P b (unat v) (leaf (ptm s2) l p v)
        else kept (leaf (ptm s) l p v) (leaf (ptm s2) l p v)"
    proof cases
      case 1
      then have "mapped_as fl P b (unat v) (leaf (ptm s1) l p v)" "kept (leaf (ptm s1) l p v) (leaf (ptm s2) l p v)"
        using m1 m2 le by auto
      then have "mapped_as fl P b (unat v) (leaf (ptm s2) l p v)" using mapped_kept [OF fl] by metis
      moreover have "b \<le> unat v \<and> unat v \<le> f" using 1 le by linarith
      ultimately show ?thesis by simp
    next
      case 2
      then show ?thesis
        using m2 le mapped_as_shift [of b "Suc d" "unat v"] by simp
    next
      case 3
      then show ?thesis using m1 m2 le by (auto intro: kept_trans)
    qed
  qed
  moreover have "same_table (ptm s) (ptm s2) q" if "q \<in> U" "q \<notin> tables (ptm s) l p" for q
  proof -
    have "q \<notin> tables (ptm s1) l p" using r1 that unfolding map_result_def by blast
    then show ?thesis using r1 r2 that same_table_trans unfolding map_result_def by blast
  qed
  moreover have "tables (ptm s2) l p \<subseteq> tables (ptm s) l p \<union> (U2 - U)"
    using r1 r2 unfolding map_result_def by blast
  moreover have "pages_within b f l p (ptm s2)"
    unfolding pages_within_def
  proof (intro allI impI)
    fix v :: u64
    assume v: "b \<le> unat v" "unat v \<le> f"
    let ?in = "\<lambda>b f h. let k = fst (leaf h l p v) in b \<le> unat v div esz k * esz k \<and> unat v div esz k * esz k + esz k \<le> Suc f"
    show "?in b f (ptm s2)"
    proof (cases "unat v \<le> d")
      case True
      have "b div esz (Suc l) \<le> unat v div esz (Suc l)" "unat v div esz (Suc l) \<le> Suc d div esz (Suc l)"
        using v(1) True by (auto intro: div_le_mono)
      then have rv: "unat v div esz (Suc l) = b div esz (Suc l)" using reg by simp
      then have "mapped_as fl P b (unat v) (leaf (ptm s1) l p v)"
        using r1 v(1) True unfolding map_result_def range_mapped_def by auto
      moreover have "kept (leaf (ptm s1) l p v) (leaf (ptm s2) l p v)"
        using r2 True rv reg unfolding map_result_def range_mapped_def by auto
      ultimately have "leaf (ptm s2) l p v = leaf (ptm s1) l p v" using mapped_kept [OF fl] by blast
      moreover have "?in b d (ptm s1)" using r1 v(1) True unfolding map_result_def pages_within_def by blast
      ultimately show ?thesis using le by (simp add: Let_def)
    next
      case False
      then have "?in (Suc d) f (ptm s2)" using r2 v(2) unfolding map_result_def pages_within_def by simp
      then show ?thesis using le by (simp add: Let_def)
    qed
  qed
  moreover have "shape_kept b f l p (ptm s) (ptm s2)"
    unfolding shape_kept_def
  proof (intro allI impI)
    fix v :: u64 and k
    assume v: "unat v div esz (Suc l) = b div esz (Suc l)" "unat v div esz k < b div esz k \<or> f div esz k < unat v div esz k"
    have "b div esz k \<le> Suc d div esz k" "d div esz k \<le> f div esz k" using le by (auto intro: div_le_mono)
    then have "unat v div esz k < b div esz k \<or> d div esz k < unat v div esz k"
        "unat v div esz k < Suc d div esz k \<or> f div esz k < unat v div esz k" using v(2) by linarith+
    then have "leaf (ptm s1) l p v = leaf (ptm s) l p v \<or> k \<le> fst (leaf (ptm s1) l p v)"
        "leaf (ptm s2) l p v = leaf (ptm s1) l p v \<or> k \<le> fst (leaf (ptm s2) l p v)"
      using r1 r2 v(1) reg unfolding map_result_def shape_kept_def by auto
    then show "leaf (ptm s2) l p v = leaf (ptm s) l p v \<or> k \<le> fst (leaf (ptm s2) l p v)" by auto
  qed
  ultimately show ?thesis using r1 r2 unfolding map_result_def by blast
qed

section \<open>From an entry to its table\<close>

lemma map_result_up:
  assumes ok: "tables_ok (ptm s) (Suc l) p" and sub: "tables (ptm s) (Suc l) p \<subseteq> U"
    and i: "i = b div esz (Suc l) mod 512" and U2: "U \<subseteq> U2"
    and ent: "\<And>j. j < 512 \<Longrightarrow> j \<noteq> i \<Longrightarrow> entry (ptm s2) p j = entry (ptm s) p j"
    and same: "\<And>q. q \<in> U \<Longrightarrow> q \<noteq> p \<Longrightarrow> same_table (ptm s) (ptm s2) q"
    and dir: "is_dir (Suc l) (entry (ptm s2) p i)" and c: "child (ptm s2) p i = c"
    and sep: "p \<notin> tables (ptm s2) l c" "tables (ptm s2) l c \<subseteq> tables (ptm s) (Suc l) p \<union> (U2 - U)"
      "\<And>j. j < 512 \<Longrightarrow> j \<noteq> i \<Longrightarrow> is_dir (Suc l) (entry (ptm s) p j) \<Longrightarrow> tables (ptm s2) l c \<inter> tables (ptm s) l (child (ptm s) p j) = {}"
    and leaf: "\<And>v. idx (Suc l) v = i \<Longrightarrow> kept (leaf (ptm s) (Suc l) p v) (leaf (ptm s2) l c v)"
    and deep: "\<And>v. idx (Suc l) v = i \<Longrightarrow> leaf (ptm s2) l c v = leaf (ptm s) (Suc l) p v \<or> l \<le> fst (leaf (ptm s2) l c v)"
    and r: "map_result pinv fl P b d l c U2 s2 U' n' s'"
    and bd: "b div esz (Suc l) = d div esz (Suc l)"
  shows "map_result pinv fl P b d (Suc l) p U s U' n' s'"
    "\<forall>v. idx (Suc l) v \<noteq> i \<longrightarrow> leaf (ptm s') (Suc l) p v = leaf (ptm s) (Suc l) p v"
proof -
  let ?h = "ptm s" and ?h2 = "ptm s2" and ?h' = "ptm s'"
  have r': "U2 \<subseteq> U'" "\<forall>q\<in>U'. page_ok q" "pinv s' U' n'" "tables_ok ?h' l c" "tables ?h' l c \<subseteq> tables ?h2 l c \<union> (U' - U2)"
      "\<forall>q\<in>U2. q \<notin> tables ?h2 l c \<longrightarrow> same_table ?h2 ?h' q" "range_mapped fl P b d l c ?h2 ?h'" "shape_kept b d l c ?h2 ?h'"
      "pages_within b d l c ?h'"
    using r unfolding map_result_def by blast+
  have i512: "i < 512" by (simp add: i)
  have p: "p \<in> U" "p \<in> U2" using sub U2 by auto
  have ep: "entry ?h' p j = entry ?h2 p j" if "j < 512" for j
    using r'(6) p(2) sep(1) that by (auto simp: same_table_def)
  have ci: "child ?h' p i = c" "is_dir (Suc l) (entry ?h' p i)" using ep [OF i512] c dir by (simp_all add: child_def)
  have kid: "tables ?h l (child ?h p j) \<subseteq> U" "p \<notin> tables ?h l (child ?h p j)"
    if "j < 512" "is_dir (Suc l) (entry ?h p j)" for j
  proof -
    have "tables ?h l (child ?h p j) \<subseteq> tables ?h (Suc l) p" using that by auto
    then show "tables ?h l (child ?h p j) \<subseteq> U" using sub by (rule subset_trans)
    show "p \<notin> tables ?h l (child ?h p j)" using tables_okD(3) [OF ok that] .
  qed
  have others: "same_table ?h ?h' q"
    if "j < 512" "j \<noteq> i" "is_dir (Suc l) (entry ?h p j)" "q \<in> tables ?h l (child ?h p j)" for j q
  proof -
    have "q \<in> U" "q \<noteq> p" using kid that by auto
    moreover have "q \<notin> tables ?h2 l c" using sep(3) that by blast
    ultimately show ?thesis using same r'(6) U2 same_table_trans by blast
  qed
  have new: "tables_ok ?h' l c \<and> p \<notin> tables ?h' l c \<and>
      (\<forall>j<512. j \<noteq> i \<longrightarrow> is_dir (Suc l) (entry ?h p j) \<longrightarrow> tables ?h' l c \<inter> tables ?h l (child ?h p j) = {})"
  proof (intro conjI allI impI)
    show "tables_ok ?h' l c" by (rule r'(4))
    show "p \<notin> tables ?h' l c" using r'(5) sep(1) p by blast
    show "tables ?h' l c \<inter> tables ?h l (child ?h p j) = {}" if "j < 512" "j \<noteq> i" "is_dir (Suc l) (entry ?h p j)" for j
      using r'(5) sep(3) [OF that] kid(1) [OF that(1,3)] U2 by blast
  qed
  have e': "\<And>j. j < 512 \<Longrightarrow> j \<noteq> i \<Longrightarrow> entry ?h' p j = entry ?h p j" using ep ent by simp
  have "\<forall>j<512. j \<noteq> i \<longrightarrow> entry ?h' p j = entry ?h p j"
    "\<forall>j<512. j \<noteq> i \<longrightarrow> is_dir (Suc l) (entry ?h p j) \<longrightarrow> (\<forall>q\<in>tables ?h l (child ?h p j). same_table ?h ?h' q)"
    "is_dir (Suc l) (entry ?h' p i) \<longrightarrow> tables_ok ?h' l (child ?h' p i) \<and> p \<notin> tables ?h' l (child ?h' p i) \<and>
      (\<forall>j<512. j \<noteq> i \<longrightarrow> is_dir (Suc l) (entry ?h p j) \<longrightarrow> tables ?h' l (child ?h' p i) \<inter> tables ?h l (child ?h p j) = {})"
    using e' others new unfolding ci(1) by simp_all
  note up = table_update [OF ok i512 this]
  have ok': "tables_ok ?h' (Suc l) p" by (rule up(1))
  have "tables ?h' (Suc l) p \<subseteq> tables ?h (Suc l) p \<union> tables ?h' l c" using up(2) unfolding ci(1) by (simp only: ci(2) if_True)
  then have sub': "tables ?h' (Suc l) p \<subseteq> tables ?h (Suc l) p \<union> (U' - U)" using r'(1,5) sep(2) U2 by blast
  have frame: "same_table ?h ?h' q" if "q \<in> U" "q \<notin> tables ?h (Suc l) p" for q
  proof -
    have "q \<noteq> p" "q \<notin> tables ?h2 l c" using that sep(2) by auto
    then show ?thesis using same r'(6) that(1) U2 same_table_trans by blast
  qed
  have "range_mapped fl P b d (Suc l) p ?h ?h'"
    unfolding range_mapped_def
  proof (intro allI impI)
    fix v :: u64
    assume v: "unat v div esz (Suc (Suc l)) = b div esz (Suc (Suc l))"
    show "if b \<le> unat v \<and> unat v \<le> d then mapped_as fl P b (unat v) (leaf ?h' (Suc l) p v)
        else kept (leaf ?h (Suc l) p v) (leaf ?h' (Suc l) p v)"
    proof (cases "idx (Suc l) v = i")
      case True
      then have "unat v div esz (Suc l) = b div esz (Suc l)" using same_entry [OF v] by (simp add: idx_def i)
      then have "if b \<le> unat v \<and> unat v \<le> d then mapped_as fl P b (unat v) (leaf ?h' l c v)
          else kept (leaf ?h2 l c v) (leaf ?h' l c v)"
        using r'(7) unfolding range_mapped_def by blast
      moreover have "leaf ?h' (Suc l) p v = leaf ?h' l c v" using True ci by (simp add: Let_def)
      ultimately show ?thesis using leaf [OF True] by (auto intro: kept_trans)
    next
      case False
      then have "\<not> (b \<le> unat v \<and> unat v \<le> d)"
        using bd div_le_mono [of b "unat v" "esz (Suc l)"] div_le_mono [of "unat v" d "esz (Suc l)"] by (auto simp: idx_def i)
      moreover have "leaf ?h' (Suc l) p v = leaf ?h (Suc l) p v" by (rule up(3) [OF False])
      ultimately show ?thesis by (simp only: if_False kept_def simp_thms)
    qed
  qed
  moreover have "shape_kept b d (Suc l) p ?h ?h'"
    unfolding shape_kept_def
  proof (intro allI impI)
    fix v :: u64 and k
    assume v: "unat v div esz (Suc (Suc l)) = b div esz (Suc (Suc l))" "unat v div esz k < b div esz k \<or> d div esz k < unat v div esz k"
    show "leaf ?h' (Suc l) p v = leaf ?h (Suc l) p v \<or> k \<le> fst (leaf ?h' (Suc l) p v)"
    proof (cases "idx (Suc l) v = i")
      case True
      then have e: "unat v div esz (Suc l) = b div esz (Suc l)" using same_entry [OF v(1)] by (simp add: idx_def i)
      have "\<not> Suc l \<le> k"
        using v(2) region_up [OF e] region_up [OF bd [symmetric]] by auto
      then have k: "k \<le> l" by simp
      have "leaf ?h' (Suc l) p v = leaf ?h' l c v" using True ci by (simp add: Let_def)
      moreover have "leaf ?h' l c v = leaf ?h2 l c v \<or> k \<le> fst (leaf ?h' l c v)"
        using r'(8) e v(2) unfolding shape_kept_def by blast
      ultimately show ?thesis using deep [OF True] k by auto
    next
      case False
      then show ?thesis using up(3) by blast
    qed
  qed
  moreover have "pages_within b d (Suc l) p ?h'"
    unfolding pages_within_def
  proof (intro allI impI)
    fix v :: u64
    assume v: "b \<le> unat v" "unat v \<le> d"
    have "idx (Suc l) v = i"
      using bd div_le_mono [OF v(1), of "esz (Suc l)"] div_le_mono [OF v(2), of "esz (Suc l)"] by (simp add: idx_def i)
    then have "leaf ?h' (Suc l) p v = leaf ?h' l c v" using ci by (simp add: Let_def)
    then show "let k = fst (leaf ?h' (Suc l) p v) in b \<le> unat v div esz k * esz k \<and> unat v div esz k * esz k + esz k \<le> Suc d"
      using r'(9) v unfolding pages_within_def by simp
  qed
  ultimately show "map_result pinv fl P b d (Suc l) p U s U' n' s'"
    unfolding map_result_def using r'(1-3) U2 ok' sub' frame by blast
  show "\<forall>v. idx (Suc l) v \<noteq> i \<longrightarrow> leaf ?h' (Suc l) p v = leaf ?h (Suc l) p v" using up(3) by blast
qed

lemma same_table_set:
  "page_ok p \<Longrightarrow> page_ok q \<Longrightarrow> i < 512 \<Longrightarrow> q \<noteq> p \<Longrightarrow> same_table h (h(word_of_table p i := e)) q"
  using word_of_table_inj by (fastforce simp: same_table_def entry_def)

lemma entry_set:
  "page_ok p \<Longrightarrow> i < 512 \<Longrightarrow> j < 512 \<Longrightarrow> entry (h(word_of_table p i := e)) p j = (if j = i then e else entry h p j)"
  using word_of_table_inj [of p p j i] by (simp add: entry_def)

lemma same_table_cleared: "page_ok q \<Longrightarrow> page_ok p \<Longrightarrow> p \<noteq> q \<Longrightarrow> same_table h (cleared q h) p"
  using word_of_table_inj [of p q] by (fastforce simp: same_table_def entry_def cleared_def)

lemma entry_cleared: "j < 512 \<Longrightarrow> entry (cleared q h) q j = 0"
  by (auto simp: entry_def cleared_def)

text \<open>An empty table.\<close>

lemma empty_table:
  assumes "page_ok q" "\<And>j. j < 512 \<Longrightarrow> entry h q j = 0" "1 \<le> l"
  shows "tables h l q = {q}" "tables_ok h l q" "leaf h l q v = (l, 0)"
proof -
  obtain k where l: "l = Suc k" using assms(3) by (cases l) auto
  have "\<not> is_dir k 0" for k by (simp add: is_dir_def)
  then show "tables h l q = {q}" "tables_ok h l q" "leaf h l q v = (l, 0)"
    using assms(1,2) by (auto simp: l Let_def)
qed

lemma dir_entry:
  assumes "q AND PTE_PHYS_MASK = q" "2 \<le> l"
  shows "is_dir l (q OR 7)" "(q OR 7) AND PTE_PHYS_MASK = q"
proof -
  have b: "bit q n \<Longrightarrow> bit (PTE_PHYS_MASK :: u64) n" for n using assms(1) by (metis bit_and_iff)
  have "\<not> bit (PTE_PHYS_MASK :: u64) 0" "\<not> bit (PTE_PHYS_MASK :: u64) 7" by (simp_all add: bit_numeral_rec)
  then have q: "\<not> bit q 0" "\<not> bit q 7" using b by blast+
  have "(q OR 7) AND PTE_LARGE = 0"
  proof (rule bit_word_eqI)
    fix n
    have m: "(PTE_LARGE :: u64) = push_bit 7 1" by (simp add: push_bit_eq_mult)
    have "bit (PTE_LARGE :: u64) n \<longleftrightarrow> n = 7"
      unfolding m by (simp only: bit_push_bit_iff bit_1_iff possible_bit_word) auto
    then show "bit ((q OR 7) AND PTE_LARGE) n \<longleftrightarrow> bit (0 :: u64) n"
      using q(2) by (auto simp: bit_simps bit_numeral_rec)
  qed
  moreover have "(q OR 7) AND PTE_PRESENT \<noteq> 0" by (rule present_or) simp
  ultimately show "is_dir l (q OR 7)" using assms(2) by (simp add: is_dir_def)
  have "(7 :: u64) AND PTE_PHYS_MASK = 0" by simp
  then show "(q OR 7) AND PTE_PHYS_MASK = q" using assms(1) by (simp add: bit.conj_disj_distrib2)
qed

section \<open>The levels\<close>

definition map_pre ::
    "('a vm_scheme \<Rightarrow> u64 set \<Rightarrow> nat \<Rightarrow> bool) \<Rightarrow> u64 \<Rightarrow> nat \<Rightarrow> u64 \<Rightarrow> nat \<Rightarrow> nat \<Rightarrow> nat \<Rightarrow> nat \<Rightarrow> u64 set \<Rightarrow> nat \<Rightarrow> 'a vm_scheme \<Rightarrow> bool" where
  "map_pre pinv fl l p b f P m U n s \<longleftrightarrow>
     flags_fit fl \<and> tables_ok (ptm s) l p \<and> tables (ptm s) l p \<subseteq> U \<and> (\<forall>q\<in>U. page_ok q) \<and> pinv s U n \<and>
     b \<le> f \<and> f < 2 ^ 64 \<and> 4096 dvd b \<and> 4096 dvd Suc f \<and> 4096 dvd P \<and> P + (f - b) < 2 ^ 52 \<and>
     unmapped (ptm s) l p b f \<and> (populated (ptm s) l p b f \<or> sparse (ptm s) l p b f \<and> m \<le> n)"

lemma map_preD:
  assumes "map_pre pinv fl l p b f P m U n s"
  shows "flags_fit fl" "tables_ok (ptm s) l p" "tables (ptm s) l p \<subseteq> U" "\<forall>q\<in>U. page_ok q" "pinv s U n" "b \<le> f" "f < 2 ^ 64"
    "4096 dvd b" "4096 dvd Suc f" "4096 dvd P" "P + (f - b) < 2 ^ 52" "unmapped (ptm s) l p b f"
    "populated (ptm s) l p b f \<or> sparse (ptm s) l p b f \<and> m \<le> n"
  using assms unfolding map_pre_def by blast+

definition entry_cost :: "u64 \<Rightarrow> nat \<Rightarrow> nat \<Rightarrow> nat \<Rightarrow> nat \<Rightarrow> nat" where
  "entry_cost fl l b d P = (if fills l fl b d P then 0 else 1 + new_tables fl (l - 1) b d P)"

lemma leaf_of_start: "b < 2 ^ 64 \<Longrightarrow> i = b div esz (Suc l) mod 512 \<Longrightarrow> \<not> is_dir (Suc l) (entry h p i) \<Longrightarrow>
  leaf h (Suc l) p (of_nat b) = (Suc l, entry h p i)"
  by (simp add: idx_of_nat Let_def)

lemma mapped_full:
  assumes fill: "fills k fl b d P" and v: "b \<le> v" "v \<le> d" and k: "b div esz k = d div esz k"
  shows "mapped_as fl P b v (k, of_nat P OR fl)"
proof -
  have "v div esz k = b div esz k" using div_le_mono [OF v(1), of "esz k"] div_le_mono [OF v(2), of "esz k"] k by simp
  then have "v - b = v mod esz k"
  proof -
    assume e: "v div esz k = b div esz k"
    have "b mod esz k = 0" using fill by (simp add: fills_def mod_eq_0_iff_dvd)
    then have "b = v div esz k * esz k" using div_mult_mod_eq [of b "esz k"] e by simp
    then show ?thesis using div_mult_mod_eq [of v "esz k"] by linarith
  qed
  then show ?thesis using fill by (simp add: mapped_as_def fills_def)
qed

lemma level1_fills:
  assumes "b \<le> d" "d = min f (entry_last 1 b)" "4096 dvd b" "4096 dvd Suc d" "4096 dvd P"
  shows "fills 1 fl b d P"
proof -
  have "4096 dvd Suc d - b" using assms(3,4) by (rule dvd_diff_nat [rotated])
  moreover have "Suc d - b \<le> 4096" using entry_last_facts(6) [of 1 b] assms(1,2) by (simp add: esz_simps)
  moreover have "0 < Suc d - b" using assms(1) by simp
  ultimately have "Suc d - b = 4096" using dvd_imp_le by (metis le_antisym)
  then show ?thesis using assms by (simp add: fills_def big_entry_def esz_simps)
qed

lemma cost_split:
  assumes "b \<le> d" "d \<le> f" "4096 dvd Suc d" "4096 dvd b" "4096 dvd P" "d = min f (entry_last l b)" and l: "1 \<le> l"
  shows "entry_cost fl l b d P + (if d = f then 0 else new_tables fl l (Suc d) f (P + (Suc d - b))) = new_tables fl l b f P"
proof (cases "l \<le> 1")
  case True
  then have "l = 1" using l by simp
  moreover have "new_tables fl 1 x y Q = 0" for x y Q by (subst new_tables.simps) simp
  ultimately show ?thesis using level1_fills [of b d f P fl] assms by (simp add: entry_cost_def)
next
  case False
  then have "new_tables fl l b f P = entry_cost fl l b d P + new_tables fl l (Suc d) f (P + (Suc d - b))"
    using assms(1,2,6) by (subst new_tables.simps) (simp add: Let_def entry_cost_def)
  moreover have "new_tables fl l (Suc f) f Q = 0" for Q by (subst new_tables.simps) simp
  ultimately show ?thesis by simp
qed

definition level_ok ::
    "'a vm_scheme page_pool option \<Rightarrow> ('a vm_scheme \<Rightarrow> u64 set \<Rightarrow> nat \<Rightarrow> bool) \<Rightarrow> u64 \<Rightarrow> nat \<Rightarrow> bool" where
  "level_ok pool pinv fl l \<longleftrightarrow>
     (\<forall>p b f P U n s. map_pre pinv fl l p b f P (new_tables fl l b f P) U n s \<longrightarrow> b div esz (Suc l) = f div esz (Suc l) \<longrightarrow>
        (\<exists>U' n' s'. raw_pt_map_pages l pool fl (va p) (of_nat b) (of_nat f) (of_nat P) s = Some (Inr s') \<and>
           map_result pinv fl P b f l p U s U' n' s' \<and> n \<le> n' + tables_cost (ptm s) l p b f (new_tables fl l b f P)))"

context table_pool begin

lemma fill_entry_ok:
  assumes pre: "map_pre pinv fl (Suc l) p b d P m U n s" and lv: "Suc l \<le> 4" and bd: "b div esz (Suc l) = d div esz (Suc l)"
    and i: "i = b div esz (Suc l) mod 512" and np: "entry (ptm s) p i AND PTE_PRESENT = 0" and fill: "fills (Suc l) fl b d P"
  shows "map_result pinv fl P b d (Suc l) p U s U n (set_pte (word_of_table p i) (of_nat P OR fl) s)"
    "\<forall>v. idx (Suc l) v \<noteq> i \<longrightarrow>
       leaf (ptm (set_pte (word_of_table p i) (of_nat P OR fl) s)) (Suc l) p v = leaf (ptm s) (Suc l) p v"
proof -
  note a = map_preD [OF pre]
  let ?h = "ptm s" and ?e = "of_nat P OR fl" and ?s' = "set_pte (word_of_table p i) (of_nat P OR fl) s"
  let ?h' = "ptm ?s'"
  have h': "?h' = ?h(word_of_table p i := ?e)" by (simp add: set_pte_def)
  have i512: "i < 512" by (simp add: i)
  have p: "page_ok p" "p \<in> U" using a(2,3) by auto
  have ent: "entry ?h' p j = (if j = i then ?e else entry ?h p j)" if "j < 512" for j
    unfolding h' by (rule entry_set [OF p(1) i512 that])
  have same: "same_table ?h ?h' q" if "q \<in> U" "q \<noteq> p" for q
    unfolding h' using a(4) that by (intro same_table_set [OF p(1) _ i512]) auto
  have nd: "\<not> is_dir (Suc l) ?e"
  proof
    assume d: "is_dir (Suc l) ?e"
    then have "Suc l \<noteq> 1" by (auto simp: is_dir_def)
    then have 3: "Suc l \<le> 3" and big: "fl AND PTE_LARGE \<noteq> 0" using fill by (auto simp: fills_def big_entry_def)
    have "?e AND PTE_LARGE = (of_nat P AND PTE_LARGE) OR (fl AND PTE_LARGE)" by (simp add: bit.conj_disj_distrib2)
    then have "?e AND PTE_LARGE \<noteq> 0" using big by (auto simp: or_eq_0_iff)
    then show False using d 3 by (simp add: is_dir_def)
  qed
  have kid: "q \<in> U \<and> q \<noteq> p" if "j < 512" "is_dir (Suc l) (entry ?h p j)" "q \<in> tables ?h l (child ?h p j)" for j q
    using tables_child [OF that(1,2)] tables_okD(3) [OF a(2) that(1,2)] that(3) a(3) by blast
  have "\<forall>j<512. j \<noteq> i \<longrightarrow> entry ?h' p j = entry ?h p j"
    "\<forall>j<512. j \<noteq> i \<longrightarrow> is_dir (Suc l) (entry ?h p j) \<longrightarrow> (\<forall>q\<in>tables ?h l (child ?h p j). same_table ?h ?h' q)"
    "is_dir (Suc l) (entry ?h' p i) \<longrightarrow> tables_ok ?h' l (child ?h' p i) \<and> p \<notin> tables ?h' l (child ?h' p i) \<and>
      (\<forall>j<512. j \<noteq> i \<longrightarrow> is_dir (Suc l) (entry ?h p j) \<longrightarrow> tables ?h' l (child ?h' p i) \<inter> tables ?h l (child ?h p j) = {})"
    using ent same kid i512 nd by simp_all
  note up = table_update [OF a(2) i512 this]
  have ei: "entry ?h' p i = ?e" using ent [OF i512] by simp
  have "range_mapped fl P b d (Suc l) p ?h ?h'"
    unfolding range_mapped_def
  proof (intro allI impI)
    fix v :: u64
    assume v: "unat v div esz (Suc (Suc l)) = b div esz (Suc (Suc l))"
    show "if b \<le> unat v \<and> unat v \<le> d then mapped_as fl P b (unat v) (leaf ?h' (Suc l) p v)
        else kept (leaf ?h (Suc l) p v) (leaf ?h' (Suc l) p v)"
    proof (cases "idx (Suc l) v = i")
      case True
      then have e: "unat v div esz (Suc l) = b div esz (Suc l)" using same_entry [OF v] by (simp add: idx_def i)
      have "leaf ?h' (Suc l) p v = (Suc l, ?e)" using True ei nd by (simp add: Let_def)
      moreover have "b \<le> unat v \<and> unat v \<le> d"
      proof -
        have b: "b = b div esz (Suc l) * esz (Suc l)" using fill by (simp add: fills_def)
        have "b div esz (Suc l) * esz (Suc l) \<le> unat v" using e by (metis div_times_less_eq_dividend)
        moreover have "unat v \<le> entry_last (Suc l) b" by (rule entry_last_facts(5) [OF e])
        moreover have "Suc (entry_last (Suc l) b) = b div esz (Suc l) * esz (Suc l) + esz (Suc l)"
          using entry_last_facts(3) [of "Suc l" b] by (simp add: distrib_right)
        moreover have "d - b + 1 = esz (Suc l)" using fill by (simp add: fills_def)
        ultimately show ?thesis using b a(6) by (intro conjI; linarith)
      qed
      ultimately show ?thesis using mapped_full [OF fill _ _ bd] by simp
    next
      case False
      then have "\<not> (b \<le> unat v \<and> unat v \<le> d)"
        using bd div_le_mono [of b "unat v" "esz (Suc l)"] div_le_mono [of "unat v" d "esz (Suc l)"] by (auto simp: idx_def i)
      moreover have "leaf ?h' (Suc l) p v = leaf ?h (Suc l) p v" by (rule up(3) [OF False])
      ultimately show ?thesis by (simp only: if_False kept_def simp_thms)
    qed
  qed
  moreover have "shape_kept b d (Suc l) p ?h ?h'"
    unfolding shape_kept_def
  proof (intro allI impI)
    fix v :: u64 and k
    assume v: "unat v div esz (Suc (Suc l)) = b div esz (Suc (Suc l))" "unat v div esz k < b div esz k \<or> d div esz k < unat v div esz k"
    show "leaf ?h' (Suc l) p v = leaf ?h (Suc l) p v \<or> k \<le> fst (leaf ?h' (Suc l) p v)"
    proof (cases "idx (Suc l) v = i")
      case True
      then have e: "unat v div esz (Suc l) = b div esz (Suc l)" using same_entry [OF v(1)] by (simp add: idx_def i)
      have "\<not> Suc (Suc l) \<le> k" using v(2) region_up [OF e] region_up [OF bd [symmetric]] by auto
      moreover have "leaf ?h' (Suc l) p v = (Suc l, ?e)" using True ei nd by (simp add: Let_def)
      ultimately show ?thesis by simp
    next
      case False
      then show ?thesis using up(3) by blast
    qed
  qed
  moreover have "pages_within b d (Suc l) p ?h'"
    unfolding pages_within_def
  proof (intro allI impI)
    fix v :: u64
    assume v: "b \<le> unat v" "unat v \<le> d"
    have e: "unat v div esz (Suc l) = b div esz (Suc l)"
      using bd div_le_mono [OF v(1), of "esz (Suc l)"] div_le_mono [OF v(2), of "esz (Suc l)"] by simp
    then have "leaf ?h' (Suc l) p v = (Suc l, ?e)" using ei nd by (simp add: Let_def idx_def i)
    moreover have "b div esz (Suc l) * esz (Suc l) = b" "d - b + 1 = esz (Suc l)" using fill by (auto simp: fills_def)
    ultimately show "let k = fst (leaf ?h' (Suc l) p v) in b \<le> unat v div esz k * esz k \<and> unat v div esz k * esz k + esz k \<le> Suc d"
      using a(6) e by (simp add: Let_def)
  qed
  moreover have "tables ?h' (Suc l) p \<subseteq> tables ?h (Suc l) p" using up(2) nd unfolding ei by simp
  moreover have "same_table ?h ?h' q" if "q \<in> U" "q \<notin> tables ?h (Suc l) p" for q using same that by auto
  ultimately show "map_result pinv fl P b d (Suc l) p U s U n ?s'"
    unfolding map_result_def using a(4) set_entry [OF a(5)] up(1) by blast
  show "\<forall>v. idx (Suc l) v \<noteq> i \<longrightarrow> leaf ?h' (Suc l) p v = leaf ?h (Suc l) p v" using up(3) by blast
qed

lemma entry_ok:
  assumes IH: "1 \<le> l \<Longrightarrow> level_ok pool pinv fl l" and lv: "Suc l \<le> 4"
    and pre: "map_pre pinv fl (Suc l) p b d P (entry_cost fl (Suc l) b d P) U n s"
    and f: "d = min f (entry_last (Suc l) b)" "f < 2 ^ 64" "P + (f - b) < 2 ^ 52"
    and i: "i = b div esz (Suc l) mod 512"
  shows "\<exists>U' n' s'. map_entry (raw_pt_map_pages l pool fl) pool (Suc l) (of_nat (esz (Suc l))) (va p) (of_nat f) fl
      (pte_large_of (Suc l) fl) i (of_nat b, of_nat P, s) = Some (Inr (of_nat (Suc d), of_nat (P + (Suc d - b)), s')) \<and>
    map_result pinv fl P b d (Suc l) p U s U' n' s' \<and>
    n \<le> n' + tables_cost (ptm s) (Suc l) p b d (entry_cost fl (Suc l) b d P) \<and>
    (\<forall>v. idx (Suc l) v \<noteq> i \<longrightarrow> leaf (ptm s') (Suc l) p v = leaf (ptm s) (Suc l) p v)"
proof -
  note a = map_preD [OF pre]
  let ?h = "ptm s" and ?E = "esz (Suc l)"
  let ?e = "entry ?h p i" and ?c = "child ?h p i"
  have bf: "b \<le> f" "d \<le> f" using a(6) f(1) by auto
  have b64: "b < 2 ^ 64" using bf f(2) by simp
  have bd: "b div ?E = d div ?E"
  proof -
    have "d \<le> entry_last (Suc l) b" using f(1) by simp
    then have "d div ?E \<le> b div ?E" using entry_last_facts(2) [of "Suc l" b] by (metis div_le_mono)
    then show ?thesis using div_le_mono [OF a(6), of ?E] by simp
  qed
  have i512: "i < 512" by (simp add: i)
  have inside: "idx (Suc l) v = i" if "b \<le> unat v" "unat v \<le> d" for v
    using div_le_mono [OF that(1), of ?E] div_le_mono [OF that(2), of ?E] bd by (simp add: idx_def i)
  have ub: "unat (of_nat b :: u64) = b" by (rule unat_of_nat64 [OF b64])
  have np: "?e AND PTE_PRESENT = 0" if "\<not> is_dir (Suc l) ?e"
  proof -
    have "not_present (leaf ?h (Suc l) p (of_nat b))" using a(6,12) ub unfolding unmapped_def by (metis order_refl)
    then show ?thesis unfolding leaf_of_start [OF b64 i that] by (simp add: not_present_def)
  qed
  have p: "page_ok p" "p \<in> U" using a(2,3) by auto
  note run = map_entry_eq [where l = "Suc l" and b = b and f = f and P = P, OF _ lv bf(1) f(2,3), folded f(1), of
      "raw_pt_map_pages l pool fl" pool p fl i s]
  show ?thesis
  proof (cases "is_dir (Suc l) ?e")
    case True
    then have l: "1 \<le> l" "?e AND PTE_PRESENT \<noteq> 0" by (auto simp: is_dir_def)
    have lf: "leaf ?h (Suc l) p v = leaf ?h l ?c v" if "idx (Suc l) v = i" for v using True that by (simp add: Let_def)
    have lf': "leaf ?h (Suc l) p v = leaf ?h l ?c v" if "b \<le> unat v" "unat v \<le> d" for v using lf inside that by blast
    have pop: "populated ?h l ?c b d = populated ?h (Suc l) p b d" "unmapped ?h l ?c b d = unmapped ?h (Suc l) p b d"
      unfolding populated_def unmapped_def using lf' by auto
    have sp: "sparse ?h l ?c b d" "entry_cost fl (Suc l) b d P = 1 + new_tables fl l b d P" if "sparse ?h (Suc l) p b d"
    proof -
      have "3 \<le> fst (leaf ?h l ?c (of_nat b)) \<or> Suc l < 3"
        using that a(6) ub lf' [of "of_nat b"] unfolding sparse_def by (metis leI min.commute min_def order_refl)
      moreover have "fst (leaf ?h l ?c (of_nat b)) \<le> l" using leaf_level l(1) by blast
      moreover have "Suc l \<le> fst (leaf ?h l ?c (of_nat b)) \<or> 3 \<le> Suc l"
        using that a(6) ub lf' [of "of_nat b"] unfolding sparse_def by (metis linorder_le_cases min_def order_refl)
      ultimately have 3: "3 \<le> l" by linarith
      show "sparse ?h l ?c b d" using that lf' 3 unfolding sparse_def by auto
      show "entry_cost fl (Suc l) b d P = 1 + new_tables fl l b d P" using 3 by (simp add: entry_cost_def fills_def big_entry_def)
    qed
    have cost: "populated ?h l ?c b d \<or> sparse ?h l ?c b d \<and> new_tables fl l b d P \<le> n"
      using a(13) sp pop(1) by auto
    have "tables ?h l ?c \<subseteq> U" using tables_child [OF i512 True] a(3) by blast
    then have "map_pre pinv fl l ?c b d P (new_tables fl l b d P) U n s"
      unfolding map_pre_def using a tables_okD(2) [OF a(2) i512 True] pop(2) cost by blast
    then obtain U' n' s' where r: "raw_pt_map_pages l pool fl (va ?c) (of_nat b) (of_nat d) (of_nat P) s = Some (Inr s')"
        "map_result pinv fl P b d l ?c U s U' n' s'" "n \<le> n' + tables_cost ?h l ?c b d (new_tables fl l b d P)"
      using IH [OF l(1)] bd unfolding level_ok_def by blast
    note up = map_result_up [OF a(2,3) i subset_refl _ _ True refl tables_okD(3) [OF a(2) i512 True] _ _ _ _ r(2) bd]
    have u: "map_result pinv fl P b d (Suc l) p U s U' n' s'"
        "\<forall>v. idx (Suc l) v \<noteq> i \<longrightarrow> leaf (ptm s') (Suc l) p v = leaf ?h (Suc l) p v"
      by (rule up; use tables_child [OF i512 True] tables_okD(4) [OF a(2) i512 True] lf in \<open>auto simp: same_table_def kept_def\<close>)+
    have "n \<le> n' + tables_cost ?h (Suc l) p b d (entry_cost fl (Suc l) b d P)"
      using r(3) a(13) sp unfolding tables_cost_def pop(1) by (auto split: if_splits)
    then show ?thesis using run l r(1) u by (simp add: Let_def child_def) blast
  next
    case False
    note np = np [OF False]
    show ?thesis
    proof (cases "fills (Suc l) fl b d P")
      case True
      have "tables_cost ?h (Suc l) p b d (entry_cost fl (Suc l) b d P) = 0" using True by (simp add: tables_cost_def entry_cost_def)
      then show ?thesis using run np True fill_entry_ok [OF pre lv bd i np True] by (simp add: Let_def) blast
    next
      case nofill: False
      have l: "1 \<le> l"
      proof (rule ccontr)
        assume "\<not> 1 \<le> l"
        then have l0: "Suc l = 1" by simp
        have "fills (Suc l) fl b d P"
          unfolding l0 by (rule level1_fills [OF a(6) f(1) [unfolded l0] a(8-10)])
        then show False using nofill by simp
      qed
      have lfb: "leaf ?h (Suc l) p (of_nat b) = (Suc l, ?e)" by (rule leaf_of_start [OF b64 i False])
      have notpop: "\<not> populated ?h (Suc l) p b d"
      proof
        assume "populated ?h (Suc l) p b d"
        then have "fst (leaf ?h (Suc l) p (of_nat b)) = 1" unfolding populated_def using a(6) ub by (metis order_refl)
        then show False using lfb l by simp
      qed
      have cost: "1 + new_tables fl l b d P \<le> n" using a(13) notpop nofill by (simp add: entry_cost_def)
      then obtain n1 where n1: "n = Suc n1" by (cases n) auto
      obtain q s1 where q: "pool_get_page pool s = Some (Inr (q, s1))" "q \<notin> U" "q \<noteq> 0" "q AND PTE_PHYS_MASK = q"
          "ptm s1 = cleared q ?h" "pinv s1 (insert q U) n1"
        using get a(5) unfolding n1 by blast
      have qp: "page_ok q" "q \<noteq> p" using mask_page_ok [of q] q(4,2) p(2) by auto
      let ?s2 = "set_pte (word_of_table p i) (q OR 7) s1"
      let ?h2 = "ptm ?s2"
      have h2: "?h2 = (cleared q ?h)(word_of_table p i := q OR 7)" using q(5) by (simp add: set_pte_def)
      have pi: "pinv ?s2 (insert q U) n1" by (rule set_entry [OF q(6)])
      have ent: "entry ?h2 p j = (if j = i then q OR 7 else entry ?h p j)" if "j < 512" for j
        unfolding h2 entry_set [OF p(1) i512 that] using same_table_cleared [OF qp(1) p(1)] qp(2) that
        by (auto simp: same_table_def)
      have entq: "entry ?h2 q j = 0" if "j < 512" for j
      proof -
        have "same_table (cleared q ?h) ?h2 q" unfolding h2 by (rule same_table_set [OF p(1) qp(1) i512 qp(2)])
        then show ?thesis using entry_cleared [OF that] that by (simp add: same_table_def)
      qed
      have same: "same_table ?h ?h2 r" if "r \<in> U" "r \<noteq> p" for r
      proof -
        have r: "page_ok r" "r \<noteq> q" using a(4) that q(2) by auto
        have "same_table (cleared q ?h) ?h2 r" unfolding h2 by (rule same_table_set [OF p(1) r(1) i512 that(2)])
        then show ?thesis using same_table_cleared [OF qp(1) r(1,2)] same_table_trans by blast
      qed
      have et: "tables ?h2 l q = {q}" "tables_ok ?h2 l q" "leaf ?h2 l q v = (l, 0)" for v
        by (rule empty_table [OF qp(1) _ l]; rule entq; assumption)+
      have dir: "is_dir (Suc l) (entry ?h2 p i)" "child ?h2 p i = q"
        using dir_entry(1) [OF q(4), of "Suc l"] dir_entry(2) [OF q(4), of 2] l ent [OF i512] by (simp_all add: child_def)
      have pre2: "map_pre pinv fl l q b d P (new_tables fl l b d P) (insert q U) n1 ?s2"
        unfolding map_pre_def unmapped_def sparse_def et(1,3)
        using et(2) a(1,4,6-11) qp(1) pi cost by (simp add: n1 not_present_def)
      obtain U' n' s' where r: "raw_pt_map_pages l pool fl (va q) (of_nat b) (of_nat d) (of_nat P) ?s2 = Some (Inr s')"
          "map_result pinv fl P b d l q (insert q U) ?s2 U' n' s'" "n1 \<le> n' + tables_cost ?h2 l q b d (new_tables fl l b d P)"
        using IH [OF l, unfolded level_ok_def, rule_format, OF pre2 bd] by blast
      have tq: "p \<notin> tables ?h2 l q" "tables ?h2 l q \<subseteq> tables ?h (Suc l) p \<union> (insert q U - U)" using et(1) qp(2) q(2) by auto
      have disj: "tables ?h2 l q \<inter> tables ?h l (child ?h p j) = {}" if "j < 512" "j \<noteq> i" "is_dir (Suc l) (entry ?h p j)" for j
        unfolding et(1) using subset_trans [OF tables_child [OF that(1,3)] a(3)] q(2) by auto
      have lf: "kept (leaf ?h (Suc l) p v) (leaf ?h2 l q v)" if "idx (Suc l) v = i" for v
        using that False np l et(3) by (simp add: Let_def kept_def not_present_def)
      have deep: "leaf ?h2 l q v = leaf ?h (Suc l) p v \<or> l \<le> fst (leaf ?h2 l q v)" for v using et(3) by simp
      note up = map_result_up [OF a(2,3) i subset_insertI _ same dir tq disj lf deep r(2) bd]
      have u: "map_result pinv fl P b d (Suc l) p U s U' n' s'"
          "\<forall>v. idx (Suc l) v \<noteq> i \<longrightarrow> leaf (ptm s') (Suc l) p v = leaf ?h (Suc l) p v"
        by (rule up; simp add: ent)+
      have "n \<le> n' + tables_cost ?h (Suc l) p b d (entry_cost fl (Suc l) b d P)"
        using r(3) notpop nofill n1 by (simp add: tables_cost_def entry_cost_def split: if_splits)
      moreover have "(q OR 7) AND PTE_PHYS_MASK = q" using dir_entry(2) [OF q(4), of 2] by simp
      ultimately show ?thesis using run np nofill q(1,3) l r(1) u by (simp add: Let_def) blast
    qed
  qed
qed

lemma loop_ok:
  assumes IH: "1 \<le> l \<Longrightarrow> level_ok pool pinv fl l" and lv: "Suc l \<le> 4"
    and pre: "map_pre pinv fl (Suc l) p b f P (new_tables fl (Suc l) b f P) U n s"
    and reg: "b div esz (Suc (Suc l)) = f div esz (Suc (Suc l))"
  shows "\<exists>U' n' s'. for_entries (map_entry (raw_pt_map_pages l pool fl) pool (Suc l) (of_nat (esz (Suc l))) (va p) (of_nat f) fl
        (pte_large_of (Suc l) fl)) [b div esz (Suc l) mod 512..<Suc (f div esz (Suc l) mod 512)] (of_nat b, of_nat P, s)
      = Some (Inr (of_nat (Suc f), of_nat (P + (Suc f - b)), s')) \<and>
    map_result pinv fl P b f (Suc l) p U s U' n' s' \<and> n \<le> n' + tables_cost (ptm s) (Suc l) p b f (new_tables fl (Suc l) b f P)"
  using pre reg
proof (induction "f - b" arbitrary: b P U n s rule: less_induct)
  case less
  note pre = less.prems(1) and reg = less.prems(2)
  note a = map_preD [OF pre]
  let ?E = "esz (Suc l)" and ?h = "ptm s"
  define d where "d = min f (entry_last (Suc l) b)"
  define i where "i = b div ?E mod 512"
  let ?step = "map_entry (raw_pt_map_pages l pool fl) pool (Suc l) (of_nat ?E) (va p) (of_nat f) fl (pte_large_of (Suc l) fl)"
  note el = entry_last_facts [where b = b and l = "Suc l"]
  have bd: "b \<le> d" "d \<le> f" using a(6) el(1) by (auto simp: d_def)
  have al: "4096 dvd Suc d"
  proof (cases "d = f")
    case False
    then have "Suc d = (b div ?E + 1) * ?E" using el(3) by (simp add: d_def min_def split: if_splits)
    then show ?thesis using esz_page [of "Suc l"] by simp
  qed (use a(9) in simp)
  have cost: "entry_cost fl (Suc l) b d P + (if d = f then 0 else new_tables fl (Suc l) (Suc d) f (P + (Suc d - b)))
      = new_tables fl (Suc l) b f P"
    by (rule cost_split [OF bd al a(8,10) d_def]) simp
  have sub: "unmapped ?h (Suc l) p b d" "populated ?h (Suc l) p b f \<Longrightarrow> populated ?h (Suc l) p b d"
      "sparse ?h (Suc l) p b f \<Longrightarrow> sparse ?h (Suc l) p b d"
    using a(12) bd unfolding unmapped_def populated_def sparse_def by auto
  have "map_pre pinv fl (Suc l) p b d P (entry_cost fl (Suc l) b d P) U n s"
    unfolding map_pre_def using a sub bd al cost by auto
  then obtain U1 n1 s1 where e: "?step i (of_nat b, of_nat P, s) = Some (Inr (of_nat (Suc d), of_nat (P + (Suc d - b)), s1))"
      "map_result pinv fl P b d (Suc l) p U s U1 n1 s1"
      "n \<le> n1 + tables_cost ?h (Suc l) p b d (entry_cost fl (Suc l) b d P)"
      "\<forall>v. idx (Suc l) v \<noteq> i \<longrightarrow> leaf (ptm s1) (Suc l) p v = leaf ?h (Suc l) p v"
    using entry_ok [OF IH lv _ d_def a(7,11) i_def] by blast
  have iq: "f div ?E mod 512 = i + (f div ?E - b div ?E)" "b div ?E \<le> f div ?E"
  proof -
    show le: "b div ?E \<le> f div ?E" by (rule div_le_mono [OF a(6)])
    have "b div ?E div 512 = f div ?E div 512" using reg unfolding region_split [of b "Suc l"] region_split [of f "Suc l"] .
    then show "f div ?E mod 512 = i + (f div ?E - b div ?E)"
      using div_mult_mod_eq [of "b div ?E" 512] div_mult_mod_eq [of "f div ?E" 512] le unfolding i_def by linarith
  qed
  have "i \<le> f div ?E mod 512" unfolding iq(1) by simp
  then have list: "[i..<Suc (f div ?E mod 512)] = i # [Suc i..<Suc (f div ?E mod 512)]" by (intro upt_conv_Cons) simp
  show ?case
  proof (cases "d = f")
    case True
    have "f div ?E \<le> b div ?E" using True el(2) div_le_mono [of f "entry_last (Suc l) b" ?E] by (simp add: d_def)
    then have "[Suc i..<Suc (f div ?E mod 512)] = []" using iq by simp
    then show ?thesis using e(1-3) cost True unfolding i_def [symmetric] list by auto
  next
    case False
    then have dl: "d < f" "Suc d = (b div ?E + 1) * ?E" using bd el(3) by (auto simp: d_def min_def split: if_splits)
    have q: "Suc d div ?E = b div ?E + 1" unfolding dl(2) by simp
    have qf: "b div ?E + 1 \<le> f div ?E" using div_le_mono [of "Suc d" f ?E] dl(1) q by simp
    have reg': "Suc d div esz (Suc (Suc l)) = f div esz (Suc (Suc l))"
      using div_le_mono [of b "Suc d" "esz (Suc (Suc l))"] div_le_mono [of "Suc d" f "esz (Suc (Suc l))"] bd dl(1) reg by simp
    have next_i: "Suc d div ?E mod 512 = Suc i"
    proof -
      have "b div ?E div 512 = Suc d div ?E div 512" using reg reg' unfolding region_split [of b "Suc l"] region_split [of "Suc d" "Suc l"] by simp
      then show ?thesis
        using div_mult_mod_eq [of "b div ?E" 512] div_mult_mod_eq [of "Suc d div ?E" 512] q unfolding i_def by linarith
    qed
    have rest: "leaf (ptm s1) (Suc l) p v = leaf ?h (Suc l) p v" if "Suc d \<le> unat v" "unat v \<le> f" for v
    proof -
      have "unat v div esz (Suc (Suc l)) = b div esz (Suc (Suc l))"
        using div_le_mono [OF that(1), of "esz (Suc (Suc l))"] div_le_mono [OF that(2), of "esz (Suc (Suc l))"] reg reg' by simp
      moreover have "unat v div ?E \<noteq> b div ?E" using div_le_mono [OF that(1), of ?E] q by simp
      ultimately have "idx (Suc l) v \<noteq> i" using same_entry by (simp add: idx_def i_def)
      then show ?thesis using e(4) by blast
    qed
    have keep: "unmapped (ptm s1) (Suc l) p (Suc d) f" "populated ?h (Suc l) p b f \<Longrightarrow> populated (ptm s1) (Suc l) p (Suc d) f"
        "sparse ?h (Suc l) p b f \<Longrightarrow> sparse (ptm s1) (Suc l) p (Suc d) f"
      using a(12) bd rest unfolding unmapped_def populated_def sparse_def by auto
    have r1: "tables_ok (ptm s1) (Suc l) p" "tables (ptm s1) (Suc l) p \<subseteq> U1" "\<forall>q\<in>U1. page_ok q" "pinv s1 U1 n1" "U \<subseteq> U1"
      using e(2) a(3) unfolding map_result_def by blast+
    have P': "4096 dvd P + (Suc d - b)" "P + (Suc d - b) + (f - Suc d) < 2 ^ 52"
    proof -
      show "4096 dvd P + (Suc d - b)" using a(8,10) al by (intro dvd_add dvd_diff_nat)
      show "P + (Suc d - b) + (f - Suc d) < 2 ^ 52" using a(11) bd dl(1) by simp
    qed
    have bud: "populated (ptm s1) (Suc l) p (Suc d) f \<or>
        sparse (ptm s1) (Suc l) p (Suc d) f \<and> new_tables fl (Suc l) (Suc d) f (P + (Suc d - b)) \<le> n1"
      using a(13) keep(2,3) e(3) cost False unfolding tables_cost_def by (auto split: if_splits)
    have "map_pre pinv fl (Suc l) p (Suc d) f (P + (Suc d - b)) (new_tables fl (Suc l) (Suc d) f (P + (Suc d - b))) U1 n1 s1"
      unfolding map_pre_def using a(1,7,9) r1 al P' dl(1) keep(1) bud by simp
    moreover have "f - Suc d < f - b" using bd dl(1) by simp
    ultimately obtain U2 n2 s2 where
      r: "for_entries ?step [Suc i..<Suc (f div ?E mod 512)] (of_nat (Suc d), of_nat (P + (Suc d - b)), s1)
          = Some (Inr (of_nat (Suc f), of_nat (P + (Suc d - b) + (Suc f - Suc d)), s2))"
        "map_result pinv fl (P + (Suc d - b)) (Suc d) f (Suc l) p U1 s1 U2 n2 s2"
        "n1 \<le> n2 + tables_cost (ptm s1) (Suc l) p (Suc d) f (new_tables fl (Suc l) (Suc d) f (P + (Suc d - b)))"
      using less.hyps [OF _ _ reg'] unfolding next_i by blast
    have "map_result pinv fl P b f (Suc l) p U s U2 n2 s2"
      using map_result_join [OF e(2) r(2) a(3) _ bd(1) dl(1) a(1)] reg reg' by simp
    moreover have "for_entries ?step (i # [Suc i..<Suc (f div ?E mod 512)]) (of_nat b, of_nat P, s)
        = Some (Inr (of_nat (Suc f), of_nat (P + (Suc f - b)), s2))"
    proof -
      have "P + (Suc d - b) + (Suc f - Suc d) = P + (Suc f - b)" using bd dl(1) by simp
      then show ?thesis unfolding for_entries.simps e(1) bindO_simps r(1) by (simp only:)
    qed
    moreover have "n \<le> n2 + tables_cost ?h (Suc l) p b f (new_tables fl (Suc l) b f P)"
      using r(3) e(3) cost keep(2) sub(2) False unfolding tables_cost_def by (auto split: if_splits)
    ultimately show ?thesis unfolding i_def [symmetric] list by blast
  qed
qed

lemma level_step:
  assumes IH: "1 \<le> l \<Longrightarrow> level_ok pool pinv fl l" and lv: "Suc l \<le> 4"
  shows "level_ok pool pinv fl (Suc l)"
  unfolding level_ok_def
proof (intro allI impI)
  fix p b f P U n s
  assume pre: "map_pre pinv fl (Suc l) p b f P (new_tables fl (Suc l) b f P) U n s"
    and reg: "b div esz (Suc (Suc l)) = f div esz (Suc (Suc l))"
  note a = map_preD [OF pre]
  have lb: "1 \<le> Suc l" by simp
  have "b < 2 ^ 64" using a(6,7) by simp
  note offs = pml_offs_idx [OF lb lv, of "of_nat b"] pml_offs_idx [OF lb lv, of "of_nat f"]
    idx_of_nat [OF \<open>b < 2 ^ 64\<close>] idx_of_nat [OF a(7)] pml_size_esz [OF lb lv]
  show "\<exists>U' n' s'. raw_pt_map_pages (Suc l) pool fl (va p) (of_nat b) (of_nat f) (of_nat P) s = Some (Inr s') \<and>
      map_result pinv fl P b f (Suc l) p U s U' n' s' \<and> n \<le> n' + tables_cost (ptm s) (Suc l) p b f (new_tables fl (Suc l) b f P)"
  proof -
    obtain U' n' s' where r: "for_entries (map_entry (raw_pt_map_pages l pool fl) pool (Suc l) (of_nat (esz (Suc l))) (va p) (of_nat f) fl
        (pte_large_of (Suc l) fl)) [b div esz (Suc l) mod 512..<Suc (f div esz (Suc l) mod 512)] (of_nat b, of_nat P, s)
        = Some (Inr (of_nat (Suc f), of_nat (P + (Suc f - b)), s'))"
      "map_result pinv fl P b f (Suc l) p U s U' n' s'" "n \<le> n' + tables_cost (ptm s) (Suc l) p b f (new_tables fl (Suc l) b f P)"
      using loop_ok [OF IH lv pre reg] by blast
    have "raw_pt_map_pages (Suc l) pool fl (va p) (of_nat b) (of_nat f) (of_nat P) s = Some (Inr s')"
      unfolding raw_pt_map_pages.simps offs bindO_simps Let_def pte_large_of_def [symmetric] r(1) by simp
    then show ?thesis using r(2,3) by blast
  qed
qed

lemma levels_ok: "1 \<le> l \<Longrightarrow> l \<le> 4 \<Longrightarrow> level_ok pool pinv fl l"
proof (induction l)
  case (Suc l)
  then show ?case using level_step [of l fl] by auto
qed simp

end

end
