(* ===== verification/PageWalk.thy ===== *)
theory PageWalk
  imports PageMap
begin

text \<open>
  The translation of an address by a tree of tables, as the processor reads it: what \<^verbatim>\<open>pt_map_pages\<close> does to
  it, the pool of \<^verbatim>\<open>paging_setup\<close> and the pool that is never asked, and the tables that \<^verbatim>\<open>paging_setup\<close>
  leaves behind.
\<close>

section \<open>Translation\<close>

definition translate :: "(addr \<Rightarrow> u64) \<Rightarrow> u64 \<Rightarrow> addr \<Rightarrow> u64 option" where
  "translate h p v =
     (let (k, e) = leaf h 4 p v; m = mask (3 + 9 * k) in
      if e AND PTE_PRESENT = 0 then None else Some (((e AND PTE_PHYS_MASK) AND NOT m) + (v AND m)))"

lemma translate_None: "translate h p v = None \<longleftrightarrow> not_present (leaf h 4 p v)"
  by (simp add: translate_def not_present_def Let_def split: prod.split)

lemma phys_mask_bit: "bit (PTE_PHYS_MASK :: u64) n \<longleftrightarrow> 12 \<le> n \<and> n < 52"
proof -
  have m: "(PTE_PHYS_MASK :: u64) = push_bit 12 (mask 40)" by (simp add: mask_eq_exp_minus_1 push_bit_eq_mult)
  show ?thesis unfolding m by (auto simp: bit_simps)
qed

lemma and_phys_mask_bit: "bit (w AND PTE_PHYS_MASK :: u64) n \<longleftrightarrow> bit w n \<and> 12 \<le> n \<and> n < 52"
  by (simp only: bit_and_iff phys_mask_bit)

lemma page_mask:
  assumes "page_ok q" "unat q < 2 ^ 52"
  shows "q AND PTE_PHYS_MASK = q"
proof (rule bit_word_eqI)
  fix n
  assume n: "n < LENGTH(64)"
  have "\<not> bit q n" if "n < 12"
  proof -
    obtain x where "unat q = 2 ^ 12 * x" using assms(1) by (auto simp: page_ok_def elim: dvdE)
    then have "take_bit 12 (unat q) = 0" by (simp add: take_bit_eq_mod)
    then have "\<not> bit (take_bit 12 (unat q)) n" by simp
    then show ?thesis using that n by (simp add: bit_simps)
  qed
  moreover have "\<not> bit q n" if "52 \<le> n"
  proof -
    have "take_bit 52 (unat q) = unat q" using assms(2) by (simp add: take_bit_nat_eq_self)
    then have "\<not> bit (unat q) n" using that by (metis bit_take_bit_iff not_le)
    then show ?thesis using n by (simp add: bit_simps)
  qed
  ultimately show "bit (q AND PTE_PHYS_MASK) n = bit q n" unfolding and_phys_mask_bit by (meson not_less)
qed

lemma low_flags_bit: "fl AND NOT 0xfff = (0 :: u64) \<Longrightarrow> 12 \<le> n \<Longrightarrow> \<not> bit fl n"
proof
  assume fl: "fl AND NOT 0xfff = (0 :: u64)" and n: "12 \<le> n" "bit fl n"
  have m: "(0xfff :: u64) = mask 12" by (simp add: mask_eq_exp_minus_1)
  have "bit (fl AND NOT 0xfff) n" unfolding m using n by (auto simp: bit_simps dest: bit_imp_le_length)
  then show False using fl by simp
qed

lemma mapped_translate:
  assumes m: "mapped_as fl P b (unat v) (leaf h 4 p v)" and fl: "fl AND NOT 0xfff = 0" "fl AND PTE_PRESENT \<noteq> 0"
    and P: "P + (unat v - b) < 2 ^ 52"
  shows "translate h p v = Some (of_nat (P + (unat v - b)))"
proof -
  obtain k e where ke: "leaf h 4 p v = (k, e)" by fastforce
  define A where "A = P + (unat v - b)"
  define r where "r = unat v mod esz k"
  have a: "big_entry k fl" "r \<le> A" "esz k dvd A - r" "e = of_nat (A - r) OR fl"
    using m by (simp_all add: ke mapped_as_def A_def r_def)
  have k: "1 \<le> k" "k \<le> 3" using a(1) by (auto simp: big_entry_def)
  obtain x where x: "A - r = 2 ^ (3 + 9 * k) * x" using a(3) by (auto simp: esz_def elim: dvdE)
  have low: "\<not> bit (A - r) n" if "n < 3 + 9 * k" for n
  proof -
    have "take_bit (3 + 9 * k) (A - r) = 0" by (simp add: x take_bit_eq_mod)
    then have "\<not> bit (take_bit (3 + 9 * k) (A - r)) n" by simp
    then show ?thesis using that by (simp add: bit_simps)
  qed
  have high: "\<not> bit (A - r) n" if "52 \<le> n" for n
  proof -
    have "take_bit 52 (A - r) = A - r" using P by (intro take_bit_nat_eq_self) (simp add: A_def)
    then show ?thesis using that by (metis bit_take_bit_iff not_le)
  qed
  have base: "(e AND PTE_PHYS_MASK) AND NOT (mask (3 + 9 * k)) = of_nat (A - r)"
  proof (rule bit_word_eqI)
    fix n
    assume n: "n < LENGTH(64)"
    have f: "bit (A - r) n \<longrightarrow> 3 + 9 * k \<le> n \<and> n < 52" using low high by (meson not_less)
    have g: "bit fl n \<longrightarrow> n < 12" using low_flags_bit [OF fl(1)] by (meson not_less)
    have k12: "12 \<le> 3 + 9 * k" using k by simp
    have e: "bit e n \<longleftrightarrow> bit (A - r) n \<or> bit fl n" unfolding a(4) using n by (simp add: bit_or_iff bit_of_nat_iff)
    have "bit ((e AND PTE_PHYS_MASK) AND NOT (mask (3 + 9 * k))) n \<longleftrightarrow> (bit e n \<and> 12 \<le> n \<and> n < 52) \<and> 3 + 9 * k \<le> n"
      unfolding bit_and_iff [of "e AND PTE_PHYS_MASK"] and_phys_mask_bit bit_not_iff bit_mask_iff using n by (auto simp: not_less)
    also have "\<dots> \<longleftrightarrow> bit (A - r) n" unfolding e using f g k12 by (meson le_trans not_less)
    finally show "bit ((e AND PTE_PHYS_MASK) AND NOT (mask (3 + 9 * k))) n = bit (of_nat (A - r) :: u64) n"
      using n by (simp only: bit_of_nat_iff possible_bit_word simp_thms)
  qed
  have "v AND mask (3 + 9 * k) = of_nat (take_bit (3 + 9 * k) (unat v))"
    by (rule bit_word_eqI) (auto simp: bit_simps bit_of_nat_iff)
  then have off: "v AND mask (3 + 9 * k) = of_nat r" by (simp add: r_def esz_def take_bit_eq_mod)
  have "of_nat (A - r) + of_nat r = (of_nat A :: u64)" using a(2) by (simp flip: of_nat_add)
  moreover have "e AND PTE_PRESENT \<noteq> 0" unfolding a(4) by (rule present_or [OF fl(2)])
  ultimately show ?thesis unfolding translate_def ke A_def [symmetric] by (simp only: prod.case Let_def base off if_False)
qed

lemma kept_translate: "kept (leaf h 4 p v) (leaf h' 4 p v) \<Longrightarrow> translate h' p v = translate h p v"
proof -
  assume k: "kept (leaf h 4 p v) (leaf h' 4 p v)"
  show "translate h' p v = translate h p v"
  proof (cases "leaf h' 4 p v = leaf h 4 p v")
    case True
    then show ?thesis by (simp add: translate_def)
  next
    case False
    then have "translate h' p v = None" "translate h p v = None" using k by (auto simp: kept_def translate_None)
    then show ?thesis by simp
  qed
qed

text \<open>The highest 16 bits of an address are not looked at.\<close>

lemma leaf_mod: "unat v mod esz (Suc l) = unat w mod esz (Suc l) \<Longrightarrow> leaf h l p v = leaf h l p w"
proof (induction l arbitrary: p)
  case (Suc l)
  have E: "n div esz (Suc l) mod 512 = n mod esz (Suc (Suc l)) div esz (Suc l)" for n
    unfolding esz_Suc [of "Suc l"] by (simp add: mod_mult2_eq mult.commute [of 512])
  have "idx (Suc l) v = idx (Suc l) w" using Suc.prems by (simp only: idx_def E)
  moreover have d: "esz (Suc l) dvd esz (Suc (Suc l))" by (simp add: esz_Suc [of "Suc l"])
  have "unat v mod esz (Suc l) = unat w mod esz (Suc l)"
    using Suc.prems mod_mod_cancel [OF d] by metis
  ultimately show ?case using Suc.IH by (simp add: Let_def)
qed simp

section \<open>Mapping a range\<close>

lemma page_mask_dvd: "w AND PAGE_MASK = 0 \<longleftrightarrow> 4096 dvd unat (w :: u64)"
  using and_esz_0 [of 1 "unat w"] unat64_less [of w] by (simp add: esz_simps)

lemma map_flags:
  assumes "fl AND NOT 0xfff = (0 :: u64)"
  shows "(fl OR PTE_PRESENT OR PTE_LARGE) AND NOT 0xfff = 0" "(fl OR PTE_PRESENT OR PTE_LARGE) AND PTE_PRESENT \<noteq> 0"
    "(fl OR PTE_PRESENT OR PTE_LARGE) AND PTE_LARGE \<noteq> 0"
proof -
  show "(fl OR PTE_PRESENT OR PTE_LARGE) AND NOT 0xfff = 0"
    using assms by (simp add: bit.conj_disj_distrib2)
  show "(fl OR PTE_PRESENT OR PTE_LARGE) AND PTE_PRESENT \<noteq> 0" "(fl OR PTE_PRESENT OR PTE_LARGE) AND PTE_LARGE \<noteq> 0"
    by (simp_all add: bit.conj_disj_distrib2 or_eq_0_iff)
qed

context table_pool begin

text \<open>The range is given by words, as in the code; its last byte is \<open>fin - 1\<close>.\<close>

lemma raw_map_ok:
  assumes fl: "flags_fit fl" and tab: "tables_ok (ptm s) 4 p" "tables (ptm s) 4 p \<subseteq> U" "\<forall>q\<in>U. page_ok q" "pinv s U n"
    and al: "4096 dvd unat begin" "4096 dvd unat phys" "4096 dvd Suc (unat fin)"
    and le: "begin \<le> fin" "unat phys + (unat fin - unat begin) < 2 ^ 52" "unat begin div 2 ^ 48 = unat fin div 2 ^ 48"
    and un: "unmapped (ptm s) 4 p (unat begin) (unat fin)"
    and m: "m = new_tables fl 4 (unat begin) (unat fin) (unat phys)"
      "populated (ptm s) 4 p (unat begin) (unat fin) \<or> sparse (ptm s) 4 p (unat begin) (unat fin) \<and> m \<le> n"
  shows "\<exists>U' n' s'. raw_pt_map_pages 4 pool fl (va p) begin fin phys s = Some (Inr s') \<and>
    map_result pinv fl (unat phys) (unat begin) (unat fin) 4 p U s U' n' s' \<and>
    n \<le> n' + tables_cost (ptm s) 4 p (unat begin) (unat fin) m"
proof -
  have "unat begin \<le> unat fin" using le(1) by (simp add: word_le_nat_alt)
  then have "map_pre pinv fl 4 p (unat begin) (unat fin) (unat phys) m U n s"
    unfolding map_pre_def using assms unat64_less [of fin] by simp
  then have pre: "map_pre pinv fl 4 p (unat begin) (unat fin) (unat phys) (new_tables fl 4 (unat begin) (unat fin) (unat phys)) U n s"
    unfolding m(1) .
  have "unat begin div esz (Suc 4) = unat fin div esz (Suc 4)" using le(3) by (simp add: esz_def)
  moreover have "level_ok pool pinv fl 4" by (rule levels_ok) simp_all
  ultimately have "\<exists>U' n' s'. raw_pt_map_pages 4 pool fl (va p) (of_nat (unat begin)) (of_nat (unat fin)) (of_nat (unat phys)) s = Some (Inr s') \<and>
    map_result pinv fl (unat phys) (unat begin) (unat fin) 4 p U s U' n' s' \<and>
    n \<le> n' + tables_cost (ptm s) 4 p (unat begin) (unat fin) (new_tables fl 4 (unat begin) (unat fin) (unat phys))"
    using pre unfolding level_ok_def by blast
  then show ?thesis by (simp add: m(1))
qed

lemma pt_map_ok:
  assumes fl: "fl AND NOT 0xfff = 0" and tab: "tables_ok (ptm s) 4 p" "tables (ptm s) 4 p \<subseteq> U" "\<forall>q\<in>U. page_ok q" "pinv s U n"
    and w: "unat begin = b" "unat (fin - 1) = f" "unat phys = P" and al: "4096 dvd b" "4096 dvd P" "4096 dvd unat fin"
    and le: "b \<le> f" "P + (f - b) < 2 ^ 52" "b div 2 ^ 48 = f div 2 ^ 48"
    and un: "unmapped (ptm s) 4 p b f"
    and m: "populated (ptm s) 4 p b f \<or> sparse (ptm s) 4 p b f \<and> m \<le> n" "m = new_tables (fl OR PTE_PRESENT OR PTE_LARGE) 4 b f P"
  shows "\<exists>U' n' s'. pt_map_pages (va p) begin fin phys fl pool s = Some (Inr s') \<and>
    map_result pinv (fl OR PTE_PRESENT OR PTE_LARGE) P b f 4 p U s U' n' s' \<and> n \<le> n' + tables_cost (ptm s) 4 p b f m"
proof -
  have "4096 dvd Suc (unat (fin - 1))"
  proof (cases "fin = 0")
    case False
    then have "Suc (unat (fin - 1)) = unat fin" by (simp add: unat_minus_one unat_gt_0)
    then show ?thesis using al(3) by simp
  next
    case True
    have "unat (- 1 :: u64) = 0xffffffffffffffff" by (simp add: unsigned_minus_1_eq_mask mask_eq_exp_minus_1)
    then show ?thesis using True by simp
  qed
  moreover have "flags_fit (fl OR PTE_PRESENT OR PTE_LARGE)"
    using map_flags [OF fl] by (simp add: flags_fit_def)
  ultimately show ?thesis
    using raw_map_ok [OF _ tab, of "fl OR PTE_PRESENT OR PTE_LARGE" "begin" phys "fin - 1" m] al le un m w
    by (simp add: pt_map_pages_def page_mask_dvd word_le_nat_alt)
qed

end

lemma map_translate:
  assumes r: "map_result pinv fl P b f 4 p U s U' n' s'" and fl: "fl AND NOT 0xfff = 0" "fl AND PTE_PRESENT \<noteq> 0"
    and P: "P + (f - b) < 2 ^ 52" and v: "unat v div 2 ^ 48 = b div 2 ^ 48"
  shows "translate (ptm s') p v = (if b \<le> unat v \<and> unat v \<le> f then Some (of_nat (P + (unat v - b))) else translate (ptm s) p v)"
proof -
  have "unat v div esz (Suc 4) = b div esz (Suc 4)" using v by (simp add: esz_def)
  then have "if b \<le> unat v \<and> unat v \<le> f then mapped_as fl P b (unat v) (leaf (ptm s') 4 p v)
      else kept (leaf (ptm s) 4 p v) (leaf (ptm s') 4 p v)"
    using r unfolding map_result_def range_mapped_def by blast
  moreover have "P + (unat v - b) < 2 ^ 52" if "unat v \<le> f" using P that by linarith
  ultimately show ?thesis using mapped_translate [OF _ fl] kept_translate by (auto split: if_splits)
qed

section \<open>How many tables a mapping takes\<close>

lemma new_tables_empty: "f < b \<Longrightarrow> new_tables fl l b f P = 0"
  by (subst new_tables.simps) simp

lemma entry_last_aligned: "esz l dvd b \<Longrightarrow> entry_last l b = b + esz l - 1"
  by (simp add: entry_last_def distrib_right)

lemma new_tables_step:
  "1 < l \<Longrightarrow> b \<le> f \<Longrightarrow> d = min f (entry_last l b) \<Longrightarrow>
   new_tables fl l b f P = (if fills l fl b d P then 0 else 1 + new_tables fl (l - 1) b d P) + new_tables fl l (Suc d) f (P + (Suc d - b))"
  by (subst new_tables.simps) (simp add: Let_def)

lemma large_tables:
  "fl AND PTE_LARGE \<noteq> 0 \<Longrightarrow> l = 2 \<or> l = 3 \<Longrightarrow> esz l dvd b \<Longrightarrow> esz l dvd P \<Longrightarrow>
   new_tables fl l b f P \<le> l - 1 \<and> (esz l dvd Suc f \<longrightarrow> new_tables fl l b f P = 0)"
proof (induction fl l b f P rule: new_tables.induct)
  case (1 fl l b f P)
  note al = "1.prems"
  show ?case
  proof (cases "f < b")
    case False
    then have le: "b \<le> f" "1 < l" using al(2) by auto
    define d where "d = min f (entry_last l b)"
    have E: "0 < esz l" by simp
    have el: "entry_last l b = b + esz l - 1" by (rule entry_last_aligned [OF al(3)])
    note step = new_tables_step [OF le(2,1) d_def, of fl P]
    show ?thesis
    proof (cases "fills l fl b d P")
      case True
      then have Sd: "Suc d = b + esz l" "Suc d - b = esz l" using el E le(1) by (auto simp: fills_def d_def)
      have "\<not> (l \<le> 1 \<or> f < b)" using le by simp
      from "1.IH"(2) [OF this d_def al(1,2)] al(3,4)
      have "new_tables fl l (Suc d) f (P + (Suc d - b)) \<le> l - 1 \<and>
          (esz l dvd Suc f \<longrightarrow> new_tables fl l (Suc d) f (P + (Suc d - b)) = 0)"
        unfolding Sd by simp
      then show ?thesis using step True by simp
    next
      case nf: False
      have "d - b + 1 \<noteq> esz l" using nf al by (auto simp: fills_def big_entry_def)
      moreover have "d - b + 1 = esz l" if "d \<noteq> f" using that el E le(1) by (auto simp: d_def min_def split: if_splits)
      ultimately have d: "d = f" by blast
      moreover have "d \<le> entry_last l b" by (simp add: d_def)
      ultimately have d: "d = f" "Suc f < b + esz l" using \<open>d - b + 1 \<noteq> esz l\<close> el E le(1) by linarith+
      have nd: "\<not> esz l dvd Suc f"
      proof
        assume "esz l dvd Suc f"
        then have "esz l dvd Suc f - b" using al(3) by (rule dvd_diff_nat)
        moreover have "0 < Suc f - b" "Suc f - b < esz l" using le(1) d(2) by linarith+
        ultimately show False using dvd_imp_le by (meson not_less)
      qed
      have "new_tables fl (l - 1) b f P \<le> l - 2"
      proof (cases "l = 2")
        case True
        then show ?thesis by (subst new_tables.simps) simp
      next
        case False
        then have l3: "l = 3" using al(2) by blast
        have "esz 2 dvd esz l" unfolding l3 esz_def by (intro le_imp_power_dvd) simp
        then have al2: "l - 1 = 2 \<or> l - 1 = 3" "esz (l - 1) dvd b" "esz (l - 1) dvd P" using al(3,4) l3 by (auto intro: dvd_trans)
        have "\<not> (l \<le> 1 \<or> f < b)" using le by simp
        from "1.IH"(1) [OF this d_def nf al(1) al2] show ?thesis by (simp add: l3 d(1))
      qed
      then show ?thesis using step nf nd le(2) unfolding d(1) by (simp add: new_tables_empty)
    qed
  qed (simp add: new_tables_empty)
qed

lemma top_tables:
  "fl AND PTE_LARGE \<noteq> 0 \<Longrightarrow> b \<le> f \<Longrightarrow> esz 4 dvd b \<Longrightarrow> esz 3 dvd P \<Longrightarrow> new_tables fl 4 b f P \<le> (f div esz 4 - b div esz 4) + 3"
proof (induction "f - b" arbitrary: b P rule: less_induct)
  case less
  define d where "d = min f (entry_last 4 b)"
  have el: "entry_last 4 b = b + esz 4 - 1" by (rule entry_last_aligned [OF less.prems(3)])
  have nf: "\<not> fills 4 fl b d P" by (simp add: fills_def big_entry_def)
  have "esz 3 dvd esz 4" by (simp add: esz_simps)
  then have b3: "esz 3 dvd b" using less.prems(3) dvd_trans by blast
  have step: "new_tables fl 4 b f P = 1 + new_tables fl 3 b d P + new_tables fl 4 (Suc d) f (P + (Suc d - b))"
    using new_tables_step [OF _ less.prems(2) d_def, of fl P] nf by simp
  note lt = large_tables [OF less.prems(1) _ b3 less.prems(4), of d]
  show ?case
  proof (cases "d = f")
    case True
    then show ?thesis using step lt by (simp add: new_tables_empty)
  next
    case False
    then have Sd: "Suc d = b + esz 4" "Suc d - b = esz 4" "d < f" using el by (auto simp: d_def min_def split: if_splits)
    have "new_tables fl 3 b d P = 0" using lt b3 \<open>esz 3 dvd esz 4\<close> unfolding Sd(1) by simp
    moreover have "f - Suc d < f - b" using Sd less.prems(2) esz_pos [of 4] by linarith
    then have "new_tables fl 4 (Suc d) f (P + (Suc d - b)) \<le> (f div esz 4 - Suc d div esz 4) + 3"
      using less.hyps [of "Suc d" "P + (Suc d - b)"] less.prems Sd \<open>esz 3 dvd esz 4\<close> by auto
    moreover have "Suc d div esz 4 = b div esz 4 + 1" unfolding Sd(1) using div_add_self2 [of "esz 4" b] esz_pos [of 4] by simp
    moreover have "Suc d div esz 4 \<le> f div esz 4" using Sd(3) by (intro div_le_mono) simp
    ultimately show ?thesis unfolding step by linarith
  qed
qed

section \<open>Clearing a page\<close>

lemma clear_table_eq: "clear_table (va q) s = s\<lparr>ptm := cleared q (ptm s)\<rparr>"
proof -
  have "fold (\<lambda>i. set_pte (word_of_table q i) 0) [0..<n] s =
      s\<lparr>ptm := \<lambda>a. if a \<in> word_of_table q ` {..<n} then 0 else ptm s a\<rparr>" for n
    by (induction n) (auto simp: set_pte_def lessThan_Suc fun_eq_iff)
  from this [of 512] show ?thesis
    by (simp add: clear_table_def cleared_def word_of_table_def [abs_def])
qed

section \<open>A pool that is never asked\<close>

text \<open>\<^verbatim>\<open>kmap\<close> maps a range that has its tables; the null pool gives none, and nothing but entries changes.\<close>

definition null_inv :: "'a vm_scheme \<Rightarrow> u64 set \<Rightarrow> 'a vm_scheme \<Rightarrow> u64 set \<Rightarrow> nat \<Rightarrow> bool" where
  "null_inv s0 U0 s U n \<longleftrightarrow> n = 0 \<and> U = U0 \<and> (\<exists>g. s = s0\<lparr>ptm := g\<rparr>)"

interpretation null_pool: table_pool None "null_inv s0 U0" for s0 :: "'a vm_scheme" and U0
  by unfold_locales (auto simp: null_inv_def set_pte_def)

section \<open>The pool of the first page table\<close>

definition boot_pages :: "u64 set \<Rightarrow> u64 set" where
  "boot_pages F = {q. page_ok q \<and> {q..<q + PAGE_SIZE} \<subseteq> F \<and> unat q + 4096 \<le> unat BOOTSTRAP_MEM}"

lemma boot_page_facts:
  assumes "q \<in> boot_pages F"
  shows "page_ok q" "q AND PTE_PHYS_MASK = q" "unat (q + PAGE_SIZE) = unat q + 4096" "q \<in> {q..<q + PAGE_SIZE}" "q \<noteq> BOOTSTRAP_MEM"
proof -
  have q: "page_ok q" "unat q + 4096 \<le> 0x100000000" using assms by (simp_all add: boot_pages_def)
  then show "page_ok q" "q AND PTE_PHYS_MASK = q" by (auto intro: page_mask)
  show u: "unat (q + PAGE_SIZE) = unat q + 4096" using q(2) by (simp add: unat_word_ariths(1))
  then show "q \<in> {q..<q + PAGE_SIZE}" by (simp add: word_less_nat_alt)
  show "q \<noteq> BOOTSTRAP_MEM" using q(2) by auto
qed

lemma boot_pages_apart:
  assumes "q \<in> boot_pages F" "r \<in> boot_pages G" "q \<noteq> r"
  shows "{q..<q + PAGE_SIZE} \<inter> {r..<r + PAGE_SIZE} = {}"
proof -
  note q = boot_page_facts [OF assms(1)] and r = boot_page_facts [OF assms(2)]
  obtain x y where xy: "unat q = 4096 * x" "unat r = 4096 * y" using q(1) r(1) by (auto simp: page_ok_def elim!: dvdE)
  have "x \<noteq> y" using assms(3) xy by (auto simp: word_unat_eq_iff)
  then have "x + 1 \<le> y \<or> y + 1 \<le> x" by linarith
  then have "q + PAGE_SIZE \<le> r \<or> r + PAGE_SIZE \<le> q"
    using q(3) r(3) xy by (auto simp: word_le_nat_alt)
  then show ?thesis by (auto simp: not_le [symmetric] min_def max_def dest: order_trans)
qed

lemma boot_pages_minus:
  assumes "a \<in> boot_pages F"
  shows "boot_pages (F - {a..<a + PAGE_SIZE}) = boot_pages F - {a}"
proof (intro equalityI subsetI)
  fix q
  assume q: "q \<in> boot_pages (F - {a..<a + PAGE_SIZE})"
  then have "q \<in> boot_pages F" by (auto simp: boot_pages_def)
  moreover have "q \<noteq> a" using q boot_page_facts(4) [OF q] by (auto simp: boot_pages_def)
  ultimately show "q \<in> boot_pages F - {a}" by blast
next
  fix q
  assume "q \<in> boot_pages F - {a}"
  then show "q \<in> boot_pages (F - {a..<a + PAGE_SIZE})"
    using boot_pages_apart [OF _ assms, of q F] by (auto simp: boot_pages_def)
qed

lemma boot_get:
  assumes "balloc_rel bc F K nn (boot s)" "2 \<le> nn" "boot_pages F \<noteq> {}" "\<forall>x\<in>F. unat x < 2 ^ 63"
  obtains a b n' where "pool_get_page (Some (paging_setup_pool bc)) s = Some (Inr (a, s\<lparr>boot := b, ptm := cleared a (ptm s)\<rparr>))"
    "balloc_rel bc (F - {a..<a + PAGE_SIZE}) K n' b" "nn \<le> n' + 1" "a \<in> boot_pages F" "\<And>c. c \<in> boot_pages F \<Longrightarrow> a \<le> c"
proof -
  let ?M = "BOOTSTRAP_MEM :: u64" and ?S = "PAGE_SIZE :: u64"
  have page: "2 ^ 12 dvd unat c \<and> 0 \<le> c \<and> unat c + unat ?S \<le> unat ?M \<and> {c..<c + ?S} \<subseteq> F \<longleftrightarrow> c \<in> boot_pages F" for c
    by (auto simp: boot_pages_def page_ok_def)
  have l: "(2 :: nat) ^ 63 + 2 ^ 12 + unat ?S < 2 ^ 64" by simp
  obtain c where "c \<in> boot_pages F" using assms(3) by blast
  with alloc_rel [OF assms(1,2) _ _ assms(4) l, of 0 ?M] obtain a b n' where
    r: "raw_balloc_alloc bc ?S (2 ^ 12) 0 ?M (boot s) = Some (Inr (a, b))" "balloc_rel bc (F - {a..<a + ?S}) K n' b"
      "nn \<le> n' + 1" "a \<in> boot_pages F" "\<forall>c. c \<in> boot_pages F \<longrightarrow> a \<le> c"
    unfolding page [symmetric] by auto
  have "pool_get_page (Some (paging_setup_pool bc)) s = Some (Inr (a, s\<lparr>boot := b, ptm := cleared a (ptm s)\<rparr>))"
    using r(1) boot_page_facts(5) [OF r(4)]
    by (simp add: pool_get_page_def paging_setup_pool_def paging_setup_get_page_def clear_table_eq)
  then show thesis using that r(2-5) by blast
qed

text \<open>The pages \<open>U\<close> are out of the free memory, which has \<open>n\<close> pages more and as many spare nodes.\<close>

definition boot_inv ::
    "bstatics \<Rightarrow> u64 set \<Rightarrow> u64 set \<Rightarrow> 'a vm_scheme \<Rightarrow> 'a vm_scheme \<Rightarrow> u64 set \<Rightarrow> nat \<Rightarrow> bool" where
  "boot_inv bc K F0 s0 s U n \<longleftrightarrow>
     (\<exists>F nn g b. s = s0\<lparr>boot := b, ptm := g\<rparr> \<and> balloc_rel bc F K nn b \<and> F \<subseteq> F0 \<and> n < nn \<and> n \<le> card (boot_pages F) \<and>
        0 \<notin> boot_pages F \<and> (\<forall>q\<in>U. {q..<q + PAGE_SIZE} \<inter> F = {}) \<and> (\<forall>x\<in>F. unat x < 2 ^ 63))"

lemma boot_invI:
  assumes "balloc_rel bc F K nn b" "F \<subseteq> F0" "n < nn" "n \<le> card (boot_pages F)" "0 \<notin> boot_pages F"
    "\<And>q. q \<in> U \<Longrightarrow> {q..<q + PAGE_SIZE} \<inter> F = {}" "\<forall>x\<in>F. unat x < 2 ^ 63"
  shows "boot_inv bc K F0 s0 (s0\<lparr>boot := b, ptm := g\<rparr>) U n"
  unfolding boot_inv_def using assms by blast

interpretation boot_pool: table_pool "Some (paging_setup_pool bc)" "boot_inv bc K F0 s0"
  for bc :: bstatics and K F0 :: "u64 set" and s0 :: "'a vm_scheme"
proof
  fix s :: "'a vm_scheme" and U n
  assume "boot_inv bc K F0 s0 s U (Suc n)"
  then obtain F nn g b where s: "s = s0\<lparr>boot := b, ptm := g\<rparr>" and i: "balloc_rel bc F K nn b" "F \<subseteq> F0" "Suc n < nn"
      "Suc n \<le> card (boot_pages F)" "0 \<notin> boot_pages F" "\<forall>q\<in>U. {q..<q + PAGE_SIZE} \<inter> F = {}" "\<forall>x\<in>F. unat x < 2 ^ 63"
    unfolding boot_inv_def by blast
  have "balloc_rel bc F K nn (boot s)" "2 \<le> nn" "boot_pages F \<noteq> {}" using s i by auto
  from boot_get [OF this i(7)] obtain a b' n' where
    r: "pool_get_page (Some (paging_setup_pool bc)) s = Some (Inr (a, s\<lparr>boot := b', ptm := cleared a (ptm s)\<rparr>))"
      "balloc_rel bc (F - {a..<a + PAGE_SIZE}) K n' b'" "nn \<le> n' + 1" "a \<in> boot_pages F"
    by metis
  note f = boot_page_facts [OF r(4)]
  have "boot_inv bc K F0 s0 (s0\<lparr>boot := b', ptm := cleared a (ptm s)\<rparr>) (insert a U) n"
  proof (rule boot_invI [OF r(2)])
    show "n \<le> card (boot_pages (F - {a..<a + PAGE_SIZE}))"
      using i(4) r(4) by (simp add: boot_pages_minus card_Diff_singleton)
    show "0 \<notin> boot_pages (F - {a..<a + PAGE_SIZE})" using i(5) r(4) by (simp add: boot_pages_minus)
  qed (use i r(3) in auto)
  moreover have "a \<notin> U"
  proof
    assume "a \<in> U"
    then have "{a..<a + PAGE_SIZE} \<inter> F = {}" using i(6) by blast
    moreover have "{a..<a + PAGE_SIZE} \<subseteq> F" using r(4) by (simp add: boot_pages_def)
    ultimately show False using f(4) by blast
  qed
  moreover have "a \<noteq> 0" using i(5) r(4) by auto
  ultimately show "\<exists>q s'. pool_get_page (Some (paging_setup_pool bc)) s = Some (Inr (q, s')) \<and> q \<notin> U \<and> q \<noteq> 0 \<and>
      q AND PTE_PHYS_MASK = q \<and> ptm s' = cleared q (ptm s) \<and> boot_inv bc K F0 s0 s' (insert q U) n"
    using r(1) f(2) by (simp add: s)
next
  fix s :: "'a vm_scheme" and U n a v
  assume "boot_inv bc K F0 s0 s U n"
  then show "boot_inv bc K F0 s0 (set_pte a v s) U n"
    unfolding boot_inv_def set_pte_def by fastforce
next
  fix s :: "'a vm_scheme" and U n m
  assume "boot_inv bc K F0 s0 s U n" "m \<le> n"
  then show "boot_inv bc K F0 s0 s U m"
    unfolding boot_inv_def by (elim exE conjE) (intro exI conjI, assumption+, rule le_less_trans, assumption+, rule le_trans, assumption+)
qed

section \<open>The first page table\<close>

text \<open>How much memory is mapped, from the end \<open>e\<close> of the known memory.\<close>

definition mapped_memory :: "u64 \<Rightarrow> u64" where
  "mapped_memory e = (if e AND NOT PAGE_MASK < MAX_PMEM_SIZE then e AND NOT PAGE_MASK else MAX_PMEM_SIZE)"

lemma mapped_memory_facts:
  assumes "PAGE_SIZE \<le> e"
  shows "4096 dvd unat (mapped_memory e)" "4096 \<le> unat (mapped_memory e)" "unat (mapped_memory e) \<le> unat MAX_PMEM_SIZE"
    "unat (mapped_memory e) \<le> unat e"
proof -
  have m: "(PAGE_MASK :: u64) = mask 12" by (simp add: mask_eq_exp_minus_1)
  define x where "x = e AND NOT PAGE_MASK"
  have u: "unat x = unat e div 4096 * 4096" unfolding x_def m and_not_mask unat_push_drop by simp
  have "4096 \<le> unat e" using assms by (simp add: word_le_nat_alt)
  then have "1 \<le> unat e div 4096" using div_le_mono [of 4096 "unat e" 4096] by simp
  then have "4096 \<le> unat e div 4096 * 4096" by simp
  moreover have "unat e div 4096 * 4096 \<le> unat e" by simp
  ultimately show "4096 dvd unat (mapped_memory e)" "4096 \<le> unat (mapped_memory e)" "unat (mapped_memory e) \<le> unat MAX_PMEM_SIZE"
    "unat (mapped_memory e) \<le> unat e"
    unfolding mapped_memory_def x_def [symmetric] using dvd_triv_right [of 4096 "unat e div 4096"]
    by (auto simp: u [symmetric] word_less_nat_alt)
qed

lemma virtual_tables: "fl AND PTE_LARGE \<noteq> 0 \<Longrightarrow> new_tables fl 4 (unat VIRTUAL_BASE) 0xffffffffffffffff 0 \<le> 1"
proof -
  assume fl: "fl AND PTE_LARGE \<noteq> 0"
  let ?b = "unat VIRTUAL_BASE" and ?f = "0xffffffffffffffff :: nat"
  have d: "?f = min ?f (entry_last 4 ?b)" by (simp add: entry_last_def esz_simps)
  have "new_tables fl 3 ?b ?f 0 = 0" using large_tables [OF fl, of 3 ?b 0 ?f] by (simp add: esz_simps)
  moreover have "\<not> fills 4 fl ?b ?f 0" by (simp add: fills_def big_entry_def)
  ultimately show ?thesis
    using new_tables_step [OF _ _ d, of fl 0] by (simp add: new_tables_empty)
qed

lemma paging_setup_ok:
  assumes R: "balloc_rel bc F K n (boot s)" and F: "\<forall>x\<in>F. unat x < 2 ^ 63"
    and e: "balloc_memory bc (boot s) = Some (Inr e)" "PAGE_SIZE \<le> e"
    and need: "unat e div 2 ^ 39 + 5 \<le> card (boot_pages F)" "unat e div 2 ^ 39 + 6 \<le> n"
  defines "M \<equiv> mapped_memory e"
  obtains p s2 U k where "paging_setup bc s = Some (Inr (s2\<lparr>cr3 := p\<rparr>))" "boot_inv bc K F s s2 U k"
    "tables_ok (ptm s2) 4 p" "tables (ptm s2) 4 p \<subseteq> U"
    "\<And>v. unat v div 2 ^ 48 = 0xffff \<Longrightarrow> translate (ptm s2) p v =
       (if HIGHER_BASE \<le> v \<and> v < HIGHER_BASE + M then Some (v - HIGHER_BASE)
        else if VIRTUAL_BASE \<le> v then Some (v - VIRTUAL_BASE) else None)"
    "sparse (ptm s2) 4 p (unat KMAP_BEGIN) (unat KMAP_END - 1)" "unmapped (ptm s2) 4 p (unat KMAP_BEGIN) (unat KMAP_END - 1)"
proof -
  note m = mapped_memory_facts [OF e(2), folded M_def]
  let ?pool = "Some (paging_setup_pool bc) :: 'a vm_scheme page_pool option"
  let ?fl = "PTE_WRITE OR PTE_PRESENT OR PTE_LARGE :: u64"
  let ?H = "unat HIGHER_BASE" and ?V = "unat VIRTUAL_BASE" and ?top = "0xffffffffffffffff :: nat"
  have fl: "(PTE_WRITE :: u64) AND NOT 0xfff = 0" by simp
  note ff = map_flags [OF fl]
  have "2 \<le> n" "boot_pages F \<noteq> {}" using need by auto
  from boot_get [OF R this F] obtain p b1 n1 where
    1: "pool_get_page ?pool s = Some (Inr (p, s\<lparr>boot := b1, ptm := cleared p (ptm s)\<rparr>))"
      "balloc_rel bc (F - {p..<p + PAGE_SIZE}) K n1 b1" "n \<le> n1 + 1" "p \<in> boot_pages F" "\<And>c. c \<in> boot_pages F \<Longrightarrow> p \<le> c"
    by metis
  let ?s1 = "s\<lparr>boot := b1, ptm := cleared p (ptm s)\<rparr>" and ?F1 = "F - {p..<p + PAGE_SIZE}"
  note pf = boot_page_facts [OF 1(4)]
  have empty: "tables (ptm ?s1) 4 p = {p}" "tables_ok (ptm ?s1) 4 p" "leaf (ptm ?s1) 4 p v = (4, 0)" for v
    using empty_table [OF pf(1), of "ptm ?s1" 4] entry_cleared [of _ p "ptm s"] by simp_all
  let ?n = "unat e div 2 ^ 39 + 4"
  have no0: "0 \<notin> boot_pages ?F1" using 1(5) [of 0] by (auto simp: boot_pages_minus [OF 1(4)])
  have i1: "boot_inv bc K F s ?s1 {p} ?n"
    using need 1(2-4) no0 F by (intro boot_invI [OF 1(2)]) (auto simp: boot_pages_minus card_Diff_singleton)
  let ?f1 = "?H + (unat M - 1)"
  have uM: "unat M \<le> 0x7fff00000000" using m(3) by simp
  have f1: "unat (HIGHER_BASE + M) = ?H + unat M" "unat (HIGHER_BASE + M - 1) = ?f1"
  proof -
    show u: "unat (HIGHER_BASE + M) = ?H + unat M" using uM by (simp add: unat_word_ariths(1))
    then have "HIGHER_BASE + M \<noteq> 0" by auto
    then have "unat (HIGHER_BASE + M - 1) = unat (HIGHER_BASE + M) - 1" by (rule unat_minus_one)
    then show "unat (HIGHER_BASE + M - 1) = ?f1" unfolding u using m(2) by linarith
  qed
  let ?c1 = "new_tables ?fl 4 ?H ?f1 0" and ?c2 = "new_tables ?fl 4 ?V ?top 0"
  have c1: "?c1 \<le> unat e div 2 ^ 39 + 3"
  proof -
    have "?c1 \<le> (?f1 div esz 4 - ?H div esz 4) + 3"
      using top_tables [OF ff(3), of ?H ?f1 0] by (simp add: esz_simps)
    moreover have "?f1 div esz 4 = ?H div esz 4 + (unat M - 1) div 2 ^ 39" by (simp add: esz_simps)
    moreover have "(unat M - 1) div 2 ^ 39 \<le> unat e div 2 ^ 39" using m(4) by (intro div_le_mono) simp
    ultimately show ?thesis by simp
  qed
  have c2: "?c2 \<le> 1" by (rule virtual_tables [OF ff(3)])
  have un1: "unmapped (ptm ?s1) 4 p b f" and sp1: "sparse (ptm ?s1) 4 p b f" for b f
    unfolding unmapped_def sparse_def empty(3) by (simp_all add: not_present_def)
  have "\<exists>U' n' s'. pt_map_pages (va p) HIGHER_BASE (HIGHER_BASE + M) 0 PTE_WRITE ?pool ?s1 = Some (Inr s') \<and>
      map_result (boot_inv bc K F s) ?fl 0 ?H ?f1 4 p {p} ?s1 U' n' s' \<and> ?n \<le> n' + tables_cost (ptm ?s1) 4 p ?H ?f1 ?c1"
  proof (rule boot_pool.pt_map_ok [OF fl empty(2) _ _ i1 refl f1(2)])
    show "4096 dvd unat (HIGHER_BASE + M)" unfolding f1(1) using m(1) by simp
    show "populated (ptm ?s1) 4 p ?H ?f1 \<or> sparse (ptm ?s1) 4 p ?H ?f1 \<and> ?c1 \<le> ?n" using sp1 c1 by simp
    show "?H div 2 ^ 48 = ?f1 div 2 ^ 48"
    proof -
      have "?f1 div 2 ^ 48 < 0x10000" using uM by (simp add: less_mult_imp_div_less)
      moreover have "0xffff \<le> ?f1 div 2 ^ 48" using div_le_mono [of ?H ?f1 "2 ^ 48"] by simp
      ultimately show ?thesis by simp
    qed
  qed (use un1 uM m(2) pf(1) empty(1) in simp_all)
  then obtain U1 n2 s1 where 2: "pt_map_pages (va p) HIGHER_BASE (HIGHER_BASE + M) 0 PTE_WRITE ?pool ?s1 = Some (Inr s1)"
      "map_result (boot_inv bc K F s) ?fl 0 ?H ?f1 4 p {p} ?s1 U1 n2 s1" "?n \<le> n2 + ?c1"
    unfolding tables_cost_def by (auto split: if_splits)
  have r1: "\<forall>q\<in>U1. page_ok q" "boot_inv bc K F s s1 U1 n2" "tables_ok (ptm s1) 4 p" "tables (ptm s1) 4 p \<subseteq> U1"
      "shape_kept ?H ?f1 4 p (ptm ?s1) (ptm s1)"
    using 2(2) empty(1) unfolding map_result_def by auto
  have t1: "translate (ptm s1) p v = (if ?H \<le> unat v \<and> unat v \<le> ?f1 then Some (v - HIGHER_BASE) else None)"
    if v: "unat v div 2 ^ 48 = 0xffff" for v
  proof -
    have "0 + (?f1 - ?H) < (2 :: nat) ^ 52" using uM by simp
    from map_translate [OF 2(2) ff(1,2) this, of v] v
    have "translate (ptm s1) p v = (if ?H \<le> unat v \<and> unat v \<le> ?f1 then Some (of_nat (unat v - ?H)) else translate (ptm ?s1) p v)"
      by simp
    moreover have "translate (ptm ?s1) p v = None" unfolding translate_None empty(3) by (simp add: not_present_def)
    moreover have "of_nat (unat v - ?H) = v - HIGHER_BASE" if "?H \<le> unat v" using that by (simp add: of_nat_diff)
    ultimately show ?thesis by simp
  qed
  have high: "unat v div 2 ^ 48 = 0xffff" "?f1 < unat v" "?f1 div esz 3 < unat v div esz 3" if v: "unat KMAP_BEGIN \<le> unat v" for v :: u64
  proof -
    have "0xffff \<le> unat v div 2 ^ 48" using div_le_mono [OF v, of "2 ^ 48"] by simp
    moreover have "unat v div 2 ^ 48 < 0x10000" using unat64_less [of v] by (simp add: less_mult_imp_div_less)
    ultimately show "unat v div 2 ^ 48 = 0xffff" by simp
    have f: "?f1 \<le> 0xfffffffeffffffff" using uM by simp
    then show "?f1 < unat v" using v by simp
    have "?f1 div esz 3 \<le> 0xfffffffeffffffff div esz 3" using f by (rule div_le_mono)
    also have "\<dots> < unat KMAP_BEGIN div esz 3" by (simp add: esz_simps)
    also have "\<dots> \<le> unat v div esz 3" using v by (rule div_le_mono)
    finally show "?f1 div esz 3 < unat v div esz 3" .
  qed
  have un2: "unmapped (ptm s1) 4 p ?V ?top"
    unfolding unmapped_def translate_None [symmetric]
  proof (intro allI impI)
    fix v :: u64
    assume "?V \<le> unat v"
    then have v: "unat KMAP_BEGIN \<le> unat v" by simp
    have "\<not> unat v \<le> ?f1" using high(2) [OF v] by linarith
    then show "translate (ptm s1) p v = None" using t1 [OF high(1) [OF v]] by (simp only: simp_thms if_False)
  qed
  have sp1: "3 \<le> fst (leaf (ptm s1) 4 p v)" if v: "unat KMAP_BEGIN \<le> unat v" for v
  proof -
    have "unat v div esz (Suc 4) = ?H div esz (Suc 4)" using high(1) [OF v] by (simp add: esz_def)
    then have "leaf (ptm s1) 4 p v = leaf (ptm ?s1) 4 p v \<or> 3 \<le> fst (leaf (ptm s1) 4 p v)"
      using r1(5) high(3) [OF v] unfolding shape_kept_def by blast
    then show ?thesis unfolding empty(3) by auto
  qed
  then have sp2: "sparse (ptm s1) 4 p ?V ?top" unfolding sparse_def by simp
  have top: "unat (0 - 1 :: u64) = ?top" by (simp add: unsigned_minus_1_eq_mask mask_eq_exp_minus_1)
  have "?c2 \<le> n2" using c1 c2 2(3) by linarith
  then have "\<exists>U' n' s'. pt_map_pages (va p) VIRTUAL_BASE 0 0 PTE_WRITE ?pool s1 = Some (Inr s') \<and>
      map_result (boot_inv bc K F s) ?fl 0 ?V ?top 4 p U1 s1 U' n' s' \<and> n2 \<le> n' + tables_cost (ptm s1) 4 p ?V ?top ?c2"
    by (intro boot_pool.pt_map_ok [OF fl r1(3,4,1,2) refl top]) (use un2 sp2 in simp_all)
  then obtain U2 n3 s2 where 3: "pt_map_pages (va p) VIRTUAL_BASE 0 0 PTE_WRITE ?pool s1 = Some (Inr s2)"
      "map_result (boot_inv bc K F s) ?fl 0 ?V ?top 4 p U1 s1 U2 n3 s2"
    by auto
  have run: "paging_setup bc s = Some (Inr (s2\<lparr>cr3 := p\<rparr>))"
    unfolding paging_setup_def mapped_memory_def [symmetric] M_def [symmetric] Let_def e(1) 1(1) 2(1) 3(1) bindO_simps prod.case
      write_cr3_def ..
  have r2: "boot_inv bc K F s s2 U2 n3" "tables_ok (ptm s2) 4 p" "tables (ptm s2) 4 p \<subseteq> U2"
    using 3(2) r1(4) unfolding map_result_def by auto
  have t2: "translate (ptm s2) p v = (if HIGHER_BASE \<le> v \<and> v < HIGHER_BASE + M then Some (v - HIGHER_BASE)
      else if VIRTUAL_BASE \<le> v then Some (v - VIRTUAL_BASE) else None)" if v: "unat v div 2 ^ 48 = 0xffff" for v
  proof -
    have "0 + (?top - ?V) < (2 :: nat) ^ 52" by simp
    from map_translate [OF 3(2) ff(1,2) this, of v] v
    have "translate (ptm s2) p v = (if ?V \<le> unat v \<and> unat v \<le> ?top then Some (of_nat (unat v - ?V)) else translate (ptm s1) p v)"
      by simp
    moreover have "of_nat (unat v - ?V) = v - VIRTUAL_BASE" if "?V \<le> unat v" using that by (simp add: of_nat_diff)
    moreover have "unat v \<le> ?top" using unat64_less [of v] by simp
    moreover have "VIRTUAL_BASE \<le> v \<longleftrightarrow> ?V \<le> unat v" by (simp add: word_le_nat_alt)
    moreover have "HIGHER_BASE \<le> v \<and> v < HIGHER_BASE + M \<longleftrightarrow> ?H \<le> unat v \<and> unat v \<le> ?f1"
      using f1(1) m(2) by (auto simp: word_le_nat_alt word_less_nat_alt)
    moreover have "\<not> (?V \<le> unat v \<and> unat v \<le> ?f1)" using high(2) by fastforce
    ultimately show ?thesis using t1 [OF v] by auto
  qed
  have "sparse (ptm s2) 4 p (unat KMAP_BEGIN) (unat KMAP_END - 1)"
    unfolding sparse_def
  proof (intro allI impI)
    fix v :: u64
    assume v: "unat KMAP_BEGIN \<le> unat v" "unat v \<le> unat KMAP_END - 1"
    have "unat v div esz 3 \<le> (unat KMAP_END - 1) div esz 3" using v(2) by (rule div_le_mono)
    also have "\<dots> < ?V div esz 3" by (simp add: esz_simps)
    finally have "unat v div esz 3 < ?V div esz 3" .
    moreover have "unat v div esz (Suc 4) = ?V div esz (Suc 4)" using high(1) [OF v(1)] by (simp add: esz_def)
    moreover have "shape_kept ?V ?top 4 p (ptm s1) (ptm s2)" using 3(2) unfolding map_result_def by blast
    ultimately have "leaf (ptm s2) 4 p v = leaf (ptm s1) 4 p v \<or> 3 \<le> fst (leaf (ptm s2) 4 p v)"
      unfolding shape_kept_def by blast
    then show "min 4 3 \<le> fst (leaf (ptm s2) 4 p v)" using sp1 [OF v(1)] by auto
  qed
  moreover have "unmapped (ptm s2) 4 p (unat KMAP_BEGIN) (unat KMAP_END - 1)"
    unfolding unmapped_def translate_None [symmetric]
  proof (intro allI impI)
    fix v :: u64
    assume v: "unat KMAP_BEGIN \<le> unat v" "unat v \<le> unat KMAP_END - 1"
    have "\<not> v < HIGHER_BASE + M" using high(2) [OF v(1)] f1(1) m(2) by (simp add: word_less_nat_alt)
    moreover have "\<not> VIRTUAL_BASE \<le> v" using v(2) by (simp add: word_le_nat_alt)
    ultimately show "translate (ptm s2) p v = None" using t2 [OF high(1) [OF v(1)]] by simp
  qed
  ultimately show thesis using that [OF run r2 t2] by blast
qed

end
