(* ===== verification/PageWindow.thy ===== *)
theory PageWindow
  imports PageWalk
begin

text \<open>
  The window of \<^verbatim>\<open>kmap\<close>: mapping pages into a range that has its tables, page by page, and clearing the
  entries of a range. Both leave every other address as it was, and keep the tables.
\<close>

section \<open>Frames\<close>

lemma tables_page_ok: "tables_ok h l p \<Longrightarrow> \<forall>q\<in>tables h l p. page_ok q"
  by (induction l arbitrary: p) auto

definition same_zones :: "'a pgs_scheme \<Rightarrow> 'b pgs_scheme \<Rightarrow> bool" where
  "same_zones s t \<longleftrightarrow> zones_head t = zones_head s \<and> zone_begin t = zone_begin s \<and> zone_end t = zone_end s \<and> ll t = ll s"

lemma page_zone_from_frame:
  fixes s :: "'a pgs_scheme" and t :: "'b pgs_scheme"
  assumes "page_zone_from page ptr s = Some y" "same_zones s t"
  shows "page_zone_from page ptr t = Some y"
proof -
  have "\<forall>t :: 'b pgs_scheme. same_zones s t \<longrightarrow> page_zone_from page ptr t = Some y"
  proof (rule page_zone_from.raw_induct [of "\<lambda>page ptr s y. \<forall>t :: 'b pgs_scheme. same_zones s t \<longrightarrow> page_zone_from page ptr t = Some y", OF _ assms(1)])
    fix loop :: "addr \<Rightarrow> addr \<Rightarrow> 'a pgs_scheme \<Rightarrow> addr res option" and page ptr s y
    assume IH: "\<And>page ptr s y. loop page ptr s = Some y \<Longrightarrow> \<forall>t :: 'b pgs_scheme. same_zones s t \<longrightarrow> page_zone_from page ptr t = Some y"
      and eq: "(if ptr = zones_head s then Some (Inl (Bug ''orphan page''))
        else let zone = ptr - 8; pages = zone_end s zone - zone_begin s zone
             in if page_diff page zone < pages then Some (Inr zone) else loop page (lh_next (ll s) ptr) s) = Some y"
    show "\<forall>t :: 'b pgs_scheme. same_zones s t \<longrightarrow> page_zone_from page ptr t = Some y"
    proof (intro allI impI)
      fix t :: "'b pgs_scheme"
      assume t: "same_zones s t"
      show "page_zone_from page ptr t = Some y"
        using eq IH [of page "lh_next (ll s) ptr" s y] t
        by (subst page_zone_from.simps) (auto simp: same_zones_def Let_def split: if_splits)
    qed
  qed
  then show ?thesis using assms(2) by blast
qed

lemma page_addr_frame: "page_addr page s = Some r \<Longrightarrow> same_zones s t \<Longrightarrow> page_addr page t = Some r"
  using page_zone_from_frame [of page "lh_next (ll s) (zones_head s)" s _ t]
  by (auto simp: page_addr_def page_zone_def same_zones_def)

section \<open>Mapping one page\<close>

lemma map_page_ok:
  fixes s :: "'a vm_scheme"
  assumes tab: "tables_ok (ptm s) 4 p" and a: "4096 dvd unat a" "unat a div 2 ^ 48 = 0xffff"
    and x: "4096 dvd unat x" "unat x < 2 ^ 52"
    and ent: "\<And>v. unat a \<le> unat v \<Longrightarrow> unat v < unat a + 4096 \<Longrightarrow> fst (leaf (ptm s) 4 p v) = 1 \<and> not_present (leaf (ptm s) 4 p v)"
  obtains g where "pt_map_pages (va p) a (a + PAGE_SIZE) x PTE_WRITE None s = Some (Inr (s\<lparr>ptm := g\<rparr>))"
    "tables_ok g 4 p" "tables g 4 p \<subseteq> tables (ptm s) 4 p"
    "\<And>v. unat v div 2 ^ 48 = 0xffff \<Longrightarrow> translate g p v =
       (if unat a \<le> unat v \<and> unat v < unat a + 4096 then Some (x + (v - a)) else translate (ptm s) p v)"
    "\<And>v. unat v div 2 ^ 48 = 0xffff \<Longrightarrow> \<not> (unat a \<le> unat v \<and> unat v < unat a + 4096) \<Longrightarrow> fst (leaf (ptm s) 4 p v) = 1 \<Longrightarrow>
       leaf g 4 p v = leaf (ptm s) 4 p v"
    "\<And>v. unat a \<le> unat v \<Longrightarrow> unat v < unat a + 4096 \<Longrightarrow> fst (leaf g 4 p v) = 1"
proof -
  let ?fl = "PTE_WRITE OR PTE_PRESENT OR PTE_LARGE :: u64"
  have fl: "(PTE_WRITE :: u64) AND NOT 0xfff = 0" by simp
  note ff = map_flags [OF fl]
  obtain y where y: "unat a = 4096 * y" using a(1) by (auto elim: dvdE)
  have last: "unat (a + PAGE_SIZE - 1) = unat a + 4095" 
  proof -
    have "unat a + 4095 < 2 ^ 64" using y unat64_less [of a] by simp
    then have "unat (a + 4095) = unat a + 4095" by (simp add: unat_word_ariths(1))
    then show ?thesis by (simp add: add.commute)
  qed
  have fin: "4096 dvd unat (a + PAGE_SIZE)"
  proof -
    have "unat (a + PAGE_SIZE) = (unat a + 4096) mod 2 ^ 64" by (simp add: unat_word_ariths(1))
    then show ?thesis using a(1) by (simp add: dvd_mod)
  qed
  obtain z where z: "unat x = 4096 * z" using x(1) by (auto elim: dvdE)
  have reg: "(unat a + 4095) div 2 ^ 48 = 0xffff"
  proof -
    have "unat a + 4095 < 0x10000 * 2 ^ 48" using y unat64_less [of a] by simp
    then have "(unat a + 4095) div 2 ^ 48 < 0x10000" by (simp add: less_mult_imp_div_less)
    moreover have "unat a div 2 ^ 48 \<le> (unat a + 4095) div 2 ^ 48" by (rule div_le_mono) simp
    ultimately show ?thesis using a(2) by simp
  qed
  have u: "unmapped (ptm s) 4 p (unat a) (unat a + 4095)" "populated (ptm s) 4 p (unat a) (unat a + 4095)"
    using ent by (auto simp: unmapped_def populated_def)
  have i: "null_inv s (tables (ptm s) 4 p) s (tables (ptm s) 4 p) 0" by (simp add: null_inv_def) (metis vm.surjective vm.update_convs(1))
  have "\<exists>U' n' s'. pt_map_pages (va p) a (a + PAGE_SIZE) x PTE_WRITE None s = Some (Inr s') \<and>
      map_result (null_inv s (tables (ptm s) 4 p)) ?fl (unat x) (unat a) (unat a + 4095) 4 p (tables (ptm s) 4 p) s U' n' s' \<and>
      0 \<le> n' + tables_cost (ptm s) 4 p (unat a) (unat a + 4095) (new_tables ?fl 4 (unat a) (unat a + 4095) (unat x))"
  proof (rule null_pool.pt_map_ok [OF fl tab subset_refl tables_page_ok [OF tab] i refl last refl])
    show "unat x + (unat a + 4095 - unat a) < 2 ^ 52" using z x(2) by simp
    show "unat a div 2 ^ 48 = (unat a + 4095) div 2 ^ 48" using a(2) reg by simp
  qed (use a x u fin in auto)
  then obtain U' n' s' where r: "pt_map_pages (va p) a (a + PAGE_SIZE) x PTE_WRITE None s = Some (Inr s')"
      "map_result (null_inv s (tables (ptm s) 4 p)) ?fl (unat x) (unat a) (unat a + 4095) 4 p (tables (ptm s) 4 p) s U' n' s'"
    by blast
  obtain g where g: "s' = s\<lparr>ptm := g\<rparr>" "U' = tables (ptm s) 4 p" using r(2) unfolding map_result_def null_inv_def by blast
  show thesis
  proof (rule that [of g])
    show "pt_map_pages (va p) a (a + PAGE_SIZE) x PTE_WRITE None s = Some (Inr (s\<lparr>ptm := g\<rparr>))" using r(1) g(1) by simp
    show "tables_ok g 4 p" "tables g 4 p \<subseteq> tables (ptm s) 4 p" using r(2) g unfolding map_result_def by auto
    fix v :: u64
    show "translate g p v = (if unat a \<le> unat v \<and> unat v < unat a + 4096 then Some (x + (v - a)) else translate (ptm s) p v)"
      if v: "unat v div 2 ^ 48 = 0xffff"
    proof -
      have "unat x + (unat a + 4095 - unat a) < 2 ^ 52" using z x(2) by simp
      from map_translate [OF r(2) ff(1,2) this, of v] a(2) v
      have "translate g p v = (if unat a \<le> unat v \<and> unat v \<le> unat a + 4095
          then Some (of_nat (unat x + (unat v - unat a))) else translate (ptm s) p v)" by (simp add: g)
      moreover have "of_nat (unat x + (unat v - unat a)) = x + (v - a)" if "unat a \<le> unat v" using that by (simp add: of_nat_diff)
      moreover have "unat v \<le> unat a + 4095 \<longleftrightarrow> unat v < unat a + 4096" by linarith
      ultimately show ?thesis by simp
    qed
    show "leaf g 4 p v = leaf (ptm s) 4 p v"
      if v: "unat v div 2 ^ 48 = 0xffff" "\<not> (unat a \<le> unat v \<and> unat v < unat a + 4096)" "fst (leaf (ptm s) 4 p v) = 1"
    proof -
      have "unat v div esz (Suc 4) = unat a div esz (Suc 4)" using v(1) a(2) by (simp add: esz_def)
      moreover have "\<not> (unat a \<le> unat v \<and> unat v \<le> unat a + 4095)" using v(2) by linarith
      ultimately have "kept (leaf (ptm s) 4 p v) (leaf g 4 p v)"
        using r(2) unfolding map_result_def range_mapped_def g by auto
      then show ?thesis using v(3) by (auto simp: kept_def)
    qed
    show "fst (leaf g 4 p v) = 1" if v: "unat a \<le> unat v" "unat v < unat a + 4096"
    proof -
      let ?k = "fst (leaf g 4 p v)"
      have "unat v \<le> unat a + 4095" using v(2) by linarith
      then have w: "unat a \<le> unat v div esz ?k * esz ?k" "unat v div esz ?k * esz ?k + esz ?k \<le> Suc (unat a + 4095)"
        using r(2) v(1) unfolding map_result_def pages_within_def g by (auto simp: Let_def)
      have "esz ?k \<le> 4096" using w by linarith
      have "\<not> 2 \<le> ?k"
      proof
        assume "2 \<le> ?k"
        then have "(2 :: nat) ^ 21 \<le> esz ?k" unfolding esz_def by (intro power_increasing) auto
        then show False using \<open>esz ?k \<le> 4096\<close> by simp
      qed
      moreover have "1 \<le> ?k" using leaf_level [of 4 g p v] by simp
      ultimately show ?thesis by linarith
    qed
  qed
qed

section \<open>Mapping pages one after the other\<close>

lemma kmap_loop_ok:
  fixes s :: "'a vm_scheme"
  assumes "list_all2 (\<lambda>page x. page_addr page s = Some (Inr x) \<and> 4096 dvd unat x \<and> unat x < 2 ^ 52) pages xs"
    "tables_ok (ptm s) 4 p" "4096 dvd unat a" "0xffff * 2 ^ 48 \<le> unat a" "unat a + 4096 * length xs < 2 ^ 64"
    "\<And>v. unat a \<le> unat v \<Longrightarrow> unat v < unat a + 4096 * length xs \<Longrightarrow> fst (leaf (ptm s) 4 p v) = 1 \<and> not_present (leaf (ptm s) 4 p v)"
  shows "\<exists>g. kmap_loop (va p) a pages s =
      Some (Inr (s\<lparr>ptm := g, flushed := flushed s @ map (\<lambda>i. a + 4096 * of_nat i) [0..<length xs]\<rparr>)) \<and>
    tables_ok g 4 p \<and> tables g 4 p \<subseteq> tables (ptm s) 4 p \<and>
    (\<forall>v. unat v div 2 ^ 48 = 0xffff \<longrightarrow> translate g p v =
       (if unat a \<le> unat v \<and> unat v < unat a + 4096 * length xs
        then Some (xs ! ((unat v - unat a) div 4096) + of_nat ((unat v - unat a) mod 4096)) else translate (ptm s) p v)) \<and>
    (\<forall>v. unat v div 2 ^ 48 = 0xffff \<longrightarrow> fst (leaf (ptm s) 4 p v) = 1 \<longrightarrow> fst (leaf g 4 p v) = 1)"
  using assms
proof (induction xs arbitrary: pages a s rule: list.induct)
  case Nil
  have "pages = []" using Nil.prems(1) by simp
  then show ?case using Nil.prems(2) by (intro exI [of _ "ptm s"]) simp
next
  case (Cons x xs ps)
  let ?n = "length xs"
  obtain page pages where ps: "ps = page # pages" using Cons.prems(1) by (auto simp: list_all2_Cons2)
  have x: "page_addr page s = Some (Inr x)" "4096 dvd unat x" "unat x < 2 ^ 52" using Cons.prems(1) by (simp_all add: ps)
  have len: "unat a + 4096 + 4096 * ?n < 2 ^ 64" using Cons.prems(5) by simp
  have reg: "unat a div 2 ^ 48 = 0xffff"
  proof -
    have "unat a div 2 ^ 48 < 0x10000" using unat64_less [of a] by (simp add: less_mult_imp_div_less)
    moreover have "0xffff \<le> unat a div 2 ^ 48" using div_le_mono [OF Cons.prems(4), of "2 ^ 48"] by simp
    ultimately show ?thesis by simp
  qed
  have up: "unat v div 2 ^ 48 = 0xffff" if "unat a \<le> unat v" for v :: u64
  proof -
    have "unat v div 2 ^ 48 < 0x10000" using unat64_less [of v] by (simp add: less_mult_imp_div_less)
    moreover have "0xffff \<le> unat v div 2 ^ 48" using div_le_mono [OF that, of "2 ^ 48"] reg by simp
    ultimately show ?thesis by simp
  qed
  obtain g1 where g1: "pt_map_pages (va p) a (a + PAGE_SIZE) x PTE_WRITE None s = Some (Inr (s\<lparr>ptm := g1\<rparr>))"
    "tables_ok g1 4 p" "tables g1 4 p \<subseteq> tables (ptm s) 4 p"
    "\<And>v. unat v div 2 ^ 48 = 0xffff \<Longrightarrow> translate g1 p v =
       (if unat a \<le> unat v \<and> unat v < unat a + 4096 then Some (x + (v - a)) else translate (ptm s) p v)"
    "\<And>v. unat v div 2 ^ 48 = 0xffff \<Longrightarrow> \<not> (unat a \<le> unat v \<and> unat v < unat a + 4096) \<Longrightarrow> fst (leaf (ptm s) 4 p v) = 1 \<Longrightarrow>
       leaf g1 4 p v = leaf (ptm s) 4 p v"
    "\<And>v. unat a \<le> unat v \<Longrightarrow> unat v < unat a + 4096 \<Longrightarrow> fst (leaf g1 4 p v) = 1"
    using map_page_ok [OF Cons.prems(2,3) reg x(2,3)] Cons.prems(6) by auto
  let ?s2 = "s\<lparr>ptm := g1, flushed := flushed s @ [a]\<rparr>" and ?a = "a + PAGE_SIZE"
  have s2: "flush_tlb_addr a (s\<lparr>ptm := g1\<rparr>) = ?s2" by (simp add: flush_tlb_addr_def)
  have z: "same_zones s ?s2" by (simp add: same_zones_def)
  have ua: "unat ?a = unat a + 4096" using len by (simp add: unat_word_ariths(1))
  have pages: "list_all2 (\<lambda>page x. page_addr page ?s2 = Some (Inr x) \<and> 4096 dvd unat x \<and> unat x < 2 ^ 52) pages xs"
    using Cons.prems(1) page_addr_frame [OF _ z] by (auto simp: ps elim!: list_all2_mono)
  have "4096 dvd unat ?a" "0xffff * 2 ^ 48 \<le> unat ?a" "unat ?a + 4096 * ?n < 2 ^ 64"
    using Cons.prems(3,4) len unfolding ua by simp_all
  moreover have "fst (leaf (ptm ?s2) 4 p v) = 1 \<and> not_present (leaf (ptm ?s2) 4 p v)"
    if v: "unat ?a \<le> unat v" "unat v < unat ?a + 4096 * ?n" for v
  proof -
    have w: "unat a \<le> unat v" "unat v < unat a + 4096 * length (x # xs)" "\<not> (unat a \<le> unat v \<and> unat v < unat a + 4096)"
      using v unfolding ua by simp_all
    then have e: "fst (leaf (ptm s) 4 p v) = 1 \<and> not_present (leaf (ptm s) 4 p v)" using Cons.prems(6) by blast
    have "leaf g1 4 p v = leaf (ptm s) 4 p v" using g1(5) [OF up [OF w(1)] w(3)] e by blast
    then show ?thesis using e by simp
  qed
  ultimately obtain g where g: "kmap_loop (va p) ?a pages ?s2 =
      Some (Inr (?s2\<lparr>ptm := g, flushed := flushed ?s2 @ map (\<lambda>i. ?a + 4096 * of_nat i) [0..<?n]\<rparr>))"
    "tables_ok g 4 p" "tables g 4 p \<subseteq> tables (ptm ?s2) 4 p"
    "\<And>v. unat v div 2 ^ 48 = 0xffff \<Longrightarrow> translate g p v =
       (if unat ?a \<le> unat v \<and> unat v < unat ?a + 4096 * ?n
        then Some (xs ! ((unat v - unat ?a) div 4096) + of_nat ((unat v - unat ?a) mod 4096)) else translate (ptm ?s2) p v)"
    "\<And>v. unat v div 2 ^ 48 = 0xffff \<Longrightarrow> fst (leaf (ptm ?s2) 4 p v) = 1 \<Longrightarrow> fst (leaf g 4 p v) = 1"
    using Cons.IH [OF pages, of ?a] g1(2) by auto
  have fl: "map (\<lambda>i. a + 4096 * of_nat i) [0..<length (x # xs)] = a # map (\<lambda>i. ?a + 4096 * of_nat i) [0..<?n]"
    by (simp add: map_upt_Suc algebra_simps del: upt_Suc)
  have "kmap_loop (va p) a ps s =
      Some (Inr (s\<lparr>ptm := g, flushed := flushed s @ map (\<lambda>i. a + 4096 * of_nat i) [0..<length (x # xs)]\<rparr>))"
    unfolding ps kmap_loop.simps x(1) bindO_simps g1(1) s2 g(1) fl by simp
  moreover have "tables g 4 p \<subseteq> tables (ptm s) 4 p" using g(3) g1(3) by simp
  moreover have "translate g p v =
      (if unat a \<le> unat v \<and> unat v < unat a + 4096 * length (x # xs)
       then Some ((x # xs) ! ((unat v - unat a) div 4096) + of_nat ((unat v - unat a) mod 4096)) else translate (ptm s) p v)"
    if v: "unat v div 2 ^ 48 = 0xffff" for v
  proof -
    have 1: "translate g1 p v = (if unat a \<le> unat v \<and> unat v < unat a + 4096 then Some (x + (v - a)) else translate (ptm s) p v)"
      by (rule g1(4) [OF v])
    have 2: "translate g p v = (if unat a + 4096 \<le> unat v \<and> unat v < unat a + 4096 + 4096 * ?n
        then Some (xs ! ((unat v - (unat a + 4096)) div 4096) + of_nat ((unat v - (unat a + 4096)) mod 4096)) else translate g1 p v)"
      using g(4) [OF v] unfolding ua by simp
    consider "unat v < unat a \<or> unat a + 4096 + 4096 * ?n \<le> unat v" | "unat a \<le> unat v" "unat v < unat a + 4096"
      | k where "unat v = unat a + 4096 + k" "k < 4096 * ?n"
    proof (cases "unat a + 4096 \<le> unat v \<and> unat v < unat a + 4096 + 4096 * ?n")
      case True
      then have "unat v = unat a + 4096 + (unat v - (unat a + 4096))" "unat v - (unat a + 4096) < 4096 * ?n" by linarith+
      then show thesis using that(3) by blast
    next
      case False
      then show thesis using that(1,2) by linarith
    qed
    then show ?thesis
    proof cases
      case 2
      have "v - a = of_nat (unat v - unat a)" using 2(1) by (simp add: of_nat_diff)
      then show ?thesis using 1 \<open>translate g p v = _\<close> 2 by simp
    next
      case 3
      have "(unat v - unat a) div 4096 = Suc (k div 4096)" "(unat v - unat a) mod 4096 = k mod 4096"
        unfolding 3(1) by simp_all
      then show ?thesis using 2 3 by simp
    qed (use 1 2 in auto)
  qed
  moreover have "fst (leaf g 4 p v) = 1" if v: "unat v div 2 ^ 48 = 0xffff" "fst (leaf (ptm s) 4 p v) = 1" for v
  proof (cases "unat a \<le> unat v \<and> unat v < unat a + 4096")
    case True
    then show ?thesis using g(5) [OF v(1)] g1(6) by simp
  next
    case False
    then show ?thesis using g(5) [OF v(1)] g1(5) [OF v(1) False v(2)] v(2) by simp
  qed
  ultimately show ?case using g(2) by blast
qed

section \<open>Clearing entries\<close>

text \<open>The table of level 1 on the way to an address that has one.\<close>

primrec last_table :: "(addr \<Rightarrow> u64) \<Rightarrow> nat \<Rightarrow> u64 \<Rightarrow> u64 \<Rightarrow> u64" where
  "last_table h 0 p v = p"
| "last_table h (Suc l) p v = (if l = 0 then p else last_table h l (child h p (idx (Suc l) v)) v)"

lemma level1_dir:
  assumes "fst (leaf h (Suc l) p v) = 1" "1 \<le> l"
  shows "is_dir (Suc l) (entry h p (idx (Suc l) v))" "fst (leaf h l (child h p (idx (Suc l) v)) v) = 1"
  using assms by (auto simp: Let_def split: if_splits)

lemma last_table_in:
  "1 \<le> l \<Longrightarrow> fst (leaf h l p v) = 1 \<Longrightarrow> last_table h l p v \<in> tables h l p \<and> leaf h l p v = (1, entry h (last_table h l p v) (idx 1 v))"
proof (induction l arbitrary: p)
  case (Suc l)
  show ?case
  proof (cases "l = 0")
    case True
    then show ?thesis by (simp add: is_dir_def Let_def)
  next
    case False
    then have l: "1 \<le> l" by simp
    note d = level1_dir [OF Suc.prems(2) l]
    have "last_table h l (child h p (idx (Suc l) v)) v \<in> tables h (Suc l) p"
      using Suc.IH [OF l d(2)] tables_child [OF idx_less d(1)] by blast
    then show ?thesis using Suc.IH [OF l d(2)] d(1) False by (simp add: Let_def)
  qed
qed simp

lemma pte_walk_ok:
  "l \<le> 4 \<Longrightarrow> 1 \<le> l \<Longrightarrow> fst (leaf (ptm s) l p v) = 1 \<Longrightarrow> w AND PTE_PHYS_MASK = p \<Longrightarrow>
   pte_walk l v pte w s = Inr (word_of_table (last_table (ptm s) l p v) (idx 1 v))"
proof (induction l arbitrary: p w pte)
  case (Suc l)
  have o: "pml_offs v (Suc l) = Inr (idx (Suc l) v)" using Suc.prems(1) by (intro pml_offs_idx) auto
  have a: "va p + 8 * of_nat (idx (Suc l) v) = word_of_table p (idx (Suc l) v)" by (simp add: word_of_table_def)
  show ?case
  proof (cases "l = 0")
    case True
    then show ?thesis using o a Suc.prems(4) by (simp add: Let_def)
  next
    case False
    then have l: "1 \<le> l" by simp
    note d = level1_dir [OF Suc.prems(3) l]
    have "l \<le> 4" using Suc.prems(1) by simp
    from Suc.IH [OF this l d(2), of "ptm s (word_of_table p (idx (Suc l) v))"] show ?thesis
      using o Suc.prems(4) False by (simp add: Let_def a child_def entry_def)
  qed
qed simp

lemma same_page_idx:
  assumes "unat w div esz (Suc l) = unat v div esz (Suc l)"
  shows "idx l w = idx l v \<longleftrightarrow> unat w div esz l = unat v div esz l"
  using same_entry [OF assms] by (simp add: idx_def)

lemma clear_entry_ok:
  assumes "tables_ok h l p" "1 \<le> l" "fst (leaf h l p v) = 1"
  defines "h' \<equiv> h(word_of_table (last_table h l p v) (idx 1 v) := 0)"
  shows "tables_ok h' l p \<and> tables h' l p = tables h l p \<and>
    (\<forall>w. unat w div esz (Suc l) = unat v div esz (Suc l) \<longrightarrow>
      leaf h' l p w = (if unat w div 4096 = unat v div 4096 then (1, 0) else leaf h l p w))"
  using assms(1-3) unfolding h'_def
proof (induction l arbitrary: p)
  case (Suc l)
  let ?i = "idx (Suc l) v"
  define q where "q = last_table h (Suc l) p v"
  define h2 where "h2 = h(word_of_table q (idx 1 v) := 0)"
  have q: "q \<in> tables h (Suc l) p" using last_table_in [OF Suc.prems(2,3)] unfolding q_def by blast
  then have qp: "page_ok q" using tables_page_ok [OF Suc.prems(1)] by blast
  have same: "same_table h h2 r" if "r \<in> tables h (Suc l) p" "r \<noteq> q" for r
    using tables_page_ok [OF Suc.prems(1)] that unfolding h2_def by (intro same_table_set [OF qp _ idx_less]) auto
  have "tables_ok h2 (Suc l) p \<and> tables h2 (Suc l) p = tables h (Suc l) p \<and>
    (\<forall>w. unat w div esz (Suc (Suc l)) = unat v div esz (Suc (Suc l)) \<longrightarrow>
      leaf h2 (Suc l) p w = (if unat w div 4096 = unat v div 4096 then (1, 0) else leaf h (Suc l) p w))"
  proof (cases "l = 0")
    case True
    have e: "entry h2 p j = (if j = idx 1 v then 0 else entry h p j)" if "j < 512" for j
      using entry_set [OF _ idx_less that, of p h 1 v 0] qp True by (simp add: h2_def q_def)
    have "\<not> is_dir (Suc l) x" for x using True by (simp add: is_dir_def)
    then have "tables_ok h2 (Suc l) p" "tables h2 (Suc l) p = tables h (Suc l) p"
      and lf: "leaf h2 (Suc l) p w = (1, entry h2 p (idx 1 w))" "leaf h (Suc l) p w = (1, entry h p (idx 1 w))" for w
      using Suc.prems(1) True by (simp_all add: Let_def)
    moreover have "leaf h2 (Suc l) p w = (if unat w div 4096 = unat v div 4096 then (1, 0) else leaf h (Suc l) p w)"
      if "unat w div esz (Suc (Suc l)) = unat v div esz (Suc (Suc l))" for w
      using same_page_idx [of w 1 v] that True unfolding lf e [OF idx_less] by (simp add: esz_simps)
    ultimately show ?thesis by blast
  next
    case False
    then have l: "1 \<le> l" by simp
    note d = level1_dir [OF Suc.prems(3) l]
    let ?c = "child h p ?i"
    have lq: "q = last_table h l ?c v" using False by (simp add: q_def)
    have qc: "q \<in> tables h l ?c" using last_table_in [OF l d(2)] unfolding lq by blast
    have pc: "p \<notin> tables h l ?c" using tables_okD(3) [OF Suc.prems(1) idx_less d(1)] .
    then have pq: "q \<noteq> p" using qc by blast
    have ep: "entry h2 p j = entry h p j" if "j < 512" for j
      using same [of p] pq that by (simp add: same_table_def)
    have cp: "child h2 p j = child h p j" if "j < 512" for j using ep [OF that] by (simp add: child_def)
    note IH = Suc.IH [OF tables_okD(2) [OF Suc.prems(1) idx_less d(1)] l d(2), folded lq h2_def]
    have dj: "tables h l ?c \<inter> tables h l (child h p j) = {}" if "j < 512" "j \<noteq> ?i" "is_dir (Suc l) (entry h p j)" for j
      using tables_okD(4) [OF Suc.prems(1) idx_less d(1) that] .
    have other: "\<forall>r\<in>tables h l (child h p j). same_table h h2 r" if "j < 512" "j \<noteq> ?i" "is_dir (Suc l) (entry h p j)" for j
      using dj [OF that] qc same tables_child [OF that(1,3)] by blast
    have "\<forall>j<512. j \<noteq> ?i \<longrightarrow> entry h2 p j = entry h p j"
      "\<forall>j<512. j \<noteq> ?i \<longrightarrow> is_dir (Suc l) (entry h p j) \<longrightarrow> (\<forall>r\<in>tables h l (child h p j). same_table h h2 r)"
      "is_dir (Suc l) (entry h2 p ?i) \<longrightarrow> tables_ok h2 l (child h2 p ?i) \<and> p \<notin> tables h2 l (child h2 p ?i) \<and>
        (\<forall>j<512. j \<noteq> ?i \<longrightarrow> is_dir (Suc l) (entry h p j) \<longrightarrow> tables h2 l (child h2 p ?i) \<inter> tables h l (child h p j) = {})"
      using ep other IH pc dj unfolding cp [OF idx_less] by simp_all
    note up = table_update [OF Suc.prems(1) idx_less this]
    have "tables h2 (Suc l) p = tables h (Suc l) p"
    proof -
      have "tables h2 l (child h2 p j) = tables h l (child h p j)" if "j < 512" "is_dir (Suc l) (entry h p j)" for j
      proof (cases "j = ?i")
        case True
        then show ?thesis using IH cp [OF that(1)] by simp
      next
        case jF: False
        then show ?thesis using tables_frame [OF other [OF that(1) jF that(2)]] cp [OF that(1)] by simp
      qed
      then show ?thesis using ep by (auto cong: conj_cong)
    qed
    moreover have "leaf h2 (Suc l) p w = (if unat w div 4096 = unat v div 4096 then (1, 0) else leaf h (Suc l) p w)"
      if w: "unat w div esz (Suc (Suc l)) = unat v div esz (Suc (Suc l))" for w
    proof (cases "idx (Suc l) w = ?i")
      case True
      then have "unat w div esz (Suc l) = unat v div esz (Suc l)" using same_page_idx [OF w] by simp
      then have "leaf h2 l ?c w = (if unat w div 4096 = unat v div 4096 then (1, 0) else leaf h l ?c w)" using IH by blast
      then show ?thesis using True d(1) ep [OF idx_less] cp [OF idx_less] by (simp add: Let_def)
    next
      case iF: False
      then have "unat w div esz (Suc l) \<noteq> unat v div esz (Suc l)" by (auto simp: idx_def)
      then have "unat w div 4096 \<noteq> unat v div 4096" using region_up [of "unat w" 1 "unat v" "Suc l"] by (auto simp: esz_simps)
      then show ?thesis using up(3) [OF iF] by simp
    qed
    ultimately show ?thesis using up(1) by blast
  qed
  then show ?case unfolding h2_def q_def .
qed simp

section \<open>Clearing a range\<close>

lemma unmap_step:
  assumes "tables_ok (ptm s) 4 p" "fst (leaf (ptm s) 4 p a) = 1" "p AND PTE_PHYS_MASK = p"
    "unat a div 2 ^ 48 = 0xffff" "4096 dvd unat a"
  obtains g where "pte_walk 4 a NULL p s = Inr (word_of_table (last_table (ptm s) 4 p a) (idx 1 a))"
    "set_pte (word_of_table (last_table (ptm s) 4 p a) (idx 1 a)) 0 s = s\<lparr>ptm := g\<rparr>" "tables_ok g 4 p" "tables g 4 p = tables (ptm s) 4 p"
    "\<And>v. unat v div 2 ^ 48 = 0xffff \<Longrightarrow>
       leaf g 4 p v = (if unat a \<le> unat v \<and> unat v < unat a + 4096 then (1, 0) else leaf (ptm s) 4 p v)"
proof -
  let ?g = "(ptm s)(word_of_table (last_table (ptm s) 4 p a) (idx 1 a) := 0)"
  have l: "(1 :: nat) \<le> 4" by simp
  note c = clear_entry_ok [OF assms(1) l assms(2)]
  have page: "unat v div 4096 = unat a div 4096 \<longleftrightarrow> unat a \<le> unat v \<and> unat v < unat a + 4096" for v :: u64
  proof -
    obtain y where "unat a = y * 4096" using assms(5) by (auto elim: dvdE)
    moreover have "unat v = unat v div 4096 * 4096 + unat v mod 4096" "unat v mod 4096 < 4096" by simp_all
    ultimately show ?thesis by simp linarith
  qed
  show thesis
  proof (rule that [of ?g])
    show "pte_walk 4 a NULL p s = Inr (word_of_table (last_table (ptm s) 4 p a) (idx 1 a))"
      by (rule pte_walk_ok [OF order_refl l assms(2,3)])
    show "set_pte (word_of_table (last_table (ptm s) 4 p a) (idx 1 a)) 0 s = s\<lparr>ptm := ?g\<rparr>" by (simp add: set_pte_def)
    show "tables_ok ?g 4 p" "tables ?g 4 p = tables (ptm s) 4 p" using c by blast+
    show "leaf ?g 4 p v = (if unat a \<le> unat v \<and> unat v < unat a + 4096 then (1, 0) else leaf (ptm s) 4 p v)"
      if "unat v div 2 ^ 48 = 0xffff" for v
      using c that assms(4) unfolding page [symmetric] by (simp add: esz_def)
  qed
qed

lemma kunmap_loop_ok:
  fixes s :: "'a vm_scheme"
  assumes "tables_ok (ptm s) 4 p" "p AND PTE_PHYS_MASK = p" "4096 dvd unat a" "0xffff * 2 ^ 48 \<le> unat a" "unat a + 4096 * n < 2 ^ 64"
    "\<And>v. unat a \<le> unat v \<Longrightarrow> unat v < unat a + 4096 * n \<Longrightarrow> fst (leaf (ptm s) 4 p v) = 1"
  shows "\<exists>g. kunmap_loop p a (a + of_nat n * PAGE_SIZE) s =
      Some (Inr (s\<lparr>ptm := g, flushed := flushed s @ map (\<lambda>i. a + 4096 * of_nat i) [0..<n]\<rparr>)) \<and>
    tables_ok g 4 p \<and> tables g 4 p = tables (ptm s) 4 p \<and>
    (\<forall>v. unat v div 2 ^ 48 = 0xffff \<longrightarrow>
       leaf g 4 p v = (if unat a \<le> unat v \<and> unat v < unat a + 4096 * n then (1, 0) else leaf (ptm s) 4 p v))"
  using assms
proof (induction n arbitrary: a s)
  case 0
  then show ?case by (intro exI [of _ "ptm s"]) (subst kunmap_loop.simps, simp)
next
  case (Suc n)
  let ?a = "a + PAGE_SIZE"
  have len: "unat a + 4096 + 4096 * n < 2 ^ 64" using Suc.prems(5) by simp
  have reg: "unat a div 2 ^ 48 = 0xffff"
  proof -
    have "unat a div 2 ^ 48 < 0x10000" using unat64_less [of a] by (simp add: less_mult_imp_div_less)
    moreover have "0xffff \<le> unat a div 2 ^ 48" using div_le_mono [OF Suc.prems(4), of "2 ^ 48"] by simp
    ultimately show ?thesis by simp
  qed
  have up: "unat v div 2 ^ 48 = 0xffff" if "unat a \<le> unat v" for v :: u64
  proof -
    have "unat v div 2 ^ 48 < 0x10000" using unat64_less [of v] by (simp add: less_mult_imp_div_less)
    moreover have "0xffff \<le> unat v div 2 ^ 48" using div_le_mono [OF that, of "2 ^ 48"] reg by simp
    ultimately show ?thesis by simp
  qed
  have ua: "unat ?a = unat a + 4096" using len by (simp add: unat_word_ariths(1))
  have la: "fst (leaf (ptm s) 4 p a) = 1" using Suc.prems(6) [of a] by simp
  obtain g1 where g1: "pte_walk 4 a NULL p s = Inr (word_of_table (last_table (ptm s) 4 p a) (idx 1 a))"
    "set_pte (word_of_table (last_table (ptm s) 4 p a) (idx 1 a)) 0 s = s\<lparr>ptm := g1\<rparr>" "tables_ok g1 4 p" "tables g1 4 p = tables (ptm s) 4 p"
    "\<And>v. unat v div 2 ^ 48 = 0xffff \<Longrightarrow>
       leaf g1 4 p v = (if unat a \<le> unat v \<and> unat v < unat a + 4096 then (1, 0) else leaf (ptm s) 4 p v)"
    using unmap_step [OF Suc.prems(1) la Suc.prems(2) reg Suc.prems(3)] by metis
  let ?s2 = "s\<lparr>ptm := g1, flushed := flushed s @ [a]\<rparr>"
  have s2: "flush_tlb_addr a (s\<lparr>ptm := g1\<rparr>) = ?s2" by (simp add: flush_tlb_addr_def)
  have "fst (leaf (ptm ?s2) 4 p v) = 1" if v: "unat ?a \<le> unat v" "unat v < unat ?a + 4096 * n" for v
  proof -
    have "unat a \<le> unat v" "unat v < unat a + 4096 * Suc n" using v unfolding ua by simp_all
    then show ?thesis using g1(5) [OF up] Suc.prems(6) by simp
  qed
  moreover have "4096 dvd unat ?a" "0xffff * 2 ^ 48 \<le> unat ?a" "unat ?a + 4096 * n < 2 ^ 64"
    using Suc.prems(3,4) len unfolding ua by simp_all
  ultimately obtain g where g: "kunmap_loop p ?a (?a + of_nat n * PAGE_SIZE) ?s2 =
      Some (Inr (?s2\<lparr>ptm := g, flushed := flushed ?s2 @ map (\<lambda>i. ?a + 4096 * of_nat i) [0..<n]\<rparr>))"
    "tables_ok g 4 p" "tables g 4 p = tables (ptm ?s2) 4 p"
    "\<forall>v. unat v div 2 ^ 48 = 0xffff \<longrightarrow>
       leaf g 4 p v = (if unat ?a \<le> unat v \<and> unat v < unat ?a + 4096 * n then (1, 0) else leaf (ptm ?s2) 4 p v)"
    using Suc.IH [of ?s2 ?a] Suc.prems(2) g1(3) by auto
  have fl: "map (\<lambda>i. a + 4096 * of_nat i) [0..<Suc n] = a # map (\<lambda>i. ?a + 4096 * of_nat i) [0..<n]"
    by (simp add: map_upt_Suc algebra_simps del: upt_Suc)
  have e: "?a + of_nat n * PAGE_SIZE = a + of_nat (Suc n) * PAGE_SIZE" by (simp add: algebra_simps)
  have ne: "a \<noteq> a + of_nat (Suc n) * PAGE_SIZE"
  proof -
    have "unat (of_nat (Suc n) * PAGE_SIZE :: u64) = 4096 * Suc n"
    proof -
      have "(of_nat (Suc n) * PAGE_SIZE :: u64) = of_nat (4096 * Suc n)" by simp
      moreover have "4096 * Suc n < 2 ^ 64" using Suc.prems(5) by simp
      ultimately show ?thesis by (simp only: unat_of_nat64)
    qed
    then have "of_nat (Suc n) * PAGE_SIZE \<noteq> (0 :: u64)" by (metis Suc_not_Zero mult_is_0 unat_0 zero_neq_numeral)
    then show ?thesis by simp
  qed
  have "kunmap_loop p a (a + of_nat (Suc n) * PAGE_SIZE) s =
      Some (Inr (s\<lparr>ptm := g, flushed := flushed s @ map (\<lambda>i. a + 4096 * of_nat i) [0..<Suc n]\<rparr>))"
    using ne g(1) unfolding e fl by (subst kunmap_loop.simps) (simp add: g1(1,2) s2 del: of_nat_Suc One_nat_def)
  moreover have "leaf g 4 p v = (if unat a \<le> unat v \<and> unat v < unat a + 4096 * Suc n then (1, 0) else leaf (ptm s) 4 p v)"
    if "unat v div 2 ^ 48 = 0xffff" for v
    using g(4) g1(5) [OF that] that unfolding ua by auto
  ultimately show ?case using g(2,3) g1(4) by (intro exI [of _ g]) simp
qed

end
