(* ===== verification/PagePool.thy ===== *)
theory PagePool
  imports PageWindow PageProps
begin

text \<open>
  The pool of \<^verbatim>\<open>kmap_setup\<close>: tables from the page allocator, and the tables of the window it is asked
  for. The frame condition of \<^verbatim>\<open>page_alloc\<close> is that it writes only to the fields of its own state.
\<close>

section \<open>The page allocator as a pool\<close>

lemma alloc_split_more: "alloc_split z i m n s = Inr s' \<Longrightarrow> pgs.more s' = pgs.more s"
proof (induction m arbitrary: s)
  case 0
  then show ?case by (simp add: alloc_split.simps [of z i 0] split: if_splits)
next
  case (Suc c)
  note eq = Suc.prems [unfolded alloc_split.simps [of z i "Suc c" n s]]
  show ?case
    using eq by (auto simp: Let_def page_set_order_def page_set_free_def split: if_splits dest!: Suc.IH)
qed

lemma raw_page_alloc_zone_more: "raw_page_alloc_zone z n s = Inr (p, s') \<Longrightarrow> pgs.more s' = pgs.more s"
  by (auto simp: raw_page_alloc_zone_def Let_def page_set_busy_def split: if_splits dest!: alloc_split_more)

lemma page_alloc_zone_more: "page_alloc_zone z n s = Inr (p, s') \<Longrightarrow> pgs.more s' = pgs.more s"
  by (auto simp: page_alloc_zone_def spin_defs Let_def split: if_splits dest!: raw_page_alloc_zone_more)

lemma page_alloc_from_more:
  assumes "page_alloc_from ptr n s = Some (Inr (a, s'))"
  shows "pgs.more s' = pgs.more s"
proof -
  have "case y of Inl _ \<Rightarrow> True | Inr (a, s') \<Rightarrow> pgs.more s' = pgs.more s" if "page_alloc_from ptr n s = Some y"
    for ptr n and s :: "'a pgs_scheme" and y
  proof (rule page_alloc_from.raw_induct [of "\<lambda>ptr n s y. case y of Inl _ \<Rightarrow> True | Inr (a, s') \<Rightarrow> pgs.more s' = pgs.more s", OF _ that])
    fix loop :: "addr \<Rightarrow> nat \<Rightarrow> 'a pgs_scheme \<Rightarrow> (u64 \<times> 'a pgs_scheme) res option" and ptr n s y
    assume IH: "\<And>ptr n s y. loop ptr n s = Some y \<Longrightarrow> case y of Inl _ \<Rightarrow> True | Inr (a, s') \<Rightarrow> pgs.more s' = pgs.more s"
      and eq: "(if ptr = zones_head s then Some (Inr (0, s))
        else case page_alloc_zone (ptr - 8) n s of Inl e \<Rightarrow> Some (Inl e)
          | Inr (page, s) \<Rightarrow> if page = NULL then loop (lh_next (ll s) ptr) n s
              else Some (Inr (push_bit PAGE_SHIFT (zone_begin s (ptr - 8) + page_diff page (ptr - 8)), s))) = Some y"
    show "case y of Inl _ \<Rightarrow> True | Inr (a, s') \<Rightarrow> pgs.more s' = pgs.more s"
      using eq page_alloc_zone_more [of "ptr - 8" n s] IH by (fastforce split: if_splits sum.splits prod.splits)
  qed
  from this [OF assms] show ?thesis by simp
qed

lemma page_alloc_more: "page_alloc n s = Some (Inr (a, s')) \<Longrightarrow> pgs.more s' = pgs.more s"
  by (auto simp: page_alloc_def split: if_splits dest: page_alloc_from_more)

lemma page_rep_ptm: "page_rep (s\<lparr>ptm := g\<rparr>) P B K = page_rep s P B K" for s :: "'a vm_scheme"
  by (simp add: page_rep_def mem_state_def mem_inv_def zone_inv_def flags_ok_def page_is_free_def page_order_def alloc_heads_def)

lemma page_alloc_0:
  assumes "page_rep s P B K" "P \<noteq> {}"
  obtains i s' where "page_alloc 0 s = Some (Inr (frame_addr i, s'))" "frame_addr i \<noteq> 0" "i \<in> P" "i < 2 ^ 52"
    "page_rep s' (P - {i}) (insert (i, 0) B) K"
proof -
  obtain zs F A L where st: "mem_state zs F A L K s" and P: "P = free_pages zs F" using assms(1) by (auto simp: page_rep_def)
  have inv: "mem_inv zs F A L s" using st by (simp add: mem_state_def)
  obtain z b e i where z: "(z, b, e) \<in> set zs" "i \<in> covered (F z)" using assms(2) unfolding P by (auto simp: free_pages_def)
  then have "can_alloc 0 (F z)" unfolding can_alloc_def covered_def by auto
  then have "alloc_zone 0 F zs \<noteq> None" using z(1) by (auto simp: alloc_zone_def find_None_iff)
  then have "page_alloc 0 s \<noteq> Some (Inr (0, s))" using page_alloc_fails [OF st, of 0] by simp
  then obtain j s' where j: "page_alloc 0 s = Some (Inr (frame_addr j, s'))" "frame_addr j \<noteq> 0" "span (j, 0) \<subseteq> P"
      "page_rep s' (P - span (j, 0)) (insert (j, 0) B) K"
    using pages.alloc_result [OF assms(1), of 0] by auto
  have sp: "span (j, 0) = {j}" by (auto simp: span_def)
  have "j \<in> P" using j(3) sp by simp
  then obtain z' b' e' where z': "(z', b', e') \<in> set zs" "j \<in> covered (F z')" unfolding P by (auto simp: free_pages_def)
  then have "j < 2 ^ 52" using zone_index_small [OF inv z'(1)] free_block_range [OF inv z'(1)] by blast
  then show thesis using that j \<open>j \<in> P\<close> unfolding sp by blast
qed

definition alloc_inv :: "'a vm_scheme \<Rightarrow> nat set \<Rightarrow> 'a vm_scheme \<Rightarrow> u64 set \<Rightarrow> nat \<Rightarrow> bool" where
  "alloc_inv s0 P0 s U n \<longleftrightarrow>
     (\<exists>P B K. page_rep s P B K \<and> finite P \<and> P \<subseteq> P0 \<and> n \<le> card P \<and> (\<forall>i\<in>P. i < 2 ^ 40 \<and> frame_addr i \<notin> U)) \<and>
     pgs.more (s\<lparr>ptm := ptm s0\<rparr>) = pgs.more s0"

interpretation alloc_pool: table_pool "Some kmap_setup_pool" "alloc_inv s0 P0" for s0 :: "'a vm_scheme" and P0
proof
  fix s :: "'a vm_scheme" and U n
  assume "alloc_inv s0 P0 s U (Suc n)"
  then obtain P B K where i: "page_rep s P B K" "finite P" "P \<subseteq> P0" "Suc n \<le> card P" "\<forall>i\<in>P. i < 2 ^ 40 \<and> frame_addr i \<notin> U"
      and more: "pgs.more (s\<lparr>ptm := ptm s0\<rparr>) = pgs.more s0"
    unfolding alloc_inv_def by blast
  have "P \<noteq> {}" using i(4) by auto
  then obtain j s' where j: "page_alloc 0 s = Some (Inr (frame_addr j, s'))" "frame_addr j \<noteq> 0" "j \<in> P"
      "page_rep s' (P - {j}) (insert (j, 0) B) K"
    using page_alloc_0 [OF i(1)] by metis
  have m: "pgs.more s' = pgs.more s" by (rule page_alloc_more [OF j(1)])
  then have same: "ptm s' = ptm s" by (cases s; cases s') simp
  have m': "pgs.more (s'\<lparr>ptm := ptm s0\<rparr>) = pgs.more (s\<lparr>ptm := ptm s0\<rparr>)" using m by (cases s; cases s') simp
  let ?q = "frame_addr j" and ?t = "s'\<lparr>ptm := cleared (frame_addr j) (ptm s)\<rparr>"
  have j40: "j < 2 ^ 40" using i(5) j(3) by blast
  have u: "unat ?q = 4096 * j" using j40 by (intro unat_frame_addr) simp
  have "?q AND PTE_PHYS_MASK = ?q" using u j40 by (intro page_mask) (simp_all add: page_ok_def)
  moreover have "frame_addr k \<noteq> ?q" if "k \<in> P - {j}" for k
  proof -
    have "k < 2 ^ 52" using i(5) that by fastforce
    then show ?thesis using u unat_frame_addr [of k] that by auto
  qed
  then have "alloc_inv s0 P0 ?t (insert ?q U) n"
    unfolding alloc_inv_def page_rep_ptm using j(3,4) i more m by (intro conjI exI [of _ "P - {j}"] exI [of _ "insert (j, 0) B"] exI [of _ K])
      (auto simp: card_Diff_singleton m')
  moreover have "pool_get_page (Some kmap_setup_pool) s = Some (Inr (?q, ?t))"
    using j(1,2) by (simp add: pool_get_page_def kmap_setup_pool_def kmap_setup_get_page_def clear_table_eq same Let_def)
  ultimately show "\<exists>q s'. pool_get_page (Some kmap_setup_pool) s = Some (Inr (q, s')) \<and> q \<notin> U \<and> q \<noteq> 0 \<and>
      q AND PTE_PHYS_MASK = q \<and> ptm s' = cleared q (ptm s) \<and> alloc_inv s0 P0 s' (insert q U) n"
    using j(2,3) i(5) by (intro exI [of _ ?q] exI [of _ ?t]) auto
next
  fix s :: "'a vm_scheme" and U n a v
  assume "alloc_inv s0 P0 s U n"
  then show "alloc_inv s0 P0 (set_pte a v s) U n"
    unfolding alloc_inv_def set_pte_def page_rep_ptm by simp
next
  fix s :: "'a vm_scheme" and U n m
  assume "alloc_inv s0 P0 s U n" "m \<le> n"
  then show "alloc_inv s0 P0 s U m" unfolding alloc_inv_def by (meson le_trans)
qed

section \<open>How many tables the window needs\<close>

lemma tables_per_entry:
  assumes l: "1 < l" and c: "\<And>b d P. b \<le> d \<Longrightarrow> b div esz l = d div esz l \<Longrightarrow> 1 + new_tables fl (l - 1) b d P \<le> c"
  shows "b \<le> f \<Longrightarrow> new_tables fl l b f P \<le> c * (f div esz l - b div esz l + 1)"
proof (induction "f - b" arbitrary: b P rule: less_induct)
  case less
  define d where "d = min f (entry_last l b)"
  note el = entry_last_facts [where b = b and l = l]
  have bd: "b \<le> d" "d \<le> f" using less.prems el(1) by (auto simp: d_def)
  have "d div esz l \<le> entry_last l b div esz l" by (rule div_le_mono) (simp add: d_def)
  then have e: "b div esz l = d div esz l" using div_le_mono [OF bd(1), of "esz l"] el(2) by simp
  have step: "new_tables fl l b f P \<le> c + new_tables fl l (Suc d) f (P + (Suc d - b))"
    using new_tables_step [OF l less.prems d_def, of fl P] c [OF bd(1) e, of P] by auto
  show ?case
  proof (cases "d = f")
    case True
    then show ?thesis using step e by (simp add: new_tables_empty)
  next
    case False
    then have Sd: "Suc d = (b div esz l + 1) * esz l" "d < f" using bd el(3) by (auto simp: d_def min_def split: if_splits)
    have q: "Suc d div esz l = b div esz l + 1" unfolding Sd(1) by simp
    have "new_tables fl l (Suc d) f (P + (Suc d - b)) \<le> c * (f div esz l - Suc d div esz l + 1)"
      using less.hyps [of "Suc d" "P + (Suc d - b)"] bd Sd(2) by simp
    moreover have "f div esz l - b div esz l + 1 = Suc (f div esz l - Suc d div esz l + 1)"
      using q div_le_mono [of "Suc d" f "esz l"] Sd(2) by simp
    ultimately show ?thesis using step by simp
  qed
qed

lemma within_entry:
  assumes "b div esz (Suc l) = d div esz (Suc l)"
  shows "d div esz l - b div esz l + 1 \<le> 512"
proof -
  have "b div esz l div 512 = d div esz l div 512" using assms by (simp add: region_split)
  then show ?thesis using div_mult_mod_eq [of "b div esz l" 512] div_mult_mod_eq [of "d div esz l" 512]
    mod_less_divisor [of 512 "d div esz l"] by linarith
qed

lemma window_tables: "new_tables fl 4 (unat KMAP_BEGIN) (unat KMAP_END - 1) P \<le> 1027"
proof -
  have 1: "new_tables fl (2 - 1) b d P = 0" for b d P by (subst new_tables.simps) simp
  have 2: "1 + new_tables fl (3 - 1) b d P \<le> 513" if "b \<le> d" "b div esz 3 = d div esz 3" for b d P
  proof -
    have "new_tables fl 2 b d P \<le> 1 * (d div esz 2 - b div esz 2 + 1)"
      using tables_per_entry [of 2 fl 1 b d P] 1 that(1) by simp
    moreover have "d div esz 2 - b div esz 2 + 1 \<le> 512" using within_entry [of b 2 d] that(2) by simp
    ultimately show ?thesis by simp
  qed
  let ?b = "unat KMAP_BEGIN" and ?f = "unat KMAP_END - 1"
  have d: "?f = min ?f (entry_last 4 ?b)" by (simp add: entry_last_def esz_simps)
  have "new_tables fl 3 ?b ?f P \<le> 513 * (?f div esz 3 - ?b div esz 3 + 1)"
    by (rule tables_per_entry [OF _ 2]) simp_all
  then have "new_tables fl 3 ?b ?f P \<le> 1026" by (simp add: esz_simps)
  then show ?thesis using new_tables_step [OF _ _ d, of fl P] by (simp add: new_tables_empty)
qed

section \<open>The tables of the window\<close>

abbreviation (input) window_last :: nat where "window_last \<equiv> unat KMAP_END - 1"

lemma populate_window_ok:
  fixes s :: "'a vm_scheme"
  assumes tab: "tables_ok (ptm s) 4 p" "tables (ptm s) 4 p \<subseteq> U" "\<forall>q\<in>U. page_ok q" "alloc_inv s0 P0 s U n" and n: "1027 \<le> n"
    and w: "unmapped (ptm s) 4 p (unat KMAP_BEGIN) window_last" "sparse (ptm s) 4 p (unat KMAP_BEGIN) window_last"
  obtains U' n' s' where "pt_populate_pages (va p) KMAP_BEGIN KMAP_END (Some kmap_setup_pool) s = Some (Inr s')"
    "alloc_inv s0 P0 s' U' n'" "n \<le> n' + 1027" "tables_ok (ptm s') 4 p" "tables (ptm s') 4 p \<subseteq> U'"
    "\<And>v. unat KMAP_BEGIN \<le> unat v \<Longrightarrow> unat v < unat KMAP_END \<Longrightarrow> fst (leaf (ptm s') 4 p v) = 1 \<and> not_present (leaf (ptm s') 4 p v)"
    "\<And>v. unat v div 2 ^ 48 = 0xffff \<Longrightarrow> translate (ptm s') p v = translate (ptm s) p v"
proof -
  let ?b = "unat KMAP_BEGIN" and ?c = "new_tables 0 4 (unat KMAP_BEGIN) window_last 0"
  have l: "unat (KMAP_END - 1) = window_last" by simp
  have c: "?c \<le> 1027" by (rule window_tables)
  have "\<exists>U' n' s'. raw_pt_map_pages 4 (Some kmap_setup_pool) 0 (va p) KMAP_BEGIN (KMAP_END - 1) 0 s = Some (Inr s') \<and>
      map_result (alloc_inv s0 P0) 0 (unat (0 :: u64)) ?b (unat (KMAP_END - 1)) 4 p U s U' n' s' \<and>
      n \<le> n' + tables_cost (ptm s) 4 p ?b (unat (KMAP_END - 1)) ?c"
    by (rule alloc_pool.raw_map_ok [OF _ tab]) (use w c n in \<open>simp_all add: flags_fit_def\<close>)
  then obtain U' n' s' where r: "raw_pt_map_pages 4 (Some kmap_setup_pool) 0 (va p) KMAP_BEGIN (KMAP_END - 1) 0 s = Some (Inr s')"
      "map_result (alloc_inv s0 P0) 0 0 ?b window_last 4 p U s U' n' s'" "n \<le> n' + tables_cost (ptm s) 4 p ?b window_last ?c"
    unfolding l by auto
  show thesis
  proof (rule that [of s' U' n'])
    show "pt_populate_pages (va p) KMAP_BEGIN KMAP_END (Some kmap_setup_pool) s = Some (Inr s')"
      using r(1) by (simp add: pt_populate_pages_def page_mask_dvd)
    show "alloc_inv s0 P0 s' U' n'" "tables_ok (ptm s') 4 p" "tables (ptm s') 4 p \<subseteq> U'"
      using r(2) tab(2) unfolding map_result_def by auto
    show "n \<le> n' + 1027" using r(3) c unfolding tables_cost_def by (auto split: if_splits)
    have rm: "if ?b \<le> unat v \<and> unat v \<le> window_last then mapped_as 0 0 ?b (unat v) (leaf (ptm s') 4 p v)
        else kept (leaf (ptm s) 4 p v) (leaf (ptm s') 4 p v)" if "unat v div 2 ^ 48 = 0xffff" for v
    proof -
      have "unat v div esz (Suc 4) = ?b div esz (Suc 4)" using that by (simp add: esz_def)
      then show ?thesis using r(2) unfolding map_result_def range_mapped_def by blast
    qed
    have in_window: "fst (leaf (ptm s') 4 p v) = 1 \<and> not_present (leaf (ptm s') 4 p v)"
      if v: "unat v div 2 ^ 48 = 0xffff" "?b \<le> unat v" "unat v \<le> window_last" for v
    proof -
      obtain k e where ke: "leaf (ptm s') 4 p v = (k, e)" by fastforce
      have "mapped_as 0 0 ?b (unat v) (k, e)" using rm [OF v(1)] v(2,3) by (simp add: ke)
      then have m: "k = 1" "4096 dvd unat v - ?b - unat v mod 4096" "e = of_nat (unat v - ?b - unat v mod 4096)"
        by (auto simp: mapped_as_def big_entry_def esz_simps)
      have "e AND PTE_PRESENT = 0"
      proof -
        obtain y where "unat v - ?b - unat v mod 4096 = 4096 * y" using m(2) by (auto elim: dvdE)
        then have "e = 4096 * of_nat y" unfolding m(3) by simp
        then have "even e" by simp
        then show ?thesis by (simp add: and_one_eq mod_2_eq_odd)
      qed
      then show ?thesis by (simp add: ke m(1) not_present_def)
    qed
    fix v :: u64
    show "fst (leaf (ptm s') 4 p v) = 1 \<and> not_present (leaf (ptm s') 4 p v)" if "?b \<le> unat v" "unat v < unat KMAP_END"
    proof (rule in_window)
      have "unat v div 2 ^ 48 \<le> unat KMAP_END div 2 ^ 48" "?b div 2 ^ 48 \<le> unat v div 2 ^ 48"
        using that by (auto intro: div_le_mono)
      then show "unat v div 2 ^ 48 = 0xffff" by simp
    qed (use that in auto)
    show "translate (ptm s') p v = translate (ptm s) p v" if v: "unat v div 2 ^ 48 = 0xffff"
    proof (cases "?b \<le> unat v \<and> unat v \<le> window_last")
      case True
      then have "translate (ptm s') p v = None" "translate (ptm s) p v = None"
        using in_window [OF v] w(1) unfolding translate_None unmapped_def by blast+
      then show ?thesis by simp
    next
      case False
      then show ?thesis using kept_translate rm [OF v] by (simp only: if_False)
    qed
  qed
qed

end
