(* ===== verification/PagingProps.thy ===== *)
theory PagingProps
  imports PagePool BallocProps
begin

text \<open>
  The properties of the page tables, each with an example it applies to: the tables \<^verbatim>\<open>paging_setup\<close>
  builds, and the tables of the window of \<^verbatim>\<open>kmap\<close>.
\<close>

text \<open>The addresses the processor accepts.\<close>

definition canonical :: "addr \<Rightarrow> bool" where
  "canonical v \<longleftrightarrow> unat v < 2 ^ 47 \<or> HIGHER_BASE \<le> v"

lemma high_region: "HIGHER_BASE \<le> v \<Longrightarrow> unat v div 2 ^ 48 = 0xffff"
proof -
  assume "HIGHER_BASE \<le> v"
  then have "unat HIGHER_BASE div 2 ^ 48 \<le> unat v div 2 ^ 48" by (intro div_le_mono) (simp add: word_le_nat_alt)
  moreover have "unat v div 2 ^ 48 < 0x10000" using unat64_less [of v] by (simp add: less_mult_imp_div_less)
  ultimately show ?thesis by simp
qed

text \<open>A low address takes the same way as the one with its high bits set.\<close>

lemma low_translate:
  assumes "unat v < 2 ^ 47"
    and "\<And>w. unat w div 2 ^ 48 = 0xffff \<Longrightarrow> \<not> HIGHER_BASE \<le> w \<Longrightarrow> translate h p w = None"
  shows "translate h p v = None"
proof -
  let ?w = "of_nat (0xffff * 2 ^ 48 + unat v) :: u64"
  have w: "unat ?w = 0xffff * 2 ^ 48 + unat v" using assms(1) by (intro unat_of_nat64) simp
  have "(0xffff * 2 ^ 48 + unat v) mod 2 ^ 48 = unat v mod 2 ^ 48" by (rule mod_mult_self3)
  then have "unat ?w mod esz (Suc 4) = unat v mod esz (Suc 4)" unfolding w esz_def by simp
  then have "leaf h 4 p ?w = leaf h 4 p v" by (rule leaf_mod)
  moreover have "translate h p ?w = None"
  proof (rule assms(2))
    show "unat ?w div 2 ^ 48 = 0xffff" unfolding w using assms(1) by simp
    show "\<not> HIGHER_BASE \<le> ?w" unfolding word_le_nat_alt w using assms(1) by simp
  qed
  ultimately show ?thesis unfolding translate_None by simp
qed

text \<open>C8. \<open>paging_setup\<close> ends with tables by which the processor translates exactly two ranges: the known
memory at \<open>HIGHER_BASE\<close> and the first 2 GB of memory at \<open>VIRTUAL_BASE\<close>; every other canonical address
faults. Its tables are pages taken out of the free memory, of which nothing else is lost or gained.
It needs a page for each 512 GB of memory and five more, below 4 GB.\<close>

theorem paging_setup_translates:
  assumes "balloc_rel bc F K n (boot s)" "\<forall>x\<in>F. unat x < 2 ^ 63"
    and "balloc_memory bc (boot s) = Some (Inr e)" "PAGE_SIZE \<le> e"
    and "unat e div 2 ^ 39 + 5 \<le> card (boot_pages F)" "unat e div 2 ^ 39 + 6 \<le> n"
  shows "\<exists>s' F' n'. paging_setup bc s = Some (Inr s') \<and>
    (\<forall>v. canonical v \<longrightarrow> translate (ptm s') (cr3 s') v =
       (if HIGHER_BASE \<le> v \<and> v < HIGHER_BASE + mapped_memory e then Some (v - HIGHER_BASE)
        else if VIRTUAL_BASE \<le> v then Some (v - VIRTUAL_BASE) else None)) \<and>
    balloc_rel bc F' K n' (boot s') \<and> F' \<subseteq> F \<and> (\<forall>q\<in>tables (ptm s') 4 (cr3 s'). {q..<q + PAGE_SIZE} \<inter> F' = {})"
proof (rule paging_setup_ok [OF assms])
  fix p s2 U k
  assume r: "paging_setup bc s = Some (Inr (s2\<lparr>cr3 := p\<rparr>))" "boot_inv bc K F s s2 U k" "tables (ptm s2) 4 p \<subseteq> U"
    and t: "\<And>v. unat v div 2 ^ 48 = 0xffff \<Longrightarrow> translate (ptm s2) p v =
       (if HIGHER_BASE \<le> v \<and> v < HIGHER_BASE + mapped_memory e then Some (v - HIGHER_BASE)
        else if VIRTUAL_BASE \<le> v then Some (v - VIRTUAL_BASE) else None)"
  obtain F' n' where F': "balloc_rel bc F' K n' (boot s2)" "F' \<subseteq> F" "\<forall>q\<in>U. {q..<q + PAGE_SIZE} \<inter> F' = {}"
    using r(2) unfolding boot_inv_def by fastforce
  have "translate (ptm s2) p v = (if HIGHER_BASE \<le> v \<and> v < HIGHER_BASE + mapped_memory e then Some (v - HIGHER_BASE)
      else if VIRTUAL_BASE \<le> v then Some (v - VIRTUAL_BASE) else None)" if c: "canonical v" for v
  proof (cases "HIGHER_BASE \<le> v")
    case True
    then show ?thesis by (rule t [OF high_region])
  next
    case False
    have nv: "\<not> VIRTUAL_BASE \<le> w" if "\<not> HIGHER_BASE \<le> w" for w :: u64 using that by (simp add: word_le_nat_alt)
    have "translate (ptm s2) p w = None" if w: "unat w div 2 ^ 48 = 0xffff" "\<not> HIGHER_BASE \<le> w" for w
      unfolding t [OF w(1)] using w(2) nv [OF w(2)] by (simp only: simp_thms if_False)
    moreover have "unat v < 2 ^ 47" using c False unfolding canonical_def by blast
    ultimately have "translate (ptm s2) p v = None" by (rule low_translate [rotated])
    then show ?thesis using False nv [OF False] by (simp only: simp_thms if_False)
  qed
  moreover have "\<forall>q\<in>tables (ptm s2) 4 p. {q..<q + PAGE_SIZE} \<inter> F' = {}" using F'(3) r(3) by blast
  ultimately show ?thesis
    using r(1) F'(1,2) by (intro exI [of _ "s2\<lparr>cr3 := p\<rparr>"] exI [of _ F'] exI [of _ n']) simp
qed

lemma boot_pages_demo: "5 \<le> card (boot_pages {4096..<65536})"
proof -
  have "{0x1000, 0x2000, 0x3000, 0x4000, 0x5000} \<subseteq> boot_pages {4096..<65536 :: u64}"
    by (auto simp: boot_pages_def page_ok_def elim: order_trans less_le_trans)
  from card_mono [OF finite this] show ?thesis by simp
qed

theorem paging_setup_translates_witness:
  "\<exists>s s' F' n' :: nat. balloc_memory bc0 (boot (s :: vm)) = Some (Inr 65536) \<and> paging_setup bc0 s = Some (Inr s') \<and>
    (\<forall>v. canonical v \<longrightarrow> translate (ptm s') (cr3 s') v =
       (if HIGHER_BASE \<le> v \<and> v < HIGHER_BASE + mapped_memory 65536 then Some (v - HIGHER_BASE)
        else if VIRTUAL_BASE \<le> v then Some (v - VIRTUAL_BASE) else None)) \<and>
    balloc_rel bc0 F' {4096..<65536} n' (boot s')"
proof -
  obtain b1 n1 where 1: "balloc_rel bc0 {4096..<65536} {} n1 b1" "127 \<le> n1" using bs1_rel by blast
  obtain b n where b: "balloc_rel bc0 {4096..<65536} {4096..<65536} n b" "126 \<le> n"
    using add_known_rel [OF 1(1), of 4096 65536] 1(2) by (auto simp: addable_def)
  let ?s = "undefined\<lparr>boot := b\<rparr> :: vm"
  obtain e where e: "balloc_memory bc0 b = Some (Inr e)" "e - 1 \<in> {4096..<65536}" "\<forall>x\<in>{4096..<65536}. x < e"
    using balloc_memory_ok [OF b(1)] by auto
  have e1: "e = 65536"
  proof -
    have "(65535 :: u64) \<in> {4096..<65536}" by simp
    then have "65535 < e" using e(3) by blast
    moreover have "e - 1 < 65536" using e(2) by simp
    ultimately show ?thesis by unat_arith
  qed
  have F: "\<forall>x\<in>{4096..<65536 :: u64}. unat x < 2 ^ 63" by (auto simp: word_less_nat_alt)
  have "balloc_rel bc0 {4096..<65536} {4096..<65536} n (boot ?s)" "balloc_memory bc0 (boot ?s) = Some (Inr 65536)"
    using b(1) e(1) e1 by simp_all
  from paging_setup_translates [OF this(1) F this(2)] boot_pages_demo b(2)
  obtain s' F' n' where "paging_setup bc0 ?s = Some (Inr s')"
    "\<forall>v. canonical v \<longrightarrow> translate (ptm s') (cr3 s') v =
       (if HIGHER_BASE \<le> v \<and> v < HIGHER_BASE + mapped_memory 65536 then Some (v - HIGHER_BASE)
        else if VIRTUAL_BASE \<le> v then Some (v - VIRTUAL_BASE) else None)"
    "balloc_rel bc0 F' {4096..<65536} n' (boot s')"
    by auto
  with \<open>balloc_memory bc0 (boot ?s) = Some (Inr 65536)\<close> show ?thesis by blast
qed

section \<open>The window\<close>

text \<open>C9. \<open>kmap_setup\<close> asks for the tables of the window with \<open>pt_populate_pages\<close>. When the page allocator has the
1027 pages this can take, and none of them is a page table, it succeeds: afterwards every address of the
window has an entry of level 1 which is not present, no translation in the kernel's half of the addresses (from
\<open>HIGHER_BASE\<close> on) has changed, and the tables are
none of the pages that are still free.\<close>

theorem kmap_window_tables:
  fixes s :: "'a vm_scheme"
  assumes "page_rep s P B K" "finite P" "1027 \<le> card P" "\<forall>i\<in>P. i < 2 ^ 40 \<and> frame_addr i \<notin> tables (ptm s) 4 p"
    and "tables_ok (ptm s) 4 p"
    and "\<forall>v. KMAP_BEGIN \<le> v \<longrightarrow> v < KMAP_END \<longrightarrow> translate (ptm s) p v = None \<and> 3 \<le> fst (leaf (ptm s) 4 p v)"
  shows "\<exists>s' P' B' K'. pt_populate_pages (va p) KMAP_BEGIN KMAP_END (Some kmap_setup_pool) s = Some (Inr s') \<and>
    page_rep s' P' B' K' \<and> P' \<subseteq> P \<and> card P \<le> card P' + 1027 \<and> (\<forall>i\<in>P'. frame_addr i \<notin> tables (ptm s') 4 p) \<and>
    tables_ok (ptm s') 4 p \<and>
    (\<forall>v. KMAP_BEGIN \<le> v \<longrightarrow> v < KMAP_END \<longrightarrow> fst (leaf (ptm s') 4 p v) = 1) \<and>
    (\<forall>v. HIGHER_BASE \<le> v \<longrightarrow> translate (ptm s') p v = translate (ptm s) p v)"
proof -
  have inv: "alloc_inv s P s (tables (ptm s) 4 p) (card P)"
    unfolding alloc_inv_def using assms(1-4) by (intro conjI exI [of _ P] exI [of _ B] exI [of _ K]) auto
  have w: "translate (ptm s) p v = None \<and> 3 \<le> fst (leaf (ptm s) 4 p v)"
    if "unat KMAP_BEGIN \<le> unat v" "unat v \<le> unat KMAP_END - 1" for v
  proof -
    have "KMAP_BEGIN \<le> v" "v < KMAP_END" using that by (simp_all add: word_le_nat_alt word_less_nat_alt)
    then show ?thesis using assms(6) by blast
  qed
  then have "unmapped (ptm s) 4 p (unat KMAP_BEGIN) (unat KMAP_END - 1)" "sparse (ptm s) 4 p (unat KMAP_BEGIN) (unat KMAP_END - 1)"
    unfolding unmapped_def sparse_def translate_None [symmetric] by simp_all
  from populate_window_ok [OF assms(5) subset_refl tables_page_ok [OF assms(5)] inv assms(3) this]
  obtain U' n' s' where r: "pt_populate_pages (va p) KMAP_BEGIN KMAP_END (Some kmap_setup_pool) s = Some (Inr s')"
    "alloc_inv s P s' U' n'" "card P \<le> n' + 1027" "tables_ok (ptm s') 4 p" "tables (ptm s') 4 p \<subseteq> U'"
    "\<And>v. unat KMAP_BEGIN \<le> unat v \<Longrightarrow> unat v < unat KMAP_END \<Longrightarrow> fst (leaf (ptm s') 4 p v) = 1 \<and> not_present (leaf (ptm s') 4 p v)"
    "\<And>v. unat v div 2 ^ 48 = 0xffff \<Longrightarrow> translate (ptm s') p v = translate (ptm s) p v"
    by metis
  obtain P' B' K' where P': "page_rep s' P' B' K'" "P' \<subseteq> P" "n' \<le> card P'" "\<forall>i\<in>P'. frame_addr i \<notin> U'"
    using r(2) unfolding alloc_inv_def by blast
  have "fst (leaf (ptm s') 4 p v) = 1" if "KMAP_BEGIN \<le> v" "v < KMAP_END" for v
    using r(6) [of v] that by (simp add: word_le_nat_alt word_less_nat_alt)
  moreover have "translate (ptm s') p v = translate (ptm s) p v" if "HIGHER_BASE \<le> v" for v
    by (rule r(7) [OF high_region [OF that]])
  moreover have "card P \<le> card P' + 1027" using r(3) P'(3) by linarith
  moreover have "\<forall>i\<in>P'. frame_addr i \<notin> tables (ptm s') 4 p" using P'(4) r(5) by blast
  ultimately show ?thesis using r(1,4) P'(1,2) by blast
qed

text \<open>An example: 2048 free pages from page 4 on, and an empty table in page 1.\<close>

definition demo_vm :: vm where
  "demo_vm =
     (let s = \<lparr>ints_on = True, preempt_cnt = 0, ll = \<lparr>lh_next = (\<lambda>_. 0), lh_prev = (\<lambda>_. 0)\<rparr>,
               zones_head = 0x100, zone_begin = (\<lambda>_. 0), zone_end = (\<lambda>_. 0), flags = (\<lambda>_. 0), \<dots> = pgs.more undefined\<rparr> :: vm;
          s = s\<lparr>ll := list_init (zones_head s) (ll s)\<rparr>;
          s = projr (the (raw_page_alloc_zone_free 0x4000 0x804000 (zone_setup_at 0x100000 4 2052 s)))
      in s\<lparr>ptm := \<lambda>_. 0\<rparr>)"

lemma demo_vm_rep: "page_rep demo_vm {4..<2052} {} Map.empty" "ptm demo_vm = (\<lambda>_. 0)"
proof -
  let ?s = "\<lparr>ints_on = True, preempt_cnt = 0, ll = \<lparr>lh_next = (\<lambda>_. 0), lh_prev = (\<lambda>_. 0)\<rparr>,
      zones_head = 0x100, zone_begin = (\<lambda>_. 0), zone_end = (\<lambda>_. 0), flags = (\<lambda>_. 0), \<dots> = pgs.more undefined\<rparr> :: vm"
  let ?t = "?s\<lparr>ll := list_init (zones_head ?s) (ll ?s)\<rparr>"
  have mem: "members (Map.empty(0x100 \<mapsto> [])) = {0x100}" by (auto simp: members_def)
  have "mem_state [] (\<lambda>_. {}) (\<lambda>_. {}) (Map.empty(zones_head ?s \<mapsto> [])) Map.empty ?t"
    by (rule mem_state_init) (auto simp: heap_lists_def members_def)
  then have st: "mem_state [] (\<lambda>_. {}) (\<lambda>_. {}) (Map.empty(0x100 \<mapsto> [])) Map.empty ?t" by simp
  have fresh: "zone_fresh 0x100000 4 2052 [] (Map.empty(0x100 \<mapsto> [])) ?t"
    unfolding zone_fresh_def mem by (simp add: zone_fits_def zone_bytes_def page_is_free_def)
  obtain L where z: "mem_state [(0x100000, 4, 2052)] (\<lambda>_. {}) (\<lambda>_. {}) L Map.empty (zone_setup_at 0x100000 4 2052 ?t)"
    using mem_state_setup [OF st fresh] by (auto simp: fun_upd_def)
  have b: "first_page 0x4000 = 4" "end_page 0x804000 = 2052" by (simp_all add: first_page_def end_page_def)
  obtain F' L' s' where r: "raw_page_alloc_zone_free 0x4000 0x804000 (zone_setup_at 0x100000 4 2052 ?t) = Some (Inr s')"
    "covered F' = {4..<2052}" "mem_state [(0x100000, 4, 2052)] ((\<lambda>_. {})(0x100000 := F')) (\<lambda>_. {}) L' Map.empty s'"
    using raw_page_alloc_zone_free_ok [OF z, where z = "0x100000" and b = 4 and e = 2052 and zbegin = "0x4000" and zend = "0x804000"]
    by (auto simp: b covered_empty)
  have d: "demo_vm = s'\<lparr>ptm := \<lambda>_. 0\<rparr>" unfolding demo_vm_def Let_def r(1) by simp
  show "ptm demo_vm = (\<lambda>_. 0)" unfolding d by simp
  have "page_rep s' {4..<2052} {} Map.empty"
    unfolding page_rep_def using r(2,3)
    by (intro exI [of _ "[(0x100000, 4, 2052)]"] exI [of _ "(\<lambda>_. {})(0x100000 := F')"] exI [of _ "\<lambda>_. {}"] exI [of _ L'])
      (simp add: free_pages_def used_blocks_def)
  then show "page_rep demo_vm {4..<2052} {} Map.empty" by (simp add: d page_rep_ptm)
qed

lemma demo_vm_tables: "tables_ok (ptm demo_vm) 4 0x1000" "tables (ptm demo_vm) 4 0x1000 = {0x1000}" "leaf (ptm demo_vm) 4 0x1000 v = (4, 0)"
  using empty_table [of "0x1000" "ptm demo_vm" 4] by (simp_all add: demo_vm_rep(2) page_ok_def entry_def)

lemma demo_frames: "\<forall>i\<in>{4..<2052}. i < 2 ^ 40 \<and> frame_addr i \<notin> tables (ptm demo_vm) 4 0x1000"
proof (intro ballI conjI)
  fix i :: nat
  assume i: "i \<in> {4..<2052}"
  then show "i < 2 ^ 40" by simp
  have "unat (frame_addr i) = 4096 * i" using i by (intro unat_frame_addr) simp
  then show "frame_addr i \<notin> tables (ptm demo_vm) 4 0x1000" using i unfolding demo_vm_tables(2) by auto
qed

theorem kmap_window_tables_witness:
  "\<exists>s' P' B' K'. pt_populate_pages (va 0x1000) KMAP_BEGIN KMAP_END (Some kmap_setup_pool) demo_vm = Some (Inr s') \<and>
    page_rep s' P' B' K' \<and> 2048 \<le> card P' + 1027 \<and> (\<forall>i\<in>P'. frame_addr i \<notin> tables (ptm s') 4 0x1000) \<and>
    tables_ok (ptm s') 4 0x1000 \<and> (\<forall>v. KMAP_BEGIN \<le> v \<longrightarrow> v < KMAP_END \<longrightarrow> fst (leaf (ptm s') 4 0x1000 v) = 1)"
proof -
  have "translate (ptm demo_vm) 0x1000 v = None" for v unfolding translate_None demo_vm_tables(3) by (simp add: not_present_def)
  then show ?thesis
    using kmap_window_tables [OF demo_vm_rep(1) _ _ demo_frames demo_vm_tables(1)] by (auto simp: demo_vm_tables(3))
qed

end
