(* ===== verification/KmapRanges.thy ===== *)
theory KmapRanges
  imports Paging
begin

text \<open>
  The allocator of page ranges of the window (\<^verbatim>\<open>kmap_alloc_range\<close>, \<^verbatim>\<open>kmap_free_range\<close>): an array with an
  element for each page of the window, cut into segments. The length of a segment is in its first and last
  element, a free segment is in the list of its order, a used one has its own links as an empty list. A
  segment the code is working on is a hole: nothing is known of its elements.
\<close>

section \<open>Segments\<close>

datatype kst = Kfree | Kused | Khole

type_synonym kseg = "nat \<times> kst"

definition seg_total :: "kseg list \<Rightarrow> nat" where
  "seg_total xs = sum_list (map fst xs)"

lemma total_simps [simp]: "seg_total [] = 0" "seg_total (x # xs) = fst x + seg_total xs" "seg_total (xs @ ys) = seg_total xs + seg_total ys"
  by (simp_all add: seg_total_def)

text \<open>The segments with where they begin.\<close>

fun segs_from :: "nat \<Rightarrow> kseg list \<Rightarrow> (nat \<times> nat \<times> kst) set" where
  "segs_from b [] = {}"
| "segs_from b ((n, st) # ss) = insert (b, n, st) (segs_from (b + n) ss)"

lemma segs_from_append [simp]: "segs_from b (xs @ ys) = segs_from b xs \<union> segs_from (b + seg_total xs) ys"
  by (induction b xs rule: segs_from.induct) (auto simp: add.assoc)

lemma segs_from_range: "(c, n, st) \<in> segs_from b ss \<Longrightarrow> b \<le> c \<and> c + n \<le> b + seg_total ss \<and> (n, st) \<in> set ss"
  by (induction b ss rule: segs_from.induct) auto

definition lens_ok :: "kseg list \<Rightarrow> bool" where
  "lens_ok ss \<longleftrightarrow> (\<forall>(n, st) \<in> set ss. 0 < n)"

lemma lens_ok_simps [simp]: "lens_ok []" "lens_ok ((n, st) # ss) \<longleftrightarrow> 0 < n \<and> lens_ok ss" "lens_ok (xs @ ys) \<longleftrightarrow> lens_ok xs \<and> lens_ok ys"
  by (auto simp: lens_ok_def)

lemma begin_iff: "i \<in> fst ` segs_from b ss \<longleftrightarrow> (\<exists>n st. (i, n, st) \<in> segs_from b ss)"
  by force

lemma segs_from_begin:
  assumes "lens_ok ss" "(c, n, st) \<in> segs_from b ss"
  shows "b \<le> c" "c < b + seg_total ss" "0 < n" "c + n \<le> b + seg_total ss"
proof -
  have r: "b \<le> c" "c + n \<le> b + seg_total ss" "(n, st) \<in> set ss" using segs_from_range [OF assms(2)] by blast+
  then have "0 < n" using assms(1) unfolding lens_ok_def by blast
  then show "b \<le> c" "c < b + seg_total ss" "0 < n" "c + n \<le> b + seg_total ss" using r by auto
qed

lemma segs_apart:
  "lens_ok ss \<Longrightarrow> (c, n, st) \<in> segs_from b ss \<Longrightarrow> (c', n', st') \<in> segs_from b ss \<Longrightarrow>
   (c, n, st) = (c', n', st') \<or> c + n \<le> c' \<or> c' + n' \<le> c"
proof (induction b ss rule: segs_from.induct)
  case (2 b m s ss)
  have "b + m \<le> c" if "(c, n, st) \<in> segs_from (b + m) ss" for c n st
    using segs_from_range [OF that] by simp
  then show ?case using 2 by auto
qed simp

section \<open>The layout\<close>

abbreviation (input) window_pages :: nat where "window_pages \<equiv> 0x80000"

definition kmap_layout :: "addr \<Rightarrow> addr \<Rightarrow> bool" where
  "kmap_layout R H \<longleftrightarrow> R \<noteq> NULL \<and> H \<noteq> NULL \<and> unat R + 24 * window_pages < 2 ^ 64 \<and> unat H + 16 * KMAP_ORDERS < 2 ^ 64 \<and>
     (unat H + 16 * KMAP_ORDERS \<le> unat R \<or> unat R + 24 * window_pages \<le> unat H)"

definition knode :: "addr \<Rightarrow> nat \<Rightarrow> addr" where
  "knode R i = R + 24 * of_nat i"

definition khead :: "addr \<Rightarrow> nat \<Rightarrow> addr" where
  "khead H k = H + 16 * of_nat k"

lemma unat_knode: "kmap_layout R H \<Longrightarrow> i \<le> window_pages \<Longrightarrow> unat (knode R i) = unat R + 24 * i"
proof -
  assume l: "kmap_layout R H" "i \<le> window_pages"
  have "(24 * of_nat i :: u64) = of_nat (24 * i)" by simp
  moreover have "24 * i < 2 ^ 64" using l(2) by simp
  ultimately have "unat (24 * of_nat i :: u64) = 24 * i" by (simp only: unat_of_nat64)
  then show ?thesis unfolding knode_def using l by (subst unat_add_no_wrap) (simp_all add: kmap_layout_def)
qed

lemma unat_khead: "kmap_layout R H \<Longrightarrow> k < KMAP_ORDERS \<Longrightarrow> unat (khead H k) = unat H + 16 * k"
proof -
  assume l: "kmap_layout R H" "k < KMAP_ORDERS"
  have "(16 * of_nat k :: u64) = of_nat (16 * k)" by simp
  moreover have "16 * k < 2 ^ 64" using l(2) by simp
  ultimately have "unat (16 * of_nat k :: u64) = 16 * k" by (simp only: unat_of_nat64)
  then show ?thesis unfolding khead_def using l by (subst unat_add_no_wrap) (simp_all add: kmap_layout_def)
qed

lemma knode_inj:
  assumes "kmap_layout R H" "i \<le> window_pages" "j \<le> window_pages"
  shows "knode R i = knode R j \<longleftrightarrow> i = j"
proof
  assume "knode R i = knode R j"
  then have "unat R + 24 * i = unat R + 24 * j" using unat_knode [OF assms(1,2)] unat_knode [OF assms(1,3)] by metis
  then show "i = j" by simp
qed simp

lemma khead_inj:
  assumes "kmap_layout R H" "k < KMAP_ORDERS" "m < KMAP_ORDERS"
  shows "khead H k = khead H m \<longleftrightarrow> k = m"
proof
  assume "khead H k = khead H m"
  then have "unat H + 16 * k = unat H + 16 * m" using unat_khead [OF assms(1,2)] unat_khead [OF assms(1,3)] by metis
  then show "k = m" by simp
qed simp

lemma knode_khead: "kmap_layout R H \<Longrightarrow> i < window_pages \<Longrightarrow> k < KMAP_ORDERS \<Longrightarrow> knode R i \<noteq> khead H k"
  using unat_knode [of R H i] unat_khead [of R H k] by (auto simp: kmap_layout_def)

lemma knode_not_null: "kmap_layout R H \<Longrightarrow> i \<le> window_pages \<Longrightarrow> knode R i \<noteq> NULL"
proof
  assume l: "kmap_layout R H" "i \<le> window_pages" "knode R i = NULL"
  then have "unat R = 0" using unat_knode [OF l(1,2)] by simp
  then show False using l(1) by (simp add: kmap_layout_def unat_eq_zero)
qed

lemma kmap_nth_knode:
  "kmap_nth (knode R b) (of_nat n) = knode R (b + n)" "m \<le> b \<Longrightarrow> kmap_nth (knode R b) (- of_nat m) = knode R (b - m)"
  "1 \<le> b \<Longrightarrow> kmap_nth (knode R b) (- 1) = knode R (b - 1)" "kmap_nth R (of_nat n) = knode R n"
  by (simp_all add: kmap_nth_def knode_def algebra_simps of_nat_diff)

lemma kmap_head_khead: "kmap_head k s = khead (kmap_free_ranges s) k"
  by (simp add: kmap_head_def khead_def)

section \<open>The invariant\<close>

definition kclass :: "nat \<Rightarrow> nat" where
  "kclass n = kmap_order (of_nat n + 1) - 1"

lemma kmap_order_from_le: "k \<le> KMAP_ORDERS \<Longrightarrow> k \<le> kmap_order_from k pages \<and> kmap_order_from k pages \<le> KMAP_ORDERS"
proof (induction k pages rule: kmap_order_from.induct)
  case (1 k pages)
  then show ?case by (subst (1 2) kmap_order_from.simps) auto
qed

lemma kclass_less: "kclass n < KMAP_ORDERS"
  using kmap_order_from_le [of 0 "of_nat n + 1"] by (auto simp: kclass_def kmap_order_def)

definition seg_ok :: "lfamily \<Rightarrow> 'a vm_scheme \<Rightarrow> nat \<Rightarrow> nat \<Rightarrow> kst \<Rightarrow> bool" where
  "seg_ok L s b n st \<longleftrightarrow>
     (let R = kmap_ranges s in
      (st \<noteq> Khole \<longrightarrow> kmap_pages s (knode R b) = of_nat n \<and> kmap_pages s (knode R (b + n - 1)) = of_nat n) \<and>
      (st = Kused \<longrightarrow> L (knode R b) = Some []) \<and> (st = Khole \<longrightarrow> knode R b \<notin> members L))"

definition kown :: "'a vm_scheme \<Rightarrow> addr set" where
  "kown s = knode (kmap_ranges s) ` {..<window_pages} \<union> khead (kmap_free_ranges s) ` {..<KMAP_ORDERS}"

definition kinv :: "kseg list \<Rightarrow> lfamily \<Rightarrow> lfamily \<Rightarrow> 'a vm_scheme \<Rightarrow> bool" where
  "kinv segs L K s \<longleftrightarrow>
     (let R = kmap_ranges s; H = kmap_free_ranges s; S = segs_from 0 segs in
      kmap_layout R H \<and> heap_lists (ll s) L \<and> lens_ok segs \<and> seg_total segs = window_pages \<and>
      (\<forall>(b, n, st) \<in> S. seg_ok L s b n st) \<and>
      (\<forall>k<KMAP_ORDERS. \<exists>zs. L (khead H k) = Some zs \<and> set zs = knode R ` {b. \<exists>n. (b, n, Kfree) \<in> S \<and> kclass n = k}) \<and>
      (\<forall>i<window_pages. i \<notin> fst ` S \<longrightarrow> knode R i \<notin> members L) \<and>
      K = L |` (- kown s))"

lemma kinvD:
  assumes "kinv segs L K s"
  shows "kmap_layout (kmap_ranges s) (kmap_free_ranges s)" "heap_lists (ll s) L" "lens_ok segs" "seg_total segs = window_pages"
    "(b, n, st) \<in> segs_from 0 segs \<Longrightarrow> seg_ok L s b n st"
    "k < KMAP_ORDERS \<Longrightarrow> \<exists>zs. L (khead (kmap_free_ranges s) k) = Some zs \<and>
       set zs = knode (kmap_ranges s) ` {b. \<exists>n. (b, n, Kfree) \<in> segs_from 0 segs \<and> kclass n = k}"
    "i < window_pages \<Longrightarrow> i \<notin> fst ` segs_from 0 segs \<Longrightarrow> knode (kmap_ranges s) i \<notin> members L" "K = L |` (- kown s)"
proof -
  note i = assms [unfolded kinv_def Let_def]
  show "kmap_layout (kmap_ranges s) (kmap_free_ranges s)" "heap_lists (ll s) L" "lens_ok segs" "seg_total segs = window_pages"
    "K = L |` (- kown s)" by (rule i [THEN conjunct1] i [THEN conjunct2, THEN conjunct1] i [THEN conjunct2, THEN conjunct2, THEN conjunct1]
      i [THEN conjunct2, THEN conjunct2, THEN conjunct2, THEN conjunct1]
      i [THEN conjunct2, THEN conjunct2, THEN conjunct2, THEN conjunct2, THEN conjunct2, THEN conjunct2, THEN conjunct2])+
  show "seg_ok L s b n st" if "(b, n, st) \<in> segs_from 0 segs"
    using i that by (elim conjE) (drule (1) bspec, simp)
  show "\<exists>zs. L (khead (kmap_free_ranges s) k) = Some zs \<and>
       set zs = knode (kmap_ranges s) ` {b. \<exists>n. (b, n, Kfree) \<in> segs_from 0 segs \<and> kclass n = k}" if "k < KMAP_ORDERS"
    using i that by (elim conjE) (drule spec, erule (1) mp)
  show "knode (kmap_ranges s) i \<notin> members L" if "i < window_pages" "i \<notin> fst ` segs_from 0 segs"
    using i that by blast
qed

lemma kinvI:
  assumes "kmap_layout (kmap_ranges s) (kmap_free_ranges s)" "heap_lists (ll s) L" "lens_ok segs" "seg_total segs = window_pages"
    "\<And>b n st. (b, n, st) \<in> segs_from 0 segs \<Longrightarrow> seg_ok L s b n st"
    "\<And>k. k < KMAP_ORDERS \<Longrightarrow> \<exists>zs. L (khead (kmap_free_ranges s) k) = Some zs \<and>
       set zs = knode (kmap_ranges s) ` {b. \<exists>n. (b, n, Kfree) \<in> segs_from 0 segs \<and> kclass n = k}"
    "\<And>i. i < window_pages \<Longrightarrow> i \<notin> fst ` segs_from 0 segs \<Longrightarrow> knode (kmap_ranges s) i \<notin> members L" "K = L |` (- kown s)"
  shows "kinv segs L K s"
  unfolding kinv_def Let_def
proof (intro conjI)
  show "\<forall>(b, n, st)\<in>segs_from 0 segs. seg_ok L s b n st" using assms(5) by blast
  show "\<forall>k<KMAP_ORDERS. \<exists>zs. L (khead (kmap_free_ranges s) k) = Some zs \<and>
       set zs = knode (kmap_ranges s) ` {b. \<exists>n. (b, n, Kfree) \<in> segs_from 0 segs \<and> kclass n = k}" using assms(6) by blast
  show "\<forall>i<window_pages. i \<notin> fst ` segs_from 0 segs \<longrightarrow> knode (kmap_ranges s) i \<notin> members L" using assms(7) by blast
qed (rule assms)+

text \<open>Facts about one segment.\<close>

lemma seg_in: "(seg_total xs, n, st) \<in> segs_from 0 (xs @ (n, st) # ys)"
  by simp

lemma kinv_seg:
  assumes "kinv (xs @ (n, st) # ys) L K s"
  shows "0 < n" "seg_total xs + n + seg_total ys = window_pages" "seg_ok L s (seg_total xs) n st" "seg_total xs < window_pages"
  using kinvD(3,4) [OF assms] kinvD(5) [OF assms seg_in] by auto

lemma node_not_head:
  assumes "kinv segs L K s" "i < window_pages"
  shows "knode (kmap_ranges s) i \<noteq> khead (kmap_free_ranges s) k \<or> \<not> k < KMAP_ORDERS"
  using knode_khead [OF kinvD(1) [OF assms(1)] assms(2)] by blast

lemma own_node: "i < window_pages \<Longrightarrow> knode (kmap_ranges s) i \<in> kown s"
  by (simp add: kown_def)

lemma own_head: "k < KMAP_ORDERS \<Longrightarrow> khead (kmap_free_ranges s) k \<in> kown s"
  by (simp add: kown_def)

text \<open>The begin of a segment determines it.\<close>

lemma seg_unique:
  assumes "kinv segs L K s" "(b, n, st) \<in> segs_from 0 segs" "(b, n', st') \<in> segs_from 0 segs"
  shows "n' = n \<and> st' = st"
proof -
  have "0 < n" "0 < n'" using segs_from_range [OF assms(2)] segs_from_range [OF assms(3)] kinvD(3) [OF assms(1)]
    by (auto simp: lens_ok_def)
  then show ?thesis using segs_apart [OF kinvD(3) [OF assms(1)] assms(2,3)] by auto
qed

lemma free_member:
  assumes "kinv segs L K s" "(b, n, Kfree) \<in> segs_from 0 segs"
  obtains zs where "L (khead (kmap_free_ranges s) (kclass n)) = Some zs" "knode (kmap_ranges s) b \<in> set zs"
  using kinvD(6) [OF assms(1) kclass_less, of n] assms(2) by blast

lemma lists_none:
  assumes "heap_lists h L" "L l = Some xs" "a \<in> set xs"
  shows "L a = None"
proof (rule ccontr)
  assume "L a \<noteq> None"
  then obtain ys where ys: "L a = Some ys" by auto
  have "a \<noteq> l" using assms lists_circ by (auto simp: circ_def)
  then have "set (a # ys) \<inter> set (l # xs) = {}" using assms(1,2) ys unfolding heap_lists_def by blast
  then show False using assms(3) by auto
qed

text \<open>Whether the links of the first element of a segment are an empty list.\<close>

lemma seg_list_empty:
  assumes inv: "kinv segs L K s" and seg: "(b, n, st) \<in> segs_from 0 segs" and st: "st \<noteq> Khole"
  shows "list_empty (knode (kmap_ranges s) b) (ll s) \<longleftrightarrow> st = Kused"
proof (cases st)
  case Kused
  then have "L (knode (kmap_ranges s) b) = Some []" using kinvD(5) [OF inv seg] by (simp add: seg_ok_def Let_def)
  then show ?thesis using lists_list_empty [OF kinvD(2) [OF inv]] Kused by simp
next
  case Kfree
  then obtain zs where z: "L (khead (kmap_free_ranges s) (kclass n)) = Some zs" "knode (kmap_ranges s) b \<in> set zs"
    using free_member [OF inv] seg by metis
  let ?h = "khead (kmap_free_ranges s) (kclass n)" and ?x = "knode (kmap_ranges s) b"
  obtain as bs where zs: "zs = as @ ?x # bs" using z(2) by (auto dest: split_list)
  have c: "circ (ll s) ?h (as @ ?x # bs)" using lists_circ [OF kinvD(2) [OF inv] z(1)] zs by simp
  have "lh_next (ll s) ?x \<in> set (bs @ [?h])" by (rule circ_neighbours(2) [OF c])
  moreover have "?x \<notin> set (bs @ [?h])" using c by (auto simp: circ_def)
  ultimately have "lh_next (ll s) ?x \<noteq> ?x" by metis
  then show ?thesis using Kfree by (simp add: list_empty_def)
qed (use st in simp)

lemma seg_inside:
  assumes inv: "kinv (xs @ (n, st) # ys) L K s" and i: "seg_total xs < i" "i < seg_total xs + n"
  shows "i \<notin> fst ` segs_from 0 (xs @ (n, st) # ys)"
proof
  assume "i \<in> fst ` segs_from 0 (xs @ (n, st) # ys)"
  then obtain z where z: "z \<in> segs_from 0 (xs @ (n, st) # ys)" "i = fst z" by blast
  obtain m st' where "z = (i, m, st')" using z(2) by (cases z) auto
  then have m: "(i, m, st') \<in> segs_from 0 (xs @ (n, st) # ys)" using z(1) by simp
  then have "(m, st') \<in> set (xs @ (n, st) # ys)" using segs_from_range by blast
  then have "0 < m" using kinvD(3) [OF inv] unfolding lens_ok_def by blast
  then show False using segs_apart [OF kinvD(3) [OF inv] m seg_in] i by auto
qed

section \<open>Steps on a segment\<close>

text \<open>What a step has to show: that it is right in the middle and does nothing outside.\<close>

definition free_begins :: "nat \<Rightarrow> kseg list \<Rightarrow> nat set" where
  "free_begins b ss = {c. \<exists>n. (c, n, Kfree) \<in> segs_from b ss}"

definition class_begins :: "nat \<Rightarrow> nat \<Rightarrow> kseg list \<Rightarrow> nat set" where
  "class_begins k b ss = {c. \<exists>n. (c, n, Kfree) \<in> segs_from b ss \<and> kclass n = k}"

lemma kinv_step:
  assumes inv: "kinv (xs @ mid @ ys) L K s"
    and same: "kmap_ranges s' = kmap_ranges s" "kmap_free_ranges s' = kmap_free_ranges s"
    and heap: "heap_lists (ll s') L'" and mid: "lens_ok mid'" "seg_total mid' = seg_total mid"
    and inner: "\<And>b n st. (b, n, st) \<in> segs_from (seg_total xs) mid' \<Longrightarrow> seg_ok L' s' b n st"
    and outer: "\<And>i. i < window_pages \<Longrightarrow> i < seg_total xs \<or> seg_total xs + seg_total mid \<le> i \<Longrightarrow>
      kmap_pages s' (knode (kmap_ranges s) i) = kmap_pages s (knode (kmap_ranges s) i) \<and>
      L' (knode (kmap_ranges s) i) = L (knode (kmap_ranges s) i) \<and>
      (knode (kmap_ranges s) i \<in> members L' \<longrightarrow> knode (kmap_ranges s) i \<in> members L)"
    and heads: "\<And>k zs. k < KMAP_ORDERS \<Longrightarrow> L (khead (kmap_free_ranges s) k) = Some zs \<Longrightarrow>
      \<exists>zs'. L' (khead (kmap_free_ranges s) k) = Some zs' \<and>
        set zs' = (set zs - knode (kmap_ranges s) ` free_begins (seg_total xs) mid) \<union> knode (kmap_ranges s) ` class_begins k (seg_total xs) mid'"
    and gaps: "\<And>i. seg_total xs \<le> i \<Longrightarrow> i < seg_total xs + seg_total mid \<Longrightarrow> i \<notin> fst ` segs_from (seg_total xs) mid' \<Longrightarrow> knode (kmap_ranges s) i \<notin> members L'"
    and rest: "\<And>a. a \<notin> kown s \<Longrightarrow> L' a = L a"
  shows "kinv (xs @ mid' @ ys) L' K s'"
proof (rule kinvI)
  let ?R = "kmap_ranges s" and ?H = "kmap_free_ranges s" and ?b = "seg_total xs" and ?e = "seg_total xs + seg_total mid"
  let ?X = "segs_from 0 xs" and ?Y = "segs_from ?e ys"
  note d = kinvD [OF inv]
  have S: "segs_from 0 (xs @ mid @ ys) = ?X \<union> segs_from ?b mid \<union> ?Y" "segs_from 0 (xs @ mid' @ ys) = ?X \<union> segs_from ?b mid' \<union> ?Y"
    using mid(2) by auto
  have len: "seg_total xs + seg_total mid + seg_total ys = window_pages" using d(4) by simp
  have len_mid: "lens_ok mid" using d(3) by simp
  show "kmap_layout (kmap_ranges s') (kmap_free_ranges s')" unfolding same by (rule d(1))
  show "heap_lists (ll s') L'" by (rule heap)
  show "lens_ok (xs @ mid' @ ys)" "seg_total (xs @ mid' @ ys) = window_pages" using d(3,4) mid by simp_all
  have out: "n > 0 \<and> (c + n \<le> ?b \<or> ?e \<le> c) \<and> c + n \<le> window_pages \<and> (c, n, st) \<in> segs_from 0 (xs @ mid @ ys)"
    if "(c, n, st) \<in> ?X \<union> ?Y" for c n st
  proof -
    have "(n, st) \<in> set (xs @ ys)" using that segs_from_range by fastforce
    then have "0 < n" using d(3) by (auto simp: lens_ok_def)
    moreover have "c + n \<le> ?b \<or> ?e \<le> c \<and> c + n \<le> ?e + seg_total ys" using that segs_from_range [of c n st 0 xs] segs_from_range [of c n st ?e ys] by auto
    ultimately show ?thesis using that len S(1) by auto
  qed
  show "seg_ok L' s' c n st" if "(c, n, st) \<in> segs_from 0 (xs @ mid' @ ys)" for c n st
  proof (cases "(c, n, st) \<in> segs_from ?b mid'")
    case True
    then show ?thesis by (rule inner)
  next
    case False
    then have XY: "(c, n, st) \<in> ?X \<union> ?Y" using that S(2) by blast
    note o = out [OF XY]
    have "c < window_pages" "c < ?b \<or> ?e \<le> c" "c + n - 1 < window_pages" "c + n - 1 < ?b \<or> ?e \<le> c + n - 1" using o by auto
    note oc = outer [OF this(1,2)] and oe = outer [OF this(3,4)]
    have "seg_ok L s c n st" by (rule d(5)) (use o in blast)
    then have k: "st \<noteq> Khole \<Longrightarrow> kmap_pages s (knode ?R c) = of_nat n" "st \<noteq> Khole \<Longrightarrow> kmap_pages s (knode ?R (c + n - 1)) = of_nat n"
      "st = Kused \<Longrightarrow> L (knode ?R c) = Some []" "st = Khole \<Longrightarrow> knode ?R c \<notin> members L"
      unfolding seg_ok_def Let_def by blast+
    show ?thesis
      unfolding seg_ok_def same Let_def
    proof (intro conjI impI)
      show "kmap_pages s' (knode ?R c) = of_nat n" if "st \<noteq> Khole" using k(1) [OF that] oc by (simp only:)
      show "kmap_pages s' (knode ?R (c + n - 1)) = of_nat n" if "st \<noteq> Khole" using k(2) [OF that] oe by (simp only:)
      show "L' (knode ?R c) = Some []" if "st = Kused" using k(3) [OF that] oc by (simp only:)
      show "knode ?R c \<notin> members L'" if "st = Khole" using k(4) [OF that] oc by blast
    qed
  qed
  show "\<exists>zs. L' (khead (kmap_free_ranges s') k) = Some zs \<and>
      set zs = knode (kmap_ranges s') ` {b. \<exists>n. (b, n, Kfree) \<in> segs_from 0 (xs @ mid' @ ys) \<and> kclass n = k}"
    if k: "k < KMAP_ORDERS" for k
  proof -
    obtain zs where zs: "L (khead ?H k) = Some zs" "set zs = knode ?R ` class_begins k 0 (xs @ mid @ ys)"
      using d(6) [OF k] unfolding class_begins_def by blast
    obtain zs' where zs': "L' (khead ?H k) = Some zs'"
      "set zs' = (set zs - knode ?R ` free_begins ?b mid) \<union> knode ?R ` class_begins k ?b mid'"
      using heads [OF k zs(1)] by blast
    let ?XY = "{c. \<exists>n. (c, n, Kfree) \<in> ?X \<union> ?Y \<and> kclass n = k}"
    have fb: "c < ?e \<and> ?b \<le> c" if "c \<in> free_begins ?b mid" for c
    proof -
      obtain n where "(c, n, Kfree) \<in> segs_from ?b mid" using \<open>c \<in> free_begins ?b mid\<close> unfolding free_begins_def by blast
      from segs_from_begin [OF len_mid this] show ?thesis by blast
    qed
    have xy: "c < window_pages \<and> (c < ?b \<or> ?e \<le> c)" if "c \<in> ?XY" for c
    proof -
      obtain n where "(c, n, Kfree) \<in> ?X \<union> ?Y" using \<open>c \<in> ?XY\<close> by blast
      from out [OF this] show ?thesis by auto
    qed
    have "knode ?R ` class_begins k 0 (xs @ mid @ ys) - knode ?R ` free_begins ?b mid = knode ?R ` ?XY"
    proof (intro equalityI subsetI)
      fix x
      assume "x \<in> knode ?R ` class_begins k 0 (xs @ mid @ ys) - knode ?R ` free_begins ?b mid"
      then show "x \<in> knode ?R ` ?XY" unfolding class_begins_def free_begins_def S(1) by blast
    next
      fix x
      assume "x \<in> knode ?R ` ?XY"
      then obtain c where c: "x = knode ?R c" "c \<in> ?XY" by blast
      have "knode ?R c \<notin> knode ?R ` free_begins ?b mid"
      proof
        assume "knode ?R c \<in> knode ?R ` free_begins ?b mid"
        then obtain c' where c': "knode ?R c = knode ?R c'" "c' \<in> free_begins ?b mid" by blast
        have "c = c'" using knode_inj [OF d(1), of c c'] c'(1) xy [OF c(2)] fb [OF c'(2)] len by simp
        then show False using xy [OF c(2)] fb [OF c'(2)] by linarith
      qed
      moreover have "c \<in> class_begins k 0 (xs @ mid @ ys)" using c(2) unfolding class_begins_def S(1) by blast
      ultimately show "x \<in> knode ?R ` class_begins k 0 (xs @ mid @ ys) - knode ?R ` free_begins ?b mid"
        unfolding c(1) by (intro DiffI imageI)
    qed
    then have "set zs' = knode ?R ` ?XY \<union> knode ?R ` class_begins k ?b mid'" using zs(2) zs'(2) by (simp only:)
    also have "\<dots> = knode ?R ` (?XY \<union> class_begins k ?b mid')" by (rule image_Un [symmetric])
    also have "?XY \<union> class_begins k ?b mid' = class_begins k 0 (xs @ mid' @ ys)" unfolding class_begins_def S(2) by blast
    finally show ?thesis using zs'(1) unfolding same class_begins_def by blast
  qed
  show "knode (kmap_ranges s') i \<notin> members L'" if i: "i < window_pages" "i \<notin> fst ` segs_from 0 (xs @ mid' @ ys)" for i
  proof (cases "?b \<le> i \<and> i < ?e")
    case True
    then show ?thesis using gaps i(2) unfolding same S(2) by auto
  next
    case False
    have "i \<notin> fst ` segs_from ?b mid"
    proof
      assume "i \<in> fst ` segs_from ?b mid"
      then obtain n st where "(i, n, st) \<in> segs_from ?b mid" unfolding begin_iff by blast
      from segs_from_begin(1,2) [OF len_mid this] show False using False by blast
    qed
    then have "i \<notin> fst ` segs_from 0 (xs @ mid @ ys)" using i(2) unfolding S by blast
    then show ?thesis using d(7) [OF i(1)] outer [OF i(1)] False unfolding same by auto
  qed
  have "kown s' = kown s" unfolding kown_def same ..
  then show "K = L' |` (- kown s')" using d(8) rest by (auto simp: restrict_map_def fun_eq_iff)
qed

text \<open>A used segment becomes a hole; nothing is written.\<close>

lemma kinv_release:
  assumes inv: "kinv (xs @ (n, Kused) # ys) L K s"
  shows "kinv (xs @ (n, Khole) # ys) (L(knode (kmap_ranges s) (seg_total xs) := None)) K s"
proof -
  let ?R = "kmap_ranges s" and ?b = "seg_total xs"
  let ?x = "knode ?R ?b" and ?L = "L(knode (kmap_ranges s) (seg_total xs) := None)"
  note d = kinvD [OF inv] and sg = kinv_seg [OF inv]
  have Lx: "L ?x = Some []" using sg(3) by (simp add: seg_ok_def Let_def)
  note dr = lists_drop [OF d(2) Lx]
  have mem: "a \<in> members L" if "a \<in> members ?L" for a
    using that unfolding members_def by (auto split: if_splits)
  have ne: "knode ?R i \<noteq> ?x" if "i < window_pages" "i \<noteq> ?b" for i using knode_inj [OF d(1)] that sg(4) by simp
  have "kinv (xs @ [(n, Khole)] @ ys) ?L K s"
  proof (rule kinv_step [where mid = "[(n, Kused)]"])
    show "kinv (xs @ [(n, Kused)] @ ys) L K s" using inv by simp
    show "\<exists>zs'. ?L (khead (kmap_free_ranges s) k) = Some zs' \<and>
        set zs' = set zs - knode ?R ` free_begins ?b [(n, Kused)] \<union> knode ?R ` class_begins k ?b [(n, Khole)]"
      if "k < KMAP_ORDERS" "L (khead (kmap_free_ranges s) k) = Some zs" for k zs
      using that knode_khead [OF d(1) sg(4) that(1)] by (auto simp: free_begins_def class_begins_def)
    show "knode ?R i \<notin> members ?L" if "?b \<le> i" "i < ?b + seg_total [(n, Kused)]" "i \<notin> fst ` segs_from ?b [(n, Khole)]" for i
    proof -
      have "i \<notin> fst ` segs_from 0 (xs @ (n, Kused) # ys)" using that by (intro seg_inside [OF inv]) auto
      moreover have "i < window_pages" using that(2) sg(2) by simp
      ultimately show ?thesis using d(7) mem by blast
    qed
    show "?L a = L a" if "a \<notin> kown s" for a using that own_node [OF sg(4), of s] by auto
    show "seg_ok ?L s b m st" if "(b, m, st) \<in> segs_from ?b [(n, Khole)]" for b m st
      using that dr(2) by (auto simp: seg_ok_def Let_def)
    show "kmap_pages s (knode ?R i) = kmap_pages s (knode ?R i) \<and> ?L (knode ?R i) = L (knode ?R i) \<and>
        (knode ?R i \<in> members ?L \<longrightarrow> knode ?R i \<in> members L)"
      if "i < window_pages" "i < ?b \<or> ?b + seg_total [(n, Kused)] \<le> i" for i
    proof -
      have "i \<noteq> ?b" using that(2) sg(1) by auto
      then show ?thesis using ne [OF that(1)] mem by simp
    qed
  qed (use dr(1) sg(1) in simp_all)
  then show ?thesis by simp
qed

text \<open>The side conditions that all steps within the middle share.\<close>

lemma kinv_ne:
  assumes "kinv segs L K s" "i < window_pages" "j < window_pages" "i \<noteq> j"
  shows "knode (kmap_ranges s) i \<noteq> knode (kmap_ranges s) j"
  using knode_inj [OF kinvD(1) [OF assms(1)], of i j] assms(2-4) by simp

lemma seg_gaps:
  assumes "kinv (xs @ (n, st) # ys) L K s" "seg_total xs < i" "i < seg_total xs + n"
  shows "knode (kmap_ranges s) i \<notin> members L"
  using kinvD(7) [OF assms(1) _ seg_inside [OF assms]] kinv_seg(2) [OF assms(1)] assms(3) by simp

text \<open>A free segment is taken out of its list.\<close>

lemma kinv_unlink:
  assumes inv: "kinv (xs @ (n, Kfree) # ys) L K s"
  obtains L' where "kinv (xs @ (n, Khole) # ys) L' K (s\<lparr>ll := list_del (knode (kmap_ranges s) (seg_total xs)) (ll s)\<rparr>)"
proof -
  let ?R = "kmap_ranges s" and ?b = "seg_total xs" and ?h = "khead (kmap_free_ranges s) (kclass n)"
  let ?x = "knode ?R ?b" and ?s = "s\<lparr>ll := list_del (knode (kmap_ranges s) (seg_total xs)) (ll s)\<rparr>"
  note d = kinvD [OF inv] and sg = kinv_seg [OF inv]
  obtain zs where zs: "L ?h = Some zs" "?x \<in> set zs" using free_member [OF inv seg_in] .
  let ?L = "L(?h \<mapsto> remove1 ?x zs)"
  have dist: "distinct zs" using lists_circ [OF d(2) zs(1)] by (simp add: circ_def)
  have heap: "heap_lists (list_del ?x (ll s)) ?L" by (rule lists_list_del [OF d(2) zs])
  have mem: "members ?L = members L - {?x}"
  proof -
    have "members ?L = (members L - set zs) \<union> set (remove1 ?x zs)" by (rule members_upd [OF zs(1) d(2)])
    moreover have "set zs \<subseteq> members L" using members_Some [of L ?h zs, OF zs(1)] by simp
    ultimately show ?thesis using dist zs(2) by (auto simp: set_remove1_eq)
  qed
  have "kinv (xs @ [(n, Khole)] @ ys) ?L K ?s"
  proof (rule kinv_step [where mid = "[(n, Kfree)]"])
    show "kinv (xs @ [(n, Kfree)] @ ys) L K s" using inv by simp
    show "heap_lists (ll ?s) ?L" using heap by simp
    show "seg_ok ?L ?s b m st" if "(b, m, st) \<in> segs_from ?b [(n, Khole)]" for b m st
      using that mem by (auto simp: seg_ok_def Let_def)
    show "kmap_pages ?s (knode ?R i) = kmap_pages s (knode ?R i) \<and> ?L (knode ?R i) = L (knode ?R i) \<and>
        (knode ?R i \<in> members ?L \<longrightarrow> knode ?R i \<in> members L)" if "i < window_pages" for i
      using knode_khead [OF d(1) that kclass_less] mem by simp
    show "\<exists>ys. ?L (khead (kmap_free_ranges s) k) = Some ys \<and>
        set ys = set ws - knode ?R ` free_begins ?b [(n, Kfree)] \<union> knode ?R ` class_begins k ?b [(n, Khole)]"
      if k: "k < KMAP_ORDERS" and ws: "L (khead (kmap_free_ranges s) k) = Some ws" for k ws
    proof (cases "k = kclass n")
      case True
      then show ?thesis using ws zs(1) dist by (auto simp: free_begins_def class_begins_def set_remove1_eq)
    next
      case False
      then have ne: "khead (kmap_free_ranges s) k \<noteq> ?h" using khead_inj [OF d(1) k kclass_less] by simp
      then have "set (khead (kmap_free_ranges s) k # ws) \<inter> set (?h # zs) = {}"
        using d(2) ws zs(1) unfolding heap_lists_def by blast
      then have "?x \<notin> set ws" using zs(2) by auto
      then show ?thesis using ws ne by (auto simp: free_begins_def class_begins_def)
    qed
    show "knode ?R i \<notin> members ?L" if "?b \<le> i" "i < ?b + seg_total [(n, Kfree)]" "i \<notin> fst ` segs_from ?b [(n, Khole)]" for i
      using seg_gaps [OF inv, of i] that mem by auto
    show "?L a = L a" if "a \<notin> kown s" for a using that own_head [OF kclass_less, of s n] by auto
  qed (use sg(1) in simp_all)
  then show thesis using that by simp
qed

text \<open>Two holes are one, and a hole is two.\<close>

lemma kinv_join:
  assumes inv: "kinv (xs @ (m, Khole) # (n, Khole) # ys) L K s"
  shows "kinv (xs @ (m + n, Khole) # ys) L K s"
proof -
  let ?R = "kmap_ranges s" and ?b = "seg_total xs"
  note d = kinvD [OF inv] and sg = kinv_seg [OF inv]
  have inv2: "kinv ((xs @ [(m, Khole)]) @ (n, Khole) # ys) L K s" using inv by simp
  note sg2 = kinv_seg [OF inv2]
  have no: "knode ?R i \<notin> members L" if "?b \<le> i" "i < ?b + (m + n)" for i
  proof -
    consider "i = ?b" | "?b < i" "i < ?b + m" | "i = ?b + m" | "?b + m < i" "i < ?b + m + n" using \<open>?b \<le> i\<close> \<open>i < ?b + (m + n)\<close> by linarith
    then show ?thesis
    proof cases
      case 1 then show ?thesis using sg(3) by (simp add: seg_ok_def Let_def)
    next
      case 2 then show ?thesis by (rule seg_gaps [OF inv])
    next
      case 3 then show ?thesis using sg2(3) by (simp add: seg_ok_def Let_def)
    next
      case 4 then show ?thesis using seg_gaps [OF inv2, of i] by simp
    qed
  qed
  have "kinv (xs @ [(m + n, Khole)] @ ys) L K s"
  proof (rule kinv_step [where mid = "[(m, Khole), (n, Khole)]"])
    show "kinv (xs @ [(m, Khole), (n, Khole)] @ ys) L K s" using inv by simp
    show "seg_ok L s b k st" if "(b, k, st) \<in> segs_from ?b [(m + n, Khole)]" for b k st
      using that no [of ?b] sg(1) by (auto simp: seg_ok_def Let_def)
    show "knode ?R i \<notin> members L" if "?b \<le> i" "i < ?b + seg_total [(m, Khole), (n, Khole)]" for i using no that by simp
  qed (use d sg(1) in \<open>simp_all add: free_begins_def class_begins_def\<close>)
  then show ?thesis by simp
qed

lemma kinv_split:
  assumes inv: "kinv (xs @ (m + n, Khole) # ys) L K s" and n: "0 < m" "0 < n"
  shows "kinv (xs @ (m, Khole) # (n, Khole) # ys) L K s"
proof -
  let ?R = "kmap_ranges s" and ?b = "seg_total xs"
  note d = kinvD [OF inv] and sg = kinv_seg [OF inv]
  have no: "knode ?R i \<notin> members L" if "?b \<le> i" "i < ?b + (m + n)" for i
    using seg_gaps [OF inv, of i] sg(3) that by (cases "i = ?b") (simp_all add: seg_ok_def Let_def)
  have "kinv (xs @ [(m, Khole), (n, Khole)] @ ys) L K s"
  proof (rule kinv_step [where mid = "[(m + n, Khole)]"])
    show "kinv (xs @ [(m + n, Khole)] @ ys) L K s" using inv by simp
    show "seg_ok L s b k st" if "(b, k, st) \<in> segs_from ?b [(m, Khole), (n, Khole)]" for b k st
      using that no [of ?b] no [of "?b + m"] n by (auto simp: seg_ok_def Let_def)
    show "knode ?R i \<notin> members L" if "?b \<le> i" "i < ?b + seg_total [(m + n, Khole)]" for i using no that by simp
  qed (use d n in \<open>simp_all add: free_begins_def class_begins_def\<close>)
  then show ?thesis by simp
qed

definition set_tags :: "addr \<Rightarrow> addr \<Rightarrow> u64 \<Rightarrow> 'a vm_scheme \<Rightarrow> 'a vm_scheme" where
  "set_tags a b n s = s\<lparr>kmap_pages := (kmap_pages s)(a := n, b := n)\<rparr>"

text \<open>A hole becomes a free segment, in the list of its order.\<close>

lemma kinv_link:
  assumes inv: "kinv (xs @ (n, Khole) # ys) L K s"
  defines "s' \<equiv> set_tags (knode (kmap_ranges s) (seg_total xs)) (knode (kmap_ranges s) (seg_total xs + n - 1)) (of_nat n)
      (s\<lparr>ll := list_add (knode (kmap_ranges s) (seg_total xs)) (khead (kmap_free_ranges s) (kclass n)) (ll s)\<rparr>)"
  obtains L' where "kinv (xs @ (n, Kfree) # ys) L' K s'"
proof -
  let ?R = "kmap_ranges s" and ?b = "seg_total xs" and ?h = "khead (kmap_free_ranges s) (kclass n)"
  let ?x = "knode ?R ?b"
  note d = kinvD [OF inv] and sg = kinv_seg [OF inv]
  obtain zs where zs: "L ?h = Some zs" using d(6) [OF kclass_less, of n] by blast
  let ?L = "L(?h \<mapsto> ?x # zs)"
  have xm: "?x \<notin> members L" using sg(3) by (simp add: seg_ok_def Let_def)
  have nn: "?x \<noteq> NULL" using knode_not_null [OF d(1)] sg(4) by simp
  have heap: "heap_lists (list_add ?x ?h (ll s)) ?L" by (rule lists_list_add [OF d(2) zs nn xm])
  have mem: "members ?L = insert ?x (members L)"
  proof -
    have "members ?L = (members L - set zs) \<union> set (?x # zs)" by (rule members_upd [OF zs d(2)])
    moreover have "set zs \<subseteq> members L" using members_Some [of L ?h zs, OF zs] by simp
    ultimately show ?thesis by auto
  qed
  have lt: "?b + n - 1 < window_pages" using sg(1,2) by simp
  have "kinv (xs @ [(n, Kfree)] @ ys) ?L K s'"
  proof (rule kinv_step [where mid = "[(n, Khole)]"])
    show "kinv (xs @ [(n, Khole)] @ ys) L K s" using inv by simp
    show "heap_lists (ll s') ?L" using heap by (simp add: s'_def set_tags_def)
    show "seg_ok ?L s' b m st" if "(b, m, st) \<in> segs_from ?b [(n, Kfree)]" for b m st
      using that by (auto simp: seg_ok_def Let_def s'_def set_tags_def)
    show "kmap_pages s' (knode ?R i) = kmap_pages s (knode ?R i) \<and> ?L (knode ?R i) = L (knode ?R i) \<and>
        (knode ?R i \<in> members ?L \<longrightarrow> knode ?R i \<in> members L)"
      if i: "i < window_pages" "i < ?b \<or> ?b + seg_total [(n, Khole)] \<le> i" for i
    proof -
      have "i \<noteq> ?b" "i \<noteq> ?b + n - 1" using i(2) sg(1) by auto
      then have "knode ?R i \<noteq> ?x" "knode ?R i \<noteq> knode ?R (?b + n - 1)"
        using kinv_ne [OF inv i(1)] sg(4) lt by blast+
      then show ?thesis using knode_khead [OF d(1) i(1) kclass_less] mem by (simp add: s'_def set_tags_def)
    qed
    show "\<exists>ys. ?L (khead (kmap_free_ranges s) k) = Some ys \<and>
        set ys = set ws - knode ?R ` free_begins ?b [(n, Khole)] \<union> knode ?R ` class_begins k ?b [(n, Kfree)]"
      if k: "k < KMAP_ORDERS" and ws: "L (khead (kmap_free_ranges s) k) = Some ws" for k ws
      using khead_inj [OF d(1) k kclass_less, of n] ws zs by (cases "k = kclass n") (auto simp: free_begins_def class_begins_def)
    show "knode ?R i \<notin> members ?L" if i: "?b \<le> i" "i < ?b + seg_total [(n, Khole)]" "i \<notin> fst ` segs_from ?b [(n, Kfree)]" for i
    proof -
      have "i \<noteq> ?b" "i < window_pages" using i sg(2) by auto
      then have "knode ?R i \<noteq> ?x" using kinv_ne [OF inv _ sg(4)] by blast
      then show ?thesis using seg_gaps [OF inv, of i] i mem by auto
    qed
    show "?L a = L a" if "a \<notin> kown s" for a using that own_head [OF kclass_less, of s n] by auto
  qed (use sg(1) in \<open>simp_all add: s'_def set_tags_def\<close>)
  then show thesis using that by simp
qed

text \<open>A hole becomes a used segment, with its own links as an empty list.\<close>

lemma kinv_use:
  assumes inv: "kinv (xs @ (n, Khole) # ys) L K s"
  defines "s' \<equiv> set_tags (knode (kmap_ranges s) (seg_total xs)) (knode (kmap_ranges s) (seg_total xs + n - 1)) (of_nat n)
      (s\<lparr>ll := list_init (knode (kmap_ranges s) (seg_total xs)) (ll s)\<rparr>)"
  obtains L' where "kinv (xs @ (n, Kused) # ys) L' K s'"
proof -
  let ?R = "kmap_ranges s" and ?b = "seg_total xs"
  let ?x = "knode ?R ?b"
  note d = kinvD [OF inv] and sg = kinv_seg [OF inv]
  let ?L = "L(?x \<mapsto> [])"
  have xm: "?x \<notin> members L" using sg(3) by (simp add: seg_ok_def Let_def)
  have xn: "L ?x = None"
  proof (rule ccontr)
    assume "L ?x \<noteq> None"
    then obtain zs where "L ?x = Some zs" by auto
    then show False using xm members_Some [of L ?x zs] by auto
  qed
  have nn: "?x \<noteq> NULL" using knode_not_null [OF d(1)] sg(4) by simp
  have heap: "heap_lists (list_init ?x (ll s)) ?L" by (rule lists_list_init [OF d(2) nn xm])
  have mem: "members ?L = insert ?x (members L)" using members_new [of L ?x "[]", OF xn] by auto
  have lt: "?b + n - 1 < window_pages" using sg(1,2) by simp
  have "kinv (xs @ [(n, Kused)] @ ys) ?L K s'"
  proof (rule kinv_step [where mid = "[(n, Khole)]"])
    show "kinv (xs @ [(n, Khole)] @ ys) L K s" using inv by simp
    show "heap_lists (ll s') ?L" using heap by (simp add: s'_def set_tags_def)
    show "seg_ok ?L s' b m st" if "(b, m, st) \<in> segs_from ?b [(n, Kused)]" for b m st
      using that by (auto simp: seg_ok_def Let_def s'_def set_tags_def)
    show "kmap_pages s' (knode ?R i) = kmap_pages s (knode ?R i) \<and> ?L (knode ?R i) = L (knode ?R i) \<and>
        (knode ?R i \<in> members ?L \<longrightarrow> knode ?R i \<in> members L)"
      if i: "i < window_pages" "i < ?b \<or> ?b + seg_total [(n, Khole)] \<le> i" for i
    proof -
      have "i \<noteq> ?b" "i \<noteq> ?b + n - 1" using i(2) sg(1) by auto
      then have "knode ?R i \<noteq> ?x" "knode ?R i \<noteq> knode ?R (?b + n - 1)"
        using kinv_ne [OF inv i(1)] sg(4) lt by blast+
      then show ?thesis using mem by (simp add: s'_def set_tags_def)
    qed
    show "\<exists>ys. ?L (khead (kmap_free_ranges s) k) = Some ys \<and>
        set ys = set ws - knode ?R ` free_begins ?b [(n, Khole)] \<union> knode ?R ` class_begins k ?b [(n, Kused)]"
      if k: "k < KMAP_ORDERS" and ws: "L (khead (kmap_free_ranges s) k) = Some ws" for k ws
      using knode_khead [OF d(1) sg(4) k] ws by (auto simp: free_begins_def class_begins_def)
    show "knode ?R i \<notin> members ?L" if i: "?b \<le> i" "i < ?b + seg_total [(n, Khole)]" "i \<notin> fst ` segs_from ?b [(n, Kused)]" for i
    proof -
      have "i \<noteq> ?b" "i < window_pages" using i sg(2) by auto
      then have "knode ?R i \<noteq> ?x" using kinv_ne [OF inv _ sg(4)] by blast
      then show ?thesis using seg_gaps [OF inv, of i] i mem by auto
    qed
    show "?L a = L a" if "a \<notin> kown s" for a using that own_node [OF sg(4), of s] by auto
  qed (use sg(1) in \<open>simp_all add: s'_def set_tags_def\<close>)
  then show thesis using that by simp
qed

section \<open>Freeing a range\<close>

definition last_free :: "kseg list \<Rightarrow> bool" where
  "last_free xs \<longleftrightarrow> xs \<noteq> [] \<and> snd (last xs) = Kfree"

definition first_free :: "kseg list \<Rightarrow> bool" where
  "first_free ys \<longleftrightarrow> ys \<noteq> [] \<and> snd (hd ys) = Kfree"

text \<open>The segments after a hole of \<open>n\<close> pages has been given back.\<close>

definition give_back :: "kseg list \<Rightarrow> nat \<Rightarrow> kseg list \<Rightarrow> kseg list" where
  "give_back xs n ys =
     (let (xs, n) = (if last_free xs then (butlast xs, fst (last xs) + n) else (xs, n));
          (n, ys) = (if first_free ys then (n + fst (hd ys), tl ys) else (n, ys))
      in xs @ (n, Kfree) # ys)"

definition no_holes :: "kseg list \<Rightarrow> bool" where
  "no_holes ss \<longleftrightarrow> Khole \<notin> snd ` set ss"

text \<open>Only the links and the lengths change.\<close>

definition ranges_only :: "'a vm_scheme \<Rightarrow> 'a vm_scheme \<Rightarrow> bool" where
  "ranges_only s s' \<longleftrightarrow> (\<exists>h k. s' = s\<lparr>ll := h, kmap_pages := k\<rparr>)"

lemma ranges_only_refl: "ranges_only s s"
  unfolding ranges_only_def by (rule exI [of _ "ll s"], rule exI [of _ "kmap_pages s"]) simp

lemma ranges_only_trans: "ranges_only s s1 \<Longrightarrow> ranges_only s1 s2 \<Longrightarrow> ranges_only s s2"
  unfolding ranges_only_def by fastforce

lemma ranges_only_ll: "ranges_only s (s\<lparr>ll := h\<rparr>)" "ranges_only s (set_tags a b n (s\<lparr>ll := h\<rparr>))"
  unfolding ranges_only_def set_tags_def
  by (rule exI [of _ h], rule exI [of _ "kmap_pages s"], simp) (rule exI [of _ h], rule exI, simp)

lemma ranges_only_layout: "ranges_only s s' \<Longrightarrow> kmap_ranges s' = kmap_ranges s \<and> kmap_free_ranges s' = kmap_free_ranges s"
  unfolding ranges_only_def by auto

lemma merge_prev_ok:
  assumes inv: "kinv (xs @ (n, Khole) # ys) L K s" and nh: "no_holes xs"
  shows "\<exists>L' s'. kmap_merge_prev (knode (kmap_ranges s) (seg_total xs)) (of_nat n) s =
      (knode (kmap_ranges s) (seg_total (if last_free xs then butlast xs else xs)),
       of_nat (if last_free xs then fst (last xs) + n else n), s') \<and>
    kinv ((if last_free xs then butlast xs else xs) @ (if last_free xs then fst (last xs) + n else n, Khole) # ys) L' K s' \<and>
    ranges_only s s'"
proof (cases xs rule: rev_cases)
  case Nil
  then have "knode (kmap_ranges s) (seg_total xs) = kmap_ranges s" by (simp add: knode_def)
  then show ?thesis using inv Nil ranges_only_refl [of s] by (auto simp: kmap_merge_prev_def last_free_def)
next
  case (snoc zs z)
  obtain m st where z: "z = (m, st)" by (cases z)
  let ?R = "kmap_ranges s" and ?b = "seg_total xs"
  note d = kinvD [OF inv] and sg = kinv_seg [OF inv]
  have inv1: "kinv (zs @ (m, st) # (n, Khole) # ys) L K s" using inv by (simp add: snoc z)
  note sg1 = kinv_seg [OF inv1]
  have b: "?b = seg_total zs + m" by (simp add: snoc z)
  have st: "st \<noteq> Khole" using nh by (auto simp: snoc z no_holes_def)
  have gt: "?R < knode ?R ?b"
    using unat_knode [OF d(1), of ?b] sg(4) sg1(1) b by (simp add: word_less_nat_alt)
  have prev: "kmap_nth (knode ?R ?b) (- kmap_pages s (kmap_nth (knode ?R ?b) (- 1))) = knode ?R (seg_total zs)"
  proof -
    have "kmap_nth (knode ?R ?b) (- 1) = knode ?R (?b - 1)" using sg1(1) b by (intro kmap_nth_knode(3)) simp
    moreover have "kmap_pages s (knode ?R (?b - 1)) = of_nat m" using sg1(3) st b by (simp add: seg_ok_def Let_def)
    ultimately show ?thesis using kmap_nth_knode(2) [of m ?b ?R] b by simp
  qed
  have le: "list_empty (knode ?R (seg_total zs)) (ll s) \<longleftrightarrow> st = Kused"
    by (rule seg_list_empty [OF inv1 seg_in st])
  have tag: "kmap_pages s (knode ?R (seg_total zs)) = of_nat m" using sg1(3) st by (simp add: seg_ok_def Let_def)
  show ?thesis
  proof (cases "st = Kused")
    case True
    then show ?thesis using inv gt prev le ranges_only_refl [of s]
      by (auto simp: kmap_merge_prev_def last_free_def snoc z Let_def)
  next
    case False
    then have fr: "st = Kfree" using st by (cases st) auto
    let ?s = "s\<lparr>ll := list_del (knode ?R (seg_total zs)) (ll s)\<rparr>"
    obtain L' where "kinv (zs @ (m, Khole) # (n, Khole) # ys) L' K ?s"
      using kinv_unlink [OF inv1 [unfolded fr]] by blast
    then have "kinv (zs @ (m + n, Khole) # ys) L' K ?s" by (rule kinv_join)
    moreover have "kmap_merge_prev (knode ?R ?b) (of_nat n) s = (knode ?R (seg_total zs), of_nat (m + n), ?s)"
      using gt prev le fr tag by (simp add: kmap_merge_prev_def Let_def)
    ultimately show ?thesis using ranges_only_ll(1) [of s] by (auto simp: last_free_def snoc z fr)
  qed
qed

lemma merge_next_ok:
  assumes inv: "kinv (xs @ (n, Khole) # ys) L K s" and nh: "no_holes ys"
  shows "\<exists>L' s'. kmap_merge_next (knode (kmap_ranges s) (seg_total xs)) (of_nat n) s =
      (of_nat (if first_free ys then n + fst (hd ys) else n), s') \<and>
    kinv (xs @ (if first_free ys then n + fst (hd ys) else n, Khole) # (if first_free ys then tl ys else ys)) L' K s' \<and>
    ranges_only s s'"
proof -
  let ?R = "kmap_ranges s" and ?b = "seg_total xs"
  note d = kinvD [OF inv] and sg = kinv_seg [OF inv]
  have nxt: "kmap_nth (knode ?R ?b) (of_nat n) = knode ?R (?b + n)" by (rule kmap_nth_knode(1))
  have fin: "kmap_nth ?R KMAP_PAGES = knode ?R window_pages" using kmap_nth_knode(4) [of ?R window_pages] by simp
  have lt: "knode ?R (?b + n) < knode ?R window_pages \<longleftrightarrow> ys \<noteq> []"
  proof -
    have "lens_ok ys" using d(3) by simp
    then have "seg_total ys = 0 \<longleftrightarrow> ys = []" by (cases ys) auto
    then show ?thesis using unat_knode [OF d(1), of "?b + n"] unat_knode [OF d(1), of window_pages] sg(2)
      by (auto simp: word_less_nat_alt)
  qed
  show ?thesis
  proof (cases ys)
    case Nil
    then show ?thesis using inv lt ranges_only_refl [of s] unfolding kmap_merge_next_def nxt fin
      by (intro exI [of _ L] exI [of _ s]) (simp add: first_free_def)
  next
    case (Cons z zs)
    obtain m st where z: "z = (m, st)" by (cases z)
    have inv1: "kinv ((xs @ [(n, Khole)]) @ (m, st) # zs) L K s" using inv by (simp add: Cons z)
    note sg1 = kinv_seg [OF inv1]
    have b: "seg_total (xs @ [(n, Khole)]) = ?b + n" by simp
    have st: "st \<noteq> Khole" using nh by (auto simp: Cons z no_holes_def)
    have le: "list_empty (knode ?R (?b + n)) (ll s) \<longleftrightarrow> st = Kused"
      using seg_list_empty [OF inv1 seg_in st] unfolding b .
    have tag: "kmap_pages s (knode ?R (?b + n)) = of_nat m" using sg1(3) st unfolding b by (simp add: seg_ok_def Let_def)
    show ?thesis
    proof (cases "st = Kused")
      case True
      then show ?thesis using inv le lt ranges_only_refl [of s] unfolding kmap_merge_next_def nxt fin
        by (intro exI [of _ L] exI [of _ s]) (simp add: first_free_def Cons z Let_def)
    next
      case False
      then have fr: "st = Kfree" using st by (cases st) auto
      let ?s = "s\<lparr>ll := list_del (knode ?R (?b + n)) (ll s)\<rparr>"
      obtain L' where "kinv ((xs @ [(n, Khole)]) @ (m, Khole) # zs) L' K ?s"
        using kinv_unlink [OF inv1 [unfolded fr]] unfolding b by blast
      then have "kinv (xs @ (n, Khole) # (m, Khole) # zs) L' K ?s" by simp
      then have "kinv (xs @ (n + m, Khole) # zs) L' K ?s" by (rule kinv_join)
      moreover have "kmap_merge_next (knode ?R ?b) (of_nat n) s = (of_nat (n + m), ?s)"
        using le lt fr tag unfolding kmap_merge_next_def nxt fin by (simp add: Cons Let_def)
      ultimately show ?thesis using ranges_only_ll(1) [of s] by (auto simp: first_free_def Cons z fr)
    qed
  qed
qed

lemma kmap_free_range_ok:
  assumes inv: "kinv (xs @ (n, Khole) # ys) L K s" and nh: "no_holes xs" "no_holes ys"
  shows "\<exists>L'. kinv (give_back xs n ys) L' K (kmap_free_range (knode (kmap_ranges s) (seg_total xs)) (of_nat n) s) \<and>
    ranges_only s (kmap_free_range (knode (kmap_ranges s) (seg_total xs)) (of_nat n) s)"
proof -
  let ?R = "kmap_ranges s"
  define xs1 where "xs1 = (if last_free xs then butlast xs else xs)"
  define n1 where "n1 = (if last_free xs then fst (last xs) + n else n)"
  obtain L1 s1 where 1: "kmap_merge_prev (knode ?R (seg_total xs)) (of_nat n) s = (knode ?R (seg_total xs1), of_nat n1, s1)"
    "kinv (xs1 @ (n1, Khole) # ys) L1 K s1" "ranges_only s s1"
    using merge_prev_ok [OF inv nh(1)] unfolding xs1_def n1_def by blast
  note l1 = ranges_only_layout [OF 1(3)]
  define ys2 where "ys2 = (if first_free ys then tl ys else ys)"
  define n2 where "n2 = (if first_free ys then n1 + fst (hd ys) else n1)"
  obtain L2 s2 where 2: "kmap_merge_next (knode ?R (seg_total xs1)) (of_nat n1) s1 = (of_nat n2, s2)"
    "kinv (xs1 @ (n2, Khole) # ys2) L2 K s2" "ranges_only s1 s2"
    using merge_next_ok [OF 1(2) nh(2)] l1 unfolding ys2_def n2_def by auto
  note l2 = ranges_only_layout [OF 2(3)]
  have pos: "0 < n2" using kinv_seg(1) [OF 2(2)] .
  let ?x = "knode ?R (seg_total xs1)" and ?s3 = "set_tags (knode ?R (seg_total xs1)) (knode ?R (seg_total xs1 + n2 - 1)) (of_nat n2)
      (s2\<lparr>ll := list_add (knode ?R (seg_total xs1)) (khead (kmap_free_ranges s2) (kclass n2)) (ll s2)\<rparr>)"
  obtain L3 where 3: "kinv (xs1 @ (n2, Kfree) # ys2) L3 K ?s3"
    using kinv_link [OF 2(2)] l1 l2 by (auto simp: )
  have "kmap_nth ?x (of_nat n2 - 1) = knode ?R (seg_total xs1 + n2 - 1)"
  proof -
    have "(of_nat n2 - 1 :: u64) = of_nat (n2 - 1)" using pos by (simp add: of_nat_diff)
    then show ?thesis using kmap_nth_knode(1) [of ?R "seg_total xs1" "n2 - 1"] pos by simp
  qed
  then have "kmap_free_range (knode ?R (seg_total xs)) (of_nat n) s = ?s3"
    unfolding kmap_free_range_def 1(1) by (simp add: 2(1) Let_def set_tags_def kmap_head_khead kclass_def)
  moreover have "give_back xs n ys = xs1 @ (n2, Kfree) # ys2"
    by (simp add: give_back_def xs1_def n1_def ys2_def n2_def)
  moreover have "ranges_only s ?s3" using 1(3) 2(3) ranges_only_ll(2) ranges_only_trans by blast
  ultimately show ?thesis using 3 by auto
qed

section \<open>Orders\<close>

lemma kmap_order_from_spec:
  assumes "p < 2 ^ 64"
  shows "k \<le> KMAP_ORDERS \<Longrightarrow> \<forall>j<k. 2 ^ j < p \<Longrightarrow>
    (kmap_order_from k (of_nat p) < KMAP_ORDERS \<longrightarrow> p \<le> 2 ^ kmap_order_from k (of_nat p)) \<and> (\<forall>j<kmap_order_from k (of_nat p). 2 ^ j < p)"
proof (induction "KMAP_ORDERS - k" arbitrary: k rule: less_induct)
  case less
  have lt: "push_bit k 1 < (of_nat p :: u64) \<longleftrightarrow> 2 ^ k < p"
  proof -
    have "(2 :: nat) ^ k < 2 ^ 64" using less.prems(1) by (intro power_strict_increasing) auto
    then have "unat (push_bit k 1 :: u64) = 2 ^ k" using unat_of_nat64 [of "2 ^ k"] by (simp add: push_bit_eq_mult)
    then show ?thesis using unat_of_nat64 [OF assms] by (simp add: word_less_nat_alt)
  qed
  show ?case
  proof (cases "2 ^ k < p \<and> k < KMAP_ORDERS")
    case True
    have "\<forall>j<Suc k. 2 ^ j < p" using less.prems(2) True by (auto simp: less_Suc_eq)
    moreover have "kmap_order_from k (of_nat p) = kmap_order_from (Suc k) (of_nat p)"
      using True lt by (subst kmap_order_from.simps) simp
    ultimately show ?thesis using less.hyps [of "Suc k"] True by simp
  next
    case False
    then have "kmap_order_from k (of_nat p) = k" using lt by (subst kmap_order_from.simps) auto
    then show ?thesis using less.prems False by auto
  qed
qed

lemma kmap_order_spec:
  assumes "p < 2 ^ 64"
  shows "kmap_order (of_nat p) \<le> KMAP_ORDERS" "kmap_order (of_nat p) < KMAP_ORDERS \<Longrightarrow> p \<le> 2 ^ kmap_order (of_nat p)"
    "j < kmap_order (of_nat p) \<Longrightarrow> 2 ^ j < p"
  using kmap_order_from_spec [OF assms, of 0] kmap_order_from_le [of 0 "of_nat p"] by (auto simp: kmap_order_def)

text \<open>Every free segment that is long enough is in one of the lists that are searched.\<close>

lemma long_class:
  assumes "p \<le> n" "n \<le> window_pages"
  shows "kmap_order (of_nat p) - 1 \<le> kclass n" "\<not> p < 2 ^ kmap_order (of_nat p) \<Longrightarrow> kmap_order (of_nat p) < KMAP_ORDERS \<Longrightarrow>
    kmap_order (of_nat p) \<le> kclass n"
proof -
  let ?o = "kmap_order (of_nat (n + 1))" and ?k = "kmap_order (of_nat p)"
  have lt: "p < 2 ^ 64" "n + 1 < 2 ^ 64" using assms by simp_all
  have kc: "kclass n = ?o - 1" by (simp add: kclass_def add.commute)
  note o = kmap_order_spec [OF lt(2)] and k = kmap_order_spec [OF lt(1)]
  have le: "?k \<le> ?o"
  proof (rule ccontr)
    assume "\<not> ?k \<le> ?o"
    then have "2 ^ ?o < p" "n + 1 \<le> 2 ^ ?o" using k(1,3) o(2) by auto
    then show False using assms(1) by linarith
  qed
  then show "?k - 1 \<le> kclass n" unfolding kc by (rule diff_le_mono)
  assume a: "\<not> p < 2 ^ ?k" "?k < KMAP_ORDERS"
  have "?k \<noteq> ?o"
  proof
    assume e: "?k = ?o"
    then have "n + 1 \<le> 2 ^ ?k" using o(2) a(2) by simp
    then show False using a(1) assms(1) by linarith
  qed
  then show "?k \<le> kclass n" unfolding kc using le by linarith
qed

section \<open>Finding a range\<close>

lemma kmap_find_walk:
  "linked (ll s) (zs @ [h]) \<Longrightarrow> h \<notin> set zs \<Longrightarrow>
   kmap_find_from h (hd (zs @ [h])) pages s = Some (case List.find (\<lambda>z. pages \<le> kmap_pages s z) zs of Some z \<Rightarrow> z | None \<Rightarrow> NULL)"
proof (induction zs)
  case Nil
  then show ?case by (subst kmap_find_from.simps) simp
next
  case (Cons z zs)
  have l: "linked (ll s) (zs @ [h])" "lh_next (ll s) z = hd (zs @ [h])" using Cons.prems(1) by (simp_all add: linked_Cons)
  show ?case using Cons.IH [OF l(1)] Cons.prems(2) l(2) by (subst kmap_find_from.simps) auto
qed

definition found :: "kseg list \<Rightarrow> nat set \<Rightarrow> nat \<Rightarrow> 'a vm_scheme \<Rightarrow> addr \<Rightarrow> bool" where
  "found segs ks p s z \<longleftrightarrow>
     z = NULL \<and> (\<forall>b n. (b, n, Kfree) \<in> segs_from 0 segs \<longrightarrow> kclass n \<in> ks \<longrightarrow> n < p) \<or>
     (\<exists>b n. (b, n, Kfree) \<in> segs_from 0 segs \<and> p \<le> n \<and> z = knode (kmap_ranges s) b \<and> z \<noteq> NULL)"

lemma kmap_find_free_ok:
  assumes inv: "kinv segs L K s" and k: "k < KMAP_ORDERS" and p: "p < 2 ^ 64"
  shows "\<exists>z. kmap_find_free k (of_nat p) s = Some z \<and> found segs {k} p s z"
proof -
  let ?R = "kmap_ranges s" and ?h = "khead (kmap_free_ranges s) k"
  note d = kinvD [OF inv]
  obtain zs where zs: "L ?h = Some zs" "set zs = knode ?R ` {b. \<exists>n. (b, n, Kfree) \<in> segs_from 0 segs \<and> kclass n = k}"
    using d(6) [OF k] by blast
  have c: "circ (ll s) ?h zs" by (rule lists_circ [OF d(2) zs(1)])
  then have "lh_next (ll s) ?h = hd (zs @ [?h])" "linked (ll s) (zs @ [?h])" "?h \<notin> set zs"
    by (auto simp: circ_def linked_Cons)
  then have run: "kmap_find_free k (of_nat p) s =
      Some (case List.find (\<lambda>z. of_nat p \<le> kmap_pages s z) zs of Some z \<Rightarrow> z | None \<Rightarrow> NULL)"
    using kmap_find_walk [of s zs ?h "of_nat p"] by (simp add: kmap_find_free_def kmap_head_khead Let_def)
  have tag: "kmap_pages s (knode ?R b) = of_nat n" "b < window_pages" "(of_nat p :: u64) \<le> of_nat n \<longleftrightarrow> p \<le> n"
    if "(b, n, Kfree) \<in> segs_from 0 segs" for b n
  proof -
    show "kmap_pages s (knode ?R b) = of_nat n" using d(5) [OF that] by (simp add: seg_ok_def Let_def)
    have r: "b < window_pages" "b + n \<le> window_pages" using segs_from_begin [OF d(3) that] d(4) by auto
    then show "b < window_pages" by simp
    have "unat (of_nat p :: u64) = p" "unat (of_nat n :: u64) = n" using p r by (simp_all only: unat_of_nat64) (simp add: unat_of_nat64)
    then show "(of_nat p :: u64) \<le> of_nat n \<longleftrightarrow> p \<le> n" by (simp add: word_le_nat_alt)
  qed
  show ?thesis
  proof (cases "List.find (\<lambda>z. of_nat p \<le> kmap_pages s z) zs")
    case None
    have "n < p" if "(b, n, Kfree) \<in> segs_from 0 segs" "kclass n = k" for b n
    proof -
      have "knode ?R b \<in> set zs" using that zs(2) by blast
      then have "\<not> of_nat p \<le> kmap_pages s (knode ?R b)" using None by (auto simp: find_None_iff)
      then show ?thesis using tag [OF that(1)] by simp
    qed
    then show ?thesis using run None by (auto simp: found_def)
  next
    case (Some z)
    then have z: "z \<in> set zs" "of_nat p \<le> kmap_pages s z" by (auto simp: find_Some_iff in_set_conv_nth)
    then obtain b n where bn: "z = knode ?R b" "(b, n, Kfree) \<in> segs_from 0 segs" using zs(2) by auto
    have "z \<noteq> NULL" using knode_not_null [OF d(1), of b] tag(2) [OF bn(2)] bn(1) by simp
    then show ?thesis using run Some z(2) bn tag [OF bn(2)] by (auto simp: found_def)
  qed
qed

lemma kmap_find_orders_ok:
  assumes inv: "kinv segs L K s" and p: "p < 2 ^ 64"
  shows "\<forall>k\<in>set os. k < KMAP_ORDERS \<Longrightarrow> \<exists>z. kmap_find_orders os (of_nat p) s = Some z \<and> found segs (set os) p s z"
proof (induction os)
  case (Cons k os)
  obtain z where z: "kmap_find_free k (of_nat p) s = Some z" "found segs {k} p s z"
    using kmap_find_free_ok [OF inv _ p] Cons.prems by auto
  show ?case
  proof (cases "z = NULL")
    case True
    obtain z' where "kmap_find_orders os (of_nat p) s = Some z'" "found segs (set os) p s z'" using Cons by auto
    then show ?thesis using z True unfolding found_def by auto
  next
    case False
    then show ?thesis using z unfolding found_def by auto
  qed
qed (simp add: found_def)

section \<open>Allocating a range\<close>

lemma seg_split:
  "(c, n, st) \<in> segs_from b ss \<Longrightarrow> \<exists>xs ys. ss = xs @ (n, st) # ys \<and> c = b + seg_total xs"
proof (induction b ss rule: segs_from.induct)
  case (2 b m s ss)
  show ?case
  proof (cases "(c, n, st) = (b, m, s)")
    case True
    then show ?thesis by (intro exI [of _ "[]"] exI [of _ ss]) simp
  next
    case False
    then obtain xs ys where "ss = xs @ (n, st) # ys" "c = b + m + seg_total xs" using 2 by auto
    then show ?thesis by (intro exI [of _ "(m, s) # xs"] exI [of _ ys]) simp
  qed
qed simp

text \<open>What is left of a free segment of which the first part has been taken.\<close>

definition after_taken :: "nat \<Rightarrow> kseg list \<Rightarrow> kseg list" where
  "after_taken m ys = (if m = 0 then ys else give_back [] m ys)"

lemma give_back_used: "give_back (xs @ [(p, Kused)]) m ys = xs @ (p, Kused) # give_back [] m ys"
  by (simp add: give_back_def last_free_def Let_def)

lemma take_range_ok:
  assumes inv: "kinv (xs @ (n, Kfree) # ys) L K s" and nh: "no_holes xs" "no_holes ys" and p: "1 \<le> p" "p \<le> n"
  defines "x \<equiv> knode (kmap_ranges s) (seg_total xs)"
  defines "t \<equiv> set_tags x (knode (kmap_ranges s) (seg_total xs + p - 1)) (of_nat p)
      (s\<lparr>ll := list_init x (list_del x (ll s))\<rparr>)"
  defines "s' \<equiv> (if p < n then kmap_free_range (knode (kmap_ranges s) (seg_total xs + p)) (of_nat (n - p)) t else t)"
  shows "(\<exists>L'. kinv (xs @ (p, Kused) # after_taken (n - p) ys) L' K s') \<and> ranges_only s s'"
proof -
  let ?R = "kmap_ranges s"
  let ?s1 = "s\<lparr>ll := list_del x (ll s)\<rparr>"
  obtain L1 where 1: "kinv (xs @ (n, Khole) # ys) L1 K ?s1" using kinv_unlink [OF inv] unfolding x_def by blast
  have t: "t = set_tags (knode (kmap_ranges ?s1) (seg_total xs)) (knode (kmap_ranges ?s1) (seg_total xs + p - 1)) (of_nat p)
      (?s1\<lparr>ll := list_init (knode (kmap_ranges ?s1) (seg_total xs)) (ll ?s1)\<rparr>)"
    by (simp add: t_def x_def)
  have ro: "ranges_only s t" unfolding t_def by (rule ranges_only_ll(2))
  show ?thesis
  proof (cases "p < n")
    case True
    have "kinv (xs @ (p + (n - p), Khole) # ys) L1 K ?s1" using 1 True by simp
    then have "kinv (xs @ (p, Khole) # (n - p, Khole) # ys) L1 K ?s1" using p True by (intro kinv_split) auto
    from kinv_use [OF this] obtain L2 where "kinv (xs @ (p, Kused) # (n - p, Khole) # ys) L2 K t" unfolding t by blast
    then have 2: "kinv ((xs @ [(p, Kused)]) @ (n - p, Khole) # ys) L2 K t" by simp
    have "no_holes (xs @ [(p, Kused)])" using nh(1) by (auto simp: no_holes_def)
    from kmap_free_range_ok [OF 2 this nh(2)] obtain L3 where
      "kinv (give_back (xs @ [(p, Kused)]) (n - p) ys) L3 K s'" "ranges_only t s'"
      using True ranges_only_layout [OF ro] by (auto simp: s'_def)
    then show ?thesis using ranges_only_trans [OF ro] True unfolding give_back_used by (auto simp: after_taken_def)
  next
    case False
    then have "p = n" using p by simp
    then have "kinv (xs @ (p, Khole) # ys) L1 K ?s1" using 1 by simp
    from kinv_use [OF this] obtain L2 where "kinv (xs @ (p, Kused) # ys) L2 K t" unfolding t by blast
    then show ?thesis using ro False \<open>p = n\<close> by (auto simp: s'_def after_taken_def)
  qed
qed

lemma kmap_search_ok:
  assumes inv: "kinv segs L K s" and p: "1 \<le> p" "p < 65536"
  defines "start \<equiv> kmap_order (of_nat p)"
  shows "\<exists>z. Option.bind (kmap_find_orders [start..<KMAP_ORDERS] (of_nat p) s) (\<lambda>rng.
        if rng = NULL \<and> (of_nat p :: u64) < push_bit start 1 then
          if start = 0 then Some (Inl (Fault ''kmap_free_ranges[-1]'')) else map_option Inr (kmap_find_free (start - 1) (of_nat p) s)
        else Some (Inr rng)) = Some (Inr z :: addr res) \<and> found segs UNIV p s z"
proof -
  have p64: "p < 2 ^ 64" using p by simp
  note o = kmap_order_spec [OF p64, folded start_def]
  have lt: "(of_nat p :: u64) < push_bit start 1 \<longleftrightarrow> p < 2 ^ start"
  proof -
    have "(2 :: nat) ^ start \<le> 2 ^ 16" using o(1) by (intro power_increasing) auto
    then have "(2 :: nat) ^ start < 2 ^ 64" by simp
    then have "unat (push_bit start 1 :: u64) = 2 ^ start" using unat_of_nat64 [of "2 ^ start"] by (simp add: push_bit_eq_mult)
    then show ?thesis using unat_of_nat64 [OF p64] by (simp add: word_less_nat_alt)
  qed
  obtain z where z: "kmap_find_orders [start..<KMAP_ORDERS] (of_nat p) s = Some z" "found segs (set [start..<KMAP_ORDERS]) p s z"
    using kmap_find_orders_ok [OF inv p64, of "[start..<KMAP_ORDERS]"] by auto
  have long: "start - 1 \<le> kclass n" "\<not> p < 2 ^ start \<Longrightarrow> start < KMAP_ORDERS \<Longrightarrow> start \<le> kclass n"
    if "(b, n, Kfree) \<in> segs_from 0 segs" "p \<le> n" for b n
    using segs_from_begin(4) [OF kinvD(3) [OF inv] that(1)] kinvD(4) [OF inv] long_class [OF that(2)] unfolding start_def by auto
  have start16: "start < KMAP_ORDERS" if "\<not> p < 2 ^ start"
  proof (rule ccontr)
    assume "\<not> start < KMAP_ORDERS"
    then have "start = 16" using o(1) by simp
    then show False using that p(2) by simp
  qed
  consider "z \<noteq> NULL" | "z = NULL" "\<not> p < 2 ^ start" | "z = NULL" "p < 2 ^ start" by blast
  then show ?thesis
  proof cases
    case 1
    then show ?thesis using z by (intro exI [of _ z]) (simp add: found_def)
  next
    case 2
    have "n < p" if "(b, n, Kfree) \<in> segs_from 0 segs" for b n
    proof (rule ccontr)
      assume "\<not> n < p"
      then have "start \<le> kclass n" using long(2) [OF that] 2(2) start16 by simp
      then have "kclass n \<in> set [start..<KMAP_ORDERS]" using kclass_less [of n] by simp
      then show False using z(2) that \<open>\<not> n < p\<close> 2(1) unfolding found_def by blast
    qed
    then show ?thesis using z 2 lt by (intro exI [of _ z]) (simp add: found_def)
  next
    case 3
    have s0: "start \<noteq> 0" using 3(2) p(1) by (cases "start = 0") auto
    then have "start - 1 < KMAP_ORDERS" using o(1) by simp
    from kmap_find_free_ok [OF inv this p64] obtain y where
      y: "kmap_find_free (start - 1) (of_nat p) s = Some y" "found segs {start - 1} p s y" by blast
    have "found segs UNIV p s y"
    proof (cases "y = NULL")
      case True
      have "n < p" if "(b, n, Kfree) \<in> segs_from 0 segs" for b n
      proof (rule ccontr)
        assume "\<not> n < p"
        then have "start - 1 \<le> kclass n" using long(1) [OF that] by simp
        then have "kclass n = start - 1 \<or> kclass n \<in> set [start..<KMAP_ORDERS]" using kclass_less [of n] by auto
        then show False using z(2) y(2) that \<open>\<not> n < p\<close> 3(1) True unfolding found_def by blast
      qed
      then show ?thesis using True by (simp add: found_def)
    next
      case False
      then show ?thesis using y(2) unfolding found_def by blast
    qed
    then show ?thesis using z(1) y(1) 3 lt s0 by (intro exI [of _ y]) simp
  qed
qed

text \<open>The part of \<open>kmap_alloc_range\<close> after the search.\<close>

definition kmap_taken :: "u64 \<Rightarrow> addr \<Rightarrow> 'a vm_scheme \<Rightarrow> (addr \<times> 'a vm_scheme) res option" where
  "kmap_taken pages rng s =
     (if rng = NULL then Some (Inr (NULL, s))
      else
        let range_pages = kmap_pages s rng;
            t = set_tags rng (kmap_nth rng (pages - 1)) pages (s\<lparr>ll := list_init rng (list_del rng (ll s))\<rparr>)
        in Some (Inr (rng, if pages < range_pages then kmap_free_range (kmap_nth rng pages) (range_pages - pages) t else t)))"

lemma kmap_alloc_range_ok:
  assumes inv: "kinv segs L K s" and nh: "no_holes segs" and p: "1 \<le> p" "p < 65536"
  shows "kmap_alloc_range (of_nat p) s = Some (Inr (NULL, s)) \<and> (\<forall>n. (n, Kfree) \<in> set segs \<longrightarrow> n < p) \<or>
    (\<exists>xs n ys L' s'. segs = xs @ (n, Kfree) # ys \<and> p \<le> n \<and>
       kmap_alloc_range (of_nat p) s = Some (Inr (knode (kmap_ranges s) (seg_total xs), s')) \<and>
       kinv (xs @ (p, Kused) # after_taken (n - p) ys) L' K s' \<and> ranges_only s s')"
proof -
  let ?start = "kmap_order (of_nat p)"
  obtain z where z: "Option.bind (kmap_find_orders [?start..<KMAP_ORDERS] (of_nat p) s) (\<lambda>rng.
        if rng = NULL \<and> (of_nat p :: u64) < push_bit ?start 1 then
          if ?start = 0 then Some (Inl (Fault ''kmap_free_ranges[-1]'')) else map_option Inr (kmap_find_free (?start - 1) (of_nat p) s)
        else Some (Inr rng)) = Some (Inr z :: addr res)" "found segs UNIV p s z"
    using kmap_search_ok [OF inv p] by blast
  have bind: "Option.bind a (\<lambda>x. bindO (f x) g) = bindO (Option.bind a f) g"
    for a :: "addr option" and f :: "addr \<Rightarrow> addr res option" and g :: "addr \<Rightarrow> (addr \<times> 'a vm_scheme) res option"
    by (cases a) simp_all
  have run: "kmap_alloc_range (of_nat p) s = kmap_taken (of_nat p) z s"
    unfolding kmap_alloc_range_def Let_def bind z(1) bindO_simps by (simp add: kmap_taken_def set_tags_def)
  show ?thesis
  proof (cases "z = NULL")
    case True
    have "n < p" if mem: "(n, Kfree) \<in> set segs" for n
    proof -
      obtain xs ys where "segs = xs @ (n, Kfree) # ys" using split_list [OF mem] by blast
      then have "(seg_total xs, n, Kfree) \<in> segs_from 0 segs" by simp
      then show ?thesis using z(2) True unfolding found_def by blast
    qed
    then show ?thesis using run True by (simp add: kmap_taken_def)
  next
    case False
    then obtain b n where bn: "(b, n, Kfree) \<in> segs_from 0 segs" "p \<le> n" "z = knode (kmap_ranges s) b"
      using z(2) unfolding found_def by blast
    obtain xs ys where xs: "segs = xs @ (n, Kfree) # ys" "b = seg_total xs" using seg_split [OF bn(1)] by auto
    have nh': "no_holes xs" "no_holes ys" using nh by (auto simp: xs(1) no_holes_def)
    let ?R = "kmap_ranges s"
    note i = inv [unfolded xs(1)]
    note sg = kinv_seg [OF i]
    have tag: "kmap_pages s z = of_nat n" using sg(3) by (simp add: bn(3) xs(2) seg_ok_def Let_def)
    have lt: "(of_nat p :: u64) < of_nat n \<longleftrightarrow> p < n"
    proof -
      have "n < 2 ^ 64" "p < 2 ^ 64" using sg(2) p by simp_all
      then show ?thesis by (simp add: word_less_nat_alt unat_of_nat64)
    qed
    have e: "kmap_nth z (of_nat p - 1) = knode ?R (seg_total xs + p - 1)" "kmap_nth z (of_nat p) = knode ?R (seg_total xs + p)"
    proof -
      have "(of_nat p - 1 :: u64) = of_nat (p - 1)" using p by (simp add: of_nat_diff)
      then show "kmap_nth z (of_nat p - 1) = knode ?R (seg_total xs + p - 1)"
        using kmap_nth_knode(1) [of ?R b "p - 1"] p by (simp add: bn(3) xs(2))
      show "kmap_nth z (of_nat p) = knode ?R (seg_total xs + p)" using kmap_nth_knode(1) by (simp add: bn(3) xs(2))
    qed
    have sub: "(of_nat n - of_nat p :: u64) = of_nat (n - p)" using bn(2) by (simp add: of_nat_diff)
    have zx: "z = knode ?R (seg_total xs)" by (simp add: bn(3) xs(2))
    let ?t = "set_tags z (knode ?R (seg_total xs + p - 1)) (of_nat p) (s\<lparr>ll := list_init z (list_del z (ll s))\<rparr>)"
    let ?s' = "if p < n then kmap_free_range (knode ?R (seg_total xs + p)) (of_nat (n - p)) ?t else ?t"
    have "kmap_alloc_range (of_nat p) s = Some (Inr (z, ?s'))"
      unfolding run kmap_taken_def Let_def tag lt if_not_P [OF False] e sub ..
    moreover obtain L' where "kinv (xs @ (p, Kused) # after_taken (n - p) ys) L' K ?s'" "ranges_only s ?s'"
      using take_range_ok [OF i nh' p(1) bn(2)] unfolding zx by blast
    ultimately show ?thesis using xs(1) bn(2) unfolding zx by blast
  qed
qed

lemma kmap_alloc_range_large:
  assumes "65536 \<le> p" "p < 2 ^ 64"
  shows "kmap_alloc_range (of_nat p) s = Some (Inr (NULL, s))"
proof -
  have o: "kmap_order (of_nat p) = 16"
  proof (rule ccontr)
    assume "kmap_order (of_nat p) \<noteq> 16"
    then have lt: "kmap_order (of_nat p) < KMAP_ORDERS" using kmap_order_spec(1) [OF assms(2)] by simp
    then have "p \<le> 2 ^ kmap_order (of_nat p)" by (rule kmap_order_spec(2) [OF assms(2)])
    also have "\<dots> \<le> 2 ^ 15" using lt by (intro power_increasing) auto
    finally show False using assms(1) by simp
  qed
  have "\<not> (of_nat p :: u64) < push_bit 16 1" using assms unat_of_nat64 [OF assms(2)] by (simp add: word_less_nat_alt)
  then show ?thesis by (simp add: kmap_alloc_range_def o)
qed

end
