(* ===== verification/KmapOps.thy ===== *)
theory KmapOps
  imports KmapRanges PageWindow
begin

text \<open>
  The allocator of ranges refined to the set of the ranges in use: a range is taken from a run of pages that
  are in none, and a request fails only when there is no such run.
\<close>

section \<open>The free pages\<close>

fun kfree_from :: "nat \<Rightarrow> kseg list \<Rightarrow> nat set" where
  "kfree_from b [] = {}"
| "kfree_from b ((n, st) # ss) = (if st = Kfree then {b..<b + n} else {}) \<union> kfree_from (b + n) ss"

lemma kfree_from_append [simp]: "kfree_from b (xs @ ys) = kfree_from b xs \<union> kfree_from (b + seg_total xs) ys"
  by (induction b xs rule: kfree_from.induct) (auto simp: add.assoc)

lemma kfree_from_range: "kfree_from b ss \<subseteq> {b..<b + seg_total ss}"
  by (induction b ss rule: kfree_from.induct) (auto split: if_splits)

lemma kfree_give_back: "kfree_from 0 (give_back xs n ys) = kfree_from 0 (xs @ (n, Khole) # ys) \<union> {seg_total xs..<seg_total xs + n}"
proof -
  have 1: "kfree_from 0 (butlast xs) \<union> {seg_total (butlast xs)..<seg_total (butlast xs) + (fst (last xs) + n)} =
      kfree_from 0 xs \<union> {seg_total xs..<seg_total xs + n}" "seg_total (butlast xs) + (fst (last xs) + n) = seg_total xs + n"
    if free: "last_free xs"
  proof -
    have "xs \<noteq> []" using free by (simp add: last_free_def)
    then obtain zs z where xs: "xs = zs @ [z]" by (cases xs rule: rev_cases) auto
    obtain m where z: "z = (m, Kfree)" using free by (cases z) (auto simp: last_free_def xs)
    show "kfree_from 0 (butlast xs) \<union> {seg_total (butlast xs)..<seg_total (butlast xs) + (fst (last xs) + n)} =
      kfree_from 0 xs \<union> {seg_total xs..<seg_total xs + n}" by (auto simp: xs z)
    show "seg_total (butlast xs) + (fst (last xs) + n) = seg_total xs + n" by (simp add: xs z)
  qed
  have 2: "kfree_from e ys = {e..<e + fst (hd ys)} \<union> kfree_from (e + fst (hd ys)) (tl ys)" if "first_free ys" for e
    using that by (cases ys) (auto simp: first_free_def)
  let ?b = "seg_total xs"
  show ?thesis
  proof (cases "last_free xs"; cases "first_free ys")
    assume f: "last_free xs" "first_free ys"
    have "kfree_from 0 (give_back xs n ys) = kfree_from 0 (butlast xs) \<union>
        {seg_total (butlast xs)..<seg_total (butlast xs) + (fst (last xs) + n + fst (hd ys))} \<union> kfree_from (?b + n + fst (hd ys)) (tl ys)"
      using f 1(2) [OF f(1)] by (simp add: give_back_def add.assoc [symmetric] Un_assoc)
    also have "\<dots> = kfree_from 0 (butlast xs) \<union> {seg_total (butlast xs)..<seg_total (butlast xs) + (fst (last xs) + n)} \<union> kfree_from (?b + n) ys"
      using 1(2) [OF f(1)] 2 [OF f(2), of "?b + n"] by auto
    finally show ?thesis using 1(1) [OF f(1)] by auto
  next
    assume f: "last_free xs" "\<not> first_free ys"
    have "kfree_from 0 (give_back xs n ys) = kfree_from 0 (butlast xs) \<union>
        {seg_total (butlast xs)..<seg_total (butlast xs) + (fst (last xs) + n)} \<union> kfree_from (?b + n) ys"
      using f 1(2) [OF f(1)] by (simp add: give_back_def Un_assoc add.assoc [symmetric])
    then show ?thesis using 1(1) [OF f(1)] by auto
  next
    assume f: "\<not> last_free xs" "first_free ys"
    have "kfree_from 0 (give_back xs n ys) = kfree_from 0 xs \<union> {?b..<?b + (n + fst (hd ys))} \<union> kfree_from (?b + n + fst (hd ys)) (tl ys)"
      using f by (simp add: give_back_def add.assoc [symmetric] Un_assoc)
    then show ?thesis using 2 [OF f(2), of "?b + n"] by auto
  qed (auto simp: give_back_def)
qed

lemma kfree_taken:
  assumes "p \<le> n"
  shows "kfree_from 0 (xs @ (p, Kused) # after_taken (n - p) ys) =
    kfree_from 0 (xs @ (n, Kfree) # ys) - {seg_total xs..<seg_total xs + p}"
proof -
  let ?b = "seg_total xs"
  have "kfree_from 0 xs \<subseteq> {..<?b}" "kfree_from (?b + n) ys \<subseteq> {?b + n..}"
    using kfree_from_range [of 0 xs] kfree_from_range [of "?b + n" ys] by auto
  moreover have "kfree_from (?b + p) (after_taken (n - p) ys) = {?b + p..<?b + n} \<union> kfree_from (?b + n) ys"
  proof (cases "n = p")
    case False
    have "kfree_from e (give_back [] m ys) = {e..<e + m} \<union> kfree_from (e + m) ys" for e m
      by (cases ys) (auto simp: give_back_def last_free_def first_free_def Let_def add.assoc [symmetric])
    then have "kfree_from (?b + p) (give_back [] (n - p) ys) = {?b + p..<?b + p + (n - p)} \<union> kfree_from (?b + p + (n - p)) ys" .
    then show ?thesis using assms False by (simp add: after_taken_def)
  qed (simp add: after_taken_def)
  ultimately show ?thesis using assms by auto
qed

section \<open>No two free segments side by side\<close>

fun kmerged :: "kseg list \<Rightarrow> bool" where
  "kmerged [] = True"
| "kmerged (x # ys) = (kmerged ys \<and> \<not> (snd x = Kfree \<and> first_free ys))"

lemma kmerged_append: "kmerged (xs @ ys) \<longleftrightarrow> kmerged xs \<and> kmerged ys \<and> \<not> (last_free xs \<and> first_free ys)"
proof (induction xs)
  case (Cons x xs)
  then show ?case by (cases xs) (auto simp: last_free_def first_free_def)
qed (simp add: last_free_def)

lemma kmerged_not_free: "kmerged (xs @ (n, st) # ys) \<Longrightarrow> kmerged xs \<and> kmerged ys"
  by (simp add: kmerged_append)

lemma kmerged_give_back:
  assumes "kmerged xs" "kmerged ys"
  shows "kmerged (give_back xs n ys)"
proof -
  let ?xs = "if last_free xs then butlast xs else xs" and ?ys = "if first_free ys then tl ys else ys"
  have "kmerged ?xs \<and> \<not> last_free ?xs"
  proof (cases "last_free xs")
    case True
    then have "xs = butlast xs @ [last xs]" by (simp add: last_free_def)
    then have "kmerged (butlast xs @ [last xs])" using assms(1) by simp
    then show ?thesis using True unfolding kmerged_append by (auto simp: first_free_def last_free_def)
  qed (use assms in simp)
  moreover have "kmerged ?ys \<and> \<not> first_free ?ys"
  proof (cases "first_free ys")
    case True
    then have "ys = hd ys # tl ys" by (simp add: first_free_def)
    then have "kmerged (hd ys # tl ys)" using assms(2) by simp
    then show ?thesis using True unfolding kmerged.simps by (simp add: first_free_def)
  qed (use assms in simp)
  ultimately show ?thesis by (auto simp: give_back_def Let_def kmerged_append first_free_def)
qed

lemma kmerged_taken:
  assumes "kmerged (xs @ (n, Kfree) # ys)"
  shows "kmerged (xs @ (p, Kused) # after_taken m ys)"
proof -
  have "kmerged xs" "kmerged ys" using kmerged_not_free [OF assms] by auto
  moreover have "kmerged (after_taken m ys)" using kmerged_give_back [of "[]" ys m] \<open>kmerged ys\<close> by (simp add: after_taken_def)
  ultimately show ?thesis by (simp add: kmerged_append first_free_def)
qed

lemma no_holes_simps [simp]: "no_holes []" "no_holes ((n, st) # ss) \<longleftrightarrow> st \<noteq> Khole \<and> no_holes ss"
  "no_holes (xs @ ys) \<longleftrightarrow> no_holes xs \<and> no_holes ys"
  by (auto simp: no_holes_def)

lemma no_holes_give_back: "no_holes xs \<Longrightarrow> no_holes ys \<Longrightarrow> no_holes (give_back xs n ys)"
  by (cases ys; cases xs rule: rev_cases) (auto simp: give_back_def Let_def no_holes_def)

lemma no_holes_taken: "no_holes (xs @ (n, Kfree) # ys) \<Longrightarrow> no_holes (xs @ (p, Kused) # after_taken m ys)"
  using no_holes_give_back [of "[]" ys m] by (auto simp: after_taken_def)

section \<open>The ranges in use\<close>

definition kused_from :: "nat \<Rightarrow> kseg list \<Rightarrow> (nat \<times> nat) set" where
  "kused_from b ss = {(c, n). (c, n, Kused) \<in> segs_from b ss}"

lemma kused_simps [simp]: "kused_from b [] = {}"
  "kused_from b ((n, st) # ss) = (if st = Kused then {(b, n)} else {}) \<union> kused_from (b + n) ss"
  "kused_from b (xs @ ys) = kused_from b xs \<union> kused_from (b + seg_total xs) ys"
  by (auto simp: kused_from_def)

lemma kused_range: "(c, n) \<in> kused_from b ss \<Longrightarrow> b \<le> c \<and> c + n \<le> b + seg_total ss"
  using segs_from_range [of c n Kused b ss] by (simp add: kused_from_def)

definition kpages :: "(nat \<times> nat) set \<Rightarrow> nat set" where
  "kpages U = (\<Union>(b, n)\<in>U. {b..<b + n})"

definition kgaps :: "(nat \<times> nat) set \<Rightarrow> nat set" where
  "kgaps U = {..<window_pages} - kpages U"

lemma kpages_simps [simp]: "kpages {} = {}" "kpages (insert (b, n) U) = {b..<b + n} \<union> kpages U" "kpages (U \<union> V) = kpages U \<union> kpages V"
  by (auto simp: kpages_def)

lemma kpages_range: "kpages (kused_from b ss) \<subseteq> {b..<b + seg_total ss}"
proof
  fix x
  assume "x \<in> kpages (kused_from b ss)"
  then obtain c n where "(c, n) \<in> kused_from b ss" "c \<le> x" "x < c + n" by (auto simp: kpages_def)
  then show "x \<in> {b..<b + seg_total ss}" using kused_range [of c n b ss] by simp
qed

lemma free_or_used:
  "no_holes ss \<Longrightarrow> kfree_from b ss \<union> kpages (kused_from b ss) = {b..<b + seg_total ss} \<and>
     kfree_from b ss \<inter> kpages (kused_from b ss) = {}"
proof (induction b ss rule: kfree_from.induct)
  case (2 b n st ss)
  then have IH: "kfree_from (b + n) ss \<union> kpages (kused_from (b + n) ss) = {b + n..<b + n + seg_total ss}"
      "kfree_from (b + n) ss \<inter> kpages (kused_from (b + n) ss) = {}" "st \<noteq> Khole" by simp_all
  have r: "kfree_from (b + n) ss \<inter> {b..<b + n} = {}" "kpages (kused_from (b + n) ss) \<inter> {b..<b + n} = {}"
    using kfree_from_range [of "b + n" ss] kpages_range [of "b + n" ss] by fastforce+
  have u: "{b..<b + n} \<union> {b + n..<b + n + seg_total ss} = {b..<b + (n + seg_total ss)}" by auto
  show ?case
  proof (cases st)
    case Kfree
    then show ?thesis using IH(2) r u unfolding IH(1) [symmetric] by auto
  next
    case Kused
    then show ?thesis using IH(2) r u unfolding IH(1) [symmetric] by auto
  qed (use IH in simp)
qed simp

lemma kgaps_free: "no_holes ss \<Longrightarrow> seg_total ss = window_pages \<Longrightarrow> kgaps (kused_from 0 ss) = kfree_from 0 ss"
  using free_or_used [of ss 0] unfolding kgaps_def by auto

text \<open>A run of free pages is within one segment.\<close>

lemma free_run:
  "kmerged ss \<Longrightarrow> 0 < p \<Longrightarrow> {c..<c + p} \<subseteq> kfree_from b ss \<Longrightarrow> lens_ok ss \<Longrightarrow> \<exists>n. (n, Kfree) \<in> set ss \<and> p \<le> n"
proof (induction b ss rule: kfree_from.induct)
  case (2 b n st ss)
  have up: "kfree_from (b + n) ss \<subseteq> {b + n..}" using kfree_from_range [of "b + n" ss] by auto
  have c: "c \<in> {c..<c + p}" using 2(3) by simp
  show ?case
  proof (cases "b + n \<le> c \<or> st \<noteq> Kfree")
    case True
    then have "{c..<c + p} \<subseteq> kfree_from (b + n) ss" using 2(4) by (auto split: if_splits)
    then show ?thesis using 2 by auto
  next
    case False
    have "b + n \<notin> kfree_from (b + n) ss"
    proof (cases ss)
      case (Cons y ys)
      then show ?thesis using 2(2,5) False kfree_from_range [of "b + n + fst y" ys] by (cases y) (auto simp: first_free_def)
    qed simp
    then have "b + n \<notin> {b..<b + n} \<union> kfree_from (b + n) ss" by simp
    moreover have sub: "{c..<c + p} \<subseteq> {b..<b + n} \<union> kfree_from (b + n) ss"
      using 2(4) False by (auto simp del: atLeastLessThan_iff)
    ultimately have "b + n \<notin> {c..<c + p}" by blast
    moreover have "c < b + n" using False by simp
    ultimately have "c + p \<le> b + n" by simp
    moreover have "b \<le> c" using subsetD [OF sub c] up by auto
    ultimately show ?thesis using False by (intro exI [of _ n]) simp
  qed
qed simp

lemma kused_give_back: "kused_from 0 (give_back xs n ys) = kused_from 0 (xs @ (n, Khole) # ys)"
proof -
  have 1: "kused_from 0 (butlast xs) = kused_from 0 xs" "seg_total (butlast xs) + fst (last xs) = seg_total xs" if free: "last_free xs"
  proof -
    have "xs \<noteq> []" using free by (simp add: last_free_def)
    then obtain zs z where xs: "xs = zs @ [z]" by (cases xs rule: rev_cases) auto
    obtain m where z: "z = (m, Kfree)" using free by (cases z) (auto simp: last_free_def xs)
    show "kused_from 0 (butlast xs) = kused_from 0 xs" "seg_total (butlast xs) + fst (last xs) = seg_total xs" by (simp_all add: xs z)
  qed
  have 2: "kused_from (e + fst (hd ys)) (tl ys) = kused_from e ys" if "first_free ys" for e
    using that by (cases ys) (auto simp: first_free_def)
  show ?thesis
    using 1 2 by (simp add: give_back_def add.assoc [symmetric])
qed

lemma kused_taken:
  "p \<le> n \<Longrightarrow> kused_from 0 (xs @ (p, Kused) # after_taken (n - p) ys) = insert (seg_total xs, p) (kused_from 0 (xs @ (n, Kfree) # ys))"
proof -
  assume p: "p \<le> n"
  have "kused_from e (give_back [] m ys) = kused_from (e + m) ys" for e m
    by (cases ys) (auto simp: give_back_def last_free_def first_free_def add.assoc [symmetric])
  then show ?thesis using p by (auto simp: after_taken_def)
qed

section \<open>The allocator and its abstract state\<close>

text \<open>Between two calls the allocator is known by the set of ranges in use.\<close>

definition kmap_rep :: "(nat \<times> nat) set \<Rightarrow> lfamily \<Rightarrow> 'a vm_scheme \<Rightarrow> bool" where
  "kmap_rep U K s \<longleftrightarrow> (\<exists>segs L. kinv segs L K s \<and> no_holes segs \<and> kmerged segs \<and> U = kused_from 0 segs)"

lemma kmap_rep_layout: "kmap_rep U K s \<Longrightarrow> kmap_layout (kmap_ranges s) (kmap_free_ranges s)"
  unfolding kmap_rep_def using kinvD(1) by blast

lemma kmap_rep_range: "kmap_rep U K s \<Longrightarrow> (b, n) \<in> U \<Longrightarrow> b + n \<le> window_pages \<and> 1 \<le> n"
proof -
  assume "kmap_rep U K s" "(b, n) \<in> U"
  then obtain segs L where i: "kinv segs L K s" "(b, n, Kused) \<in> segs_from 0 segs" unfolding kmap_rep_def kused_from_def by blast
  then show ?thesis using segs_from_begin(3,4) [OF kinvD(3) [OF i(1)] i(2)] kinvD(4) [OF i(1)] by simp
qed

lemma kmap_rep_pages: "kmap_rep U K s \<Longrightarrow> (b, n) \<in> U \<Longrightarrow> kmap_pages s (knode (kmap_ranges s) b) = of_nat n"
  unfolding kmap_rep_def kused_from_def using kinvD(5) by (fastforce simp: seg_ok_def Let_def)

lemma kmap_rep_apart:
  assumes "kmap_rep U K s" "(b, n) \<in> U" "(c, m) \<in> U" "(b, n) \<noteq> (c, m)"
  shows "{b..<b + n} \<inter> {c..<c + m} = {}"
proof -
  obtain segs L where i: "kinv segs L K s" "(b, n, Kused) \<in> segs_from 0 segs" "(c, m, Kused) \<in> segs_from 0 segs"
    using assms(1-3) unfolding kmap_rep_def kused_from_def by blast
  show ?thesis using segs_apart [OF kinvD(3) [OF i(1)] i(2,3)] assms(4) by auto
qed

lemma kmap_rep_frame:
  "kmap_rep U K s \<Longrightarrow> kmap_rep U K (s\<lparr>ptm := g, flushed := fl\<rparr>)" "kmap_rep U K s \<Longrightarrow> kmap_rep U K (s\<lparr>ptm := g\<rparr>)"
  "kmap_rep U K s \<Longrightarrow> kmap_rep U K (s\<lparr>ints_on := i, preempt_cnt := c\<rparr>)"
  unfolding kmap_rep_def kinv_def seg_ok_def kown_def Let_def by simp_all

lemma kmap_alloc_rep:
  assumes rep: "kmap_rep U K s" and p: "1 \<le> p" "p < 65536"
  shows "kmap_alloc_range (of_nat p) s = Some (Inr (NULL, s)) \<and> (\<forall>b. \<not> {b..<b + p} \<subseteq> kgaps U) \<or>
    (\<exists>b s'. kmap_alloc_range (of_nat p) s = Some (Inr (knode (kmap_ranges s) b, s')) \<and> {b..<b + p} \<subseteq> kgaps U \<and>
       kmap_rep (insert (b, p) U) K s' \<and> ranges_only s s')"
proof -
  obtain segs L where i: "kinv segs L K s" "no_holes segs" "kmerged segs" "U = kused_from 0 segs"
    using rep unfolding kmap_rep_def by blast
  have gaps: "kgaps U = kfree_from 0 segs" unfolding i(4) by (rule kgaps_free [OF i(2) kinvD(4) [OF i(1)]])
  consider "kmap_alloc_range (of_nat p) s = Some (Inr (NULL, s))" "\<forall>n. (n, Kfree) \<in> set segs \<longrightarrow> n < p"
    | xs n ys L' s' where "segs = xs @ (n, Kfree) # ys" "p \<le> n"
      "kmap_alloc_range (of_nat p) s = Some (Inr (knode (kmap_ranges s) (seg_total xs), s'))"
      "kinv (xs @ (p, Kused) # after_taken (n - p) ys) L' K s'" "ranges_only s s'"
    using kmap_alloc_range_ok [OF i(1,2) p] by blast
  then show ?thesis
  proof cases
    case 1
    have "\<not> {b..<b + p} \<subseteq> kgaps U" for b
      unfolding gaps using free_run [OF i(3), of p b 0] kinvD(3) [OF i(1)] p(1) 1(2) by fastforce
    then show ?thesis using 1(1) by blast
  next
    case 2
    let ?segs = "xs @ (p, Kused) # after_taken (n - p) ys"
    have "kmap_rep (insert (seg_total xs, p) U) K s'"
      unfolding kmap_rep_def using 2(4) no_holes_taken [of xs n ys p "n - p"] kmerged_taken [of xs n ys p "n - p"] i(2-4) kused_taken [OF 2(2), of xs ys]
      unfolding 2(1) by metis
    moreover have "{seg_total xs..<seg_total xs + p} \<subseteq> kgaps U" unfolding gaps using 2(1,2) by auto
    ultimately show ?thesis using 2(3,5) by blast
  qed
qed

lemma kmap_free_rep:
  assumes rep: "kmap_rep U K s" and u: "(b, n) \<in> U"
  shows "kmap_rep (U - {(b, n)}) K (kmap_free_range (knode (kmap_ranges s) b) (of_nat n) s) \<and>
    ranges_only s (kmap_free_range (knode (kmap_ranges s) b) (of_nat n) s)"
proof -
  obtain segs L where i: "kinv segs L K s" "no_holes segs" "kmerged segs" "U = kused_from 0 segs"
    using rep unfolding kmap_rep_def by blast
  then have "(b, n, Kused) \<in> segs_from 0 segs" using u by (simp add: kused_from_def)
  then obtain xs ys where s: "segs = xs @ (n, Kused) # ys" "b = seg_total xs" using seg_split by fastforce
  have k: "kmerged xs" "kmerged ys" "no_holes xs" "no_holes ys" using i(2,3) by (simp_all add: s(1) kmerged_append)
  obtain L' where L': "kinv (xs @ (n, Khole) # ys) L' K s" using kinv_release [OF i(1) [unfolded s(1)]] by blast
  have n: "1 \<le> n" using kmap_rep_range [OF rep u] by simp
  have "(b, n) \<notin> kused_from 0 xs" "(b, n) \<notin> kused_from (b + n) ys"
    using kused_range [of b n 0 xs] kused_range [of b n "b + n" ys] n by (auto simp: s(2))
  then have "kused_from 0 (give_back xs n ys) = U - {(b, n)}"
    unfolding kused_give_back i(4) s(1) using s(2) by auto
  moreover have "kmerged (give_back xs n ys)" "no_holes (give_back xs n ys)"
    using kmerged_give_back no_holes_give_back k by blast+
  ultimately show ?thesis
    using kmap_free_range_ok [OF L' k(3,4)] unfolding kmap_rep_def s(2) [symmetric] by metis
qed

end
