(* ===== verification/KmapMaps.thy ===== *)
theory KmapMaps
  imports KmapOps
begin

text \<open>
  \<^verbatim>\<open>kmap\<close> and \<^verbatim>\<open>kunmap\<close> on the allocator of ranges and the page tables together: the abstract state is
  the set of ranges in use and the translation of addresses.
\<close>

section \<open>Addresses of the window\<close>

definition kmap_va :: "nat \<Rightarrow> addr" where
  "kmap_va b = KMAP_BEGIN + 4096 * of_nat b"

lemma unat_kmap_va: "b \<le> window_pages \<Longrightarrow> unat (kmap_va b) = unat KMAP_BEGIN + 4096 * b"
proof -
  assume b: "b \<le> window_pages"
  have "(4096 * of_nat b :: u64) = of_nat (4096 * b)" by simp
  moreover have "4096 * b < 2 ^ 64" using b by simp
  ultimately have "unat (4096 * of_nat b :: u64) = 4096 * b" by (simp only: unat_of_nat64)
  then show ?thesis unfolding kmap_va_def using b by (subst unat_add_no_wrap) simp_all
qed

lemma unat_offset: "unat (24 * of_nat b :: u64) = 24 * b" if "b \<le> window_pages"
proof -
  have "(24 * of_nat b :: u64) = of_nat (24 * b)" by simp
  moreover have "24 * b < 2 ^ 64" using that by simp
  ultimately show ?thesis by (simp only: unat_of_nat64)
qed

lemma kmap_addr_knode: "b < window_pages \<Longrightarrow> kmap_addr (knode (kmap_ranges s) b) s = kmap_va b"
proof -
  assume b: "b < window_pages"
  have "(24 * of_nat b :: u64) div 24 = of_nat b"
    using unat_offset [of b] b unat_of_nat64 [of b] by (simp add: word_unat_eq_iff unat_div)
  then show ?thesis by (simp add: kmap_addr_def kmap_va_def knode_def push_bit_eq_mult mult.commute)
qed

lemma addr_kmap_va: "b < window_pages \<Longrightarrow> addr_kmap (kmap_va b) s = knode (kmap_ranges s) b"
proof -
  assume b: "b < window_pages"
  have "(4096 * of_nat b :: u64) = push_bit PAGE_SHIFT (of_nat b)" by (simp add: push_bit_eq_mult mult.commute)
  moreover have "drop_bit PAGE_SHIFT (push_bit PAGE_SHIFT (of_nat b) :: u64) = of_nat b"
  proof -
    have "unat (push_bit PAGE_SHIFT (of_nat b) :: u64) = 4096 * b"
      unfolding push_bit_of_nat by (subst unat_of_nat64) (use b in \<open>simp_all add: push_bit_eq_mult\<close>)
    then have "unat (drop_bit PAGE_SHIFT (push_bit PAGE_SHIFT (of_nat b) :: u64)) = b"
      unfolding unat_drop_bit_eq by (simp add: drop_bit_eq_div)
    moreover have "unat (of_nat b :: u64) = b" using b by (intro unat_of_nat64) simp
    ultimately show ?thesis by (simp only: word_unat_eq_iff)
  qed
  ultimately show ?thesis by (simp add: addr_kmap_def kmap_va_def kmap_nth_def knode_def)
qed

section \<open>Pages found through the list of zones\<close>

text \<open>Two states that have the same zones, with the same list of them, find the same zone of a page.\<close>

definition zones_same :: "addr list \<Rightarrow> 'a pgs_scheme \<Rightarrow> 'b pgs_scheme \<Rightarrow> bool" where
  "zones_same zs s t \<longleftrightarrow> zones_head t = zones_head s \<and> zone_begin t = zone_begin s \<and> zone_end t = zone_end s \<and>
     circ (ll s) (zones_head s) zs \<and> circ (ll t) (zones_head s) zs"

lemma circ_next:
  assumes "circ h l (xs @ x # ys)"
  shows "lh_next h x = (case ys of [] \<Rightarrow> l | y # _ \<Rightarrow> y)"
proof -
  have "linked h ((l # xs) @ x # ys @ [l])" using assms by (simp add: circ_def)
  then have "linked h (x # ys @ [l])" using linked_append [of h "l # xs" x "ys @ [l]"] by blast
  then show ?thesis by (cases ys) auto
qed

lemma page_zone_from_same:
  assumes same: "zones_same zs s t" and "zs = xs @ ys"
  shows "page_zone_from page (case ys of [] \<Rightarrow> zones_head s | y # _ \<Rightarrow> y) s =
    page_zone_from page (case ys of [] \<Rightarrow> zones_head s | y # _ \<Rightarrow> y) t"
  using assms(2)
proof (induction ys arbitrary: xs)
  case Nil
  then show ?case using same by (subst (1 2) page_zone_from.simps) (simp add: zones_same_def)
next
  case (Cons y ys)
  have c: "circ (ll s) (zones_head s) (xs @ y # ys)" "circ (ll t) (zones_head s) (xs @ y # ys)"
    using same Cons.prems by (simp_all add: zones_same_def)
  have "zs = (xs @ [y]) @ ys" using Cons.prems by simp
  then show ?case
    using same Cons.IH circ_next [OF c(1)] circ_next [OF c(2)]
    by (subst (1 2) page_zone_from.simps) (simp add: zones_same_def Let_def)
qed

lemma page_addr_same: "zones_same zs s t \<Longrightarrow> page_addr page t = page_addr page s"
proof -
  assume same: "zones_same zs s t"
  then have "lh_next (ll s) (zones_head s) = (case zs of [] \<Rightarrow> zones_head s | y # _ \<Rightarrow> y)"
    "lh_next (ll t) (zones_head s) = (case zs of [] \<Rightarrow> zones_head s | y # _ \<Rightarrow> y)"
    using circ_first by (auto simp: zones_same_def)
  then show ?thesis
    using page_zone_from_same [OF same, of "[]" zs page] same by (simp add: page_addr_def page_zone_def zones_same_def)
qed

lemma kmap_zones_same:
  assumes "kmap_rep U K s" "kmap_rep V K t" "K (zones_head s) = Some zs" "ranges_only s t"
  shows "zones_same zs s t"
proof -
  have "circ (ll s) (zones_head s) zs" if r: "kmap_rep U K s" "K (zones_head s) = Some zs" for U and s :: "'a vm_scheme"
  proof -
    obtain segs L where i: "kinv segs L K s" using r(1) unfolding kmap_rep_def by blast
    have "L (zones_head s) = Some zs" using kinvD(8) [OF i] r(2) by (auto simp: restrict_map_def split: if_splits)
    then show ?thesis using kinvD(2) [OF i] unfolding heap_lists_def by blast
  qed
  from this [OF assms(1,3)] this [OF assms(2)] show ?thesis
    using assms(3,4) unfolding zones_same_def ranges_only_def by auto
qed

section \<open>The state of the window\<close>

text \<open>The page of the window an address is in.\<close>

definition kmap_index :: "addr \<Rightarrow> nat" where
  "kmap_index v = (unat v - unat KMAP_BEGIN) div 4096"

definition in_window :: "addr \<Rightarrow> bool" where
  "in_window v \<longleftrightarrow> KMAP_BEGIN \<le> v \<and> v < KMAP_END"

definition kmap_state :: "(nat \<times> nat) set \<Rightarrow> lfamily \<Rightarrow> 'a vm_scheme \<Rightarrow> bool" where
  "kmap_state U K s \<longleftrightarrow> kmap_rep U K s \<and> tables_ok (ptm s) 4 (cr3 s) \<and> cr3 s AND PTE_PHYS_MASK = cr3 s \<and>
     (\<forall>v. in_window v \<longrightarrow> fst (leaf (ptm s) 4 (cr3 s) v) = 1 \<and>
        (kmap_index v \<in> kgaps U \<longrightarrow> translate (ptm s) (cr3 s) v = None))"

lemma window_range:
  assumes "b + n \<le> window_pages" "unat (kmap_va b) \<le> unat v" "unat v < unat (kmap_va b) + 4096 * n"
  shows "in_window v" "kmap_index v \<in> {b..<b + n}"
proof -
  have u: "unat (kmap_va b) = unat KMAP_BEGIN + 4096 * b" using assms(1) by (intro unat_kmap_va) simp
  then have "unat KMAP_BEGIN \<le> unat v" "unat v < unat KMAP_BEGIN + 4096 * (b + n)"
    using assms(2,3) unfolding add_mult_distrib2 by linarith+
  moreover have "unat KMAP_BEGIN + 4096 * (b + n) \<le> unat KMAP_END" using assms(1) by simp
  ultimately show "in_window v" unfolding in_window_def word_le_nat_alt word_less_nat_alt by linarith
  have "4096 * b \<le> unat v - unat KMAP_BEGIN" "unat v - unat KMAP_BEGIN < 4096 * (b + n)"
    using assms(2,3) u unfolding add_mult_distrib2 by linarith+
  then show "kmap_index v \<in> {b..<b + n}" unfolding kmap_index_def by (auto simp: div_less_iff_less_mult less_eq_div_iff_mult_less_eq mult.commute)
qed

lemma window_index:
  assumes "in_window v" "b + n \<le> window_pages"
  shows "kmap_index v \<in> {b..<b + n} \<longleftrightarrow> unat (kmap_va b) \<le> unat v \<and> unat v < unat (kmap_va b) + 4096 * n"
proof -
  have u: "unat (kmap_va b) = unat KMAP_BEGIN + 4096 * b" using assms(2) by (intro unat_kmap_va) simp
  have v: "unat KMAP_BEGIN \<le> unat v" using assms(1) by (simp add: in_window_def word_le_nat_alt)
  have "kmap_index v \<in> {b..<b + n} \<longleftrightarrow> 4096 * b \<le> unat v - unat KMAP_BEGIN \<and> unat v - unat KMAP_BEGIN < 4096 * (b + n)"
    unfolding kmap_index_def by (auto simp: div_less_iff_less_mult less_eq_div_iff_mult_less_eq mult.commute)
  then show ?thesis unfolding u add_mult_distrib2 using v by linarith
qed

lemma window_high: "in_window v \<Longrightarrow> unat v div 2 ^ 48 = 0xffff"
proof -
  assume "in_window v"
  then have "unat KMAP_BEGIN div 2 ^ 48 \<le> unat v div 2 ^ 48" by (intro div_le_mono) (simp add: in_window_def word_le_nat_alt)
  moreover have "unat v div 2 ^ 48 < 0x10000" using unat64_less [of v] by (simp add: less_mult_imp_div_less)
  ultimately show ?thesis by simp
qed

section \<open>Mapping\<close>

lemma kgaps_range: "{b..<b + n} \<subseteq> kgaps U \<Longrightarrow> 1 \<le> n \<Longrightarrow> b + n \<le> window_pages"
proof -
  assume "{b..<b + n} \<subseteq> kgaps U" "1 \<le> n"
  moreover have "b + n - 1 \<in> {b..<b + n}" using \<open>1 \<le> n\<close> by simp
  ultimately have "b + n - 1 \<in> kgaps U" by blast
  then have "b + n - 1 < window_pages" unfolding kgaps_def by simp
  then show ?thesis by linarith
qed

lemma window_loop:
  assumes "b + n \<le> window_pages"
  shows "4096 dvd unat (kmap_va b)" "0xffff * 2 ^ 48 \<le> unat (kmap_va b)" "unat (kmap_va b) + 4096 * n < 2 ^ 64"
proof -
  have u: "unat (kmap_va b) = unat KMAP_BEGIN + 4096 * b" using assms by (intro unat_kmap_va) simp
  have "4096 * b + 4096 * n \<le> 4096 * window_pages" using assms by simp
  then show "unat (kmap_va b) + 4096 * n < 2 ^ 64" unfolding u by simp
  show "4096 dvd unat (kmap_va b)" "0xffff * 2 ^ 48 \<le> unat (kmap_va b)" unfolding u by simp_all
qed

text \<open>What else of the state may change.\<close>

definition window_only :: "'a vm_scheme \<Rightarrow> 'a vm_scheme \<Rightarrow> bool" where
  "window_only s t \<longleftrightarrow> (\<exists>h k g f. t = s\<lparr>ll := h, kmap_pages := k, ptm := g, flushed := f\<rparr>)"

text \<open>The translation after pages have been mapped from page \<open>b\<close> of the window on, or unmapped.\<close>

definition window_mapped :: "nat \<Rightarrow> u64 list \<Rightarrow> 'a vm_scheme \<Rightarrow> 'a vm_scheme \<Rightarrow> bool" where
  "window_mapped b xs s t \<longleftrightarrow> window_only s t \<and>
     (\<forall>v. unat v div 2 ^ 48 = 0xffff \<longrightarrow> translate (ptm t) (cr3 s) v =
        (if unat (kmap_va b) \<le> unat v \<and> unat v < unat (kmap_va b) + 4096 * length xs
         then Some (xs ! ((unat v - unat (kmap_va b)) div 4096) + of_nat ((unat v - unat (kmap_va b)) mod 4096))
         else translate (ptm s) (cr3 s) v))"

definition window_unmapped :: "nat \<Rightarrow> nat \<Rightarrow> 'a vm_scheme \<Rightarrow> 'a vm_scheme \<Rightarrow> bool" where
  "window_unmapped b n s t \<longleftrightarrow> window_only s t \<and>
     (\<forall>v. unat v div 2 ^ 48 = 0xffff \<longrightarrow> translate (ptm t) (cr3 s) v =
        (if unat (kmap_va b) \<le> unat v \<and> unat v < unat (kmap_va b) + 4096 * n then None else translate (ptm s) (cr3 s) v))"

lemma raw_kmap_ok:
  assumes st: "kmap_state U K s" and zl: "K (zones_head s) = Some zs"
    and pg: "list_all2 (\<lambda>page x. page_addr page s = Some (Inr x) \<and> 4096 dvd unat x \<and> unat x < 2 ^ 52) pages xs"
    and n: "2 \<le> length xs" "length xs < 65536"
  shows "raw_kmap pages s = Some (Inr (NULL, s)) \<and> (\<forall>b. \<not> {b..<b + length xs} \<subseteq> kgaps U) \<or>
    (\<exists>b s'. raw_kmap pages s = Some (Inr (kmap_va b, s')) \<and> {b..<b + length xs} \<subseteq> kgaps U \<and>
       kmap_state (insert (b, length xs) U) K s' \<and> window_mapped b xs s s' \<and> zones_same zs s s')"
proof -
  let ?n = "length xs" and ?p = "cr3 s"
  have rep: "kmap_rep U K s" and tab: "tables_ok (ptm s) 4 ?p" and pm: "?p AND PTE_PHYS_MASK = ?p"
    and win: "\<And>v. in_window v \<Longrightarrow> fst (leaf (ptm s) 4 ?p v) = 1 \<and> (kmap_index v \<in> kgaps U \<longrightarrow> translate (ptm s) ?p v = None)"
    using st unfolding kmap_state_def by blast+
  have len: "length pages = ?n" by (rule list_all2_lengthD [OF pg])
  have "1 \<le> ?n" using n by simp
  have run: "raw_kmap pages s = bindO (kmap_alloc_range (of_nat ?n) s) (\<lambda>(rng, s).
        if rng = NULL then Some (Inr (NULL, s))
        else bindO (kmap_loop (va (cr3 s)) (kmap_addr rng s) pages s) (\<lambda>s. Some (Inr (kmap_addr rng s, s))))"
  proof -
    have "?n \<noteq> 0" "?n \<noteq> 1" using n(1) by linarith+
    then show ?thesis unfolding raw_kmap_def len read_cr3_def Let_def by (simp only: if_False)
  qed
  consider "kmap_alloc_range (of_nat ?n) s = Some (Inr (NULL, s))" "\<forall>b. \<not> {b..<b + ?n} \<subseteq> kgaps U"
    | b s1 where "kmap_alloc_range (of_nat ?n) s = Some (Inr (knode (kmap_ranges s) b, s1))" "{b..<b + ?n} \<subseteq> kgaps U"
      "kmap_rep (insert (b, ?n) U) K s1" "ranges_only s s1"
    using kmap_alloc_rep [OF rep \<open>1 \<le> ?n\<close> n(2)] by blast
  then show ?thesis
  proof cases
    case 1
    then show ?thesis unfolding run by simp
  next
    case 2
    have bn: "b + ?n \<le> window_pages" by (rule kgaps_range [OF 2(2) \<open>1 \<le> ?n\<close>])
    have b: "b < window_pages" using bn \<open>1 \<le> ?n\<close> by linarith
    obtain h k where s1: "s1 = s\<lparr>ll := h, kmap_pages := k\<rparr>" using 2(4) unfolding ranges_only_def by blast
    have same: "kmap_ranges s1 = kmap_ranges s" "cr3 s1 = ?p" "ptm s1 = ptm s" by (simp_all add: s1)
    have z: "zones_same zs s s1" by (rule kmap_zones_same [OF rep 2(3) zl 2(4)])
    have nn: "knode (kmap_ranges s) b \<noteq> NULL" using knode_not_null [OF kmap_rep_layout [OF rep], of b] b by simp
    note wl = window_loop [OF bn]
    have pg1: "list_all2 (\<lambda>page x. page_addr page s1 = Some (Inr x) \<and> 4096 dvd unat x \<and> unat x < 2 ^ 52) pages xs"
      using pg unfolding page_addr_same [OF z] .
    have "fst (leaf (ptm s1) 4 ?p v) = 1 \<and> not_present (leaf (ptm s1) 4 ?p v)"
      if v: "unat (kmap_va b) \<le> unat v" "unat v < unat (kmap_va b) + 4096 * ?n" for v
      using win [OF window_range(1) [OF bn v]] window_range(2) [OF bn v] 2(2) unfolding translate_None same(3) by blast
    with kmap_loop_ok [OF pg1 _ wl, of ?p] tab obtain g where
      g: "kmap_loop (va ?p) (kmap_va b) pages s1 = Some (Inr (s1\<lparr>ptm := g, flushed := flushed s1 @ map (\<lambda>i. kmap_va b + 4096 * of_nat i) [0..<?n]\<rparr>))"
        "tables_ok g 4 ?p"
      and tr: "\<And>v. unat v div 2 ^ 48 = 0xffff \<Longrightarrow> translate g ?p v =
         (if unat (kmap_va b) \<le> unat v \<and> unat v < unat (kmap_va b) + 4096 * ?n
          then Some (xs ! ((unat v - unat (kmap_va b)) div 4096) + of_nat ((unat v - unat (kmap_va b)) mod 4096)) else translate (ptm s) ?p v)"
      and lv: "\<And>v. unat v div 2 ^ 48 = 0xffff \<Longrightarrow> fst (leaf (ptm s) 4 ?p v) = 1 \<Longrightarrow> fst (leaf g 4 ?p v) = 1"
      unfolding same(3) by metis
    let ?s2 = "s1\<lparr>ptm := g, flushed := flushed s1 @ map (\<lambda>i. kmap_va b + 4096 * of_nat i) [0..<?n]\<rparr>"
    have "raw_kmap pages s = Some (Inr (kmap_va b, ?s2))"
      using nn g(1) kmap_addr_knode [OF b, of s1] kmap_addr_knode [OF b, of ?s2] unfolding run 2(1) by (simp add: same)
    moreover have "window_mapped b xs s ?s2"
    proof -
    have "window_only s ?s2" unfolding window_only_def s1
      by (intro exI [of _ h] exI [of _ k] exI [of _ g] exI [of _ "flushed s1 @ map (\<lambda>i. kmap_va b + 4096 * of_nat i) [0..<?n]"]) (simp add: s1)
    then show ?thesis using tr by (simp add: window_mapped_def same)
    qed
    moreover have "kmap_state (insert (b, ?n) U) K ?s2"
      unfolding kmap_state_def
    proof (intro conjI allI impI)
      show "kmap_rep (insert (b, ?n) U) K ?s2" by (rule kmap_rep_frame(1) [OF 2(3)])
      show "tables_ok (ptm ?s2) 4 (cr3 ?s2)" "cr3 ?s2 AND PTE_PHYS_MASK = cr3 ?s2" using g(2) pm by (simp_all add: same)
      fix v
      assume v: "in_window v"
      show "fst (leaf (ptm ?s2) 4 (cr3 ?s2) v) = 1" using lv [OF window_high [OF v]] win [OF v] by (simp add: same)
      assume i: "kmap_index v \<in> kgaps (insert (b, ?n) U)"
      then have "kmap_index v \<notin> {b..<b + ?n}" "kmap_index v \<in> kgaps U" unfolding kgaps_def by auto
      then have "\<not> (unat (kmap_va b) \<le> unat v \<and> unat v < unat (kmap_va b) + 4096 * ?n)" "translate (ptm s) ?p v = None"
        using win [OF v] window_index [OF v bn] by blast+
      then show "translate (ptm ?s2) (cr3 ?s2) v = None" using tr [OF window_high [OF v]] by (simp add: same)
    qed
    moreover have "zones_same zs s ?s2" using z by (simp add: zones_same_def)
    ultimately show ?thesis using 2(2) by blast
  qed
qed

lemma raw_kunmap_ok:
  assumes st: "kmap_state U K s" and u: "(b, n) \<in> U"
  obtains s' where "raw_kunmap (kmap_va b) s = Some (Inr s')" "window_unmapped b n s s'" "kmap_state (U - {(b, n)}) K s'"
proof -
  let ?p = "cr3 s"
  have rep: "kmap_rep U K s" and tab: "tables_ok (ptm s) 4 ?p" and pm: "?p AND PTE_PHYS_MASK = ?p"
    and win: "\<And>v. in_window v \<Longrightarrow> fst (leaf (ptm s) 4 ?p v) = 1 \<and> (kmap_index v \<in> kgaps U \<longrightarrow> translate (ptm s) ?p v = None)"
    using st unfolding kmap_state_def by blast+
  have bn: "b + n \<le> window_pages" and n: "1 \<le> n" using kmap_rep_range [OF rep u] by simp_all
  have b: "b < window_pages" using bn n by linarith
  note wl = window_loop [OF bn]
  have "fst (leaf (ptm s) 4 ?p v) = 1" if v: "unat (kmap_va b) \<le> unat v" "unat v < unat (kmap_va b) + 4096 * n" for v
    using win [OF window_range(1) [OF bn v]] by blast
  from kunmap_loop_ok [OF tab pm wl this] obtain g where
    g: "kunmap_loop ?p (kmap_va b) (kmap_va b + of_nat n * PAGE_SIZE) s =
      Some (Inr (s\<lparr>ptm := g, flushed := flushed s @ map (\<lambda>i. kmap_va b + 4096 * of_nat i) [0..<n]\<rparr>))" "tables_ok g 4 ?p"
    and lv: "\<And>v. unat v div 2 ^ 48 = 0xffff \<Longrightarrow>
       leaf g 4 ?p v = (if unat (kmap_va b) \<le> unat v \<and> unat v < unat (kmap_va b) + 4096 * n then (1, 0) else leaf (ptm s) 4 ?p v)"
    by blast
  let ?s1 = "s\<lparr>ptm := g, flushed := flushed s @ map (\<lambda>i. kmap_va b + 4096 * of_nat i) [0..<n]\<rparr>"
  let ?s2 = "kmap_free_range (knode (kmap_ranges s) b) (of_nat n) ?s1"
  have rep1: "kmap_rep U K ?s1" by (rule kmap_rep_frame(1) [OF rep])
  have f: "kmap_rep (U - {(b, n)}) K ?s2" "ranges_only ?s1 ?s2" using kmap_free_rep [OF rep1 u] by simp_all
  obtain h k where s2: "?s2 = ?s1\<lparr>ll := h, kmap_pages := k\<rparr>" using f(2) unfolding ranges_only_def by blast
  have same: "ptm ?s2 = g" "cr3 ?s2 = ?p" unfolding s2 by simp_all
  have w: "in_window (kmap_va b)" using window_range(1) [OF bn, of "kmap_va b"] n by simp
  have run: "raw_kunmap (kmap_va b) s = Some (Inr ?s2)"
  proof -
    have "\<not> (kmap_va b < KMAP_BEGIN \<or> KMAP_END \<le> kmap_va b)" using w unfolding in_window_def by (simp add: not_less not_le)
    moreover have "kmap_pages ?s1 (knode (kmap_ranges s) b) = of_nat n" using kmap_rep_pages [OF rep u] by simp
    ultimately show ?thesis
      unfolding raw_kunmap_def Let_def read_cr3_def addr_kmap_va [OF b] kmap_rep_pages [OF rep u] g(1) bindO_simps by (simp only: if_False)
  qed
  have tr: "translate g ?p v =
      (if unat (kmap_va b) \<le> unat v \<and> unat v < unat (kmap_va b) + 4096 * n then None else translate (ptm s) ?p v)"
    if "unat v div 2 ^ 48 = 0xffff" for v
    using lv [OF that] by (simp add: translate_def not_present_def split: if_splits)
  have "window_only s ?s2" unfolding window_only_def s2
    by (intro exI [of _ h] exI [of _ k] exI [of _ g] exI [of _ "flushed s @ map (\<lambda>i. kmap_va b + 4096 * of_nat i) [0..<n]"]) simp
  then have "window_unmapped b n s ?s2" using tr by (simp add: window_unmapped_def same)
  moreover have "kmap_state (U - {(b, n)}) K ?s2"
    unfolding kmap_state_def
  proof (intro conjI allI impI)
    show "kmap_rep (U - {(b, n)}) K ?s2" by (rule f(1))
    show "tables_ok (ptm ?s2) 4 (cr3 ?s2)" "cr3 ?s2 AND PTE_PHYS_MASK = cr3 ?s2" using g(2) pm by (simp_all add: same)
    fix v
    assume v: "in_window v"
    show "fst (leaf (ptm ?s2) 4 (cr3 ?s2) v) = 1" using lv [OF window_high [OF v]] win [OF v] by (simp add: same)
    assume i: "kmap_index v \<in> kgaps (U - {(b, n)})"
    have "kgaps (U - {(b, n)}) \<subseteq> kgaps U \<union> {b..<b + n}" unfolding kgaps_def kpages_def by auto
    then have "kmap_index v \<in> {b..<b + n} \<or> kmap_index v \<in> kgaps U" using i by blast
    then have "(unat (kmap_va b) \<le> unat v \<and> unat v < unat (kmap_va b) + 4096 * n) \<or> translate (ptm s) ?p v = None"
      using win [OF v, THEN conjunct2] window_index [OF v bn, THEN iffD1] by satx
    then have "translate g ?p v = None" unfolding tr [OF window_high [OF v]] by presburger
    then show "translate (ptm ?s2) (cr3 ?s2) v = None" unfolding same .
  qed
  ultimately show thesis by (rule that [OF run])
qed

section \<open>With the lock\<close>

lemma kmap_state_frame: "kmap_state U K (s\<lparr>ints_on := i, preempt_cnt := c\<rparr>) \<longleftrightarrow> kmap_state U K s"
  unfolding kmap_state_def kmap_rep_def kinv_def seg_ok_def kown_def Let_def by simp

lemma page_addr_lock: "page_addr page (s\<lparr>ints_on := i, preempt_cnt := c\<rparr>) = page_addr page s"
  by (cases "page_addr page s"; cases "page_addr page (s\<lparr>ints_on := i, preempt_cnt := c\<rparr>)")
    (auto dest: page_addr_frame [where t = "s\<lparr>ints_on := i, preempt_cnt := c\<rparr>"]
      page_addr_frame [where s = "s\<lparr>ints_on := i, preempt_cnt := c\<rparr>" and t = s] simp: same_zones_def)

lemma unlock_only:
  assumes "window_only (s\<lparr>ints_on := False, preempt_cnt := preempt_cnt s + 1\<rparr>) t"
  shows "window_only s (spin_unlock_irqrestore (ints_on s) t)"
    "spin_unlock_irqrestore (ints_on s) t = t\<lparr>ints_on := ints_on s, preempt_cnt := preempt_cnt s\<rparr>"
proof -
  obtain h k g f where t: "t = s\<lparr>ints_on := False, preempt_cnt := preempt_cnt s + 1, ll := h, kmap_pages := k, ptm := g, flushed := f\<rparr>"
    using assms unfolding window_only_def by auto
  show e: "spin_unlock_irqrestore (ints_on s) t = t\<lparr>ints_on := ints_on s, preempt_cnt := preempt_cnt s\<rparr>"
    by (simp add: t spin_defs Let_def)
  show "window_only s (spin_unlock_irqrestore (ints_on s) t)"
    unfolding e window_only_def by (intro exI [of _ h] exI [of _ k] exI [of _ g] exI [of _ f]) (simp add: t)
qed

lemma kmap_ok:
  assumes st: "kmap_state U K s" and zl: "K (zones_head s) = Some zs"
    and pg: "list_all2 (\<lambda>page x. page_addr page s = Some (Inr x) \<and> 4096 dvd unat x \<and> unat x < 2 ^ 52) pages xs"
    and n: "2 \<le> length xs" "length xs < 65536"
  shows "kmap pages s = Some (Inr (NULL, s)) \<and> (\<forall>b. \<not> {b..<b + length xs} \<subseteq> kgaps U) \<or>
    (\<exists>b s'. kmap pages s = Some (Inr (kmap_va b, s')) \<and> {b..<b + length xs} \<subseteq> kgaps U \<and>
       kmap_state (insert (b, length xs) U) K s' \<and> window_mapped b xs s s' \<and> zones_same zs s s')"
proof -
  let ?t = "s\<lparr>ints_on := False, preempt_cnt := preempt_cnt s + 1\<rparr>"
  have lock: "spin_lock_irqsave s = (ints_on s, ?t)" by (simp add: spin_lock_irqsave_state)
  have st': "kmap_state U K ?t" "K (zones_head ?t) = Some zs" using st zl by (simp_all add: kmap_state_frame)
  have pg': "list_all2 (\<lambda>page x. page_addr page ?t = Some (Inr x) \<and> 4096 dvd unat x \<and> unat x < 2 ^ 52) pages xs"
    using pg unfolding page_addr_lock .
  have run: "kmap pages s = bindO (raw_kmap pages ?t) (\<lambda>(ptr, s'). Some (Inr (ptr, spin_unlock_irqrestore (ints_on s) s')))"
    unfolding kmap_def lock by simp
  consider "raw_kmap pages ?t = Some (Inr (NULL, ?t))" "\<forall>b. \<not> {b..<b + length xs} \<subseteq> kgaps U"
    | b t where "raw_kmap pages ?t = Some (Inr (kmap_va b, t))" "{b..<b + length xs} \<subseteq> kgaps U"
      "kmap_state (insert (b, length xs) U) K t" "window_mapped b xs ?t t" "zones_same zs ?t t"
    using raw_kmap_ok [OF st' pg' n] by blast
  then show ?thesis
  proof cases
    case 1
    have "spin_unlock_irqrestore (ints_on s) ?t = s" by (simp add: spin_defs Let_def)
    then show ?thesis using 1 unfolding run by simp
  next
    case 2
    note u = unlock_only [of s t]
    have w: "window_only ?t t" using 2(4) by (simp add: window_mapped_def)
    let ?s = "spin_unlock_irqrestore (ints_on s) t"
    have "kmap pages s = Some (Inr (kmap_va b, ?s))" unfolding run 2(1) by simp
    moreover have "kmap_state (insert (b, length xs) U) K ?s" unfolding u(2) [OF w] kmap_state_frame by (rule 2(3))
    moreover have "window_mapped b xs s ?s"
      using 2(4) u(1) [OF w] unfolding window_mapped_def u(2) [OF w] by simp
    moreover have "zones_same zs s ?s" using 2(5) unfolding u(2) [OF w] by (simp add: zones_same_def)
    ultimately show ?thesis using 2(2) by blast
  qed
qed

lemma kunmap_ok:
  assumes st: "kmap_state U K s" and u: "(b, n) \<in> U"
  obtains s' where "kunmap (kmap_va b) s = Some (Inr s')" "window_unmapped b n s s'" "kmap_state (U - {(b, n)}) K s'"
proof -
  let ?t = "s\<lparr>ints_on := False, preempt_cnt := preempt_cnt s + 1\<rparr>"
  have lock: "spin_lock_irqsave s = (ints_on s, ?t)" by (simp add: spin_lock_irqsave_state)
  have st': "kmap_state U K ?t" using st by (simp add: kmap_state_frame)
  obtain t where t: "raw_kunmap (kmap_va b) ?t = Some (Inr t)" "window_unmapped b n ?t t" "kmap_state (U - {(b, n)}) K t"
    using raw_kunmap_ok [OF st' u] .
  have w: "window_only ?t t" using t(2) by (simp add: window_unmapped_def)
  note r = unlock_only [OF w]
  let ?s = "spin_unlock_irqrestore (ints_on s) t"
  show thesis
  proof (rule that [of ?s])
    show "kunmap (kmap_va b) s = Some (Inr ?s)" unfolding kunmap_def lock by (simp add: t(1))
    show "window_unmapped b n s ?s" using t(2) r(1) unfolding window_unmapped_def r(2) by simp
    show "kmap_state (U - {(b, n)}) K ?s" unfolding r(2) kmap_state_frame by (rule t(3))
  qed
qed

section \<open>The end of \<open>kmap_setup\<close>\<close>

definition kmap_init :: "'a vm_scheme \<Rightarrow> 'a vm_scheme" where
  "kmap_init s =
     (let s = fold (\<lambda>i s. s\<lparr>ll := list_init (kmap_head i s) (ll s)\<rparr>) [0..<KMAP_ORDERS] s
      in kmap_free_range (kmap_ranges s) KMAP_PAGES s)"

lemma kmap_heads_init:
  assumes "heap_lists (ll s) L" "kmap_layout (kmap_ranges s) (kmap_free_ranges s)" "members L \<inter> kown s = {}"
  shows "n \<le> KMAP_ORDERS \<Longrightarrow> \<exists>h. fold (\<lambda>i s. s\<lparr>ll := list_init (kmap_head i s) (ll s)\<rparr>) [0..<n] s = s\<lparr>ll := h\<rparr> \<and>
    heap_lists h (\<lambda>a. if a \<in> khead (kmap_free_ranges s) ` {..<n} then Some [] else L a)"
proof (induction n)
  case 0
  then show ?case using assms(1) by (intro exI [of _ "ll s"]) simp
next
  case (Suc n)
  let ?H = "kmap_free_ranges s"
  let ?L = "\<lambda>n a. if a \<in> khead ?H ` {..<n} then Some [] else L a"
  obtain h where h: "fold (\<lambda>i s. s\<lparr>ll := list_init (kmap_head i s) (ll s)\<rparr>) [0..<n] s = s\<lparr>ll := h\<rparr>" "heap_lists h (?L n)"
    using Suc by auto
  have n: "n < KMAP_ORDERS" using Suc.prems by simp
  have nn: "khead ?H n \<noteq> NULL"
    using unat_khead [OF assms(2) n] assms(2) by (auto simp: kmap_layout_def unat_eq_zero)
  have inj: "khead ?H n \<notin> khead ?H ` {..<n}"
  proof
    assume "khead ?H n \<in> khead ?H ` {..<n}"
    then obtain m where "m < n" "khead ?H n = khead ?H m" by auto
    then show False using khead_inj [OF assms(2) n, of m] n by simp
  qed
  have "khead ?H n \<in> kown s" by (rule own_head [OF n])
  then have "khead ?H n \<notin> members L" using assms(3) by blast
  then have "khead ?H n \<notin> members (?L n)" using inj by (auto simp: members_def split: if_splits)
  from lists_list_init [OF h(2) nn this]
  have "heap_lists (list_init (khead ?H n) h) ((?L n)(khead ?H n \<mapsto> []))" .
  moreover have "(?L n)(khead ?H n \<mapsto> []) = ?L (Suc n)" by (auto simp: lessThan_Suc)
  ultimately show ?case using h(1) by (intro exI [of _ "list_init (khead ?H n) h"]) (simp add: kmap_head_khead)
qed

lemma kmap_init_ok:
  assumes "heap_lists (ll s) L" "kmap_layout (kmap_ranges s) (kmap_free_ranges s)" "members L \<inter> kown s = {}"
  shows "kmap_rep {} L (kmap_init s) \<and> ranges_only s (kmap_init s)"
proof -
  let ?R = "kmap_ranges s" and ?H = "kmap_free_ranges s" and ?N = "window_pages :: nat"
  let ?L = "\<lambda>a. if a \<in> khead ?H ` {..<KMAP_ORDERS} then Some [] else L a"
  obtain h where h: "fold (\<lambda>i s. s\<lparr>ll := list_init (kmap_head i s) (ll s)\<rparr>) [0..<KMAP_ORDERS] s = s\<lparr>ll := h\<rparr>" "heap_lists h ?L"
    using kmap_heads_init [OF assms, of KMAP_ORDERS] by blast
  let ?s = "s\<lparr>ll := h\<rparr>"
  have own: "kown ?s = kown s" by (simp add: kown_def)
  have node: "knode ?R i \<notin> members ?L" if "i < ?N" for i
  proof -
    have "knode ?R i \<notin> members L" using own_node [OF that, of s] assms(3) by blast
    moreover have "knode ?R i \<notin> khead ?H ` {..<KMAP_ORDERS}" using knode_khead [OF assms(2) that] by blast
    ultimately show ?thesis by (auto simp: members_def split: if_splits)
  qed
  have K: "L = ?L |` (- kown s)"
  proof
    fix a
    have "L a = None" if "a \<in> kown s" using assms(3) that by (cases "L a") (auto simp: members_def)
    moreover have "a \<in> kown s" if "a \<in> khead ?H ` {..<KMAP_ORDERS}" using that by (auto simp: kown_def)
    ultimately show "L a = (?L |` (- kown s)) a" by (auto simp: restrict_map_def)
  qed
  have "kinv ([] @ (?N, Khole) # []) ?L L ?s"
  proof (rule kinvI)
    show "kmap_layout (kmap_ranges ?s) (kmap_free_ranges ?s)" "heap_lists (ll ?s) ?L" "L = ?L |` (- kown ?s)"
      using assms(2) h(2) K by (simp_all add: own)
    show "seg_ok ?L ?s b n st" if "(b, n, st) \<in> segs_from 0 ([] @ (?N, Khole) # [])" for b n st
      using that node [of 0] by (simp add: seg_ok_def)
    show "knode (kmap_ranges ?s) i \<notin> members ?L" if "i < ?N" for i using node [OF that] by simp
  qed auto
  from kmap_free_range_ok [OF this] obtain L' where
    L': "kinv (give_back [] ?N []) L' L (kmap_free_range (knode ?R 0) (of_nat ?N) ?s)"
      "ranges_only ?s (kmap_free_range (knode ?R 0) (of_nat ?N) ?s)"
    by auto
  have e: "kmap_init s = kmap_free_range (knode ?R 0) (of_nat ?N) ?s"
    unfolding kmap_init_def h(1) by (simp add: knode_def)
  have g: "give_back [] ?N [] = [(?N, Kfree)]" by (simp add: give_back_def last_free_def first_free_def)
  have "kmap_rep {} L (kmap_init s)"
    unfolding kmap_rep_def e using L'(1) by (intro exI [of _ "[(?N, Kfree)]"] exI [of _ L']) (simp add: g first_free_def)
  moreover have "ranges_only s (kmap_init s)" using ranges_only_trans [OF ranges_only_ll(1) L'(2)] unfolding e .
  ultimately show ?thesis ..
qed

end
