(* ===== verification/KmapView.thy ===== *)
theory KmapView
  imports KmapMaps
begin

text \<open>
  The window as its users see it: a finite map from the first page of a range to the addresses of the
  pages mapped there. \<^verbatim>\<open>kmap\<close> adds an entry and \<^verbatim>\<open>kunmap\<close> removes one.
\<close>

type_synonym kview = "nat \<rightharpoonup> u64 list"

definition ranges_of :: "kview \<Rightarrow> (nat \<times> nat) set" where
  "ranges_of M = {(b, n). \<exists>xs. M b = Some xs \<and> n = length xs}"

text \<open>The address of byte \<open>j\<close> of page \<open>i\<close> of a range.\<close>

definition page_va :: "nat \<Rightarrow> nat \<Rightarrow> nat \<Rightarrow> addr" where
  "page_va b i j = kmap_va b + of_nat (4096 * i + j)"

definition kwindow :: "kview \<Rightarrow> lfamily \<Rightarrow> 'a vm_scheme \<Rightarrow> bool" where
  "kwindow M K s \<longleftrightarrow> kmap_state (ranges_of M) K s \<and>
     (\<forall>b xs i j. M b = Some xs \<longrightarrow> i < length xs \<longrightarrow> j < 4096 \<longrightarrow>
        translate (ptm s) (cr3 s) (page_va b i j) = Some (xs ! i + of_nat j))"

lemma unat_page_va:
  assumes "b + n \<le> window_pages" "i < n" "j < 4096"
  shows "unat (page_va b i j) = unat (kmap_va b) + (4096 * i + j)"
proof -
  have lt: "4096 * i + j < 4096 * n" using assms(2,3) by linarith
  have w: "unat (kmap_va b) + 4096 * n < 2 ^ 64" by (rule window_loop(3) [OF assms(1)])
  have "4096 * i + j < 2 ^ 64" using lt w by linarith
  then have "unat (of_nat (4096 * i + j) :: u64) = 4096 * i + j" by (rule unat_of_nat64)
  then show ?thesis unfolding page_va_def using lt w by (subst unat_add_no_wrap) simp_all
qed

lemma page_va_index:
  assumes "b + n \<le> window_pages" "i < n" "j < 4096"
  shows "in_window (page_va b i j)" "kmap_index (page_va b i j) = b + i" "unat (page_va b i j) div 2 ^ 48 = 0xffff"
proof -
  have u: "unat (page_va b i j) = unat (kmap_va b) + (4096 * i + j)" by (rule unat_page_va [OF assms])
  show w: "in_window (page_va b i j)" using assms(2,3) by (intro window_range(1) [OF assms(1)]) (simp_all add: u)
  show "unat (page_va b i j) div 2 ^ 48 = 0xffff" by (rule window_high [OF w])
  have "b \<le> window_pages" using assms(1) by simp
  then have v: "unat (page_va b i j) - unat KMAP_BEGIN = (b + i) * 4096 + j"
    unfolding u unat_kmap_va [OF \<open>b \<le> window_pages\<close>] by (simp add: algebra_simps)
  show "kmap_index (page_va b i j) = b + i" unfolding kmap_index_def v using assms(3) by simp
qed

lemma ranges_of_upd: "M b = None \<Longrightarrow> ranges_of (M(b \<mapsto> xs)) = insert (b, length xs) (ranges_of M)"
  "M b = Some xs \<Longrightarrow> ranges_of (M(b := None)) = ranges_of M - {(b, length xs)}"
  by (auto simp: ranges_of_def split: if_splits)

lemma kwindow_range:
  assumes "kwindow M K s" "M b = Some xs"
  shows "b + length xs \<le> window_pages" "1 \<le> length xs" "(b, length xs) \<in> ranges_of M"
proof -
  show r: "(b, length xs) \<in> ranges_of M" using assms(2) by (auto simp: ranges_of_def)
  show "b + length xs \<le> window_pages" "1 \<le> length xs"
    using kmap_rep_range [OF _ r] assms(1) unfolding kwindow_def kmap_state_def by blast+
qed

text \<open>A page outside all ranges is not mapped.\<close>

lemma kwindow_gap: "kwindow M K s \<Longrightarrow> in_window v \<Longrightarrow> kmap_index v \<in> kgaps (ranges_of M) \<Longrightarrow> translate (ptm s) (cr3 s) v = None"
  unfolding kwindow_def kmap_state_def by blast

lemma kmap_view_ok:
  assumes w: "kwindow M K s" and zl: "K (zones_head s) = Some zs"
    and pg: "list_all2 (\<lambda>page x. page_addr page s = Some (Inr x) \<and> 4096 dvd unat x \<and> unat x < 2 ^ 52) pages xs"
    and n: "2 \<le> length xs" "length xs < 65536"
  shows "kmap pages s = Some (Inr (NULL, s)) \<and> (\<forall>b. \<not> {b..<b + length xs} \<subseteq> kgaps (ranges_of M)) \<or>
    (\<exists>b s'. kmap pages s = Some (Inr (kmap_va b, s')) \<and> {b..<b + length xs} \<subseteq> kgaps (ranges_of M) \<and>
       kwindow (M(b \<mapsto> xs)) K s' \<and> M b = None \<and> window_mapped b xs s s' \<and> zones_same zs s s')"
proof -
  have st: "kmap_state (ranges_of M) K s" using w by (simp add: kwindow_def)
  consider "kmap pages s = Some (Inr (NULL, s))" "\<forall>b. \<not> {b..<b + length xs} \<subseteq> kgaps (ranges_of M)"
    | b s' where "kmap pages s = Some (Inr (kmap_va b, s'))" "{b..<b + length xs} \<subseteq> kgaps (ranges_of M)"
      "kmap_state (insert (b, length xs) (ranges_of M)) K s'" "window_mapped b xs s s'" "zones_same zs s s'"
    using kmap_ok [OF st zl pg n] by blast
  then show ?thesis
  proof cases
    case 2
    have bn: "b + length xs \<le> window_pages" using kgaps_range [OF 2(2)] n(1) by simp
    have free: "c + i \<notin> {b..<b + length xs}" if "M c = Some ys" "i < length ys" for c ys i
    proof -
      have "c + i \<in> {c..<c + length ys}" using that(2) by simp
      then have "c + i \<in> kpages (ranges_of M)" using kwindow_range(3) [OF w that(1)] unfolding kpages_def by blast
      then show ?thesis using 2(2) unfolding kgaps_def by blast
    qed
    have "M b = None"
    proof (cases "M b")
      case (Some ys)
      have "0 < length ys" using kwindow_range(2) [OF w Some] by linarith
      then have "b + 0 \<notin> {b..<b + length xs}" by (rule free [OF Some])
      moreover have "b + 0 \<in> {b..<b + length xs}" using n(1) by (cases xs) simp_all
      ultimately show ?thesis by blast
    qed simp
    note tr = 2(4) [unfolded window_mapped_def, THEN conjunct2, rule_format]
    have c3: "cr3 s' = cr3 s" using 2(4) unfolding window_mapped_def window_only_def by auto
    have "translate (ptm s') (cr3 s') (page_va c i j) = Some (ys ! i + of_nat j)"
      if e: "(M(b \<mapsto> xs)) c = Some ys" "i < length ys" "j < 4096" for c ys i j
    proof (cases "c = b")
      case True
      then have ys: "ys = xs" using e(1) by simp
      note pv = page_va_index [OF bn e(2,3) [unfolded ys]] and u = unat_page_va [OF bn e(2,3) [unfolded ys]]
      have "unat (page_va b i j) < unat (kmap_va b) + 4096 * length xs" unfolding u using e(2,3) unfolding ys by linarith
      moreover have "unat (page_va b i j) - unat (kmap_va b) = i * 4096 + j" unfolding u by simp
      ultimately show ?thesis using tr [OF pv(3)] u e(3) unfolding c3 True ys by simp
    next
      case False
      then have M: "M c = Some ys" using e(1) by simp
      note cn = kwindow_range(1) [OF w M]
      note pv = page_va_index [OF cn e(2,3)]
      have "\<not> (unat (kmap_va b) \<le> unat (page_va c i j) \<and> unat (page_va c i j) < unat (kmap_va b) + 4096 * length xs)"
        using window_index [OF pv(1) bn] free [OF M e(2)] unfolding pv(2) by satx
      then have "translate (ptm s') (cr3 s) (page_va c i j) = translate (ptm s) (cr3 s) (page_va c i j)"
        unfolding tr [OF pv(3)] by (simp only: if_False)
      then show ?thesis using w M e(2,3) unfolding c3 kwindow_def by simp
    qed
    then have "kwindow (M(b \<mapsto> xs)) K s'"
      unfolding kwindow_def using 2(3) ranges_of_upd(1) [of M b xs] \<open>M b = None\<close> by simp
    then show ?thesis using 2(1,2,4,5) \<open>M b = None\<close> by blast
  qed blast
qed

lemma kunmap_view_ok:
  assumes w: "kwindow M K s" and M: "M b = Some xs"
  obtains s' where "kunmap (kmap_va b) s = Some (Inr s')" "window_unmapped b (length xs) s s'" "kwindow (M(b := None)) K s'"
proof -
  have st: "kmap_state (ranges_of M) K s" using w by (simp add: kwindow_def)
  note r = kwindow_range [OF w M]
  obtain s' where s': "kunmap (kmap_va b) s = Some (Inr s')" "window_unmapped b (length xs) s s'"
    "kmap_state (ranges_of M - {(b, length xs)}) K s'"
    using kunmap_ok [OF st r(3)] .
  note tr = s'(2) [unfolded window_unmapped_def, THEN conjunct2, rule_format]
  have c3: "cr3 s' = cr3 s" using s'(2) unfolding window_unmapped_def window_only_def by auto
  have "translate (ptm s') (cr3 s') (page_va c i j) = Some (ys ! i + of_nat j)"
    if e: "(M(b := None)) c = Some ys" "i < length ys" "j < 4096" for c ys i j
  proof -
    have c: "M c = Some ys" "c \<noteq> b" using e(1) by (auto split: if_splits)
    note rc = kwindow_range [OF w c(1)]
    note pv = page_va_index [OF rc(1) e(2,3)]
    have "{b..<b + length xs} \<inter> {c..<c + length ys} = {}"
      using kmap_rep_apart [OF _ r(3) rc(3)] st c(2) unfolding kmap_state_def by blast
    moreover have "c + i \<in> {c..<c + length ys}" using e(2) by simp
    ultimately have "c + i \<notin> {b..<b + length xs}" by blast
    then have "\<not> (unat (kmap_va b) \<le> unat (page_va c i j) \<and> unat (page_va c i j) < unat (kmap_va b) + 4096 * length xs)"
      using window_index [OF pv(1) r(1)] unfolding pv(2) by satx
    then have "translate (ptm s') (cr3 s) (page_va c i j) = translate (ptm s) (cr3 s) (page_va c i j)"
      unfolding tr [OF pv(3)] by (simp only: if_False)
    then show ?thesis using w c(1) e(2,3) unfolding c3 kwindow_def by simp
  qed
  then have "kwindow (M(b := None)) K s'"
    unfolding kwindow_def using s'(3) ranges_of_upd(2) [of M b xs] M by simp
  with s'(1,2) show thesis by (rule that)
qed

text \<open>One after the other they change no translation at all.\<close>

lemma map_unmap_same:
  assumes w: "kwindow M K s" and b: "{b..<b + length xs} \<subseteq> kgaps (ranges_of M)" "1 \<le> length xs"
    and m: "window_mapped b xs s t" "window_unmapped b (length xs) t t'" and v: "unat v div 2 ^ 48 = 0xffff"
  shows "translate (ptm t') (cr3 t') v = translate (ptm s) (cr3 s) v"
proof -
  have c3: "cr3 t = cr3 s" "cr3 t' = cr3 t" using m unfolding window_mapped_def window_unmapped_def window_only_def by auto
  have bn: "b + length xs \<le> window_pages" by (rule kgaps_range [OF b])
  note t1 = m(1) [unfolded window_mapped_def, THEN conjunct2, rule_format, OF v]
  note t2 = m(2) [unfolded window_unmapped_def, THEN conjunct2, rule_format, OF v, unfolded c3(1)]
  show ?thesis
  proof (cases "unat (kmap_va b) \<le> unat v \<and> unat v < unat (kmap_va b) + 4096 * length xs")
    case True
    then have r: "in_window v" "kmap_index v \<in> {b..<b + length xs}" using window_range [OF bn] by blast+
    then have "translate (ptm s) (cr3 s) v = None" using kwindow_gap [OF w] b(1) by blast
    then show ?thesis using t2 True unfolding c3 by simp
  next
    case False
    then show ?thesis using t1 t2 unfolding c3 by (simp only: if_False)
  qed
qed

end
