(* ===== verification/KmapProps.thy ===== *)
theory KmapProps
  imports KmapView PagingProps
begin

text \<open>
  The properties of \<^verbatim>\<open>kmap\<close> and \<^verbatim>\<open>kunmap\<close>, each with an example it applies to.
\<close>

section \<open>An example\<close>

text \<open>The tables of the example are those that \<open>kmap_setup\<close> asks for, on an empty table in page 1.\<close>

lemma demo_window:
  obtains g where "tables_ok g 4 0x1000"
    "\<And>v. in_window v \<Longrightarrow> fst (leaf g 4 0x1000 v) = 1 \<and> translate g 0x1000 v = None"
proof -
  let ?h = "ptm demo_vm" and ?U = "tables (ptm demo_vm) 4 0x1000"
  have inv: "alloc_inv demo_vm {4..<2052} demo_vm ?U (card {4..<2052 :: nat})"
    unfolding alloc_inv_def using demo_vm_rep(1) demo_frames by (intro conjI exI [of _ "{4..<2052 :: nat}"] exI) auto
  have w: "unmapped ?h 4 0x1000 (unat KMAP_BEGIN) (unat KMAP_END - 1)" "sparse ?h 4 0x1000 (unat KMAP_BEGIN) (unat KMAP_END - 1)"
    unfolding unmapped_def sparse_def demo_vm_tables(3) by (simp_all add: not_present_def)
  have "1027 \<le> card {4..<2052 :: nat}" by simp
  from populate_window_ok [OF demo_vm_tables(1) subset_refl tables_page_ok [OF demo_vm_tables(1)] inv this w]
  obtain s' :: vm where s': "tables_ok (ptm s') 4 0x1000"
    "\<And>v. unat KMAP_BEGIN \<le> unat v \<Longrightarrow> unat v < unat KMAP_END \<Longrightarrow> fst (leaf (ptm s') 4 0x1000 v) = 1 \<and> not_present (leaf (ptm s') 4 0x1000 v)"
    by metis
  show thesis
  proof (rule that [OF s'(1)])
    fix v
    assume "in_window v"
    then show "fst (leaf (ptm s') 4 0x1000 v) = 1 \<and> translate (ptm s') 0x1000 v = None"
      unfolding translate_None in_window_def using s'(2) [of v] by (simp add: word_le_nat_alt word_less_nat_alt)
  qed
qed

text \<open>A zone of the pages from 4 to 2051, and the allocator of ranges behind it.\<close>

definition demo_kmap_links :: lheap where
  "demo_kmap_links = list_add_tail (zone_ll 0x100000) 0x100 (list_init 0x100 \<lparr>lh_next = (\<lambda>_. 0), lh_prev = (\<lambda>_. 0)\<rparr>)"

definition demo_before :: "(addr \<Rightarrow> u64) \<Rightarrow> vm" where
  "demo_before g = undefined\<lparr>ints_on := True, preempt_cnt := 0, ll := demo_kmap_links, zones_head := 0x100, zone_begin := \<lambda>_. 4,
     zone_end := \<lambda>_. 2052, ptm := g, cr3 := 0x1000, kmap_ranges := 0x10000000, kmap_free_ranges := 0x200000\<rparr>"

definition demo_kmap :: "(addr \<Rightarrow> u64) \<Rightarrow> vm" where
  "demo_kmap g = kmap_init (demo_before g)"

lemma demo_kmap_lists: "heap_lists demo_kmap_links [0x100 \<mapsto> [0x100008]]" "members [0x100 \<mapsto> [0x100008]] = {0x100, 0x100008}"
proof -
  have "circ demo_kmap_links 0x100 [0x100008]"
    by (simp add: demo_kmap_links_def circ_def list_op_defs zone_ll_def)
  then show "heap_lists demo_kmap_links [0x100 \<mapsto> [0x100008]]" by (simp add: heap_lists_def)
  show "members [0x100 \<mapsto> [0x100008]] = {0x100, 0x100008}" by (auto simp: members_def)
qed

lemma demo_page_addr:
  "page_addr 0x100178 (demo_before g) = Some (Inr 0x5000)" "page_addr 0x100198 (demo_before g) = Some (Inr 0x6000)"
proof -
  have n: "lh_next demo_kmap_links 0x100 = 0x100008" by (simp add: demo_kmap_links_def list_op_defs zone_ll_def)
  have d: "page_diff 0x100178 0x100000 = 1" "page_diff 0x100198 0x100000 = 2" by code_simp+
  show "page_addr 0x100178 (demo_before g) = Some (Inr 0x5000)" "page_addr 0x100198 (demo_before g) = Some (Inr 0x6000)"
    by (simp_all add: page_addr_def page_zone_def demo_before_def n d page_zone_from.simps)
qed

lemma demo_kmap_ok:
  assumes "tables_ok g 4 0x1000" "\<And>v. in_window v \<Longrightarrow> fst (leaf g 4 0x1000 v) = 1 \<and> translate g 0x1000 v = None"
  shows "kmap_state {} [0x100 \<mapsto> [0x100008]] (demo_kmap g)" "zones_head (demo_kmap g) = 0x100"
    "page_addr 0x100178 (demo_kmap g) = Some (Inr 0x5000)" "page_addr 0x100198 (demo_kmap g) = Some (Inr 0x6000)"
proof -
  let ?s = "demo_before g" and ?K = "[0x100 \<mapsto> [0x100008]] :: lfamily"
  have f: "ll ?s = demo_kmap_links" "kmap_ranges ?s = 0x10000000" "kmap_free_ranges ?s = 0x200000" "ptm ?s = g" "cr3 ?s = 0x1000"
    "zones_head ?s = 0x100" by (simp_all add: demo_before_def)
  have lay: "kmap_layout (kmap_ranges ?s) (kmap_free_ranges ?s)" by (simp add: kmap_layout_def f)
  have "a \<noteq> 0x100 \<and> a \<noteq> 0x100008" if "a \<in> kown ?s" for a
  proof -
    consider i where "i < window_pages" "a = knode (kmap_ranges ?s) i" | k where "k < KMAP_ORDERS" "a = khead (kmap_free_ranges ?s) k"
      using \<open>a \<in> kown ?s\<close> unfolding kown_def by auto
    then have "unat a \<ge> 0x200000"
    proof cases
      case 1
      then show ?thesis using unat_knode [OF lay, of i] by (simp add: f)
    next
      case 2
      then show ?thesis using unat_khead [OF lay, of k] by (simp add: f)
    qed
    then show ?thesis by auto
  qed
  then have "members ?K \<inter> kown ?s = {}" unfolding demo_kmap_lists(2) by blast
  from kmap_init_ok [OF _ lay this] have r: "kmap_rep {} ?K (demo_kmap g)" "ranges_only ?s (demo_kmap g)"
    using demo_kmap_lists(1) by (simp_all add: f demo_kmap_def)
  obtain h k where d: "demo_kmap g = ?s\<lparr>ll := h, kmap_pages := k\<rparr>" using r(2) unfolding ranges_only_def by blast
  show zh: "zones_head (demo_kmap g) = 0x100" by (simp add: d f)
  have "circ h 0x100 [0x100008]"
  proof -
    obtain segs L where i: "kinv segs L ?K (demo_kmap g)" using r(1) unfolding kmap_rep_def by blast
    have "(L |` (- kown (demo_kmap g))) 0x100 = Some [0x100008]" unfolding kinvD(8) [OF i, symmetric] by simp
    then have "L 0x100 = Some [0x100008]" by (auto simp: restrict_map_def split: if_splits)
    then show ?thesis using kinvD(2) [OF i] unfolding heap_lists_def by (simp add: d)
  qed
  moreover have "circ demo_kmap_links 0x100 [0x100008]" using demo_kmap_lists(1) by (simp add: heap_lists_def)
  ultimately have "zones_same [0x100008] ?s (demo_kmap g)" unfolding d zones_same_def by (simp add: f)
  then show "page_addr 0x100178 (demo_kmap g) = Some (Inr 0x5000)" "page_addr 0x100198 (demo_kmap g) = Some (Inr 0x6000)"
    using demo_page_addr [of g] page_addr_same by metis+
  have p: "ptm (demo_kmap g) = g" "cr3 (demo_kmap g) = 0x1000" by (simp_all add: d f)
  show "kmap_state {} ?K (demo_kmap g)"
    unfolding kmap_state_def p using r(1) assms by simp
qed

abbreviation (input) demo_pages_mapped :: "addr list" where "demo_pages_mapped \<equiv> [0x100178, 0x100198]"
abbreviation (input) demo_addrs :: "u64 list" where "demo_addrs \<equiv> [0x5000, 0x6000]"
abbreviation (input) demo_K :: lfamily where "demo_K \<equiv> [0x100 \<mapsto> [0x100008]]"

lemma demo_kmap_state:
  obtains s :: vm where "kwindow Map.empty demo_K s" "demo_K (zones_head s) = Some [0x100008]"
    "list_all2 (\<lambda>page x. page_addr page s = Some (Inr x) \<and> 4096 dvd unat x \<and> unat x < 2 ^ 52) demo_pages_mapped demo_addrs"
proof -
  obtain g where g: "tables_ok g 4 0x1000" "\<And>v. in_window v \<Longrightarrow> fst (leaf g 4 0x1000 v) = 1 \<and> translate g 0x1000 v = None"
    using demo_window by blast
  note d = demo_kmap_ok [OF g]
  have "list_all2 (\<lambda>page x. page_addr page (demo_kmap g) = Some (Inr x) \<and> 4096 dvd unat x \<and> unat x < 2 ^ 52) demo_pages_mapped demo_addrs"
    unfolding list.rel_inject using d(3,4) by (intro conjI) simp_all
  moreover have "kwindow Map.empty demo_K (demo_kmap g)" using d(1) by (simp add: kwindow_def ranges_of_def)
  moreover have "demo_K (zones_head (demo_kmap g)) = Some [0x100008]" using d(2) by simp
  ultimately show thesis using that by blast
qed

lemma demo_run: "{0..<0 + length demo_addrs} \<subseteq> kgaps (ranges_of Map.empty)" "2 \<le> length demo_addrs" "length demo_addrs < 65536"
  by (auto simp: kgaps_def ranges_of_def)

lemma demo_mapped:
  obtains s s' :: vm and b where "kwindow Map.empty demo_K s" "demo_K (zones_head s) = Some [0x100008]"
    "kmap demo_pages_mapped s = Some (Inr (kmap_va b, s'))" "kwindow [b \<mapsto> demo_addrs] demo_K s'"
    "list_all2 (\<lambda>page x. page_addr page s = Some (Inr x) \<and> 4096 dvd unat x \<and> unat x < 2 ^ 52) demo_pages_mapped demo_addrs"
proof -
  obtain s :: vm where s: "kwindow Map.empty demo_K s" "demo_K (zones_head s) = Some [0x100008]"
    "list_all2 (\<lambda>page x. page_addr page s = Some (Inr x) \<and> 4096 dvd unat x \<and> unat x < 2 ^ 52) demo_pages_mapped demo_addrs"
    by (rule demo_kmap_state)
  then show thesis using kmap_view_ok [OF s demo_run(2,3)] demo_run(1) that by blast
qed

section \<open>The properties\<close>

text \<open>C10. \<open>kmap\<close> of at least two pages, and fewer than 65536, takes a run of free pages of the window and maps
the pages there in order: afterwards the window shows what it showed before and the new pages, every address
outside the new range translates as before, and but for the tables, the links and the lengths of ranges the
state is the same, the lock released. It gives a null pointer only when no run of that many pages is free,
and then it has changed nothing.\<close>

theorem kmap_maps_pages:
  assumes "kwindow M K s" "K (zones_head s) = Some zs"
    and "list_all2 (\<lambda>page x. page_addr page s = Some (Inr x) \<and> 4096 dvd unat x \<and> unat x < 2 ^ 52) pages xs"
    and "2 \<le> length xs" "length xs < 65536"
  shows "kmap pages s = Some (Inr (NULL, s)) \<and> (\<forall>b. \<not> {b..<b + length xs} \<subseteq> kgaps (ranges_of M)) \<or>
    (\<exists>b s'. kmap pages s = Some (Inr (kmap_va b, s')) \<and> {b..<b + length xs} \<subseteq> kgaps (ranges_of M) \<and>
       kwindow (M(b \<mapsto> xs)) K s' \<and> window_mapped b xs s s')"
  using kmap_view_ok [OF assms] by blast

theorem kmap_maps_pages_witness:
  "\<exists>(s :: vm) b s'. kmap demo_pages_mapped s = Some (Inr (kmap_va b, s')) \<and> kwindow [b \<mapsto> demo_addrs] demo_K s'"
proof -
  obtain s :: vm where s: "kwindow Map.empty demo_K s" "demo_K (zones_head s) = Some [0x100008]"
    "list_all2 (\<lambda>page x. page_addr page s = Some (Inr x) \<and> 4096 dvd unat x \<and> unat x < 2 ^ 52) demo_pages_mapped demo_addrs"
    by (rule demo_kmap_state)
  show ?thesis using kmap_maps_pages [OF s demo_run(2,3)] demo_run(1) by blast
qed

text \<open>C11. \<open>kunmap\<close> of a mapped range comes to an end, makes the range free again and its addresses unmapped, and
keeps what else the window shows and every other translation. The next pages asked for may get the range.\<close>

theorem kunmap_unmaps_pages:
  assumes "kwindow M K s" "M b = Some xs"
  shows "\<exists>s'. kunmap (kmap_va b) s = Some (Inr s') \<and> kwindow (M(b := None)) K s' \<and> window_unmapped b (length xs) s s' \<and>
    {b..<b + length xs} \<subseteq> kgaps (ranges_of (M(b := None)))"
proof -
  obtain s' where s': "kunmap (kmap_va b) s = Some (Inr s')" "window_unmapped b (length xs) s s'" "kwindow (M(b := None)) K s'"
    by (rule kunmap_view_ok [OF assms])
  note r = kwindow_range [OF assms]
  have "{b..<b + length xs} \<inter> {c..<c + n} = {}" if "(c, n) \<in> ranges_of (M(b := None))" for c n
  proof -
    have c: "(c, n) \<in> ranges_of M" "(b, length xs) \<noteq> (c, n)" using that by (auto simp: ranges_of_def split: if_splits)
    show ?thesis using kmap_rep_apart [OF _ r(3) c] assms(1) unfolding kwindow_def kmap_state_def by blast
  qed
  then have "{b..<b + length xs} \<inter> kpages (ranges_of (M(b := None))) = {}" unfolding kpages_def by blast
  moreover have "{b..<b + length xs} \<subseteq> {..<window_pages}" using r(1) by auto
  ultimately show ?thesis using s' unfolding kgaps_def by blast
qed

theorem kunmap_unmaps_pages_witness:
  "\<exists>(s :: vm) b s'. kwindow [b \<mapsto> demo_addrs] demo_K s \<and> kunmap (kmap_va b) s = Some (Inr s') \<and> kwindow Map.empty demo_K s'"
proof -
  obtain s s' :: vm and b where "kwindow [b \<mapsto> demo_addrs] demo_K s'" by (rule demo_mapped)
  from kunmap_unmaps_pages [OF this, of b demo_addrs] this show ?thesis by auto
qed

text \<open>C12. \<open>kunmap\<close> of what \<open>kmap\<close> has just mapped gives the window and all translations of the kernel's half of the
addresses (from \<open>HIGHER_BASE\<close> on) back as they were; between two and 65535 pages are mapped.\<close>

theorem kmap_kunmap:
  assumes "kwindow M K s" "K (zones_head s) = Some zs"
    and "list_all2 (\<lambda>page x. page_addr page s = Some (Inr x) \<and> 4096 dvd unat x \<and> unat x < 2 ^ 52) pages xs"
    and "2 \<le> length xs" "length xs < 65536"
    and "kmap pages s = Some (Inr (p, s'))" "p \<noteq> NULL"
  shows "\<exists>s''. kunmap p s' = Some (Inr s'') \<and> kwindow M K s'' \<and>
    (\<forall>v. HIGHER_BASE \<le> v \<longrightarrow> translate (ptm s'') (cr3 s'') v = translate (ptm s) (cr3 s) v)"
proof -
  obtain b where b: "p = kmap_va b" "{b..<b + length xs} \<subseteq> kgaps (ranges_of M)" "kwindow (M(b \<mapsto> xs)) K s'" "M b = None"
      "window_mapped b xs s s'"
    using kmap_view_ok [OF assms(1-5)] assms(6,7) by auto
  have "(M(b \<mapsto> xs)) b = Some xs" by simp
  then obtain s'' where s'': "kunmap (kmap_va b) s' = Some (Inr s'')" "window_unmapped b (length xs) s' s''"
      "kwindow ((M(b \<mapsto> xs))(b := None)) K s''"
    by (rule kunmap_view_ok [OF b(3)])
  have "(M(b \<mapsto> xs))(b := None) = M" using b(4) by auto
  moreover have "translate (ptm s'') (cr3 s'') v = translate (ptm s) (cr3 s) v" if "HIGHER_BASE \<le> v" for v
    using map_unmap_same [OF assms(1) b(2) _ b(5) s''(2) high_region [OF that]] assms(4) by simp
  ultimately show ?thesis using s'' b(1) by auto
qed

theorem kmap_kunmap_witness:
  "\<exists>(s :: vm) p s' s''. kmap demo_pages_mapped s = Some (Inr (p, s')) \<and> p \<noteq> NULL \<and> kunmap p s' = Some (Inr s'') \<and>
    (\<forall>v. HIGHER_BASE \<le> v \<longrightarrow> translate (ptm s'') (cr3 s'') v = translate (ptm s) (cr3 s) v)"
proof -
  obtain s s' :: vm and b where s: "kwindow Map.empty demo_K s" "demo_K (zones_head s) = Some [0x100008]"
    "kmap demo_pages_mapped s = Some (Inr (kmap_va b, s'))" "kwindow [b \<mapsto> demo_addrs] demo_K s'"
    "list_all2 (\<lambda>page x. page_addr page s = Some (Inr x) \<and> 4096 dvd unat x \<and> unat x < 2 ^ 52) demo_pages_mapped demo_addrs"
    by (rule demo_mapped)
  have "b + length demo_addrs \<le> window_pages" using kwindow_range(1) [OF s(4), of b demo_addrs] by simp
  then have "unat (kmap_va b) \<noteq> 0" by (subst unat_kmap_va) simp_all
  then have "kmap_va b \<noteq> NULL" by auto
  with kmap_kunmap [OF s(1,2,5) demo_run(2,3) s(3)] s(3) show ?thesis by blast
qed

text \<open>C40. A request for 65536 pages or more gets a null pointer, also when the whole window of 524288 pages is
free: the search starts at order 16, where it finds no list to look at.\<close>

theorem kmap_large_fails:
  assumes "65536 \<le> length pages" "length pages < 2 ^ 64"
  shows "kmap pages s = Some (Inr (NULL, s))"
proof -
  let ?t = "s\<lparr>ints_on := False, preempt_cnt := preempt_cnt s + 1\<rparr>"
  have n: "length pages \<noteq> 0" "length pages \<noteq> 1" using assms(1) by linarith+
  have "raw_kmap pages ?t = Some (Inr (NULL, ?t))"
    unfolding raw_kmap_def if_not_P [OF n(1)] if_not_P [OF n(2)] kmap_alloc_range_large [OF assms] by simp
  then show ?thesis by (simp add: kmap_def spin_defs Let_def)
qed

theorem kmap_large_fails_witness:
  "\<exists>s :: vm. kgaps (ranges_of Map.empty) = {..<window_pages} \<and> kwindow Map.empty demo_K s \<and>
    kmap (replicate 65536 0x100178) s = Some (Inr (NULL, s))"
proof -
  obtain s :: vm where s: "kwindow Map.empty demo_K s" by (rule demo_kmap_state)
  have "kmap pages s = Some (Inr (NULL, s))" if "length pages = 65536" for pages
    by (rule kmap_large_fails) (simp_all add: that)
  note r = this [OF length_replicate]
  moreover have "kgaps (ranges_of Map.empty) = {..<window_pages}" by (simp add: kgaps_def ranges_of_def)
  ultimately show ?thesis using s by blast
qed

end
