(* ===== verification/Cpio.thy ===== *)
theory Cpio
  imports FileSystem Multiboot
begin

text \<open>
  Loading the initial file system, the rest of \<^verbatim>\<open>src/initramfs.c\<close> with \<^verbatim>\<open>inc/initramfs.h\<close>: the archive
  the boot loader left in memory is a sequence of cpio headers in hexadecimal, each followed by a name
  and the contents; every directory and every file is made with the operations of the file system.
\<close>

section \<open>State\<close>

record cpio = fs +
  initramfs_start :: u64
  initramfs_end :: u64
  files_count :: u32
  trailer :: addr               \<comment> \<open>the string literal \<^verbatim>\<open>"TRAILER!!!"\<close>\<close>
  console :: plog               \<comment> \<open>the calls of \<^verbatim>\<open>printf\<close>\<close>

definition cpio_print :: "string \<Rightarrow> u64 list \<Rightarrow> 'a cpio_scheme \<Rightarrow> 'a cpio_scheme" where
  "cpio_print fmt args s = s\<lparr>console := console s @ [(fmt, args)]\<rparr>"

text \<open>Offsets in the packed \<^verbatim>\<open>struct cpio_header\<close> of 110 bytes.\<close>

abbreviation (input) HEADER_SIZE :: u64 where "HEADER_SIZE \<equiv> 110"

definition cpio_mode :: "addr \<Rightarrow> addr" where "cpio_mode header = header + 14"
definition cpio_filesize :: "addr \<Rightarrow> addr" where "cpio_filesize header = header + 54"
definition cpio_namesize :: "addr \<Rightarrow> addr" where "cpio_namesize header = header + 94"

definition S_ISDIR :: "u64 \<Rightarrow> bool" where "S_ISDIR mode \<longleftrightarrow> mode AND 0xF000 = 0x4000"
definition S_ISREG :: "u64 \<Rightarrow> bool" where "S_ISREG mode \<longleftrightarrow> mode AND 0xF000 = 0x8000"

section \<open>Helpers\<close>

partial_function (option) cpio_streq :: "addr \<Rightarrow> addr \<Rightarrow> mem \<Rightarrow> bool option" where
  "cpio_streq c current_symb m =
     (if m c \<noteq> 0 then if m current_symb \<noteq> m c then Some False else cpio_streq (c + 1) (current_symb + 1) m
      else Some True)"

text \<open>
  The value of a digit is an \<^verbatim>\<open>int\<close> that is shifted as an \<^verbatim>\<open>int\<close>, so the first digit of eight reaches the
  sign bit; the sum is of 64 bits.
\<close>

definition hex_value :: "u8 \<Rightarrow> u32 option" where
  "hex_value c =
     (if c \<le> 0x39 \<and> 0x30 \<le> c then Some (ucast c - 0x30)
      else if c \<le> 0x46 \<and> 0x41 \<le> c then Some (ucast c - 0x41 + 10)
      else if c \<le> 0x66 \<and> 0x61 \<le> c then Some (ucast c - 0x61 + 10)
      else None)"

fun parse_hex_from :: "addr \<Rightarrow> nat list \<Rightarrow> u64 \<Rightarrow> mem \<Rightarrow> u64 res" where
  "parse_hex_from start [] r m = Inr r"
| "parse_hex_from start (i # is) r m =
     (case hex_value (m (start + of_nat i)) of
        None \<Rightarrow> Inl (Bug ''1'')
      | Some d \<Rightarrow> parse_hex_from start is (r + scast (d * push_bit (4 * (8 - i - 1)) 1)) m)"

definition parse_str_to_hex :: "addr \<Rightarrow> mem \<Rightarrow> u64 res" where
  "parse_str_to_hex start m = parse_hex_from start [0..<8] 0 m"

fun copy_chars :: "addr \<Rightarrow> addr \<Rightarrow> nat list \<Rightarrow> mem \<Rightarrow> mem" where
  "copy_chars dst src [] m = m"
| "copy_chars dst src (i # is) m = copy_chars dst src is (m(dst + of_nat i := m (src + of_nat i)))"

text \<open>A string in memory, when it is the format given to \<^verbatim>\<open>printf\<close>.\<close>

partial_function (option) text_at :: "addr \<Rightarrow> mem \<Rightarrow> string option" where
  "text_at a m =
     (if m a = 0 then Some [] else Option.bind (text_at (a + 1) m) (\<lambda>cs. Some (char_of (unat (m a)) # cs)))"

definition print_path :: "addr \<Rightarrow> string \<Rightarrow> 'a cpio_scheme \<Rightarrow> 'a cpio_scheme option" where
  "print_path path note s =
     Option.bind (text_at path (bytes s)) (\<lambda>t. Some (cpio_print (note @ newline) [] (cpio_print t [] s)))"

definition align4 :: "u64 \<Rightarrow> u64" where
  "align4 x = (x + 3) div 4 * 4"

text \<open>\<^verbatim>\<open>mem_alloc\<close> where the code stores through the result at once.\<close>

definition alloc_chars :: "u64 \<Rightarrow> 'a cpio_scheme \<Rightarrow> (addr \<times> 'a cpio_scheme) res option" where
  "alloc_chars sz s = bindO (mem_alloc sz s) (\<lambda>(p, s).
     if p = NULL then Some (Inl (Fault ''null pointer'')) else Some (Inr (p, s)))"

section \<open>One object\<close>

text \<open>From the name in \<open>name\<close> to the path, without a slash at the end for a directory.\<close>

definition build_path :: "addr \<Rightarrow> u64 \<Rightarrow> u64 \<Rightarrow> 'a cpio_scheme \<Rightarrow> (addr \<times> u64 \<times> 'a cpio_scheme) res option" where
  "build_path name name_size header s =
     bindO (alloc_chars (name_size + 2) s) (\<lambda>(path, s).
       let m = (bytes s)(path := SLASH);
           m = m(path + (name_size + 1) := 0);
           m = copy_chars (path + 1) name [0..<unat name_size] m;
           s = s\<lparr>bytes := m\<rparr>
       in bindO (mem_free name s) (\<lambda>s.
          bindO (Some (parse_str_to_hex (cpio_mode header) (bytes s))) (\<lambda>type.
            let s = (if S_ISDIR type \<and> bytes s (path + (name_size - 1)) = SLASH
                     then s\<lparr>bytes := (bytes s)(path + (name_size - 1) := 0)\<rparr> else s)
            in Some (Inr (path, type, s)))))"

definition make_object ::
    "addr \<Rightarrow> u64 \<Rightarrow> u64 \<Rightarrow> u64 \<Rightarrow> u64 \<Rightarrow> 'a cpio_scheme \<Rightarrow> (u64 \<times> 'a cpio_scheme) res option" where
  "make_object path type header_start name_size file_size s =
     (let phys_data_start = header_start + HEADER_SIZE + name_size;
          phys_data_start = align4 phys_data_start;
          data_start = va phys_data_start
      in if S_ISREG type then
           bindO (open_file path s) (\<lambda>(file, s).
           bindO (write_file file 0 data_start file_size s) (\<lambda>s.
           let s = close file s in
           Option.bind (print_path path ''      -- file'' s) (\<lambda>s.
           bindO (mem_free path s) (\<lambda>s. Some (Inr (phys_data_start + file_size, s))))))
         else if S_ISDIR type then
           Option.bind (print_path path ''      -- dir'' s) (\<lambda>s.
           bindO (mkdir path s) (\<lambda>s.
           bindO (mem_free path s) (\<lambda>s. Some (Inr (header_start + HEADER_SIZE + name_size, s)))))
         else Some (Inl (Bug ''1'')))"

definition handle_one_cpio_object :: "u64 \<Rightarrow> 'a cpio_scheme \<Rightarrow> (u64 \<times> 'a cpio_scheme) res option" where
  "handle_one_cpio_object header_start s =
     (let s = s\<lparr>files_count := files_count s + 1\<rparr>;
          s = cpio_print (''cpio files count: %d, header_start: %d'' @ newline) [ucast (files_count s), header_start] s;
          header_start = align4 header_start
      in if initramfs_end s \<le> header_start then Some (Inr (initramfs_end s, s))
         else
           let header = va header_start;
               name_start = va (header_start + HEADER_SIZE)
           in bindO (Some (parse_str_to_hex (cpio_filesize header) (bytes s))) (\<lambda>file_size.
              bindO (Some (parse_str_to_hex (cpio_namesize header) (bytes s))) (\<lambda>name_size.
              bindO (alloc_chars (name_size + 1) s) (\<lambda>(name, s).
              let m = (bytes s)(name + name_size := 0);
                  m = copy_chars name name_start [0..<unat name_size] m;
                  s = s\<lparr>bytes := m\<rparr>
              in Option.bind (if name_size = 11 then cpio_streq name (trailer s) (bytes s) else Some False) (\<lambda>last.
                 if last then Some (Inr (initramfs_end s, s))
                 else bindO (build_path name name_size header s) (\<lambda>(path, type, s).
                      make_object path type header_start name_size file_size s))))))"

section \<open>The archive\<close>

partial_function (option) load_loop :: "u64 \<Rightarrow> 'a cpio_scheme \<Rightarrow> 'a cpio_scheme res option" where
  "load_loop object s =
     (if object \<noteq> initramfs_end s
      then bindO (handle_one_cpio_object object s) (\<lambda>(object, s). load_loop object s)
      else Some (Inr s))"

definition load_cpio :: "'a cpio_scheme \<Rightarrow> 'a cpio_scheme res option" where
  "load_cpio s =
     (let s = s\<lparr>files_count := 0\<rparr>;
          s = cpio_print (''loading cpio initrams, initramfs start: %d, initramfs end: %d'' @ newline)
                [initramfs_start s, initramfs_end s] s
      in load_loop (initramfs_start s) s)"

end
