(* ===== verification/Startup.thy ===== *)
theory Startup
  imports Cpio
begin

text \<open>
  The last part of \<^verbatim>\<open>main\<close> in \<^verbatim>\<open>src/main.c\<close>: the file system is set up, the archive is loaded, and two
  functions try the result, with \<^verbatim>\<open>print_dir_names_list\<close> and \<^verbatim>\<open>print_name_array\<close> of \<^verbatim>\<open>src/file_system.c\<close>. The addresses of the string
  literals and of the local arrays are parameters; \<^verbatim>\<open>printf\<close> is a log of its calls, with a text in memory
  read where it is the format.
\<close>

section \<open>Printing\<close>

definition print_text :: "addr \<Rightarrow> 'a cpio_scheme \<Rightarrow> 'a cpio_scheme option" where
  "print_text a s = Option.bind (text_at a (bytes s)) (\<lambda>t. Some (cpio_print t [] s))"

partial_function (option) print_dir_names_list :: "addr \<Rightarrow> 'a cpio_scheme \<Rightarrow> 'a cpio_scheme option" where
  "print_dir_names_list dnl s =
     (if dnl \<noteq> NULL
      then Option.bind (print_text (dn_names s dnl) s) (\<lambda>s.
           let s = cpio_print '', '' [] s in print_dir_names_list (dn_next s dnl) s)
      else Some (cpio_print newline [] s))"

text \<open>\<^verbatim>\<open>print_name_array\<close>, the levels of a path; nothing calls it.\<close>

fun print_levels :: "addr \<Rightarrow> nat list \<Rightarrow> 'a cpio_scheme \<Rightarrow> 'a cpio_scheme option" where
  "print_levels array [] s = Some s"
| "print_levels array (i # is) s =
     Option.bind (print_text (ptrs s (array + 8 * of_nat i)) s) (\<lambda>s. print_levels array is (cpio_print '' '' [] s))"

definition print_name_array :: "name_array \<Rightarrow> 'a cpio_scheme \<Rightarrow> 'a cpio_scheme option" where
  "print_name_array = (\<lambda>(array, levels_num) s.
     Option.bind (print_levels array [0..<levels_num] s) (\<lambda>s. Some (cpio_print newline [] s)))"

definition print_bytes_read :: "u64 \<Rightarrow> 'a cpio_scheme \<Rightarrow> 'a cpio_scheme" where
  "print_bytes_read bytes_count s = cpio_print (newline @ ''bytes read: %d'' @ newline) [bytes_count] s"

section \<open>The checks\<close>

definition list_dir :: "addr \<Rightarrow> addr \<Rightarrow> 'a cpio_scheme \<Rightarrow> 'a cpio_scheme res option" where
  "list_dir garbage dir_name s =
     bindO (readdir garbage dir_name s) (\<lambda>(names, s). map_option Inr (print_dir_names_list names s))"

definition read_and_print :: "addr \<Rightarrow> addr \<Rightarrow> u64 \<Rightarrow> 'a cpio_scheme \<Rightarrow> 'a cpio_scheme res option" where
  "read_and_print file buf n s =
     bindO (read_file file 0 buf n s) (\<lambda>(bytes_count, s).
     Option.bind (print_text buf s) (\<lambda>s. Some (Inr (print_bytes_read bytes_count s))))"

definition test_file_system :: "(string \<Rightarrow> addr) \<Rightarrow> addr \<Rightarrow> addr \<Rightarrow> 'a cpio_scheme \<Rightarrow> 'a cpio_scheme res option" where
  "test_file_system literal garbage strgot s =
     bindO (mkdir (literal ''/data'') s) (\<lambda>s.
     bindO (open_file (literal ''/data/input'') s) (\<lambda>(file, s).
     bindO (list_dir garbage (literal ''/data'') s) (\<lambda>s.
     bindO (write_file file 0 (literal ''abcd'') 5 s) (\<lambda>s.
     bindO (write_file file 1 (literal ''xy'') 2 s) (\<lambda>s.
     bindO (read_and_print file strgot 5 s) (\<lambda>s.
     bindO (read_and_print file strgot 15 s) (\<lambda>s.
     Some (Inr (close file s)))))))))"

text \<open>The array \<open>cpp\<close> has 15 bytes; the read is limited by the size of the file only.\<close>

definition check_cpio :: "(string \<Rightarrow> addr) \<Rightarrow> addr \<Rightarrow> addr \<Rightarrow> 'a cpio_scheme \<Rightarrow> 'a cpio_scheme res option" where
  "check_cpio literal garbage cpp s =
     (let s = cpio_print (newline @ newline @ ''===checking cpio==='' @ newline @ newline) [] s
      in bindO (list_dir garbage (literal ''/initramfs'') s) (\<lambda>s.
         bindO (list_dir garbage (literal ''/initramfs/pumpum'') s) (\<lambda>s.
         bindO (list_dir garbage (literal ''/initramfs/tratata'') s) (\<lambda>s.
         let s = s\<lparr>bytes := (bytes s)(cpp + 14 := 0)\<rparr>
         in bindO (open_file (literal ''/initramfs/pumpum/2.cpp'') s) (\<lambda>(file, s).
            let s = cpio_print (''size: %d'' @ newline) [n_size s file] s
            in bindO (read_file file 0 cpp 25000000 s) (\<lambda>(bytes_count, s).
               let s = close file s
               in Option.bind (print_text cpp s) (\<lambda>s.
                  let s = print_bytes_read bytes_count s
                  in Some (Inr (cpio_print (newline @ newline @ ''===checking cpio: ok==='' @ newline @ newline) [] s)))))))))"

text \<open>\<^verbatim>\<open>main\<close> from \<^verbatim>\<open>init_file_system\<close> on; afterwards the thread is the idle thread.\<close>

definition main_files :: "(string \<Rightarrow> addr) \<Rightarrow> addr \<Rightarrow> addr \<Rightarrow> addr \<Rightarrow> 'a cpio_scheme \<Rightarrow> 'a cpio_scheme res option" where
  "main_files literal garbage strgot cpp s =
     bindO (init_file_system 100 s) (\<lambda>s.
     bindO (load_cpio s) (\<lambda>s.
     let s = cpio_print (''Tests Begin'' @ newline) [] s
     in bindO (test_file_system literal garbage strgot s) (\<lambda>s.
        bindO (check_cpio literal garbage cpp s) (\<lambda>s.
        Some (Inr (cpio_print (''Tests Finished'' @ newline) [] s))))))"

section \<open>What a list of names prints\<close>

text \<open>The names of a chain of \<^verbatim>\<open>dir_names_list_t\<close>.\<close>

fun names_at :: "addr list \<Rightarrow> u8 list list \<Rightarrow> 'a cpio_scheme \<Rightarrow> bool" where
  "names_at [] [] s = True"
| "names_at (d # ds) (t # ts) s = (d \<noteq> NULL \<and> dn_next s d = (case ds of [] \<Rightarrow> NULL | e # _ \<Rightarrow> e) \<and>
     cstring (dn_names s d) t (bytes s) \<and> names_at ds ts s)"
| "names_at _ _ s = False"

definition text_of :: "u8 list \<Rightarrow> string" where
  "text_of cs = map (\<lambda>c. char_of (unat c)) cs"

lemma text_at_cstring: "cstring a cs m \<Longrightarrow> text_at a m = Some (text_of cs)"
proof (induction cs arbitrary: a)
  case Nil
  then show ?case by (subst text_at.simps) (simp add: cstring_Nil text_of_def)
next
  case (Cons c cs)
  then show ?case by (subst text_at.simps) (simp add: cstring_Cons text_of_def)
qed

lemma names_at_print: "names_at ds ts (cpio_print f xs s) = names_at ds ts s"
  by (induction ds ts s rule: names_at.induct) (auto simp: cpio_print_def)

text \<open>Each name is printed in order, with a comma behind it, and the line ended.\<close>

lemma print_dir_names_list_ok:
  "names_at ds ts s \<Longrightarrow> print_dir_names_list (case ds of [] \<Rightarrow> NULL | d # _ \<Rightarrow> d) s =
     Some (s\<lparr>console := console s @ concat (map (\<lambda>t. [(text_of t, []), ('', '', [])]) ts) @ [(newline, [])]\<rparr>)"
proof (induction ds arbitrary: ts s)
  case Nil
  then have "ts = []" by (cases ts) simp_all
  then show ?case by (subst print_dir_names_list.simps) (simp add: cpio_print_def)
next
  case (Cons d ds)
  obtain t us where ts: "ts = t # us" using Cons.prems by (cases ts) simp_all
  let ?s = "cpio_print '', '' [] (cpio_print (text_of t) [] s)"
  have p: "print_text (dn_names s d) s = Some (cpio_print (text_of t) [] s)" "d \<noteq> NULL"
    "dn_next ?s d = (case ds of [] \<Rightarrow> NULL | e # _ \<Rightarrow> e)"
    using Cons.prems text_at_cstring [of "dn_names s d" t "bytes s"] by (simp_all add: ts print_text_def cpio_print_def)
  have "names_at ds us ?s" using Cons.prems by (simp add: ts names_at_print)
  note IH = Cons.IH [OF this]
  show ?case
    by (subst print_dir_names_list.simps) (simp add: p IH ts Let_def, simp add: cpio_print_def)
qed

text \<open>So is each level of a path, with a space behind it.\<close>

lemma print_levels_ok:
  "list_all2 (\<lambda>i t. cstring (ptrs s (array + 8 * of_nat i)) t (bytes s)) is ts \<Longrightarrow>
   print_levels array is s = Some (s\<lparr>console := console s @ concat (map (\<lambda>t. [(text_of t, []), ('' '', [])]) ts)\<rparr>)"
proof (induction "is" arbitrary: ts s)
  case (Cons i js)
  then obtain t us where ts: "ts = t # us" and t: "cstring (ptrs s (array + 8 * of_nat i)) t (bytes s)"
    and us: "list_all2 (\<lambda>i t. cstring (ptrs s (array + 8 * of_nat i)) t (bytes s)) js us"
    by (auto simp: list_all2_Cons1)
  let ?s = "cpio_print '' '' [] (cpio_print (text_of t) [] s)"
  have "print_levels array js ?s = Some (?s\<lparr>console := console ?s @ concat (map (\<lambda>t. [(text_of t, []), ('' '', [])]) us)\<rparr>)"
    by (rule Cons.IH) (use us in \<open>simp add: cpio_print_def\<close>)
  then show ?case using text_at_cstring [OF t] by (simp add: ts print_text_def) (simp add: cpio_print_def)
qed simp

lemma print_name_array_ok:
  assumes "list_all2 (\<lambda>i t. cstring (ptrs s (array + 8 * of_nat i)) t (bytes s)) [0..<n] ts"
  shows "print_name_array (array, n) s =
    Some (s\<lparr>console := console s @ concat (map (\<lambda>t. [(text_of t, []), ('' '', [])]) ts) @ [(newline, [])]\<rparr>)"
  using print_levels_ok [OF assms] by (simp add: print_name_array_def cpio_print_def)

end
