(* ===== verification/Spec2Isabelle.thy ===== *)
theory Spec2Isabelle
  imports PageProps SlabPool FileProps ThreadProps TextProps DeviceProps BallocProps PagingProps KmapProps Startup
begin

text \<open>
  A verification library for the kernel under \<^verbatim>\<open>src/\<close>, a small operating system for x86-64: its memory
  managers, its file system, its threads and their synchronisation, its drivers and its library of C
  functions. Every definition that models code keeps the name of its C function (with \<^verbatim>\<open>raw_\<close> for a leading
  double underscore) and performs its assignments in their order.

  \<^bold>\<open>Conventions.\<close> A machine word is a \<open>u64\<close>, \<open>u32\<close>, \<open>u16\<close> or \<open>u8\<close>, with the wrap-around of the machine; an address
  is a \<open>u64\<close>. The counts of \<^verbatim>\<open>print.c\<close>, of type \<^verbatim>\<open>int\<close>, are \<open>i32\<close>: conversions cut and extend them, and a sum that
  overflows is a fault. A structure in memory is a set of functions from addresses to the values of its fields; the
  links of all lists are one heap (\<open>KList\<close>), and bytes are another (\<open>CString\<close>). The state is a record which
  each component extends: \<open>cpu\<close>, \<open>pgs\<close> (pages), \<open>slab\<close> (objects), and from there \<open>fs\<close> and \<open>cpio\<close> (files), \<open>kmem\<close>
  and \<open>vm\<close> (start of the memory managers, page tables), and \<open>threads\<close> and its extension for the waiting
  queues. A function that can stop in \<^verbatim>\<open>BUG\<close> or \<^verbatim>\<open>BUG_ON\<close>, or that would use a null pointer or leave an array,
  has a result \<open>'a res\<close>: \<open>Inl (Bug msg)\<close>, \<open>Inl (Fault msg)\<close> or \<open>Inr x\<close>. A loop that may run for ever is a
  \<open>partial_function (option)\<close>: \<open>None\<close> says that it does not end, so that every \<open>Some\<close> in a property is also a
  statement of termination. There is no fuel in the models. Loops over a fixed number of rounds are
  recursions over the list of the indexes.

  \<^bold>\<open>Parts and theories.\<close>
  \<^item> \<open>Prelude\<close>: types, results, facts on words. \<open>KList\<close> (\<^verbatim>\<open>list.c\<close>): the heap of links, abstracted to a family of
    lists, with a locale for what the operations do to the family. \<open>Spinlock\<close> (\<^verbatim>\<open>spinlock.c\<close>, \<^verbatim>\<open>ints.h\<close>): a lock is a
    change of the interrupt flag and of the preemption counter, as on the one processor the kernel runs on.
  \<^item> The page allocator (\<^verbatim>\<open>memory.c\<close>): \<open>PageAlloc\<close> has the code, \<open>Buddy\<close> the invariant of a zone and what each
    operation does to its free and used blocks, \<open>PageZones\<close> the walks over the zones, \<open>PageSetup\<close> the making of
    zones, \<open>PageIface\<close> the contract \<open>page_provider\<close> for the clients, with an interpretation for \<^verbatim>\<open>page_alloc\<close> and
    one for \<^verbatim>\<open>__page_alloc\<close>, \<open>PageProps\<close> the properties. \<open>Boot\<close> has \<^verbatim>\<open>page_alloc_setup\<close> and the dump of the zones.
  \<^item> The slab allocator (\<^verbatim>\<open>alloc.c\<close>): \<open>Slab\<close> has the code, \<open>SlabPool\<close> shows the layout of a pool, that its bitmap
    is the set of the objects in use, and that allocation and freeing in a pool are an insertion and a removal.
  \<^item> The bootstrap allocator (\<^verbatim>\<open>balloc.c\<close>) on red-black trees (\<^verbatim>\<open>rbtree.c\<close>): \<open>RBTree\<close> and \<open>Balloc\<close> have the code;
    \<open>RBShape\<close>, \<open>RBWalk\<close>, \<open>RBInsert\<close>, \<open>RBErase\<close>, \<open>RBSeq\<close> abstract the words of the nodes to a tree with a focus and
    show rotation, insertion, removal and the walks, with a locale for a sequence of nodes; \<open>BallocPool\<close> is the
    pool of 128 nodes, \<open>BallocSpec\<close>, \<open>BallocAlloc\<close>, \<open>BallocRel\<close>, \<open>BallocBoot\<close> refine the operations to sets of
    addresses, up to the setup from the memory map (\<open>Multiboot\<close>); \<open>BallocProps\<close> has the properties.
  \<^item> Page tables (\<^verbatim>\<open>paging.c\<close>): \<open>Paging\<close> has the code. \<open>PageTable\<close> reads tables as the processor does; \<open>PageMap\<close> shows
    what \<^verbatim>\<open>__pt_map_pages\<close> does to a well-formed tree of tables, for any pool that satisfies the locale
    \<open>table_pool\<close>; \<open>PageWalk\<close> (the pool of \<^verbatim>\<open>paging_setup\<close>, and the null pool) and \<open>PagePool\<close> (the pool of
    \<^verbatim>\<open>kmap_setup\<close>, on the page allocator) interpret it; \<open>PageWindow\<close> maps and clears page by page; \<open>PagingProps\<close>.
  \<^item> The window of \<^verbatim>\<open>kmap\<close>: \<open>KmapRanges\<close> is the allocator of ranges with its boundary tags and lists, \<open>KmapOps\<close>
    refines it to the set of ranges in use, \<open>KmapMaps\<close> joins it to the page tables and the lock, \<open>KmapView\<close>
    refines both to a map from ranges to the pages shown there; \<open>KmapProps\<close>.
  \<^item> Files (\<^verbatim>\<open>file_system.c\<close>): \<open>FileSystem\<close>, \<open>FileBlocks\<close>, \<open>FileProps\<close>; the archive the boot loader brings
    (\<^verbatim>\<open>initramfs.c\<close>): \<open>Multiboot\<close> and \<open>Cpio\<close>; the end of \<^verbatim>\<open>main\<close>: \<open>Startup\<close>.
  \<^item> Threads (\<^verbatim>\<open>threads.c\<close>, \<^verbatim>\<open>mutex.c\<close>, \<^verbatim>\<open>condition.c\<close>): \<open>Threads\<close> and \<open>Sync\<close> have the code, with the saved registers and
    stacks of every thread; \<open>Scheduler\<close> and \<open>SyncSpec\<close> refine it to a run queue, an owner of each mutex and the
    queues of waiting threads; \<open>ThreadProps\<close>.
  \<^item> Drivers (\<^verbatim>\<open>serial.c\<close>, \<^verbatim>\<open>i8259a.c\<close>, \<^verbatim>\<open>ints.c\<close>, \<^verbatim>\<open>time.c\<close>, \<^verbatim>\<open>backtrace.c\<close>): \<open>Devices\<close>, \<open>DeviceProps\<close>. The bytes a device
    answers with are a sequence it decides, the bytes sent are a log.
  \<^item> Library functions (\<^verbatim>\<open>string.c\<close>, \<^verbatim>\<open>ctype.c\<close>, \<^verbatim>\<open>stdlib.c\<close>, \<^verbatim>\<open>print.c\<close>): \<open>CString\<close>, \<open>Ctype\<close>, \<open>Stdlib\<close>, \<open>Print\<close>, \<open>PrintSpec\<close>,
    \<open>TextProps\<close>.

  \<^bold>\<open>How the parts meet.\<close> \<^verbatim>\<open>main\<close> starts them in the order of \<open>memory_setup\<close> in \<open>Paging\<close>: the bootstrap allocator is made
  from the memory map, gives the pages of the first tables and the descriptors of the zones, and its free
  ranges go to the page allocator; this one gives pages to the slab allocator, to the tables of the window and
  to the stacks; the file system takes blocks and nodes from the slab allocator. The properties follow the
  same order. What a component promises is stated on sets and lists (free pages, free addresses, bytes of a
  file, translations, run queue), and the lemmas of its theories show that the code refines it.

  \<^bold>\<open>Bounds.\<close> The pool of the bootstrap allocator has 128 nodes: its operations are total while nodes are left, and
  a memory map of at most 40 entries leaves enough for the setup. \<^verbatim>\<open>paging_setup\<close> needs a page for each 512 GB of
  memory and five more, the window of \<^verbatim>\<open>kmap\<close> at most 1027 pages for its tables. A request to \<^verbatim>\<open>kmap\<close> of 65536
  pages or more fails always.

  \<^bold>\<open>Parameters.\<close> Addresses the linker or the compiler chooses (static variables, string literals, local arrays and
  structures) are parameters or fields of the state, with the separation the properties need as a hypothesis.

  \<^bold>\<open>Not modelled.\<close> The assembly files \<^verbatim>\<open>bootstrap.S\<close>, \<^verbatim>\<open>entry.S\<close>, \<^verbatim>\<open>switch.S\<close> and \<^verbatim>\<open>videomem.S\<close>: the entry from the boot
  loader, the saving of registers around an interrupt, and the text screen; the switch of stacks appears in
  \<open>Threads\<close> by its effect on the registers it saves. The caches of translations: \<^verbatim>\<open>flush_tlb_addr\<close> is recorded
  only. Several processors: the kernel uses one. In \<^verbatim>\<open>main.c\<close>, the tests that are commented out, the wait for a
  debugger, and \<^verbatim>\<open>main\<close> as one function: its device part and its memory part work on separate states. Lists of
  pools in a slab cache, and the allocation of a structure by \<^verbatim>\<open>mem_alloc\<close>, are modelled and executable; of them
  the properties cover the pools only.
\<close>

end
